(* ===== verification/Prelude.thy ===== *)
theory Prelude
  imports Main "HOL-Library.Word" "HOL-Library.Signed_Division"
begin

unbundle bit_operations_syntax

text \<open>
  Shared material of the libnax development: the fixed-width types of the C sources, the
  status convention of \<^verbatim>\<open>include/compiler.h\<close>, C array access with explicit failure, and the
  generic lemmas on lists, options and words that the component theories use.
\<close>

section \<open>Fixed-width integers\<close>

type_synonym u8 = "8 word"
type_synonym u16 = "16 word"
type_synonym u32 = "32 word"
type_synonym u64 = "64 word"
type_synonym bytes = "8 word list"

named_theorems model_defs \<open>definitions of the model that component proofs unfold together\<close>

section \<open>Status values\<close>

text \<open>
  \<^verbatim>\<open>nsp_status_t\<close> is a signed integer, negative for an error. \<^verbatim>\<open>posix__makeerror\<close> negates a
  positive error number and leaves anything else alone.
\<close>

type_synonym nsp_status = int

definition NSP_STATUS_SUCCESSFUL :: nsp_status where
  "NSP_STATUS_SUCCESSFUL = 0"

definition NSP_STATUS_FATAL :: nsp_status where
  "NSP_STATUS_FATAL = - 1"

definition NSP_SUCCESS :: "nsp_status \<Rightarrow> bool" where
  "NSP_SUCCESS status \<longleftrightarrow> status \<ge> 0"

definition posix__makeerror :: "int \<Rightarrow> nsp_status" where
  "posix__makeerror e = (if e \<le> 0 then e else - e)"

definition EIO :: int where "EIO = 5"
definition ENOMEM :: int where "ENOMEM = 12"
definition EEXIST :: int where "EEXIST = 17"
definition ENODEV :: int where "ENODEV = 19"
definition EINVAL :: int where "EINVAL = 22"

lemmas errno_defs = EIO_def ENOMEM_def EEXIST_def ENODEV_def EINVAL_def

lemmas status_defs =
  NSP_STATUS_SUCCESSFUL_def NSP_STATUS_FATAL_def NSP_SUCCESS_def posix__makeerror_def

lemma makeerror_nonpos: "posix__makeerror e \<le> 0"
  by (simp add: posix__makeerror_def)

lemma makeerror_success_iff: "NSP_SUCCESS (posix__makeerror e) \<longleftrightarrow> e = 0"
  by (auto simp: status_defs)

section \<open>Powers of two\<close>

definition is_powerof_2 :: "'a::len word \<Rightarrow> bool" where
  "is_powerof_2 x \<longleftrightarrow> x \<noteq> 0 \<and> x AND (x - 1) = 0"

lemma nat_log_exists: "0 < n \<Longrightarrow> \<exists>k. 2 ^ k \<le> n \<and> n < 2 ^ Suc k" for n :: nat
  using ex_power_ivl1 [of 2 n] by auto

lemma powerof_2_exp:
  fixes x :: "'a::len word"
  assumes "is_powerof_2 x"
  shows "\<exists>k < LENGTH('a). unat x = 2 ^ k"
proof -
  have "0 < unat x" using assms by (simp add: is_powerof_2_def unat_gt_0)
  then obtain k where k: "2 ^ k \<le> unat x" "unat x < 2 ^ Suc k" using nat_log_exists by blast
  have "unat x = 2 ^ k"
  proof (rule ccontr)
    assume "unat x \<noteq> 2 ^ k"
    then have "unat (x - 1) = unat x - 1" "2 ^ k \<le> unat x - 1" "unat x - 1 < 2 ^ Suc k"
      using k unat_minus_one [of x] assms by (auto simp: is_powerof_2_def)
    then have "unat x div 2 ^ k = 1" "unat (x - 1) div 2 ^ k = 1"
      using k by (auto intro!: div_nat_eqI)
    then have "bit (unat x) k" "bit (unat (x - 1)) k" by (simp_all add: bit_iff_odd)
    then have "bit (x AND (x - 1)) k" by (simp add: bit_and_iff bit_unsigned_iff)
    then show False using assms by (simp add: is_powerof_2_def)
  qed
  moreover have "k < LENGTH('a)"
  proof (rule ccontr)
    assume "\<not> k < LENGTH('a)"
    then have "(2::nat) ^ LENGTH('a) \<le> 2 ^ k" by (simp add: power_increasing)
    moreover have "unat x < 2 ^ LENGTH('a)" by (rule unsigned_less)
    ultimately show False using k(1) by linarith
  qed
  ultimately show ?thesis by blast
qed

lemma exp_powerof_2:
  fixes x :: "'a::len word"
  assumes "k < LENGTH('a)" "unat x = 2 ^ k"
  shows "is_powerof_2 x"
proof -
  have x: "x = 2 ^ k" using assms(2) by (metis of_nat_unat ucast_id of_nat_power of_nat_numeral)
  have "bit (x AND (x - 1)) n \<longleftrightarrow> False" for n
    by (auto simp: x bit_and_iff bit_exp_iff mask_eq_exp_minus_1 [symmetric] bit_mask_iff)
  then have "x AND (x - 1) = 0" by (intro bit_eqI) simp
  then show ?thesis using assms by (auto simp: is_powerof_2_def)
qed

lemma unat_mask_mod:
  fixes x y :: "'a::len word"
  assumes "is_powerof_2 x"
  shows "unat (y AND (x - 1)) = unat y mod unat x"
proof -
  obtain k where k: "k < LENGTH('a)" "unat x = 2 ^ k" using powerof_2_exp [OF assms] by blast
  then have "x = 2 ^ k" by (metis of_nat_unat ucast_id of_nat_power of_nat_numeral)
  then have "y AND (x - 1) = take_bit k y" by (simp add: take_bit_eq_mask mask_eq_exp_minus_1)
  then have "unat (y AND (x - 1)) = take_bit k (unat y)" by (simp only: unsigned_take_bit_eq)
  then show ?thesis using k by (simp add: take_bit_eq_mod)
qed

lemma counter_mod:
  fixes x y z :: "'a::len word"
  assumes "is_powerof_2 z"
  shows "unat (x + y) mod unat z = (unat x + unat y) mod unat z"
proof -
  obtain k where k: "k < LENGTH('a)" "unat z = 2 ^ k" using powerof_2_exp [OF assms] by blast
  then have "unat z dvd 2 ^ LENGTH('a)" by (simp add: le_imp_power_dvd)
  then show ?thesis by (simp add: unat_word_ariths(1) mod_mod_cancel)
qed

lemma unat_min: "unat (min a b) = min (unat a) (unat b)" for a b :: "'a::len word"
  by (simp add: min_def word_le_nat_alt)

lemma mod_offset:
  fixes s x k :: nat
  assumes "0 < s" "k \<le> s"
  shows "(x + k) mod s = (if x mod s + k < s then x mod s + k else x mod s + k - s)"
proof -
  have "(x + k) mod s = (x mod s + k) mod s" by (simp add: mod_add_left_eq)
  moreover have "x mod s + k - s < s" using assms mod_less_divisor [of s x] by linarith
  ultimately show ?thesis by (auto simp: le_mod_geq not_less)
qed

lemma u8_bit_beyond [simp]: "8 \<le> n \<Longrightarrow> \<not> bit (x :: u8) n"
  using bit_imp_le_length [of x n] by auto

lemma u8_eqI:
  fixes a b :: u8
  assumes "bit a 0 = bit b 0" "bit a 1 = bit b 1" "bit a 2 = bit b 2" "bit a 3 = bit b 3"
    and "bit a 4 = bit b 4" "bit a 5 = bit b 5" "bit a 6 = bit b 6" "bit a 7 = bit b 7"
  shows "a = b"
proof (rule bit_word_eqI)
  fix n assume "n < LENGTH(8)"
  then have "n \<in> {0, 1, 2, 3, 4, 5, 6, 7}" by auto
  then show "bit a n = bit b n" using assms by auto
qed

text \<open>The bytes of a 32-bit word from the least significant one, its layout in memory on the machines the code runs on.\<close>

definition le_bytes :: "u32 \<Rightarrow> bytes" where
  "le_bytes v = [ucast v, ucast (drop_bit 8 v), ucast (drop_bit 16 v), ucast (drop_bit 24 v)]"

definition of_le_bytes :: "bytes \<Rightarrow> u32" where
  "of_le_bytes b = ucast (b ! 0) OR push_bit 8 (ucast (b ! 1)) OR push_bit 16 (ucast (b ! 2)) OR push_bit 24 (ucast (b ! 3))"

lemma bit_le_byte: "bit (ucast (drop_bit k v) :: u8) n \<longleftrightarrow> n < 8 \<and> bit v (k + n)" for v :: u32
  by (simp add: bit_simps)

lemma of_le_bytes_le_bytes: "of_le_bytes (le_bytes v) = v"
proof (rule bit_word_eqI)
  fix n assume "n < LENGTH(32)"
  then consider "n < 8" | "8 \<le> n" "n < 16" | "16 \<le> n" "n < 24" | "24 \<le> n" "n < 32" by fastforce
  then show "bit (of_le_bytes (le_bytes v)) n = bit v n"
    by cases (auto simp: of_le_bytes_def le_bytes_def bit_simps)
qed

lemma le_bytes_of_le_bytes: "length b = 4 \<Longrightarrow> le_bytes (of_le_bytes b) = b"
proof -
  assume "length b = 4"
  then obtain b0 b1 b2 b3 where b: "b = [b0, b1, b2, b3]"
    by (auto simp: numeral_eq_Suc length_Suc_conv)
  have "ucast (of_le_bytes b) = b0" "ucast (drop_bit 8 (of_le_bytes b)) = b1"
    "ucast (drop_bit 16 (of_le_bytes b)) = b2" "ucast (drop_bit 24 (of_le_bytes b)) = b3"
    unfolding b of_le_bytes_def by (rule u8_eqI; simp add: bit_simps)+
  then show ?thesis by (simp add: le_bytes_def b)
qed

lemma length_le_bytes [simp]: "length (le_bytes v) = 4"
  by (simp add: le_bytes_def)

lemma ucast_drop_of_nat: "k + 8 \<le> 32 \<Longrightarrow> (ucast (drop_bit k (of_nat m :: u32)) :: u8) = of_nat (drop_bit k m)"
  by (rule bit_word_eqI) (auto simp: bit_simps)

lemma le_bytes_64:
  "map (\<lambda>i. of_nat (m div 256 ^ i)) [0 ..< 8] = le_bytes (of_nat m) @ le_bytes (of_nat (m div 2 ^ 32))"
proof -
  have d: "m div 2 ^ 32 = drop_bit 32 m" "m div 256 ^ i = drop_bit (8 * i) m" for i
    by (simp_all add: drop_bit_eq_div power_mult)
  have "le_bytes (of_nat m) @ le_bytes (of_nat (drop_bit 32 m)) = map (\<lambda>k. of_nat (drop_bit k m)) [0, 8, 16, 24, 32, 40, 48, 56]"
    using ucast_drop_of_nat [of 0 m] ucast_drop_of_nat [of 0 "drop_bit 32 m"]
    by (simp add: le_bytes_def ucast_drop_of_nat)
  then show ?thesis unfolding d by (simp add: upt_rec)
qed

text \<open>The usual C idiom for rotating a 32-bit word.\<close>

lemma shifts_rotl:
  fixes x :: u32
  assumes "0 < n" "n < 32"
  shows "push_bit n x OR drop_bit (32 - n) x = word_rotl n x"
proof (rule bit_word_eqI)
  fix i assume "i < LENGTH(32)"
  then have i: "i < 32" by simp
  have l: "bit (push_bit n x OR drop_bit (32 - n) x) i \<longleftrightarrow> n \<le> i \<and> bit x (i - n) \<or> bit x (i + (32 - n))"
    unfolding bit_or_iff bit_push_bit_iff bit_drop_bit_eq using i by (auto simp: add.commute)
  have r: "bit (word_rotl n x) i \<longleftrightarrow> bit x ((i + (32 - n)) mod 32)"
    unfolding bit_word_rotl_iff using i assms by simp
  show "bit (push_bit n x OR drop_bit (32 - n) x) i = bit (word_rotl n x) i"
  proof (cases "i < n")
    case True
    then have "(i + (32 - n)) mod 32 = i + (32 - n)" using assms by simp
    then show ?thesis unfolding l r using True by simp
  next
    case False
    then have e: "i + (32 - n) = (i - n) + 32" using assms by simp
    then have "(i + (32 - n)) mod 32 = i - n" using i by (metis less_imp_diff_less mod_add_self2 mod_less)
    moreover have "\<not> bit x (i + (32 - n))" unfolding e using bit_imp_le_length [of x "i - n + 32"] by auto
    ultimately show ?thesis unfolding l r using False by simp
  qed
qed

lemma sint_small: "unat w < 2 ^ 31 \<Longrightarrow> sint w = int (unat w)" for w :: u32
proof -
  assume a: "unat w < 2 ^ 31"
  have u: "uint w = int (unat w)" by (rule uint_nat)
  have "uint w < 2 ^ 31" unfolding u using a by (metis of_nat_less_numeral_power_cancel_iff)
  then have "signed_take_bit 31 (uint w) = uint w"
    using uint_ge_0 [of w] by (intro signed_take_bit_int_eq_self) linarith+
  then show ?thesis by (simp only: sint_uint u) simp
qed

section \<open>Options and lists\<close>

lemma option_eqI: "(\<And>x. a = Some x \<longleftrightarrow> b = Some x) \<Longrightarrow> a = b"
  by (cases a; cases b) auto

lemma filter_id_conv_all: "(\<And>x. x \<in> set xs \<Longrightarrow> P x) \<Longrightarrow> filter P xs = xs"
  by (simp add: filter_id_conv)

lemma filter_empty_all: "(\<And>x. x \<in> set xs \<Longrightarrow> \<not> P x) \<Longrightarrow> filter P xs = []"
  by (simp add: filter_empty_conv)

lemma find_append:
  "find q (as @ bs) = (case find q as of None \<Rightarrow> find q bs | Some a \<Rightarrow> Some a)"
  by (induction as) auto

lemma find_None_all: "(\<And>x. x \<in> set xs \<Longrightarrow> \<not> P x) \<Longrightarrow> find P xs = None"
  by (simp add: find_None_iff)

section \<open>C memory blocks\<close>

text \<open>
  A memory block is a list. \<^verbatim>\<open>memcpy\<close> out of a block and into a block fail (\<^term>\<open>None\<close>) where
  the C access would leave the block.
\<close>

definition mem_read :: "'a list \<Rightarrow> nat \<Rightarrow> nat \<Rightarrow> 'a list option" where
  "mem_read buf off n = (if off + n \<le> length buf then Some (take n (drop off buf)) else None)"

definition mem_write :: "'a list \<Rightarrow> nat \<Rightarrow> 'a list \<Rightarrow> 'a list option" where
  "mem_write buf off xs =
     (if off + length xs \<le> length buf then Some (take off buf @ xs @ drop (off + length xs) buf) else None)"

lemma mem_read_all: "length xs = n \<Longrightarrow> mem_read xs 0 n = Some xs"
  by (simp add: mem_read_def)

lemma nth_mem_write: "mem_write buf off xs = Some buf' \<Longrightarrow> i < length buf \<Longrightarrow>
   buf' ! i = (if off \<le> i \<and> i < off + length xs then xs ! (i - off) else buf ! i)"
  by (auto simp: mem_write_def nth_append min_def not_less less_diff_conv2 split: if_splits)

lemma length_mem_write: "mem_write buf off xs = Some buf' \<Longrightarrow> length buf' = length buf"
  by (auto simp: mem_write_def split: if_splits)

text \<open>One cell of a block: reading and writing outside the block is a failure.\<close>

definition mem_get :: "'a list \<Rightarrow> nat \<Rightarrow> 'a option" where
  "mem_get buf i = (if i < length buf then Some (buf ! i) else None)"

definition mem_put :: "'a list \<Rightarrow> nat \<Rightarrow> 'a \<Rightarrow> 'a list option" where
  "mem_put buf i v = (if i < length buf then Some (buf[i := v]) else None)"

lemma mem_get_Some [simp]: "i < length buf \<Longrightarrow> mem_get buf i = Some (buf ! i)"
  by (simp add: mem_get_def)

lemma mem_get_None [simp]: "length buf \<le> i \<Longrightarrow> mem_get buf i = None"
  by (simp add: mem_get_def)

lemma mem_put_Some [simp]: "i < length buf \<Longrightarrow> mem_put buf i v = Some (buf[i := v])"
  by (simp add: mem_put_def)

lemma mem_put_None [simp]: "length buf \<le> i \<Longrightarrow> mem_put buf i v = None"
  by (simp add: mem_put_def)

text \<open>The range of a C \<^verbatim>\<open>int\<close>; a computed value outside it is a failure (signed overflow).\<close>

definition c_int :: "int \<Rightarrow> int option" where
  "c_int x = (if - (2 ^ 31) \<le> x \<and> x < 2 ^ 31 then Some x else None)"

text \<open>The operators \<^verbatim>\<open>/\<close> and \<^verbatim>\<open>%\<close> of C truncate towards zero; on operands that are not
  negative they are \<^verbatim>\<open>div\<close> and \<^verbatim>\<open>mod\<close>.\<close>

lemma sdiv_nonneg: "0 \<le> a \<Longrightarrow> 0 < b \<Longrightarrow> a sdiv b = a div b" for a b :: int
  by (cases "a = 0") (auto simp: signed_divide_int_def sgn_if)

lemma smod_nonneg: "0 \<le> a \<Longrightarrow> 0 < b \<Longrightarrow> a smod b = a mod b" for a b :: int
  by (cases "a = 0") (auto simp: signed_modulo_int_def sgn_if)

lemma c_int_Some [simp]: "- (2 ^ 31) \<le> x \<Longrightarrow> x < 2 ^ 31 \<Longrightarrow> c_int x = Some x"
  by (simp add: c_int_def)

end
