(* ===== verification/AvlTree.thy ===== *)
theory AvlTree
  imports Prelude
begin

text \<open>
  \<^verbatim>\<open>src/avltree.c\<close>: the intrusive AVL search tree. A tree is a pointer to its root node or
  NULL; a node is a value of \<^verbatim>\<open>struct avltree_node_t\<close> embedded in a user structure. The model
  keeps, for every node, the structure it is embedded in (\<open>'a\<close>), the two children and the
  stored height. The C \<^verbatim>\<open>compare\<close> callback sees the embedding structures. A dereference of a
  NULL pointer is the result \<^term>\<open>None\<close>.
\<close>

section \<open>Data and operations\<close>

datatype 'a avltree =
    AvlNull
  | AvlNode (avl_lchild: "'a avltree") (avl_data: 'a) (avl_height: int) (avl_rchild: "'a avltree")

type_synonym 'a avl_compare_fp = "'a \<Rightarrow> 'a \<Rightarrow> int"

fun HEIGHT :: "'a avltree \<Rightarrow> int" where
  "HEIGHT AvlNull = -1"
| "HEIGHT (AvlNode l x h r) = h"

text \<open>Linking two children below a node and recomputing its height field.\<close>

definition avl_link :: "'a avltree \<Rightarrow> 'a \<Rightarrow> 'a avltree \<Rightarrow> 'a avltree" where
  "avl_link l x r = AvlNode l x (max (HEIGHT l) (HEIGHT r) + 1) r"

fun avlsinglerotateleft :: "'a avltree \<Rightarrow> 'a avltree option" where
  "avlsinglerotateleft (AvlNode (AvlNode ll y hy lr) x h r) =
     (let tree = avl_link lr x r in Some (avl_link ll y tree))"
| "avlsinglerotateleft _ = None"

fun avlsinglerotateright :: "'a avltree \<Rightarrow> 'a avltree option" where
  "avlsinglerotateright (AvlNode l x h (AvlNode rl y hy rr)) =
     (let tree = avl_link l x rl in Some (avl_link tree y rr))"
| "avlsinglerotateright _ = None"

fun avldoublerotateleft :: "'a avltree \<Rightarrow> 'a avltree option" where
  "avldoublerotateleft (AvlNode (AvlNode ll y hy (AvlNode zl z hz zr)) x h r) =
     (let l' = avl_link ll y zl; tree = avl_link zr x r in Some (avl_link l' z tree))"
| "avldoublerotateleft _ = None"

fun avldoublerotateright :: "'a avltree \<Rightarrow> 'a avltree option" where
  "avldoublerotateright (AvlNode l x h (AvlNode (AvlNode zl z hz zr) y hy rr)) =
     (let r' = avl_link zr y rr; tree = avl_link l x zl in Some (avl_link tree z r'))"
| "avldoublerotateright _ = None"

text \<open>The two halves of \<^verbatim>\<open>avlinsert\<close> after its recursive call: the subtree that grew is
  linked, and either a rotation or the height update follows. When the second comparison is 0
  the node is left as it is, its height field not updated.\<close>

definition avl_insert_fix_left :: "'a avl_compare_fp \<Rightarrow> 'a \<Rightarrow> 'a avltree \<Rightarrow> 'a \<Rightarrow> int \<Rightarrow> 'a avltree \<Rightarrow> 'a avltree option" where
  "avl_insert_fix_left compare n l x h r =
     (if HEIGHT l - HEIGHT r = 2 then
        (case l of
           AvlNull \<Rightarrow> None
         | AvlNode _ y _ _ \<Rightarrow>
             (let ret = compare n y in
              if ret < 0 then avlsinglerotateleft (AvlNode l x h r)
              else if ret > 0 then avldoublerotateleft (AvlNode l x h r)
              else Some (AvlNode l x h r)))
      else Some (AvlNode l x (max (HEIGHT l) (HEIGHT r) + 1) r))"

definition avl_insert_fix_right :: "'a avl_compare_fp \<Rightarrow> 'a \<Rightarrow> 'a avltree \<Rightarrow> 'a \<Rightarrow> int \<Rightarrow> 'a avltree \<Rightarrow> 'a avltree option" where
  "avl_insert_fix_right compare n l x h r =
     (if HEIGHT r - HEIGHT l = 2 then
        (case r of
           AvlNull \<Rightarrow> None
         | AvlNode _ y _ _ \<Rightarrow>
             (let ret = compare n y in
              if ret < 0 then avldoublerotateright (AvlNode l x h r)
              else if ret > 0 then avlsinglerotateright (AvlNode l x h r)
              else Some (AvlNode l x h r)))
      else Some (AvlNode l x (max (HEIGHT l) (HEIGHT r) + 1) r))"

fun avlinsert_rec :: "'a avl_compare_fp \<Rightarrow> 'a avltree \<Rightarrow> 'a \<Rightarrow> 'a avltree option" where
  "avlinsert_rec compare AvlNull n = Some (AvlNode AvlNull n 0 AvlNull)"
| "avlinsert_rec compare (AvlNode l x h r) n =
     (let ret = compare n x in
      if ret < 0 then
        (case avlinsert_rec compare l n of
           None \<Rightarrow> None
         | Some l' \<Rightarrow> avl_insert_fix_left compare n l' x h r)
      else if ret > 0 then
        (case avlinsert_rec compare r n of
           None \<Rightarrow> None
         | Some r' \<Rightarrow> avl_insert_fix_right compare n l x h r')
      else Some (AvlNode l x h r))"

text \<open>The public entry: a NULL node or a NULL comparison routine gives a NULL tree.\<close>

definition avlinsert :: "'a avltree \<Rightarrow> 'a option \<Rightarrow> 'a avl_compare_fp option \<Rightarrow> 'a avltree option" where
  "avlinsert tree node compare =
     (case (node, compare) of
        (Some n, Some c) \<Rightarrow> avlinsert_rec c tree n
      | _ \<Rightarrow> Some AvlNull)"

fun avlgetmin :: "'a avltree \<Rightarrow> 'a option" where
  "avlgetmin AvlNull = None"
| "avlgetmin (AvlNode AvlNull x h r) = Some x"
| "avlgetmin (AvlNode (AvlNode ll y hy lr) x h r) = avlgetmin (AvlNode ll y hy lr)"

fun avlgetmax :: "'a avltree \<Rightarrow> 'a option" where
  "avlgetmax AvlNull = None"
| "avlgetmax (AvlNode l x h AvlNull) = Some x"
| "avlgetmax (AvlNode l x h (AvlNode rl y hy rr)) = avlgetmax (AvlNode rl y hy rr)"

fun avlsearch_loop :: "'a avl_compare_fp \<Rightarrow> 'a avltree \<Rightarrow> 'a \<Rightarrow> 'a option" where
  "avlsearch_loop compare AvlNull n = None"
| "avlsearch_loop compare (AvlNode l x h r) n =
     (let ret = compare n x in
      if ret < 0 then avlsearch_loop compare l n
      else if ret > 0 then avlsearch_loop compare r n
      else Some x)"

definition avlsearch :: "'a avltree \<Rightarrow> 'a option \<Rightarrow> 'a avl_compare_fp option \<Rightarrow> 'a option" where
  "avlsearch tree node compare =
     (case (node, compare) of
        (Some n, Some c) \<Rightarrow> avlsearch_loop c tree n
      | _ \<Rightarrow> None)"

text \<open>The rebalancing part of \<^verbatim>\<open>avlremove\<close> (its comparisons of grandchildren heights, then the
  rotation), followed by the final height update of the resulting root.\<close>

definition avl_remove_rotate :: "'a avltree \<Rightarrow> 'a avltree option" where
  "avl_remove_rotate tree =
     (case tree of
        AvlNull \<Rightarrow> None
      | AvlNode l x h r \<Rightarrow>
          (if HEIGHT l - HEIGHT r = 2 then
             (case l of
                AvlNull \<Rightarrow> None
              | AvlNode ll y hy lr \<Rightarrow>
                  (if HEIGHT ll - HEIGHT r = 1 \<and> HEIGHT lr - HEIGHT r = 1 then avlsinglerotateleft tree
                   else if HEIGHT ll - HEIGHT r = 1 then avlsinglerotateleft tree
                   else if HEIGHT lr - HEIGHT r = 1 then avldoublerotateleft tree
                   else Some tree))
           else if HEIGHT r - HEIGHT l = 2 then
             (case r of
                AvlNull \<Rightarrow> None
              | AvlNode rl y hy rr \<Rightarrow>
                  (if HEIGHT rr - HEIGHT l = 1 \<and> HEIGHT rl - HEIGHT l = 1 then avlsinglerotateright tree
                   else if HEIGHT rr - HEIGHT l = 1 then avlsinglerotateright tree
                   else if HEIGHT rl - HEIGHT l = 1 then avldoublerotateright tree
                   else Some tree))
           else Some tree))"

fun avl_update_height :: "'a avltree \<Rightarrow> 'a avltree option" where
  "avl_update_height AvlNull = None"
| "avl_update_height (AvlNode l x h r) = Some (AvlNode l x (max (HEIGHT l) (HEIGHT r) + 1) r)"

definition avl_remove_finish :: "'a avltree \<Rightarrow> 'a avltree option" where
  "avl_remove_finish tree =
     (case avl_remove_rotate tree of None \<Rightarrow> None | Some t \<Rightarrow> avl_update_height t)"

text \<open>
  The recursion of \<^verbatim>\<open>avlremove\<close> on a non-NULL tree. The second component is the content of
  \<^verbatim>\<open>*rmnode\<close> on return (\<^term>\<open>None\<close> for NULL). In the two-children case the least node of the
  right subtree is taken out of it and its structure takes the place of the removed root; its
  stale height field is overwritten by the final update.
\<close>

fun avlremove_rec :: "'a avl_compare_fp \<Rightarrow> 'a avltree \<Rightarrow> 'a \<Rightarrow> ('a avltree \<times> 'a option) option" where
  "avlremove_rec compare AvlNull n = Some (AvlNull, None)"
| "avlremove_rec compare (AvlNode l x h r) n =
     (let ret = compare n x in
      if ret = 0 then
        (if l \<noteq> AvlNull \<and> r \<noteq> AvlNull then
           (case avlgetmin r of
              None \<Rightarrow> None
            | Some tmpnode \<Rightarrow>
                (case avlremove_rec compare r tmpnode of
                   None \<Rightarrow> None
                 | Some (r', _) \<Rightarrow>
                     map_option (\<lambda>t. (t, Some x)) (avl_remove_finish (AvlNode l tmpnode h r'))))
         else
           Some (if l \<noteq> AvlNull then l else if r \<noteq> AvlNull then r else AvlNull, Some x))
      else if ret < 0 then
        (if l \<noteq> AvlNull then
           (case avlremove_rec compare l n of
              None \<Rightarrow> None
            | Some (l', rm) \<Rightarrow> map_option (\<lambda>t. (t, rm)) (avl_remove_finish (AvlNode l' x h r)))
         else map_option (\<lambda>t. (t, None)) (avl_remove_finish (AvlNode l x h r)))
      else
        (if r \<noteq> AvlNull then
           (case avlremove_rec compare r n of
              None \<Rightarrow> None
            | Some (r', rm) \<Rightarrow> map_option (\<lambda>t. (t, rm)) (avl_remove_finish (AvlNode l x h r')))
         else map_option (\<lambda>t. (t, None)) (avl_remove_finish (AvlNode l x h r))))"

text \<open>
  The public entry. \<open>rmnode\<close> is \<^term>\<open>None\<close> when the caller passes a NULL out-pointer and
  \<^term>\<open>Some c\<close> with \<open>c\<close> the content of the cell otherwise; on the early return the cell is not
  written.
\<close>

definition avlremove ::
  "'a avltree \<Rightarrow> 'a option \<Rightarrow> 'a option option \<Rightarrow> 'a avl_compare_fp option
    \<Rightarrow> ('a avltree \<times> 'a option option) option" where
  "avlremove tree node rmnode compare =
     (case (tree, node, compare) of
        (AvlNode _ _ _ _, Some n, Some c) \<Rightarrow>
          map_option (\<lambda>(t, rm). (t, map_option (\<lambda>_. rm) rmnode)) (avlremove_rec c tree n)
      | _ \<Rightarrow> Some (AvlNull, rmnode))"

fun avllowerbound :: "'a avltree \<Rightarrow> 'a \<Rightarrow> 'a avl_compare_fp \<Rightarrow> 'a option" where
  "avllowerbound AvlNull n compare = None"
| "avllowerbound (AvlNode l x h r) n compare =
     (let ret = compare n x in
      if ret < 0 then
        (case avllowerbound l n compare of Some c \<Rightarrow> Some c | None \<Rightarrow> Some x)
      else if ret > 0 then avllowerbound r n compare
      else Some x)"

fun avlupperbound :: "'a avltree \<Rightarrow> 'a \<Rightarrow> 'a avl_compare_fp \<Rightarrow> 'a option" where
  "avlupperbound AvlNull n compare = None"
| "avlupperbound (AvlNode l x h r) n compare =
     (let ret = compare n x in
      if ret < 0 then
        (case avlupperbound l n compare of Some c \<Rightarrow> Some c | None \<Rightarrow> Some x)
      else avlupperbound r n compare)"

section \<open>Balance invariant\<close>

text \<open>Every stored height is right and the two heights below a node differ by at most one.\<close>

fun avl :: "'a avltree \<Rightarrow> bool" where
  "avl AvlNull \<longleftrightarrow> True"
| "avl (AvlNode l x h r) \<longleftrightarrow>
     h = max (HEIGHT l) (HEIGHT r) + 1 \<and> \<bar>HEIGHT l - HEIGHT r\<bar> \<le> 1 \<and> avl l \<and> avl r"

fun inorder :: "'a avltree \<Rightarrow> 'a list" where
  "inorder AvlNull = []"
| "inorder (AvlNode l x h r) = inorder l @ x # inorder r"

lemma HEIGHT_ge: "avl t \<Longrightarrow> HEIGHT t \<ge> -1"
  by (induction t) auto

lemma HEIGHT_Null_iff: "avl t \<Longrightarrow> HEIGHT t = -1 \<longleftrightarrow> t = AvlNull"
  using HEIGHT_ge by (cases t) force+

lemma HEIGHT_link [simp]: "HEIGHT (avl_link l x r) = max (HEIGHT l) (HEIGHT r) + 1"
  by (simp add: avl_link_def)

lemma avl_link_avl [simp]:
  "avl (avl_link l x r) \<longleftrightarrow> \<bar>HEIGHT l - HEIGHT r\<bar> \<le> 1 \<and> avl l \<and> avl r"
  by (auto simp: avl_link_def)

lemma inorder_link [simp]: "inorder (avl_link l x r) = inorder l @ x # inorder r"
  by (simp add: avl_link_def)

lemma avl_linkI: "h = max (HEIGHT l) (HEIGHT r) + 1 \<Longrightarrow> AvlNode l x h r = avl_link l x r"
  by (simp add: avl_link_def)

subsection \<open>Rotations keep the order of the nodes\<close>

lemma inorder_singlerotateleft: "avlsinglerotateleft t = Some t' \<Longrightarrow> inorder t' = inorder t"
  by (induction t rule: avlsinglerotateleft.induct) auto

lemma inorder_singlerotateright: "avlsinglerotateright t = Some t' \<Longrightarrow> inorder t' = inorder t"
  by (induction t rule: avlsinglerotateright.induct) auto

lemma inorder_doublerotateleft: "avldoublerotateleft t = Some t' \<Longrightarrow> inorder t' = inorder t"
  by (induction t rule: avldoublerotateleft.induct) auto

lemma inorder_doublerotateright: "avldoublerotateright t = Some t' \<Longrightarrow> inorder t' = inorder t"
  by (induction t rule: avldoublerotateright.induct) auto

lemmas inorder_rotate =
  inorder_singlerotateleft inorder_singlerotateright
  inorder_doublerotateleft inorder_doublerotateright

lemma inorder_fix_left:
  "avl_insert_fix_left c n l x h r = Some t \<Longrightarrow> inorder t = inorder l @ x # inorder r"
  by (auto simp: avl_insert_fix_left_def Let_def dest!: inorder_rotate
           split: if_splits avltree.splits)

lemma inorder_fix_right:
  "avl_insert_fix_right c n l x h r = Some t \<Longrightarrow> inorder t = inorder l @ x # inorder r"
  by (auto simp: avl_insert_fix_right_def Let_def dest!: inorder_rotate
           split: if_splits avltree.splits)

lemma inorder_update_height: "avl_update_height t = Some t' \<Longrightarrow> inorder t' = inorder t"
  by (cases t) auto

lemma inorder_remove_rotate: "avl_remove_rotate t = Some t' \<Longrightarrow> inorder t' = inorder t"
  by (auto simp: avl_remove_rotate_def dest!: inorder_rotate split: if_splits avltree.splits)

lemma inorder_remove_finish: "avl_remove_finish t = Some t' \<Longrightarrow> inorder t' = inorder t"
  by (auto simp: avl_remove_finish_def dest!: inorder_update_height inorder_remove_rotate
           split: option.splits)

subsection \<open>Insertion keeps the balance and never dereferences NULL\<close>

text \<open>
  What an insertion does to the height: it stays or grows by one, and when the tree was not
  empty and grew, the root leans to the side the new node went to. This is what makes the second
  comparison of the caller choose the rotation that fits, and never be 0.
\<close>

definition avl_grown :: "'a avl_compare_fp \<Rightarrow> 'a \<Rightarrow> 'a avltree \<Rightarrow> 'a avltree \<Rightarrow> bool" where
  "avl_grown c n t t' \<longleftrightarrow>
     avl t' \<and> (HEIGHT t' = HEIGHT t \<or> HEIGHT t' = HEIGHT t + 1) \<and>
     (t \<noteq> AvlNull \<and> HEIGHT t' = HEIGHT t + 1 \<longrightarrow>
        (\<exists>a y h b. t' = AvlNode a y h b \<and>
           (c n y < 0 \<and> HEIGHT a = HEIGHT b + 1 \<or> c n y > 0 \<and> HEIGHT b = HEIGHT a + 1)))"

lemma fix_left_grown:
  assumes g: "avl_grown c n l l'" and t: "avl (AvlNode l x h r)" and lt: "c n x < 0"
  shows "\<exists>t'. avl_insert_fix_left c n l' x h r = Some t' \<and> avl_grown c n (AvlNode l x h r) t'"
proof (cases "HEIGHT l' - HEIGHT r = 2")
  case False
  then show ?thesis
    using g t lt by (auto simp: avl_insert_fix_left_def avl_grown_def)
next
  case True
  have ne: "l \<noteq> AvlNull" using True g t HEIGHT_ge [of r] by (auto simp: avl_grown_def)
  have h: "HEIGHT l' = HEIGHT l + 1" "HEIGHT l = HEIGHT r + 1"
    using True g t by (auto simp: avl_grown_def)
  obtain a y hy b where l': "l' = AvlNode a y hy b" and
    side: "c n y < 0 \<and> HEIGHT a = HEIGHT b + 1 \<or> c n y > 0 \<and> HEIGHT b = HEIGHT a + 1"
    using g ne h unfolding avl_grown_def by auto
  have bal: "avl a" "avl b" "hy = max (HEIGHT a) (HEIGHT b) + 1"
    using g l' by (auto simp: avl_grown_def)
  from side show ?thesis
  proof
    assume "c n y < 0 \<and> HEIGHT a = HEIGHT b + 1"
    then show ?thesis using True h bal t l' by (auto simp: avl_insert_fix_left_def avl_grown_def)
  next
    assume gt: "c n y > 0 \<and> HEIGHT b = HEIGHT a + 1"
    then have "b \<noteq> AvlNull" using HEIGHT_ge [of a] bal by auto
    then obtain zl z hz zr where "b = AvlNode zl z hz zr" by (cases b) auto
    then show ?thesis using gt True h bal t l'
      by (auto simp: avl_insert_fix_left_def avl_grown_def)
  qed
qed

lemma fix_right_grown:
  assumes g: "avl_grown c n r r'" and t: "avl (AvlNode l x h r)" and gt: "c n x > 0"
  shows "\<exists>t'. avl_insert_fix_right c n l x h r' = Some t' \<and> avl_grown c n (AvlNode l x h r) t'"
proof (cases "HEIGHT r' - HEIGHT l = 2")
  case False
  then show ?thesis
    using g t gt by (auto simp: avl_insert_fix_right_def avl_grown_def)
next
  case True
  have ne: "r \<noteq> AvlNull" using True g t HEIGHT_ge [of l] by (auto simp: avl_grown_def)
  have h: "HEIGHT r' = HEIGHT r + 1" "HEIGHT r = HEIGHT l + 1"
    using True g t by (auto simp: avl_grown_def)
  obtain a y hy b where r': "r' = AvlNode a y hy b" and
    side: "c n y < 0 \<and> HEIGHT a = HEIGHT b + 1 \<or> c n y > 0 \<and> HEIGHT b = HEIGHT a + 1"
    using g ne h unfolding avl_grown_def by auto
  have bal: "avl a" "avl b" "hy = max (HEIGHT a) (HEIGHT b) + 1"
    using g r' by (auto simp: avl_grown_def)
  from side show ?thesis
  proof
    assume lt: "c n y < 0 \<and> HEIGHT a = HEIGHT b + 1"
    then have "a \<noteq> AvlNull" using HEIGHT_ge [of b] bal by auto
    then obtain zl z hz zr where "a = AvlNode zl z hz zr" by (cases a) auto
    then show ?thesis using lt True h bal t r'
      by (auto simp: avl_insert_fix_right_def avl_grown_def)
  next
    assume "c n y > 0 \<and> HEIGHT b = HEIGHT a + 1"
    then show ?thesis using True h bal t r' by (auto simp: avl_insert_fix_right_def avl_grown_def)
  qed
qed

lemma insert_grown:
  "avl t \<Longrightarrow> \<exists>t'. avlinsert_rec c t n = Some t' \<and> avl_grown c n t t'"
proof (induction t)
  case AvlNull
  then show ?case by (simp add: avl_grown_def)
next
  case (AvlNode l x h r)
  consider "c n x < 0" | "c n x > 0" | "c n x = 0" by linarith
  then show ?case
  proof cases
    case 1
    from AvlNode obtain l' where "avlinsert_rec c l n = Some l'" "avl_grown c n l l'" by auto
    then show ?thesis using fix_left_grown [of c n l l' x h r] AvlNode.prems 1 by simp
  next
    case 2
    from AvlNode obtain r' where "avlinsert_rec c r n = Some r'" "avl_grown c n r r'" by auto
    then show ?thesis using fix_right_grown [of c n r r' l x h] AvlNode.prems 2 by simp
  next
    case 3
    then show ?thesis using AvlNode.prems by (auto simp: avl_grown_def)
  qed
qed

subsection \<open>Removal keeps the balance and never dereferences NULL\<close>

lemma remove_rotate_left:
  assumes "avl l" "avl r" "HEIGHT l - HEIGHT r = 2"
  shows "\<exists>t'. avl_remove_rotate (AvlNode l x h r) = Some t' \<and> avl t' \<and>
           (HEIGHT t' = HEIGHT l \<or> HEIGHT t' = HEIGHT l + 1)"
proof -
  obtain ll y hy lr where l: "l = AvlNode ll y hy lr"
    using assms HEIGHT_ge [of r] by (cases l) auto
  show ?thesis
  proof (cases "HEIGHT ll - HEIGHT r = 1")
    case True
    then show ?thesis using assms l by (auto simp: avl_remove_rotate_def)
  next
    case False
    then have lr: "HEIGHT lr - HEIGHT r = 1" "HEIGHT ll = HEIGHT r" using assms l by auto
    then obtain zl z hz zr where "lr = AvlNode zl z hz zr"
      using assms HEIGHT_ge [of r] by (cases lr) auto
    then show ?thesis using assms l lr by (auto simp: avl_remove_rotate_def)
  qed
qed

lemma remove_rotate_right:
  assumes "avl l" "avl r" "HEIGHT r - HEIGHT l = 2"
  shows "\<exists>t'. avl_remove_rotate (AvlNode l x h r) = Some t' \<and> avl t' \<and>
           (HEIGHT t' = HEIGHT r \<or> HEIGHT t' = HEIGHT r + 1)"
proof -
  obtain rl y hy rr where r: "r = AvlNode rl y hy rr"
    using assms HEIGHT_ge [of l] by (cases r) auto
  show ?thesis
  proof (cases "HEIGHT rr - HEIGHT l = 1")
    case True
    then show ?thesis using assms r by (auto simp: avl_remove_rotate_def)
  next
    case False
    then have rl: "HEIGHT rl - HEIGHT l = 1" "HEIGHT rr = HEIGHT l" using assms r by auto
    then obtain zl z hz zr where "rl = AvlNode zl z hz zr"
      using assms HEIGHT_ge [of l] by (cases rl) auto
    then show ?thesis using assms r rl by (auto simp: avl_remove_rotate_def)
  qed
qed

lemma update_height_avl: "avl t \<Longrightarrow> t \<noteq> AvlNull \<Longrightarrow> avl_update_height t = Some t"
  by (cases t) auto

lemma remove_finish_avl:
  assumes "avl l" "avl r" "\<bar>HEIGHT l - HEIGHT r\<bar> \<le> 2"
  shows "\<exists>t'. avl_remove_finish (AvlNode l x h r) = Some t' \<and> avl t' \<and>
           (HEIGHT t' = max (HEIGHT l) (HEIGHT r) \<or> HEIGHT t' = max (HEIGHT l) (HEIGHT r) + 1) \<and>
           (\<bar>HEIGHT l - HEIGHT r\<bar> \<le> 1 \<longrightarrow> HEIGHT t' = max (HEIGHT l) (HEIGHT r) + 1)"
proof -
  have ne: "HEIGHT t' \<ge> 0 \<Longrightarrow> t' \<noteq> AvlNull" for t' :: "'a avltree" by (cases t') auto
  consider "HEIGHT l - HEIGHT r = 2" | "HEIGHT r - HEIGHT l = 2" | "\<bar>HEIGHT l - HEIGHT r\<bar> \<le> 1"
    using assms(3) by linarith
  then show ?thesis
  proof cases
    case 1
    from remove_rotate_left [OF assms(1,2) 1, of x h] obtain t' where
      t': "avl_remove_rotate (AvlNode l x h r) = Some t'" "avl t'"
      "HEIGHT t' = HEIGHT l \<or> HEIGHT t' = HEIGHT l + 1" by blast
    then have "t' \<noteq> AvlNull" using 1 ne [of t'] HEIGHT_ge [OF assms(2)] by auto
    then show ?thesis using t' 1 by (auto simp: avl_remove_finish_def update_height_avl)
  next
    case 2
    from remove_rotate_right [OF assms(1,2) 2, of x h] obtain t' where
      t': "avl_remove_rotate (AvlNode l x h r) = Some t'" "avl t'"
      "HEIGHT t' = HEIGHT r \<or> HEIGHT t' = HEIGHT r + 1" by blast
    then have "t' \<noteq> AvlNull" using 2 ne [of t'] HEIGHT_ge [OF assms(1)] by auto
    then show ?thesis using t' 2 by (auto simp: avl_remove_finish_def update_height_avl)
  next
    case 3
    then show ?thesis
      using assms by (auto simp: avl_remove_finish_def avl_remove_rotate_def)
  qed
qed

lemma getmin_inorder: "avlgetmin t = (if inorder t = [] then None else Some (hd (inorder t)))"
  by (induction t rule: avlgetmin.induct) (auto simp: hd_append)

lemma getmax_inorder: "avlgetmax t = (if inorder t = [] then None else Some (last (inorder t)))"
  by (induction t rule: avlgetmax.induct) auto

lemma inorder_Nil_iff [simp]: "inorder t = [] \<longleftrightarrow> t = AvlNull"
  by (cases t) auto

lemma remove_avl:
  "avl t \<Longrightarrow> \<exists>t' rm. avlremove_rec c t n = Some (t', rm) \<and> avl t' \<and>
     (HEIGHT t' = HEIGHT t \<or> HEIGHT t' = HEIGHT t - 1)"
proof (induction t arbitrary: n)
  case AvlNull
  then show ?case by simp
next
  case (AvlNode l x h r)
  then have al: "avl l" and ar: "avl r" and h: "h = max (HEIGHT l) (HEIGHT r) + 1"
    and d: "\<bar>HEIGHT l - HEIGHT r\<bar> \<le> 1" by auto
  consider (gt) "c n x > 0" | (lt) "c n x < 0" | (eq2) "c n x = 0" "l \<noteq> AvlNull" "r \<noteq> AvlNull"
    | (eq1) "c n x = 0" "l = AvlNull \<or> r = AvlNull" by fastforce
  then show ?case
  proof cases
    case gt
    obtain r' rm where r': "avlremove_rec c r n = Some (r', rm)" "avl r'"
      "HEIGHT r' = HEIGHT r \<or> HEIGHT r' = HEIGHT r - 1" using AvlNode.IH(2) [OF ar, of n] by blast
    have "\<bar>HEIGHT l - HEIGHT r'\<bar> \<le> 2" using r'(3) d by auto
    from remove_finish_avl [OF al r'(2) this, of x h] show ?thesis
      using gt r' d h by (auto split: option.splits)
  next
    case lt
    obtain l' rm where l': "avlremove_rec c l n = Some (l', rm)" "avl l'"
      "HEIGHT l' = HEIGHT l \<or> HEIGHT l' = HEIGHT l - 1" using AvlNode.IH(1) [OF al, of n] by blast
    have "\<bar>HEIGHT l' - HEIGHT r\<bar> \<le> 2" using l'(3) d by auto
    from remove_finish_avl [OF l'(2) ar this, of x h] show ?thesis
      using lt l' d h by (auto split: option.splits)
  next
    case eq2
    obtain m where m: "avlgetmin r = Some m" using eq2 by (auto simp: getmin_inorder)
    obtain r' rm where r': "avlremove_rec c r m = Some (r', rm)" "avl r'"
      "HEIGHT r' = HEIGHT r \<or> HEIGHT r' = HEIGHT r - 1" using AvlNode.IH(2) [OF ar, of m] by blast
    have "\<bar>HEIGHT l - HEIGHT r'\<bar> \<le> 2" using r'(3) d by auto
    from remove_finish_avl [OF al r'(2) this, of m h] show ?thesis
      using eq2 m r' d h by auto
  next
    case eq1
    then show ?thesis using al ar h d HEIGHT_ge [OF al] HEIGHT_ge [OF ar] by (auto simp: max_def)
  qed
qed

section \<open>The comparison contract\<close>

text \<open>The nodes are in strictly increasing order. An insertion puts the new node between the
  smaller and the greater ones and changes nothing when an equal node is there already; a removal
  drops the equal node.\<close>

definition avl_ordered :: "'a avl_compare_fp \<Rightarrow> 'a avltree \<Rightarrow> bool" where
  "avl_ordered c t \<longleftrightarrow> sorted_wrt (\<lambda>a b. c a b < 0) (inorder t)"

definition avl_ins_list :: "'a avl_compare_fp \<Rightarrow> 'a \<Rightarrow> 'a list \<Rightarrow> 'a list" where
  "avl_ins_list c n xs = (if \<exists>y \<in> set xs. c n y = 0 then xs
     else filter (\<lambda>y. c n y > 0) xs @ n # filter (\<lambda>y. c n y < 0) xs)"

definition avl_del_list :: "'a avl_compare_fp \<Rightarrow> 'a \<Rightarrow> 'a list \<Rightarrow> 'a list" where
  "avl_del_list c n xs = filter (\<lambda>y. c n y \<noteq> 0) xs"

text \<open>
  What the header asks of the \<^verbatim>\<open>compare\<close> callback: its sign is that of a total preorder. Every
  fact about the order of the nodes is proved once from this contract; the clients of the tree
  (the object table, the evfs caches and views) interpret it for their own routine.
\<close>

locale avl_compare =
  fixes compare :: "'a avl_compare_fp"
  assumes cmp_sym: "compare a b < 0 \<longleftrightarrow> compare b a > 0"
    and cmp_trans: "compare a b \<le> 0 \<Longrightarrow> compare b d \<le> 0 \<Longrightarrow> compare a d \<le> 0"
begin

lemma cmp_refl [simp]: "compare a a = 0"
  using cmp_sym [of a a] by linarith

lemma cmp_eq_sym: "compare a b = 0 \<longleftrightarrow> compare b a = 0"
  using cmp_sym [of a b] cmp_sym [of b a] by linarith

lemma cmp_le_less_trans:
  assumes "compare a b \<le> 0" "compare b d < 0" shows "compare a d < 0"
proof (rule ccontr)
  assume "\<not> compare a d < 0"
  then have "compare d a \<le> 0" using cmp_sym [of d a] cmp_sym [of a d] by linarith
  from cmp_trans [OF this assms(1)] have "compare d b \<le> 0" .
  then show False using assms(2) cmp_sym [of b d] by linarith
qed

lemma cmp_less_le_trans:
  assumes "compare a b < 0" "compare b d \<le> 0" shows "compare a d < 0"
proof (rule ccontr)
  assume "\<not> compare a d < 0"
  then have "compare d a \<le> 0" using cmp_sym [of d a] cmp_sym [of a d] by linarith
  from cmp_trans [OF assms(2) this] have "compare b a \<le> 0" .
  then show False using assms(1) cmp_sym [of a b] by linarith
qed

lemma cmp_above: "compare n x \<ge> 0 \<Longrightarrow> compare y x < 0 \<Longrightarrow> compare n y > 0"
  using cmp_less_le_trans [of y x n] cmp_sym [of x n] cmp_sym [of n x] cmp_sym [of y n] by linarith

lemma cmp_below: "compare n x \<le> 0 \<Longrightarrow> compare x y < 0 \<Longrightarrow> compare n y < 0"
  by (rule cmp_le_less_trans)

lemma ordered_Node:
  "avl_ordered compare (AvlNode l x h r) \<longleftrightarrow> avl_ordered compare l \<and> avl_ordered compare r \<and>
     (\<forall>y \<in> set (inorder l). compare y x < 0) \<and> (\<forall>y \<in> set (inorder r). compare x y < 0)"
  by (auto simp: avl_ordered_def sorted_wrt_append intro: cmp_less_le_trans [OF _ less_imp_le])

lemma ordered_Null [simp]: "avl_ordered compare AvlNull"
  by (simp add: avl_ordered_def)

lemma right_below:
  "avl_ordered compare (AvlNode l x h r) \<Longrightarrow> compare n x \<le> 0 \<Longrightarrow> y \<in> set (inorder r) \<Longrightarrow> compare n y < 0"
  by (auto simp: ordered_Node intro: cmp_below)

lemma left_above:
  "avl_ordered compare (AvlNode l x h r) \<Longrightarrow> compare n x \<ge> 0 \<Longrightarrow> y \<in> set (inorder l) \<Longrightarrow> compare n y > 0"
  by (auto simp: ordered_Node intro: cmp_above)

subsection \<open>Lookups\<close>

lemma search_find: "avl_ordered compare t \<Longrightarrow> avlsearch_loop compare t n = find (\<lambda>y. compare n y = 0) (inorder t)"
proof (induction t)
  case AvlNull
  then show ?case by simp
next
  case (AvlNode l x h r)
  note o = AvlNode.prems
  have IH: "avlsearch_loop compare l n = find (\<lambda>y. compare n y = 0) (inorder l)"
    "avlsearch_loop compare r n = find (\<lambda>y. compare n y = 0) (inorder r)"
    using AvlNode by (auto simp: ordered_Node)
  show ?case
  proof (cases "compare n x \<ge> 0")
    case True
    then have "find (\<lambda>y. compare n y = 0) (inorder l) = None"
      using left_above [OF o] by (force simp: find_None_iff)
    then show ?thesis using True IH by (simp add: find_append Let_def)
  next
    case False
    then have "find (\<lambda>y. compare n y = 0) (inorder r) = None"
      using right_below [OF o, of n] by (force simp: find_None_iff)
    then show ?thesis using False IH by (simp add: find_append Let_def split: option.splits)
  qed
qed

lemma lowerbound_find: "avl_ordered compare t \<Longrightarrow> avllowerbound t n compare = find (\<lambda>y. compare n y \<le> 0) (inorder t)"
proof (induction t)
  case AvlNull
  then show ?case by simp
next
  case (AvlNode l x h r)
  have IH: "avllowerbound l n compare = find (\<lambda>y. compare n y \<le> 0) (inorder l)"
    "avllowerbound r n compare = find (\<lambda>y. compare n y \<le> 0) (inorder r)"
    using AvlNode by (auto simp: ordered_Node)
  show ?case
  proof (cases "compare n x \<ge> 0")
    case True
    then have "find (\<lambda>y. compare n y \<le> 0) (inorder l) = None"
      using left_above [OF AvlNode.prems] by (force simp: find_None_iff not_le)
    then show ?thesis using True IH by (simp add: find_append Let_def)
  next
    case False
    then show ?thesis using IH by (simp add: find_append Let_def split: option.splits)
  qed
qed

lemma upperbound_find: "avl_ordered compare t \<Longrightarrow> avlupperbound t n compare = find (\<lambda>y. compare n y < 0) (inorder t)"
proof (induction t)
  case AvlNull
  then show ?case by simp
next
  case (AvlNode l x h r)
  have IH: "avlupperbound l n compare = find (\<lambda>y. compare n y < 0) (inorder l)"
    "avlupperbound r n compare = find (\<lambda>y. compare n y < 0) (inorder r)"
    using AvlNode by (auto simp: ordered_Node)
  show ?case
  proof (cases "compare n x \<ge> 0")
    case True
    then have "find (\<lambda>y. compare n y < 0) (inorder l) = None"
      using left_above [OF AvlNode.prems] by (force simp: find_None_iff not_less)
    then show ?thesis using True IH by (simp add: find_append Let_def)
  next
    case False
    then show ?thesis using IH by (simp add: find_append Let_def split: option.splits)
  qed
qed

subsection \<open>Insertion and removal as list operations\<close>

lemma ins_list_less:
  assumes "avl_ordered compare (AvlNode l x h r)" "compare n x < 0"
  shows "avl_ins_list compare n (inorder l @ x # inorder r) = avl_ins_list compare n (inorder l) @ x # inorder r"
proof -
  have r: "\<forall>y \<in> set (inorder r). compare n y < 0" using right_below [OF assms(1)] assms(2) by auto
  then have "filter (\<lambda>y. compare n y > 0) (inorder r) = []"
    "filter (\<lambda>y. compare n y < 0) (inorder r) = inorder r"
    by (force simp: filter_empty_conv filter_id_conv)+
  then show ?thesis using assms(2) r by (auto simp: avl_ins_list_def)
qed

lemma ins_list_greater:
  assumes "avl_ordered compare (AvlNode l x h r)" "compare n x > 0"
  shows "avl_ins_list compare n (inorder l @ x # inorder r) = inorder l @ x # avl_ins_list compare n (inorder r)"
proof -
  have l: "\<forall>y \<in> set (inorder l). compare n y > 0" using left_above [OF assms(1)] assms(2) by auto
  then have "filter (\<lambda>y. compare n y < 0) (inorder l) = []"
    "filter (\<lambda>y. compare n y > 0) (inorder l) = inorder l"
    by (force simp: filter_empty_conv filter_id_conv)+
  then show ?thesis using assms(2) l by (auto simp: avl_ins_list_def)
qed

lemma inorder_insert:
  "avl_ordered compare t \<Longrightarrow> avlinsert_rec compare t n = Some t' \<Longrightarrow> inorder t' = avl_ins_list compare n (inorder t)"
proof (induction t arbitrary: t')
  case AvlNull
  then show ?case by (auto simp: avl_ins_list_def)
next
  case (AvlNode l x h r)
  note o = AvlNode.prems(1) and ins = AvlNode.prems(2)
  consider "compare n x < 0" | "compare n x > 0" | "compare n x = 0" by linarith
  then show ?case
  proof cases
    case 1
    with ins obtain l' where "avlinsert_rec compare l n = Some l'"
      and "avl_insert_fix_left compare n l' x h r = Some t'" by (auto split: option.splits)
    then show ?thesis
      using AvlNode.IH(1) o 1 ins_list_less [OF o 1] by (auto simp: ordered_Node dest!: inorder_fix_left)
  next
    case 2
    with ins obtain r' where "avlinsert_rec compare r n = Some r'"
      and "avl_insert_fix_right compare n l x h r' = Some t'" by (auto split: option.splits)
    then show ?thesis
      using AvlNode.IH(2) o 2 ins_list_greater [OF o 2] by (auto simp: ordered_Node dest!: inorder_fix_right)
  next
    case 3
    then show ?thesis using ins by (auto simp: avl_ins_list_def)
  qed
qed

lemma sorted_ins_list:
  assumes "sorted_wrt (\<lambda>a b. compare a b < 0) xs"
  shows "sorted_wrt (\<lambda>a b. compare a b < 0) (avl_ins_list compare n xs)"
proof -
  have "compare y z < 0" if "compare n y > 0" "compare n z < 0" for y z
    using that cmp_sym [of y n] cmp_less_le_trans [of y n z] by linarith
  moreover have "compare y n < 0" if "compare n y > 0" for y
    using that cmp_sym [of y n] by simp
  ultimately show ?thesis
    using assms by (auto simp: avl_ins_list_def sorted_wrt_append sorted_wrt_filter)
qed

lemma insert_ordered: "avl_ordered compare t \<Longrightarrow> avlinsert_rec compare t n = Some t' \<Longrightarrow> avl_ordered compare t'"
  using inorder_insert sorted_ins_list by (simp add: avl_ordered_def)

lemma remove_inorder:
  "avl_ordered compare t \<Longrightarrow> avlremove_rec compare t n = Some (t', rm) \<Longrightarrow>
     inorder t' = avl_del_list compare n (inorder t) \<and> rm = find (\<lambda>y. compare n y = 0) (inorder t)"
proof (induction t arbitrary: t' rm n)
  case AvlNull
  then show ?case by (auto simp: avl_del_list_def)
next
  case (AvlNode l x h r)
  note o = AvlNode.prems(1) and rem = AvlNode.prems(2)
  have ol: "avl_ordered compare l" and orr: "avl_ordered compare r" using o by (auto simp: ordered_Node)
  have rneq: "compare n x \<le> 0 \<Longrightarrow> \<forall>y \<in> set (inorder r). compare n y \<noteq> 0"
    using right_below [OF o, of n] by force
  have lneq: "compare n x \<ge> 0 \<Longrightarrow> \<forall>y \<in> set (inorder l). compare n y \<noteq> 0"
    using left_above [OF o, of n] by force
  consider (gt) "compare n x > 0" | (lt) "compare n x < 0"
    | (eq2) "compare n x = 0" "l \<noteq> AvlNull" "r \<noteq> AvlNull"
    | (eq1) "compare n x = 0" "l = AvlNull \<or> r = AvlNull" by fastforce
  then show ?case
  proof cases
    case gt
    then obtain r' where r': "inorder r' = avl_del_list compare n (inorder r)" "rm = find (\<lambda>y. compare n y = 0) (inorder r)"
      and fin: "avl_remove_finish (AvlNode l x h r') = Some t'"
      using rem AvlNode.IH(2) [OF orr] by (auto simp: avl_del_list_def split: if_splits option.splits)
    then show ?thesis
      using gt lneq find_None_all [of "inorder l" "\<lambda>y. compare n y = 0"] inorder_remove_finish [OF fin]
      by (simp add: avl_del_list_def find_append filter_id_conv)
  next
    case lt
    then obtain l' where l': "inorder l' = avl_del_list compare n (inorder l)" "rm = find (\<lambda>y. compare n y = 0) (inorder l)"
      and fin: "avl_remove_finish (AvlNode l' x h r) = Some t'"
      using rem AvlNode.IH(1) [OF ol] by (auto simp: avl_del_list_def split: if_splits option.splits)
    then show ?thesis
      using lt rneq find_None_all [of "inorder r" "\<lambda>y. compare n y = 0"] inorder_remove_finish [OF fin]
      by (simp add: avl_del_list_def find_append filter_id_conv split: option.splits)
  next
    case eq2
    obtain m ms where m: "inorder r = m # ms" using eq2 by (cases "inorder r") auto
    then have gm: "avlgetmin r = Some m" by (simp add: getmin_inorder)
    obtain r' rm' where r': "avlremove_rec compare r m = Some (r', rm')"
      and fin: "avl_remove_finish (AvlNode l m h r') = Some t'" and rm: "rm = Some x"
      using rem eq2 gm by (auto split: option.splits)
    have "\<forall>y \<in> set ms. compare m y \<noteq> 0" using orr m by (force simp: avl_ordered_def)
    then have "inorder r' = ms"
      using AvlNode.IH(2) [OF orr r'] m by (simp add: avl_del_list_def filter_id_conv)
    then show ?thesis
      using eq2 m rm lneq rneq find_None_all [of "inorder l" "\<lambda>y. compare n y = 0"] inorder_remove_finish [OF fin]
      by (simp add: avl_del_list_def find_append filter_id_conv)
  next
    case eq1
    then show ?thesis
      using rem lneq rneq find_None_all [of "inorder l" "\<lambda>y. compare n y = 0"]
      by (auto simp: avl_del_list_def find_append filter_id_conv split: if_splits)
  qed
qed

lemma remove_ordered: "avl_ordered compare t \<Longrightarrow> avlremove_rec compare t n = Some (t', rm) \<Longrightarrow> avl_ordered compare t'"
  using remove_inorder [of t n t' rm] by (simp add: avl_ordered_def avl_del_list_def sorted_wrt_filter)

end

section \<open>The keyed index a client sees\<close>

text \<open>
  \<^verbatim>\<open>avl_simple_compare\<close> of \<^verbatim>\<open>include/avltree.h\<close>: comparison of one field of the embedding
  structures.
\<close>

definition avl_simple_compare :: "('a \<Rightarrow> 'k::linorder) \<Rightarrow> 'a avl_compare_fp" where
  "avl_simple_compare field left right =
     (if field left > field right then 1 else if field left < field right then -1 else 0)"

interpretation simple: avl_compare "avl_simple_compare f" for f :: "'a \<Rightarrow> 'k::linorder"
  by unfold_locales (auto simp: avl_simple_compare_def split: if_splits)

lemma simple_compare_sgn [simp]:
  "avl_simple_compare f a b = 0 \<longleftrightarrow> f a = f b"
  "avl_simple_compare f a b < 0 \<longleftrightarrow> f a < f b"
  "avl_simple_compare f a b > 0 \<longleftrightarrow> f a > f b"
  by (auto simp: avl_simple_compare_def)

text \<open>
  The contract between the tree and the tables built on it: an index of structures by a key.
  \<open>modify\<close> is a write through the pointer a lookup returned; it does not touch the key.
\<close>

locale keyed_index =
  fixes key :: "'a \<Rightarrow> 'k"
    and empty :: 't
    and lookup :: "'t \<Rightarrow> 'k \<Rightarrow> 'a option"
    and insert :: "'t \<Rightarrow> 'a \<Rightarrow> 't option"
    and delete :: "'t \<Rightarrow> 'k \<Rightarrow> ('t \<times> 'a option) option"
    and modify :: "'t \<Rightarrow> 'k \<Rightarrow> ('a \<Rightarrow> 'a) \<Rightarrow> 't"
    and invar :: "'t \<Rightarrow> bool"
  assumes invar_empty: "invar empty"
    and lookup_empty: "lookup empty k = None"
    and lookup_key: "invar t \<Longrightarrow> lookup t k = Some x \<Longrightarrow> key x = k"
    and insert_new: "invar t \<Longrightarrow> lookup t (key n) = None \<Longrightarrow>
          \<exists>t'. insert t n = Some t' \<and> invar t' \<and> lookup t' = (lookup t)(key n \<mapsto> n)"
    and insert_old: "invar t \<Longrightarrow> lookup t (key n) \<noteq> None \<Longrightarrow>
          \<exists>t'. insert t n = Some t' \<and> invar t' \<and> lookup t' = lookup t"
    and delete_ok: "invar t \<Longrightarrow>
          \<exists>t'. delete t k = Some (t', lookup t k) \<and> invar t' \<and> lookup t' = (lookup t)(k := None)"
    and modify_ok: "invar t \<Longrightarrow> (\<And>x. key (f x) = key x) \<Longrightarrow>
          invar (modify t k f) \<and> lookup (modify t k f) = (lookup t)(k := map_option f (lookup t k))"
begin

lemma insert_total: "invar t \<Longrightarrow> \<exists>t'. insert t n = Some t' \<and> invar t'"
  by (cases "lookup t (key n)") (auto dest: insert_new insert_old)

lemma insert_lookup:
  "invar t \<Longrightarrow> lookup t (key n) = None \<Longrightarrow> insert t n = Some t' \<Longrightarrow> lookup t' = (lookup t)(key n \<mapsto> n)"
  by (drule (1) insert_new) auto

lemma insert_lookup_old:
  "invar t \<Longrightarrow> lookup t (key n) = Some y \<Longrightarrow> insert t n = Some t' \<Longrightarrow> lookup t' = lookup t"
  using insert_old [of t n] by auto

lemma insert_invar: "invar t \<Longrightarrow> insert t n = Some t' \<Longrightarrow> invar t'"
  using insert_total [of t n] by auto

lemma delete_invar: "invar t \<Longrightarrow> delete t k = Some (t', rm) \<Longrightarrow> invar t'"
  using delete_ok [of t k] by auto

lemma delete_lookup: "invar t \<Longrightarrow> delete t k = Some (t', rm) \<Longrightarrow> lookup t' = (lookup t)(k := None) \<and> rm = lookup t k"
  using delete_ok [of t k] by auto

end

definition avl_modify :: "('a \<Rightarrow> 'k) \<Rightarrow> 'a avltree \<Rightarrow> 'k \<Rightarrow> ('a \<Rightarrow> 'a) \<Rightarrow> 'a avltree" where
  "avl_modify key t k f = map_avltree (\<lambda>x. if key x = k then f x else x) t"

lemma HEIGHT_map [simp]: "HEIGHT (map_avltree f t) = HEIGHT t"
  by (cases t) auto

lemma avl_map [simp]: "avl (map_avltree f t) = avl t"
  by (induction t) auto

lemma inorder_map [simp]: "inorder (map_avltree f t) = map f (inorder t)"
  by (induction t) auto

lemma ordered_map:
  "(\<And>x. key (f x) = key x) \<Longrightarrow>
     avl_ordered (avl_simple_compare key) (map_avltree f t) = avl_ordered (avl_simple_compare key) t"
  by (simp add: avl_ordered_def sorted_wrt_map)

text \<open>In an ordered tree a search by key finds exactly the node with that key.\<close>

lemma sorted_key_unique:
  "sorted_wrt (\<lambda>a b. key a < (key b :: 'k::linorder)) xs \<Longrightarrow> x \<in> set xs \<Longrightarrow> y \<in> set xs \<Longrightarrow>
     key x = key y \<Longrightarrow> x = y"
proof (induction xs)
  case (Cons a xs)
  then show ?case by (metis less_irrefl set_ConsD sorted_wrt.simps(2))
qed simp

lemma simple_search_iff:
  assumes "avl_ordered (avl_simple_compare key) t"
  shows "avlsearch_loop (avl_simple_compare key) t n = Some x \<longleftrightarrow> x \<in> set (inorder t) \<and> key x = key n"
proof -
  have s: "sorted_wrt (\<lambda>a b. key a < key b) (inorder t)"
    using assms by (simp add: avl_ordered_def)
  have "find (\<lambda>y. key n = key y) (inorder t) = Some x \<longleftrightarrow> x \<in> set (inorder t) \<and> key x = key n"
  proof (cases "find (\<lambda>y. key n = key y) (inorder t)")
    case None
    then have "\<forall>y \<in> set (inorder t). key n \<noteq> key y" by (auto simp: find_None_iff)
    with None show ?thesis by auto
  next
    case (Some y)
    then have "y \<in> set (inorder t)" "key n = key y"
      by (auto simp: find_Some_iff)
    then show ?thesis using Some sorted_key_unique [OF s, of y x] by auto
  qed
  then show ?thesis by (simp add: simple.search_find [OF assms])
qed

lemma simple_search_None:
  assumes "avl_ordered (avl_simple_compare key) t"
  shows "avlsearch_loop (avl_simple_compare key) t n = None \<longleftrightarrow> (\<forall>x \<in> set (inorder t). key x \<noteq> key n)"
  using simple_search_iff [OF assms, of n] by (metis not_None_eq)

lemma simple_search_eqI:
  assumes "avl_ordered (avl_simple_compare key) t" and "\<And>x. m = Some x \<longleftrightarrow> x \<in> set (inorder t) \<and> key x = key n"
  shows "avlsearch_loop (avl_simple_compare key) t n = m"
  by (rule option_eqI) (simp add: assms(2) simple_search_iff [OF assms(1)])

lemma simple_search_insert:
  assumes o: "avl_ordered (avl_simple_compare key) t"
    and ins: "avlinsert_rec (avl_simple_compare key) t n = Some t'"
    and new: "\<forall>x \<in> set (inorder t). key x \<noteq> key n"
  shows "avlsearch_loop (avl_simple_compare key) t' m =
           (if key m = key n then Some n else avlsearch_loop (avl_simple_compare key) t m)"
proof (rule simple_search_eqI)
  show "avl_ordered (avl_simple_compare key) t'" by (rule simple.insert_ordered [OF o ins])
  have set: "set (inorder t') = Set.insert n (set (inorder t))"
    using simple.inorder_insert [OF o ins] new by (auto simp: avl_ins_list_def dest!: neq_iff [THEN iffD1])
  show "(if key m = key n then Some n else avlsearch_loop (avl_simple_compare key) t m) = Some x
      \<longleftrightarrow> x \<in> set (inorder t') \<and> key x = key m" for x
    using new by (auto simp: set simple_search_iff [OF o])
qed

lemma simple_search_delete:
  assumes o: "avl_ordered (avl_simple_compare key) t"
    and del: "avlremove_rec (avl_simple_compare key) t n = Some (t', rm)"
  shows "avlsearch_loop (avl_simple_compare key) t' m =
           (if key m = key n then None else avlsearch_loop (avl_simple_compare key) t m)"
proof (rule simple_search_eqI)
  show "avl_ordered (avl_simple_compare key) t'" by (rule simple.remove_ordered [OF o del])
  show "(if key m = key n then None else avlsearch_loop (avl_simple_compare key) t m) = Some x
      \<longleftrightarrow> x \<in> set (inorder t') \<and> key x = key m" for x
    using simple.remove_inorder [OF o del] by (auto simp: avl_del_list_def simple_search_iff [OF o])
qed

lemma avl_keyed_index:
  assumes mk: "\<And>k. key (mk k) = (k :: 'k::linorder)"
  defines "c \<equiv> avl_simple_compare key"
  shows "keyed_index key AvlNull (\<lambda>t k. avlsearch t (Some (mk k)) (Some c))
    (\<lambda>t n. avlinsert t (Some n) (Some c)) (\<lambda>t k. avlremove_rec c t (mk k))
    (avl_modify key) (\<lambda>t. avl t \<and> avl_ordered c t)"
proof (unfold_locales, goal_cases)
  case 1
  then show ?case by (simp add: avl_ordered_def)
next
  case (2 k)
  then show ?case by (simp add: avlsearch_def)
next
  case (3 t k x)
  then show ?case by (auto simp: avlsearch_def c_def simple_search_iff mk)
next
  case (4 t n)
  then obtain t' where t': "avlinsert_rec c t n = Some t'" "avl t'"
    using insert_grown [of t c n] by (auto simp: avl_grown_def)
  have "\<forall>x \<in> set (inorder t). key x \<noteq> key n"
    using 4 by (auto simp: avlsearch_def c_def simple_search_None mk)
  then show ?case using 4 t' simple.insert_ordered [of key t n t'] simple_search_insert [of key t n t']
    by (auto simp: avlinsert_def avlsearch_def c_def mk fun_eq_iff)
next
  case (5 t n)
  then obtain t' where t': "avlinsert_rec c t n = Some t'" "avl t'"
    using insert_grown [of t c n] by (auto simp: avl_grown_def)
  obtain y where "y \<in> set (inorder t)" "key y = key n"
    using 5 by (auto simp: avlsearch_def c_def simple_search_iff mk)
  then have "\<exists>y \<in> set (inorder t). c n y = 0" by (intro bexI [of _ y]) (simp_all add: c_def)
  then have "inorder t' = inorder t"
    using simple.inorder_insert [of key t n t'] 5 t' by (simp add: c_def avl_ins_list_def)
  then show ?case using 5 t' simple.insert_ordered [of key t n t']
    by (auto simp: avlinsert_def avlsearch_def c_def fun_eq_iff simple.search_find)
next
  case (6 t k)
  then obtain t' rm where t': "avlremove_rec c t (mk k) = Some (t', rm)" "avl t'"
    using remove_avl [of t c "mk k"] by auto
  have o: "avl_ordered (avl_simple_compare key) t" using 6 by (simp add: c_def)
  note del = t'(1) [unfolded c_def]
  have "rm = avlsearch_loop c t (mk k)"
    using simple.remove_inorder [OF o del] simple.search_find [OF o, of "mk k"] by (simp add: c_def)
  then show ?case using t' simple.remove_ordered [OF o del] simple_search_delete [OF o del]
    by (simp add: avlsearch_def c_def mk fun_eq_iff)
next
  case (7 t f k)
  then have o: "avl_ordered c t" and o': "avl_ordered c (avl_modify key t k f)"
    unfolding avl_modify_def c_def by (auto simp: ordered_map)
  have "avlsearch_loop c (avl_modify key t k f) (mk k') =
      ((\<lambda>k. avlsearch_loop c t (mk k))(k := map_option f (avlsearch_loop c t (mk k)))) k'" for k'
    unfolding c_def
    by (rule simple_search_eqI [OF o' [unfolded c_def]])
       (use 7(2) in \<open>auto simp: simple_search_iff [OF o [unfolded c_def]] mk avl_modify_def\<close>)
  then show ?case using 7 o' by (simp add: avlsearch_def fun_eq_iff avl_modify_def)
qed

section \<open>Properties\<close>

lemma two_power_pred: "(2::nat) ^ m \<le> 2 * 2 ^ (m - 1)"
  by (cases m) auto

lemma avl_size_bound: "avl t \<Longrightarrow> (2::nat) ^ (nat (HEIGHT t + 1) div 2) \<le> length (inorder t) + 1"
proof (induction t)
  case AvlNull
  then show ?case by simp
next
  case (AvlNode l x h r)
  define k where "k = nat (h + 1) div 2"
  have b: "h = max (HEIGHT l) (HEIGHT r) + 1" "\<bar>HEIGHT l - HEIGHT r\<bar> \<le> 1"
    "HEIGHT l \<ge> -1" "HEIGHT r \<ge> -1" using AvlNode.prems HEIGHT_ge by auto
  have "k - 1 \<le> nat (HEIGHT l + 1) div 2" "k - 1 \<le> nat (HEIGHT r + 1) div 2"
    using b unfolding k_def by auto
  then have "(2::nat) ^ (k - 1) \<le> 2 ^ (nat (HEIGHT l + 1) div 2)"
    "(2::nat) ^ (k - 1) \<le> 2 ^ (nat (HEIGHT r + 1) div 2)" by (simp_all only: power_increasing)
  moreover have "2 ^ (nat (HEIGHT l + 1) div 2) \<le> length (inorder l) + 1"
    "2 ^ (nat (HEIGHT r + 1) div 2) \<le> length (inorder r) + 1" using AvlNode by auto
  ultimately have "2 ^ k \<le> length (inorder l) + length (inorder r) + 2"
    using two_power_pred [of k] by linarith
  then show ?case by (simp add: k_def)
qed

text \<open>C2. Inserting a node into a balanced, ordered tree never dereferences NULL; the result is
  balanced with right heights, ordered, and holds the new node at its place among the old ones
  (or exactly the old ones when an equal node is in the tree already).\<close>

theorem avlinsert_correct:
  assumes "avl_compare c" and "avl t" and "avl_ordered c t"
  shows "\<exists>t'. avlinsert t (Some n) (Some c) = Some t' \<and> avl t' \<and> avl_ordered c t' \<and>
           inorder t' = avl_ins_list c n (inorder t) \<and>
           (HEIGHT t' = HEIGHT t \<or> HEIGHT t' = HEIGHT t + 1)"
  using insert_grown [OF assms(2), of c n] avl_compare.insert_ordered [OF assms(1,3)]
    avl_compare.inorder_insert [OF assms(1,3)]
  by (fastforce simp: avlinsert_def avl_grown_def)

theorem avlinsert_correct_witness:
  "\<exists>t'. avlinsert (AvlNode (AvlNode AvlNull (1::int) 0 AvlNull) 2 1 AvlNull) (Some 0)
           (Some (avl_simple_compare id)) = Some t' \<and> avl t' \<and> inorder t' = [0, 1, 2]"
  using avlinsert_correct [OF simple.avl_compare_axioms,
      of "AvlNode (AvlNode AvlNull (1::int) 0 AvlNull) 2 1 AvlNull" id 0]
  by (simp add: avl_ordered_def avl_ins_list_def) blast

text \<open>C3. Removing from a balanced, ordered tree never dereferences NULL; the result is balanced
  and ordered, holds every node but the one equal to the argument, and \<^verbatim>\<open>*rmnode\<close> receives that
  node, or NULL when there is none.\<close>

theorem avlremove_correct:
  assumes "avl_compare c" and "avl t" and "avl_ordered c t" and "t \<noteq> AvlNull"
  shows "\<exists>t'. avlremove t (Some n) (Some cell) (Some c) =
             Some (t', Some (find (\<lambda>y. c n y = 0) (inorder t))) \<and>
           avl t' \<and> avl_ordered c t' \<and> inorder t' = avl_del_list c n (inorder t)"
proof -
  obtain t' rm where r: "avlremove_rec c t n = Some (t', rm)" "avl t'"
    using remove_avl [OF assms(2), of c n] by blast
  show ?thesis
    using r assms(4) avl_compare.remove_ordered [OF assms(1,3) r(1)]
      avl_compare.remove_inorder [OF assms(1,3) r(1)]
    by (cases t) (auto simp: avlremove_def)
qed

theorem avlremove_correct_witness:
  "\<exists>t'. avlremove (AvlNode (AvlNode AvlNull (1::int) 0 AvlNull) 2 1 AvlNull) (Some 2) (Some None)
           (Some (avl_simple_compare id)) = Some (t', Some (Some 2)) \<and> avl t' \<and> inorder t' = [1]"
  using avlremove_correct [OF simple.avl_compare_axioms,
      of "AvlNode (AvlNode AvlNull (1::int) 0 AvlNull) 2 1 AvlNull" id 2 None]
  by (simp add: avl_ordered_def avl_del_list_def) blast

text \<open>C16. On an ordered tree the five lookups are list searches over the nodes in order: the equal
  node, the first node not below the argument, the first node above it, the first and the last.\<close>

theorem avl_lookups_correct:
  assumes "avl_compare c" and "avl_ordered c t"
  shows "avlsearch t (Some n) (Some c) = find (\<lambda>y. c n y = 0) (inorder t) \<and>
    avllowerbound t n c = find (\<lambda>y. c n y \<le> 0) (inorder t) \<and>
    avlupperbound t n c = find (\<lambda>y. c n y < 0) (inorder t) \<and>
    avlgetmin t = (if inorder t = [] then None else Some (hd (inorder t))) \<and>
    avlgetmax t = (if inorder t = [] then None else Some (last (inorder t)))"
  using avl_compare.search_find [OF assms] avl_compare.lowerbound_find [OF assms]
    avl_compare.upperbound_find [OF assms]
  by (simp add: avlsearch_def getmin_inorder getmax_inorder)

theorem avl_lookups_correct_witness:
  "avllowerbound (AvlNode (AvlNode AvlNull (10::int) 0 AvlNull) 20 1 AvlNull) 15 (avl_simple_compare id) = Some 20
   \<and> avlupperbound (AvlNode (AvlNode AvlNull (10::int) 0 AvlNull) 20 1 AvlNull) 20 (avl_simple_compare id) = None"
  using avl_lookups_correct [OF simple.avl_compare_axioms,
      of id "AvlNode (AvlNode AvlNull (10::int) 0 AvlNull) 20 1 AvlNull" 15]
    avl_lookups_correct [OF simple.avl_compare_axioms,
      of id "AvlNode (AvlNode AvlNull (10::int) 0 AvlNull) 20 1 AvlNull" 20]
  by (simp add: avl_ordered_def avl_simple_compare_def)



end
