(* ===== verification/ObjectTable.thy ===== *)
theory ObjectTable
  imports AvlTree
begin

unbundle bit_operations_syntax

text \<open>
  \<^verbatim>\<open>src/posix/wosi/object.c\<close>: reference-counted objects behind integer handles, in a table of
  256 AVL trees. Every public operation holds the manager's spin lock while it touches the table,
  so an operation is one atomic transition of the manager state. A result of \<^term>\<open>None\<close> means the
  process dies: a NULL pointer is dereferenced or called, or an \<^verbatim>\<open>assert\<close> fails.
\<close>

section \<open>State\<close>

text \<open>
  \<^verbatim>\<open>objhld_t\<close> is a 64-bit \<^verbatim>\<open>long\<close>; handles are kept as their signed value and the increment of
  the automatic handle wraps. An initializer maps the zeroed body, the context and its size to its
  result and the body it leaves. An unloader is an opaque routine address; its calls are recorded
  in \<open>unload_log\<close>, which has no counterpart in the C state.
\<close>

type_synonym objhld = int
type_synonym objinit_fp = "bytes \<Rightarrow> bytes option \<Rightarrow> u32 \<Rightarrow> int \<times> bytes"
type_synonym objuninit_fp = nat

definition INVALID_OBJHLD :: objhld where
  "INVALID_OBJHLD = -1"

definition OBJSTAT_NORMAL :: int where "OBJSTAT_NORMAL = 0"
definition OBJSTAT_CLOSEWAIT :: int where "OBJSTAT_CLOSEWAIT = 1"
definition OBJ_HASHTABLE_SIZE :: nat where "OBJ_HASHTABLE_SIZE = 256"

lemmas obj_consts = INVALID_OBJHLD_def OBJSTAT_NORMAL_def OBJSTAT_CLOSEWAIT_def OBJ_HASHTABLE_SIZE_def

record object_t =
  hld :: objhld
  status :: int
  refcnt :: int
  size :: u32
  initializer :: "objinit_fp option"
  unloader :: "objuninit_fp option"
  body :: bytes

record object_manager =
  roottab :: "object_t avltree list"
  atoid :: objhld
  unload_log :: "(objuninit_fp \<times> objhld \<times> bytes) list"

record objcreator =
  known :: objhld
  creator_size :: u32
  creator_initializer :: "objinit_fp option"
  creator_unloader :: "objuninit_fp option"
  creator_context :: "bytes option"
  ctxsize :: u32

definition g_objmgr :: object_manager where
  "g_objmgr = \<lparr>roottab = replicate OBJ_HASHTABLE_SIZE AvlNull, atoid = 0, unload_log = []\<rparr>"

section \<open>Table operations\<close>

definition wrap_long :: "int \<Rightarrow> int" where
  "wrap_long x = sint (word_of_int x :: 64 word)"

definition avl_compare_routine :: "object_t avl_compare_fp" where
  "avl_compare_routine lobj robj =
     (if hld lobj > hld robj then 1 else if hld lobj < hld robj then -1 else 0)"

text \<open>The local \<^verbatim>\<open>object_t\<close> of a search: only its handle is set and read.\<close>

definition find_node :: "objhld \<Rightarrow> object_t" where
  "find_node h = \<lparr>hld = h, status = 0, refcnt = 0, size = 0, initializer = None, unloader = None, body = []\<rparr>"

definition hld2root :: "objhld \<Rightarrow> nat option" where
  "hld2root h = (if h > 0 then Some (nat (h AND (int OBJ_HASHTABLE_SIZE - 1))) else None)"

definition objtab_insert :: "object_manager \<Rightarrow> nat \<Rightarrow> object_t \<Rightarrow> object_manager option" where
  "objtab_insert m i obj =
     map_option (\<lambda>t. m\<lparr>roottab := (roottab m)[i := t]\<rparr>)
       (avlinsert (roottab m ! i) (Some obj) (Some avl_compare_routine))"

definition objtabinst :: "object_manager \<Rightarrow> object_t \<Rightarrow> (object_manager \<times> object_t \<times> nsp_status) option" where
  "objtabinst m obj =
     (if INVALID_OBJHLD \<noteq> hld obj \<or> 0 = hld obj then
        (case hld2root (hld obj) of
           None \<Rightarrow> Some (m, obj, posix__makeerror ENODEV)
         | Some i \<Rightarrow>
             (case avlsearch (roottab m ! i) (Some (find_node (hld obj))) (Some avl_compare_routine) of
                Some _ \<Rightarrow> Some (m, obj, posix__makeerror EEXIST)
              | None \<Rightarrow>
                  map_option (\<lambda>m'. (m', obj, posix__makeerror NSP_STATUS_SUCCESSFUL)) (objtab_insert m i obj)))
      else
        (let next = wrap_long (atoid m + 1);
             m1 = m\<lparr>atoid := next\<rparr>;
             obj1 = obj\<lparr>hld := next\<rparr>
         in case hld2root next of
              None \<Rightarrow> Some (m1, obj1, posix__makeerror ENODEV)
            | Some i \<Rightarrow>
                map_option (\<lambda>m'. (m', obj1, posix__makeerror NSP_STATUS_SUCCESSFUL)) (objtab_insert m1 i obj1)))"

text \<open>Result: the manager, the status and the content of \<^verbatim>\<open>*removed\<close>.\<close>

definition objtabrmve :: "object_manager \<Rightarrow> objhld \<Rightarrow> (object_manager \<times> nsp_status \<times> object_t option) option" where
  "objtabrmve m h =
     (case hld2root h of
        None \<Rightarrow> Some (m, posix__makeerror ENODEV, None)
      | Some i \<Rightarrow>
          map_option (\<lambda>(t, cell). (m\<lparr>roottab := (roottab m)[i := t]\<rparr>,
              (if cell = Some None then posix__makeerror ENODEV else NSP_STATUS_SUCCESSFUL),
              Option.bind cell id))
            (avlremove (roottab m ! i) (Some (find_node h)) (Some None) (Some avl_compare_routine)))"

definition objtabsrch :: "object_manager \<Rightarrow> objhld \<Rightarrow> object_t option" where
  "objtabsrch m h =
     (case hld2root h of
        None \<Rightarrow> None
      | Some i \<Rightarrow> avlsearch (roottab m ! i) (Some (find_node h)) (Some avl_compare_routine))"

text \<open>Writing a field of the object a search of handle \<open>h\<close> returned.\<close>

definition objtab_modify :: "object_manager \<Rightarrow> objhld \<Rightarrow> (object_t \<Rightarrow> object_t) \<Rightarrow> object_manager" where
  "objtab_modify m h f =
     (case hld2root h of
        None \<Rightarrow> m
      | Some i \<Rightarrow> m\<lparr>roottab := (roottab m)[i := avl_modify hld (roottab m ! i) h f]\<rparr>)"

definition objtagfree :: "object_manager \<Rightarrow> object_t \<Rightarrow> object_manager" where
  "objtagfree m target =
     (case unloader target of
        None \<Rightarrow> m
      | Some u \<Rightarrow> m\<lparr>unload_log := unload_log m @ [(u, hld target, body target)]\<rparr>)"

definition objinit :: "object_manager \<Rightarrow> object_manager" where
  "objinit m = m\<lparr>roottab := replicate OBJ_HASHTABLE_SIZE AvlNull, atoid := 0\<rparr>"

section \<open>Public operations\<close>

definition creator_illegal :: "objcreator \<Rightarrow> bool" where
  "creator_illegal c \<longleftrightarrow> creator_size c = 0 \<or> (creator_context c \<noteq> None \<and> ctxsize c = 0) \<or> (creator_context c = None \<and> ctxsize c \<noteq> 0)"

definition creator_object :: "objcreator \<Rightarrow> object_t" where
  "creator_object c =
     \<lparr>hld = (if known c = 0 then INVALID_OBJHLD else known c), status = OBJSTAT_NORMAL, refcnt = 0,
      size = creator_size c, initializer = creator_initializer c, unloader = creator_unloader c,
      body = replicate (unat (creator_size c)) 0\<rparr>"

text \<open>
  The initializer call: \<^term>\<open>Inr obj\<close> when there is none or it succeeds; when it fails the
  unloader is called with handle -1, without a check that there is one (\<^term>\<open>Inl\<close> is that call).
\<close>

definition run_initializer ::
  "objcreator \<Rightarrow> object_t \<Rightarrow> ((objuninit_fp \<times> objhld \<times> bytes) + object_t) option" where
  "run_initializer c obj =
     (case initializer obj of
        None \<Rightarrow> Some (Inr obj)
      | Some init \<Rightarrow>
          (let (ret, b) = init (body obj) (creator_context c) (ctxsize c) in
           if ret < 0 then map_option (\<lambda>u. Inl (u, -1, b)) (unloader obj)
           else Some (Inr (obj\<lparr>body := b\<rparr>))))"

definition log_unload :: "object_manager \<Rightarrow> objuninit_fp \<times> objhld \<times> bytes \<Rightarrow> object_manager" where
  "log_unload m call = m\<lparr>unload_log := unload_log m @ [call]\<rparr>"

text \<open>\<open>mem\<close> tells whether the allocation of the object gives a non-NULL pointer.\<close>

definition objallo3 :: "bool \<Rightarrow> object_manager \<Rightarrow> objcreator option \<Rightarrow> (object_manager \<times> objhld) option" where
  "objallo3 mem m creator =
     (case creator of
        None \<Rightarrow> Some (m, INVALID_OBJHLD)
      | Some c \<Rightarrow>
          if creator_illegal c then Some (m, INVALID_OBJHLD)
          else if \<not> mem then Some (m, INVALID_OBJHLD)
          else
            (case run_initializer c (creator_object c) of
               None \<Rightarrow> None
             | Some (Inl call) \<Rightarrow> Some (log_unload m call, INVALID_OBJHLD)
             | Some (Inr obj) \<Rightarrow>
                 map_option (\<lambda>(m', obj', st). (m', if \<not> NSP_SUCCESS st then INVALID_OBJHLD else hld obj'))
                   (objtabinst m obj)))"

text \<open>Result: the manager, the status, and what is stored through \<^verbatim>\<open>out\<close>, if anything.\<close>

definition objallo4 ::
  "bool \<Rightarrow> object_manager \<Rightarrow> objcreator option \<Rightarrow> bool \<Rightarrow> (object_manager \<times> nsp_status \<times> objhld option) option" where
  "objallo4 mem m creator has_out =
     (case creator of
        None \<Rightarrow> Some (m, posix__makeerror EINVAL, None)
      | Some c \<Rightarrow>
          if \<not> has_out then Some (m, posix__makeerror EINVAL, None)
          else if creator_illegal c then Some (m, posix__makeerror EINVAL, None)
          else if \<not> mem then Some (m, posix__makeerror ENOMEM, None)
          else
            (case run_initializer c (creator_object c) of
               None \<Rightarrow> None
             | Some (Inl call) \<Rightarrow> Some (log_unload m call, NSP_STATUS_FATAL, None)
             | Some (Inr obj) \<Rightarrow>
                 map_option (\<lambda>(m', obj', st).
                     if \<not> NSP_SUCCESS st then (m', st, None)
                     else (m', NSP_STATUS_SUCCESSFUL, Some (hld obj')))
                   (objtabinst m obj)))"

definition objallo ::
  "bool \<Rightarrow> object_manager \<Rightarrow> u32 \<Rightarrow> objinit_fp option \<Rightarrow> objuninit_fp option \<Rightarrow> bytes option \<Rightarrow> u32
     \<Rightarrow> (object_manager \<times> objhld) option" where
  "objallo mem m sz init unload ctx ctxsz =
     objallo3 mem m (Some \<lparr>known = INVALID_OBJHLD, creator_size = sz, creator_initializer = init,
       creator_unloader = unload, creator_context = ctx, ctxsize = ctxsz\<rparr>)"

definition objallo2 :: "bool \<Rightarrow> object_manager \<Rightarrow> u32 \<Rightarrow> (object_manager \<times> objhld) option" where
  "objallo2 mem m sz = objallo mem m sz None None None 0"

text \<open>
  The reference operations return the address of the object's body; it is represented by the
  handle the object has (\<^term>\<open>None\<close> for NULL).
\<close>

definition objrefr :: "object_manager \<Rightarrow> objhld \<Rightarrow> object_manager \<times> objhld option" where
  "objrefr m h =
     (case objtabsrch m h of
        None \<Rightarrow> (m, None)
      | Some obj \<Rightarrow>
          if OBJSTAT_NORMAL = status obj then
            (objtab_modify m h (\<lambda>o'. o'\<lparr>refcnt := refcnt o' + 1\<rparr>), Some (hld obj))
          else (m, None))"

definition objrefr2 :: "object_manager \<Rightarrow> objhld \<Rightarrow> bool \<Rightarrow> object_manager \<times> u32 \<times> objhld option" where
  "objrefr2 m h has_out =
     (if \<not> has_out then (m, -1, None)
      else
        (case objtabsrch m h of
           None \<Rightarrow> (m, -1, None)
         | Some obj \<Rightarrow>
             if OBJSTAT_NORMAL = status obj then
               (objtab_modify m h (\<lambda>o'. o'\<lparr>refcnt := refcnt o' + 1\<rparr>), size obj, Some (hld obj))
             else (m, -1, None)))"

definition objreff :: "object_manager \<Rightarrow> objhld \<Rightarrow> object_manager \<times> objhld option" where
  "objreff m h =
     (case objtabsrch m h of
        None \<Rightarrow> (m, None)
      | Some obj \<Rightarrow>
          if OBJSTAT_NORMAL = status obj then
            (objtab_modify m h (\<lambda>o'. o'\<lparr>refcnt := refcnt o' + 1, status := OBJSTAT_CLOSEWAIT\<rparr>), Some (hld obj))
          else (m, None))"

definition free_removed :: "object_manager \<times> nsp_status \<times> object_t option \<Rightarrow> object_manager" where
  "free_removed r = (case r of (m, _, None) \<Rightarrow> m | (m, _, Some removed) \<Rightarrow> objtagfree m removed)"

definition objdefr :: "object_manager \<Rightarrow> objhld \<Rightarrow> object_manager option" where
  "objdefr m h =
     (case objtabsrch m h of
        None \<Rightarrow> Some m
      | Some obj \<Rightarrow>
          if \<not> refcnt obj > 0 then None
          else
            (let m1 = objtab_modify m h (\<lambda>o'. o'\<lparr>refcnt := refcnt o' - 1\<rparr>) in
             if refcnt obj - 1 = 0 \<and> OBJSTAT_CLOSEWAIT = status obj then
               map_option free_removed (objtabrmve m1 (hld obj))
             else Some m1))"

definition objclos :: "object_manager \<Rightarrow> objhld \<Rightarrow> object_manager option" where
  "objclos m h =
     (case objtabsrch m h of
        None \<Rightarrow> Some m
      | Some obj \<Rightarrow>
          if 0 = refcnt obj \<and> OBJSTAT_NORMAL = status obj then
            map_option free_removed (objtabrmve m (hld obj))
          else Some (objtab_modify m h (\<lambda>o'. o'\<lparr>status := OBJSTAT_CLOSEWAIT\<rparr>)))"

section \<open>The table as a map from handles to objects\<close>

lemma compare_routine_simple: "avl_compare_routine = avl_simple_compare hld"
  by (simp add: fun_eq_iff avl_compare_routine_def avl_simple_compare_def)

definition bucket_lookup :: "object_t avltree \<Rightarrow> objhld \<Rightarrow> object_t option" where
  "bucket_lookup t k = avlsearch t (Some (find_node k)) (Some avl_compare_routine)"

interpretation objix: keyed_index hld AvlNull bucket_lookup
  "\<lambda>t n. avlinsert t (Some n) (Some avl_compare_routine)"
  "\<lambda>t k. avlremove_rec avl_compare_routine t (find_node k)"
  "avl_modify hld" "\<lambda>t. avl t \<and> avl_ordered avl_compare_routine t"
  unfolding compare_routine_simple bucket_lookup_def [abs_def]
  by (rule avl_keyed_index) (simp add: find_node_def)

lemma objtabsrch_bucket:
  "objtabsrch m h = (case hld2root h of None \<Rightarrow> None | Some i \<Rightarrow> bucket_lookup (roottab m ! i) h)"
  by (simp add: objtabsrch_def bucket_lookup_def split: option.split)

text \<open>Every bucket is a balanced ordered tree, and holds only objects whose handle hashes to it.\<close>

definition bucket_ok :: "nat \<Rightarrow> object_t avltree \<Rightarrow> bool" where
  "bucket_ok i t \<longleftrightarrow> avl t \<and> avl_ordered avl_compare_routine t \<and>
     (\<forall>k x. bucket_lookup t k = Some x \<longrightarrow> hld2root k = Some i)"

lemma bucket_okD: "bucket_ok i t \<Longrightarrow> avl t \<and> avl_ordered avl_compare_routine t"
  by (simp add: bucket_ok_def)

definition table_ok :: "object_manager \<Rightarrow> bool" where
  "table_ok m \<longleftrightarrow> length (roottab m) = OBJ_HASHTABLE_SIZE \<and>
     (\<forall>i < OBJ_HASHTABLE_SIZE. bucket_ok i (roottab m ! i))"

lemma hld2root_bound: "hld2root h = Some i \<Longrightarrow> i < OBJ_HASHTABLE_SIZE"
proof -
  have "h AND 255 = h mod 256" using take_bit_eq_mask [of 8 h] by (simp add: take_bit_eq_mod mask_eq_exp_minus_1)
  then show "hld2root h = Some i \<Longrightarrow> i < OBJ_HASHTABLE_SIZE"
    by (auto simp: hld2root_def obj_consts split: if_splits)
qed

lemma table_bucket: "table_ok m \<Longrightarrow> hld2root h = Some i \<Longrightarrow> bucket_ok i (roottab m ! i)"
  by (auto simp: table_ok_def dest: hld2root_bound)

lemma table_update:
  "table_ok m \<Longrightarrow> hld2root h = Some i \<Longrightarrow> bucket_ok i t \<Longrightarrow> table_ok (m\<lparr>roottab := (roottab m)[i := t]\<rparr>)"
  using hld2root_bound [of h i] by (auto simp: table_ok_def nth_list_update)

lemma srch_update:
  assumes "table_ok m" "hld2root h = Some i" "bucket_ok i t"
    and "bucket_lookup t = (bucket_lookup (roottab m ! i))(h := v)"
  shows "objtabsrch (m\<lparr>roottab := (roottab m)[i := t]\<rparr>) = (objtabsrch m)(h := v)"
proof
  fix k
  have "i < length (roottab m)" using assms(1,2) hld2root_bound by (auto simp: table_ok_def)
  then show "objtabsrch (m\<lparr>roottab := (roottab m)[i := t]\<rparr>) k = ((objtabsrch m)(h := v)) k"
    using assms(2,4) by (auto simp: objtabsrch_bucket nth_list_update fun_eq_iff split: option.splits)
qed

lemma srch_hld:
  assumes "table_ok m" "objtabsrch m h = Some x"
  shows "hld x = h"
proof -
  obtain i where r: "hld2root h = Some i" and l: "bucket_lookup (roottab m ! i) h = Some x"
    using assms(2) by (auto simp: objtabsrch_bucket split: option.splits)
  show ?thesis by (rule objix.lookup_key [OF bucket_okD [OF table_bucket [OF assms(1) r]] l])
qed

lemma srch_Some_root: "objtabsrch m h = Some x \<Longrightarrow> \<exists>i. hld2root h = Some i"
  by (auto simp: objtabsrch_bucket split: option.splits)

lemma tab_insert_new:
  assumes ok: "table_ok m" and r: "hld2root (hld x) = Some i" and new: "objtabsrch m (hld x) = None"
  shows "\<exists>t. objtab_insert m i x = Some (m\<lparr>roottab := (roottab m)[i := t]\<rparr>) \<and>
     table_ok (m\<lparr>roottab := (roottab m)[i := t]\<rparr>) \<and>
     objtabsrch (m\<lparr>roottab := (roottab m)[i := t]\<rparr>) = (objtabsrch m)(hld x \<mapsto> x)"
proof -
  have b: "bucket_ok i (roottab m ! i)" by (rule table_bucket [OF ok r])
  have "bucket_lookup (roottab m ! i) (hld x) = None" using new r by (simp add: objtabsrch_bucket)
  then obtain t where t: "avlinsert (roottab m ! i) (Some x) (Some avl_compare_routine) = Some t"
    "avl t" "avl_ordered avl_compare_routine t"
    "bucket_lookup t = (bucket_lookup (roottab m ! i))(hld x \<mapsto> x)"
    using objix.insert_new [of "roottab m ! i" x] b by (auto simp: bucket_ok_def)
  have "bucket_ok i t" using b t r by (auto simp: bucket_ok_def split: if_splits)
  then show ?thesis using t table_update [OF ok r] srch_update [OF ok r]
    by (auto simp: objtab_insert_def)
qed

lemma tab_insert_old:
  assumes ok: "table_ok m" and r: "hld2root (hld x) = Some i" and old: "objtabsrch m (hld x) = Some y"
  shows "\<exists>t. objtab_insert m i x = Some (m\<lparr>roottab := (roottab m)[i := t]\<rparr>) \<and>
     table_ok (m\<lparr>roottab := (roottab m)[i := t]\<rparr>) \<and>
     objtabsrch (m\<lparr>roottab := (roottab m)[i := t]\<rparr>) = objtabsrch m"
proof -
  have b: "bucket_ok i (roottab m ! i)" by (rule table_bucket [OF ok r])
  have l: "bucket_lookup (roottab m ! i) (hld x) = Some y" using old r by (simp add: objtabsrch_bucket)
  then obtain t where t: "avlinsert (roottab m ! i) (Some x) (Some avl_compare_routine) = Some t"
    "avl t" "avl_ordered avl_compare_routine t" "bucket_lookup t = bucket_lookup (roottab m ! i)"
    using objix.insert_old [of "roottab m ! i" x] b by (auto simp: bucket_ok_def)
  have "bucket_ok i t" using b t r by (auto simp: bucket_ok_def split: if_splits)
  moreover have "bucket_lookup t = (bucket_lookup (roottab m ! i))(hld x := Some y)" using t l by auto
  ultimately show ?thesis
    using t table_update [OF ok r] srch_update [OF ok r, of t "Some y"] old
    by (auto simp: objtab_insert_def fun_upd_idem)
qed

lemma avlremove_rec_cell:
  "avlremove_rec c t n = Some (t', rm) \<Longrightarrow> avlremove t (Some n) (Some cell) (Some c) =
     (if t = AvlNull then Some (AvlNull, Some cell) else Some (t', Some rm))"
  by (cases t) (auto simp: avlremove_def)

lemma tab_remove:
  assumes ok: "table_ok m"
  shows "\<exists>m' st. objtabrmve m h = Some (m', st, objtabsrch m h) \<and> table_ok m' \<and>
     objtabsrch m' = (objtabsrch m)(h := None) \<and> atoid m' = atoid m \<and> unload_log m' = unload_log m"
proof (cases "hld2root h")
  case None
  then have "objtabsrch m h = None" by (simp add: objtabsrch_bucket)
  then show ?thesis using None ok by (simp add: objtabrmve_def fun_upd_idem)
next
  case (Some i)
  have b: "bucket_ok i (roottab m ! i)" by (rule table_bucket [OF ok Some])
  then obtain t where t: "avlremove_rec avl_compare_routine (roottab m ! i) (find_node h) =
      Some (t, bucket_lookup (roottab m ! i) h)" "avl t" "avl_ordered avl_compare_routine t"
    "bucket_lookup t = (bucket_lookup (roottab m ! i))(h := None)"
    using objix.delete_ok [of "roottab m ! i" h] by (auto simp: bucket_ok_def)
  have bt: "bucket_ok i t" using b t by (auto simp: bucket_ok_def split: if_splits)
  have "avlremove (roottab m ! i) (Some (find_node h)) (Some None) (Some avl_compare_routine) =
      Some (t, Some (objtabsrch m h))"
    using avlremove_rec_cell [OF t(1), of None] t(1) Some
    by (auto simp: objtabsrch_bucket bucket_lookup_def avlsearch_def)
  then show ?thesis
    using Some table_update [OF ok Some bt] srch_update [OF ok Some bt t(4)]
    by (auto simp: objtabrmve_def)
qed

lemma tab_modify:
  assumes ok: "table_ok m" and f: "\<And>x. hld (f x) = hld x"
  shows "table_ok (objtab_modify m h f) \<and>
     objtabsrch (objtab_modify m h f) = (objtabsrch m)(h := map_option f (objtabsrch m h)) \<and>
     atoid (objtab_modify m h f) = atoid m \<and> unload_log (objtab_modify m h f) = unload_log m"
proof (cases "hld2root h")
  case None
  then show ?thesis using ok by (auto simp: objtab_modify_def objtabsrch_bucket fun_eq_iff)
next
  case (Some i)
  have b: "bucket_ok i (roottab m ! i)" by (rule table_bucket [OF ok Some])
  then have t: "avl (avl_modify hld (roottab m ! i) h f)"
    "avl_ordered avl_compare_routine (avl_modify hld (roottab m ! i) h f)"
    "bucket_lookup (avl_modify hld (roottab m ! i) h f) =
      (bucket_lookup (roottab m ! i))(h := map_option f (bucket_lookup (roottab m ! i) h))"
    using objix.modify_ok [of "roottab m ! i" f h] f by (auto simp: bucket_ok_def)
  have bt: "bucket_ok i (avl_modify hld (roottab m ! i) h f)"
    using b t Some by (auto simp: bucket_ok_def split: if_splits)
  then show ?thesis
    using Some table_update [OF ok Some bt] srch_update [OF ok Some bt t(3)]
    by (auto simp: objtab_modify_def objtabsrch_bucket)
qed

section \<open>Operations as a machine, and its specification\<close>

datatype objop =
    OpAllo3 bool "objcreator option"
  | OpAllo4 bool "objcreator option" bool
  | OpRefr objhld
  | OpRefr2 objhld bool
  | OpReff objhld
  | OpDefr objhld
  | OpClos objhld

datatype objresult =
    RHandle objhld
  | RStatus nsp_status "objhld option"
  | RPtr "objhld option"
  | RSize u32 "objhld option"
  | RVoid

fun objexec :: "objop \<Rightarrow> object_manager \<Rightarrow> (object_manager \<times> objresult) option" where
  "objexec (OpAllo3 mem c) m = map_option (\<lambda>(m', h). (m', RHandle h)) (objallo3 mem m c)"
| "objexec (OpAllo4 mem c out) m = map_option (\<lambda>(m', st, h). (m', RStatus st h)) (objallo4 mem m c out)"
| "objexec (OpRefr h) m = (case objrefr m h of (m', p) \<Rightarrow> Some (m', RPtr p))"
| "objexec (OpRefr2 h out) m = (case objrefr2 m h out of (m', n, p) \<Rightarrow> Some (m', RSize n p))"
| "objexec (OpReff h) m = (case objreff m h of (m', p) \<Rightarrow> Some (m', RPtr p))"
| "objexec (OpDefr h) m = map_option (\<lambda>m'. (m', RVoid)) (objdefr m h)"
| "objexec (OpClos h) m = map_option (\<lambda>m'. (m', RVoid)) (objclos m h)"

text \<open>
  The specification state: a partial map from handles to objects, the last automatic handle and
  the unloader calls made. An object leaves the map, and its unloader runs, when it is closed and
  its reference count is zero.
\<close>

record obj_spec =
  objs :: "objhld \<rightharpoonup> object_t"
  last_auto :: objhld
  unloads :: "(objuninit_fp \<times> objhld \<times> bytes) list"

definition obj_abs :: "object_manager \<Rightarrow> obj_spec" where
  "obj_abs m = \<lparr>objs = objtabsrch m, last_auto = atoid m, unloads = unload_log m\<rparr>"

definition spec_register :: "obj_spec \<Rightarrow> object_t \<Rightarrow> obj_spec \<times> objhld \<times> nsp_status" where
  "spec_register s x =
     (if hld x \<noteq> -1 then
        (if hld x \<le> 0 then (s, hld x, - ENODEV)
         else if objs s (hld x) \<noteq> None then (s, hld x, - EEXIST)
         else (s\<lparr>objs := (objs s)(hld x \<mapsto> x)\<rparr>, hld x, 0))
      else
        (let n = wrap_long (last_auto s + 1) in
         if n \<le> 0 then (s\<lparr>last_auto := n\<rparr>, n, - ENODEV)
         else (s\<lparr>last_auto := n,
                 objs := (if objs s n = None then (objs s)(n \<mapsto> x\<lparr>hld := n\<rparr>) else objs s)\<rparr>, n, 0)))"

definition spec_alloc ::
  "bool \<Rightarrow> objcreator option \<Rightarrow> obj_spec \<Rightarrow> (obj_spec \<times> objhld \<times> nsp_status) option" where
  "spec_alloc mem creator s =
     (case creator of
        None \<Rightarrow> Some (s, -1, - EINVAL)
      | Some c \<Rightarrow>
          if creator_illegal c then Some (s, -1, - EINVAL)
          else if \<not> mem then Some (s, -1, - ENOMEM)
          else
            (case run_initializer c (creator_object c) of
               None \<Rightarrow> None
             | Some (Inl call) \<Rightarrow> Some (s\<lparr>unloads := unloads s @ [call]\<rparr>, -1, -1)
             | Some (Inr x) \<Rightarrow> Some (spec_register s x)))"

definition spec_acquire :: "int \<Rightarrow> objhld \<Rightarrow> obj_spec \<Rightarrow> obj_spec \<times> object_t option" where
  "spec_acquire st h s =
     (case objs s h of
        None \<Rightarrow> (s, None)
      | Some x \<Rightarrow>
          if status x = OBJSTAT_NORMAL
          then (s\<lparr>objs := (objs s)(h \<mapsto> x\<lparr>refcnt := refcnt x + 1, status := st\<rparr>)\<rparr>, Some x)
          else (s, None))"

definition spec_discard :: "object_t \<Rightarrow> obj_spec \<Rightarrow> obj_spec" where
  "spec_discard x s = s\<lparr>objs := (objs s)(hld x := None),
     unloads := unloads s @ (case unloader x of None \<Rightarrow> [] | Some u \<Rightarrow> [(u, hld x, body x)])\<rparr>"

fun spec_exec :: "objop \<Rightarrow> obj_spec \<Rightarrow> (obj_spec \<times> objresult) option" where
  "spec_exec (OpAllo3 mem c) s =
     map_option (\<lambda>(s', h, st). (s', RHandle (if st < 0 then -1 else h))) (spec_alloc mem c s)"
| "spec_exec (OpAllo4 mem c out) s =
     (if \<not> out then Some (s, RStatus (- EINVAL) None)
      else map_option (\<lambda>(s', h, st). (s', if st < 0 then RStatus st None else RStatus 0 (Some h)))
             (spec_alloc mem c s))"
| "spec_exec (OpRefr h) s =
     (case spec_acquire OBJSTAT_NORMAL h s of (s', x) \<Rightarrow> Some (s', RPtr (map_option hld x)))"
| "spec_exec (OpRefr2 h out) s =
     (if \<not> out then Some (s, RSize (-1) None)
      else case spec_acquire OBJSTAT_NORMAL h s of
             (s', x) \<Rightarrow> Some (s', RSize (case x of None \<Rightarrow> -1 | Some x' \<Rightarrow> size x') (map_option hld x)))"
| "spec_exec (OpReff h) s =
     (case spec_acquire OBJSTAT_CLOSEWAIT h s of (s', x) \<Rightarrow> Some (s', RPtr (map_option hld x)))"
| "spec_exec (OpDefr h) s =
     (case objs s h of
        None \<Rightarrow> Some (s, RVoid)
      | Some x \<Rightarrow>
          if refcnt x \<le> 0 then None
          else if refcnt x = 1 \<and> status x = OBJSTAT_CLOSEWAIT then Some (spec_discard x s, RVoid)
          else Some (s\<lparr>objs := (objs s)(h \<mapsto> x\<lparr>refcnt := refcnt x - 1\<rparr>)\<rparr>, RVoid))"
| "spec_exec (OpClos h) s =
     (case objs s h of
        None \<Rightarrow> Some (s, RVoid)
      | Some x \<Rightarrow>
          if refcnt x = 0 \<and> status x = OBJSTAT_NORMAL then Some (spec_discard x s, RVoid)
          else Some (s\<lparr>objs := (objs s)(h \<mapsto> x\<lparr>status := OBJSTAT_CLOSEWAIT\<rparr>)\<rparr>, RVoid))"

subsection \<open>The table implements the specification\<close>

text \<open>\<open>table_result\<close>: both sides fail together, or the results agree and the table is well formed.\<close>

definition refines :: "(object_manager \<times> 'r) option \<Rightarrow> (obj_spec \<times> 'r) option \<Rightarrow> bool" where
  "refines conc spec \<longleftrightarrow>
     map_option (\<lambda>(m, r). (obj_abs m, r)) conc = spec \<and> (\<forall>m r. conc = Some (m, r) \<longrightarrow> table_ok m)"

lemma refinesI: "table_ok m \<Longrightarrow> obj_abs m = s \<Longrightarrow> refines (Some (m, r)) (Some (s, r))"
  by (simp add: refines_def)

lemma refines_map:
  "refines c s \<Longrightarrow> refines (map_option (\<lambda>(m, r). (m, f r)) c) (map_option (\<lambda>(m, r). (m, f r)) s)"
  by (cases c) (auto simp: refines_def)

lemma abs_modify:
  assumes "table_ok m" "\<And>x. hld (f x) = hld x" "objtabsrch m h = Some x"
  shows "table_ok (objtab_modify m h f) \<and> obj_abs (objtab_modify m h f) = (obj_abs m)\<lparr>objs := (objs (obj_abs m))(h \<mapsto> f x)\<rparr>"
  using tab_modify [of m f h] assms by (simp add: obj_abs_def)

lemma table_ok_frame: "table_ok (m\<lparr>unload_log := l\<rparr>) = table_ok m" "table_ok (m\<lparr>atoid := a\<rparr>) = table_ok m"
  by (simp_all add: table_ok_def)

lemma srch_frame: "objtabsrch (m\<lparr>unload_log := l\<rparr>) = objtabsrch m" "objtabsrch (m\<lparr>atoid := a\<rparr>) = objtabsrch m"
  by (simp_all add: objtabsrch_def fun_eq_iff split: option.split)

lemma abs_discard:
  assumes ok: "table_ok m" and x: "objtabsrch m h = Some x"
  shows "\<exists>m'. map_option free_removed (objtabrmve m h) = Some m' \<and> table_ok m' \<and>
           obj_abs m' = spec_discard x (obj_abs m)"
proof -
  obtain m' st where m': "objtabrmve m h = Some (m', st, Some x)" "table_ok m'"
    "objtabsrch m' = (objtabsrch m)(h := None)" "atoid m' = atoid m" "unload_log m' = unload_log m"
    using tab_remove [OF ok, of h] x by auto
  then show ?thesis using srch_hld [OF ok x]
    by (auto simp: free_removed_def objtagfree_def spec_discard_def obj_abs_def table_ok_frame srch_frame
             split: option.splits)
qed

lemma hld2root_iff: "hld2root h = None \<longleftrightarrow> h \<le> 0"
  by (auto simp: hld2root_def)

lemma refines_register:
  assumes ok: "table_ok m"
  shows "refines (map_option (\<lambda>(m', x', st). (m', hld x', st)) (objtabinst m x)) (Some (spec_register (obj_abs m) x))"
proof (cases "hld x = -1")
  case False
  show ?thesis
  proof (cases "hld2root (hld x)")
    case None
    then show ?thesis using False ok hld2root_iff [of "hld x"]
      by (simp add: objtabinst_def spec_register_def refines_def INVALID_OBJHLD_def posix__makeerror_def ENODEV_def)
  next
    case (Some i)
    have pos: "hld x > 0" using Some by (simp add: hld2root_def split: if_splits)
    show ?thesis
    proof (cases "objtabsrch m (hld x)")
      case None
      then show ?thesis using False Some pos tab_insert_new [OF ok Some None]
        by (auto simp: objtabinst_def spec_register_def refines_def status_defs INVALID_OBJHLD_def objtabsrch_def obj_abs_def)
    next
      case (Some y)
      then show ?thesis using False \<open>hld2root (hld x) = Some i\<close> pos ok
        by (simp add: objtabinst_def spec_register_def refines_def posix__makeerror_def EEXIST_def
              INVALID_OBJHLD_def objtabsrch_def obj_abs_def)
    qed
  qed
next
  case True
  define n where "n = wrap_long (atoid m + 1)"
  let ?m1 = "m\<lparr>atoid := n\<rparr>" and ?x1 = "x\<lparr>hld := n\<rparr>"
  have ok1: "table_ok ?m1" using ok by (simp add: table_ok_frame)
  have srch1: "objtabsrch ?m1 = objtabsrch m" by (simp add: srch_frame)
  show ?thesis
  proof (cases "hld2root n")
    case None
    then show ?thesis using True ok1 hld2root_iff [of n] srch1
      by (simp add: objtabinst_def spec_register_def refines_def INVALID_OBJHLD_def posix__makeerror_def ENODEV_def
            obj_abs_def Let_def flip: n_def)
  next
    case (Some i)
    have pos: "n > 0" using Some by (simp add: hld2root_def split: if_splits)
    have r: "hld2root (hld ?x1) = Some i" using Some by simp
    obtain t where "objtab_insert ?m1 i ?x1 = Some (?m1\<lparr>roottab := (roottab ?m1)[i := t]\<rparr>)"
      "table_ok (?m1\<lparr>roottab := (roottab ?m1)[i := t]\<rparr>)"
      "objtabsrch (?m1\<lparr>roottab := (roottab ?m1)[i := t]\<rparr>) =
         (if objtabsrch m n = None then (objtabsrch m)(n \<mapsto> ?x1) else objtabsrch m)"
      using tab_insert_new [OF ok1 r] tab_insert_old [OF ok1 r] srch1
      by (cases "objtabsrch m n") auto
    then show ?thesis using True Some pos
      by (auto simp: objtabinst_def spec_register_def refines_def INVALID_OBJHLD_def status_defs
            obj_abs_def Let_def simp flip: n_def)
  qed
qed

lemma register_result:
  assumes "table_ok m"
  obtains m' x' st where "objtabinst m x = Some (m', x', st)" "table_ok m'"
    "spec_register (obj_abs m) x = (obj_abs m', hld x', st)"
  using refines_register [OF assms, of x] by (cases "objtabinst m x") (auto simp: refines_def)

lemma refines_allo3: "table_ok m \<Longrightarrow> refines (objexec (OpAllo3 mem c) m) (spec_exec (OpAllo3 mem c) (obj_abs m))"
proof (cases c)
  case (Some cr)
  assume ok: "table_ok m"
  show ?thesis
  proof (cases "run_initializer cr (creator_object cr)")
    case None
    then show ?thesis using Some ok by (auto simp: objallo3_def spec_alloc_def refines_def INVALID_OBJHLD_def errno_defs)
  next
    case (Some r)
    note init = this
    show ?thesis
    proof (cases r)
      case (Inl call)
      then show ?thesis using \<open>c = Some cr\<close> init ok
        by (auto simp: objallo3_def spec_alloc_def refines_def INVALID_OBJHLD_def errno_defs log_unload_def
              table_ok_frame srch_frame obj_abs_def)
    next
      case (Inr x)
      obtain m' x' st where "objtabinst m x = Some (m', x', st)" "table_ok m'"
        "spec_register (obj_abs m) x = (obj_abs m', hld x', st)" using register_result [OF ok] .
      then show ?thesis using \<open>c = Some cr\<close> init Inr ok
        by (auto simp: objallo3_def spec_alloc_def refines_def INVALID_OBJHLD_def errno_defs NSP_SUCCESS_def)
    qed
  qed
qed (simp add: objallo3_def spec_alloc_def refines_def INVALID_OBJHLD_def EINVAL_def)

lemma refines_allo4: "table_ok m \<Longrightarrow> refines (objexec (OpAllo4 mem c out) m) (spec_exec (OpAllo4 mem c out) (obj_abs m))"
proof (cases c)
  case (Some cr)
  assume ok: "table_ok m"
  show ?thesis
  proof (cases "run_initializer cr (creator_object cr)")
    case None
    then show ?thesis using Some ok by (auto simp: objallo4_def spec_alloc_def refines_def posix__makeerror_def errno_defs)
  next
    case (Some r)
    note init = this
    show ?thesis
    proof (cases r)
      case (Inl call)
      then show ?thesis using \<open>c = Some cr\<close> init ok
        by (auto simp: objallo4_def spec_alloc_def refines_def status_defs errno_defs log_unload_def
              table_ok_frame srch_frame obj_abs_def)
    next
      case (Inr x)
      obtain m' x' st where "objtabinst m x = Some (m', x', st)" "table_ok m'"
        "spec_register (obj_abs m) x = (obj_abs m', hld x', st)" using register_result [OF ok] .
      then show ?thesis using \<open>c = Some cr\<close> init Inr ok
        by (auto simp: objallo4_def spec_alloc_def refines_def status_defs errno_defs)
    qed
  qed
qed (simp add: objallo4_def spec_alloc_def refines_def posix__makeerror_def EINVAL_def)

lemma objs_abs [simp]: "objs (obj_abs m) = objtabsrch m"
  by (simp add: obj_abs_def)

lemma refines_acquire:
  assumes ok: "table_ok m" and x: "objtabsrch m h = Some x"
  shows "table_ok (objtab_modify m h (\<lambda>o'. o'\<lparr>refcnt := refcnt o' + 1\<rparr>)) \<and>
      obj_abs (objtab_modify m h (\<lambda>o'. o'\<lparr>refcnt := refcnt o' + 1\<rparr>)) =
        (obj_abs m)\<lparr>objs := (objtabsrch m)(h \<mapsto> x\<lparr>refcnt := refcnt x + 1\<rparr>)\<rparr>"
    "table_ok (objtab_modify m h (\<lambda>o'. o'\<lparr>refcnt := refcnt o' + 1, status := st\<rparr>)) \<and>
      obj_abs (objtab_modify m h (\<lambda>o'. o'\<lparr>refcnt := refcnt o' + 1, status := st\<rparr>)) =
        (obj_abs m)\<lparr>objs := (objtabsrch m)(h \<mapsto> x\<lparr>refcnt := refcnt x + 1, status := st\<rparr>)\<rparr>"
  using abs_modify [OF ok _ x] by simp_all

lemma status_idem: "status x = s \<Longrightarrow> x\<lparr>refcnt := n, status := s\<rparr> = x\<lparr>refcnt := n\<rparr>"
  by (cases x) simp

lemma refines_ref_ops:
  assumes ok: "table_ok m"
  shows "refines (objexec (OpRefr h) m) (spec_exec (OpRefr h) (obj_abs m))"
    "refines (objexec (OpRefr2 h out) m) (spec_exec (OpRefr2 h out) (obj_abs m))"
    "refines (objexec (OpReff h) m) (spec_exec (OpReff h) (obj_abs m))"
  using ok refines_acquire [OF ok] by (auto simp: objrefr_def objrefr2_def objreff_def spec_acquire_def refines_def
      status_idem split: option.splits)

lemma refines_defr:
  assumes ok: "table_ok m"
  shows "refines (objexec (OpDefr h) m) (spec_exec (OpDefr h) (obj_abs m))"
proof (cases "objtabsrch m h")
  case None
  then show ?thesis using ok by (simp add: objdefr_def refines_def)
next
  case (Some x)
  let ?m1 = "objtab_modify m h (\<lambda>o'. o'\<lparr>refcnt := refcnt o' - 1\<rparr>)"
  have m1: "table_ok ?m1" "obj_abs ?m1 = (obj_abs m)\<lparr>objs := (objtabsrch m)(h \<mapsto> x\<lparr>refcnt := refcnt x - 1\<rparr>)\<rparr>"
    using abs_modify [OF ok _ Some, of "\<lambda>o'. o'\<lparr>refcnt := refcnt o' - 1\<rparr>"] by simp_all
  have "objtabsrch ?m1 h = Some (x\<lparr>refcnt := refcnt x - 1\<rparr>)"
    using tab_modify [OF ok, of "\<lambda>o'. o'\<lparr>refcnt := refcnt o' - 1\<rparr>" h] Some by simp
  from abs_discard [OF m1(1) this] obtain m' where m': "map_option free_removed (objtabrmve ?m1 h) = Some m'"
    "table_ok m'" "obj_abs m' = spec_discard (x\<lparr>refcnt := refcnt x - 1\<rparr>) (obj_abs ?m1)" by blast
  have "obj_abs m' = spec_discard x (obj_abs m)" using m'(3) m1(2) srch_hld [OF ok Some]
    by (simp add: spec_discard_def split: option.split)
  then show ?thesis using Some m1 m' srch_hld [OF ok Some] by (auto simp: objdefr_def refines_def Let_def)
qed

lemma refines_clos:
  assumes ok: "table_ok m"
  shows "refines (objexec (OpClos h) m) (spec_exec (OpClos h) (obj_abs m))"
proof (cases "objtabsrch m h")
  case None
  then show ?thesis using ok by (simp add: objclos_def refines_def)
next
  case (Some x)
  obtain m' where "map_option free_removed (objtabrmve m h) = Some m'"
    "table_ok m'" "obj_abs m' = spec_discard x (obj_abs m)" using abs_discard [OF ok Some] by blast
  then show ?thesis using Some srch_hld [OF ok Some] abs_modify [OF ok _ Some, of "\<lambda>o'. o'\<lparr>status := OBJSTAT_CLOSEWAIT\<rparr>"]
    by (auto simp: objclos_def refines_def)
qed

lemma objexec_refines: "table_ok m \<Longrightarrow> refines (objexec op m) (spec_exec op (obj_abs m))"
  by (cases op) (simp_all only: refines_allo3 refines_allo4 refines_ref_ops refines_defr refines_clos)

section \<open>Runs: references held by the callers\<close>

text \<open>
  A run is a sequence of operations from the initial manager, with their results. The number of
  references to \<open>h\<close> the callers hold is the number of successful reference operations on \<open>h\<close> minus
  the number of \<^verbatim>\<open>objdefr\<close> calls on it. Callers are disciplined: they release only what they hold.
\<close>

fun held_delta :: "objhld \<Rightarrow> objop \<times> objresult \<Rightarrow> int" where
  "held_delta h (OpRefr k, RPtr (Some p)) = (if k = h then 1 else 0)"
| "held_delta h (OpReff k, RPtr (Some p)) = (if k = h then 1 else 0)"
| "held_delta h (OpRefr2 k out, RSize n (Some p)) = (if k = h then 1 else 0)"
| "held_delta h (OpDefr k, r) = (if k = h then -1 else 0)"
| "held_delta h _ = 0"

definition held :: "objhld \<Rightarrow> (objop \<times> objresult) list \<Rightarrow> int" where
  "held h tr = sum_list (map (held_delta h) tr)"

definition disciplined :: "(objop \<times> objresult) list \<Rightarrow> objop \<Rightarrow> bool" where
  "disciplined tr op = (case op of OpDefr h \<Rightarrow> held h tr > 0 | _ \<Rightarrow> True)"

inductive obj_run :: "(objop \<times> objresult) list \<Rightarrow> object_manager \<Rightarrow> bool" where
  start: "obj_run [] g_objmgr"
| step: "obj_run tr m \<Longrightarrow> disciplined tr op \<Longrightarrow> objexec op m = Some (m', r) \<Longrightarrow> obj_run (tr @ [(op, r)]) m'"

lemma held_snoc [simp]: "held h (tr @ [e]) = held h tr + held_delta h e"
  by (simp add: held_def)

definition ref_ok :: "int \<Rightarrow> objhld \<Rightarrow> object_t option \<Rightarrow> bool" where
  "ref_ok n h ox = (case ox of None \<Rightarrow> n = 0
     | Some x \<Rightarrow> hld x = h \<and> refcnt x = n \<and> n \<ge> 0 \<and>
         (status x = OBJSTAT_NORMAL \<or> status x = OBJSTAT_CLOSEWAIT \<and> n > 0))"

definition refs_ok :: "(objop \<times> objresult) list \<Rightarrow> obj_spec \<Rightarrow> bool" where
  "refs_ok tr s \<longleftrightarrow> (\<forall>h. ref_ok (held h tr) h (objs s h))"

lemma initializer_keeps:
  "run_initializer c x = Some (Inr x') \<Longrightarrow> hld x' = hld x \<and> refcnt x' = refcnt x \<and> status x' = status x"
  by (auto simp: run_initializer_def split: option.splits prod.splits if_splits)

lemma register_objs:
  assumes "spec_register s x = (s', h, st)"
  shows "objs s' = objs s \<or> (\<exists>y. objs s (hld y) = None \<and> objs s' = (objs s)(hld y \<mapsto> y) \<and>
     refcnt y = refcnt x \<and> status y = status x)"
proof (cases "hld x = -1")
  case False
  then show ?thesis using assms by (auto simp: spec_register_def split: if_splits)
next
  case True
  define n where "n = wrap_long (last_auto s + 1)"
  have "objs s' = objs s \<or> objs s n = None \<and> objs s' = (objs s)(n \<mapsto> x\<lparr>hld := n\<rparr>)"
    using assms True by (auto simp: spec_register_def Let_def simp flip: n_def split: if_splits)
  then show ?thesis by (auto intro!: exI [of _ "x\<lparr>hld := n\<rparr>"])
qed

lemma refs_ok_register:
  assumes "refs_ok tr s" "refcnt x = 0" "status x = OBJSTAT_NORMAL" "spec_register s x = (s', h, st)"
  shows "refs_ok tr s'"
  unfolding refs_ok_def
proof
  fix k
  have prev: "ref_ok (held k tr) k (objs s k)" using assms(1) by (simp add: refs_ok_def)
  from register_objs [OF assms(4)] show "ref_ok (held k tr) k (objs s' k)"
  proof
    assume "\<exists>y. objs s (hld y) = None \<and> objs s' = (objs s)(hld y \<mapsto> y) \<and> refcnt y = refcnt x \<and> status y = status x"
    then show ?thesis using prev assms(2,3) by (auto simp: ref_ok_def)
  qed (simp add: prev)
qed

lemma refs_ok_alloc:
  assumes "refs_ok tr s" "spec_alloc mem c s = Some (s', h, st)"
  shows "refs_ok tr s'"
proof (cases c)
  case None
  then show ?thesis using assms by (auto simp: spec_alloc_def)
next
  case (Some cr)
  have "refcnt (creator_object cr) = 0" "status (creator_object cr) = OBJSTAT_NORMAL"
    by (simp_all add: creator_object_def)
  then show ?thesis using assms Some initializer_keeps [of cr "creator_object cr"] refs_ok_register [of tr s]
    by (auto simp: spec_alloc_def refs_ok_def split: if_splits option.splits sum.splits)
qed

lemma refs_ok_frame:
  assumes "refs_ok tr s" "\<And>k. k \<noteq> h \<Longrightarrow> objs s' k = objs s k \<and> held_delta k e = 0"
    and "ref_ok (held h tr + held_delta h e) h (objs s' h)"
  shows "refs_ok (tr @ [e]) s'"
  unfolding refs_ok_def
proof
  fix k
  show "ref_ok (held k (tr @ [e])) k (objs s' k)"
    using assms by (cases "k = h") (auto simp: refs_ok_def)
qed

lemma spec_acquire_refs:
  assumes "refs_ok tr s" "spec_acquire st h s = (s', x)" "st = OBJSTAT_NORMAL \<or> st = OBJSTAT_CLOSEWAIT"
    and "\<And>k. held_delta k e = (if x \<noteq> None \<and> k = h then 1 else 0)"
  shows "refs_ok (tr @ [e]) s'"
proof (rule refs_ok_frame [OF assms(1), where h = h])
  show "\<And>k. k \<noteq> h \<Longrightarrow> objs s' k = objs s k \<and> held_delta k e = 0"
    using assms(2,4) by (auto simp: spec_acquire_def split: option.splits if_splits)
  have "ref_ok (held h tr) h (objs s h)" using assms(1) by (simp add: refs_ok_def)
  then show "ref_ok (held h tr + held_delta h e) h (objs s' h)"
    using assms(2,3,4) by (auto simp: spec_acquire_def ref_ok_def split: option.splits if_splits)
qed

lemma held_delta_ptr:
  "held_delta k (OpRefr h, RPtr (map_option hld x)) = (if x \<noteq> None \<and> k = h then 1 else 0)"
  "held_delta k (OpReff h, RPtr (map_option hld x)) = (if x \<noteq> None \<and> k = h then 1 else 0)"
  "held_delta k (OpRefr2 h out, RSize n (map_option hld x)) = (if x \<noteq> None \<and> k = h then 1 else 0)"
  by (cases x; simp)+

lemma spec_defr_refs:
  assumes "refs_ok tr s" "held h tr > 0" "spec_exec (OpDefr h) s = Some (s', r)"
  shows "refs_ok (tr @ [(OpDefr h, r)]) s'"
proof (rule refs_ok_frame [OF assms(1), where h = h])
  have ok: "ref_ok (held h tr) h (objs s h)" using assms(1) by (simp add: refs_ok_def)
  then obtain x where x: "objs s h = Some x" "hld x = h" "refcnt x = held h tr"
    using assms(2) by (auto simp: ref_ok_def split: option.splits)
  show "\<And>k. k \<noteq> h \<Longrightarrow> objs s' k = objs s k \<and> held_delta k (OpDefr h, r) = 0"
    using assms(3) x by (auto simp: spec_discard_def split: if_splits)
  show "ref_ok (held h tr + held_delta h (OpDefr h, r)) h (objs s' h)"
    using assms(2,3) x ok by (auto simp: spec_discard_def ref_ok_def split: if_splits)
qed

lemma spec_clos_refs:
  assumes "refs_ok tr s" "spec_exec (OpClos h) s = Some (s', r)"
  shows "refs_ok (tr @ [(OpClos h, r)]) s'"
proof (rule refs_ok_frame [OF assms(1), where h = h])
  have ok: "ref_ok (held h tr) h (objs s h)" using assms(1) by (simp add: refs_ok_def)
  then show "\<And>k. k \<noteq> h \<Longrightarrow> objs s' k = objs s k \<and> held_delta k (OpClos h, r) = 0"
    using assms(2) by (auto simp: spec_discard_def ref_ok_def split: if_splits option.splits)
  show "ref_ok (held h tr + held_delta h (OpClos h, r)) h (objs s' h)"
    using assms(2) ok by (auto simp: spec_discard_def ref_ok_def split: if_splits option.splits)
qed

lemma refs_ok_allo_event:
  "refs_ok tr s \<Longrightarrow> refs_ok (tr @ [(OpAllo3 mem c, r)]) s" "refs_ok tr s \<Longrightarrow> refs_ok (tr @ [(OpAllo4 mem c out, r)]) s"
  by (simp_all add: refs_ok_def)

lemma spec_exec_refs:
  assumes "refs_ok tr s" "disciplined tr op" "spec_exec op s = Some (s', r)"
  shows "refs_ok (tr @ [(op, r)]) s'"
proof (cases op)
  case (OpRefr h)
  then show ?thesis using assms spec_acquire_refs [OF assms(1) _ _ held_delta_ptr(1)] by (auto split: prod.splits)
next
  case (OpReff h)
  then show ?thesis using assms spec_acquire_refs [OF assms(1) _ _ held_delta_ptr(2)] by (auto split: prod.splits)
next
  case (OpRefr2 h out)
  show ?thesis
  proof (cases out)
    case True
    then show ?thesis using OpRefr2 assms spec_acquire_refs [OF assms(1) _ _ held_delta_ptr(3)] by (auto split: prod.splits)
  next
    case False
    then show ?thesis using OpRefr2 assms by (auto simp: refs_ok_def)
  qed
next
  case (OpDefr h)
  then show ?thesis using spec_defr_refs [OF assms(1)] assms by (simp add: disciplined_def)
next
  case (OpClos h)
  then show ?thesis using spec_clos_refs [OF assms(1)] assms by simp
next
  case (OpAllo3 mem c)
  then show ?thesis using assms refs_ok_alloc [OF assms(1)] refs_ok_allo_event by auto
next
  case (OpAllo4 mem c out)
  then show ?thesis using assms refs_ok_alloc [OF assms(1)] refs_ok_allo_event by (auto split: if_splits)
qed

lemma table_ok_init: "table_ok g_objmgr"
  using objix.invar_empty objix.lookup_empty by (simp add: table_ok_def g_objmgr_def bucket_ok_def)

lemma objtabsrch_init: "objtabsrch g_objmgr h = None"
  using hld2root_bound [of h] objix.lookup_empty by (auto simp: objtabsrch_bucket g_objmgr_def split: option.splits)

lemma run_inv: "obj_run tr m \<Longrightarrow> table_ok m \<and> refs_ok tr (obj_abs m)"
proof (induction rule: obj_run.induct)
  case start
  then show ?case using table_ok_init by (simp add: refs_ok_def ref_ok_def objtabsrch_init held_def)
next
  case (step tr m op m' r)
  then have "table_ok m'" "spec_exec op (obj_abs m) = Some (obj_abs m', r)"
    using objexec_refines [of m op] by (auto simp: refines_def)
  then show ?case using step spec_exec_refs by blast
qed

lemma run_step_spec:
  assumes "obj_run tr m" "obj_abs m = s" "disciplined tr op" "spec_exec op s = Some (s', r)"
  shows "\<exists>m'. obj_run (tr @ [(op, r)]) m' \<and> obj_abs m' = s'"
proof -
  have "refines (objexec op m) (spec_exec op (obj_abs m))"
    by (rule objexec_refines) (use run_inv [OF assms(1)] in simp)
  then obtain m' where "objexec op m = Some (m', r)" "obj_abs m' = s'"
    using assms(2,4) by (auto simp: refines_def)
  then show ?thesis using assms(1,3) by (blast intro: obj_run.step)
qed

lemma abs_init: "obj_abs g_objmgr = \<lparr>objs = Map.empty, last_auto = 0, unloads = []\<rparr>"
  by (simp add: obj_abs_def fun_eq_iff objtabsrch_init) (simp add: g_objmgr_def)

section \<open>Properties\<close>




definition demo_creator :: "objhld \<Rightarrow> u32 \<Rightarrow> objcreator" where
  "demo_creator k n = \<lparr>known = k, creator_size = n, creator_initializer = None, creator_unloader = Some 7,
     creator_context = None, ctxsize = 0\<rparr>"

lemma demo_alloc:
  assumes "n \<noteq> 0" "k = 0 \<or> k > 0"
  shows "spec_alloc True (Some (demo_creator k n)) s = Some (spec_register s (creator_object (demo_creator k n)))"
  using assms by (auto simp: spec_alloc_def demo_creator_def creator_illegal_def run_initializer_def creator_object_def)

lemma wrap_long_1 [simp]: "wrap_long 1 = 1"
  by (simp add: wrap_long_def)

lemma demo_run:
  "\<exists>m. obj_run [(OpAllo3 True (Some (demo_creator 0 8)), RHandle 1), (OpRefr 1, RPtr (Some 1)), (OpClos 1, RVoid)] m"
proof -
  let ?a = "OpAllo3 True (Some (demo_creator 0 8))"
  let ?x = "(creator_object (demo_creator 0 8))\<lparr>hld := 1\<rparr>"
  have x: "hld ?x = 1" "status ?x = OBJSTAT_NORMAL" "refcnt ?x = 0"
    by (simp_all add: creator_object_def)
  have "spec_exec ?a (obj_abs g_objmgr) = Some (\<lparr>objs = [1 \<mapsto> ?x], last_auto = 1, unloads = []\<rparr>, RHandle 1)"
    by (simp add: demo_alloc abs_init spec_register_def) (simp add: creator_object_def demo_creator_def INVALID_OBJHLD_def)
  from run_step_spec [OF obj_run.start refl _ this] obtain m1 where
    m1: "obj_run [(?a, RHandle 1)] m1" "obj_abs m1 = \<lparr>objs = [1 \<mapsto> ?x], last_auto = 1, unloads = []\<rparr>"
    by (auto simp: disciplined_def)
  have "spec_exec (OpRefr 1) \<lparr>objs = [1 \<mapsto> ?x], last_auto = 1, unloads = []\<rparr> =
      Some (\<lparr>objs = [1 \<mapsto> ?x\<lparr>refcnt := 1\<rparr>], last_auto = 1, unloads = []\<rparr>, RPtr (Some 1))"
    using x by (simp add: spec_acquire_def status_idem)
  from run_step_spec [OF m1 _ this] obtain m2 where
    m2: "obj_run [(?a, RHandle 1), (OpRefr 1, RPtr (Some 1))] m2"
    "obj_abs m2 = \<lparr>objs = [1 \<mapsto> ?x\<lparr>refcnt := 1\<rparr>], last_auto = 1, unloads = []\<rparr>"
    by (auto simp: disciplined_def)
  obtain s3 where "spec_exec (OpClos 1) (obj_abs m2) = Some (s3, RVoid)" using m2(2) by simp
  from run_step_spec [OF m2(1) refl _ this] show ?thesis by (auto simp: disciplined_def)
qed


definition init_safe :: "objop \<Rightarrow> bool" where
  "init_safe op = (case op of
      OpAllo3 _ (Some c) \<Rightarrow> creator_initializer c = None \<or> creator_unloader c \<noteq> None
    | OpAllo4 _ (Some c) _ \<Rightarrow> creator_initializer c = None \<or> creator_unloader c \<noteq> None
    | _ \<Rightarrow> True)"

lemma init_safe_run:
  "creator_initializer c = None \<or> creator_unloader c \<noteq> None \<Longrightarrow> run_initializer c (creator_object c) \<noteq> None"
  by (auto simp: run_initializer_def creator_object_def split: option.splits prod.splits)

lemma init_safe_alloc:
  "creator_initializer c = None \<or> creator_unloader c \<noteq> None \<Longrightarrow> spec_alloc mem (Some c) s \<noteq> None"
  using init_safe_run [of c] by (auto simp: spec_alloc_def simp del: not_None_eq split: option.splits sum.splits)



text \<open>C18. A handle chosen by the caller and an automatic one can coincide: after an allocation with
  known handle 1, the first automatic allocation also succeeds with handle 1, while the table keeps
  the first object. The second object is lost and its handle names another object.\<close>

theorem auto_handle_alias:
  "\<exists>m x. obj_run [(OpAllo3 True (Some (demo_creator 1 8)), RHandle 1),
                  (OpAllo3 True (Some (demo_creator 0 16)), RHandle 1)] m \<and>
     objtabsrch m 1 = Some x \<and> size x = 8"
proof -
  let ?x = "creator_object (demo_creator 1 8)"
  have x: "hld ?x = 1" "size ?x = 8" by (simp_all add: creator_object_def demo_creator_def)
  have "spec_exec (OpAllo3 True (Some (demo_creator 1 8))) (obj_abs g_objmgr) =
      Some (\<lparr>objs = [1 \<mapsto> ?x], last_auto = 0, unloads = []\<rparr>, RHandle 1)"
    using x by (simp add: demo_alloc abs_init spec_register_def)
  from run_step_spec [OF obj_run.start refl _ this] obtain m1 where
    m1: "obj_run [(OpAllo3 True (Some (demo_creator 1 8)), RHandle 1)] m1"
      "obj_abs m1 = \<lparr>objs = [1 \<mapsto> ?x], last_auto = 0, unloads = []\<rparr>" by (auto simp: disciplined_def)
  have "spec_exec (OpAllo3 True (Some (demo_creator 0 16))) \<lparr>objs = [1 \<mapsto> ?x], last_auto = 0, unloads = []\<rparr> =
      Some (\<lparr>objs = [1 \<mapsto> ?x], last_auto = 1, unloads = []\<rparr>, RHandle 1)"
    by (simp add: demo_alloc spec_register_def)
       (simp add: creator_object_def demo_creator_def INVALID_OBJHLD_def)
  from run_step_spec [OF m1 _ this] obtain m2 where
    "obj_run [(OpAllo3 True (Some (demo_creator 1 8)), RHandle 1),
              (OpAllo3 True (Some (demo_creator 0 16)), RHandle 1)] m2"
    "obj_abs m2 = \<lparr>objs = [1 \<mapsto> ?x], last_auto = 1, unloads = []\<rparr>" by (auto simp: disciplined_def)
  then show ?thesis using x by (auto simp: obj_abs_def)
qed

end
