(* ===== verification/Cfifo.thy ===== *)
theory Cfifo
  imports Prelude
begin

unbundle bit_operations_syntax

text \<open>
  \<^verbatim>\<open>src/cfifo.c\<close>: a byte ring buffer whose 32-bit read and write counters run freely and wrap.
  The recursive mutex is held over every public operation, so each is one atomic step. Copies that
  would leave the ring's memory or the caller's buffer are failures (\<^term>\<open>None\<close>).
\<close>

section \<open>Model\<close>

record ckfifo =
  buffer :: bytes
  fsize :: u32
  fin :: u32
  fout :: u32

definition ckfifo_len_raw :: "ckfifo \<Rightarrow> u32" where
  "ckfifo_len_raw ring = fin ring - fout ring"

definition ckfifo_get_raw :: "ckfifo \<Rightarrow> u32 \<Rightarrow> (ckfifo \<times> bytes \<times> u32) option" where
  "ckfifo_get_raw ring cb =
     (let n = min cb (fin ring - fout ring);
          off = fout ring AND (fsize ring - 1);
          len = min n (fsize ring - off)
      in case mem_read (buffer ring) (unat off) (unat len) of
           None \<Rightarrow> None
         | Some a \<Rightarrow>
             (case mem_read (buffer ring) 0 (unat (n - len)) of
                None \<Rightarrow> None
              | Some b \<Rightarrow> Some (ring\<lparr>fout := fout ring + n\<rparr>, a @ b, n)))"

definition ckfifo_put_raw :: "ckfifo \<Rightarrow> bytes \<Rightarrow> u32 \<Rightarrow> (ckfifo \<times> u32) option" where
  "ckfifo_put_raw ring data cb =
     (let n = min cb (fsize ring - fin ring + fout ring);
          off = fin ring AND (fsize ring - 1);
          len = min n (fsize ring - off)
      in case (mem_read data 0 (unat len), mem_read data (unat len) (unat (n - len))) of
           (Some a, Some b) \<Rightarrow>
             (case mem_write (buffer ring) (unat off) a of
                None \<Rightarrow> None
              | Some buf1 \<Rightarrow>
                  (case mem_write buf1 0 b of
                     None \<Rightarrow> None
                   | Some buf2 \<Rightarrow> Some (ring\<lparr>buffer := buf2, fin := fin ring + n\<rparr>, n)))
         | _ \<Rightarrow> None)"

text \<open>The public entries; \<open>mem\<close> tells whether the allocation of the control block succeeds.\<close>

definition ckfifo_init :: "bool \<Rightarrow> bytes option \<Rightarrow> u32 \<Rightarrow> ckfifo option" where
  "ckfifo_init mem buf cb =
     (case buf of
        None \<Rightarrow> None
      | Some b \<Rightarrow>
          if \<not> is_powerof_2 cb then None
          else if \<not> mem then None
          else Some \<lparr>buffer = b, fsize = cb, fin = 0, fout = 0\<rparr>)"

definition ckfifo_len :: "ckfifo option \<Rightarrow> u32" where
  "ckfifo_len ring = (case ring of None \<Rightarrow> 0 | Some r \<Rightarrow> ckfifo_len_raw r)"

definition ckfifo_get :: "ckfifo option \<Rightarrow> bool \<Rightarrow> u32 \<Rightarrow> (ckfifo option \<times> bytes \<times> u32) option" where
  "ckfifo_get ring has_buffer cb =
     (case ring of
        None \<Rightarrow> Some (None, [], 0)
      | Some r \<Rightarrow>
          if \<not> has_buffer then Some (Some r, [], 0)
          else
            map_option (\<lambda>(r', xs, n).
                (Some (if fin r' = fout r' then r'\<lparr>fin := 0, fout := 0\<rparr> else r'), xs, n))
              (ckfifo_get_raw r cb))"

definition ckfifo_put :: "ckfifo option \<Rightarrow> bytes option \<Rightarrow> u32 \<Rightarrow> (ckfifo option \<times> u32) option" where
  "ckfifo_put ring data cb =
     (case (ring, data) of
        (Some r, Some xs) \<Rightarrow> map_option (\<lambda>(r', n). (Some r', n)) (ckfifo_put_raw r xs cb)
      | _ \<Rightarrow> Some (ring, 0))"

definition ckfifo_uninit :: "ckfifo option \<Rightarrow> ckfifo option" where
  "ckfifo_uninit ring = None"

section \<open>The ring as a list of bytes\<close>

text \<open>Invariant: the size is a power of two, the memory has that size, and no more bytes are
  pending than fit. The pending bytes are read from the read counter on, modulo the size.\<close>

definition fifo_ok :: "ckfifo \<Rightarrow> bool" where
  "fifo_ok ring \<longleftrightarrow> is_powerof_2 (fsize ring) \<and> length (buffer ring) = unat (fsize ring) \<and>
     fin ring - fout ring \<le> fsize ring"

definition fifo_list :: "ckfifo \<Rightarrow> bytes" where
  "fifo_list ring = map (\<lambda>k. buffer ring ! ((unat (fout ring) + k) mod unat (fsize ring))) [0 ..< unat (fin ring - fout ring)]"

lemma get_raw_correct:
  assumes ok: "fifo_ok ring"
  shows "\<exists>ring'. ckfifo_get_raw ring cb = Some (ring', take (unat cb) (fifo_list ring), min cb (ckfifo_len_raw ring)) \<and>
     fifo_ok ring' \<and> fifo_list ring' = drop (unat cb) (fifo_list ring) \<and> fsize ring' = fsize ring \<and> fin ring' = fin ring"
proof -
  define s where "s = unat (fsize ring)"
  define n where "n = min cb (fin ring - fout ring)"
  define off where "off = fout ring AND (fsize ring - 1)"
  define len where "len = min n (fsize ring - off)"
  have p2: "is_powerof_2 (fsize ring)" and lb: "length (buffer ring) = s" and le: "unat (fin ring - fout ring) \<le> s"
    using ok by (auto simp: fifo_ok_def s_def word_le_nat_alt)
  have s0: "0 < s" using p2 by (simp add: s_def is_powerof_2_def unat_gt_0)
  have off: "unat off = unat (fout ring) mod s" unfolding off_def s_def by (rule unat_mask_mod [OF p2])
  then have offs: "unat off < s" using s0 by simp
  have sub: "unat (fsize ring - off) = s - unat off" using offs by (simp add: s_def unat_sub word_le_nat_alt)
  have n: "unat n = min (unat cb) (unat (fin ring - fout ring))" by (simp add: n_def unat_min)
  have len: "unat len = min (unat n) (s - unat off)" by (simp add: len_def unat_min sub)
  have nl: "unat (n - len) = unat n - unat len" by (simp add: len_def unat_sub)
  have a: "mem_read (buffer ring) (unat off) (unat len) = Some (take (unat len) (drop (unat off) (buffer ring)))"
    using len offs lb by (simp add: mem_read_def)
  have b: "mem_read (buffer ring) 0 (unat (n - len)) = Some (take (unat n - unat len) (buffer ring))"
    using nl n le lb by (simp add: mem_read_def)
  have out: "take (unat len) (drop (unat off) (buffer ring)) @ take (unat n - unat len) (buffer ring) = take (unat cb) (fifo_list ring)"
    (is "?l = ?r")
  proof (rule nth_equalityI)
    have le': "unat len \<le> s - unat off" "unat len \<le> unat n" "unat n \<le> s" using len n le by linarith+
    then have ll: "length ?l = unat n" using lb by simp
    moreover have lr: "length ?r = unat n" using n by (simp add: fifo_list_def min.commute)
    ultimately show "length ?l = length ?r" by (simp only:)
    fix i assume "i < length ?l"
    then have i: "i < unat n" using ll by simp
    then have il: "i < s" "i < unat cb" "i < unat (fin ring - fout ring)" using n le by auto
    have p: "(unat (fout ring) + i) mod s = (if unat off + i < s then unat off + i else unat off + i - s)"
      using mod_offset [OF s0, of i "unat (fout ring)"] il off by simp
    have r: "?r ! i = buffer ring ! ((unat (fout ring) + i) mod s)"
      using il by (simp add: fifo_list_def s_def)
    show "?l ! i = ?r ! i"
    proof (cases "i < unat len")
      case True
      then have "unat off + i < s" using le' by linarith
      then show ?thesis using True r p lb le' by (simp add: nth_append)
    next
      case False
      then have "unat len = s - unat off" using i len by linarith
      then have "\<not> unat off + i < s" "i - unat len = unat off + i - s" using False offs by linarith+
      moreover have "?l ! i = buffer ring ! (i - unat len)"
        using False lb le' i by (subst nth_append) (simp add: min_absorb2)
      ultimately show ?thesis using r p by simp
    qed
  qed
  have d: "fin ring - (fout ring + n) = (fin ring - fout ring) - n" by simp
  have dn: "unat ((fin ring - fout ring) - n) = unat (fin ring - fout ring) - unat n"
    using n by (simp add: unat_sub word_le_nat_alt)
  have ok': "fifo_ok (ring\<lparr>fout := fout ring + n\<rparr>)"
    using ok dn unfolding fifo_ok_def by (auto simp: d word_le_nat_alt)
  have "(unat (fout ring + n) + k) mod s = (unat (fout ring) + (unat n + k)) mod s" for k
    using counter_mod [OF p2, of "fout ring" n] by (metis add.assoc mod_add_left_eq s_def)
  then have "fifo_list (ring\<lparr>fout := fout ring + n\<rparr>) = drop (unat cb) (fifo_list ring)"
    using n dn by (auto simp: fifo_list_def d s_def [symmetric] intro!: nth_equalityI)
  then show ?thesis using a b out ok'
    by (simp add: ckfifo_get_raw_def ckfifo_len_raw_def Let_def flip: n_def off_def len_def)
qed

text \<open>Positions in the ring: the bytes pending before a put are not overwritten, and the new ones
  land behind them, \<open>L\<close> of them up to the end of the block and the rest at its start.\<close>

lemma ring_old_pos:
  fixes f s m N L x k P :: nat
  assumes "f < s" "m \<le> s" "N \<le> s - m" "L \<le> N" "L \<le> s - x" "L = N \<or> L = s - x"
    and "x = (if f + m < s then f + m else f + m - s)" "k < m"
    and "P = (if f + k < s then f + k else f + k - s)"
  shows "P < s \<and> \<not> P < N - L \<and> \<not> (x \<le> P \<and> P < x + L)"
  using assms by (cases "f + m < s"; cases "f + k < s") auto

lemma ring_new_pos:
  fixes f s m N L x j P :: nat
  assumes "f < s" "m \<le> s" "N \<le> s - m" "L \<le> N" "L \<le> s - x" "L = N \<or> L = s - x"
    and "x = (if f + m < s then f + m else f + m - s)" "j < N"
    and "P = (if f + (m + j) < s then f + (m + j) else f + (m + j) - s)"
  shows "P < s \<and> (if j < L then \<not> P < N - L \<and> x \<le> P \<and> P < x + L \<and> P - x = j else P < N - L \<and> P = j - L)"
  using assms by (cases "f + m < s"; cases "f + (m + j) < s") auto

lemma put_raw_correct:
  assumes ok: "fifo_ok ring" and src: "unat cb \<le> length data"
  shows "\<exists>ring' n. ckfifo_put_raw ring data cb = Some (ring', n) \<and>
     unat n = min (unat cb) (unat (fsize ring) - length (fifo_list ring)) \<and>
     fifo_ok ring' \<and> fifo_list ring' = fifo_list ring @ take (unat n) data \<and> fsize ring' = fsize ring \<and> fout ring' = fout ring"
proof -
  define s where "s = unat (fsize ring)"
  define m where "m = unat (fin ring - fout ring)"
  define n where "n = min cb (fsize ring - fin ring + fout ring)"
  define off where "off = fin ring AND (fsize ring - 1)"
  define len where "len = min n (fsize ring - off)"
  have p2: "is_powerof_2 (fsize ring)" and lb: "length (buffer ring) = s" and le: "m \<le> s"
    using ok by (auto simp: fifo_ok_def s_def m_def word_le_nat_alt)
  have s0: "0 < s" using p2 by (simp add: s_def is_powerof_2_def unat_gt_0)
  have off: "unat off = unat (fin ring) mod s" unfolding off_def s_def by (rule unat_mask_mod [OF p2])
  then have offs: "unat off < s" using s0 by simp
  have sub: "unat (fsize ring - off) = s - unat off" using offs by (simp add: s_def unat_sub word_le_nat_alt)
  have "fsize ring - fin ring + fout ring = fsize ring - (fin ring - fout ring)" by simp
  then have free: "unat (fsize ring - fin ring + fout ring) = s - m"
    using le unat_sub [of "fin ring - fout ring" "fsize ring"] by (simp only: s_def m_def word_le_nat_alt)
  have n: "unat n = min (unat cb) (s - m)" by (simp add: n_def unat_min free)
  have len: "unat len = min (unat n) (s - unat off)" by (simp add: len_def unat_min sub)
  have nl: "unat (n - len) = unat n - unat len" by (simp add: len_def unat_sub)
  have lens: "unat len \<le> unat n" "unat n \<le> length data" "unat len \<le> s - unat off" using len n src by linarith+
  define a where "a = take (unat len) data"
  define b where "b = take (unat n - unat len) (drop (unat len) data)"
  have la: "length a = unat len" and lenb: "length b = unat n - unat len"
    using lens by (simp_all add: a_def b_def)
  have ra: "mem_read data 0 (unat len) = Some a" and rb: "mem_read data (unat len) (unat (n - len)) = Some b"
    using lens nl by (simp_all add: mem_read_def a_def b_def)
  have "unat off + length a \<le> length (buffer ring)" using la lens(3) offs lb by linarith
  then obtain buf1 where w1: "mem_write (buffer ring) (unat off) a = Some buf1"
    by (auto simp: mem_write_def)
  have l1: "length buf1 = s" using length_mem_write [OF w1] lb by simp
  have "length b \<le> length buf1" using lenb n l1 by linarith
  then obtain buf2 where w2: "mem_write buf1 0 b = Some buf2"
    by (auto simp: mem_write_def)
  have l2: "length buf2 = s" using length_mem_write [OF w2] l1 by simp
  have fin: "unat (fin ring) mod s = (unat (fout ring) + m) mod s"
    using counter_mod [OF p2, of "fout ring" "fin ring - fout ring"] by (simp add: s_def m_def)
  have buf2: "buf2 ! p = (if p < unat n - unat len then b ! p
      else if unat off \<le> p \<and> p < unat off + unat len then a ! (p - unat off) else buffer ring ! p)" if "p < s" for p
    using nth_mem_write [OF w2, of p] nth_mem_write [OF w1, of p] that l1 lb la lenb by simp
  define f where "f = unat (fout ring) mod s"
  have f: "f < s" using s0 by (simp add: f_def)
  have o': "unat off = (if f + m < s then f + m else f + m - s)"
    using off fin mod_offset [OF s0 le, of "unat (fout ring)"] by (simp add: f_def)
  have N: "unat n \<le> s - m" and pos: "unat len \<le> unat n" "unat len = unat n \<or> unat len = s - unat off"
    using n len by linarith+
  have old: "buf2 ! ((unat (fout ring) + k) mod s) = buffer ring ! ((unat (fout ring) + k) mod s)" if k: "k < m" for k
  proof -
    have p: "(unat (fout ring) + k) mod s = (if f + k < s then f + k else f + k - s)"
      using mod_offset [OF s0, of k "unat (fout ring)"] k le by (simp add: f_def)
    show ?thesis using ring_old_pos [OF f le N pos(1) lens(3) pos(2) o' k p] buf2 by auto
  qed
  have new: "buf2 ! ((unat (fout ring) + (m + j)) mod s) = data ! j" if j: "j < unat n" for j
  proof -
    have p: "(unat (fout ring) + (m + j)) mod s = (if f + (m + j) < s then f + (m + j) else f + (m + j) - s)"
      using mod_offset [OF s0, of "m + j" "unat (fout ring)"] j N le by (simp add: f_def)
    show ?thesis
      using ring_new_pos [OF f le N pos(1) lens(3) pos(2) o' j p] buf2 j lens
      by (auto simp: a_def b_def split: if_splits)
  qed
  let ?r = "ring\<lparr>buffer := buf2, fin := fin ring + n\<rparr>"
  have eq: "fin ring + n - fout ring = (fin ring - fout ring) + n" by simp
  have "s < 2 ^ LENGTH(32)" unfolding s_def by (rule unsigned_less)
  then have "m + unat n < 2 ^ LENGTH(32)" using N le by linarith
  then have m': "unat (fin ring + n - fout ring) = m + unat n"
    unfolding eq m_def using unat_add_lem [of "fin ring - fout ring" n] by blast
  have ok': "fifo_ok ?r" using ok m' n l2 le unfolding fifo_ok_def by (simp add: word_le_nat_alt s_def)
  have "fifo_list ?r = fifo_list ring @ take (unat n) data"
  proof (rule nth_equalityI)
    show "length (fifo_list ?r) = length (fifo_list ring @ take (unat n) data)"
      using m' n src by (simp add: fifo_list_def m_def)
    fix k assume "k < length (fifo_list ?r)"
    then have "k < m + unat n" using m' by (simp add: fifo_list_def)
    then show "fifo_list ?r ! k = (fifo_list ring @ take (unat n) data) ! k"
      using old [of k] new [of "k - m"] m' lens
      by (auto simp: fifo_list_def nth_append m_def [symmetric] s_def [symmetric])
  qed
  then show ?thesis using ra rb w1 w2 ok' n
    by (simp add: ckfifo_put_raw_def Let_def fifo_list_def flip: n_def off_def len_def s_def m_def)
qed

section \<open>The queue contract\<close>

text \<open>
  What a user of a bounded byte queue relies on: a put accepts as many bytes as fit, in order, and
  a get delivers the oldest ones. From it follows, for any sequence of operations, that the bytes
  come out in the order they went in, none lost, none twice.
\<close>

datatype fifo_op = FPut bytes | FGet nat

fun queue_run ::
  "('q \<Rightarrow> bytes \<Rightarrow> ('q \<times> nat) option) \<Rightarrow> ('q \<Rightarrow> nat \<Rightarrow> ('q \<times> bytes) option) \<Rightarrow> fifo_op list \<Rightarrow> 'q
     \<Rightarrow> ('q \<times> bytes \<times> bytes) option" where
  "queue_run put get [] q = Some (q, [], [])"
| "queue_run put get (FPut xs # ops) q =
     (case put q xs of
        None \<Rightarrow> None
      | Some (q', n) \<Rightarrow>
          map_option (\<lambda>(r, ins, outs). (r, take n xs @ ins, outs)) (queue_run put get ops q'))"
| "queue_run put get (FGet k # ops) q =
     (case get q k of
        None \<Rightarrow> None
      | Some (q', ys) \<Rightarrow>
          map_option (\<lambda>(r, ins, outs). (r, ins, ys @ outs)) (queue_run put get ops q'))"

fun op_fits :: "nat \<Rightarrow> fifo_op \<Rightarrow> bool" where
  "op_fits lim (FPut xs) \<longleftrightarrow> length xs < lim"
| "op_fits lim (FGet k) \<longleftrightarrow> k < lim"

locale byte_queue =
  fixes invar :: "'q \<Rightarrow> bool"
    and contents :: "'q \<Rightarrow> bytes"
    and capacity :: "'q \<Rightarrow> nat"
    and lim :: nat
    and put :: "'q \<Rightarrow> bytes \<Rightarrow> ('q \<times> nat) option"
    and get :: "'q \<Rightarrow> nat \<Rightarrow> ('q \<times> bytes) option"
  assumes put_ok: "invar q \<Longrightarrow> length xs < lim \<Longrightarrow>
      \<exists>q'. put q xs = Some (q', min (length xs) (capacity q - length (contents q))) \<and> invar q' \<and>
        capacity q' = capacity q \<and>
        contents q' = contents q @ take (capacity q - length (contents q)) xs"
    and get_ok: "invar q \<Longrightarrow> k < lim \<Longrightarrow>
      \<exists>q'. get q k = Some (q', take k (contents q)) \<and> invar q' \<and> capacity q' = capacity q \<and>
        contents q' = drop k (contents q)"
begin

lemma run_fifo:
  "invar q \<Longrightarrow> list_all (op_fits lim) ops \<Longrightarrow>
     \<exists>q' ins outs. queue_run put get ops q = Some (q', ins, outs) \<and> invar q' \<and> capacity q' = capacity q \<and>
       contents q @ ins = outs @ contents q'"
proof (induction ops arbitrary: q)
  case Nil
  then show ?case by simp
next
  case (Cons op ops)
  show ?case
  proof (cases op)
    case (FPut xs)
    then obtain q1 where q1: "put q xs = Some (q1, min (length xs) (capacity q - length (contents q)))"
      "invar q1" "capacity q1 = capacity q"
      "contents q1 = contents q @ take (capacity q - length (contents q)) xs"
      using put_ok [OF Cons.prems(1), of xs] Cons.prems(2) by auto
    from Cons.IH [OF q1(2)] Cons.prems(2) obtain q' ins outs where
      r: "queue_run put get ops q1 = Some (q', ins, outs)" "invar q'" "capacity q' = capacity q1"
      "contents q1 @ ins = outs @ contents q'" by auto
    have "take (min (length xs) k) xs = take k xs" for k by (simp add: min_def)
    then show ?thesis using FPut q1 r by simp
  next
    case (FGet k)
    then obtain q1 where q1: "get q k = Some (q1, take k (contents q))" "invar q1"
      "capacity q1 = capacity q" "contents q1 = drop k (contents q)"
      using get_ok [OF Cons.prems(1), of k] Cons.prems(2) by auto
    from Cons.IH [OF q1(2)] Cons.prems(2) obtain q' ins outs where
      r: "queue_run put get ops q1 = Some (q', ins, outs)" "invar q'" "capacity q' = capacity q1"
      "contents q1 @ ins = outs @ contents q'" by auto
    have "contents q @ ins = take k (contents q) @ contents q1 @ ins" by (simp add: q1(4))
    then have "contents q @ ins = (take k (contents q) @ outs) @ contents q'" using r(4) by simp
    then show ?thesis using FGet q1 r by simp
  qed
qed

end

text \<open>The two operations as seen by a caller with valid pointers.\<close>

definition fifo_put :: "ckfifo \<Rightarrow> bytes \<Rightarrow> (ckfifo \<times> nat) option" where
  "fifo_put r xs = (case ckfifo_put (Some r) (Some xs) (of_nat (length xs)) of
     Some (Some r', n) \<Rightarrow> Some (r', unat n) | _ \<Rightarrow> None)"

definition fifo_get :: "ckfifo \<Rightarrow> nat \<Rightarrow> (ckfifo \<times> bytes) option" where
  "fifo_get r k = (case ckfifo_get (Some r) True (of_nat k) of
     Some (Some r', xs, n) \<Rightarrow> Some (r', xs) | _ \<Rightarrow> None)"

lemma fifo_reset:
  assumes "fifo_ok r" "fin r = fout r"
  shows "fifo_ok (r\<lparr>fin := 0, fout := 0\<rparr>) \<and> fifo_list (r\<lparr>fin := 0, fout := 0\<rparr>) = fifo_list r"
  using assms by (simp add: fifo_ok_def fifo_list_def)

lemma unat_of_nat_u32: "n < 2 ^ 32 \<Longrightarrow> unat (of_nat n :: u32) = n"
  by (simp add: unat_of_nat)

interpretation ck: byte_queue fifo_ok fifo_list "\<lambda>r. unat (fsize r)" "2 ^ 32" fifo_put fifo_get
proof (unfold_locales, goal_cases)
  case (1 r xs)
  have len: "unat (of_nat (length xs) :: u32) = length xs" by (rule unat_of_nat_u32 [OF 1(2)])
  from put_raw_correct [OF 1(1), of "of_nat (length xs)" xs] len
  obtain r' n where r': "ckfifo_put_raw r xs (of_nat (length xs)) = Some (r', n)"
    "unat n = min (length xs) (unat (fsize r) - length (fifo_list r))" "fifo_ok r'"
    "fifo_list r' = fifo_list r @ take (unat n) xs" "fsize r' = fsize r" by auto
  then show ?case by (simp add: fifo_put_def ckfifo_put_def min_def)
next
  case (2 r k)
  have k: "unat (of_nat k :: u32) = k" by (rule unat_of_nat_u32 [OF 2(2)])
  from get_raw_correct [OF 2(1), of "of_nat k"] k
  obtain r' n where "ckfifo_get_raw r (of_nat k) = Some (r', take k (fifo_list r), n)"
    "fifo_ok r'" "fifo_list r' = drop k (fifo_list r)" "fsize r' = fsize r" by auto
  then show ?case using fifo_reset [of r'] by (auto simp: fifo_get_def ckfifo_get_def)
qed

section \<open>Properties\<close>


text \<open>A ring of size 4 whose counters are about to wrap around.\<close>

definition demo_ring :: ckfifo where
  "demo_ring = \<lparr>buffer = [9, 8, 7, 6], fsize = 4, fin = 0, fout = 0xFFFFFFFE\<rparr>"

lemma demo_ring: "fifo_ok demo_ring" "fifo_list demo_ring = [7, 6]"
  by (simp_all add: demo_ring_def fifo_ok_def is_powerof_2_def fifo_list_def upt_rec)


text \<open>First in, first out: for any sequence of puts and gets on a well-formed ring, the bytes
  delivered followed by the bytes still pending are the bytes pending at first followed by the
  bytes accepted, and no operation fails.\<close>

theorem ckfifo_fifo_order:
  assumes "fifo_ok r" and "list_all (op_fits (2 ^ 32)) ops"
  shows "\<exists>r' ins outs. queue_run fifo_put fifo_get ops r = Some (r', ins, outs) \<and> fifo_ok r' \<and>
     fifo_list r @ ins = outs @ fifo_list r'"
  using ck.run_fifo [OF assms] by blast

theorem ckfifo_fifo_order_witness:
  "\<exists>r' ins outs. queue_run fifo_put fifo_get [FPut [1, 2, 3], FGet 3, FPut [4]] demo_ring = Some (r', ins, outs) \<and>
     fifo_ok r' \<and> [7, 6] @ ins = outs @ fifo_list r'"
  using ckfifo_fifo_order [OF demo_ring(1), of "[FPut [1, 2, 3], FGet 3, FPut [4]]"] demo_ring(2) by simp



end
