(* ===== verification/HashCrc.thy ===== *)
theory HashCrc
  imports Prelude
begin

unbundle bit_operations_syntax

text \<open>
  \<^verbatim>\<open>src/hash.c\<close>, first part: the FNV hashes (called VFN there) and the table-driven CRC-32. The
  key is a memory block and a C \<^verbatim>\<open>int\<close> length; reading past the block is a failure.
\<close>

section \<open>FNV-1 and FNV-1a\<close>

definition VFN_PRIME32 :: u32 where "VFN_PRIME32 = 16777619"
definition VFN_PRIME64 :: u64 where "VFN_PRIME64 = 1099511628211"
definition VFN_OFFSET_BASIS32 :: u32 where "VFN_OFFSET_BASIS32 = 2166136261"
definition VFN_OFFSET_BASIS64 :: u64 where "VFN_OFFSET_BASIS64 = 14695981039346656037"

definition hash_key :: "bytes option \<Rightarrow> int \<Rightarrow> (bytes \<Rightarrow> 'w::len word) \<Rightarrow> 'w word option" where
  "hash_key key len f =
     (case key of
        None \<Rightarrow> Some 0
      | Some k \<Rightarrow> if len \<le> 0 then Some 0 else map_option f (mem_read k 0 (nat len)))"

definition vfn1_h32 :: "bytes option \<Rightarrow> int \<Rightarrow> u32 option" where
  "vfn1_h32 key len = hash_key key len (foldl (\<lambda>h b. h * VFN_PRIME32 XOR ucast b) VFN_OFFSET_BASIS32)"

definition vfn1_h64 :: "bytes option \<Rightarrow> int \<Rightarrow> u64 option" where
  "vfn1_h64 key len = hash_key key len (foldl (\<lambda>h b. h * VFN_PRIME64 XOR ucast b) VFN_OFFSET_BASIS64)"

definition vfn1a_h32 :: "bytes option \<Rightarrow> int \<Rightarrow> u32 option" where
  "vfn1a_h32 key len = hash_key key len (foldl (\<lambda>h b. (h XOR ucast b) * VFN_PRIME32) VFN_OFFSET_BASIS32)"

definition vfn1a_h64 :: "bytes option \<Rightarrow> int \<Rightarrow> u64 option" where
  "vfn1a_h64 key len = hash_key key len (foldl (\<lambda>h b. (h XOR ucast b) * VFN_PRIME64) VFN_OFFSET_BASIS64)"

section \<open>CRC-32\<close>

definition CRC32_POLY :: u32 where "CRC32_POLY = 0xEDB88320"

definition crc32_bit :: "u32 \<Rightarrow> u32" where
  "crc32_bit c = (if c AND 1 \<noteq> 0 then drop_bit 1 c XOR CRC32_POLY else drop_bit 1 c)"

definition crc32_initial_table :: "u32 list" where
  "crc32_initial_table = map (\<lambda>i. (crc32_bit ^^ 8) (of_nat i)) [0 ..< 256]"

definition crc32_update :: "u32 list \<Rightarrow> u32 \<Rightarrow> u8 \<Rightarrow> u32" where
  "crc32_update table crc b = drop_bit 8 crc XOR (table ! unat ((crc AND 0xff) XOR ucast b))"

definition crc32 :: "u32 \<Rightarrow> bytes option \<Rightarrow> u32 \<Rightarrow> u32 option" where
  "crc32 crc string cb =
     (case string of
        None \<Rightarrow> Some 0
      | Some s \<Rightarrow>
          if cb = 0 then Some 0
          else
            map_option (\<lambda>bs. foldl (crc32_update crc32_initial_table) (crc XOR 0xFFFFFFFF) bs XOR 0xFFFFFFFF)
              (mem_read s 0 (unat cb)))"

section \<open>One changed byte always changes an FNV hash\<close>

text \<open>
  A hash that folds a step over the bytes, where the step is injective in the running value and in
  the byte: two inputs of the same length that differ in exactly one place have different hashes.
\<close>

locale byte_fold =
  fixes step :: "'h \<Rightarrow> u8 \<Rightarrow> 'h"
  assumes inj_state: "step h b = step h' b \<Longrightarrow> h = h'"
    and inj_byte: "step h b = step h b' \<Longrightarrow> b = b'"
begin

lemma foldl_inj: "foldl step h xs = foldl step h' xs \<Longrightarrow> h = h'"
  by (induction xs arbitrary: h h') (auto dest: inj_state)

lemma one_byte_differs: "b \<noteq> b' \<Longrightarrow> foldl step h (xs @ b # ys) \<noteq> foldl step h (xs @ b' # ys)"
  by (auto dest!: foldl_inj inj_byte)

end

lemma mult_unit_inj: "p * q = 1 \<Longrightarrow> a * p = b * p \<Longrightarrow> a = b" for p q a b :: "'w::len word"
  by (metis mult.assoc mult.right_neutral)

lemma prime32_unit: "VFN_PRIME32 * 899433627 = 1"
  by (simp add: VFN_PRIME32_def)

lemma prime64_unit: "VFN_PRIME64 * 14886173955864302971 = 1"
  by (simp add: VFN_PRIME64_def)

lemma xor_cancel: "a XOR c = b XOR c \<Longrightarrow> a = b" "c XOR a = c XOR b \<Longrightarrow> a = b" for a b c :: "'w::len word"
  by (metis xor.assoc xor_self_eq xor.right_neutral xor.commute)+

lemma ucast_u8_back: "8 \<le> LENGTH('w) \<Longrightarrow> ucast (ucast b :: 'w::len word) = (b :: u8)"
  by (rule bit_word_eqI) (simp add: bit_simps)

lemma ucast_u8_inj: "8 \<le> LENGTH('w) \<Longrightarrow> (ucast b :: 'w::len word) = ucast b' \<Longrightarrow> b = b'" for b b' :: u8
  by (metis ucast_u8_back)

interpretation fnv1_32: byte_fold "\<lambda>h b. h * VFN_PRIME32 XOR ucast b"
  by unfold_locales (auto dest!: xor_cancel mult_unit_inj [OF prime32_unit] ucast_u8_inj [rotated])

interpretation fnv1_64: byte_fold "\<lambda>h b. h * VFN_PRIME64 XOR ucast b"
  by unfold_locales (auto dest!: xor_cancel mult_unit_inj [OF prime64_unit] ucast_u8_inj [rotated])

interpretation fnv1a_32: byte_fold "\<lambda>h b. (h XOR ucast b) * VFN_PRIME32"
  by unfold_locales (auto dest!: xor_cancel mult_unit_inj [OF prime32_unit] ucast_u8_inj [rotated])

interpretation fnv1a_64: byte_fold "\<lambda>h b. (h XOR ucast b) * VFN_PRIME64"
  by unfold_locales (auto dest!: xor_cancel mult_unit_inj [OF prime64_unit] ucast_u8_inj [rotated])

lemma hash_key_block: "xs \<noteq> [] \<Longrightarrow> hash_key (Some xs) (int (length xs)) f = Some (f xs)"
  by (simp add: hash_key_def mem_read_def)

text \<open>C28. Changing exactly one byte of a key changes each of the four FNV hashes.\<close>

theorem fnv_detects_one_byte:
  assumes "b \<noteq> b'" and "k = xs @ b # ys" and "k' = xs @ b' # ys" and "n = int (length k)"
  shows "vfn1_h32 (Some k) n \<noteq> vfn1_h32 (Some k') n \<and> vfn1_h64 (Some k) n \<noteq> vfn1_h64 (Some k') n \<and>
     vfn1a_h32 (Some k) n \<noteq> vfn1a_h32 (Some k') n \<and> vfn1a_h64 (Some k) n \<noteq> vfn1a_h64 (Some k') n"
proof -
  have key: "hash_key (Some k) n f = Some (f (xs @ b # ys))" "hash_key (Some k') n f = Some (f (xs @ b' # ys))"
    for f :: "bytes \<Rightarrow> 'w::len word"
    using hash_key_block [of k f] hash_key_block [of k' f] assms by auto
  show ?thesis
    unfolding vfn1_h32_def vfn1_h64_def vfn1a_h32_def vfn1a_h64_def key option.inject
    using assms(1)
    by (intro conjI fnv1_32.one_byte_differs fnv1_64.one_byte_differs fnv1a_32.one_byte_differs
        fnv1a_64.one_byte_differs)
qed

theorem fnv_detects_one_byte_witness:
  "vfn1a_h32 (Some [97, 98]) 2 \<noteq> vfn1a_h32 (Some [97, 99]) 2"
  using fnv_detects_one_byte [of 98 99 "[97, 98]" "[97]" "[]" "[97, 99]" 2] by simp

section \<open>The CRC table agrees with the bitwise register\<close>

definition crc32_byte :: "u32 \<Rightarrow> u8 \<Rightarrow> u32" where
  "crc32_byte c b = (crc32_bit ^^ 8) (c XOR ucast b)"

lemma crc32_bit_alt: "crc32_bit c = drop_bit 1 c XOR (if bit c 0 then CRC32_POLY else 0)"
  by (simp add: crc32_bit_def bit_0 odd_iff_mod_2_eq_one and_one_eq)

lemma crc32_bit_linear: "crc32_bit (a XOR b) = crc32_bit a XOR crc32_bit b"
  by (auto simp: crc32_bit_alt bit_xor_iff drop_bit_xor xor.assoc xor.left_commute)

lemma crc32_bits_linear: "(crc32_bit ^^ n) (a XOR b) = (crc32_bit ^^ n) a XOR (crc32_bit ^^ n) b"
  by (induction n arbitrary: a b) (simp_all add: crc32_bit_linear)

lemma crc32_bits_shift: "(\<And>i. i < n \<Longrightarrow> \<not> bit c i) \<Longrightarrow> (crc32_bit ^^ n) c = drop_bit n c"
proof (induction n arbitrary: c)
  case 0
  then show ?case by simp
next
  case (Suc n)
  have "crc32_bit c = drop_bit 1 c" using Suc.prems [of 0] by (simp add: crc32_bit_alt)
  moreover have "(crc32_bit ^^ n) (drop_bit 1 c) = drop_bit n (drop_bit 1 c)"
    by (rule Suc.IH) (use Suc.prems in \<open>simp add: bit_drop_bit_eq\<close>)
  ultimately show ?case by (simp add: funpow_swap1 drop_bit_drop_bit del: drop_bit_Suc)
qed

lemma crc32_table_nth: "i < 256 \<Longrightarrow> crc32_initial_table ! i = (crc32_bit ^^ 8) (of_nat i)"
  by (simp add: crc32_initial_table_def)

lemma mask8: "(0xff :: u32) = mask 8"
  by (simp add: mask_eq_exp_minus_1)

lemma unat_low_byte: "unat ((c AND 0xff) XOR ucast (b::u8) :: u32) < 256"
proof -
  have "(c AND 0xff) XOR ucast b = take_bit 8 ((c AND 0xff) XOR ucast b)"
    unfolding mask8 by (rule bit_word_eqI) (auto simp: bit_simps dest: bit_imp_le_length)
  then have "unat ((c AND 0xff) XOR ucast b) = take_bit 8 (unat ((c AND 0xff) XOR ucast b))"
    by (metis unsigned_take_bit_eq)
  moreover have "take_bit 8 n < 256" for n :: nat
    using take_bit_nat_less_exp [of 8 n] by simp
  ultimately show ?thesis by metis
qed

lemma crc32_update_byte: "crc32_update crc32_initial_table c b = crc32_byte c b"
proof -
  let ?x = "c XOR ucast b"
  have split: "?x = (?x AND NOT 0xff) XOR ((c AND 0xff) XOR ucast b)"
    unfolding mask8 by (rule bit_word_eqI) (auto simp: bit_simps dest: bit_imp_le_length)
  have high: "drop_bit 8 (?x AND NOT 0xff) = drop_bit 8 c"
    unfolding mask8 by (rule bit_word_eqI) (auto simp: bit_simps dest: bit_imp_le_length)
  have "(crc32_bit ^^ 8) (?x AND NOT 0xff) = drop_bit 8 (?x AND NOT 0xff)"
    by (rule crc32_bits_shift) (simp add: mask8 bit_simps)
  then have "crc32_byte c b = drop_bit 8 c XOR (crc32_bit ^^ 8) ((c AND 0xff) XOR ucast b)"
    unfolding crc32_byte_def by (subst split) (simp only: crc32_bits_linear high)
  then show ?thesis
    using crc32_table_nth [OF unat_low_byte [of c b]] by (simp add: crc32_update_def)
qed

lemma crc32_eq: "string = Some s \<Longrightarrow> cb \<noteq> 0 \<Longrightarrow> unat cb \<le> length s \<Longrightarrow>
    crc32 crc string cb = Some (foldl crc32_byte (crc XOR 0xFFFFFFFF) (take (unat cb) s) XOR 0xFFFFFFFF)"
proof -
  have "crc32_update crc32_initial_table = crc32_byte" by (intro ext crc32_update_byte)
  then show "string = Some s \<Longrightarrow> cb \<noteq> 0 \<Longrightarrow> unat cb \<le> length s \<Longrightarrow> ?thesis"
    by (simp add: crc32_def mem_read_def)
qed

text \<open>
  C27. The table-driven checksum of a block is the bit-by-bit CRC register: the register starts at the
  complement of the seed, takes every byte into its low end and is shifted eight times through the
  reflected polynomial per byte; the result is complemented. A seed that is the checksum of an
  earlier block continues that block: a message may be fed in pieces.
\<close>

theorem crc32_correct:
  assumes "n \<noteq> 0" and "m \<noteq> 0" and "unat n \<le> length xs" and "unat m \<le> length ys"
    and "unat n + unat m < 2 ^ 32"
  shows "crc32 seed (Some xs) n = Some (NOT (foldl crc32_byte (NOT seed) (take (unat n) xs))) \<and>
    Option.bind (crc32 seed (Some xs) n) (\<lambda>c. crc32 c (Some ys) m) =
      crc32 seed (Some (take (unat n) xs @ ys)) (n + m)"
proof -
  have ones: "x XOR 0xFFFFFFFF = NOT x" for x :: u32
  proof -
    have "(0xFFFFFFFF :: u32) = - 1" by simp
    then show ?thesis by (simp only: bit.xor_one_right)
  qed
  have nm: "unat (n + m) = unat n + unat m" using assms(5) by (simp add: unat_plus_if')
  then have "n + m \<noteq> 0" using assms(1,2) by (metis add_eq_0_iff_both_eq_0 unsigned_0 unsigned_eq_0_iff)
  then show ?thesis
    using assms(1-4) by (simp add: crc32_eq ones nm)
qed

lemma crc32_byte_unfold: "crc32_byte c b =
    crc32_bit (crc32_bit (crc32_bit (crc32_bit (crc32_bit (crc32_bit (crc32_bit (crc32_bit (c XOR ucast b))))))))"
  by (simp add: crc32_byte_def eval_nat_numeral)

lemma crc32_check_value: "crc32 0 (Some [49, 50, 51, 52, 53, 54, 55, 56, 57]) 9 = Some 0xCBF43926"
  by (subst crc32_eq [OF refl]) (simp_all add: crc32_byte_unfold crc32_bit_def CRC32_POLY_def)

theorem crc32_correct_witness:
  "crc32 0 (Some [49, 50, 51]) 3 = Some (NOT (foldl crc32_byte (NOT 0) [49, 50, 51])) \<and>
   Option.bind (crc32 0 (Some [49, 50, 51]) 3) (\<lambda>c. crc32 c (Some [52, 53]) 2) = crc32 0 (Some [49, 50, 51, 52, 53]) 5"
  using crc32_correct [of 3 2 "[49, 50, 51]" "[52, 53]" 0] by auto

end
