(* ===== verification/Base64.thy ===== *)
theory Base64
  imports Prelude "HOL-Library.Monad_Syntax"
begin

unbundle bit_operations_syntax

text \<open>
  \<^verbatim>\<open>src/hash.c\<close>, second part: base64. Input and output are memory blocks of bytes, lengths are C
  \<^verbatim>\<open>int\<close>s. \<^verbatim>\<open>char\<close> is signed, so its right shift is arithmetic; reads and writes outside a
  block and signed overflow are failures (\<^term>\<open>None\<close>).
\<close>

definition base64char :: bytes where
  "base64char = map (of_nat \<circ> of_char) ''ABCDEFGHIJKLMNOPQRSTUVWXYZabcdefghijklmnopqrstuvwxyz0123456789+/''"

definition base64_pad :: u8 where "base64_pad = 61"

definition base64_encode_len :: "int \<Rightarrow> int option" where
  "base64_encode_len n =
     (let add = (if n smod 3 \<noteq> 0 then 3 - n smod 3 else 0) in
      do { t \<leftarrow> c_int (n + add); c_int (t sdiv 3 * 4) })"

definition base64_symbol :: "u8 \<Rightarrow> u8 option" where
  "base64_symbol current = mem_get base64char (unat current)"

function base64_encode_loop :: "bytes \<Rightarrow> nat \<Rightarrow> nat \<Rightarrow> nat \<Rightarrow> bytes \<Rightarrow> (nat \<times> bytes) option" where
  "base64_encode_loop input n i j output =
     (if n \<le> i then Some (j, output)
      else do {
        x0 \<leftarrow> mem_get input i;
        c \<leftarrow> base64_symbol (signed_drop_bit 2 x0 AND 0x3F);
        output \<leftarrow> mem_put output j c;
        let current = push_bit 4 x0 AND 0x30;
        if n \<le> i + 1 then do {
          c \<leftarrow> base64_symbol current;
          output \<leftarrow> mem_put output (j + 1) c;
          output \<leftarrow> mem_put output (j + 2) base64_pad;
          output \<leftarrow> mem_put output (j + 3) base64_pad;
          Some (j, output)
        } else do {
          x1 \<leftarrow> mem_get input (i + 1);
          c \<leftarrow> base64_symbol (current OR (signed_drop_bit 4 x1 AND 0x0F));
          output \<leftarrow> mem_put output (j + 1) c;
          let current = push_bit 2 x1 AND 0x3C;
          if n \<le> i + 2 then do {
            c \<leftarrow> base64_symbol current;
            output \<leftarrow> mem_put output (j + 2) c;
            output \<leftarrow> mem_put output (j + 3) base64_pad;
            Some (j, output)
          } else do {
            x2 \<leftarrow> mem_get input (i + 2);
            c \<leftarrow> base64_symbol (current OR (signed_drop_bit 6 x2 AND 0x03));
            output \<leftarrow> mem_put output (j + 2) c;
            c \<leftarrow> base64_symbol (x2 AND 0x3F);
            output \<leftarrow> mem_put output (j + 3) c;
            base64_encode_loop input n (i + 3) (j + 4) output
          }
        }
      })"
  by pat_completeness auto
termination by (relation "measure (\<lambda>(input, n, i, j, output). n - i)") auto

declare base64_encode_loop.simps [simp del]

definition base64_encode :: "bytes option \<Rightarrow> int \<Rightarrow> bytes option \<Rightarrow> bytes option option" where
  "base64_encode input n output =
     (case (input, output) of
        (Some inp, Some out) \<Rightarrow>
          if n \<le> 0 then Some None
          else do {
            (j, out) \<leftarrow> base64_encode_loop inp (nat n) 0 0 out;
            out \<leftarrow> mem_put out j 0;
            Some (Some out)
          }
      | _ \<Rightarrow> Some None)"

definition base64_decode_len :: "bytes option \<Rightarrow> int \<Rightarrow> int option" where
  "base64_decode_len base64 n =
     (case base64 of
        None \<Rightarrow> Some (- 1)
      | Some b \<Rightarrow>
          if n \<le> 0 then Some (- 1)
          else if n < 2 then None
          else do {
            let len = n sdiv 4 * 3;
            x \<leftarrow> mem_get b (nat (n - 1));
            let len = (if x = base64_pad then len - 1 else len);
            y \<leftarrow> mem_get b (nat (n - 2));
            Some (if y = base64_pad then len - 1 else len)
          })"

definition base64_value :: "u8 \<Rightarrow> u8" where
  "base64_value ch = foldl (\<lambda>t k. if base64char ! k = ch then of_nat k else t) 0xFF [0 ..< 64]"

function base64_decode_loop :: "bytes \<Rightarrow> nat \<Rightarrow> nat \<Rightarrow> nat \<Rightarrow> bytes \<Rightarrow> (nat \<times> bytes) option" where
  "base64_decode_loop base64 n i j bindata =
     (if n \<le> i then Some (j, bindata)
      else do {
        c0 \<leftarrow> mem_get base64 i;
        c1 \<leftarrow> mem_get base64 (i + 1);
        c2 \<leftarrow> mem_get base64 (i + 2);
        c3 \<leftarrow> mem_get base64 (i + 3);
        let t0 = base64_value c0;
        let t1 = base64_value c1;
        let t2 = base64_value c2;
        let t3 = base64_value c3;
        bindata \<leftarrow> mem_put bindata j ((push_bit 2 t0 AND 0xFC) OR (signed_drop_bit 4 t1 AND 0x03));
        if c2 = base64_pad then Some (j + 1, bindata)
        else do {
          bindata \<leftarrow> mem_put bindata (j + 1) ((push_bit 4 t1 AND 0xF0) OR (signed_drop_bit 2 t2 AND 0x0F));
          if c3 = base64_pad then Some (j + 2, bindata)
          else do {
            bindata \<leftarrow> mem_put bindata (j + 2) ((push_bit 6 t2 AND 0xF0) OR (t3 AND 0x3F));
            base64_decode_loop base64 n (i + 4) (j + 3) bindata
          }
        }
      })"
  by pat_completeness auto
termination by (relation "measure (\<lambda>(base64, n, i, j, bindata). n - i)") auto

declare base64_decode_loop.simps [simp del]

definition base64_decode :: "bytes option \<Rightarrow> int \<Rightarrow> bytes option \<Rightarrow> (int \<times> bytes option) option" where
  "base64_decode base64 n bindata =
     (case (base64, bindata) of
        (Some b, Some out) \<Rightarrow>
          if n \<le> 0 then Some (- 1, bindata)
          else do {
            (j, out) \<leftarrow> base64_decode_loop b (nat n) 0 0 out;
            Some (int j, Some out)
          }
      | _ \<Rightarrow> Some (- 1, bindata))"

text \<open>
  The two-step interface: \<^term>\<open>outcb\<close> is \<^term>\<open>None\<close> for a NULL pointer. The result is the
  returned number, the final value behind \<^term>\<open>outcb\<close> and the output block.
\<close>

definition base64_encode2 ::
    "bytes option \<Rightarrow> int \<Rightarrow> bytes option \<Rightarrow> int option \<Rightarrow> (int \<times> int option \<times> bytes option) option" where
  "base64_encode2 input incb output outcb =
     (if input = None \<or> incb \<le> 0 \<or> outcb = None then Some (- 1, outcb, output)
      else do {
        n \<leftarrow> base64_encode_len incb;
        if n \<le> 0 then Some (- 1, Some n, output)
        else if output = None then Some (n, Some n, None)
        else do {
          r \<leftarrow> base64_encode input incb output;
          Some (case r of None \<Rightarrow> (- 1, Some n, output) | Some out \<Rightarrow> (n, Some n, Some out))
        }
      })"

definition base64_decode2 ::
    "bytes option \<Rightarrow> int \<Rightarrow> bytes option \<Rightarrow> int option \<Rightarrow> (int \<times> int option \<times> bytes option) option" where
  "base64_decode2 input incb output outcb =
     (if input = None \<or> incb \<le> 0 \<or> outcb = None then Some (- 1, outcb, output)
      else do {
        n \<leftarrow> base64_decode_len input incb;
        if n \<le> 0 then Some (- 1, Some n, output)
        else if output = None then Some (n, Some n, None)
        else do {
          (r, out) \<leftarrow> base64_decode input incb output;
          Some (r, Some n, out)
        }
      })"

section \<open>The base64 text of a byte string\<close>

definition b64 :: "u8 \<Rightarrow> u8" where
  "b64 v = base64char ! unat (take_bit 6 v)"

fun b64_text :: "bytes \<Rightarrow> bytes" where
  "b64_text (x # y # z # rest) =
     b64 (drop_bit 2 x) # b64 (push_bit 4 x OR drop_bit 4 y) # b64 (push_bit 2 y OR drop_bit 6 z) # b64 z # b64_text rest"
| "b64_text [x, y] = [b64 (drop_bit 2 x), b64 (push_bit 4 x OR drop_bit 4 y), b64 (push_bit 2 y), base64_pad]"
| "b64_text [x] = [b64 (drop_bit 2 x), b64 (push_bit 4 x), base64_pad, base64_pad]"
| "b64_text [] = []"

lemma length_base64char [simp]: "length base64char = 64"
  by (simp add: base64char_def)

lemma unat_take_bit_6: "unat (take_bit 6 v :: u8) < 64"
  using take_bit_nat_less_exp [of 6 "unat v"] by (simp only: unsigned_take_bit_eq) simp

lemma base64_symbol_b64: "base64_symbol (take_bit 6 v) = Some (b64 v)"
  using unat_take_bit_6 [of v] by (simp add: base64_symbol_def b64_def)

lemma foldl_index: "distinct xs \<Longrightarrow> k < length xs \<Longrightarrow> n \<le> length xs \<Longrightarrow>
    foldl (\<lambda>t i. if xs ! i = xs ! k then f i else t) d [0 ..< n] = (if k < n then f k else d)"
  by (induction n) (auto simp: nth_eq_iff_index_eq less_Suc_eq)

lemma distinct_base64char: "distinct base64char"
  by (simp add: base64char_def)

lemma pad_not_base64char: "base64_pad \<notin> set base64char"
  by (simp add: base64char_def base64_pad_def)

lemma base64_value_b64: "base64_value (b64 v) = take_bit 6 v"
  using unat_take_bit_6 [of v] distinct_base64char
  by (simp add: b64_def base64_value_def foldl_index)

lemma b64_not_pad: "b64 v \<noteq> base64_pad"
  using unat_take_bit_6 [of v] pad_not_base64char
  by (metis b64_def length_base64char nth_mem)

lemma masks:
  "(0x3F :: u8) = mask 6" "(0x30 :: u8) = push_bit 4 (mask 2)" "(0x0F :: u8) = mask 4"
  "(0x3C :: u8) = push_bit 2 (mask 4)" "(0x03 :: u8) = mask 2" "(0xFC :: u8) = push_bit 2 (mask 6)"
  "(0xF0 :: u8) = push_bit 4 (mask 4)"
  by (simp_all add: mask_eq_exp_minus_1)

lemma encode_bits:
  fixes x y z :: u8
  shows "signed_drop_bit 2 x AND 0x3F = take_bit 6 (drop_bit 2 x)"
    and "push_bit 4 x AND 0x30 = take_bit 6 (push_bit 4 x)"
    and "(push_bit 4 x AND 0x30) OR (signed_drop_bit 4 y AND 0x0F) = take_bit 6 (push_bit 4 x OR drop_bit 4 y)"
    and "push_bit 2 y AND 0x3C = take_bit 6 (push_bit 2 y)"
    and "(push_bit 2 y AND 0x3C) OR (signed_drop_bit 6 z AND 0x03) = take_bit 6 (push_bit 2 y OR drop_bit 6 z)"
    and "z AND 0x3F = take_bit 6 z"
  unfolding masks
  by (rule u8_eqI; simp add: bit_simps)+

lemma encode_symbols:
  fixes x y z :: u8
  shows "base64_symbol (z AND 0x3F) = Some (b64 z)"
    and "b64 (signed_drop_bit 2 x) = b64 (drop_bit 2 x)"
    and "base64_symbol (push_bit 4 x AND 0x30) = Some (b64 (push_bit 4 x))"
    and "base64_symbol ((push_bit 4 x AND 0x30) OR (signed_drop_bit 4 y AND 0x0F)) =
      Some (b64 (push_bit 4 x OR drop_bit 4 y))"
    and "base64_symbol (push_bit 2 y AND 0x3C) = Some (b64 (push_bit 2 y))"
    and "base64_symbol ((push_bit 2 y AND 0x3C) OR (signed_drop_bit 6 z AND 0x03)) =
      Some (b64 (push_bit 2 y OR drop_bit 6 z))"
  subgoal by (simp only: encode_bits(6) base64_symbol_b64)
  subgoal by (metis b64_def encode_bits(1,6))
  subgoal by (simp only: encode_bits(2) base64_symbol_b64)
  subgoal by (simp only: encode_bits(3) base64_symbol_b64)
  subgoal by (simp only: encode_bits(4) base64_symbol_b64)
  subgoal by (simp only: encode_bits(5) base64_symbol_b64)
  done

lemma decode_bits:
  fixes x y z :: u8
  shows "(push_bit 2 (take_bit 6 (drop_bit 2 x)) AND 0xFC) OR
      (signed_drop_bit 4 (take_bit 6 (push_bit 4 x OR drop_bit 4 y)) AND 0x03) = x"
    and "(push_bit 2 (take_bit 6 (drop_bit 2 x)) AND 0xFC) OR
      (signed_drop_bit 4 (take_bit 6 (push_bit 4 x)) AND 0x03) = x"
    and "(push_bit 4 (take_bit 6 (push_bit 4 x OR drop_bit 4 y)) AND 0xF0) OR
      (signed_drop_bit 2 (take_bit 6 (push_bit 2 y OR drop_bit 6 z)) AND 0x0F) = y"
    and "(push_bit 4 (take_bit 6 (push_bit 4 x OR drop_bit 4 y)) AND 0xF0) OR
      (signed_drop_bit 2 (take_bit 6 (push_bit 2 y)) AND 0x0F) = y"
    and "(push_bit 6 (take_bit 6 (push_bit 2 y OR drop_bit 6 z)) AND 0xF0) OR (take_bit 6 z AND 0x3F) = z"
  unfolding masks
  by (rule u8_eqI; simp add: bit_simps)+

lemmas decode_values = decode_bits [folded base64_value_b64]

section \<open>The loops against the text\<close>

lemma updates4: "j + 4 \<le> length out \<Longrightarrow>
    out[j := a, Suc j := b, Suc (Suc j) := c, j + 3 := d] = take j out @ [a, b, c, d] @ drop (j + 4) out"
  by (rule nth_equalityI) (auto simp: nth_append nth_Cons' nth_list_update)

lemma numeral_4_eq_Suc: "j + 4 = Suc (Suc (Suc (Suc j)))"
  by simp

lemma updates3: "j + 3 \<le> length out \<Longrightarrow>
    out[j := a, Suc j := b, Suc (Suc j) := c] = take j out @ [a, b, c] @ drop (j + 3) out"
  by (rule nth_equalityI) (auto simp: nth_append nth_Cons' nth_list_update)

lemma updates2: "j + 2 \<le> length out \<Longrightarrow> out[j := a, Suc j := b] = take j out @ [a, b] @ drop (j + 2) out"
  by (rule nth_equalityI) (auto simp: nth_append nth_Cons' nth_list_update Suc_diff_Suc numeral_2_eq_2)

lemma window_Cons:
  assumes "drop i (take n input) = x # r" and "n \<le> length input"
  shows "i < n" and "input ! i = x" and "drop (Suc i) (take n input) = r"
proof -
  show "i < n" using assms by (metis drop_all length_take list.distinct(1) min.absorb2 not_less)
  then show "input ! i = x" using assms by (metis hd_drop_conv_nth length_take list.sel(1) min.absorb2 nth_take)
  show "drop (Suc i) (take n input) = r" using assms(1) by (metis drop_Suc list.sel(3) tl_drop)
qed

lemma base64_encode_loop_text:
  assumes "drop i (take n input) = data" and "n \<le> length input" and "j + length (b64_text data) \<le> length out"
  shows "base64_encode_loop input n i j out =
      Some (j + 4 * (length data div 3), take j out @ b64_text data @ drop (j + length (b64_text data)) out)"
  using assms
proof (induction data arbitrary: i j out rule: b64_text.induct)
  case (1 x y z r)
  note w = window_Cons [OF 1(2,3)] 
  note w2 = window_Cons [OF w(3) 1(3)]
  note w3 = window_Cons [OF w2(3) 1(3)]
  let ?out = "take j out @ [b64 (drop_bit 2 x), b64 (push_bit 4 x OR drop_bit 4 y),
     b64 (push_bit 2 y OR drop_bit 6 z), b64 z] @ drop (j + 4) out"
  have step: "base64_encode_loop input n i j out = base64_encode_loop input n (i + 3) (j + 4) ?out"
    using w w2 w3 1(3,4)
    by (subst base64_encode_loop.simps) (simp add: encode_symbols updates4)
  have "base64_encode_loop input n (i + 3) (j + 4) ?out = Some (j + 4 + 4 * (length r div 3),
      take (j + 4) ?out @ b64_text r @ drop (j + 4 + length (b64_text r)) ?out)"
    by (rule 1(1)) (use w3 1(3,4) in \<open>simp_all add: eval_nat_numeral\<close>)
  moreover have "drop (j + 4 + length (b64_text r)) ?out = drop (j + 4 + length (b64_text r)) out"
    using 1(4) by (simp add: drop_Cons' ac_simps)
  moreover have "j + 4 + 4 * (length r div 3) = j + 4 * (length (x # y # z # r) div 3)"
    using div_add_self1 [of 3 "length r"] by simp
  moreover have "take (j + 4) ?out @ b64_text r = take j out @ b64_text (x # y # z # r)"
    using 1(4) by simp
  moreover have "j + 4 + length (b64_text r) = j + length (b64_text (x # y # z # r))" by simp
  ultimately show ?case
    unfolding step by (metis append.assoc)
next
  case (2 x y)
  note w = window_Cons [OF 2(1,2)] 
  note w2 = window_Cons [OF w(3) 2(2)]
  have "n = Suc (Suc i)" using w2 2(2) by auto
  then show ?case
    using w w2 2(2,3)
    by (subst base64_encode_loop.simps) (simp add: encode_symbols updates4 numeral_4_eq_Suc)
next
  case (3 x)
  note w = window_Cons [OF 3(1,2)] 
  have "n = Suc i" using w 3(2) by auto
  then show ?case
    using w 3(2,3)
    by (subst base64_encode_loop.simps) (simp add: encode_symbols updates4 numeral_4_eq_Suc)
next
  case 4
  then show ?case by (subst base64_encode_loop.simps) auto
qed

lemma base64_decode_loop_text:
  assumes "drop i (take n base64) = b64_text data" and "n \<le> length base64" and "j + length data \<le> length out"
  shows "base64_decode_loop base64 n i j out = Some (j + length data, take j out @ data @ drop (j + length data) out)"
  using assms
proof (induction data arbitrary: i j out rule: b64_text.induct)
  case (1 x y z r)
  note w = window_Cons [OF 1(2) [unfolded b64_text.simps] 1(3)] 
  note w2 = window_Cons [OF w(3) 1(3)]
  note w3 = window_Cons [OF w2(3) 1(3)]
  note w4 = window_Cons [OF w3(3) 1(3)]
  let ?out = "take j out @ [x, y, z] @ drop (j + 3) out"
  have step: "base64_decode_loop base64 n i j out = base64_decode_loop base64 n (i + 4) (j + 3) ?out"
    using w w2 w3 w4 1(3,4)
    by (subst base64_decode_loop.simps) (simp add: b64_not_pad decode_values updates3 numeral_3_eq_3)
  have "base64_decode_loop base64 n (i + 4) (j + 3) ?out =
      Some (j + 3 + length r, take (j + 3) ?out @ r @ drop (j + 3 + length r) ?out)"
    by (rule 1(1)) (use w4 1(3,4) in \<open>simp_all add: eval_nat_numeral\<close>)
  moreover have "take (j + 3) ?out @ r = take j out @ x # y # z # r" using 1(4) by simp
  moreover have "drop (j + 3 + length r) ?out = drop (j + 3 + length r) out"
    using 1(4) by (simp add: drop_Cons' ac_simps)
  moreover have "j + 3 + length r = j + length (x # y # z # r)" by simp
  ultimately show ?case unfolding step by (metis append.assoc)
next
  case (2 x y)
  note w = window_Cons [OF 2(1) [unfolded b64_text.simps] 2(2)] 
  note w2 = window_Cons [OF w(3) 2(2)]
  note w3 = window_Cons [OF w2(3) 2(2)]
  note w4 = window_Cons [OF w3(3) 2(2)]
  show ?case
    using w w2 w3 w4 2(2,3)
    by (subst base64_decode_loop.simps)
      (simp add: b64_not_pad decode_values updates2 numeral_3_eq_3)
next
  case (3 x)
  note w = window_Cons [OF 3(1) [unfolded b64_text.simps] 3(2)] 
  note w2 = window_Cons [OF w(3) 3(2)]
  note w3 = window_Cons [OF w2(3) 3(2)]
  note w4 = window_Cons [OF w3(3) 3(2)]
  show ?case
    using w w2 w3 w4 3(2,3)
    by (subst base64_decode_loop.simps)
      (simp add: decode_values numeral_3_eq_3 upd_conv_take_nth_drop)
next
  case 4
  then show ?case by (subst base64_decode_loop.simps) auto
qed

lemma length_b64_text: "length (b64_text data) = 4 * ((length data + 2) div 3)"
proof (induction data rule: b64_text.induct)
  case (1 x y z r)
  then show ?case using div_add_self1 [of 3 "length r + 2"] by simp
qed auto

lemma groups_up: "(m + 2) div 3 = m div 3 + (if m mod 3 = 0 then 0 else 1)" for m :: nat
  by (cases "m mod 3 = 0"; presburger)

lemma base64_encode_block:
  assumes "0 < n" and "n = int (length data)" and "4 * ((length data + 2) div 3) + (if length data mod 3 = 0 then 1 else 0) \<le> length out"
  shows "base64_encode (Some data) n (Some out) =
    Some (Some ((b64_text data @ drop (length (b64_text data)) out) [4 * (length data div 3) := 0]))"
proof -
  have "4 * (length data div 3) < length out"
    using assms groups_up [of "length data"] by (auto split: if_splits)
  then show ?thesis
    using assms base64_encode_loop_text [of 0 "length data" data data 0 out]
    by (simp add: base64_encode_def length_b64_text)
qed



lemma base64char_list: "base64char = [
    65, 66, 67, 68, 69, 70, 71, 72, 73, 74, 75, 76, 77, 78, 79, 80, 81, 82, 83, 84, 85, 86, 87, 88, 89, 90,
    97, 98, 99, 100, 101, 102, 103, 104, 105, 106, 107, 108, 109, 110, 111, 112, 113, 114, 115, 116, 117, 118,
    119, 120, 121, 122, 48, 49, 50, 51, 52, 53, 54, 55, 56, 57, 43, 47]"
  by (simp add: base64char_def)


lemma encode_len_nat:
  assumes "m < 2 ^ 29"
  shows "base64_encode_len (int m) = Some (int (4 * ((m + 2) div 3)))"
proof -
  have "int m + (if int m smod 3 \<noteq> 0 then 3 - int m smod 3 else 0) = int (3 * ((m + 2) div 3))"
    using groups_up [of m] div_mult_mod_eq [of m 3]
    by (auto simp: smod_nonneg zmod_int [of m 3, symmetric] simp del: div_mult_mod_eq; presburger)
  then show ?thesis using assms by (simp add: base64_encode_len_def sdiv_nonneg)
qed

lemma text_tail:
  assumes "data \<noteq> []"
  shows "\<exists>p a b. b64_text data = p @ [a, b] \<and> (b = base64_pad \<longleftrightarrow> length data mod 3 \<noteq> 0) \<and>
     (a = base64_pad \<longleftrightarrow> length data mod 3 = 1)"
  using assms
proof (induction data rule: b64_text.induct)
  case (1 x y z r)
  let ?g = "[b64 (drop_bit 2 x), b64 (push_bit 4 x OR drop_bit 4 y)]"
    and ?h = "[b64 (push_bit 2 y OR drop_bit 6 z), b64 z]"
  show ?case
  proof (cases "r = []")
    case True
    then show ?thesis by (intro exI [of _ ?g]) (simp add: b64_not_pad)
  next
    case False
    then obtain p a b where "b64_text r = p @ [a, b]" "b = base64_pad \<longleftrightarrow> length r mod 3 \<noteq> 0"
      "a = base64_pad \<longleftrightarrow> length r mod 3 = 1" using 1 by blast
    then show ?thesis
      using mod_add_self1 [of 3 "length r"] by (intro exI [of _ "?g @ ?h @ p"] exI [of _ a] exI [of _ b]) simp
  qed
qed (auto simp: b64_not_pad)

lemma decode_len_text:
  assumes "data \<noteq> []"
  shows "base64_decode_len (Some (b64_text data)) (int (length (b64_text data))) = Some (int (length data))"
proof -
  obtain p a b where t: "b64_text data = p @ [a, b]" "b = base64_pad \<longleftrightarrow> length data mod 3 \<noteq> 0"
    "a = base64_pad \<longleftrightarrow> length data mod 3 = 1" using text_tail [OF assms] by blast
  have len: "length p + 2 = 4 * ((length data + 2) div 3)" using length_b64_text [of data] t(1) by simp
  have "int (length data) = int (length p + 2) div 4 * 3 - (if b = base64_pad then 1 else 0) - (if a = base64_pad then 1 else 0)"
    unfolding len t(2,3) using groups_up [of "length data"] by (auto; presburger)
  then show ?thesis
    using t by (simp add: base64_decode_len_def sdiv_nonneg nat_add_distrib nth_append Let_def)
qed

text \<open>
  C25. Decoding the base64 text of any nonempty byte string, padded or not, returns its length and writes exactly
  those bytes; \<^const>\<open>base64_decode_len\<close> announces that length in advance. For a multiple of three
  bytes what \<^const>\<open>base64_encode\<close> wrote decodes back to the input.
\<close>

theorem base64_round_trip:
  assumes "data \<noteq> []" and "length data < 2 ^ 29" and "length data \<le> length out"
    and "n = int (length (b64_text data))"
  shows "base64_encode_len (int (length data)) = Some n \<and>
    base64_decode_len (Some (b64_text data)) n = Some (int (length data)) \<and>
    base64_decode (Some (b64_text data)) n (Some out) =
      Some (int (length data), Some (data @ drop (length data) out)) \<and>
    (length data mod 3 = 0 \<and> length (b64_text data) < length tbuf \<longrightarrow>
      (\<exists>t. base64_encode (Some data) (int (length data)) (Some tbuf) = Some (Some t) \<and>
        base64_decode (Some t) n (Some out) = Some (int (length data), Some (data @ drop (length data) out))))"
proof -
  let ?t = "b64_text data" and ?m = "length data"
  have t: "length ?t = 4 * ((?m + 2) div 3)" by (rule length_b64_text)
  have pos: "0 < ?m" using assms(1) by simp
  then have "0 < (?m + 2) div 3" by (simp add: div_greater_zero_iff Suc_le_eq)
  then have n: "0 < n" "nat n = length ?t" using assms(4) t by simp_all
  have len: "base64_encode_len (int ?m) = Some n"
    using assms(2) unfolding assms(4) t by (rule encode_len_nat)
  have dlen: "base64_decode_len (Some ?t) n = Some (int ?m)"
    using assms(1) unfolding assms(4) by (rule decode_len_text)
  have dec: "base64_decode (Some (?t @ r)) n (Some out) = Some (int ?m, Some (data @ drop ?m out))" for r
    using base64_decode_loop_text [of 0 "length ?t" "?t @ r" data 0 out] assms n
    by (simp add: base64_decode_def)
  have "\<exists>t. base64_encode (Some data) (int ?m) (Some tbuf) = Some (Some t) \<and>
        base64_decode (Some t) n (Some out) = Some (int ?m, Some (data @ drop ?m out))"
    if "?m mod 3 = 0 \<and> length ?t < length tbuf"
  proof -
    have "4 * (?m div 3) = length ?t" using that t groups_up [of ?m] by simp
    moreover have "base64_encode (Some data) (int ?m) (Some tbuf) =
        Some (Some ((?t @ drop (length ?t) tbuf) [4 * (?m div 3) := 0]))"
      by (rule base64_encode_block) (use that pos t in \<open>simp_all\<close>)
    ultimately show ?thesis by (simp add: list_update_append dec)
  qed
  then show ?thesis using len dlen dec [of "[]"] by simp
qed


theorem base64_round_trip_witness:
  "\<exists>t. base64_encode (Some [77, 97, 110]) 3 (Some [0, 0, 0, 0, 0]) = Some (Some t) \<and>
     base64_decode (Some t) 4 (Some [1, 2, 3]) = Some (3, Some [77, 97, 110])"
proof -
  have "length (b64_text [77, 97, 110]) = 4" by simp
  then show ?thesis
    using base64_round_trip [of "[77, 97, 110]" "[1, 2, 3]" 4 "[0, 0, 0, 0, 0]"] by (simp del: b64_text.simps)
qed

end
