(* ===== verification/Des.thy ===== *)
theory Des
  imports Prelude "HOL-Library.Monad_Syntax"
begin

unbundle bit_operations_syntax

text \<open>
  \<^verbatim>\<open>src/hash.c\<close>, fourth part: DES in electronic-codebook mode. A bit is a \<^verbatim>\<open>char\<close> holding 0 or 1 and
  a block is an array of 64 of them; the arrays are byte lists. \<^verbatim>\<open>copyRight\<close> is not initialised by
  the code, so its first content is an argument of the block functions.
\<close>

section \<open>Tables\<close>

definition DES_IP_Table :: "nat list" where
  "DES_IP_Table = [
    58, 50, 42, 34, 26, 18, 10, 2, 60, 52, 44, 36, 28, 20, 12, 4,
    62, 54, 46, 38, 30, 22, 14, 6, 64, 56, 48, 40, 32, 24, 16, 8,
    57, 49, 41, 33, 25, 17, 9, 1, 59, 51, 43, 35, 27, 19, 11, 3,
    61, 53, 45, 37, 29, 21, 13, 5, 63, 55, 47, 39, 31, 23, 15, 7]"

definition DES_IP_1_Table :: "nat list" where
  "DES_IP_1_Table = [
    40, 8, 48, 16, 56, 24, 64, 32, 39, 7, 47, 15, 55, 23, 63, 31,
    38, 6, 46, 14, 54, 22, 62, 30, 37, 5, 45, 13, 53, 21, 61, 29,
    36, 4, 44, 12, 52, 20, 60, 28, 35, 3, 43, 11, 51, 19, 59, 27,
    34, 2, 42, 10, 50, 18, 58, 26, 33, 1, 41, 9, 49, 17, 57, 25]"

definition DES_E_Table :: "nat list" where
  "DES_E_Table = [
    32, 1, 2, 3, 4, 5, 4, 5, 6, 7, 8, 9,
    8, 9, 10, 11, 12, 13, 12, 13, 14, 15, 16, 17,
    16, 17, 18, 19, 20, 21, 20, 21, 22, 23, 24, 25,
    24, 25, 26, 27, 28, 29, 28, 29, 30, 31, 32, 1]"

definition DES_P_Table :: "nat list" where
  "DES_P_Table = [
    16, 7, 20, 21, 29, 12, 28, 17, 1, 15, 23, 26, 5, 18, 31, 10,
    2, 8, 24, 14, 32, 27, 3, 9, 19, 13, 30, 6, 22, 11, 4, 25]"

definition DES_S :: "nat list list list" where
  "DES_S = [
    [[14, 4, 13, 1, 2, 15, 11, 8, 3, 10, 6, 12, 5, 9, 0, 7],
     [0, 15, 7, 4, 14, 2, 13, 1, 10, 6, 12, 11, 9, 5, 3, 8],
     [4, 1, 14, 8, 13, 6, 2, 11, 15, 12, 9, 7, 3, 10, 5, 0],
     [15, 12, 8, 2, 4, 9, 1, 7, 5, 11, 3, 14, 10, 0, 6, 13]],
    [[15, 1, 8, 14, 6, 11, 3, 4, 9, 7, 2, 13, 12, 0, 5, 10],
     [3, 13, 4, 7, 15, 2, 8, 14, 12, 0, 1, 10, 6, 9, 11, 5],
     [0, 14, 7, 11, 10, 4, 13, 1, 5, 8, 12, 6, 9, 3, 2, 15],
     [13, 8, 10, 1, 3, 15, 4, 2, 11, 6, 7, 12, 0, 5, 14, 9]],
    [[10, 0, 9, 14, 6, 3, 15, 5, 1, 13, 12, 7, 11, 4, 2, 8],
     [13, 7, 0, 9, 3, 4, 6, 10, 2, 8, 5, 14, 12, 11, 15, 1],
     [13, 6, 4, 9, 8, 15, 3, 0, 11, 1, 2, 12, 5, 10, 14, 7],
     [1, 10, 13, 0, 6, 9, 8, 7, 4, 15, 14, 3, 11, 5, 2, 12]],
    [[7, 13, 14, 3, 0, 6, 9, 10, 1, 2, 8, 5, 11, 12, 4, 15],
     [13, 8, 11, 5, 6, 15, 0, 3, 4, 7, 2, 12, 1, 10, 14, 9],
     [10, 6, 9, 0, 12, 11, 7, 13, 15, 1, 3, 14, 5, 2, 8, 4],
     [3, 15, 0, 6, 10, 1, 13, 8, 9, 4, 5, 11, 12, 7, 2, 14]],
    [[2, 12, 4, 1, 7, 10, 11, 6, 8, 5, 3, 15, 13, 0, 14, 9],
     [14, 11, 2, 12, 4, 7, 13, 1, 5, 0, 15, 10, 3, 9, 8, 6],
     [4, 2, 1, 11, 10, 13, 7, 8, 15, 9, 12, 5, 6, 3, 0, 14],
     [11, 8, 12, 7, 1, 14, 2, 13, 6, 15, 0, 9, 10, 4, 5, 3]],
    [[12, 1, 10, 15, 9, 2, 6, 8, 0, 13, 3, 4, 14, 7, 5, 11],
     [10, 15, 4, 2, 7, 12, 9, 5, 6, 1, 13, 14, 0, 11, 3, 8],
     [9, 14, 15, 5, 2, 8, 12, 3, 7, 0, 4, 10, 1, 13, 11, 6],
     [4, 3, 2, 12, 9, 5, 15, 10, 11, 14, 1, 7, 6, 0, 8, 13]],
    [[4, 11, 2, 14, 15, 0, 8, 13, 3, 12, 9, 7, 5, 10, 6, 1],
     [13, 0, 11, 7, 4, 9, 1, 10, 14, 3, 5, 12, 2, 15, 8, 6],
     [1, 4, 11, 13, 12, 3, 7, 14, 10, 15, 6, 8, 0, 5, 9, 2],
     [6, 11, 13, 8, 1, 4, 10, 7, 9, 5, 0, 15, 14, 2, 3, 12]],
    [[13, 2, 8, 4, 6, 15, 11, 1, 10, 9, 3, 14, 5, 0, 12, 7],
     [1, 15, 13, 8, 10, 3, 7, 4, 12, 5, 6, 11, 0, 14, 9, 2],
     [7, 11, 4, 1, 9, 12, 14, 2, 0, 6, 10, 13, 15, 3, 5, 8],
     [2, 1, 14, 7, 4, 10, 8, 13, 15, 12, 9, 0, 3, 5, 6, 11]]]"

definition DES_PC_1 :: "nat list" where
  "DES_PC_1 = [
    57, 49, 41, 33, 25, 17, 9, 1, 58, 50, 42, 34, 26, 18,
    10, 2, 59, 51, 43, 35, 27, 19, 11, 3, 60, 52, 44, 36,
    63, 55, 47, 39, 31, 23, 15, 7, 62, 54, 46, 38, 30, 22,
    14, 6, 61, 53, 45, 37, 29, 21, 13, 5, 28, 20, 12, 4]"

definition DES_PC_2 :: "nat list" where
  "DES_PC_2 = [
    14, 17, 11, 24, 1, 5, 3, 28, 15, 6, 21, 10,
    23, 19, 12, 4, 26, 8, 16, 7, 27, 20, 13, 2,
    41, 52, 31, 37, 47, 55, 30, 40, 51, 45, 33, 48,
    44, 49, 39, 56, 34, 53, 46, 42, 50, 36, 29, 32]"

definition DES_MOVE_TIMES :: "nat list" where
  "DES_MOVE_TIMES = [
    1, 1, 2, 2, 2, 2, 2, 2, 1, 2, 2, 2, 2, 2, 2, 1]"

section \<open>Bits and bytes\<close>

definition ByteToBit :: "u8 \<Rightarrow> bytes" where
  "ByteToBit ch = map (\<lambda>cnt. signed_drop_bit cnt ch AND 1) [0 ..< 8]"

definition BitToByte :: "bytes \<Rightarrow> u8 \<Rightarrow> u8" where
  "BitToByte bits ch = foldl (\<lambda>c cnt. c OR push_bit cnt (bits ! cnt)) ch [0 ..< 8]"

definition Char8ToBit64 :: "bytes \<Rightarrow> bytes" where
  "Char8ToBit64 ch = concat (map (\<lambda>cnt. ByteToBit (ch ! cnt)) [0 ..< 8])"

definition Bit64ToChar8 :: "bytes \<Rightarrow> bytes" where
  "Bit64ToChar8 bits = map (\<lambda>cnt. BitToByte (drop (8 * cnt) bits) 0) [0 ..< 8]"

section \<open>Key schedule\<close>

definition DES_permute :: "nat list \<Rightarrow> bytes \<Rightarrow> bytes" where
  "DES_permute tab d = map (\<lambda>t. d ! (t - 1)) tab"

definition DES_PC1_Transform :: "bytes \<Rightarrow> bytes" where
  "DES_PC1_Transform key = DES_permute DES_PC_1 key"

definition DES_ROL :: "bytes \<Rightarrow> nat \<Rightarrow> bytes" where
  "DES_ROL d t =
     (let lo = take t d; hi = take t (drop 28 d) in
      take (28 - t) (drop t d) @ lo @ take (28 - t) (drop (28 + t) d) @ hi)"

definition DES_PC2_Transform :: "bytes \<Rightarrow> bytes" where
  "DES_PC2_Transform key = DES_permute DES_PC_2 key"

fun DES_key_rounds :: "bytes \<Rightarrow> nat list \<Rightarrow> bytes list" where
  "DES_key_rounds temp [] = []"
| "DES_key_rounds temp (t # ts) =
     (let temp = DES_ROL temp t in DES_PC2_Transform temp # DES_key_rounds temp ts)"

definition DES_MakeSubKeys :: "bytes \<Rightarrow> bytes list" where
  "DES_MakeSubKeys key = DES_key_rounds (DES_PC1_Transform key) DES_MOVE_TIMES"

section \<open>Rounds\<close>

definition DES_IP_Transform :: "bytes \<Rightarrow> bytes" where
  "DES_IP_Transform d = DES_permute DES_IP_Table d"

definition DES_IP_1_Transform :: "bytes \<Rightarrow> bytes" where
  "DES_IP_1_Transform d = DES_permute DES_IP_1_Table d"

definition DES_E_Transform :: "bytes \<Rightarrow> bytes" where
  "DES_E_Transform d = DES_permute DES_E_Table d @ drop 48 d"

definition DES_P_Transform :: "bytes \<Rightarrow> bytes" where
  "DES_P_Transform d = DES_permute DES_P_Table d @ drop 32 d"

definition DES_XOR :: "bytes \<Rightarrow> bytes \<Rightarrow> nat \<Rightarrow> bytes" where
  "DES_XOR R L count = map2 (XOR) (take count R) (take count L) @ drop count R"

definition DES_SWAP :: "bytes \<Rightarrow> bytes" where
  "DES_SWAP d = take 32 (drop 32 d) @ take 32 d @ drop 64 d"

definition DES_SBOX_step :: "bytes \<Rightarrow> nat \<Rightarrow> bytes" where
  "DES_SBOX_step d cnt =
     (let cur1 = cnt * 6; cur2 = cnt * 4;
          line = unat (d ! cur1) * 2 + unat (d ! (cur1 + 5));
          row = unat (d ! (cur1 + 1)) * 8 + unat (d ! (cur1 + 2)) * 4 + unat (d ! (cur1 + 3)) * 2 + unat (d ! (cur1 + 4));
          out = DES_S ! cnt ! line ! row in
      d[cur2 := of_nat (drop_bit 3 (out AND 8)), cur2 + 1 := of_nat (drop_bit 2 (out AND 4)),
        cur2 + 2 := of_nat (drop_bit 1 (out AND 2)), cur2 + 3 := of_nat (out AND 1)])"

definition DES_SBOX :: "bytes \<Rightarrow> bytes" where
  "DES_SBOX d = foldl DES_SBOX_step d [0 ..< 8]"

definition DES_round :: "bytes list \<Rightarrow> nat \<Rightarrow> bytes \<times> bytes \<Rightarrow> nat \<Rightarrow> bytes \<times> bytes" where
  "DES_round subKeys final st cnt =
     (let (bits, copyRight) = st;
          copyRight = take 32 (drop 32 bits) @ drop 32 copyRight;
          copyRight = DES_E_Transform copyRight;
          copyRight = DES_XOR copyRight (subKeys ! cnt) 48;
          copyRight = DES_SBOX copyRight;
          copyRight = DES_P_Transform copyRight;
          bits = DES_XOR bits copyRight 32
      in (if cnt \<noteq> final then DES_SWAP bits else bits, copyRight))"

definition des_encryptBlock :: "bytes \<Rightarrow> bytes \<Rightarrow> bytes list \<Rightarrow> bytes" where
  "des_encryptBlock junk plainBlock subKeys =
     (let plainBits = DES_IP_Transform (Char8ToBit64 plainBlock);
          (plainBits, copyRight) = foldl (DES_round subKeys 15) (plainBits, junk) [0 ..< 16]
      in Bit64ToChar8 (DES_IP_1_Transform plainBits))"

definition des_decryptBlock :: "bytes \<Rightarrow> bytes \<Rightarrow> bytes list \<Rightarrow> bytes" where
  "des_decryptBlock junk cipherBlock subKeys =
     (let cipherBits = DES_IP_Transform (Char8ToBit64 cipherBlock);
          (cipherBits, copyRight) = foldl (DES_round subKeys 0) (cipherBits, junk) (rev [0 ..< 16])
      in Bit64ToChar8 (DES_IP_1_Transform cipherBits))"

section \<open>Messages\<close>

definition DEFAULT_DES_KEY :: bytes where
  "DEFAULT_DES_KEY = map (of_nat \<circ> of_char) ''3uB#*tTy''"

function des_blocks :: "(bytes \<Rightarrow> bytes) \<Rightarrow> bytes \<Rightarrow> nat \<Rightarrow> nat \<Rightarrow> bytes \<Rightarrow> (nat \<times> bytes) option" where
  "des_blocks block input offset left output =
     (if left < 8 then Some (left, output)
      else do {
        b \<leftarrow> mem_read input offset 8;
        output \<leftarrow> mem_write output offset (block b);
        des_blocks block input (offset + 8) (left - 8) output
      })"
  by pat_completeness auto
termination by (relation "measure (\<lambda>(block, input, offset, left, output). left)") auto

declare des_blocks.simps [simp del]

definition des_message ::
    "(bytes \<Rightarrow> bytes list \<Rightarrow> bytes) \<Rightarrow> bytes option \<Rightarrow> u64 \<Rightarrow> bytes option \<Rightarrow> bytes option \<Rightarrow> (int \<times> bytes option) option" where
  "des_message block input cb key output =
     (case (input, output) of
        (Some inp, Some out) \<Rightarrow>
          if cb = 0 \<or> cb mod 8 \<noteq> 0 then Some (posix__makeerror EINVAL, output)
          else do {
            keyBlock \<leftarrow> mem_read (case key of None \<Rightarrow> DEFAULT_DES_KEY | Some k \<Rightarrow> k) 0 8;
            let subKeys = DES_MakeSubKeys (Char8ToBit64 keyBlock);
            (left, out) \<leftarrow> des_blocks (\<lambda>b. block b subKeys) inp 0 (unat cb) out;
            Some (sint (ucast (cb - of_nat left) :: u32), Some out)
          }
      | _ \<Rightarrow> Some (posix__makeerror EINVAL, output))"

definition des_encrypt :: "bytes \<Rightarrow> bytes option \<Rightarrow> u64 \<Rightarrow> bytes option \<Rightarrow> bytes option \<Rightarrow> (int \<times> bytes option) option" where
  "des_encrypt junk = des_message (des_encryptBlock junk)"

definition des_decrypt :: "bytes \<Rightarrow> bytes option \<Rightarrow> u64 \<Rightarrow> bytes option \<Rightarrow> bytes option \<Rightarrow> (int \<times> bytes option) option" where
  "des_decrypt junk = des_message (des_decryptBlock junk)"

section \<open>Feistel networks\<close>

text \<open>
  A network of rounds that take \<^verbatim>\<open>(L, R)\<close> to \<^verbatim>\<open>(R, L xor f k R)\<close>, whose last exchange is left out is undone by the same
  network with the keys in reverse order, whatever \<^verbatim>\<open>f\<close> is.
\<close>

locale feistel =
  fixes plus :: "'b \<Rightarrow> 'b \<Rightarrow> 'b" and f :: "'k \<Rightarrow> 'b \<Rightarrow> 'b" and half :: "'b \<Rightarrow> bool"
  assumes half_f: "half r \<Longrightarrow> half (f k r)"
    and half_plus: "half l \<Longrightarrow> half r \<Longrightarrow> half (plus l r)"
    and cancel: "half l \<Longrightarrow> half r \<Longrightarrow> plus (plus l r) r = l"
begin

fun step :: "'b \<times> 'b \<Rightarrow> 'k \<Rightarrow> 'b \<times> 'b" where
  "step (l, r) k = (r, plus l (f k r))"

definition halves :: "'b \<times> 'b \<Rightarrow> bool" where
  "halves s = (half (fst s) \<and> half (snd s))"

definition network :: "'k list \<Rightarrow> 'b \<times> 'b \<Rightarrow> 'b \<times> 'b" where
  "network ks s = prod.swap (foldl step s ks)"

lemma halves_step: "halves s \<Longrightarrow> halves (step s k)"
  by (cases s) (simp add: halves_def half_f half_plus)

lemma halves_foldl: "halves s \<Longrightarrow> halves (foldl step s ks)"
  by (induction ks arbitrary: s) (simp_all add: halves_step del: split_paired_All)

lemma halves_network: "halves s \<Longrightarrow> halves (network ks s)"
  using halves_foldl [of s ks] by (simp add: network_def halves_def)

lemma step_back: "halves s \<Longrightarrow> step (prod.swap (step s k)) k = prod.swap s"
  by (cases s) (simp add: halves_def half_f cancel)

lemma network_inverse: "halves s \<Longrightarrow> network (rev ks) (network ks s) = s"
proof (induction ks arbitrary: s rule: rev_induct)
  case Nil
  then show ?case by (simp add: network_def)
next
  case (snoc k ks)
  have "step (prod.swap (step (foldl step s ks) k)) k = network ks s"
    using step_back [OF halves_foldl [OF snoc.prems]] by (simp add: network_def)
  then show ?case using snoc by (simp add: network_def)
qed

end

section \<open>The tables and the half-block function\<close>

definition bits_ok :: "nat \<Rightarrow> bytes \<Rightarrow> bool" where
  "bits_ok n d \<longleftrightarrow> length d = n \<and> set d \<subseteq> {0, 1}"

lemma permute_permute: "\<forall>t \<in> set S. t - 1 < length T \<Longrightarrow> map (\<lambda>t. T ! (t - 1) - 1) S = [0 ..< n] \<Longrightarrow> length d = n \<Longrightarrow>
    DES_permute S (DES_permute T d) = d"
proof -
  assume a: "\<forall>t \<in> set S. t - 1 < length T" "map (\<lambda>t. T ! (t - 1) - 1) S = [0 ..< n]" "length d = n"
  have "DES_permute S (DES_permute T d) = map (\<lambda>t. d ! (T ! (t - 1) - 1)) S"
    using a(1) by (simp add: DES_permute_def)
  also have "\<dots> = map ((!) d) (map (\<lambda>t. T ! (t - 1) - 1) S)" by simp
  also have "\<dots> = d" unfolding a(2) using map_nth [of d] a(3) by simp
  finally show ?thesis .
qed

lemma bits_ok_permute: "\<forall>t \<in> set T. t - 1 < n \<Longrightarrow> bits_ok n d \<Longrightarrow> length T = m \<Longrightarrow> bits_ok m (DES_permute T d)"
  unfolding bits_ok_def DES_permute_def by (metis (no_types, lifting) image_subsetI length_map list.set_map nth_mem subsetD)

lemma IP_inverse: "bits_ok 64 d \<Longrightarrow> DES_IP_1_Transform (DES_IP_Transform d) = d"
  unfolding DES_IP_1_Transform_def DES_IP_Transform_def
  by (rule permute_permute [of _ _ 64]) (simp_all add: DES_IP_Table_def DES_IP_1_Table_def upt_rec bits_ok_def)

lemma IP_1_inverse: "bits_ok 64 d \<Longrightarrow> DES_IP_Transform (DES_IP_1_Transform d) = d"
  unfolding DES_IP_1_Transform_def DES_IP_Transform_def
  by (rule permute_permute [of _ _ 64]) (simp_all add: DES_IP_Table_def DES_IP_1_Table_def upt_rec bits_ok_def)

lemma IP_ok: "bits_ok 64 d \<Longrightarrow> bits_ok 64 (DES_IP_Transform d)" "bits_ok 64 d \<Longrightarrow> bits_ok 64 (DES_IP_1_Transform d)"
  unfolding DES_IP_1_Transform_def DES_IP_Transform_def
  by (rule bits_ok_permute [of _ 64]; simp add: DES_IP_Table_def DES_IP_1_Table_def)+

lemma set_updates_bits: "set d \<subseteq> {0, 1} \<Longrightarrow> a \<in> {0, 1} \<Longrightarrow> set (d[i := a]) \<subseteq> {0, 1}" for d :: bytes
  using set_update_subset_insert [of d i a] by auto

lemma bit_of_and: "of_nat (drop_bit 3 (n AND 8)) \<in> {0, 1 :: u8}" "of_nat (drop_bit 2 (n AND 4)) \<in> {0, 1 :: u8}"
  "of_nat (drop_bit 1 (n AND 2)) \<in> {0, 1 :: u8}" "of_nat (n AND 1) \<in> {0, 1 :: u8}" for n :: nat
proof -
  have pow: "n AND 2 ^ k = (if bit n k then 2 ^ k else 0)" for k
    by (rule bit_eqI) (auto simp: bit_simps)
  from pow [of 3] pow [of 2] pow [of 1] pow [of 0]
  show "of_nat (drop_bit 3 (n AND 8)) \<in> {0, 1 :: u8}" "of_nat (drop_bit 2 (n AND 4)) \<in> {0, 1 :: u8}"
    "of_nat (drop_bit 1 (n AND 2)) \<in> {0, 1 :: u8}" "of_nat (n AND 1) \<in> {0, 1 :: u8}"
    by simp_all
qed

lemma SBOX_step_ok: "bits_ok n d \<Longrightarrow> bits_ok n (DES_SBOX_step d cnt)"
  unfolding bits_ok_def DES_SBOX_step_def Let_def length_list_update
  by (intro conjI set_updates_bits bit_of_and) blast+

lemma SBOX_ok: "bits_ok n d \<Longrightarrow> bits_ok n (DES_SBOX d)"
proof -
  have "bits_ok n d \<Longrightarrow> bits_ok n (foldl DES_SBOX_step d xs)" for xs
    by (induction xs arbitrary: d) (auto simp: SBOX_step_ok)
  then show "bits_ok n d \<Longrightarrow> ?thesis" by (simp add: DES_SBOX_def)
qed

lemma XOR_ok: "bits_ok n d \<Longrightarrow> bits_ok m e \<Longrightarrow> c \<le> n \<Longrightarrow> c \<le> m \<Longrightarrow> bits_ok n (DES_XOR d e c)"
proof -
  assume a: "bits_ok n d" "bits_ok m e" "c \<le> n" "c \<le> m"
  have "a XOR b \<in> {0, 1}" if "(a, b) \<in> set (zip (take c d) (take c e))" for a b
  proof -
    have "a \<in> {0, 1}" "b \<in> {0, 1}"
      using set_zip_leftD [OF that] set_zip_rightD [OF that] a(1,2) by (auto simp: bits_ok_def dest: in_set_takeD)
    then show ?thesis by auto
  qed
  then have "set (map2 (XOR) (take c d) (take c e)) \<subseteq> {0, 1}" by auto
  moreover have "set (drop c d) \<subseteq> {0, 1}" using a(1) by (auto simp: bits_ok_def dest: in_set_dropD)
  ultimately show ?thesis using a by (simp add: bits_ok_def DES_XOR_def)
qed

text \<open>The S-box indices computed from bits stay inside the tables.\<close>

lemma SBOX_index:
  assumes "bits_ok 48 d" and "cnt < 8"
  shows "cnt < length DES_S"
    and "unat (d ! (cnt * 6)) * 2 + unat (d ! (cnt * 6 + 5)) < length (DES_S ! cnt)"
    and "\<forall>r \<in> set (DES_S ! cnt). unat (d ! (cnt * 6 + 1)) * 8 + unat (d ! (cnt * 6 + 2)) * 4 +
      unat (d ! (cnt * 6 + 3)) * 2 + unat (d ! (cnt * 6 + 4)) < length r"
proof -
  have bit: "unat (d ! i) \<le> 1" if "i < 48" for i
  proof -
    have "d ! i \<in> {0, 1}" using assms(1) that by (metis bits_ok_def nth_mem subsetD)
    then show ?thesis by auto
  qed
  have shape: "length DES_S = 8" "\<forall>t \<in> set DES_S. length t = 4 \<and> (\<forall>r \<in> set t. length r = 16)"
    by (simp_all add: DES_S_def)
  then have row: "length (DES_S ! cnt) = 4" "\<forall>r \<in> set (DES_S ! cnt). length r = 16"
    using assms(2) nth_mem [of cnt DES_S] by auto
  show "cnt < length DES_S" using shape assms(2) by simp
  show "unat (d ! (cnt * 6)) * 2 + unat (d ! (cnt * 6 + 5)) < length (DES_S ! cnt)"
    using bit [of "cnt * 6"] bit [of "cnt * 6 + 5"] assms(2) row(1) by linarith
  have "unat (d ! (cnt * 6 + 1)) * 8 + unat (d ! (cnt * 6 + 2)) * 4 +
      unat (d ! (cnt * 6 + 3)) * 2 + unat (d ! (cnt * 6 + 4)) < 16"
    using bit [of "cnt * 6 + 1"] bit [of "cnt * 6 + 2"] bit [of "cnt * 6 + 3"] bit [of "cnt * 6 + 4"] assms(2)
    by linarith
  then show "\<forall>r \<in> set (DES_S ! cnt). unat (d ! (cnt * 6 + 1)) * 8 + unat (d ! (cnt * 6 + 2)) * 4 +
      unat (d ! (cnt * 6 + 3)) * 2 + unat (d ! (cnt * 6 + 4)) < length r"
    using row(2) by simp
qed

definition key_ok :: "bytes \<Rightarrow> bytes" where
  "key_ok k = (if bits_ok 48 k then k else replicate 48 0)"

definition DES_f :: "bytes \<Rightarrow> bytes \<Rightarrow> bytes" where
  "DES_f k r = DES_permute DES_P_Table (DES_SBOX (DES_XOR (DES_permute DES_E_Table r) (key_ok k) 48))"

lemma DES_f_ok: "bits_ok 32 r \<Longrightarrow> bits_ok 32 (DES_f k r)"
proof -
  assume r: "bits_ok 32 r"
  have k: "bits_ok 48 (key_ok k)" by (auto simp: key_ok_def bits_ok_def)
  have "bits_ok 48 (DES_permute DES_E_Table r)"
    by (rule bits_ok_permute [OF _ r]) (simp_all add: DES_E_Table_def)
  then have "bits_ok 48 (DES_SBOX (DES_XOR (DES_permute DES_E_Table r) (key_ok k) 48))"
    using k by (intro SBOX_ok XOR_ok [of 48 _ 48]) simp_all
  then show ?thesis
    unfolding DES_f_def by (rule bits_ok_permute [rotated]) (simp_all add: DES_P_Table_def)
qed

definition xor_bits :: "bytes \<Rightarrow> bytes \<Rightarrow> bytes" where
  "xor_bits l r = map2 (XOR) l r"

interpretation des: feistel xor_bits DES_f "bits_ok 32"
proof unfold_locales
  show "bits_ok 32 r \<Longrightarrow> bits_ok 32 (DES_f k r)" for k r by (rule DES_f_ok)
  show "bits_ok 32 l \<Longrightarrow> bits_ok 32 r \<Longrightarrow> bits_ok 32 (xor_bits l r)" for l r
    using XOR_ok [of 32 l 32 r 32] by (simp add: DES_XOR_def xor_bits_def bits_ok_def)
  show "bits_ok 32 l \<Longrightarrow> bits_ok 32 r \<Longrightarrow> xor_bits (xor_bits l r) r = l" for l r
    by (intro nth_equalityI) (auto simp: bits_ok_def xor_bits_def xor.assoc)
qed

section \<open>The block functions are the network\<close>

lemma permute_append: "\<forall>t \<in> set T. t - 1 < length r \<Longrightarrow> DES_permute T (r @ j) = DES_permute T r"
  by (simp add: DES_permute_def nth_append)

definition keys_ok :: "bytes list \<Rightarrow> bool" where
  "keys_ok ks \<longleftrightarrow> length ks = 16 \<and> (\<forall>k \<in> set ks. bits_ok 48 k)"

lemma DES_round_network:
  assumes "keys_ok ks" and "cnt < 16" and "length j = 48" and "bits_ok 32 l" and "bits_ok 32 r"
  obtains j' where "length j' = 48"
    and "DES_round ks final (l @ r, j) cnt =
      (if cnt \<noteq> final then r @ xor_bits l (DES_f (ks ! cnt) r) else xor_bits l (DES_f (ks ! cnt) r) @ r, j')"
proof -
  let ?k = "ks ! cnt"
  have k: "bits_ok 48 ?k" "key_ok ?k = ?k" using assms(1,2) by (auto simp: keys_ok_def key_ok_def)
  have len: "length l = 32" "length r = 32" using assms(4,5) by (simp_all add: bits_ok_def)
  have E: "DES_E_Transform (take 32 (drop 32 (l @ r)) @ drop 32 j) = DES_permute DES_E_Table r"
  proof -
    have "\<forall>t \<in> set DES_E_Table. t - 1 < length r" unfolding len by (simp add: DES_E_Table_def)
    then have "DES_permute DES_E_Table (r @ drop 32 j) = DES_permute DES_E_Table r" by (rule permute_append)
    then show ?thesis using len assms(3) by (simp add: DES_E_Transform_def)
  qed
  let ?d = "DES_SBOX (DES_XOR (DES_permute DES_E_Table r) ?k 48)"
  have e: "bits_ok 48 (DES_permute DES_E_Table r)"
    by (rule bits_ok_permute [OF _ assms(5)]) (simp_all add: DES_E_Table_def)
  have d: "bits_ok 48 ?d" using k(1) e by (intro SBOX_ok XOR_ok [of 48 _ 48]) simp_all
  have P: "DES_P_Transform ?d = DES_f ?k r @ drop 32 ?d" unfolding DES_P_Transform_def DES_f_def k(2) ..
  have f: "bits_ok 32 (DES_f ?k r)" by (rule DES_f_ok [OF assms(5)])
  have X: "DES_XOR (l @ r) (DES_f ?k r @ drop 32 ?d) 32 = xor_bits l (DES_f ?k r) @ r"
    using len f by (simp add: DES_XOR_def xor_bits_def bits_ok_def)
  have x: "length (xor_bits l (DES_f ?k r)) = 32" using len f by (simp add: xor_bits_def bits_ok_def)
  have S: "DES_SWAP (xor_bits l (DES_f ?k r) @ r) = r @ xor_bits l (DES_f ?k r)"
    using len x by (simp add: DES_SWAP_def)
  show ?thesis
  proof (rule that)
    show "length (DES_f ?k r @ drop 32 ?d) = 48" using f d by (simp add: bits_ok_def)
    show "DES_round ks final (l @ r, j) cnt =
      (if cnt \<noteq> final then r @ xor_bits l (DES_f ?k r) else xor_bits l (DES_f ?k r) @ r, DES_f ?k r @ drop 32 ?d)"
      unfolding DES_round_def Let_def prod.case E P X S ..
  qed
qed

lemma DES_rounds_network:
  assumes "keys_ok ks" and "set cs \<subseteq> {..< 16}" and "final \<notin> set cs"
    and "length j = 48" and "des.halves (l, r)" and "foldl des.step (l, r) (map ((!) ks) cs) = (l', r')"
  shows "\<exists>j'. length j' = 48 \<and> foldl (DES_round ks final) (l @ r, j) cs = (l' @ r', j')"
  using assms(2-)
proof (induction cs arbitrary: l r j)
  case Nil
  then show ?case by simp
next
  case (Cons c cs)
  have h: "bits_ok 32 l" "bits_ok 32 r" using Cons.prems by (simp_all add: des.halves_def)
  obtain j1 where j1: "length j1 = 48"
    "DES_round ks final (l @ r, j) c = (r @ xor_bits l (DES_f (ks ! c) r), j1)"
    using DES_round_network [OF assms(1) _ Cons.prems(3) h, of c final] Cons.prems(1,2) by auto
  have "des.halves (r, xor_bits l (DES_f (ks ! c) r))"
    using des.halves_step [OF Cons.prems(4), of "ks ! c"] by simp
  then show ?case using Cons.IH [OF _ _ j1(1)] Cons.prems j1(2) by simp
qed

lemma DES_all_rounds:
  assumes "keys_ok ks" and "set (cs @ [final]) \<subseteq> {..< 16}" and "distinct (cs @ [final])"
    and "length j = 48" and "des.halves (l, r)" and "des.network (map ((!) ks) (cs @ [final])) (l, r) = (l', r')"
  shows "\<exists>j'. foldl (DES_round ks final) (l @ r, j) (cs @ [final]) = (l' @ r', j')"
proof -
  obtain a b where ab: "foldl des.step (l, r) (map ((!) ks) cs) = (a, b)" by fastforce
  obtain j1 where j1: "length j1 = 48" "foldl (DES_round ks final) (l @ r, j) cs = (a @ b, j1)"
    using DES_rounds_network [OF assms(1) _ _ assms(4,5) ab] assms(2,3) by auto
  have h: "bits_ok 32 a" "bits_ok 32 b"
    using des.halves_foldl [OF assms(5), of "map ((!) ks) cs"] ab by (simp_all add: des.halves_def)
  obtain j2 where "DES_round ks final (a @ b, j1) final = (xor_bits a (DES_f (ks ! final) b) @ b, j2)"
    using DES_round_network [OF assms(1) _ j1(1) h, of final final] assms(2) by auto
  then show ?thesis using assms(6) ab j1(2) by (auto simp: des.network_def)
qed

lemma bits_split: "bits_ok 64 d \<Longrightarrow> \<exists>l r. d = l @ r \<and> des.halves (l, r)"
  by (rule exI [of _ "take 32 d"], rule exI [of _ "drop 32 d"])
    (auto simp: bits_ok_def des.halves_def dest: in_set_takeD in_set_dropD)

lemma halves_join: "des.halves (l, r) \<Longrightarrow> bits_ok 64 (l @ r)"
  by (simp add: bits_ok_def des.halves_def)

lemma encrypt_rounds:
  assumes "keys_ok ks" and "length j = 48" and "des.halves (l, r)" and "des.network ks (l, r) = (l', r')"
  shows "\<exists>j'. foldl (DES_round ks 15) (l @ r, j) [0 ..< 16] = (l' @ r', j')"
proof -
  have u: "[0 ..< 16] = [0 ..< 15] @ [15 :: nat]" by (simp add: upt_rec)
  have "map ((!) ks) [0 ..< 16] = ks" using assms(1) map_nth [of ks] by (simp add: keys_ok_def)
  then show ?thesis
    using DES_all_rounds [OF assms(1) _ _ assms(2,3), of "[0 ..< 15]" 15] assms(4) unfolding u [symmetric] by (auto simp: subset_iff)
qed

lemma decrypt_rounds:
  assumes "keys_ok ks" and "length j = 48" and "des.halves (l, r)" and "des.network (rev ks) (l, r) = (l', r')"
  shows "\<exists>j'. foldl (DES_round ks 0) (l @ r, j) (rev [0 ..< 16]) = (l' @ r', j')"
proof -
  have u: "rev [0 ..< 16] = rev [1 ..< 16] @ [0 :: nat]" by (simp add: upt_rec)
  have "map ((!) ks) (rev [0 ..< 16]) = rev ks" using assms(1) map_nth [of ks] by (simp add: keys_ok_def rev_map [symmetric])
  then show ?thesis
    using DES_all_rounds [OF assms(1) _ _ assms(2,3), of "rev [1 ..< 16]" 0] assms(4) unfolding u [symmetric] by (auto simp: subset_iff)
qed

section \<open>Bits, bytes and blocks\<close>

lemma ByteToBit_nth: "cnt < 8 \<Longrightarrow> ByteToBit ch ! cnt = of_bool (bit ch cnt)"
  by (rule bit_word_eqI) (auto simp: ByteToBit_def bit_simps)

lemma ByteToBit_ok: "bits_ok 8 (ByteToBit ch)"
proof -
  have "length (ByteToBit ch) = 8" by (simp add: ByteToBit_def)
  moreover have "ByteToBit ch ! i \<in> {0, 1}" if "i < 8" for i using ByteToBit_nth [OF that] by simp
  ultimately show ?thesis by (auto simp: bits_ok_def in_set_conv_nth subset_iff)
qed

lemma bit_BitToByte:
  assumes "\<And>i. i < 8 \<Longrightarrow> bits ! i = of_bool (p i)"
  shows "bit (BitToByte bits 0) i \<longleftrightarrow> i < 8 \<and> p i"
proof -
  have "n \<le> 8 \<Longrightarrow> bit (foldl (\<lambda>c cnt. c OR push_bit cnt (bits ! cnt)) 0 [0 ..< n]) i \<longleftrightarrow> i < n \<and> p i" for n
    by (induction n) (auto simp: bit_simps assms less_Suc_eq)
  then show ?thesis by (simp add: BitToByte_def)
qed

lemma BitToByte_ByteToBit:
  assumes "take 8 bits = ByteToBit ch"
  shows "BitToByte bits 0 = ch"
proof -
  have "bits ! i = of_bool (bit ch i)" if "i < 8" for i
    using ByteToBit_nth [OF that, of ch] assms that by (metis nth_take)
  then show ?thesis by (intro bit_word_eqI) (simp add: bit_BitToByte)
qed

lemma ByteToBit_BitToByte:
  assumes "bits_ok 8 (take 8 bits)"
  shows "ByteToBit (BitToByte bits 0) = take 8 bits"
proof (rule nth_equalityI)
  have len: "8 \<le> length bits" using assms by (auto simp: bits_ok_def min_def split: if_splits)
  have b: "bits ! i = of_bool (bits ! i = 1)" if "i < 8" for i
  proof -
    have "take 8 bits ! i \<in> set (take 8 bits)" using len that by (intro nth_mem) simp
    then have "take 8 bits ! i \<in> {0, 1}" using assms unfolding bits_ok_def by blast
    then show ?thesis using that by auto
  qed
  show "length (ByteToBit (BitToByte bits 0)) = length (take 8 bits)" using len by (simp add: ByteToBit_def)
  fix i assume "i < length (ByteToBit (BitToByte bits 0))"
  then have "i < 8" by (simp add: ByteToBit_def)
  then show "ByteToBit (BitToByte bits 0) ! i = take 8 bits ! i"
    using bit_BitToByte [of bits "\<lambda>i. bits ! i = 1", OF b] b [of i] by (simp add: ByteToBit_nth)
qed

lemma upt8: "[0 ..< 8] = [0, 1, 2, 3, 4, 5, 6, 7 :: nat]"
  by (simp add: upt_rec)

lemma Char8ToBit64_ok: "bits_ok 64 (Char8ToBit64 ch)"
  using ByteToBit_ok unfolding Char8ToBit64_def bits_ok_def by (auto simp: upt8)

lemma list8: "length ch = 8 \<Longrightarrow> ch = [ch ! 0, ch ! 1, ch ! 2, ch ! 3, ch ! 4, ch ! 5, ch ! 6, ch ! 7]"
  using map_nth [of ch] by (simp add: upt8)

lemma length_ByteToBit: "length (ByteToBit ch) = 8"
  by (simp add: ByteToBit_def)

lemma Bit64_Char8: "length ch = 8 \<Longrightarrow> Bit64ToChar8 (Char8ToBit64 ch) = ch"
proof -
  assume l: "length ch = 8"
  have "take 8 (drop (8 * c) (Char8ToBit64 ch)) = ByteToBit (ch ! c)" if "c < 8" for c
  proof -
    have "c \<in> {0, 1, 2, 3, 4, 5, 6, 7}" using that by auto
    then show ?thesis by (auto simp: Char8ToBit64_def upt8 length_ByteToBit)
  qed
  then have "Bit64ToChar8 (Char8ToBit64 ch) = map ((!) ch) [0 ..< 8]"
    by (simp add: Bit64ToChar8_def BitToByte_ByteToBit)
  then show ?thesis using l map_nth [of ch] by simp
qed

lemma concat_chunks: "concat (map (\<lambda>c. take 8 (drop (8 * c) xs)) [0 ..< n]) = take (8 * n) xs"
  by (induction n) (simp_all add: take_add [symmetric] add.commute)

lemma bits_ok_chunk: "bits_ok n d \<Longrightarrow> i + m \<le> n \<Longrightarrow> bits_ok m (take m (drop i d))"
  by (auto simp: bits_ok_def dest: in_set_takeD in_set_dropD)

lemma Char8_Bit64:
  assumes "bits_ok 64 bits"
  shows "Char8ToBit64 (Bit64ToChar8 bits) = bits"
proof -
  have "ByteToBit (BitToByte (drop (8 * c) bits) 0) = take 8 (drop (8 * c) bits)" if "c < 8" for c
    using bits_ok_chunk [OF assms, of "8 * c" 8] that by (intro ByteToBit_BitToByte) simp
  then have "Char8ToBit64 (Bit64ToChar8 bits) = concat (map (\<lambda>c. take 8 (drop (8 * c) bits)) [0 ..< 8])"
    unfolding Char8ToBit64_def Bit64ToChar8_def by (intro arg_cong [of _ _ concat] map_cong refl) simp
  then show ?thesis using assms by (simp add: concat_chunks bits_ok_def)
qed

lemma length_Bit64ToChar8: "length (Bit64ToChar8 bits) = 8"
  by (simp add: Bit64ToChar8_def)

lemma ROL_ok: "bits_ok 56 d \<Longrightarrow> t \<le> 28 \<Longrightarrow> bits_ok 56 (DES_ROL d t)"
  by (auto simp: bits_ok_def DES_ROL_def Let_def dest: in_set_takeD in_set_dropD)

lemma key_rounds_ok: "bits_ok 56 d \<Longrightarrow> \<forall>t \<in> set ts. t \<le> 28 \<Longrightarrow>
    length (DES_key_rounds d ts) = length ts \<and> (\<forall>k \<in> set (DES_key_rounds d ts). bits_ok 48 k)"
proof (induction ts arbitrary: d)
  case (Cons t ts)
  have r: "bits_ok 56 (DES_ROL d t)" using Cons.prems by (intro ROL_ok) auto
  have "bits_ok 48 (DES_PC2_Transform (DES_ROL d t))"
    unfolding DES_PC2_Transform_def by (rule bits_ok_permute [OF _ r]) (simp_all add: DES_PC_2_def)
  then show ?case using Cons.IH [OF r] Cons.prems by (simp add: Let_def)
qed simp

lemma subkeys_ok: "keys_ok (DES_MakeSubKeys (Char8ToBit64 kb))"
proof -
  have "bits_ok 56 (DES_PC1_Transform (Char8ToBit64 kb))"
    unfolding DES_PC1_Transform_def by (rule bits_ok_permute [OF _ Char8ToBit64_ok]) (simp_all add: DES_PC_1_def)
  from key_rounds_ok [OF this, of DES_MOVE_TIMES] show ?thesis
    by (simp add: DES_MakeSubKeys_def keys_ok_def DES_MOVE_TIMES_def del: DES_key_rounds.simps)
qed

lemma encryptBlock_network:
  assumes "keys_ok ks" and "length j = 48"
  obtains l r where "DES_IP_Transform (Char8ToBit64 b) = l @ r" and "des.halves (l, r)"
    and "\<And>l' r'. des.network ks (l, r) = (l', r') \<Longrightarrow>
      des_encryptBlock j b ks = Bit64ToChar8 (DES_IP_1_Transform (l' @ r'))"
    and "\<And>l' r'. des.network (rev ks) (l, r) = (l', r') \<Longrightarrow>
      des_decryptBlock j b ks = Bit64ToChar8 (DES_IP_1_Transform (l' @ r'))"
proof -
  obtain l r where lr: "DES_IP_Transform (Char8ToBit64 b) = l @ r" "des.halves (l, r)"
    using bits_split [OF IP_ok(1) [OF Char8ToBit64_ok [of b]]] by blast
  show thesis
  proof (rule that [OF lr])
    fix l' r'
    show "des.network ks (l, r) = (l', r') \<Longrightarrow> des_encryptBlock j b ks = Bit64ToChar8 (DES_IP_1_Transform (l' @ r'))"
      using encrypt_rounds [OF assms lr(2), of l' r'] by (auto simp: des_encryptBlock_def lr(1) Let_def)
    show "des.network (rev ks) (l, r) = (l', r') \<Longrightarrow> des_decryptBlock j b ks = Bit64ToChar8 (DES_IP_1_Transform (l' @ r'))"
      using decrypt_rounds [OF assms lr(2), of l' r'] by (auto simp: des_decryptBlock_def lr(1) Let_def)
  qed
qed

lemma block_inverse:
  assumes "keys_ok ks" and "length j = 48" and "length j' = 48" and "length b = 8"
  shows "des_decryptBlock j' (des_encryptBlock j b ks) ks = b"
    and "des_encryptBlock j' (des_decryptBlock j b ks) ks = b"
proof -
  obtain l r where lr: "DES_IP_Transform (Char8ToBit64 b) = l @ r" "des.halves (l, r)"
    "\<And>l' r'. des.network ks (l, r) = (l', r') \<Longrightarrow> des_encryptBlock j b ks = Bit64ToChar8 (DES_IP_1_Transform (l' @ r'))"
    "\<And>l' r'. des.network (rev ks) (l, r) = (l', r') \<Longrightarrow> des_decryptBlock j b ks = Bit64ToChar8 (DES_IP_1_Transform (l' @ r'))"
    using encryptBlock_network [OF assms(1,2)] by metis
  have home: "Bit64ToChar8 (DES_IP_1_Transform (l @ r)) = b"
    using IP_inverse [OF Char8ToBit64_ok [of b]] lr(1) Bit64_Char8 [OF assms(4)] by simp
  have mid: "x = l' \<and> y = r'"
    if "DES_IP_Transform (Char8ToBit64 (Bit64ToChar8 (DES_IP_1_Transform (l' @ r')))) = x @ y"
      and "des.halves (l', r')" and "des.halves (x, y)" for l' r' x y
    using that IP_1_inverse [OF halves_join [OF that(2)]] Char8_Bit64 [OF IP_ok(2) [OF halves_join [OF that(2)]]]
    by (auto simp: des.halves_def bits_ok_def)
  show "des_decryptBlock j' (des_encryptBlock j b ks) ks = b"
  proof -
    obtain l' r' where n: "des.network ks (l, r) = (l', r')" by fastforce
    let ?c = "des_encryptBlock j b ks"
    obtain x y where xy: "DES_IP_Transform (Char8ToBit64 ?c) = x @ y" "des.halves (x, y)"
      "\<And>l' r'. des.network (rev ks) (x, y) = (l', r') \<Longrightarrow> des_decryptBlock j' ?c ks = Bit64ToChar8 (DES_IP_1_Transform (l' @ r'))"
      using encryptBlock_network [OF assms(1,3), of ?c] by metis
    have "x = l' \<and> y = r'"
      using mid [of l' r' x y] xy(1,2) lr(3) [OF n] des.halves_network [OF lr(2), of ks] n by simp
    then show ?thesis using xy(3) des.network_inverse [OF lr(2), of ks] n home by simp
  qed
  show "des_encryptBlock j' (des_decryptBlock j b ks) ks = b"
  proof -
    obtain l' r' where n: "des.network (rev ks) (l, r) = (l', r')" by fastforce
    let ?c = "des_decryptBlock j b ks"
    obtain x y where xy: "DES_IP_Transform (Char8ToBit64 ?c) = x @ y" "des.halves (x, y)"
      "\<And>l' r'. des.network ks (x, y) = (l', r') \<Longrightarrow> des_encryptBlock j' ?c ks = Bit64ToChar8 (DES_IP_1_Transform (l' @ r'))"
      using encryptBlock_network [OF assms(1,3), of ?c] by metis
    have "x = l' \<and> y = r'"
      using mid [of l' r' x y] xy(1,2) lr(4) [OF n] des.halves_network [OF lr(2), of "rev ks"] n by simp
    then show ?thesis using xy(3) des.network_inverse [OF lr(2), of "rev ks"] n home by simp
  qed
qed

lemma des_blocks_concat:
  assumes "left = 8 * n" and "offset + left \<le> length input" and "offset + left \<le> length outp"
    and "\<And>b. length b = 8 \<Longrightarrow> length (block b) = 8"
  shows "des_blocks block input offset left outp = Some (0, take offset outp @
      concat (map (\<lambda>c. block (take 8 (drop (offset + 8 * c) input))) [0 ..< n]) @ drop (offset + left) outp)"
  using assms(1-3)
proof (induction n arbitrary: offset left outp)
  case 0
  then show ?case by (simp add: des_blocks.simps)
next
  case (Suc n)
  let ?b = "block (take 8 (drop offset input))"
  let ?out = "take offset outp @ ?b @ drop (offset + 8) outp"
  have len: "length ?b = 8" using Suc.prems by (intro assms(4)) simp
  have step: "des_blocks block input offset left outp = des_blocks block input (offset + 8) (8 * n) ?out"
    using Suc.prems len by (subst des_blocks.simps) (simp add: mem_read_def mem_write_def)
  have "des_blocks block input (offset + 8) (8 * n) ?out = Some (0, take (offset + 8) ?out @
      concat (map (\<lambda>c. block (take 8 (drop (offset + 8 + 8 * c) input))) [0 ..< n]) @ drop (offset + 8 + 8 * n) ?out)"
    by (rule Suc.IH) (use Suc.prems len in simp_all)
  moreover have "take (offset + 8) ?out = take offset outp @ ?b" using Suc.prems len by simp
  moreover have "drop (offset + 8 + 8 * n) ?out = drop (offset + left) outp"
    using Suc.prems len by (simp add: ac_simps)
  moreover have "concat (map (\<lambda>c. block (take 8 (drop (offset + 8 * c) input))) [0 ..< Suc n]) =
      ?b @ concat (map (\<lambda>c. block (take 8 (drop (offset + 8 + 8 * c) input))) [0 ..< n])"
    by (subst upt_conv_Cons) (simp_all add: map_Suc_upt [symmetric] comp_def add.assoc del: upt_Suc)
  ultimately show ?case by (simp add: step)
qed

lemma chunks_inverse:
  assumes "length xs = 8 * n" and "\<And>b. length b = 8 \<Longrightarrow> length (g b) = 8" and "\<And>b. length b = 8 \<Longrightarrow> h (g b) = b"
  shows "concat (map (\<lambda>c. h (take 8 (drop (8 * c) (concat (map (\<lambda>c. g (take 8 (drop (8 * c) xs))) [0 ..< n]))))) [0 ..< n]) = xs"
proof -
  have chunk: "length (take 8 (drop (8 * c) xs)) = 8" if "c < n" for c using that assms(1) by simp
  then have gchunk: "length (g (take 8 (drop (8 * c) xs))) = 8" if "c < n" for c using that assms(2) by blast
  have cat: "m \<le> n \<Longrightarrow> length (concat (map (\<lambda>c. g (take 8 (drop (8 * c) xs))) [0 ..< m])) = 8 * m" for m
    by (induction m) (auto simp: gchunk Suc_le_eq)
  have nth: "take 8 (drop (8 * c) (concat (map (\<lambda>c. g (take 8 (drop (8 * c) xs))) [0 ..< n]))) = g (take 8 (drop (8 * c) xs))"
    if "c < n" for c
  proof -
    have "[0 ..< n] = [0 ..< c] @ c # [Suc c ..< n]" using that by (metis append_Nil upt_add_eq_append upt_conv_Cons le_add1 add_0 less_imp_add_positive zero_le)
    then show ?thesis using cat [of c] that by (simp add: gchunk)
  qed
  have "concat (map (\<lambda>c. h (take 8 (drop (8 * c) (concat (map (\<lambda>c. g (take 8 (drop (8 * c) xs))) [0 ..< n]))))) [0 ..< n]) =
      concat (map (\<lambda>c. take 8 (drop (8 * c) xs)) [0 ..< n])"
    by (intro arg_cong [of _ _ concat] map_cong refl) (simp add: nth assms(3) [OF chunk])
  then show ?thesis using assms(1) by (simp add: concat_chunks)
qed

definition key_usable :: "bytes option \<Rightarrow> bool" where
  "key_usable key \<longleftrightarrow> (case key of None \<Rightarrow> True | Some k \<Rightarrow> 8 \<le> length k)"

definition message_keys :: "bytes option \<Rightarrow> bytes list" where
  "message_keys key = DES_MakeSubKeys (Char8ToBit64 (take 8 (case key of None \<Rightarrow> DEFAULT_DES_KEY | Some k \<Rightarrow> k)))"

lemma des_message_blocks:
  assumes "key_usable key" and "length xs = 8 * n" and "0 < n" and "8 * n < 2 ^ 31" and "8 * n \<le> length out"
    and "\<And>b ks. length (block b ks) = 8"
  shows "des_message block (Some xs) (of_nat (8 * n)) key (Some out) = Some (int (8 * n), Some (
      concat (map (\<lambda>c. block (take 8 (drop (8 * c) xs)) (message_keys key)) [0 ..< n]) @ drop (8 * n) out))"
proof -
  let ?cb = "of_nat (8 * n) :: u64"
  have cb: "unat ?cb = 8 * n" using assms(4) by (simp only: unat_of_nat) simp
  have "?cb \<noteq> 0" using cb assms(3) by (metis mult_is_0 nat_neq_iff unsigned_0 zero_neq_numeral)
  moreover have "?cb mod 8 = 0" by (rule word_unat_eq_iff [THEN iffD2]) (simp only: unat_mod cb, simp)
  moreover have "mem_read (case key of None \<Rightarrow> DEFAULT_DES_KEY | Some k \<Rightarrow> k) 0 8 =
      Some (take 8 (case key of None \<Rightarrow> DEFAULT_DES_KEY | Some k \<Rightarrow> k))"
    using assms(1) by (auto simp: key_usable_def mem_read_def DEFAULT_DES_KEY_def split: option.splits)
  moreover have "sint (ucast (?cb - of_nat 0) :: u32) = int (8 * n)"
  proof -
    have "unat (ucast ?cb :: u32) = 8 * n" 
      using cb assms(4) by (simp add: unsigned_ucast_eq take_bit_nat_eq_self del: of_nat_mult)
    then show ?thesis using assms(4) sint_small [of "ucast ?cb"] by (simp del: of_nat_mult)
  qed
  moreover have "des_blocks (\<lambda>b. block b (message_keys key)) xs 0 (8 * n) out = Some (0,
      concat (map (\<lambda>c. block (take 8 (drop (8 * c) xs)) (message_keys key)) [0 ..< n]) @ drop (8 * n) out)"
    using des_blocks_concat [of "8 * n" n 0 xs out "\<lambda>b. block b (message_keys key)"] assms(2,5,6) by simp
  ultimately show ?thesis
    by (simp add: des_message_def cb message_keys_def [symmetric] del: of_nat_mult)
qed

lemma length_blocks: "length (des_encryptBlock j b ks) = 8" "length (des_decryptBlock j b ks) = 8"
  by (simp_all add: des_encryptBlock_def des_decryptBlock_def Let_def length_Bit64ToChar8 split: prod.split)

lemma length_chunks: "(\<And>b. length (g b) = 8) \<Longrightarrow> length (concat (map (\<lambda>c. g (f c)) [0 ..< n])) = 8 * n"
  by (induction n) auto

text \<open>
  C21. Encrypting a message of whole blocks reports its length and writes a ciphertext of the same
  length, decrypting the ciphertext with the same key (or with the built-in key both times)
  restores the message, and every block of bytes is the encryption of what it decrypts to. Neither
  call writes past the message. The uninitialised scratch array does not matter.
\<close>

theorem des_round_trip:
  assumes "length j = 48" and "length j' = 48" and "key_usable key" and "length xs = 8 * n" and "0 < n"
    and "8 * n < 2 ^ 31" and "8 * n \<le> length out" and "8 * n \<le> length out'" and "cb = of_nat (8 * n)"
  shows "(\<exists>c. length c = 8 * n \<and>
      des_encrypt j (Some xs) cb key (Some out) = Some (int (8 * n), Some (c @ drop (8 * n) out)) \<and>
      des_decrypt j' (Some c) cb key (Some out') = Some (int (8 * n), Some (xs @ drop (8 * n) out'))) \<and>
    (\<exists>c. length c = 8 * n \<and>
      des_decrypt j (Some xs) cb key (Some out) = Some (int (8 * n), Some (c @ drop (8 * n) out)) \<and>
      des_encrypt j' (Some c) cb key (Some out') = Some (int (8 * n), Some (xs @ drop (8 * n) out')))"
proof -
  let ?ks = "message_keys key"
  have ks: "keys_ok ?ks" unfolding message_keys_def by (rule subkeys_ok)
  let ?E = "\<lambda>xs. concat (map (\<lambda>c. des_encryptBlock j (take 8 (drop (8 * c) xs)) ?ks) [0 ..< n])"
  let ?D = "\<lambda>xs. concat (map (\<lambda>c. des_decryptBlock j (take 8 (drop (8 * c) xs)) ?ks) [0 ..< n])"
  have len: "length (?E xs) = 8 * n" "length (?D xs) = 8 * n"
    by (rule length_chunks, rule length_blocks)+
  have "concat (map (\<lambda>c. des_decryptBlock j' (take 8 (drop (8 * c) (?E xs))) ?ks) [0 ..< n]) = xs"
    by (rule chunks_inverse [OF assms(4)]) (simp_all add: length_blocks block_inverse [OF ks assms(1,2)])
  moreover have "concat (map (\<lambda>c. des_encryptBlock j' (take 8 (drop (8 * c) (?D xs))) ?ks) [0 ..< n]) = xs"
    by (rule chunks_inverse [OF assms(4)]) (simp_all add: length_blocks block_inverse [OF ks assms(1,2)])
  moreover have "des_encrypt i (Some ys) cb key (Some z) = Some (int (8 * n),
      Some (concat (map (\<lambda>c. des_encryptBlock i (take 8 (drop (8 * c) ys)) ?ks) [0 ..< n]) @ drop (8 * n) z))"
    if "length ys = 8 * n" and "8 * n \<le> length z" for i ys z
    unfolding des_encrypt_def assms(9) by (rule des_message_blocks [OF assms(3) that(1) assms(5,6) that(2) length_blocks(1)])
  moreover have "des_decrypt i (Some ys) cb key (Some z) = Some (int (8 * n),
      Some (concat (map (\<lambda>c. des_decryptBlock i (take 8 (drop (8 * c) ys)) ?ks) [0 ..< n]) @ drop (8 * n) z))"
    if "length ys = 8 * n" and "8 * n \<le> length z" for i ys z
    unfolding des_decrypt_def assms(9) by (rule des_message_blocks [OF assms(3) that(1) assms(5,6) that(2) length_blocks(2)])
  ultimately show ?thesis using assms(4,7,8) len by metis
qed

theorem des_round_trip_witness:
  "\<exists>c. length c = 8 \<and>
    des_encrypt (replicate 48 7) (Some [1, 2, 3, 4, 5, 6, 7, 8]) 8 None (Some (replicate 9 0)) = Some (8, Some (c @ [0])) \<and>
    des_decrypt (replicate 48 9) (Some c) 8 None (Some (replicate 8 0)) = Some (8, Some [1, 2, 3, 4, 5, 6, 7, 8])"
  using des_round_trip [of "replicate 48 7" "replicate 48 9" None "[1, 2, 3, 4, 5, 6, 7, 8]" 1 "replicate 9 0" "replicate 8 0" 8]
  by (simp add: key_usable_def)

end
