(* ===== verification/Md5.thy ===== *)
theory Md5
  imports Prelude "HOL-Library.Monad_Syntax"
begin

unbundle bit_operations_syntax

text \<open>
  \<^verbatim>\<open>src/hash.c\<close>, third part: MD5. The context is a record, the registers \<^verbatim>\<open>a, b, c, d\<close> of the
  compression function are cells 0 to 3 of a list, and its 64 macro calls are a table of calls.
\<close>

section \<open>Compression\<close>

definition S11 :: nat where "S11 = 7"
definition S12 :: nat where "S12 = 12"
definition S13 :: nat where "S13 = 17"
definition S14 :: nat where "S14 = 22"
definition S21 :: nat where "S21 = 5"
definition S22 :: nat where "S22 = 9"
definition S23 :: nat where "S23 = 14"
definition S24 :: nat where "S24 = 20"
definition S31 :: nat where "S31 = 4"
definition S32 :: nat where "S32 = 11"
definition S33 :: nat where "S33 = 16"
definition S34 :: nat where "S34 = 23"
definition S41 :: nat where "S41 = 6"
definition S42 :: nat where "S42 = 10"
definition S43 :: nat where "S43 = 15"
definition S44 :: nat where "S44 = 21"

lemmas md5_shift_defs = S11_def S12_def S13_def S14_def S21_def S22_def S23_def S24_def S31_def S32_def S33_def S34_def S41_def S42_def S43_def S44_def

definition md5_F :: "u32 \<Rightarrow> u32 \<Rightarrow> u32 \<Rightarrow> u32" where "md5_F x y z = (x AND y) OR (NOT x AND z)"
definition md5_G :: "u32 \<Rightarrow> u32 \<Rightarrow> u32 \<Rightarrow> u32" where "md5_G x y z = (x AND z) OR (y AND NOT z)"
definition md5_H :: "u32 \<Rightarrow> u32 \<Rightarrow> u32 \<Rightarrow> u32" where "md5_H x y z = x XOR y XOR z"
definition md5_I :: "u32 \<Rightarrow> u32 \<Rightarrow> u32 \<Rightarrow> u32" where "md5_I x y z = y XOR (x OR NOT z)"

definition ROTATE_LEFT :: "u32 \<Rightarrow> nat \<Rightarrow> u32" where
  "ROTATE_LEFT x n = push_bit n x OR drop_bit (32 - n) x"

datatype md5_macro = FF | GG | HH | II

fun md5_mix :: "md5_macro \<Rightarrow> u32 \<Rightarrow> u32 \<Rightarrow> u32 \<Rightarrow> u32" where
  "md5_mix FF = md5_F"
| "md5_mix GG = md5_G"
| "md5_mix HH = md5_H"
| "md5_mix II = md5_I"

type_synonym md5_call_t = "md5_macro \<times> nat \<times> nat \<times> nat \<times> nat \<times> nat \<times> nat \<times> u32"

fun md5_call :: "u32 list \<Rightarrow> u32 list \<Rightarrow> md5_call_t \<Rightarrow> u32 list" where
  "md5_call x r (m, a, b, c, d, k, s, ac) =
     (let r = r[a := r ! a + (md5_mix m (r ! b) (r ! c) (r ! d) + x ! k + ac)];
          r = r[a := ROTATE_LEFT (r ! a) s]
      in r[a := r ! a + r ! b])"

definition md5_calls :: "md5_call_t list" where
  "md5_calls = [
    (FF, 0, 1, 2, 3, 0, S11, 0xd76aa478), (FF, 3, 0, 1, 2, 1, S12, 0xe8c7b756),
    (FF, 2, 3, 0, 1, 2, S13, 0x242070db), (FF, 1, 2, 3, 0, 3, S14, 0xc1bdceee),
    (FF, 0, 1, 2, 3, 4, S11, 0xf57c0faf), (FF, 3, 0, 1, 2, 5, S12, 0x4787c62a),
    (FF, 2, 3, 0, 1, 6, S13, 0xa8304613), (FF, 1, 2, 3, 0, 7, S14, 0xfd469501),
    (FF, 0, 1, 2, 3, 8, S11, 0x698098d8), (FF, 3, 0, 1, 2, 9, S12, 0x8b44f7af),
    (FF, 2, 3, 0, 1, 10, S13, 0xffff5bb1), (FF, 1, 2, 3, 0, 11, S14, 0x895cd7be),
    (FF, 0, 1, 2, 3, 12, S11, 0x6b901122), (FF, 3, 0, 1, 2, 13, S12, 0xfd987193),
    (FF, 2, 3, 0, 1, 14, S13, 0xa679438e), (FF, 1, 2, 3, 0, 15, S14, 0x49b40821),
    (GG, 0, 1, 2, 3, 1, S21, 0xf61e2562), (GG, 3, 0, 1, 2, 6, S22, 0xc040b340),
    (GG, 2, 3, 0, 1, 11, S23, 0x265e5a51), (GG, 1, 2, 3, 0, 0, S24, 0xe9b6c7aa),
    (GG, 0, 1, 2, 3, 5, S21, 0xd62f105d), (GG, 3, 0, 1, 2, 10, S22, 0x2441453),
    (GG, 2, 3, 0, 1, 15, S23, 0xd8a1e681), (GG, 1, 2, 3, 0, 4, S24, 0xe7d3fbc8),
    (GG, 0, 1, 2, 3, 9, S21, 0x21e1cde6), (GG, 3, 0, 1, 2, 14, S22, 0xc33707d6),
    (GG, 2, 3, 0, 1, 3, S23, 0xf4d50d87), (GG, 1, 2, 3, 0, 8, S24, 0x455a14ed),
    (GG, 0, 1, 2, 3, 13, S21, 0xa9e3e905), (GG, 3, 0, 1, 2, 2, S22, 0xfcefa3f8),
    (GG, 2, 3, 0, 1, 7, S23, 0x676f02d9), (GG, 1, 2, 3, 0, 12, S24, 0x8d2a4c8a),
    (HH, 0, 1, 2, 3, 5, S31, 0xfffa3942), (HH, 3, 0, 1, 2, 8, S32, 0x8771f681),
    (HH, 2, 3, 0, 1, 11, S33, 0x6d9d6122), (HH, 1, 2, 3, 0, 14, S34, 0xfde5380c),
    (HH, 0, 1, 2, 3, 1, S31, 0xa4beea44), (HH, 3, 0, 1, 2, 4, S32, 0x4bdecfa9),
    (HH, 2, 3, 0, 1, 7, S33, 0xf6bb4b60), (HH, 1, 2, 3, 0, 10, S34, 0xbebfbc70),
    (HH, 0, 1, 2, 3, 13, S31, 0x289b7ec6), (HH, 3, 0, 1, 2, 0, S32, 0xeaa127fa),
    (HH, 2, 3, 0, 1, 3, S33, 0xd4ef3085), (HH, 1, 2, 3, 0, 6, S34, 0x4881d05),
    (HH, 0, 1, 2, 3, 9, S31, 0xd9d4d039), (HH, 3, 0, 1, 2, 12, S32, 0xe6db99e5),
    (HH, 2, 3, 0, 1, 15, S33, 0x1fa27cf8), (HH, 1, 2, 3, 0, 2, S34, 0xc4ac5665),
    (II, 0, 1, 2, 3, 0, S41, 0xf4292244), (II, 3, 0, 1, 2, 7, S42, 0x432aff97),
    (II, 2, 3, 0, 1, 14, S43, 0xab9423a7), (II, 1, 2, 3, 0, 5, S44, 0xfc93a039),
    (II, 0, 1, 2, 3, 12, S41, 0x655b59c3), (II, 3, 0, 1, 2, 3, S42, 0x8f0ccc92),
    (II, 2, 3, 0, 1, 10, S43, 0xffeff47d), (II, 1, 2, 3, 0, 1, S44, 0x85845dd1),
    (II, 0, 1, 2, 3, 8, S41, 0x6fa87e4f), (II, 3, 0, 1, 2, 15, S42, 0xfe2ce6e0),
    (II, 2, 3, 0, 1, 6, S43, 0xa3014314), (II, 1, 2, 3, 0, 13, S44, 0x4e0811a1),
    (II, 0, 1, 2, 3, 4, S41, 0xf7537e82), (II, 3, 0, 1, 2, 11, S42, 0xbd3af235),
    (II, 2, 3, 0, 1, 2, S43, 0x2ad7d2bb), (II, 1, 2, 3, 0, 9, S44, 0xeb86d391)]"

definition md5_decode :: "bytes \<Rightarrow> nat \<Rightarrow> u32 list" where
  "md5_decode input n =
     map (\<lambda>i. ucast (input ! (4 * i)) OR push_bit 8 (ucast (input ! (4 * i + 1)))
        OR push_bit 16 (ucast (input ! (4 * i + 2))) OR push_bit 24 (ucast (input ! (4 * i + 3))))
       [0 ..< n div 4]"

definition md5_encode :: "u32 list \<Rightarrow> nat \<Rightarrow> bytes" where
  "md5_encode input n =
     concat (map (\<lambda>i. [ucast (input ! i AND 0xff), ucast (drop_bit 8 (input ! i) AND 0xff),
        ucast (drop_bit 16 (input ! i) AND 0xff), ucast (drop_bit 24 (input ! i) AND 0xff)])
       [0 ..< n div 4])"

definition md5_transform :: "u32 list \<Rightarrow> bytes \<Rightarrow> u32 list" where
  "md5_transform state block =
     (let x = md5_decode block 64; r = foldl (md5_call x) state md5_calls
      in [state ! 0 + r ! 0, state ! 1 + r ! 1, state ! 2 + r ! 2, state ! 3 + r ! 3])"

section \<open>Context\<close>

record md5ctx =
  md5_state :: "u32 list"
  md5_count0 :: u32
  md5_count1 :: u32
  md5_buffer :: bytes
  md5_PADDING :: bytes

definition md5_init :: "md5ctx \<Rightarrow> md5ctx" where
  "md5_init ctx =
     ctx\<lparr>md5_count0 := 0, md5_count1 := 0,
         md5_state := [0x67452301, 0xefcdab89, 0x98badcfe, 0x10325476],
         md5_PADDING := 0x80 # replicate 63 0\<rparr>"

fun md5_blocks :: "nat \<Rightarrow> u32 list \<Rightarrow> bytes \<Rightarrow> u32 \<Rightarrow> u32 \<Rightarrow> (u32 list \<times> u32) option" where
  "md5_blocks fuel state input i n =
     (if i + 63 < n
      then (case fuel of
              0 \<Rightarrow> None
            | Suc fuel \<Rightarrow> do {
                b \<leftarrow> mem_read input (unat i) 64;
                md5_blocks fuel (md5_transform state b) input (i + 64) n
              })
      else Some (state, i))"

definition md5_update :: "md5ctx \<Rightarrow> bytes \<Rightarrow> u32 \<Rightarrow> md5ctx option" where
  "md5_update ctx input inputLen =
     (let index = drop_bit 3 (md5_count0 ctx) AND 0x3F;
          bits = push_bit 3 inputLen;
          count0 = md5_count0 ctx + bits;
          count1 = (if count0 < bits then md5_count1 ctx + 1 else md5_count1 ctx) + drop_bit 29 inputLen;
          partLen = 64 - index
      in do {
        (state, buffer, index, i) \<leftarrow>
          (if partLen \<le> inputLen then do {
             b \<leftarrow> mem_read input 0 (unat partLen);
             buffer \<leftarrow> mem_write (md5_buffer ctx) (unat index) b;
             blk \<leftarrow> mem_read buffer 0 64;
             (state, i) \<leftarrow> md5_blocks (unat inputLen) (md5_transform (md5_state ctx) blk) input partLen inputLen;
             Some (state, buffer, 0, i)
           } else Some (md5_state ctx, md5_buffer ctx, index, 0));
        rest \<leftarrow> mem_read input (unat i) (unat (inputLen - i));
        buffer \<leftarrow> mem_write buffer (unat index) rest;
        Some (ctx\<lparr>md5_count0 := count0, md5_count1 := count1, md5_state := state, md5_buffer := buffer\<rparr>)
      })"

definition md5_final :: "md5ctx \<Rightarrow> bool \<Rightarrow> (md5ctx \<times> bytes option) option" where
  "md5_final ctx digest =
     (if \<not> digest then Some (ctx, None)
      else do {
        let bits = md5_encode [md5_count0 ctx, md5_count1 ctx] 8;
        let index = drop_bit 3 (md5_count0 ctx) AND 0x3f;
        let padLen = (if index < 56 then 56 - index else 120 - index);
        ctx \<leftarrow> md5_update ctx (md5_PADDING ctx) padLen;
        ctx \<leftarrow> md5_update ctx bits 8;
        let ust = md5_encode (md5_state ctx) 16;
        Some (md5_init (ctx\<lparr>md5_state := replicate 4 0, md5_count0 := 0, md5_count1 := 0,
          md5_buffer := replicate 64 0, md5_PADDING := replicate 64 0\<rparr>), Some ust)
      })"

section \<open>The digest of a message\<close>

function md5_fold :: "u32 list \<Rightarrow> bytes \<Rightarrow> u32 list" where
  "md5_fold st xs = (if length xs < 64 then st else md5_fold (md5_transform st (take 64 xs)) (drop 64 xs))"
  by pat_completeness auto
termination by (relation "measure (\<lambda>(st, xs). length xs)") auto

declare md5_fold.simps [simp del] md5_blocks.simps [simp del]

definition md5_pad :: "bytes \<Rightarrow> bytes" where
  "md5_pad xs = xs @ 0x80 # replicate ((119 - length xs mod 64) mod 64) 0 @
     map (\<lambda>i. of_nat (8 * length xs div 256 ^ i)) [0 ..< 8]"

definition md5_spec :: "bytes \<Rightarrow> bytes" where
  "md5_spec xs = md5_encode (md5_fold [0x67452301, 0xefcdab89, 0x98badcfe, 0x10325476] (md5_pad xs)) 16"

section \<open>Streaming\<close>

definition md5_rest :: "bytes \<Rightarrow> bytes" where
  "md5_rest xs = drop (64 * (length xs div 64)) xs"

lemma md5_fold_append: "64 dvd length a \<Longrightarrow> md5_fold st (a @ b) = md5_fold (md5_fold st a) b"
proof (induction "length a" arbitrary: a st rule: less_induct)
  case less
  show ?case
  proof (cases "a = []")
    case True
    then show ?thesis by (simp add: md5_fold.simps [of st "[]"])
  next
    case False
    then have l: "64 \<le> length a" using less.prems by (metis dvd_imp_le length_greater_0_conv)
    then have "md5_fold (md5_transform st (take 64 a)) (drop 64 a @ b) =
        md5_fold (md5_fold (md5_transform st (take 64 a)) (drop 64 a)) b"
      by (intro less.hyps) (use less.prems in \<open>simp_all add: dvd_minus_self\<close>)
    then show ?thesis using l by (simp add: md5_fold.simps [of st a] md5_fold.simps [of st "a @ b"])
  qed
qed

lemma md5_fold_block: "length b = 64 \<Longrightarrow> md5_fold st (b @ xs) = md5_fold (md5_transform st b) xs"
  by (subst md5_fold.simps) simp

lemma md5_split: "xs = take (64 * (length xs div 64)) xs @ md5_rest xs"
  by (simp add: md5_rest_def)

lemma md5_fold_rest: "md5_fold st (xs @ ys) = md5_fold (md5_fold st xs) (md5_rest xs @ ys)"
proof -
  let ?a = "take (64 * (length xs div 64)) xs"
  have a: "64 dvd length ?a" by (simp add: min_absorb2)
  have "md5_fold (md5_fold st ?a) (md5_rest xs) = md5_fold st ?a"
    by (subst md5_fold.simps) (simp add: md5_rest_def minus_mult_div_eq_mod)
  then have "md5_fold st xs = md5_fold st ?a" using md5_fold_append [OF a, of st "md5_rest xs"] md5_split [of xs] by simp
  then show ?thesis
    using md5_fold_append [OF a, of st "md5_rest xs @ ys"] md5_split [of xs] by (metis append.assoc)
qed

lemma length_md5_rest: "length (md5_rest xs) = length xs mod 64"
  by (simp add: md5_rest_def minus_mult_div_eq_mod)

lemma md5_rest_append: "md5_rest (xs @ ys) = md5_rest (md5_rest xs @ ys)"
proof -
  let ?n = "length xs div 64"
  have "length (xs @ ys) div 64 = ?n + length (md5_rest xs @ ys) div 64"
  proof -
    have "length xs = 64 * ?n + length xs mod 64" by simp
    then have "length (xs @ ys) = 64 * ?n + length (md5_rest xs @ ys)" by (simp add: length_md5_rest)
    then show ?thesis by (metis div_mult_self4 zero_neq_numeral)
  qed
  moreover have "drop (64 * (?n + k)) (xs @ ys) = drop (64 * k) (md5_rest xs @ ys)" for k
    unfolding distrib_left md5_rest_def
    by (metis (no_types, lifting) add.commute drop_append drop_drop diff_is_0_eq drop0 times_div_less_eq_dividend)
  ultimately show ?thesis by (simp only: md5_rest_def [of "xs @ ys"] md5_rest_def [of "md5_rest xs @ ys"])
qed

lemma md5_rest_block: "length b = 64 \<Longrightarrow> md5_rest (b @ xs) = md5_rest xs"
  using md5_rest_append [of b xs] by (simp add: md5_rest_def [of b])

lemma md5_rest_ge: "64 \<le> length xs \<Longrightarrow> md5_rest xs = md5_rest (drop 64 xs)"
  using md5_rest_append [of "take 64 xs" "drop 64 xs"] by (simp add: md5_rest_def)

lemma md5_blocks_fold:
  assumes "unat i + r = unat n" and "unat n < 2 ^ 32 - 64" and "unat n \<le> length input" and "r \<le> fuel"
  shows "\<exists>i'. md5_blocks fuel st input i n = Some (md5_fold st (take r (drop (unat i) input)), i') \<and>
     unat i' \<le> unat n \<and> take (unat (n - i')) (drop (unat i') input) = md5_rest (take r (drop (unat i) input))"
  using assms
proof (induction r arbitrary: i st fuel rule: less_induct)
  case (less r)
  have u63: "unat (i + 63) = unat i + 63" "unat (i + 64) = unat i + 64"
    using less.prems by (simp_all add: unat_plus_if')
  let ?xs = "take r (drop (unat i) input)"
  have len: "length ?xs = r" using less.prems by simp
  show ?case
  proof (cases "64 \<le> r")
    case True
    then obtain f where f: "fuel = Suc f" using less.prems(4) by (cases fuel) auto
    have lt: "i + 63 < n" using True less.prems(1) u63 by (simp add: word_less_nat_alt)
    have "take 64 (drop (unat i) input) = take 64 ?xs" using True by (simp add: min_absorb1)
    moreover have "mem_read input (unat i) 64 = Some (take 64 (drop (unat i) input))"
      using True less.prems by (simp add: mem_read_def)
    ultimately have step: "md5_blocks fuel st input i n = md5_blocks f (md5_transform st (take 64 ?xs)) input (i + 64) n"
      using lt by (subst md5_blocks.simps) (simp add: f)
    have "take (r - 64) (drop (unat (i + 64)) input) = drop 64 ?xs"
      by (simp add: u63 drop_take add.commute)
    then show ?thesis
      using less.IH [of "r - 64" "i + 64" f "md5_transform st (take 64 ?xs)"] less.prems True f step len
      by (simp add: u63 md5_fold.simps [of st ?xs] md5_rest_ge [of ?xs] del: take_drop drop_take)
  next
    case False
    then have "\<not> i + 63 < n" using less.prems(1) u63 by (simp add: word_less_nat_alt)
    moreover have "i \<le> n" using less.prems(1) by (simp add: word_le_nat_alt)
    then have "unat (n - i) = r" using less.prems(1) by (simp add: unat_sub)
    ultimately show ?thesis
      using False less.prems(1) len
      by (subst md5_blocks.simps) (simp add: md5_fold.simps [of st ?xs] md5_rest_def [of ?xs])
  qed
qed

definition md5_repr :: "md5ctx \<Rightarrow> bytes \<Rightarrow> bool" where
  "md5_repr ctx msg \<longleftrightarrow>
     md5_state ctx = md5_fold [0x67452301, 0xefcdab89, 0x98badcfe, 0x10325476] msg \<and>
     md5_count0 ctx = of_nat (8 * length msg) \<and> md5_count1 ctx = of_nat (8 * length msg div 2 ^ 32) \<and>
     length (md5_buffer ctx) = 64 \<and> take (length msg mod 64) (md5_buffer ctx) = md5_rest msg \<and>
     md5_PADDING ctx = 0x80 # replicate 63 0"

lemma md5_repr_update:
  assumes "st = md5_fold [0x67452301, 0xefcdab89, 0x98badcfe, 0x10325476] msg"
    and "c0 = of_nat (8 * length msg)" and "c1 = of_nat (8 * length msg div 2 ^ 32)"
    and "length b = 64" and "take (length msg mod 64) b = md5_rest msg" and "md5_PADDING ctx = 0x80 # replicate 63 0"
  shows "md5_repr (ctx\<lparr>md5_count0 := c0, md5_count1 := c1, md5_state := st, md5_buffer := b\<rparr>) msg"
  using assms by (simp add: md5_repr_def)

lemma md5_index: "drop_bit 3 (of_nat (8 * l) :: u32) AND 0x3F = of_nat (l mod 64)"
  "unat (drop_bit 3 (of_nat (8 * l) :: u32) AND 0x3F) = l mod 64"
proof -
  have m: "(0x3F :: u32) = mask 6" by (simp add: mask_eq_exp_minus_1)
  have "drop_bit 3 (of_nat (8 * l) :: u32) AND 0x3F = of_nat (l mod 64)"
  proof (rule bit_word_eqI)
    fix n assume "n < LENGTH(32)"
    have "(of_nat (8 * l) :: u32) = push_bit 3 (of_nat l)" by (simp add: push_bit_eq_mult)
    moreover have "(of_nat (l mod 64) :: u32) = take_bit 6 (of_nat l)" by (simp add: take_bit_of_nat take_bit_eq_mod [of 6 l])
    ultimately show "bit (drop_bit 3 (of_nat (8 * l) :: u32) AND 0x3F) n = bit (of_nat (l mod 64) :: u32) n"
      unfolding m by (auto simp: bit_simps simp del: of_nat_mult)
  qed
  then show "drop_bit 3 (of_nat (8 * l) :: u32) AND 0x3F = of_nat (l mod 64)"
    "unat (drop_bit 3 (of_nat (8 * l) :: u32) AND 0x3F) = l mod 64"
    by (simp_all add: unat_of_nat del: of_nat_mult)
qed

lemma div_once: "x < c \<Longrightarrow> y < c \<Longrightarrow> c \<le> x + y \<Longrightarrow> (x + y) div c = 1" for x y c :: nat
  by (intro div_nat_eqI) auto

lemma md5_carry:
  fixes n :: u32
  assumes "c0 = of_nat (8 * l)" and "c1 = of_nat (8 * l div 2 ^ 32)"
  shows "c0 + push_bit 3 n = of_nat (8 * (l + unat n))"
    and "(if c0 + push_bit 3 n < push_bit 3 n then c1 + 1 else c1) + drop_bit 29 n = of_nat (8 * (l + unat n) div 2 ^ 32)"
proof -
  let ?c = "2 ^ 32 :: nat" and ?a = "8 * l" and ?b = "8 * unat n"
  have n: "(of_nat (unat n) :: u32) = n" by simp
  have p: "push_bit 3 n = of_nat ?b" by (simp add: push_bit_eq_mult)
  show sum: "c0 + push_bit 3 n = of_nat (8 * (l + unat n))" unfolding p assms(1) by (simp add: algebra_simps)
  have ub: "unat (push_bit 3 n) = ?b mod ?c" unfolding p by (simp only: unat_of_nat) simp
  have us: "unat (c0 + push_bit 3 n) = (?a mod ?c + ?b mod ?c) mod ?c"
    unfolding sum by (simp only: unat_of_nat) (simp add: mod_add_eq distrib_left)
  have lt: "?a mod ?c < ?c" "?b mod ?c < ?c" by simp_all
  have carry: "(?a mod ?c + ?b mod ?c) div ?c = of_bool (c0 + push_bit 3 n < push_bit 3 n)"
  proof (cases "?a mod ?c + ?b mod ?c < ?c")
    case True
    then have "unat (c0 + push_bit 3 n) = ?a mod ?c + ?b mod ?c" using us by (simp only: mod_less)
    then have "\<not> c0 + push_bit 3 n < push_bit 3 n" unfolding word_less_nat_alt ub by linarith
    then show ?thesis using True by (simp only: div_less of_bool_eq)
  next
    case False
    then have "(?a mod ?c + ?b mod ?c) mod ?c = ?a mod ?c + ?b mod ?c - ?c" 
      using le_mod_geq [of ?c "?a mod ?c + ?b mod ?c"] mod_less [of "?a mod ?c + ?b mod ?c - ?c" ?c] lt by linarith
    then have "c0 + push_bit 3 n < push_bit 3 n" unfolding word_less_nat_alt ub us using lt False by linarith
    moreover have "(?a mod ?c + ?b mod ?c) div ?c = 1" using lt False by (intro div_once) simp_all
    ultimately show ?thesis by (simp only: of_bool_eq)
  qed
  have d: "drop_bit 29 n = of_nat (?b div ?c)"
  proof -
    have "?b div ?c = unat (drop_bit 29 n)" unfolding unat_drop_bit_eq by (simp add: drop_bit_eq_div)
    then show ?thesis by simp
  qed
  have "8 * (l + unat n) div ?c = ?a div ?c + ?b div ?c + (?a mod ?c + ?b mod ?c) div ?c"
    by (simp only: distrib_left div_add1_eq [of ?a ?b])
  then show "(if c0 + push_bit 3 n < push_bit 3 n then c1 + 1 else c1) + drop_bit 29 n = of_nat (8 * (l + unat n) div ?c)"
    unfolding d assms(2) carry by (simp only: of_nat_add) (simp split: if_split)
qed

lemma md5_update_append:
  assumes "md5_repr ctx msg" and "unat n < 2 ^ 32 - 64" and "unat n \<le> length input"
  shows "\<exists>ctx'. md5_update ctx input n = Some ctx' \<and> md5_repr ctx' (msg @ take (unat n) input)"
proof -
  let ?l = "length msg" and ?k = "length msg mod 64" and ?in = "take (unat n) input"
  let ?iv = "[0x67452301, 0xefcdab89, 0x98badcfe, 0x10325476] :: u32 list"
  have r: "md5_state ctx = md5_fold ?iv msg" "md5_count0 ctx = of_nat (8 * ?l)"
    "md5_count1 ctx = of_nat (8 * ?l div 2 ^ 32)" "length (md5_buffer ctx) = 64"
    "take ?k (md5_buffer ctx) = md5_rest msg" "md5_PADDING ctx = 0x80 # replicate 63 0"
    using assms(1) by (simp_all add: md5_repr_def)
  have k: "?k < 64" by simp
  let ?index = "drop_bit 3 (md5_count0 ctx) AND 0x3F" and ?part = "64 - (drop_bit 3 (md5_count0 ctx) AND 0x3F)"
  have ix: "unat ?index = ?k" unfolding r(2) by (rule md5_index)
  have part: "unat ?part = 64 - ?k"
    using unat_sub [of ?index 64] ix k by (simp add: word_le_nat_alt)
  note carry = md5_carry [OF r(2,3), of n]
  have len: "length (msg @ ?in) = ?l + unat n" using assms(3) by simp
  have fin: "md5_fold ?iv (msg @ ?in) = md5_fold (md5_state ctx) (md5_rest msg @ ?in)"
    unfolding r(1) by (rule md5_fold_rest)
  show ?thesis
  proof (cases "?part \<le> n")
    case True
    then have le: "64 - ?k \<le> unat n" using part by (simp add: word_le_nat_alt)
    let ?blk = "md5_rest msg @ take (64 - ?k) ?in" and ?more = "drop (64 - ?k) ?in"
    have blk: "length ?blk = 64" using le k assms(3) by (simp add: length_md5_rest)
    have rd: "mem_read input 0 (unat ?part) = Some (take (64 - ?k) ?in)"
      using le assms(3) by (simp add: mem_read_def part min_absorb1)
    have wr: "mem_write (md5_buffer ctx) (unat ?index) (take (64 - ?k) ?in) = Some ?blk"
      using blk r(4,5) k le assms(3) by (simp add: mem_write_def ix)
    have rb: "mem_read ?blk 0 64 = Some ?blk" using blk by (rule mem_read_all)
    have more: "?more = take (unat n - (64 - ?k)) (drop (64 - ?k) input)" by (simp add: drop_take)
    have p: "unat ?part + (unat n - (64 - ?k)) = unat n" using part le by simp
    obtain i' where i': "md5_blocks (unat n) (md5_transform (md5_state ctx) ?blk) input ?part n =
        Some (md5_fold (md5_transform (md5_state ctx) ?blk) ?more, i')"
      "unat i' \<le> unat n" "take (unat (n - i')) (drop (unat i') input) = md5_rest ?more"
      using md5_blocks_fold [OF p assms(2,3) diff_le_self, of "md5_transform (md5_state ctx) ?blk"]
      unfolding part more [symmetric] by blast
    have rr: "mem_read input (unat i') (unat (n - i')) = Some (md5_rest ?more)"
      using i'(2,3) assms(3) by (simp add: mem_read_def unat_sub word_le_nat_alt)
    have lm: "length (md5_rest ?more) < 64" by (simp add: length_md5_rest)
    have wr2: "mem_write ?blk (unat (0 :: u32)) (md5_rest ?more) = Some (md5_rest ?more @ drop (length (md5_rest ?more)) ?blk)"
      using lm blk by (simp add: mem_write_def del: length_append)
    have cat: "?blk @ ?more = md5_rest msg @ ?in" by (simp only: append_assoc append_take_drop_id)
    have f: "md5_fold (md5_state ctx) (md5_rest msg @ ?in) = md5_fold (md5_transform (md5_state ctx) ?blk) ?more"
      unfolding cat [symmetric] by (rule md5_fold_block [OF blk])
    have m: "md5_rest (msg @ ?in) = md5_rest ?more"
      unfolding md5_rest_append [of msg] cat [symmetric] by (rule md5_rest_block [OF blk])
    let ?ctx' = "ctx\<lparr>md5_count0 := md5_count0 ctx + push_bit 3 n,
        md5_count1 := (if md5_count0 ctx + push_bit 3 n < push_bit 3 n then md5_count1 ctx + 1 else md5_count1 ctx) + drop_bit 29 n,
        md5_state := md5_fold (md5_transform (md5_state ctx) ?blk) ?more,
        md5_buffer := md5_rest ?more @ drop (length (md5_rest ?more)) ?blk\<rparr>"
    have "md5_update ctx input n = Some ?ctx'"
      unfolding md5_update_def Let_def using True rd wr rb i'(1) rr wr2 by (simp del: append_assoc)
    moreover have "md5_repr ?ctx' (msg @ ?in)"
    proof -
      have "length (md5_rest ?more @ drop (length (md5_rest ?more)) ?blk) = 64"
        unfolding length_append [of "md5_rest ?more"] length_drop blk using lm by simp
      moreover have "take (length (msg @ ?in) mod 64) (md5_rest ?more @ drop (length (md5_rest ?more)) ?blk) = md5_rest (msg @ ?in)"
        unfolding length_md5_rest [symmetric] m by simp
      ultimately show ?thesis
        by (intro md5_repr_update [OF fin [unfolded f, symmetric] carry(1) [folded len] carry(2) [folded len] _ _ r(6)])
    qed
    ultimately show ?thesis by blast
  next
    case False
    then have lt: "unat n < 64 - ?k" using part by (simp add: word_le_nat_alt)
    have rd: "mem_read input (unat (0 :: u32)) (unat (n - 0)) = Some ?in" using assms(3) by (simp add: mem_read_def)
    have wr: "mem_write (md5_buffer ctx) (unat ?index) ?in = Some (md5_rest msg @ ?in @ drop (?k + unat n) (md5_buffer ctx))"
      using lt r(4,5) assms(3) by (simp add: mem_write_def ix)
    have short: "length (md5_rest msg @ ?in) < 64" using lt assms(3) by (simp add: length_md5_rest)
    have f: "md5_fold (md5_state ctx) (md5_rest msg @ ?in) = md5_state ctx" using short by (subst md5_fold.simps) simp
    have m: "md5_rest (msg @ ?in) = md5_rest msg @ ?in"
      unfolding md5_rest_append [of msg] using short by (simp add: md5_rest_def [of "md5_rest msg @ ?in"])
    let ?ctx' = "ctx\<lparr>md5_count0 := md5_count0 ctx + push_bit 3 n,
        md5_count1 := (if md5_count0 ctx + push_bit 3 n < push_bit 3 n then md5_count1 ctx + 1 else md5_count1 ctx) + drop_bit 29 n,
        md5_state := md5_state ctx,
        md5_buffer := md5_rest msg @ ?in @ drop (?k + unat n) (md5_buffer ctx)\<rparr>"
    have "md5_update ctx input n = Some ?ctx'"
      unfolding md5_update_def Let_def using False rd wr by simp
    moreover have "md5_repr ?ctx' (msg @ ?in)"
    proof -
      have "length (md5_rest msg @ ?in @ drop (?k + unat n) (md5_buffer ctx)) = 64"
        using r(4) lt assms(3) by (simp add: length_md5_rest)
      moreover have "take (length (msg @ ?in) mod 64) (md5_rest msg @ ?in @ drop (?k + unat n) (md5_buffer ctx)) = md5_rest (msg @ ?in)"
        unfolding length_md5_rest [symmetric] m using assms(3) by (simp add: min_absorb2)
      ultimately show ?thesis
        by (intro md5_repr_update [OF fin [unfolded f, symmetric] carry(1) [folded len] carry(2) [folded len] _ _ r(6)])
    qed
    ultimately show ?thesis by blast
  qed
qed

lemma md5_length_byte:
  "k + 8 \<le> 32 \<Longrightarrow> ucast (drop_bit k (of_nat m :: u32) AND 0xff) = (of_nat (drop_bit k m) :: u8)"
proof -
  assume k: "k + 8 \<le> 32"
  have m: "(0xff :: u32) = mask 8" by (simp add: mask_eq_exp_minus_1)
  show ?thesis unfolding m using k
    by (intro bit_word_eqI) (auto simp: bit_simps)
qed

lemma md5_bits: "md5_encode [of_nat m, of_nat (m div 2 ^ 32)] 8 = map (\<lambda>i. of_nat (m div 256 ^ i)) [0 ..< 8]"
proof -
  have d: "m div 2 ^ 32 = drop_bit 32 m" "m div 256 ^ i = drop_bit (8 * i) m" for i
    by (simp_all add: drop_bit_eq_div power_mult)
  have "md5_encode [of_nat m, of_nat (drop_bit 32 m)] 8 = map (\<lambda>k. of_nat (drop_bit k m)) [0, 8, 16, 24, 32, 40, 48, 56]"
    using md5_length_byte [of 0 m] md5_length_byte [of 0 "drop_bit 32 m"]
    by (simp add: md5_encode_def upt_rec md5_length_byte)
  moreover have "map (\<lambda>i. drop_bit (8 * i) m) [0 ..< 8] = map (\<lambda>k. drop_bit k m) [0, 8, 16, 24, 32, 40, 48, 56]"
    by (simp add: upt_rec)
  ultimately show ?thesis unfolding d by (simp add: upt_rec)
qed

lemma md5_final_spec:
  assumes "md5_repr ctx msg"
  shows "\<exists>ctx'. md5_final ctx True = Some (ctx', Some (md5_spec msg)) \<and> md5_repr ctx' []"
proof -
  let ?k = "length msg mod 64" and ?z = "(119 - length msg mod 64) mod 64"
  let ?index = "drop_bit 3 (md5_count0 ctx) AND 0x3f"
  let ?pad = "if ?index < 56 then 56 - ?index else 120 - ?index"
  let ?bits = "md5_encode [md5_count0 ctx, md5_count1 ctx] 8"
  have r: "md5_count0 ctx = of_nat (8 * length msg)" "md5_count1 ctx = of_nat (8 * length msg div 2 ^ 32)"
    "md5_PADDING ctx = 0x80 # replicate 63 0" using assms by (simp_all add: md5_repr_def)
  have ix: "unat ?index = ?k" unfolding r(1) by (rule md5_index)
  have k: "?k < 64" by simp
  have z: "?z = (if ?k < 56 then 55 - ?k else 119 - ?k)"
    using le_mod_geq [of 64 "119 - ?k"] by simp
  have pad: "unat ?pad = Suc ?z"
  proof (cases "?k < 56")
    case True
    then have "?index < 56" using ix by (simp add: word_less_nat_alt)
    moreover have "unat (56 - ?index) = 56 - ?k" using True unat_sub [of ?index 56] ix by (simp add: word_le_nat_alt)
    ultimately show ?thesis using True z by simp linarith
  next
    case False
    then have "\<not> ?index < 56" using ix by (simp add: word_less_nat_alt)
    moreover have "unat (120 - ?index) = 120 - ?k" using k unat_sub [of ?index 120] ix by (simp add: word_le_nat_alt)
    ultimately show ?thesis using False z k by simp
  qed
  have zl: "?z < 64" by simp
  obtain c1 where c1: "md5_update ctx (md5_PADDING ctx) ?pad = Some c1"
    "md5_repr c1 (msg @ take (unat ?pad) (md5_PADDING ctx))"
    using md5_update_append [OF assms, of ?pad "md5_PADDING ctx"] zl unfolding pad r(3) by auto
  have t: "take (unat ?pad) (md5_PADDING ctx) = 0x80 # replicate ?z 0" unfolding pad r(3) by (simp add: min_def)
  have bits: "?bits = map (\<lambda>i. of_nat (8 * length msg div 256 ^ i)) [0 ..< 8]" unfolding r(1,2) by (rule md5_bits)
  then have lb: "length ?bits = 8" by simp
  obtain c2 where c2: "md5_update c1 ?bits 8 = Some c2"
    "md5_repr c2 ((msg @ take (unat ?pad) (md5_PADDING ctx)) @ take (unat (8 :: u32)) ?bits)"
    using md5_update_append [OF c1(2), of 8 ?bits] lb by auto
  have "(msg @ take (unat ?pad) (md5_PADDING ctx)) @ take (unat (8 :: u32)) ?bits = md5_pad msg"
    using lb unfolding t by (simp add: md5_pad_def bits)
  then have "md5_repr c2 (md5_pad msg)" using c2(2) by simp
  then have "md5_encode (md5_state c2) 16 = md5_spec msg" by (simp add: md5_repr_def md5_spec_def)
  then have "md5_final ctx True = Some (md5_init (c2\<lparr>md5_state := replicate 4 0, md5_count0 := 0, md5_count1 := 0,
      md5_buffer := replicate 64 0, md5_PADDING := replicate 64 0\<rparr>), Some (md5_spec msg))"
    using c1(1) c2(1) by (simp add: md5_final_def)
  then show ?thesis by (auto simp: md5_repr_def md5_init_def md5_fold.simps [of _ "[]"] md5_rest_def)
qed

fun md5_feed :: "md5ctx \<Rightarrow> bytes list \<Rightarrow> md5ctx option" where
  "md5_feed ctx [] = Some ctx"
| "md5_feed ctx (c # cs) = do { ctx \<leftarrow> md5_update ctx c (of_nat (length c)); md5_feed ctx cs }"

lemma md5_feed_repr:
  "md5_repr ctx msg \<Longrightarrow> \<forall>c \<in> set cs. length c < 2 ^ 32 - 64 \<Longrightarrow>
    \<exists>ctx'. md5_feed ctx cs = Some ctx' \<and> md5_repr ctx' (msg @ concat cs)"
proof (induction cs arbitrary: ctx msg)
  case (Cons c cs)
  have u: "unat (of_nat (length c) :: u32) = length c" using Cons.prems by (simp add: unat_of_nat)
  obtain c1 where c1: "md5_update ctx c (of_nat (length c)) = Some c1" "md5_repr c1 (msg @ c)"
    using md5_update_append [OF Cons.prems(1), of "of_nat (length c)" c] Cons.prems(2) u by auto
  then show ?case using Cons.IH [OF c1(2)] Cons.prems(2) by simp
qed simp

lemma md5_init_repr: "length (md5_buffer ctx) = 64 \<Longrightarrow> md5_repr (md5_init ctx) []"
  by (simp add: md5_repr_def md5_init_def md5_fold.simps [of _ "[]"] md5_rest_def)

text \<open>
  C22. Feeding a message in any pieces gives, through \<^const>\<open>md5_final\<close>, the digest of the whole message:
  the compression function folded over the message followed by 0x80, zeros and the 64-bit bit
  length. Every call returns and stays inside its buffers, and the context is ready for
  another message afterwards. Each piece is shorter than 2^32 - 64 bytes, where the
  loop counter of \<^const>\<open>md5_update\<close> cannot wrap.
\<close>

theorem md5_stream_correct:
  assumes "length (md5_buffer ctx) = 64" and "\<forall>c \<in> set pieces. length c < 2 ^ 32 - 64"
  shows "\<exists>ctx'. do { c \<leftarrow> md5_feed (md5_init ctx) pieces; md5_final c True } =
      Some (ctx', Some (md5_spec (concat pieces))) \<and> md5_repr ctx' []"
  using md5_feed_repr [OF md5_init_repr [OF assms(1)] assms(2)] md5_final_spec by fastforce

theorem md5_stream_correct_witness:
  "\<exists>ctx'. do { c \<leftarrow> md5_feed (md5_init \<lparr>md5_state = [], md5_count0 = 5, md5_count1 = 6,
        md5_buffer = replicate 64 9, md5_PADDING = []\<rparr>) [[97], [], [98, 99]]; md5_final c True } =
      Some (ctx', Some (md5_spec [97, 98, 99])) \<and> md5_repr ctx' []"
  using md5_stream_correct [of "\<lparr>md5_state = [], md5_count0 = 5, md5_count1 = 6,
        md5_buffer = replicate 64 9, md5_PADDING = []\<rparr>" "[[97], [], [98, 99]]"] by simp

section \<open>The compression function as the loop of RFC 1321\<close>

definition md5_T :: "u32 list" where
  "md5_T = map (\<lambda>(m, a, b, c, d, k, s, ac). ac) md5_calls"

definition md5_shift :: "nat \<Rightarrow> nat" where
  "md5_shift i = [[7, 12, 17, 22], [5, 9, 14, 20], [4, 11, 16, 23], [6, 10, 15, 21]] ! (i div 16) ! (i mod 4)"

definition md5_loop :: "u32 list \<Rightarrow> u32 \<times> u32 \<times> u32 \<times> u32 \<Rightarrow> nat \<Rightarrow> u32 \<times> u32 \<times> u32 \<times> u32" where
  "md5_loop x st i =
     (let (a, b, c, d) = st;
          (f, g) = (if i < 16 then (md5_F b c d, i)
                    else if i < 32 then (md5_G b c d, (5 * i + 1) mod 16)
                    else if i < 48 then (md5_H b c d, (3 * i + 5) mod 16)
                    else (md5_I b c d, 7 * i mod 16))
      in (d, b + word_rotl (md5_shift i) (a + f + x ! g + md5_T ! i), b, c))"

definition md5_reg :: "nat \<Rightarrow> nat" where
  "md5_reg i = (4 - i mod 4) mod 4"

definition md5_view :: "nat \<Rightarrow> u32 list \<Rightarrow> u32 \<times> u32 \<times> u32 \<times> u32" where
  "md5_view i r = (r ! md5_reg i, r ! ((md5_reg i + 1) mod 4), r ! ((md5_reg i + 2) mod 4), r ! ((md5_reg i + 3) mod 4))"

definition md5_sched_with :: "nat \<Rightarrow> u32 \<Rightarrow> md5_call_t" where
  "md5_sched_with i t =
     (let a = md5_reg i in
      ([FF, GG, HH, II] ! (i div 16), a, (a + 1) mod 4, (a + 2) mod 4, (a + 3) mod 4,
       (if i < 16 then i else if i < 32 then (5 * i + 1) mod 16 else if i < 48 then (3 * i + 5) mod 16 else 7 * i mod 16),
       md5_shift i, t))"

abbreviation md5_sched :: "nat \<Rightarrow> md5_call_t" where
  "md5_sched i \<equiv> md5_sched_with i (md5_T ! i)"

lemma ROTATE_LEFT_rotl: "0 < n \<Longrightarrow> n < 32 \<Longrightarrow> ROTATE_LEFT x n = word_rotl n x"
  unfolding ROTATE_LEFT_def by (rule shifts_rotl)

lemma length_md5_T: "length md5_T = 64"
  by (simp add: md5_T_def md5_calls_def)

lemma md5_calls_sched: "md5_calls = map (\<lambda>i. md5_sched i) [0 ..< 64]"
proof -
  have "md5_calls = map2 md5_sched_with [0 ..< 64] md5_T"
    by code_simp
  also have "\<dots> = map (\<lambda>i. md5_sched i) [0 ..< 64]"
    by (rule nth_equalityI) (simp_all add: length_md5_T)
  finally show ?thesis .
qed

lemma md5_shift_range: "i < 64 \<Longrightarrow> 0 < md5_shift i \<and> md5_shift i < 32"
proof -
  have "\<forall>i \<in> set [0 ..< 64]. 0 < md5_shift i \<and> md5_shift i < 32" by code_simp
  then show "i < 64 \<Longrightarrow> ?thesis" by simp
qed

lemma md5_mix_sched: "i < 64 \<Longrightarrow> md5_mix ([FF, GG, HH, II] ! (i div 16)) =
    (if i < 16 then md5_F else if i < 32 then md5_G else if i < 48 then md5_H else md5_I)"
proof -
  assume "i < 64"
  then have "i div 16 = (if i < 16 then 0 else if i < 32 then 1 else if i < 48 then 2 else 3)" by auto
  then show ?thesis by simp
qed

lemma md5_reg_Suc: "md5_reg (Suc i) = (md5_reg i + 3) mod 4"
proof -
  consider "i mod 4 = 0" | "i mod 4 = 1" | "i mod 4 = 2" | "i mod 4 = 3" by linarith
  then show ?thesis by cases (simp_all add: md5_reg_def mod_Suc)
qed

lemma md5_call_alt: "a < length r \<Longrightarrow> b < length r \<Longrightarrow> a \<noteq> b \<Longrightarrow>
    md5_call x r (m, a, b, c, d, k, s, ac) =
      r[a := r ! b + ROTATE_LEFT (r ! a + md5_mix m (r ! b) (r ! c) (r ! d) + x ! k + ac) s]"
proof -
  assume a: "a < length r" "b < length r" "a \<noteq> b"
  let ?t = "r ! a + md5_mix m (r ! b) (r ! c) (r ! d) + x ! k + ac"
  have "md5_call x r (m, a, b, c, d, k, s, ac) = r[a := ROTATE_LEFT ?t s + r ! b]"
    using a by (simp add: Let_def add.assoc)
  then show ?thesis by (simp only: add.commute)
qed

lemma md5_call_loop:
  assumes "i < 64" and "length r = 4"
  shows "md5_view (Suc i) (md5_call x r (md5_sched i)) = md5_loop x (md5_view i r) i"
proof -
  let ?a = "md5_reg i" and ?m = "\<lambda>k. (md5_reg i + k) mod 4"
  have a: "?a < 4" by (simp add: md5_reg_def)
  then have cases: "?a = 0 \<or> ?a = 1 \<or> ?a = 2 \<or> ?a = 3" by linarith
  have neq: "?a \<noteq> ?m 1" "?a \<noteq> ?m 2" "?a \<noteq> ?m 3" using cases by auto
  have moved: "md5_view (Suc i) q = (q ! ?m 3, q ! ?a, q ! ?m 1, q ! ?m 2)" for q
  proof -
    have "(?m 3 + 1) mod 4 = ?a" "(?m 3 + 2) mod 4 = ?m 1" "(?m 3 + 3) mod 4 = ?m 2"
      using cases by (elim disjE; simp)+
    then show ?thesis unfolding md5_view_def md5_reg_Suc by simp
  qed
  have lt: "?a < length r" "?m 1 < length r" using a assms(2) by simp_all
  have rot: "ROTATE_LEFT t (md5_shift i) = word_rotl (md5_shift i) t" for t
    using md5_shift_range [OF assms(1)] ROTATE_LEFT_rotl by blast
  have upd: "r[?a := v] ! ?a = v" "r[?a := v] ! ?m 1 = r ! ?m 1" "r[?a := v] ! ?m 2 = r ! ?m 2" "r[?a := v] ! ?m 3 = r ! ?m 3" for v
    using lt neq by simp_all
  consider "i < 16" | "16 \<le> i" "i < 32" | "32 \<le> i" "i < 48" | "48 \<le> i" by linarith
  then show ?thesis
    unfolding moved
    unfolding md5_sched_with_def Let_def md5_loop_def md5_view_def prod.case md5_call_alt [OF lt neq(1)] upd rot
      md5_mix_sched [OF assms(1)]
    by cases simp_all
qed

lemma length_md5_call: "length (md5_call x r c) = length r"
  by (induction x r c rule: md5_call.induct) (simp add: Let_def)

lemma md5_calls_loop: "n \<le> 64 \<Longrightarrow> length r = 4 \<Longrightarrow>
    length (foldl (md5_call x) r (map (\<lambda>i. md5_sched i) [0 ..< n])) = 4 \<and>
    md5_view n (foldl (md5_call x) r (map (\<lambda>i. md5_sched i) [0 ..< n])) = foldl (md5_loop x) (md5_view 0 r) [0 ..< n]"
proof (induction n)
  case (Suc n)
  let ?r = "foldl (md5_call x) r (map (\<lambda>i. md5_sched i) [0 ..< n])"
  show ?case using Suc md5_call_loop [of n ?r x] by (simp add: length_md5_call)
qed simp



end
