(* ===== verification/Naos.thy ===== *)
theory Naos
  imports Prelude "HOL-Library.Monad_Syntax" "HOL-Library.Char_ord"
begin

unbundle bit_operations_syntax

text \<open>
  \<^verbatim>\<open>src/naos.c\<close>: byte order, dotted IPv4 text, hex dumps and command lines. A C string is a \<^typ>\<open>string\<close>
  without its terminator, NULL is \<^term>\<open>None\<close>. \<^verbatim>\<open>snprintf\<close> into \<^verbatim>\<open>n\<close> cells keeps the first \<^verbatim>\<open>n - 1\<close>
  characters. An access through a NULL pointer is a failure.
\<close>

section \<open>Byte order\<close>

definition naos_chord32 :: "u32 \<Rightarrow> u32" where
  "naos_chord32 v =
     foldl (\<lambda>dst i. push_bit (if i < 3 then 8 else 0) (dst OR (drop_bit (i * 8) v AND 0xFF))) 0 [0 ..< 4]"

definition naos_chord16 :: "u16 \<Rightarrow> u16" where
  "naos_chord16 v =
     foldl (\<lambda>dst i. push_bit (if i < 1 then 8 else 0) (dst OR (drop_bit (i * 8) v AND 0xFF))) 0 [0 ..< 2]"

section \<open>Decimal text\<close>

fun dec_string :: "nat \<Rightarrow> string" where
  "dec_string n = (if n < 10 then [char_of (48 + n)] else dec_string (n div 10) @ [char_of (48 + n mod 10)])"

declare dec_string.simps [simp del]

definition is_digit :: "char \<Rightarrow> bool" where
  "is_digit c \<longleftrightarrow> CHR ''0'' \<le> c \<and> c \<le> CHR ''9''"

definition digit_value :: "char \<Rightarrow> nat" where
  "digit_value c = of_char c - 48"

text \<open>\<^verbatim>\<open>atoi\<close> and \<^verbatim>\<open>strtoul\<close> (base 10) on text that starts with a digit or is empty.\<close>

definition dec_value :: "string \<Rightarrow> nat" where
  "dec_value s = foldl (\<lambda>v c. 10 * v + digit_value c) 0 (takeWhile is_digit s)"

definition snprintf_text :: "nat \<Rightarrow> string \<Rightarrow> string" where
  "snprintf_text n s = take (n - 1) s"

section \<open>IPv4\<close>

definition INET_ADDRSTRLEN :: nat where "INET_ADDRSTRLEN = 16"

definition naos_ipv4tos :: "u32 \<Rightarrow> bool \<Rightarrow> nsp_status \<times> string option" where
  "naos_ipv4tos inet inetstr =
     (if \<not> inetstr then (posix__makeerror EINVAL, None)
      else
        (let inetby = map (\<lambda>i. unat (ucast (drop_bit (8 * i) inet AND 0xFF) :: u8)) [0 ..< 4]
         in (NSP_STATUS_SUCCESSFUL,
             Some (snprintf_text (16 - 1)
               (dec_string (inetby ! 3) @ ''.'' @ dec_string (inetby ! 2) @ ''.'' @ dec_string (inetby ! 1) @ ''.'' @
                dec_string (inetby ! 0))))))"

fun naos_legal_loop :: "string \<Rightarrow> nat \<Rightarrow> nat \<Rightarrow> nat \<Rightarrow> string list \<Rightarrow> bool" where
  "naos_legal_loop [] i j k segm = (\<not> (3 \<noteq> k \<or> j = 0) \<and> \<not> 255 < dec_value (segm ! k))"
| "naos_legal_loop (c # cursor) i j k segm =
     (if INET_ADDRSTRLEN - 1 = i \<or> 3 < k then False
      else if c = CHR ''.'' then
        (if 255 < dec_value (segm ! k) then False
         else naos_legal_loop cursor (i + 1) 0 (k + 1) segm)
      else if is_digit c then
        (if 3 \<le> j then False
         else naos_legal_loop cursor (i + 1) (j + 1) k (segm[k := segm ! k @ [c]]))
      else False)"

definition naos_is_legal_ipv4 :: "string option \<Rightarrow> bool" where
  "naos_is_legal_ipv4 inetstr =
     (case inetstr of None \<Rightarrow> False | Some s \<Rightarrow> naos_legal_loop s 0 0 0 (replicate 4 ''''))"

datatype byte_order_t = kByteOrder_LittleEndian | kByteOrder_BigEndian

definition crt_strtok :: "string \<Rightarrow> string \<Rightarrow> (string \<times> string) option" where
  "crt_strtok str delim =
     (let s = dropWhile (\<lambda>c. c \<in> set delim) str;
          t = takeWhile (\<lambda>c. c \<notin> set delim) s
      in if s = [] then None else Some (t, drop (length t + 1) s))"

function naos_tou_loop :: "byte_order_t \<Rightarrow> string \<Rightarrow> nat \<Rightarrow> u64 \<Rightarrow> u64" where
  "naos_tou_loop m str i digital =
     (case crt_strtok str ''.'' of
        None \<Rightarrow> digital
      | Some (p, rest) \<Rightarrow>
          if i < 4
          then naos_tou_loop m rest (i + 1)
                 (digital OR push_bit ((if m = kByteOrder_LittleEndian then [24, 16, 8, 0] else [0, 8, 16, 24]) ! i)
                    (of_nat (dec_value p)))
          else digital)"
  by pat_completeness auto
termination by (relation "measure (\<lambda>(m, str, i, digital). 4 - i)") auto

declare naos_tou_loop.simps [simp del]

definition naos_ipv4tou :: "bool \<Rightarrow> string option \<Rightarrow> byte_order_t \<Rightarrow> u32" where
  "naos_ipv4tou alloc inetstr m =
     (case inetstr of
        None \<Rightarrow> 0
      | Some s \<Rightarrow>
          if \<not> naos_is_legal_ipv4 inetstr then 0
          else if \<not> alloc then 0
          else ucast (naos_tou_loop m s 0 0))"

section \<open>Hex dump\<close>

definition hex_digit :: "nat \<Rightarrow> char" where
  "hex_digit n = char_of (if n < 10 then 48 + n else 55 + n)"

definition hex_cell :: "u8 \<Rightarrow> string" where
  "hex_cell b = [CHR '' '', hex_digit (unat b div 16), hex_digit (unat b mod 16)]"

text \<open>One \<^verbatim>\<open>snprintf\<close> behind the first \<^verbatim>\<open>offset\<close> characters: the display and the returned count.\<close>

definition dump_print :: "nat \<Rightarrow> string \<Rightarrow> nat \<Rightarrow> string \<Rightarrow> string \<times> nat" where
  "dump_print display_length display offset t =
     (take offset display @ take (display_length - offset - 1) t, length t)"

fun naos_dump_loop :: "nat \<Rightarrow> nat \<Rightarrow> bytes \<Rightarrow> nat \<Rightarrow> string \<Rightarrow> nat \<Rightarrow> string \<times> nat" where
  "naos_dump_loop columns display_length [] col display offset = (display, offset)"
| "naos_dump_loop columns display_length (b # bs) col display offset =
     (let (display, offset, col, stop) =
            (if col = columns
             then (let (display, written) = dump_print display_length display offset [CHR 0x0A] in
                   if display_length - offset \<le> written then (display, offset, col, True)
                   else (display, offset + written, 0, False))
             else (display, offset, col, False))
      in if stop then (display, offset)
         else
           (let (display, written) = dump_print display_length display offset (hex_cell b) in
            if display_length - offset \<le> written then (display, offset)
            else naos_dump_loop columns display_length bs (col + 1) display (offset + written)))"

text \<open>The result is the text handed to the callback and the length it is told, \<^term>\<open>None\<close> when nothing is dumped.\<close>

definition naos_hexdump :: "bool \<Rightarrow> bytes option \<Rightarrow> u16 \<Rightarrow> u8 \<Rightarrow> (string \<times> nat) option option" where
  "naos_hexdump alloc buffer n columns =
     (case buffer of
        None \<Rightarrow> Some None
      | Some buf \<Rightarrow>
          if n = 0 \<or> 8192 \<le> n then Some None
          else
            (let columns = (if columns < 2 \<or> 32 < columns then 8 else columns);
                 display_length = unat n * 3 + unat n div unat columns + 8
             in if \<not> alloc then Some None
                else do {
                  bs \<leftarrow> mem_read buf 0 (unat n);
                  let (display, offset) = dump_print display_length '''' 0 [CHR 0x0A];
                  Some (Some (naos_dump_loop (unat columns) display_length bs 0 display offset))
                }))"

section \<open>Command lines\<close>

definition isspace :: "char \<Rightarrow> bool" where
  "isspace c \<longleftrightarrow> c = CHR '' '' \<or> CHR 0x09 \<le> c \<and> c \<le> CHR 0x0D"

text \<open>
  The guard rejects every \<^verbatim>\<open>target\<close> that is not NULL, so behind it the first token is stored through a NULL
  pointer.
\<close>

fun naos_cmdline_scan :: "string \<Rightarrow> int option" where
  "naos_cmdline_scan [] = Some 0"
| "naos_cmdline_scan (c # cs) =
     (if isspace c then naos_cmdline_scan cs
      else if c = CHR 0x22 \<and> CHR 0x22 \<notin> set cs then Some (- 1)
      else None)"

definition naos_cmdline_like_analyze :: "string option \<Rightarrow> bool \<Rightarrow> int \<Rightarrow> int option" where
  "naos_cmdline_like_analyze cmdline target maxn =
     (case cmdline of
        None \<Rightarrow> Some (- 1)
      | Some s \<Rightarrow> if target \<or> maxn \<le> 0 then Some (- 1) else naos_cmdline_scan s)"

section \<open>Byte order reverses the bytes\<close>

lemma chord32_alt: "naos_chord32 v = push_bit 24 (v AND 0xFF) OR push_bit 16 (drop_bit 8 v AND 0xFF) OR
    push_bit 8 (drop_bit 16 v AND 0xFF) OR (drop_bit 24 v AND 0xFF)"
  by (simp add: naos_chord32_def upt_rec push_bit_or or.assoc)

lemma le_bytes_chord32: "le_bytes (naos_chord32 v) = rev (le_bytes v)"
proof -
  have m: "(0xFF :: u32) = mask 8" by (simp add: mask_eq_exp_minus_1)
  have "ucast (naos_chord32 v) = (ucast (drop_bit 24 v) :: u8)"
    "ucast (drop_bit 8 (naos_chord32 v)) = (ucast (drop_bit 16 v) :: u8)"
    "ucast (drop_bit 16 (naos_chord32 v)) = (ucast (drop_bit 8 v) :: u8)"
    "ucast (drop_bit 24 (naos_chord32 v)) = (ucast v :: u8)"
    unfolding chord32_alt m by (rule u8_eqI; simp add: bit_simps)+
  then show ?thesis by (simp add: le_bytes_def)
qed

lemma chord32_involution: "naos_chord32 (naos_chord32 v) = v"
  by (metis le_bytes_chord32 of_le_bytes_le_bytes rev_rev_ident)

section \<open>Which addresses are accepted\<close>

fun split_dots :: "string \<Rightarrow> string list" where
  "split_dots [] = [[]]"
| "split_dots (c # cs) = (if c = CHR ''.'' then [] # split_dots cs else (c # hd (split_dots cs)) # tl (split_dots cs))"

definition legal_part :: "string \<Rightarrow> bool" where
  "legal_part p \<longleftrightarrow> length p \<le> 3 \<and> (\<forall>c \<in> set p. is_digit c) \<and> dec_value p \<le> 255"

lemma split_dots_ne [simp]: "split_dots s \<noteq> []"
  by (cases s) auto

lemma legal_loop_over: "3 < k \<Longrightarrow> \<not> naos_legal_loop s i j k segm"
  by (cases s) auto

lemma dot_not_digit [simp]: "\<not> is_digit (CHR ''.'')"
  by (simp add: is_digit_def less_eq_char_def)

definition legal_rest :: "nat \<Rightarrow> string \<Rightarrow> string list \<Rightarrow> bool" where
  "legal_rest k seg ps \<longleftrightarrow>
     k + length ps = 4 \<and> (\<forall>q \<in> set ((seg @ hd ps) # tl ps). legal_part q) \<and> last ((seg @ hd ps) # tl ps) \<noteq> []"

lemma legal_loop_iff:
  assumes "k \<le> 3" and "length segm = 4" and "j = length (segm ! k)" and "j \<le> 3" and "i \<le> 4 * k + j"
    and "\<forall>c \<in> set (segm ! k). is_digit c" and "\<forall>m. k < m \<and> m < 4 \<longrightarrow> segm ! m = []"
  shows "naos_legal_loop s i j k segm \<longleftrightarrow> legal_rest k (segm ! k) (split_dots s)"
  using assms
proof (induction s arbitrary: i j k segm)
  case Nil
  then show ?case by (auto simp: legal_rest_def legal_part_def)
next
  case (Cons c cs)
  show ?case
  proof (cases "c = CHR ''.''")
    case True
    then have rest: "legal_rest k (segm ! k) (split_dots (c # cs)) \<longleftrightarrow>
        legal_part (segm ! k) \<and> legal_rest (Suc k) [] (split_dots cs)"
      by (cases "split_dots cs") (auto simp: legal_rest_def)
    have part: "legal_part (segm ! k) \<longleftrightarrow> \<not> 255 < dec_value (segm ! k)"
      using Cons.prems by (auto simp: legal_part_def)
    have over: "\<not> legal_rest (Suc k) [] (split_dots cs)" if "k = 3"
      using that by (cases "split_dots cs") (auto simp: legal_rest_def)
    show ?thesis
    proof (cases "k = 3")
      case k3: True
      then show ?thesis using True rest over legal_loop_over [of 4 cs "i + 1" 0 segm] by simp
    next
      case False
      then have "k < 3" using Cons.prems(1) by simp
      then have "naos_legal_loop cs (i + 1) 0 (Suc k) segm \<longleftrightarrow> legal_rest (Suc k) [] (split_dots cs)"
        using Cons.IH [of "Suc k" segm 0 "i + 1"] Cons.prems by simp
      then show ?thesis using True rest part Cons.prems(4,5) \<open>k < 3\<close> by (simp add: INET_ADDRSTRLEN_def)
    qed
  next
    case False
    then have rest: "legal_rest k (segm ! k) (split_dots (c # cs)) \<longleftrightarrow> legal_rest k (segm ! k @ [c]) (split_dots cs)"
      by (auto simp: legal_rest_def)
    show ?thesis
    proof (cases "is_digit c \<and> j < 3")
      case True
      then have "naos_legal_loop cs (i + 1) (j + 1) k (segm[k := segm ! k @ [c]]) \<longleftrightarrow>
          legal_rest k (segm ! k @ [c]) (split_dots cs)"
        using Cons.IH [of k "segm[k := segm ! k @ [c]]" "j + 1" "i + 1"] Cons.prems by simp
      then show ?thesis using True False rest Cons.prems(1,5) by (simp add: INET_ADDRSTRLEN_def)
    next
      case no: False
      then have "\<not> legal_rest k (segm ! k @ [c]) (split_dots cs)"
        using Cons.prems by (auto simp: legal_rest_def legal_part_def)
      then show ?thesis using False no rest by auto
    qed
  qed
qed

lemma naos_legal_iff: "naos_is_legal_ipv4 (Some s) \<longleftrightarrow>
    length (split_dots s) = 4 \<and> (\<forall>p \<in> set (split_dots s). legal_part p) \<and> last (split_dots s) \<noteq> []"
  using legal_loop_iff [of 0 "replicate 4 ''''" 0 0 s]
  by (cases "split_dots s") (auto simp: naos_is_legal_ipv4_def legal_rest_def)

text \<open>
  C30. A text is accepted as an IPv4 address exactly when it has four parts separated by dots, each of at most
  three digits and of value at most 255, and the last part is not empty. (The first three may be
  empty.)
\<close>

theorem naos_is_legal_ipv4_iff: "naos_is_legal_ipv4 t \<longleftrightarrow>
    (\<exists>s. t = Some s \<and> length (split_dots s) = 4 \<and> (\<forall>p \<in> set (split_dots s). legal_part p) \<and> last (split_dots s) \<noteq> [])"
  by (cases t) (simp_all add: naos_legal_iff, simp add: naos_is_legal_ipv4_def)

theorem naos_is_legal_ipv4_iff_witness: "naos_is_legal_ipv4 (Some ''1..2.3'')"
  unfolding naos_is_legal_ipv4_iff by (simp add: legal_part_def dec_value_def digit_value_def is_digit_def less_eq_char_def)

section \<open>Printing and parsing addresses\<close>

lemma is_digit_char: "n < 10 \<Longrightarrow> is_digit (char_of (48 + n)) \<and> digit_value (char_of (48 + n)) = n" for n :: nat
  by (simp add: is_digit_def less_eq_char_def digit_value_def)

lemma dec_digits: "c \<in> set (dec_string n) \<Longrightarrow> is_digit c"
  by (induction n arbitrary: c rule: dec_string.induct)
    (subst (asm) dec_string.simps, auto simp: is_digit_char split: if_splits)

lemma dec_value_digits: "\<forall>c \<in> set s. is_digit c \<Longrightarrow> dec_value s = foldl (\<lambda>v c. 10 * v + digit_value c) 0 s"
  unfolding dec_value_def by (subst takeWhile_eq_all_conv [THEN iffD2]) auto

lemma dec_value_string: "dec_value (dec_string n) = n"
proof -
  have "foldl (\<lambda>v c. 10 * v + digit_value c) 0 (dec_string n) = n"
    by (induction n rule: dec_string.induct) (subst dec_string.simps, simp add: is_digit_char)
  then show ?thesis using dec_value_digits [of "dec_string n"] dec_digits by simp
qed

lemma dec_string_ne: "dec_string n \<noteq> []"
  by (subst dec_string.simps) auto

lemma length_dec_string: "n < 1000 \<Longrightarrow> length (dec_string n) = (if n < 10 then 1 else if n < 100 then 2 else 3)"
proof -
  assume n: "n < 1000"
  have one: "length (dec_string m) = 1" if "m < 10" for m using that by (subst dec_string.simps) simp
  have more: "length (dec_string m) = Suc (length (dec_string (m div 10)))" if "\<not> m < 10" for m
    using that by (subst dec_string.simps) simp
  consider "n < 10" | "10 \<le> n" "n < 100" | "100 \<le> n" by linarith
  then show ?thesis
  proof cases
    case 1
    then show ?thesis by (simp add: one)
  next
    case 2
    then have "n div 10 < 10" by auto
    with 2 show ?thesis by (simp add: more one)
  next
    case 3
    then have "\<not> n div 10 < 10" "n div 10 div 10 < 10" using n by auto
    with 3 show ?thesis by (simp add: more [of n] more [of "n div 10"] one)
  qed
qed

lemma split_dots_part: "CHR ''.'' \<notin> set p \<Longrightarrow> split_dots (p @ s) = (p @ hd (split_dots s)) # tl (split_dots s)"
  by (induction p) auto

lemma split_dots_no_dot: "CHR ''.'' \<notin> set p \<Longrightarrow> split_dots p = [p]"
  using split_dots_part [of p "[]"] by simp

lemma strtok_part: "p \<noteq> [] \<Longrightarrow> CHR ''.'' \<notin> set p \<Longrightarrow> crt_strtok (p @ CHR ''.'' # r) ''.'' = Some (p, r)"
  "p \<noteq> [] \<Longrightarrow> CHR ''.'' \<notin> set p \<Longrightarrow> crt_strtok p ''.'' = Some (p, [])"
proof -
  assume a: "p \<noteq> []" "CHR ''.'' \<notin> set p"
  have d: "dropWhile (\<lambda>c. c \<in> set ''.'') (p @ x) = p @ x" for x using a by (cases p) auto
  have d0: "dropWhile (\<lambda>c. c \<in> set ''.'') p = p" using a by (cases p) auto
  have t: "takeWhile (\<lambda>c. c \<notin> set ''.'') (p @ CHR ''.'' # r) = p" "takeWhile (\<lambda>c. c \<notin> set ''.'') p = p"
    using a by (auto simp: takeWhile_tail)
  show "crt_strtok (p @ CHR ''.'' # r) ''.'' = Some (p, r)" "crt_strtok p ''.'' = Some (p, [])"
    using a(1) unfolding crt_strtok_def Let_def d d0 t by simp_all
qed

definition part_ok :: "string \<Rightarrow> bool" where
  "part_ok p \<longleftrightarrow> p \<noteq> [] \<and> legal_part p"

lemma part_no_dot: "part_ok p \<Longrightarrow> CHR ''.'' \<notin> set p"
  by (auto simp: part_ok_def legal_part_def)

definition dotted :: "string \<Rightarrow> string \<Rightarrow> string \<Rightarrow> string \<Rightarrow> string" where
  "dotted a b c d = a @ CHR ''.'' # b @ CHR ''.'' # c @ CHR ''.'' # d"

lemma dotted_legal:
  assumes "part_ok a" "part_ok b" "part_ok c" "part_ok d"
  shows "naos_is_legal_ipv4 (Some (dotted a b c d))"
proof -
  have "split_dots (dotted a b c d) = [a, b, c, d]"
    using assms [THEN part_no_dot] by (simp add: dotted_def split_dots_part split_dots_no_dot)
  then show ?thesis using assms by (simp add: naos_legal_iff part_ok_def)
qed

lemma tou_loop_dotted:
  assumes "part_ok a" "part_ok b" "part_ok c" "part_ok d"
    and "s = (\<lambda>i. (if m = kByteOrder_LittleEndian then [24, 16, 8, 0] else [0, 8, 16, 24]) ! i)"
  shows "naos_tou_loop m (dotted a b c d) 0 0 =
    ((push_bit (s 0) (of_nat (dec_value a)) OR push_bit (s 1) (of_nat (dec_value b))) OR
      push_bit (s 2) (of_nat (dec_value c))) OR push_bit (s 3) (of_nat (dec_value d))"
proof -
  note ne = assms(1-4) [unfolded part_ok_def, THEN conjunct1] and nd = assms(1-4) [THEN part_no_dot]
  have "crt_strtok [] ''.'' = None" by (simp add: crt_strtok_def)
  then show ?thesis unfolding dotted_def assms(5)
    using ne nd by (simp add: naos_tou_loop.simps strtok_part numeral_2_eq_2 numeral_3_eq_3)
qed

lemma of_le_bytes_cast:
  fixes a b c d :: u8
  shows "ucast (((push_bit 24 (ucast a) OR push_bit 16 (ucast b)) OR push_bit 8 (ucast c)) OR push_bit 0 (ucast d) :: u64) =
      of_le_bytes [d, c, b, a]"
    and "ucast (((push_bit 0 (ucast a) OR push_bit 8 (ucast b)) OR push_bit 16 (ucast c)) OR push_bit 24 (ucast d) :: u64) =
      of_le_bytes [a, b, c, d]"
  by (rule bit_word_eqI; auto simp: of_le_bytes_def bit_simps)+

lemma of_le_bytes_shift:
  assumes "a < 256" "b < 256" "c < 256" "d < 256"
  shows "ucast (((push_bit 24 (of_nat a) OR push_bit 16 (of_nat b)) OR push_bit 8 (of_nat c)) OR push_bit 0 (of_nat d) :: u64) =
      of_le_bytes [of_nat d, of_nat c, of_nat b, of_nat a]"
    and "ucast (((push_bit 0 (of_nat a) OR push_bit 8 (of_nat b)) OR push_bit 16 (of_nat c)) OR push_bit 24 (of_nat d) :: u64) =
      of_le_bytes [of_nat a, of_nat b, of_nat c, of_nat d]"
proof -
  have w: "(of_nat n :: u64) = ucast (of_nat n :: u8)" if "n < 256" for n
    using that by (simp add: word_unat_eq_iff unsigned_ucast_eq unat_of_nat take_bit_nat_eq_self)
  note cast = of_le_bytes_cast [of "of_nat a" "of_nat b" "of_nat c" "of_nat d"]
  show "ucast (((push_bit 24 (of_nat a) OR push_bit 16 (of_nat b)) OR push_bit 8 (of_nat c)) OR push_bit 0 (of_nat d) :: u64) =
      of_le_bytes [of_nat d, of_nat c, of_nat b, of_nat a]"
    unfolding assms [THEN w] by (rule cast(1))
  show "ucast (((push_bit 0 (of_nat a) OR push_bit 8 (of_nat b)) OR push_bit 16 (of_nat c)) OR push_bit 24 (of_nat d) :: u64) =
      of_le_bytes [of_nat a, of_nat b, of_nat c, of_nat d]"
    unfolding assms [THEN w] by (rule cast(2))
qed

lemma part_ok_dec: "n < 256 \<Longrightarrow> part_ok (dec_string n)"
  using length_dec_string [of n] by (auto simp: part_ok_def legal_part_def dec_string_ne dec_value_string dest: dec_digits)

lemma tou_dotted_dec:
  assumes "a < 256" "b < 256" "c < 256" "d < 256"
  shows "naos_ipv4tou True (Some (dotted (dec_string a) (dec_string b) (dec_string c) (dec_string d))) kByteOrder_LittleEndian =
      of_le_bytes [of_nat d, of_nat c, of_nat b, of_nat a]"
    and "naos_ipv4tou True (Some (dotted (dec_string a) (dec_string b) (dec_string c) (dec_string d))) kByteOrder_BigEndian =
      of_le_bytes [of_nat a, of_nat b, of_nat c, of_nat d]"
proof -
  note ok = assms [THEN part_ok_dec]
  note loop = tou_loop_dotted [OF ok refl, unfolded dec_value_string]
  show "naos_ipv4tou True (Some (dotted (dec_string a) (dec_string b) (dec_string c) (dec_string d))) kByteOrder_LittleEndian =
      of_le_bytes [of_nat d, of_nat c, of_nat b, of_nat a]"
    using dotted_legal [OF ok] loop [of kByteOrder_LittleEndian] of_le_bytes_shift(1) [OF assms]
    by (simp add: naos_ipv4tou_def numeral_2_eq_2 numeral_3_eq_3)
  show "naos_ipv4tou True (Some (dotted (dec_string a) (dec_string b) (dec_string c) (dec_string d))) kByteOrder_BigEndian =
      of_le_bytes [of_nat a, of_nat b, of_nat c, of_nat d]"
    using dotted_legal [OF ok] loop [of kByteOrder_BigEndian] of_le_bytes_shift(2) [OF assms]
    by (simp add: naos_ipv4tou_def numeral_2_eq_2 numeral_3_eq_3)
qed

lemma dotted_take:
  assumes "a < 256" "b < 256" "c < 256" "d < 256" and "t = dotted (dec_string a) (dec_string b) (dec_string c) (dec_string d)"
    and "14 < length t"
  shows "take 14 t = dotted (dec_string a) (dec_string b) (dec_string c) (dec_string (d div 10))"
proof -
  have l: "length (dec_string n) \<le> 3" if "n < 256" for n using length_dec_string [of n] that by simp
  have eq: "length (dec_string a) = 3" "length (dec_string b) = 3" "length (dec_string c) = 3" "length (dec_string d) = 3"
    using assms(5,6) l [OF assms(1)] l [OF assms(2)] l [OF assms(3)] l [OF assms(4)] by (simp_all add: dotted_def)
  then have d: "dec_string d = dec_string (d div 10) @ [char_of (48 + d mod 10)]"
    using length_dec_string [of d] assms(4) by (subst dec_string.simps) (simp split: if_splits)
  then have "length (dec_string (d div 10)) = 2" using eq(4) by simp
  then have "length (dotted (dec_string a) (dec_string b) (dec_string c) (dec_string (d div 10))) = 14"
    using eq by (simp add: dotted_def)
  moreover have "t = dotted (dec_string a) (dec_string b) (dec_string c) (dec_string (d div 10)) @ [char_of (48 + d mod 10)]"
    unfolding assms(5) dotted_def by (subst d) simp
  ultimately show ?thesis by simp
qed

definition ipv4_text :: "u32 \<Rightarrow> string" where
  "ipv4_text u = dotted (dec_string (unat (le_bytes u ! 3))) (dec_string (unat (le_bytes u ! 2)))
     (dec_string (unat (le_bytes u ! 1))) (dec_string (unat (le_bytes u ! 0)))"

lemma ipv4tos_text: "naos_ipv4tos u True = (NSP_STATUS_SUCCESSFUL, Some (take 14 (ipv4_text u)))"
proof -
  have m: "(0xFF :: u32) = mask 8" by (simp add: mask_eq_exp_minus_1)
  have "ucast (drop_bit k u AND 0xFF) = (ucast (drop_bit k u) :: u8)" for k
    unfolding m by (rule bit_word_eqI) (simp add: bit_simps)
  then show ?thesis
    by (simp add: naos_ipv4tos_def ipv4_text_def dotted_def le_bytes_def snprintf_text_def upt_rec numeral_2_eq_2 numeral_3_eq_3)
qed

text \<open>
  C29. Printing an address always succeeds and keeps at most 14 characters of its dotted form. If the form
  is no longer than that, parsing gives the address back, or its byte-swapped value for the other
  byte order; a form of 15 characters loses its last digit, so the last octet parses as a tenth of
  itself.
\<close>

theorem naos_ipv4_round_trip:
  assumes "s = take 14 (ipv4_text u)"
  shows "naos_ipv4tos u True = (NSP_STATUS_SUCCESSFUL, Some s) \<and>
    (length (ipv4_text u) \<le> 14 \<longrightarrow>
      naos_ipv4tou True (Some s) kByteOrder_LittleEndian = u \<and>
      naos_ipv4tou True (Some s) kByteOrder_BigEndian = naos_chord32 u) \<and>
    (14 < length (ipv4_text u) \<longrightarrow>
      naos_ipv4tou True (Some s) kByteOrder_LittleEndian = of_le_bytes ((le_bytes u)[0 := le_bytes u ! 0 div 10]))"
proof -
  let ?b = "\<lambda>i. unat (le_bytes u ! i)"
  have lt: "?b i < 256" for i using unsigned_less [of "le_bytes u ! i"] by simp
  have bytes: "le_bytes u = [of_nat (?b 0), of_nat (?b 1), of_nat (?b 2), of_nat (?b 3)]"
    by (simp add: le_bytes_def numeral_2_eq_2 numeral_3_eq_3)
  note tou = tou_dotted_dec [OF lt lt lt lt, folded ipv4_text_def]
  have short: "naos_ipv4tou True (Some s) kByteOrder_LittleEndian = u \<and>
      naos_ipv4tou True (Some s) kByteOrder_BigEndian = naos_chord32 u" if "length (ipv4_text u) \<le> 14"
  proof -
    have s: "s = ipv4_text u" using that assms by simp
    have "of_le_bytes (rev (le_bytes u)) = naos_chord32 u" by (metis le_bytes_chord32 of_le_bytes_le_bytes)
    moreover have "rev (le_bytes u) = [of_nat (?b 3), of_nat (?b 2), of_nat (?b 1), of_nat (?b 0)]" by (subst bytes) simp
    ultimately show ?thesis
      unfolding s ipv4_text_def tou_dotted_dec [OF lt lt lt lt] bytes [symmetric] by (simp add: of_le_bytes_le_bytes)
  qed
  have long: "naos_ipv4tou True (Some s) kByteOrder_LittleEndian = of_le_bytes ((le_bytes u)[0 := le_bytes u ! 0 div 10])"
    if "14 < length (ipv4_text u)"
  proof -
    have s: "s = dotted (dec_string (?b 3)) (dec_string (?b 2)) (dec_string (?b 1)) (dec_string (?b 0 div 10))"
      unfolding assms using dotted_take [OF lt lt lt lt ipv4_text_def that] .
    have "?b 0 div 10 < 256" using lt [of 0] by simp
    moreover have "of_nat (?b 0 div 10) = le_bytes u ! 0 div 10"
      using \<open>?b 0 div 10 < 256\<close> by (simp add: word_unat_eq_iff unat_div unat_of_nat)
    moreover have "(le_bytes u)[0 := x] = [x, of_nat (?b 1), of_nat (?b 2), of_nat (?b 3)]" for x by (subst bytes) simp
    ultimately show ?thesis unfolding s using tou_dotted_dec(1) [OF lt lt lt, of "?b 0 div 10"] by simp
  qed
  show ?thesis using ipv4tos_text [of u] assms short long by blast
qed

theorem naos_ipv4_round_trip_witness:
  "naos_ipv4tos 0xC0A8FEC8 True = (NSP_STATUS_SUCCESSFUL, Some ''192.168.254.20'') \<and>
   naos_ipv4tou True (Some ''192.168.254.20'') kByteOrder_LittleEndian = 0xC0A8FE14"
proof -
  have t: "ipv4_text 0xC0A8FEC8 = ''192.168.254.200''"
    by (simp add: ipv4_text_def le_bytes_def dotted_def dec_string.simps char_of_def bit_0)
  have "le_bytes 0xC0A8FEC8 = [200, 254, 168, 192]" by (simp add: le_bytes_def)
  moreover have "take 14 ''192.168.254.200'' = ''192.168.254.20''" by simp
  ultimately show ?thesis
    using naos_ipv4_round_trip [where u = "0xC0A8FEC8", OF refl] unfolding t by (simp add: of_le_bytes_def)
qed

section \<open>The dump is never cut off\<close>

function dump_rows :: "nat \<Rightarrow> bytes \<Rightarrow> string" where
  "dump_rows k bs =
     (if bs = [] \<or> k = 0 then [] else CHR 0x0A # concat (map hex_cell (take k bs)) @ dump_rows k (drop k bs))"
  by pat_completeness auto
termination by (relation "measure (\<lambda>(k, bs). length bs)") auto

declare dump_rows.simps [simp del]

fun dump_rest :: "nat \<Rightarrow> nat \<Rightarrow> bytes \<Rightarrow> string" where
  "dump_rest k col [] = []"
| "dump_rest k col (b # bs) =
     (if col = k then CHR 0x0A # hex_cell b @ dump_rest k 1 bs else hex_cell b @ dump_rest k (Suc col) bs)"

lemma dump_rest_rows: "0 < k \<Longrightarrow> col \<le> k \<Longrightarrow>
    dump_rest k col bs = concat (map hex_cell (take (k - col) bs)) @ dump_rows k (drop (k - col) bs)"
proof (induction bs arbitrary: col)
  case Nil
  then show ?case by (simp add: dump_rows.simps)
next
  case (Cons b bs)
  show ?case
  proof (cases "col = k")
    case True
    have "dump_rows k (b # bs) = CHR 0x0A # hex_cell b @ concat (map hex_cell (take (k - 1) bs)) @ dump_rows k (drop (k - 1) bs)"
      using Cons.prems by (subst dump_rows.simps) (simp add: take_Cons' drop_Cons')
    then show ?thesis using True Cons.IH [of 1] Cons.prems by simp
  next
    case False
    then have "k - col = Suc (k - Suc col)" using Cons.prems by simp
    then show ?thesis using False Cons.IH [of "Suc col"] Cons.prems by simp
  qed
qed

lemma length_dump_rest: "0 < k \<Longrightarrow> col \<le> k \<Longrightarrow> \<exists>nl. length (dump_rest k col bs) = 3 * length bs + nl \<and> nl * k \<le> col + length bs"
proof (induction bs arbitrary: col)
  case (Cons b bs)
  show ?case
  proof (cases "col = k")
    case True
    obtain nl where "length (dump_rest k 1 bs) = 3 * length bs + nl" "nl * k \<le> 1 + length bs"
      using Cons.IH [of 1] Cons.prems by auto
    then show ?thesis using True by (intro exI [of _ "Suc nl"]) (simp add: hex_cell_def)
  next
    case False
    then obtain nl where "length (dump_rest k (Suc col) bs) = 3 * length bs + nl" "nl * k \<le> Suc col + length bs"
      using Cons.IH [of "Suc col"] Cons.prems by auto
    then show ?thesis using False by (intro exI [of _ nl]) (simp add: hex_cell_def)
  qed
qed simp

lemma dump_loop_complete:
  "0 < k \<Longrightarrow> length display = offset \<Longrightarrow> offset + length (dump_rest k col bs) < dl \<Longrightarrow>
    naos_dump_loop k dl bs col display offset = (display @ dump_rest k col bs, offset + length (dump_rest k col bs))"
proof (induction bs arbitrary: col display offset)
  case (Cons b bs)
  have cell: "length (hex_cell b) = 3" by (simp add: hex_cell_def)
  show ?case
  proof (cases "col = k")
    case True
    then have "offset + 4 + length (dump_rest k 1 bs) < dl" using Cons.prems cell by simp
    then have "\<not> dl - offset \<le> 1" "\<not> dl - Suc offset \<le> 3" "4 + offset + length (dump_rest k 1 bs) < dl" by linarith+
    then show ?thesis
      using True Cons.IH [of "display @ CHR 0x0A # hex_cell b" "4 + offset" 1] Cons.prems(1,2) cell
      by (simp add: dump_print_def)
  next
    case False
    then have "offset + 3 + length (dump_rest k (Suc col) bs) < dl" using Cons.prems cell by simp
    then show ?thesis
      using False Cons.IH [of "display @ hex_cell b" "offset + 3" "Suc col"] Cons.prems(1,2) cell
      by (simp add: dump_print_def)
  qed
qed simp

text \<open>
  The display buffer of a dump is large enough for every length and column count the
  function accepts: the callback receives all rows, each a newline and the cells of its bytes, and
  their exact length. A column count outside 2 to 32 means 8.
\<close>

theorem naos_hexdump_complete:
  assumes "n \<noteq> 0" and "n < 8192" and "unat n \<le> length buf"
    and "k = (if columns < 2 \<or> 32 < columns then 8 else unat columns)"
  shows "naos_hexdump True (Some buf) n columns =
    Some (Some (dump_rows k (take (unat n) buf), length (dump_rows k (take (unat n) buf))))"
proof -
  let ?bs = "take (unat n) buf"
  have k: "0 < k" "unat (if columns < 2 \<or> 32 < columns then 8 else columns) = k"
    using assms(4) by (auto simp: word_less_nat_alt split: if_splits)
  have n: "0 < unat n" using assms(1) by (simp add: unat_gt_0)
  have len: "length ?bs = unat n" using assms(3) by simp
  have rows: "dump_rows k ?bs = CHR 0x0A # dump_rest k 0 ?bs"
    using dump_rest_rows [of k 0 ?bs] k(1) n len by (subst dump_rows.simps) auto
  obtain nl where nl: "length (dump_rest k 0 ?bs) = 3 * length ?bs + nl" "nl * k \<le> length ?bs"
    using length_dump_rest [OF k(1), of 0 ?bs] by auto
  then have "nl \<le> unat n div k" using k(1) len by (simp add: less_eq_div_iff_mult_less_eq)
  then have fit: "1 + length (dump_rest k 0 ?bs) < unat n * 3 + unat n div k + 8" using nl(1) len by simp
  show ?thesis
    using dump_loop_complete [OF k(1) _ fit, of "[CHR 0x0A]"] assms(1-3) k(2) rows
    by (simp add: naos_hexdump_def Let_def mem_read_def dump_print_def)
qed

theorem naos_hexdump_complete_witness:
  "naos_hexdump True (Some [1, 0xAB, 7]) 3 2 = Some (Some (dump_rows 2 [1, 0xAB, 7], length (dump_rows 2 [1, 0xAB, 7]))) \<and>
   dump_rows 2 [1, 0xAB, 7] = CHR 0x0A # '' 01 AB'' @ CHR 0x0A # '' 07''"
proof
  have bytes: "take (unat (3 :: u16)) [1, 0xAB, 7 :: u8] = [1, 0xAB, 7]" by simp
  show "naos_hexdump True (Some [1, 0xAB, 7]) 3 2 = Some (Some (dump_rows 2 [1, 0xAB, 7], length (dump_rows 2 [1, 0xAB, 7])))"
    by (rule naos_hexdump_complete [of 3 "[1, 0xAB, 7]" 2 2, unfolded bytes]) simp_all
  show "dump_rows 2 [1, 0xAB, 7] = CHR 0x0A # '' 01 AB'' @ CHR 0x0A # '' 07''"
    by (simp add: dump_rows.simps [of 2 "[1, 0xAB, 7]"] dump_rows.simps [of 2 "[7]"] dump_rows.simps [of 2 "[]"]
        hex_cell_def hex_digit_def char_of_def bit_0)
qed

text \<open>The guard of the command-line splitter rejects every caller that supplies a target array.\<close>

lemma naos_cmdline_rejects_target: "naos_cmdline_like_analyze cmdline True maxn = Some (- 1)"
  by (simp add: naos_cmdline_like_analyze_def split: option.split)

end
