(* ===== verification/Sha256.thy ===== *)
theory Sha256
  imports Naos
begin

unbundle bit_operations_syntax

text \<open>
  \<^verbatim>\<open>src/hash.c\<close>, last part: SHA-256. The code works on \<^verbatim>\<open>int\<close>: the model keeps 32-bit words, with
  arithmetic right shifts where the code shifts an \<^verbatim>\<open>int\<close> right and wrap-around where it adds. Words
  in memory are little-endian. The work buffer comes from \<^verbatim>\<open>ztrymalloc\<close>, a parameter: a
  block of arbitrary content or NULL.
\<close>

section \<open>Macros and constants\<close>

definition SHA256_ROTL :: "u32 \<Rightarrow> nat \<Rightarrow> u32" where
  "SHA256_ROTL a b = (signed_drop_bit (32 - b) a AND drop_bit (31 - b) 0x7fffffff) OR push_bit b a"

definition SHA256_SR :: "u32 \<Rightarrow> nat \<Rightarrow> u32" where
  "SHA256_SR a b = signed_drop_bit b a AND drop_bit (b - 1) 0x7fffffff"

definition SHA256_Ch :: "u32 \<Rightarrow> u32 \<Rightarrow> u32 \<Rightarrow> u32" where
  "SHA256_Ch x y z = (x AND y) XOR (NOT x AND z)"

definition SHA256_Maj :: "u32 \<Rightarrow> u32 \<Rightarrow> u32 \<Rightarrow> u32" where
  "SHA256_Maj x y z = (x AND y) XOR (x AND z) XOR (y AND z)"

definition SHA256_E0 :: "u32 \<Rightarrow> u32" where
  "SHA256_E0 x = SHA256_ROTL x 30 XOR SHA256_ROTL x 19 XOR SHA256_ROTL x 10"

definition SHA256_E1 :: "u32 \<Rightarrow> u32" where
  "SHA256_E1 x = SHA256_ROTL x 26 XOR SHA256_ROTL x 21 XOR SHA256_ROTL x 7"

definition SHA256_O0 :: "u32 \<Rightarrow> u32" where
  "SHA256_O0 x = SHA256_ROTL x 25 XOR SHA256_ROTL x 14 XOR SHA256_SR x 3"

definition SHA256_O1 :: "u32 \<Rightarrow> u32" where
  "SHA256_O1 x = SHA256_ROTL x 15 XOR SHA256_ROTL x 13 XOR SHA256_SR x 10"

definition SHA256_KEY :: "u32 list" where
  "SHA256_KEY = concat [
    [0x428a2f98, 0x71374491, 0xb5c0fbcf, 0xe9b5dba5, 0x3956c25b, 0x59f111f1, 0x923f82a4, 0xab1c5ed5],
    [0xd807aa98, 0x12835b01, 0x243185be, 0x550c7dc3, 0x72be5d74, 0x80deb1fe, 0x9bdc06a7, 0xc19bf174],
    [0xe49b69c1, 0xefbe4786, 0x0fc19dc6, 0x240ca1cc, 0x2de92c6f, 0x4a7484aa, 0x5cb0a9dc, 0x76f988da],
    [0x983e5152, 0xa831c66d, 0xb00327c8, 0xbf597fc7, 0xc6e00bf3, 0xd5a79147, 0x06ca6351, 0x14292967],
    [0x27b70a85, 0x2e1b2138, 0x4d2c6dfc, 0x53380d13, 0x650a7354, 0x766a0abb, 0x81c2c92e, 0x92722c85],
    [0xa2bfe8a1, 0xa81a664b, 0xc24b8b70, 0xc76c51a3, 0xd192e819, 0xd6990624, 0xf40e3585, 0x106aa070],
    [0x19a4c116, 0x1e376c08, 0x2748774c, 0x34b0bcb5, 0x391c0cb3, 0x4ed8aa4a, 0x5b9cca4f, 0x682e6ff3],
    [0x748f82ee, 0x78a5636f, 0x84c87814, 0x8cc70208, 0x90befffa, 0xa4506ceb, 0xbef9a3f7, 0xc67178f2]]"

definition sha256_iv :: "u32 list" where
  "sha256_iv = [0x6a09e667, 0xbb67ae85, 0x3c6ef372, 0xa54ff53a, 0x510e527f, 0x9b05688c, 0x1f83d9ab, 0x5be0cd19]"

section \<open>The function\<close>

fun sha256_fill :: "bytes \<Rightarrow> nat \<Rightarrow> bytes \<Rightarrow> bytes option" where
  "sha256_fill cursor i [] = Some cursor"
| "sha256_fill cursor i (x # xs) = do {
     cursor \<leftarrow> mem_put cursor (i + 3 - 2 * (i mod 4)) x;
     sha256_fill cursor (i + 1) xs
   }"

definition sha256_expand :: "u32 list \<Rightarrow> nat \<Rightarrow> u32 list" where
  "sha256_expand W i = W @ [SHA256_O1 (W ! (i - 2)) + W ! (i - 7) + SHA256_O0 (W ! (i - 15)) + W ! (i - 16)]"

definition sha256_W :: "bytes \<Rightarrow> u32 list" where
  "sha256_W block = foldl sha256_expand (map (\<lambda>i. of_le_bytes (take 4 (drop (4 * i) block))) [0 ..< 16]) [16 ..< 64]"

definition sha256_round :: "u32 list \<Rightarrow> u32 list \<Rightarrow> nat \<Rightarrow> u32 list" where
  "sha256_round W r i =
     (let T1 = r ! 7 + SHA256_E1 (r ! 4) + SHA256_Ch (r ! 4) (r ! 5) (r ! 6) + SHA256_KEY ! i + W ! i;
          T2 = SHA256_E0 (r ! 0) + SHA256_Maj (r ! 0) (r ! 1) (r ! 2)
      in [T1 + T2, r ! 0, r ! 1, r ! 2, r ! 3 + T1, r ! 4, r ! 5, r ! 6])"

definition sha256_block :: "u32 list \<Rightarrow> bytes \<Rightarrow> u32 list" where
  "sha256_block hash block =
     (let relay = foldl (sha256_round (sha256_W block)) hash [0 ..< 64] in map (\<lambda>i. hash ! i + relay ! i) [0 ..< 8])"

function sha256_blocks :: "u32 list \<Rightarrow> bytes \<Rightarrow> u32 list" where
  "sha256_blocks hash cursor =
     (if cursor = [] then hash else sha256_blocks (sha256_block hash (take 64 cursor)) (drop 64 cursor))"
  by pat_completeness auto
termination by (relation "measure (\<lambda>(hash, cursor). length cursor)") auto

declare sha256_blocks.simps [simp del]

definition sha256 :: "(nat \<Rightarrow> bytes option) \<Rightarrow> bytes option \<Rightarrow> int \<Rightarrow> bool \<Rightarrow> bytes option option" where
  "sha256 ztrymalloc str orilen out =
     (case str of
        None \<Rightarrow> Some None
      | Some s \<Rightarrow>
          if orilen \<le> 0 \<or> \<not> out then Some None
          else do {
            actlen \<leftarrow> c_int (orilen + (if 56 \<le> orilen smod 64 then 128 - orilen smod 64 else 64 - orilen smod 64));
            case ztrymalloc (nat actlen) of
              None \<Rightarrow> Some None
            | Some cursor \<Rightarrow> do {
                m \<leftarrow> mem_read s 0 (nat orilen);
                cursor \<leftarrow> sha256_fill cursor 0 m;
                cursor \<leftarrow> sha256_fill cursor (nat orilen) (128 # replicate (nat actlen - nat orilen - 1) 0);
                cursor \<leftarrow> mem_write cursor (nat actlen - 4) (le_bytes (push_bit 3 (of_int orilen)));
                cursor \<leftarrow> mem_write cursor (nat actlen - 8) (le_bytes (drop_bit 29 (of_int orilen)));
                Some (Some (concat (map (\<lambda>h. le_bytes (naos_chord32 h)) (sha256_blocks sha256_iv cursor))))
              }
          })"

section \<open>SHA-256 as specified\<close>

definition be_word :: "bytes \<Rightarrow> u32" where
  "be_word b = of_le_bytes (rev b)"

definition sha_Sigma0 :: "u32 \<Rightarrow> u32" where "sha_Sigma0 x = word_rotr 2 x XOR word_rotr 13 x XOR word_rotr 22 x"
definition sha_Sigma1 :: "u32 \<Rightarrow> u32" where "sha_Sigma1 x = word_rotr 6 x XOR word_rotr 11 x XOR word_rotr 25 x"
definition sha_sigma0 :: "u32 \<Rightarrow> u32" where "sha_sigma0 x = word_rotr 7 x XOR word_rotr 18 x XOR drop_bit 3 x"
definition sha_sigma1 :: "u32 \<Rightarrow> u32" where "sha_sigma1 x = word_rotr 17 x XOR word_rotr 19 x XOR drop_bit 10 x"

fun sha_sched :: "bytes \<Rightarrow> nat \<Rightarrow> u32" where
  "sha_sched block t =
     (if t < 16 then be_word (take 4 (drop (4 * t) block))
      else sha_sigma1 (sha_sched block (t - 2)) + sha_sched block (t - 7) + sha_sigma0 (sha_sched block (t - 15)) +
        sha_sched block (t - 16))"

declare sha_sched.simps [simp del]

definition sha_step :: "bytes \<Rightarrow> u32 list \<Rightarrow> nat \<Rightarrow> u32 list" where
  "sha_step block v t =
     (case v of
        [a, b, c, d, e, f, g, h] \<Rightarrow>
          (let T1 = h + sha_Sigma1 e + ((e AND f) XOR (NOT e AND g)) + SHA256_KEY ! t + sha_sched block t;
               T2 = sha_Sigma0 a + ((a AND b) XOR (a AND c) XOR (b AND c))
           in [T1 + T2, a, b, c, d + T1, e, f, g])
      | _ \<Rightarrow> v)"

definition sha_compress :: "u32 list \<Rightarrow> bytes \<Rightarrow> u32 list" where
  "sha_compress H block = map2 (+) H (foldl (sha_step block) H [0 ..< 64])"

function sha_fold :: "u32 list \<Rightarrow> bytes \<Rightarrow> u32 list" where
  "sha_fold H m = (if m = [] then H else sha_fold (sha_compress H (take 64 m)) (drop 64 m))"
  by pat_completeness auto
termination by (relation "measure (\<lambda>(H, m). length m)") auto

declare sha_fold.simps [simp del]

definition sha_pad :: "bytes \<Rightarrow> bytes" where
  "sha_pad m = m @ 0x80 # replicate ((119 - length m mod 64) mod 64) 0 @
     rev (map (\<lambda>i. of_nat (8 * length m div 256 ^ i)) [0 ..< 8])"

definition sha_digest :: "bytes \<Rightarrow> bytes" where
  "sha_digest m = concat (map (\<lambda>w. rev (le_bytes w)) (sha_fold sha256_iv (sha_pad m)))"

section \<open>Macros\<close>

lemma mask31: "(0x7fffffff :: u32) = mask 31"
  by (simp add: mask_eq_exp_minus_1)

lemma SHA256_ROTL_rotl: "0 < b \<Longrightarrow> b < 32 \<Longrightarrow> SHA256_ROTL a b = word_rotl b a"
proof -
  assume b: "0 < b" "b < 32"
  have "signed_drop_bit (32 - b) a AND drop_bit (31 - b) 0x7fffffff = drop_bit (32 - b) a"
    unfolding mask31 using b
    by (intro bit_word_eqI) (auto simp: bit_simps dest: bit_imp_le_length)
  then show ?thesis unfolding SHA256_ROTL_def using shifts_rotl [OF b, of a] by (simp add: or.commute)
qed

lemma SHA256_SR_shift: "0 < b \<Longrightarrow> b < 32 \<Longrightarrow> SHA256_SR a b = drop_bit b a"
  unfolding SHA256_SR_def mask31
  by (intro bit_word_eqI) (auto simp: bit_simps dest: bit_imp_le_length)

lemma rotl_rotr: "0 < b \<Longrightarrow> b < 32 \<Longrightarrow> word_rotl b x = word_rotr (32 - b) x" for x :: u32
  by (simp add: word_rotl_eq_word_rotr)

lemma SHA256_functions:
  "SHA256_E0 x = sha_Sigma0 x" "SHA256_E1 x = sha_Sigma1 x" "SHA256_O0 x = sha_sigma0 x" "SHA256_O1 x = sha_sigma1 x"
  by (simp_all add: SHA256_E0_def SHA256_E1_def SHA256_O0_def SHA256_O1_def sha_Sigma0_def sha_Sigma1_def
      sha_sigma0_def sha_sigma1_def SHA256_ROTL_rotl SHA256_SR_shift rotl_rotr)

section \<open>Bytes in memory order\<close>

definition sw :: "nat \<Rightarrow> nat" where "sw i = i + 3 - 2 * (i mod 4)"

definition swapped :: "bytes \<Rightarrow> bytes \<Rightarrow> bool" where
  "swapped c p \<longleftrightarrow> length c = length p \<and> (\<forall>q < length p. c ! q = p ! sw q)"

lemma sw_parts: "r < 4 \<Longrightarrow> sw (4 * k + r) = 4 * k + (3 - r)"
  by (auto simp: sw_def)

lemma four_parts: obtains k r where "i = 4 * k + r" "r < (4 :: nat)"
  by (metis div_mult_mod_eq mod_less_divisor mult.commute zero_less_numeral)

lemma sw_sw: "sw (sw i) = i"
proof (rule four_parts [of i])
  fix k r assume i: "i = 4 * k + r" "r < 4"
  then have "sw i = 4 * k + (3 - r)" by (simp only: sw_parts)
  then show ?thesis using i sw_parts [of "3 - r" k] by simp
qed

lemma sw_less: "4 dvd n \<Longrightarrow> i < n \<Longrightarrow> sw i < n"
proof (rule four_parts [of i])
  fix k r assume a: "4 dvd n" "i < n" and i: "i = 4 * k + r" "r < 4"
  obtain m where m: "n = 4 * m" using a(1) by (elim dvdE)
  have "sw i = 4 * k + (3 - r)" using i by (simp only: sw_parts)
  moreover have "k < m" using a(2) i(1) m by simp
  ultimately show ?thesis using m i(2) by linarith
qed

lemma sw_add: "4 dvd n \<Longrightarrow> sw (n + i) = n + sw i"
proof (rule four_parts [of i])
  fix k r assume a: "4 dvd n" and i: "i = 4 * k + r" "r < 4"
  obtain m where m: "n = 4 * m" using a by (elim dvdE)
  have "n + i = 4 * (m + k) + r" using i m by simp
  then show ?thesis using i m by (simp only: sw_parts)
qed

lemma sha256_fill_nth: "4 dvd length c \<Longrightarrow> i + length xs \<le> length c \<Longrightarrow>
    \<exists>c'. sha256_fill c i xs = Some c' \<and> length c' = length c \<and>
      (\<forall>q < length c. c' ! q = (if i \<le> sw q \<and> sw q < i + length xs then xs ! (sw q - i) else c ! q))"
proof (induction xs arbitrary: c i)
  case (Cons x xs)
  have p: "sw i < length c" using Cons.prems by (intro sw_less) simp_all
  then obtain c' where c': "sha256_fill (c[sw i := x]) (i + 1) xs = Some c'" "length c' = length c"
    "\<forall>q < length c. c' ! q = (if i + 1 \<le> sw q \<and> sw q < i + 1 + length xs then xs ! (sw q - (i + 1)) else c[sw i := x] ! q)"
    using Cons.IH [of "c[sw i := x]" "i + 1"] Cons.prems by auto
  have "c' ! q = (if i \<le> sw q \<and> sw q < i + length (x # xs) then (x # xs) ! (sw q - i) else c ! q)" if "q < length c" for q
  proof (cases "sw q = i")
    case True
    then have "q = sw i" using sw_sw by metis
    then show ?thesis using c'(3) that True p by simp
  next
    case False
    then have "q \<noteq> sw i" using sw_sw by metis
    moreover have "(x # xs) ! (sw q - i) = xs ! (sw q - (i + 1))" if "i < sw q" using that by (simp add: nth_Cons')
    ultimately show ?thesis using c'(3) that False by auto
  qed
  then show ?case using c'(1,2) p by (simp add: sw_def [symmetric])
qed auto

lemma swapped_fill:
  assumes "4 dvd length c" and "length c = length (a @ b)"
  shows "\<exists>c'. do { c \<leftarrow> sha256_fill c 0 a; sha256_fill c (length a) b } = Some c' \<and> swapped c' (a @ b)"
proof -
  obtain c1 where c1: "sha256_fill c 0 a = Some c1" "length c1 = length c"
    "\<forall>q < length c. c1 ! q = (if sw q < length a then a ! sw q else c ! q)"
    using sha256_fill_nth [of c 0 a] assms by auto
  obtain c2 where c2: "sha256_fill c1 (length a) b = Some c2" "length c2 = length c"
    "\<forall>q < length c. c2 ! q = (if length a \<le> sw q \<and> sw q < length a + length b then b ! (sw q - length a) else c1 ! q)"
    using sha256_fill_nth [of c1 "length a" b] assms c1(2) by auto
  have "c2 ! q = (a @ b) ! sw q" if "q < length c" for q
    using c1(3) c2(3) that sw_less [OF assms(1) that] assms(2) by (auto simp: nth_append)
  then show ?thesis using c1 c2 assms by (auto simp: swapped_def)
qed

lemma swapped_write:
  assumes "swapped c p" and "4 dvd n" and "n + 4 \<le> length p" and "length w = 4"
  shows "\<exists>c'. mem_write c n (rev w) = Some c' \<and> swapped c' (take n p @ w @ drop (n + 4) p)"
proof -
  have len: "length c = length p" using assms(1) by (simp add: swapped_def)
  then obtain c' where c': "mem_write c n (rev w) = Some c'" using assms(3,4) by (simp add: mem_write_def)
  have "c' ! q = (take n p @ w @ drop (n + 4) p) ! sw q" if q: "q < length p" for q
  proof -
    have c'q: "c' ! q = (if n \<le> q \<and> q < n + 4 then rev w ! (q - n) else p ! sw q)"
      using nth_mem_write [OF c', of q] q len assms(1,4) by (simp add: swapped_def)
    consider "q < n" | "n \<le> q" "q < n + 4" | "n + 4 \<le> q" by linarith
    then show ?thesis
    proof cases
      case 1
      then show ?thesis using c'q sw_less [OF assms(2) 1] assms(3) by (simp add: nth_append)
    next
      case 2
      then obtain r where r: "q = n + r" "r < 4" by (metis le_Suc_ex nat_add_left_cancel_less)
      then have s: "sw q = n + (3 - r)" using sw_add [OF assms(2), of r] sw_parts [of r 0] by simp
      have "rev w ! r = w ! (3 - r)" using r(2) assms(4) by (simp add: rev_nth)
      then have "c' ! q = w ! (3 - r)" using c'q r by simp
      moreover have "(take n p @ w @ drop (n + 4) p) ! (n + (3 - r)) = w ! (3 - r)"
        using assms(3,4) r(2) less_imp_diff_less [of 3 4 r] by (subst nth_append_right) (simp_all add: nth_append)
      ultimately show ?thesis unfolding s by simp
    next
      case 3
      have "4 dvd n + 4" using assms(2) by simp
      then have "sw q = n + 4 + sw (q - (n + 4))" using sw_add [of "n + 4" "q - (n + 4)"] 3 by simp
      then show ?thesis using c'q 3 assms(3,4) by (simp add: nth_append)
    qed
  qed
  then show ?thesis using c' len assms(3,4) length_mem_write [OF c'] by (auto simp: swapped_def)
qed

lemma swapped_take_drop:
  assumes "swapped c p" and "4 dvd n" and "n \<le> length p"
  shows "swapped (take n c) (take n p)" and "swapped (drop n c) (drop n p)"
  using assms sw_less [OF assms(2)] sw_add [OF assms(2)] by (auto simp: swapped_def)

lemma swapped_word:
  assumes "swapped c p" and "4 * i + 4 \<le> length p"
  shows "of_le_bytes (take 4 (drop (4 * i) c)) = be_word (take 4 (drop (4 * i) p))"
proof -
  have "take 4 (drop (4 * i) c) = rev (take 4 (drop (4 * i) p))"
  proof (rule nth_equalityI)
    fix r assume "r < length (take 4 (drop (4 * i) c))"
    then have r: "r < 4" by simp
    then have "c ! (4 * i + r) = p ! sw (4 * i + r)" using assms by (simp add: swapped_def)
    then have "c ! (4 * i + r) = p ! (4 * i + (3 - r))" using sw_parts [OF r, of i] by simp
    then show "take 4 (drop (4 * i) c) ! r = rev (take 4 (drop (4 * i) p)) ! r"
      using r assms by (simp add: rev_nth swapped_def)
  qed (use assms in \<open>simp add: swapped_def\<close>)
  then show ?thesis by (simp add: be_word_def)
qed

section \<open>Blocks\<close>

lemma sha256_expand_sched: "n \<le> 48 \<Longrightarrow>
    foldl sha256_expand (map (sha_sched block) [0 ..< 16]) [16 ..< 16 + n] = map (sha_sched block) [0 ..< 16 + n]"
proof (induction n)
  case (Suc n)
  let ?W = "map (sha_sched block) [0 ..< 16 + n]"
  have nth: "?W ! (16 + n - k) = sha_sched block (16 + n - k)" if "0 < k" for k using that by simp
  have "sha256_expand ?W (16 + n) = ?W @ [sha_sched block (16 + n)]"
    unfolding sha256_expand_def sha_sched.simps [of block "16 + n"] SHA256_functions by (simp only: nth) simp
  moreover have "[0 ..< Suc (16 + n)] = [0 ..< 16 + n] @ [16 + n]" by (rule upt_Suc_append) simp
  moreover have "[16 ..< Suc (16 + n)] = [16 ..< 16 + n] @ [16 + n]" by (rule upt_Suc_append) simp
  ultimately show ?case using Suc by (simp del: upt_Suc)
qed simp

lemma sha256_W_sched:
  assumes "swapped c p" and "length p = 64"
  shows "sha256_W c = map (sha_sched p) [0 ..< 64]"
proof -
  have "map (\<lambda>i. of_le_bytes (take 4 (drop (4 * i) c))) [0 ..< 16] = map (sha_sched p) [0 ..< 16]"
    using swapped_word [OF assms(1)] assms(2) by (simp add: sha_sched.simps)
  moreover have "(16 :: nat) + 48 = 64" "(48 :: nat) \<le> 48" by simp_all
  ultimately show ?thesis using sha256_expand_sched [of 48 p] by (simp only: sha256_W_def)
qed

lemma list8_cases: "length v = 8 \<Longrightarrow> \<exists>a b c d e f g h. v = [a, b, c, d, e, f, g, h]"
  by (auto simp: numeral_eq_Suc length_Suc_conv)

lemma sha256_round_step:
  assumes "length v = 8" and "i < 64"
  shows "sha256_round (map (sha_sched p) [0 ..< 64]) v i = sha_step p v i"
  using list8_cases [OF assms(1)] assms(2)
  by (auto simp: sha256_round_def sha_step_def SHA256_functions SHA256_Ch_def SHA256_Maj_def Let_def)

lemma length_sha_step: "length v = 8 \<Longrightarrow> length (sha_step p v i) = 8"
  using list8_cases [of v] by (auto simp: sha_step_def Let_def)

lemma sha256_rounds_steps: "length v = 8 \<Longrightarrow> n \<le> 64 \<Longrightarrow>
    foldl (sha256_round (map (sha_sched p) [0 ..< 64])) v [0 ..< n] = foldl (sha_step p) v [0 ..< n] \<and>
    length (foldl (sha_step p) v [0 ..< n]) = 8"
  by (induction n) (simp_all add: sha256_round_step length_sha_step)

lemma sha256_block_compress:
  assumes "swapped c p" and "length p = 64" and "length H = 8"
  shows "sha256_block H c = sha_compress H p \<and> length (sha_compress H p) = 8"
proof -
  have "foldl (sha256_round (sha256_W c)) H [0 ..< 64] = foldl (sha_step p) H [0 ..< 64]"
    "length (foldl (sha_step p) H [0 ..< 64]) = 8"
    unfolding sha256_W_sched [OF assms(1,2)] using sha256_rounds_steps [OF assms(3), of 64 p] by simp_all
  moreover have "map (\<lambda>i. a ! i + b ! i) [0 ..< 8] = map2 (+) a b" if "length a = 8" "length b = 8" for a b :: "u32 list"
    using that by (intro nth_equalityI) simp_all
  ultimately show ?thesis using assms(3) unfolding sha256_block_def sha_compress_def Let_def by simp
qed

lemma sha256_blocks_fold:
  assumes "swapped c p" and "64 dvd length p" and "length H = 8"
  shows "sha256_blocks H c = sha_fold H p"
  using assms
proof (induction "length p" arbitrary: c p H rule: less_induct)
  case less
  have len: "length c = length p" using less.prems by (simp add: swapped_def)
  show ?case
  proof (cases "p = []")
    case True
    then show ?thesis using len by (simp add: sha256_blocks.simps [of H "[]"] sha_fold.simps [of H "[]"])
  next
    case False
    then have l: "64 \<le> length p" using less.prems(2) by (metis dvd_imp_le length_greater_0_conv)
    have d: "4 dvd (64 :: nat)" by simp
    note blk = swapped_take_drop [OF less.prems(1) d l]
    have b: "sha256_block H (take 64 c) = sha_compress H (take 64 p)" "length (sha_compress H (take 64 p)) = 8"
      using sha256_block_compress [OF blk(1) _ less.prems(3)] l by simp_all
    have "sha256_blocks (sha_compress H (take 64 p)) (drop 64 c) = sha_fold (sha_compress H (take 64 p)) (drop 64 p)"
      by (rule less.hyps [OF _ blk(2) _ b(2)]) (use l less.prems(2) in \<open>simp_all add: dvd_minus_self\<close>)
    moreover have "c \<noteq> []" using len False by auto
    ultimately show ?thesis using False b(1) by (simp add: sha256_blocks.simps [of H c] sha_fold.simps [of H p])
  qed
qed

section \<open>The function computes the digest\<close>

definition sha_total :: "nat \<Rightarrow> nat" where
  "sha_total l = l + 9 + (119 - l mod 64) mod 64"

lemma sha_total_code: "l + (if 56 \<le> l mod 64 then 128 - l mod 64 else 64 - l mod 64) = sha_total l"
proof -
  have "l mod 64 < 64" by simp
  then have "(119 - l mod 64) mod 64 = (if 56 \<le> l mod 64 then 119 - l mod 64 else 55 - l mod 64)"
    using le_mod_geq [of 64 "119 - l mod 64"] by simp
  then show ?thesis using \<open>l mod 64 < 64\<close> unfolding sha_total_def by (auto split: if_splits)
qed

lemma sha_total_dvd: "64 dvd sha_total l"
proof -
  have "l mod 64 < 64" and l: "l = 64 * (l div 64) + l mod 64" by simp_all
  then have "sha_total l = 64 * (l div 64) + (if 56 \<le> l mod 64 then 128 else 64)"
    unfolding sha_total_code [symmetric] by (cases "56 \<le> l mod 64"; simp; linarith)
  then show ?thesis by (simp split: if_splits)
qed

lemma length_sha_pad: "length (sha_pad m) = sha_total (length m)"
  by (simp add: sha_pad_def sha_total_def)

lemma sha256_layout:
  assumes "length c = sha_total (length m)" and "n = sha_total (length m)"
    and "lo = le_bytes (of_nat (8 * length m))" and "hi = le_bytes (of_nat (8 * length m div 2 ^ 32))"
  shows "\<exists>c'. do {
      c \<leftarrow> sha256_fill c 0 m;
      c \<leftarrow> sha256_fill c (length m) (128 # replicate (n - length m - 1) 0);
      c \<leftarrow> mem_write c (n - 4) lo;
      mem_write c (n - 8) hi } = Some c' \<and> swapped c' (sha_pad m)"
proof -
  let ?z = "(119 - length m mod 64) mod 64"
  let ?a = "m @ 128 # replicate ?z 0"
  have n: "n = length ?a + 8" "64 dvd n" using assms(2) sha_total_dvd by (simp_all add: sha_total_def)
  then have d: "4 dvd n" using dvd_trans [of 4 64 n] by simp
  have d4: "4 dvd n - 4" "4 dvd n - 8" using d by (simp_all add: dvd_diff_nat)
  have fit: "n - 4 + 4 \<le> length (?a @ replicate 8 0)" "n - 8 + 4 \<le> length (?a @ replicate 4 0 @ rev lo)"
    using n(1) assms(3) by simp_all
  have rep: "m @ 128 # replicate (n - length m - 1) 0 = ?a @ replicate 8 0"
    using n(1) by (simp add: replicate_add [symmetric] add.commute)
  have lc: "4 dvd length c" "length c = length (m @ 128 # replicate (n - length m - 1) 0)"
    using d assms(1,2) n(1) by simp_all
  obtain c1 where c1: "do { c \<leftarrow> sha256_fill c 0 m; sha256_fill c (length m) (128 # replicate (n - length m - 1) 0) } = Some c1"
    "swapped c1 (?a @ replicate 8 0)"
    using swapped_fill [OF lc] unfolding rep by blast
  obtain c2 where c2: "mem_write c1 (n - 4) (rev (rev lo)) = Some c2"
    "swapped c2 (take (n - 4) (?a @ replicate 8 0) @ rev lo @ drop (n - 4 + 4) (?a @ replicate 8 0))"
    using swapped_write [OF c1(2) d4(1) fit(1), of "rev lo"] assms(3) by auto
  have p2: "take (n - 4) (?a @ replicate 8 0) @ rev lo @ drop (n - 4 + 4) (?a @ replicate 8 0) = ?a @ replicate 4 0 @ rev lo"
  proof -
    have tail: "take (length a + 4) (a @ replicate 8 (0 :: u8)) = a @ replicate 4 0" for a by simp
    have "n - 4 = length ?a + 4" "n - 4 + 4 = n" using n(1) by linarith+
    moreover have "drop n (?a @ replicate 8 0) = []" using n(1) by simp
    ultimately have "take (n - 4) (?a @ replicate 8 0) = ?a @ replicate 4 0" "drop (n - 4 + 4) (?a @ replicate 8 0) = []"
      using tail [of ?a] by metis+
    then show ?thesis by (simp only: append_assoc append_Nil2)
  qed
  obtain c3 where c3: "mem_write c2 (n - 8) (rev (rev hi)) = Some c3"
    "swapped c3 (take (n - 8) (?a @ replicate 4 0 @ rev lo) @ rev hi @ drop (n - 8 + 4) (?a @ replicate 4 0 @ rev lo))"
    using swapped_write [OF c2(2) [unfolded p2] d4(2) fit(2), of "rev hi"] assms(4) by auto
  have "take (n - 8) (?a @ replicate 4 0 @ rev lo) @ rev hi @ drop (n - 8 + 4) (?a @ replicate 4 0 @ rev lo) = ?a @ rev hi @ rev lo"
  proof -
    have tail: "drop (length a + 4) (a @ replicate 4 (0 :: u8) @ b) = b" "take (length a) (a @ b) = a" for a b by simp_all
    have "n - 8 + 4 = length ?a + 4" "n - 8 = length ?a" using n(1) by linarith+
    then show ?thesis using tail(1) [of ?a "rev lo"] tail(2) [of ?a "replicate 4 0 @ rev lo"] by metis
  qed
  also have "\<dots> = sha_pad m" unfolding sha_pad_def le_bytes_64 assms(3,4) by simp
  finally have "swapped c3 (sha_pad m)" using c3(2) by simp
  then show ?thesis using c1(1) c2(1) c3(1) by (auto simp: bind_eq_Some_conv)
qed

text \<open>
  C24. On a nonempty message shorter than 2^31 - 128 bytes, with a block from the allocator, the function
  stays inside its buffers and returns the SHA-256 digest: the padded message in big-endian words,
  the message schedule, 64 rounds per block with the rotations written as right rotations, and the
  state in big-endian order.
\<close>

theorem sha256_correct:
  assumes "m \<noteq> []" and "length m < 2 ^ 31 - 128" and "\<And>n b. ztrymalloc n = Some b \<Longrightarrow> length b = n"
    and "ztrymalloc (sha_total (length m)) \<noteq> None"
  shows "sha256 ztrymalloc (Some m) (int (length m)) True = Some (Some (sha_digest m))"
proof -
  let ?l = "length m" and ?n = "sha_total (length m)"
  obtain c where c: "ztrymalloc ?n = Some c" "length c = ?n" using assms(3,4) by blast
  have md: "int ?l smod 64 = int (?l mod 64)" by (simp add: smod_nonneg zmod_int)
  have act: "int ?l + (if 56 \<le> int ?l smod 64 then 128 - int ?l smod 64 else 64 - int ?l smod 64) = int ?n"
    unfolding md sha_total_code [symmetric] by (auto simp: of_nat_diff)
  have "?l mod 64 < 64" by simp
  then have "?n \<le> ?l + 128" unfolding sha_total_code [symmetric] by auto
  then have ok: "c_int (int ?n) = Some (int ?n)" using assms(2) by simp
  have lo: "push_bit 3 (of_int (int ?l)) = (of_nat (8 * ?l) :: u32)" by (simp add: push_bit_eq_mult)
  have hi: "drop_bit 29 (of_int (int ?l)) = (of_nat (8 * ?l div 2 ^ 32) :: u32)"
  proof -
    have "unat (of_nat ?l :: u32) = ?l" using assms(2) by (simp add: unat_of_nat)
    then have "unat (drop_bit 29 (of_nat ?l :: u32)) = 8 * ?l div 2 ^ 32"
      unfolding unat_drop_bit_eq by (simp add: drop_bit_eq_div)
    then show ?thesis by (metis of_int_of_nat_eq of_nat_unat ucast_id)
  qed
  obtain c' where c': "do {
      c \<leftarrow> sha256_fill c 0 m;
      c \<leftarrow> sha256_fill c ?l (128 # replicate (?n - ?l - 1) 0);
      c \<leftarrow> mem_write c (?n - 4) (le_bytes (of_nat (8 * ?l)));
      mem_write c (?n - 8) (le_bytes (of_nat (8 * ?l div 2 ^ 32))) } = Some c'" "swapped c' (sha_pad m)"
    using sha256_layout [OF c(2) refl refl refl] by blast
  have "sha256_blocks sha256_iv c' = sha_fold sha256_iv (sha_pad m)"
    using c'(2) sha_total_dvd [of ?l] by (intro sha256_blocks_fold) (simp_all add: length_sha_pad sha256_iv_def)
  moreover have "mem_read m 0 ?l = Some m" by (simp add: mem_read_all)
  ultimately show ?thesis
    using assms(1) c(1) c'(1) ok unfolding sha256_def act lo hi
    by (auto simp: bind_eq_Some_conv sha_digest_def le_bytes_chord32)
qed

theorem sha256_correct_witness:
  "sha256 (\<lambda>n. Some (replicate n 0xAA)) (Some [97, 98, 99]) 3 True = Some (Some (sha_digest [97, 98, 99]))"
  using sha256_correct [of "[97, 98, 99]" "\<lambda>n. Some (replicate n 0xAA)"] by simp

end
