(* ===== verification/Rtlstr.thy ===== *)
theory Rtlstr
  imports Prelude "HOL-Library.Monad_Syntax"
begin

text \<open>
  \<^verbatim>\<open>src/rtlstr.c\<close> and \<^verbatim>\<open>src/abuff.c\<close>: string routines without the C library. A pointer into memory is the
  list of cells from there to the end of its block, \<^verbatim>\<open>char\<close> is a signed byte, and leaving a block is a
  failure. \<^verbatim>\<open>alloc\<close> is the caller's allocator: a block of arbitrary content or NULL.
\<close>

section \<open>Routines\<close>

fun rtl_strlen :: "bytes \<Rightarrow> nat option" where
  "rtl_strlen [] = None"
| "rtl_strlen (c # s) = (if c = 0 then Some 0 else map_option Suc (rtl_strlen s))"

fun rtl_strcpy_loop :: "bytes \<Rightarrow> bytes \<Rightarrow> nat \<Rightarrow> bytes option" where
  "rtl_strcpy_loop dest [] i = None"
| "rtl_strcpy_loop dest (c # src) i =
     (if c = 0 then mem_put dest i 0 else do { dest \<leftarrow> mem_put dest i c; rtl_strcpy_loop dest src (i + 1) })"

definition rtl_strcpy :: "bytes \<Rightarrow> bytes \<Rightarrow> bytes option" where
  "rtl_strcpy dest src = rtl_strcpy_loop dest src 0"

fun rtl_strncpy_copy :: "bytes \<Rightarrow> bytes \<Rightarrow> nat \<Rightarrow> nat \<Rightarrow> (bytes \<times> nat) option" where
  "rtl_strncpy_copy dest src i 0 = Some (dest, i)"
| "rtl_strncpy_copy dest [] i (Suc left) = None"
| "rtl_strncpy_copy dest (c # src) i (Suc left) =
     (if c = 0 then Some (dest, i) else do { dest \<leftarrow> mem_put dest i c; rtl_strncpy_copy dest src (i + 1) left })"

fun rtl_strncpy_zero :: "bytes \<Rightarrow> nat \<Rightarrow> nat \<Rightarrow> bytes option" where
  "rtl_strncpy_zero dest i 0 = Some dest"
| "rtl_strncpy_zero dest i (Suc left) = do { dest \<leftarrow> mem_put dest i 0; rtl_strncpy_zero dest (i + 1) left }"

definition rtl_strncpy :: "bytes \<Rightarrow> bytes \<Rightarrow> nat \<Rightarrow> bytes option" where
  "rtl_strncpy dest src n = do { (dest, i) \<leftarrow> rtl_strncpy_copy dest src 0 n; rtl_strncpy_zero dest i (n - i) }"

definition char_order :: "u8 \<Rightarrow> u8 \<Rightarrow> int" where
  "char_order a b = (if sint a < sint b then - 1 else if sint b < sint a then 1 else 0)"

fun rtl_strcmp :: "bytes \<Rightarrow> bytes \<Rightarrow> int option" where
  "rtl_strcmp (a # s1) (b # s2) =
     (if a \<noteq> 0 \<and> b \<noteq> 0
      then if sint a < sint b then Some (- 1) else if sint b < sint a then Some 1 else rtl_strcmp s1 s2
      else Some (char_order a b))"
| "rtl_strcmp _ _ = None"

fun rtl_strncmp :: "bytes \<Rightarrow> bytes \<Rightarrow> nat \<Rightarrow> int option" where
  "rtl_strncmp (a # s1) (b # s2) n =
     (if a \<noteq> 0 \<and> b \<noteq> 0 \<and> 0 < n
      then if sint a < sint b then Some (- 1) else if sint b < sint a then Some 1 else rtl_strncmp s1 s2 (n - 1)
      else Some (char_order a b))"
| "rtl_strncmp _ _ n = None"

definition to_lower :: "u8 \<Rightarrow> u8" where
  "to_lower c = (if 65 \<le> sint c \<and> sint c \<le> 90 then c + 0x20 else c)"

fun rtl_strcasecmp :: "bytes \<Rightarrow> bytes \<Rightarrow> int option" where
  "rtl_strcasecmp (a # s1) (b # s2) =
     (if a \<noteq> 0 \<and> b \<noteq> 0
      then let c1 = to_lower a; c2 = to_lower b in
        if sint c1 < sint c2 then Some (- 1) else if sint c2 < sint c1 then Some 1 else rtl_strcasecmp s1 s2
      else Some (char_order a b))"
| "rtl_strcasecmp _ _ = None"

fun rtl_strncasecmp :: "bytes \<Rightarrow> bytes \<Rightarrow> nat \<Rightarrow> int option" where
  "rtl_strncasecmp (a # s1) (b # s2) n =
     (if a \<noteq> 0 \<and> b \<noteq> 0 \<and> 0 < n
      then let c1 = to_lower a; c2 = to_lower b in
        if sint c1 < sint c2 then Some (- 1) else if sint c2 < sint c1 then Some 1 else rtl_strncasecmp s1 s2 (n - 1)
      else Some 0)"
| "rtl_strncasecmp _ _ n = None"

definition rtl_strdup :: "bytes \<Rightarrow> (nat \<Rightarrow> bytes option) \<Rightarrow> bytes option option" where
  "rtl_strdup s alloc = do {
     n \<leftarrow> rtl_strlen s;
     case alloc (n + 1) of None \<Rightarrow> Some None | Some dup \<Rightarrow> map_option Some (rtl_strcpy dup s)
   }"

definition rtl_strndup :: "bytes \<Rightarrow> nat \<Rightarrow> (nat \<Rightarrow> bytes option) \<Rightarrow> bytes option option" where
  "rtl_strndup s n alloc = do {
     l \<leftarrow> rtl_strlen s;
     let k = (if l > n then n else l);
     case alloc (k + 1) of None \<Rightarrow> Some None | Some dup \<Rightarrow> map_option Some (rtl_strcpy dup s)
   }"

function rtl_memcpy_words :: "bytes \<Rightarrow> bytes \<Rightarrow> nat \<Rightarrow> nat \<Rightarrow> (bytes \<times> nat \<times> nat) option" where
  "rtl_memcpy_words dest src off r =
     (if 8 < r then do {
        w \<leftarrow> mem_read src off 8;
        dest \<leftarrow> mem_write dest off w;
        rtl_memcpy_words dest src (off + 8) (r - 8)
      } else Some (dest, off, r))"
  by pat_completeness auto
termination by (relation "measure (\<lambda>(dest, src, off, r). r)") auto

declare rtl_memcpy_words.simps [simp del]

fun rtl_memcpy_bytes :: "bytes \<Rightarrow> bytes \<Rightarrow> nat \<Rightarrow> nat \<Rightarrow> bytes option" where
  "rtl_memcpy_bytes dest src off 0 = Some dest"
| "rtl_memcpy_bytes dest src off (Suc r) = do {
     b \<leftarrow> mem_get src off;
     dest \<leftarrow> mem_put dest off b;
     rtl_memcpy_bytes dest src (off + 1) r
   }"

definition rtl_memcpy :: "bytes \<Rightarrow> bytes \<Rightarrow> nat \<Rightarrow> bytes option" where
  "rtl_memcpy dest src n = do { (dest, off, r) \<leftarrow> rtl_memcpy_words dest src 0 n; rtl_memcpy_bytes dest src off r }"

text \<open>\<^verbatim>\<open>h\<close> and \<^verbatim>\<open>t\<close> are the positions in the block; \<^verbatim>\<open>t\<close> may be one before its start.\<close>

function crt_strrev_loop :: "bytes \<Rightarrow> int \<Rightarrow> int \<Rightarrow> bytes option" where
  "crt_strrev_loop src h t =
     (if h < t then do {
        a \<leftarrow> mem_get src (nat h);
        b \<leftarrow> mem_get src (nat t);
        src \<leftarrow> mem_put src (nat h) b;
        src \<leftarrow> mem_put src (nat t) a;
        crt_strrev_loop src (h + 1) (t - 1)
      } else Some src)"
  by pat_completeness auto
termination by (relation "measure (\<lambda>(src, h, t). nat (t - h))") auto

declare crt_strrev_loop.simps [simp del]

definition crt_strrev :: "bytes option \<Rightarrow> bytes option option" where
  "crt_strrev src =
     (case src of
        None \<Rightarrow> Some None
      | Some s \<Rightarrow> do { n \<leftarrow> rtl_strlen s; r \<leftarrow> crt_strrev_loop s 0 (int n - 1); Some (Some r) })"

section \<open>C strings in a block\<close>

definition cstring :: "bytes \<Rightarrow> bytes \<Rightarrow> bool" where
  "cstring s xs \<longleftrightarrow> 0 \<notin> set xs \<and> (\<exists>rest. s = xs @ 0 # rest)"

lemma cstringE: "cstring s xs \<Longrightarrow> (\<And>rest. 0 \<notin> set xs \<Longrightarrow> s = xs @ 0 # rest \<Longrightarrow> P) \<Longrightarrow> P"
  by (auto simp: cstring_def)

lemma strlen_cstring: "cstring s xs \<Longrightarrow> rtl_strlen s = Some (length xs)"
proof (induction xs arbitrary: s)
  case (Cons x xs)
  then obtain s' where "s = x # s'" "cstring s' xs" "x \<noteq> 0" by (auto simp: cstring_def)
  then show ?case using Cons.IH by simp
qed (auto simp: cstring_def)

lemma update_end: "i < length dest \<Longrightarrow> take (Suc i) (dest[i := v]) = take i dest @ [v]"
  by (simp add: take_Suc_conv_app_nth)

lemma strcpy_loop_cstring: "0 \<notin> set xs \<Longrightarrow>
    rtl_strcpy_loop dest (xs @ 0 # rest) i =
      (if i + length xs < length dest then Some (take i dest @ xs @ 0 # drop (i + length xs + 1) dest) else None)"
proof (induction xs arbitrary: dest i)
  case Nil
  then show ?case by (auto simp: upd_conv_take_nth_drop)
next
  case (Cons x xs)
  show ?case
  proof (cases "i < length dest")
    case True
    then show ?thesis using Cons update_end [OF True, of x] by (auto simp: drop_update_swap)
  next
    case False
    then show ?thesis using Cons by simp
  qed
qed

lemma strncpy_copy_cstring: "0 \<notin> set xs \<Longrightarrow> i + min (length xs) left \<le> length dest \<Longrightarrow>
    rtl_strncpy_copy dest (xs @ 0 # rest) i left =
      Some (take i dest @ take left xs @ drop (i + min (length xs) left) dest, i + min (length xs) left)"
proof (induction xs arbitrary: dest i left)
  case Nil
  then show ?case by (cases left) auto
next
  case (Cons x xs)
  show ?case
  proof (cases left)
    case 0
    then show ?thesis by simp
  next
    case (Suc k)
    then have l: "i < length dest" using Cons.prems by simp
    show ?thesis
      using Cons.IH [of "Suc i" k "dest[i := x]"] Cons.prems Suc l update_end [OF l, of x]
      by (auto simp: drop_update_swap)
  qed
qed

lemma strncpy_zero: "i + left \<le> length dest \<Longrightarrow>
    rtl_strncpy_zero dest i left = Some (take i dest @ replicate left 0 @ drop (i + left) dest)"
proof (induction left arbitrary: dest i)
  case (Suc left)
  then have l: "i < length dest" by simp
  show ?case using Suc.IH [of "Suc i" "dest[i := 0]"] Suc.prems l update_end [OF l, of 0] by (simp add: drop_update_swap)
qed simp

lemma memcpy_words: "off + r \<le> length src \<Longrightarrow> off + r \<le> length dest \<Longrightarrow>
    \<exists>off' r'. rtl_memcpy_words dest src off r = Some (take off dest @ take (off' - off) (drop off src) @ drop off' dest, off', r') \<and>
      off \<le> off' \<and> off' + r' = off + r"
proof (induction r arbitrary: dest off rule: less_induct)
  case (less r)
  show ?case
  proof (cases "8 < r")
    case True
    let ?d = "take off dest @ take 8 (drop off src) @ drop (off + 8) dest"
    have step: "rtl_memcpy_words dest src off r = rtl_memcpy_words ?d src (off + 8) (r - 8)"
      using True less.prems by (subst rtl_memcpy_words.simps) (simp add: mem_read_def mem_write_def)
    obtain off' r' where ih: "rtl_memcpy_words ?d src (off + 8) (r - 8) =
        Some (take (off + 8) ?d @ take (off' - (off + 8)) (drop (off + 8) src) @ drop off' ?d, off', r')"
      "off + 8 \<le> off'" "off' + r' = off + 8 + (r - 8)"
      using less.IH [of "r - 8" "off + 8" ?d] True less.prems by auto
    have "take (off + 8) ?d = take off dest @ take 8 (drop off src)" using less.prems True by simp
    moreover have "take 8 (drop off src) @ take (off' - (off + 8)) (drop (off + 8) src) = take (off' - off) (drop off src)"
      using ih(2) take_add [of 8 "off' - (off + 8)" "drop off src"] by (simp add: add.commute)
    moreover have "drop off' ?d = drop off' dest" using ih(2) less.prems True by simp
    ultimately show ?thesis using step ih True by (intro exI [of _ off'] exI [of _ r']) auto
  next
    case False
    then show ?thesis using less.prems by (subst rtl_memcpy_words.simps) (auto intro!: exI [of _ off])
  qed
qed

lemma memcpy_bytes: "off + r \<le> length src \<Longrightarrow> off + r \<le> length dest \<Longrightarrow>
    rtl_memcpy_bytes dest src off r = Some (take off dest @ take r (drop off src) @ drop (off + r) dest)"
proof (induction r arbitrary: dest off)
  case (Suc r)
  then have l: "off < length dest" "off < length src" by simp_all
  have "take (Suc r) (drop off src) = src ! off # take r (drop (Suc off) src)"
    using l(2) by (simp add: Cons_nth_drop_Suc [symmetric])
  then show ?case
    using Suc.IH [of "Suc off" "dest[off := src ! off]"] Suc.prems l update_end [OF l(1), of "src ! off"]
    by (simp add: drop_update_swap)
qed simp

lemma rtl_memcpy_copies:
  assumes "n \<le> length src" and "n \<le> length dest"
  shows "rtl_memcpy dest src n = Some (take n src @ drop n dest)"
proof -
  obtain off r where w: "rtl_memcpy_words dest src 0 n = Some (take off src @ drop off dest, off, r)" "off + r = n"
    using memcpy_words [of 0 n src dest] assms by auto
  have "rtl_memcpy_bytes (take off src @ drop off dest) src off r =
      Some (take off (take off src @ drop off dest) @ take r (drop off src) @ drop (off + r) (take off src @ drop off dest))"
    by (rule memcpy_bytes) (use w(2) assms in simp_all)
  moreover have "take off (take off src @ drop off dest) = take off src" "drop (off + r) (take off src @ drop off dest) = drop n dest"
    using w(2) assms by simp_all
  moreover have "take off src @ take r (drop off src) = take n src" using w(2) take_add [of off r src] by simp
  ultimately have "rtl_memcpy_bytes (take off src @ drop off dest) src off r = Some (take n src @ drop n dest)"
    by (metis append.assoc)
  then show ?thesis using w(1) by (simp only: rtl_memcpy_def Option.bind.bind_lunit prod.case)
qed

lemma strrev_loop:
  assumes "length mid = nat (t - h + 1)" and "0 \<le> h" and "nat h = length pre" and "h \<le> t + 1"
  shows "crt_strrev_loop (pre @ mid @ post) h t = Some (pre @ rev mid @ post)"
  using assms
proof (induction "nat (t - h + 1)" arbitrary: pre mid post h t rule: less_induct)
  case less
  show ?case
  proof (cases "h < t")
    case True
    then have "1 < length mid" using less.prems(1) by simp
    then obtain a m b where mid: "mid = a # m @ [b]"
      by (cases mid; cases "tl mid" rule: rev_cases) auto
    have len: "int (length m) = t - h - 1" using less.prems(1) True mid by simp
    have ih: "crt_strrev_loop ((pre @ [b]) @ m @ (a # post)) (h + 1) (t - 1) = Some ((pre @ [b]) @ rev m @ (a # post))"
      by (rule less.hyps) (use less.prems len True in auto)
    have t: "nat t = length pre + Suc (length m)" using len less.prems(2,3) by simp
    have "crt_strrev_loop (pre @ mid @ post) h t = crt_strrev_loop ((pre @ [b]) @ m @ (a # post)) (h + 1) (t - 1)"
      using True t less.prems(3)
      by (subst crt_strrev_loop.simps) (simp add: mid nth_append list_update_append)
    then show ?thesis using ih mid by simp
  next
    case False
    then have "length mid \<le> 1" using less.prems(1) by simp
    then have "rev mid = mid" by (cases mid) auto
    then show ?thesis using False by (subst crt_strrev_loop.simps) simp
  qed
qed

text \<open>
  C31. On a C string inside a block: the length is that of the string; copying needs a
  destination longer than the string, and then exactly the string and its terminator are
  written; the bounded copy writes exactly \<^verbatim>\<open>n\<close> cells, the string cut or padded with zeros; the duplicate is a
  fresh copy; the block copy moves exactly \<^verbatim>\<open>n\<close> bytes; reversing reverses the string in place.
\<close>

theorem rtl_copy_correct:
  assumes "cstring s xs" and "n \<le> length dest" and "n \<le> length src"
    and "alloc (length xs + 1) = Some blk" and "length blk = length xs + 1"
  shows "rtl_strlen s = Some (length xs) \<and>
    rtl_strcpy dest s = (if length xs < length dest then Some (xs @ 0 # drop (length xs + 1) dest) else None) \<and>
    rtl_strncpy dest s n = Some (take n xs @ replicate (n - length xs) 0 @ drop n dest) \<and>
    rtl_strdup s alloc = Some (Some (xs @ [0])) \<and>
    rtl_memcpy dest src n = Some (take n src @ drop n dest) \<and>
    crt_strrev (Some s) = Some (Some (rev xs @ drop (length xs) s))"
proof -
  obtain rest where s: "0 \<notin> set xs" "s = xs @ 0 # rest" using assms(1) by (rule cstringE)
  note len = strlen_cstring [OF assms(1)]
  have cpy: "rtl_strcpy d s = (if length xs < length d then Some (xs @ 0 # drop (length xs + 1) d) else None)" for d
    using strcpy_loop_cstring [OF s(1), of d rest 0] s(2) by (simp add: rtl_strcpy_def)
  have "rtl_strncpy dest s n = Some (take n xs @ replicate (n - length xs) 0 @ drop n dest)"
  proof -
    let ?k = "min (length xs) n"
    have fit: "0 + ?k \<le> length dest" "?k + (n - ?k) \<le> length (take n xs @ drop ?k dest)" using assms(2) by auto
    have len_k: "length (take n xs) = ?k" by simp
    have "n - ?k = n - length xs" by auto
    moreover have "take (length a) (a @ b) = a" for a b :: bytes by simp
    then have "take ?k (take n xs @ drop ?k dest) = take n xs" using len_k by metis
    moreover have "drop (?k + (n - ?k)) (take n xs @ drop ?k dest) = drop n dest"
      using len_k by (simp only: drop_append drop_drop) (auto simp: min_def)
    ultimately show ?thesis
      using strncpy_copy_cstring [OF s(1) fit(1), of rest] strncpy_zero [OF fit(2)] s(2) by (simp add: rtl_strncpy_def)
  qed
  moreover have "crt_strrev (Some s) = Some (Some (rev xs @ drop (length xs) s))"
    using strrev_loop [of xs "int (length xs) - 1" 0 "[]" "0 # rest"] s(2) len by (simp add: crt_strrev_def)
  ultimately show ?thesis
    using len cpy rtl_memcpy_copies [OF assms(3,2)] assms(4,5) by (simp add: rtl_strdup_def)
qed

theorem rtl_copy_correct_witness:
  "rtl_strncpy [1, 2, 3, 4, 5] [104, 105, 0, 7] 4 = Some [104, 105, 0, 0, 5] \<and>
   crt_strrev (Some [104, 105, 0, 7]) = Some (Some [105, 104, 0, 7])"
proof -
  have "cstring [104, 105, 0, 7] [104, 105]" by (simp add: cstring_def)
  then show ?thesis
    using rtl_copy_correct [of "[104, 105, 0, 7]" "[104, 105]" 4 "[1, 2, 3, 4, 5]" "[1, 2, 3, 4]" "\<lambda>n. Some (replicate n 9)" "[9, 9, 9]"]
    by (simp add: numeral_eq_Suc)
qed

section \<open>Comparison\<close>

definition first_difference :: "bytes \<Rightarrow> bytes \<Rightarrow> int \<Rightarrow> bool" where
  "first_difference xs ys r \<longleftrightarrow>
     (if xs = ys then r = 0
      else \<exists>p a b xs' ys'. xs = p @ a # xs' \<and> ys = p @ b # ys' \<and> a \<noteq> b \<and> r = (if sint a < sint b then - 1 else 1))"

lemma first_difference_Cons: "first_difference xs ys r \<Longrightarrow> first_difference (c # xs) (c # ys) r"
  unfolding first_difference_def by (auto split: if_splits) (metis append_Cons)+

lemma first_difference_head: "a \<noteq> b \<Longrightarrow> first_difference (a # xs) (b # ys) (if sint a < sint b then - 1 else 1)"
  unfolding first_difference_def by (auto intro!: exI [of _ "[]"])

lemma sint_neq: "sint a \<noteq> sint b \<longleftrightarrow> a \<noteq> b" for a b :: u8
  by (metis of_int_sint scast_id)

lemma char_order_first: "char_order a b = (if a = b then 0 else if sint a < sint b then - 1 else 1)"
  using sint_neq [of a b] by (auto simp: char_order_def)

lemma strcmp_first_difference:
  "0 \<notin> set xs \<Longrightarrow> 0 \<notin> set ys \<Longrightarrow>
    \<exists>r. rtl_strcmp (xs @ 0 # u) (ys @ 0 # v) = Some r \<and> first_difference (xs @ [0]) (ys @ [0]) r"
proof (induction xs arbitrary: ys)
  case Nil
  then show ?case
  proof (cases ys)
    case (Cons b ys')
    then have "b \<noteq> 0" using Nil by auto
    then show ?thesis using Cons first_difference_head [of 0 b "[]" "ys' @ [0]"] by (simp add: char_order_first)
  qed (simp add: char_order_def first_difference_def)
next
  case (Cons a xs)
  then have a: "a \<noteq> 0" "0 \<notin> set xs" by auto
  show ?case
  proof (cases ys)
    case Nil
    then show ?thesis using a first_difference_head [of a 0 "xs @ [0]" "[]"] by (simp add: char_order_first)
  next
    case ys: (Cons b ys')
    then have b: "b \<noteq> 0" "0 \<notin> set ys'" using Cons.prems by auto
    show ?thesis
    proof (cases "a = b")
      case True
      then show ?thesis using Cons.IH [OF a(2) b(2)] ys b(1) by (auto intro: first_difference_Cons)
    next
      case False
      then show ?thesis
        using first_difference_head [OF False, of "xs @ [0]" "ys' @ [0]"] ys a(1) b(1) sint_neq [of a b] by auto
    qed
  qed
qed

text \<open>Comparing at most \<^verbatim>\<open>n\<close> characters looks at one character more: it is the comparison of the first \<^verbatim>\<open>n + 1\<close>.\<close>

lemma strncmp_takes_one_more:
  "0 \<notin> set xs \<Longrightarrow> 0 \<notin> set ys \<Longrightarrow>
    \<exists>r. rtl_strncmp (xs @ 0 # u) (ys @ 0 # v) n = Some r \<and>
      first_difference (take (Suc n) (xs @ [0])) (take (Suc n) (ys @ [0])) r"
proof (induction xs arbitrary: ys n)
  case Nil
  then show ?case
  proof (cases ys)
    case (Cons b ys')
    then have "b \<noteq> 0" using Nil by auto
    then show ?thesis using Cons first_difference_head [of 0 b "[]" "take n (ys' @ [0])"] by (simp add: char_order_first)
  qed (simp add: char_order_def first_difference_def)
next
  case (Cons a xs)
  then have a: "a \<noteq> 0" "0 \<notin> set xs" by auto
  show ?case
  proof (cases ys)
    case Nil
    then show ?thesis using a first_difference_head [of a 0 "take n (xs @ [0])" "[]"] by (simp add: char_order_first)
  next
    case ys: (Cons b ys')
    then have b: "b \<noteq> 0" "0 \<notin> set ys'" using Cons.prems by auto
    show ?thesis
    proof (cases "a = b")
      case True
      show ?thesis
      proof (cases n)
        case 0
        then show ?thesis using True ys by (simp add: char_order_first first_difference_def)
      next
        case (Suc k)
        then show ?thesis using True Cons.IH [OF a(2) b(2), of k] ys b(1) by (auto intro: first_difference_Cons)
      qed
    next
      case False
      then show ?thesis
        using first_difference_head [OF False, of "take n (xs @ [0])" "take n (ys' @ [0])"] ys a(1) b(1) sint_neq [of a b]
        by (cases n) (auto simp: char_order_first)
    qed
  qed
qed

lemma to_lower_sign:
  assumes "b \<noteq> 0"
  shows "to_lower b \<noteq> 0" and "sint (to_lower b) < 0 \<longleftrightarrow> sint b < 0"
proof -
  have "sint (b + 0x20) = sint b + 32" if "65 \<le> sint b" "sint b \<le> 90"
  proof -
    have "sint (b + 0x20) = signed_take_bit 7 (sint b + sint (0x20 :: u8))" by (simp add: sint_word_ariths(1))
    also have "\<dots> = sint b + 32" using that by (simp add: signed_take_bit_int_eq_self)
    finally show ?thesis .
  qed
  then show "sint (to_lower b) < 0 \<longleftrightarrow> sint b < 0" "to_lower b \<noteq> 0"
    using assms by (auto simp: to_lower_def)
qed

lemma strcasecmp_first_difference:
  "0 \<notin> set xs \<Longrightarrow> 0 \<notin> set ys \<Longrightarrow>
    \<exists>r. rtl_strcasecmp (xs @ 0 # u) (ys @ 0 # v) = Some r \<and>
      first_difference (map to_lower xs @ [0]) (map to_lower ys @ [0]) r"
proof (induction xs arbitrary: ys)
  case Nil
  then show ?case
  proof (cases ys)
    case (Cons b ys')
    then have "b \<noteq> 0" using Nil by auto
    then show ?thesis
      using Cons first_difference_head [of 0 "to_lower b" "[]" "map to_lower ys' @ [0]"] to_lower_sign [of b] sint_neq [of b 0]
        sint_neq [of "to_lower b" 0]
      by (auto simp: char_order_def split: if_splits)
  qed (simp add: char_order_def first_difference_def)
next
  case (Cons a xs)
  then have a: "a \<noteq> 0" "0 \<notin> set xs" by auto
  show ?case
  proof (cases ys)
    case Nil
    then show ?thesis
      using a first_difference_head [of "to_lower a" 0 "map to_lower xs @ [0]" "[]"] to_lower_sign [of a] sint_neq [of a 0]
        sint_neq [of "to_lower a" 0]
      by (auto simp: char_order_def split: if_splits)
  next
    case ys: (Cons b ys')
    then have b: "b \<noteq> 0" "0 \<notin> set ys'" using Cons.prems by auto
    show ?thesis
    proof (cases "to_lower a = to_lower b")
      case True
      then show ?thesis using Cons.IH [OF a(2) b(2)] ys b(1) a(1) by (auto intro: first_difference_Cons)
    next
      case False
      then show ?thesis
        using first_difference_head [OF False, of "map to_lower xs @ [0]" "map to_lower ys' @ [0]"] ys a(1) b(1)
          sint_neq [of "to_lower a" "to_lower b"] by (auto simp: Let_def)
    qed
  qed
qed

lemma strncasecmp_common_prefix:
  "0 \<notin> set xs \<Longrightarrow> 0 \<notin> set ys \<Longrightarrow> k = min n (min (length xs) (length ys)) \<Longrightarrow>
    \<exists>r. rtl_strncasecmp (xs @ 0 # u) (ys @ 0 # v) n = Some r \<and>
      first_difference (take k (map to_lower xs)) (take k (map to_lower ys)) r"
proof (induction xs arbitrary: ys n k)
  case Nil
  then show ?case by (cases ys) (auto simp: first_difference_def)
next
  case (Cons a xs)
  then have a: "a \<noteq> 0" "0 \<notin> set xs" by auto
  show ?case
  proof (cases ys)
    case Nil
    then show ?thesis using a Cons.prems(3) by (simp add: first_difference_def)
  next
    case ys: (Cons b ys')
    then have b: "b \<noteq> 0" "0 \<notin> set ys'" using Cons.prems by auto
    show ?thesis
    proof (cases n)
      case 0
      then show ?thesis using ys Cons.prems(3) by (simp add: first_difference_def)
    next
      case (Suc n')
      then obtain k' where k: "k = Suc k'" "k' = min n' (min (length xs) (length ys'))"
        using ys Cons.prems(3) by simp
      show ?thesis
      proof (cases "to_lower a = to_lower b")
        case True
        then show ?thesis using Cons.IH [OF a(2) b(2) k(2)] ys b(1) a(1) Suc k(1) by (auto intro: first_difference_Cons)
      next
        case False
        then show ?thesis
          using first_difference_head [OF False, of "take k' (map to_lower xs)" "take k' (map to_lower ys')"] ys a(1) b(1)
            sint_neq [of "to_lower a" "to_lower b"] Suc k(1) by (auto simp: Let_def)
      qed
    qed
  qed
qed

text \<open>
  C32. The comparison of two C strings is decided by their first difference as signed characters, terminator
  included; without regard to case it is the same on the lower-case strings. The bounded
  comparison looks at \<^verbatim>\<open>n + 1\<close> characters. The bounded one without regard to case looks only at the
  first \<^verbatim>\<open>n\<close> characters both strings have, so it finds a string equal to each of its prefixes.
\<close>

theorem rtl_compare_correct:
  assumes "cstring s xs" and "cstring t ys"
  shows "(\<exists>r. rtl_strcmp s t = Some r \<and> first_difference (xs @ [0]) (ys @ [0]) r) \<and>
    (\<exists>r. rtl_strncmp s t n = Some r \<and> first_difference (take (Suc n) (xs @ [0])) (take (Suc n) (ys @ [0])) r) \<and>
    (\<exists>r. rtl_strcasecmp s t = Some r \<and> first_difference (map to_lower xs @ [0]) (map to_lower ys @ [0]) r) \<and>
    (\<exists>r. rtl_strncasecmp s t n = Some r \<and>
      first_difference (take (min n (min (length xs) (length ys))) (map to_lower xs))
        (take (min n (min (length xs) (length ys))) (map to_lower ys)) r)"
proof -
  obtain u where s: "0 \<notin> set xs" "s = xs @ 0 # u" using assms(1) by (rule cstringE)
  obtain v where t: "0 \<notin> set ys" "t = ys @ 0 # v" using assms(2) by (rule cstringE)
  show ?thesis
    unfolding s(2) t(2)
    by (intro conjI strcmp_first_difference strncmp_takes_one_more strcasecmp_first_difference
        strncasecmp_common_prefix s t refl)
qed

theorem rtl_compare_correct_witness:
  "rtl_strncmp [97, 98, 0] [97, 99, 0] 1 = Some (- 1) \<and> rtl_strncasecmp [97, 98, 0] [65, 66, 67, 0] 9 = Some 0"
proof -
  have c: "cstring [97, 98, 0] [97, 98]" "cstring [97, 99, 0] [97, 99]" "cstring [65, 66, 67, 0] [65, 66, 67]"
    by (simp_all add: cstring_def)
  have "\<exists>r. rtl_strncmp [97, 98, 0] [97, 99, 0] 1 = Some r \<and> first_difference [97, 98] [97, 99] r"
    using rtl_compare_correct [OF c(1,2), of 1] by simp
  moreover have "\<exists>r. rtl_strncasecmp [97, 98, 0] [65, 66, 67, 0] 9 = Some r" using rtl_compare_correct [OF c(1,3), of 9] by blast
  ultimately show ?thesis by (simp add: char_order_def to_lower_def)
qed

text \<open>A bounded duplicate of a longer string runs past its block: it allocates for \<^verbatim>\<open>n\<close> characters and copies all.\<close>

lemma rtl_strndup_overruns:
  assumes "cstring s xs" and "n < length xs" and "alloc (n + 1) = Some blk" and "length blk = n + 1"
  shows "rtl_strndup s n alloc = None"
proof -
  obtain rest where s: "0 \<notin> set xs" "s = xs @ 0 # rest" using assms(1) by (rule cstringE)
  show ?thesis
    using strlen_cstring [OF assms(1)] assms(2-4) strcpy_loop_cstring [OF s(1), of blk rest 0] s(2)
    by (simp add: rtl_strndup_def rtl_strcpy_def)
qed

end
