(* ===== verification/Matrix2d.thy ===== *)
theory Matrix2d
  imports Prelude "HOL-Library.Monad_Syntax"
begin

text \<open>
  \<^verbatim>\<open>addons/matrix2d/matrix2d.c\<close>: matrices of \<^verbatim>\<open>long\<close> in row-major order. Counts are 32-bit and
  wrap as in the code; the element arithmetic wraps at 64 bits. NULL is \<^term>\<open>None\<close>, \<^term>\<open>mem\<close> says whether
  \<^verbatim>\<open>malloc\<close> succeeds, and an access outside a field is a failure: the outer option of a result.
\<close>

type_synonym matrix2d_ele_t = u64
type_synonym matrix2d_calc = "(matrix2d_ele_t \<Rightarrow> matrix2d_ele_t \<Rightarrow> matrix2d_ele_t) option"

record matrix2d =
  mcolumn :: u32
  mline :: u32
  mfield :: "matrix2d_ele_t list"

section \<open>Operations\<close>

definition matrix2d_calc_add :: "matrix2d_ele_t \<Rightarrow> matrix2d_ele_t \<Rightarrow> matrix2d_ele_t" where
  "matrix2d_calc_add left right = left + right"

definition matrix2d_calc_mul :: "matrix2d_ele_t \<Rightarrow> matrix2d_ele_t \<Rightarrow> matrix2d_ele_t" where
  "matrix2d_calc_mul left right = left * right"

definition matrix2d_index2line :: "matrix2d \<Rightarrow> u32 \<Rightarrow> u32" where
  "matrix2d_index2line m i = i div mcolumn m"

definition matrix2d_index2column :: "matrix2d \<Rightarrow> u32 \<Rightarrow> u32" where
  "matrix2d_index2column m i = i mod mcolumn m"

definition matrix2d_alloc :: "bool \<Rightarrow> u32 \<Rightarrow> u32 \<Rightarrow> matrix2d option" where
  "matrix2d_alloc mem line column =
     (if column = 0 \<or> line = 0 then None
      else
        (let ele_count = line * column in
         if \<not> mem then None else Some \<lparr>mcolumn = column, mline = line, mfield = replicate (unat ele_count) 0\<rparr>))"

definition matrix2d_raw :: "matrix2d option \<Rightarrow> matrix2d_ele_t list option" where
  "matrix2d_raw m =
     (case m of
        None \<Rightarrow> None
      | Some m \<Rightarrow> if mcolumn m = 0 \<or> mline m = 0 then None else Some (mfield m))"

definition matrix2d_size :: "matrix2d option \<Rightarrow> u32" where
  "matrix2d_size m = (case m of None \<Rightarrow> 0 | Some m \<Rightarrow> mline m * mcolumn m * 8)"

definition matrix2d_equal :: "matrix2d option \<Rightarrow> matrix2d option \<Rightarrow> bool option" where
  "matrix2d_equal left right =
     (case (left, right) of
        (Some l, Some r) \<Rightarrow>
          if mcolumn l \<noteq> mcolumn r \<or> mline l \<noteq> mline r then Some False
          else do {
            let n = unat (matrix2d_size left) div 8;
            a \<leftarrow> mem_read (mfield l) 0 n;
            b \<leftarrow> mem_read (mfield r) 0 n;
            Some (a = b)
          }
      | _ \<Rightarrow> Some False)"

text \<open>An iterator may change the element it is given and the caller's argument.\<close>

type_synonym 's matrixed_iterator = "matrix2d_ele_t \<Rightarrow> u32 \<Rightarrow> 's \<Rightarrow> matrix2d_ele_t \<times> 's"

fun matrix2d_visit :: "'s matrixed_iterator \<Rightarrow> u32 list \<Rightarrow> matrix2d_ele_t list \<Rightarrow> 's \<Rightarrow> (matrix2d_ele_t list \<times> 's) option" where
  "matrix2d_visit it [] f s = Some (f, s)"
| "matrix2d_visit it (loc # locs) f s = do {
     e \<leftarrow> mem_get f (unat loc);
     let (e, s) = it e loc s;
     f \<leftarrow> mem_put f (unat loc) e;
     matrix2d_visit it locs f s
   }"

definition matrix2d_iterate_element ::
    "matrix2d option \<Rightarrow> 's matrixed_iterator option \<Rightarrow> 's \<Rightarrow> (matrix2d option \<times> 's) option" where
  "matrix2d_iterate_element m iterator args =
     (case (m, iterator) of
        (Some m, Some it) \<Rightarrow> do {
          (f, s) \<leftarrow> matrix2d_visit it (map of_nat [0 ..< unat (mcolumn m * mline m)]) (mfield m) args;
          Some (Some (m\<lparr>mfield := f\<rparr>), s)
        }
      | _ \<Rightarrow> Some (m, args))"

definition matrix2d_iterate_line ::
    "matrix2d option \<Rightarrow> u32 \<Rightarrow> 's matrixed_iterator option \<Rightarrow> 's \<Rightarrow> (matrix2d option \<times> 's) option" where
  "matrix2d_iterate_line m line iterator args =
     (case (m, iterator) of
        (Some m, Some it) \<Rightarrow>
          if line < mline m then do {
            (f, s) \<leftarrow> matrix2d_visit it (map (\<lambda>i. mcolumn m * line + of_nat i) [0 ..< unat (mcolumn m)]) (mfield m) args;
            Some (Some (m\<lparr>mfield := f\<rparr>), s)
          } else Some (Some m, args)
      | _ \<Rightarrow> Some (m, args))"

definition matrix2d_iterate_column ::
    "matrix2d option \<Rightarrow> u32 \<Rightarrow> 's matrixed_iterator option \<Rightarrow> 's \<Rightarrow> (matrix2d option \<times> 's) option" where
  "matrix2d_iterate_column m column iterator args =
     (case (m, iterator) of
        (Some m, Some it) \<Rightarrow>
          if column < mcolumn m then do {
            (f, s) \<leftarrow> matrix2d_visit it (map (\<lambda>i. of_nat i * mcolumn m + column) [0 ..< unat (mline m)]) (mfield m) args;
            Some (Some (m\<lparr>mfield := f\<rparr>), s)
          } else Some (Some m, args)
      | _ \<Rightarrow> Some (m, args))"

text \<open>The queried value replaces \<^term>\<open>old\<close>, the content of the caller's variable, only on success.\<close>

definition matrix2d_query_element ::
    "matrix2d option \<Rightarrow> u32 \<Rightarrow> u32 \<Rightarrow> matrix2d_ele_t \<Rightarrow> (int \<times> matrix2d_ele_t) option" where
  "matrix2d_query_element m line column old =
     (case m of
        None \<Rightarrow> Some (- 1, old)
      | Some m \<Rightarrow>
          if mcolumn m \<le> column \<or> mline m \<le> line then Some (- 1, old)
          else do { e \<leftarrow> mem_get (mfield m) (unat (line * mcolumn m + column)); Some (0, e) })"

definition calc_with :: "matrix2d_calc \<Rightarrow> (matrix2d_ele_t \<Rightarrow> matrix2d_ele_t \<Rightarrow> matrix2d_ele_t) \<Rightarrow>
    matrix2d_ele_t \<Rightarrow> matrix2d_ele_t \<Rightarrow> matrix2d_ele_t" where
  "calc_with fn dflt a b = (case fn of None \<Rightarrow> dflt a b | Some g \<Rightarrow> g a b)"

definition matrix2d_add :: "bool \<Rightarrow> matrix2d option \<Rightarrow> matrix2d option \<Rightarrow> matrix2d_calc \<Rightarrow> matrix2d option option" where
  "matrix2d_add mem left right addfn =
     (case (left, right) of
        (Some l, Some r) \<Rightarrow>
          if mcolumn l \<noteq> mcolumn r \<or> mline l \<noteq> mline r then Some None
          else
            (case matrix2d_alloc mem (mline l) (mcolumn l) of
               None \<Rightarrow> Some None
             | Some m \<Rightarrow> do {
                 let n = unat (mline m * mcolumn m);
                 a \<leftarrow> mem_read (mfield l) 0 n;
                 b \<leftarrow> mem_read (mfield r) 0 n;
                 Some (Some (m\<lparr>mfield := map2 (calc_with addfn matrix2d_calc_add) a b\<rparr>))
               })
      | _ \<Rightarrow> Some None)"

text \<open>The inner loop of a product: the two query results are variables that keep their value when a query fails.\<close>

fun matrix2d_mul_inner ::
    "matrix2d \<Rightarrow> matrix2d \<Rightarrow> matrix2d_calc \<Rightarrow> matrix2d_calc \<Rightarrow> u32 \<Rightarrow> u32 \<Rightarrow> nat list \<Rightarrow>
     matrix2d_ele_t \<times> matrix2d_ele_t \<times> matrix2d_ele_t \<Rightarrow> (matrix2d_ele_t \<times> matrix2d_ele_t \<times> matrix2d_ele_t) option" where
  "matrix2d_mul_inner l r mulfn addfn line column [] st = Some st"
| "matrix2d_mul_inner l r mulfn addfn line column (j # js) (acc, ele_left, ele_right) = do {
     (_, ele_left) \<leftarrow> matrix2d_query_element (Some l) line (of_nat j) ele_left;
     (_, ele_right) \<leftarrow> matrix2d_query_element (Some r) (of_nat j) column ele_right;
     let middle = calc_with mulfn matrix2d_calc_mul ele_left ele_right;
     matrix2d_mul_inner l r mulfn addfn line column js (calc_with addfn matrix2d_calc_add acc middle, ele_left, ele_right)
   }"

fun matrix2d_mul_outer ::
    "matrix2d \<Rightarrow> matrix2d \<Rightarrow> matrix2d_calc \<Rightarrow> matrix2d_calc \<Rightarrow> nat list \<Rightarrow>
     matrix2d \<times> matrix2d_ele_t \<times> matrix2d_ele_t \<Rightarrow> (matrix2d \<times> matrix2d_ele_t \<times> matrix2d_ele_t) option" where
  "matrix2d_mul_outer l r mulfn addfn [] st = Some st"
| "matrix2d_mul_outer l r mulfn addfn (i # is) (m, ele_left, ele_right) = do {
     acc \<leftarrow> mem_get (mfield m) i;
     (acc, ele_left, ele_right) \<leftarrow>
       matrix2d_mul_inner l r mulfn addfn (matrix2d_index2line m (of_nat i)) (matrix2d_index2column m (of_nat i))
         [0 ..< unat (mcolumn l)] (acc, ele_left, ele_right);
     f \<leftarrow> mem_put (mfield m) i acc;
     matrix2d_mul_outer l r mulfn addfn is (m\<lparr>mfield := f\<rparr>, ele_left, ele_right)
   }"

text \<open>\<^term>\<open>junk\<close> is the content of the two uninitialised variables.\<close>

definition matrix2d_mul ::
    "bool \<Rightarrow> matrix2d_ele_t \<times> matrix2d_ele_t \<Rightarrow> matrix2d option \<Rightarrow> matrix2d option \<Rightarrow> matrix2d_calc \<Rightarrow> matrix2d_calc \<Rightarrow>
     matrix2d option option" where
  "matrix2d_mul mem junk left right mulfn addfn =
     (case (left, right) of
        (Some l, Some r) \<Rightarrow>
          if mcolumn l \<noteq> mline r then Some None
          else
            (case matrix2d_alloc mem (mline l) (mcolumn l) of
               None \<Rightarrow> Some None
             | Some m \<Rightarrow> do {
                 (m, _) \<leftarrow> matrix2d_mul_outer l r mulfn addfn [0 ..< unat (mline m * mcolumn m)] (m, junk);
                 Some (Some m)
               })
      | _ \<Rightarrow> Some None)"

definition matrix2d_scalar_mul :: "bool \<Rightarrow> matrix2d option \<Rightarrow> matrix2d_ele_t \<Rightarrow> matrix2d_calc \<Rightarrow> matrix2d option option" where
  "matrix2d_scalar_mul mem left scalar mulfn =
     (case left of
        None \<Rightarrow> Some None
      | Some l \<Rightarrow>
          if mline l = 0 \<or> mcolumn l = 0 then Some None
          else
            (case matrix2d_alloc mem (mline l) (mcolumn l) of
               None \<Rightarrow> Some None
             | Some m \<Rightarrow> do {
                 a \<leftarrow> mem_read (mfield l) 0 (unat (mline m * mcolumn m));
                 Some (Some (m\<lparr>mfield := map (\<lambda>e. e * scalar) a\<rparr>))
               }))"

fun matrix2d_transport_loop :: "matrix2d \<Rightarrow> (nat \<times> nat) list \<Rightarrow> nat \<Rightarrow> matrix2d_ele_t list \<Rightarrow> matrix2d_ele_t list option" where
  "matrix2d_transport_loop src [] off f = Some f"
| "matrix2d_transport_loop src ((i, j) # ps) off f = do {
     e \<leftarrow> mem_get (mfield src) (unat (of_nat j * mcolumn src + of_nat i));
     f \<leftarrow> mem_put f off e;
     matrix2d_transport_loop src ps (off + 1) f
   }"

definition matrix2d_transport :: "bool \<Rightarrow> matrix2d option \<Rightarrow> matrix2d option option" where
  "matrix2d_transport mem src =
     (case src of
        None \<Rightarrow> Some None
      | Some s \<Rightarrow>
          (case matrix2d_alloc mem (mcolumn s) (mline s) of
             None \<Rightarrow> Some None
           | Some m \<Rightarrow> do {
               f \<leftarrow> matrix2d_transport_loop s (List.product [0 ..< unat (mcolumn s)] [0 ..< unat (mline s)]) 0 (mfield m);
               Some (Some (m\<lparr>mfield := f\<rparr>))
             }))"

fun matrix2d_diagonal :: "u32 \<Rightarrow> nat list \<Rightarrow> matrix2d_ele_t list \<Rightarrow> matrix2d_ele_t list option" where
  "matrix2d_diagonal scale [] f = Some f"
| "matrix2d_diagonal scale (i # is) f = do {
     f \<leftarrow> mem_put f (unat (of_nat i * scale + of_nat i)) 1;
     matrix2d_diagonal scale is f
   }"

definition matrix2d_make_identity :: "bool \<Rightarrow> u32 \<Rightarrow> matrix2d option option" where
  "matrix2d_make_identity mem scale =
     (if scale = 0 then Some None
      else
        (case matrix2d_alloc mem scale scale of
           None \<Rightarrow> Some None
         | Some m \<Rightarrow> do { f \<leftarrow> matrix2d_diagonal scale [0 ..< unat scale] (mfield m); Some (Some (m\<lparr>mfield := f\<rparr>)) }))"

section \<open>Well-formed matrices\<close>

text \<open>The element count fits 32 bits, and the field has that many elements.\<close>

definition matrix_ok :: "matrix2d \<Rightarrow> bool" where
  "matrix_ok m \<longleftrightarrow> mcolumn m \<noteq> 0 \<and> mline m \<noteq> 0 \<and> unat (mline m) * unat (mcolumn m) < 2 ^ 32 \<and>
     length (mfield m) = unat (mline m) * unat (mcolumn m)"

abbreviation mrows :: "matrix2d \<Rightarrow> nat" where "mrows m \<equiv> unat (mline m)"
abbreviation mcols :: "matrix2d \<Rightarrow> nat" where "mcols m \<equiv> unat (mcolumn m)"

definition entry :: "matrix2d \<Rightarrow> nat \<Rightarrow> nat \<Rightarrow> matrix2d_ele_t" where
  "entry m i j = mfield m ! (i * mcols m + j)"

definition shaped :: "nat \<Rightarrow> nat \<Rightarrow> (nat \<Rightarrow> nat \<Rightarrow> matrix2d_ele_t) \<Rightarrow> matrix2d \<Rightarrow> bool" where
  "shaped r c e m \<longleftrightarrow> matrix_ok m \<and> mrows m = r \<and> mcols m = c \<and> (\<forall>i < r. \<forall>j < c. entry m i j = e i j)"


lemma unat_u32: "unat (x :: u32) < 2 ^ 32"
  using unsigned_less [of x] by simp

lemma row_major_less: "i < r \<Longrightarrow> j < c \<Longrightarrow> i * c + j < r * c" for i j r c :: nat
proof -
  assume "i < r" "j < c"
  then have "i * c + j < i * c + c" by simp
  also have "\<dots> = Suc i * c" by simp
  also have "\<dots> \<le> r * c" using \<open>i < r\<close> by (intro mult_right_mono) auto
  finally show ?thesis .
qed

lemma unat_row_major:
  assumes "matrix_ok m" "i < mrows m" "j < mcols m"
  shows "unat (of_nat i * mcolumn m + of_nat j) = i * mcols m + j"
proof -
  have "i * mcols m + j < 2 ^ 32"
    using row_major_less [OF assms(2,3)] assms(1) by (simp add: matrix_ok_def)
  moreover have "of_nat i * mcolumn m + of_nat j = (of_nat (i * mcols m + j) :: u32)" by simp
  ultimately show ?thesis by (simp only: unat_of_nat) simp
qed

lemma unat_count: "unat (mline m) * unat (mcolumn m) < 2 ^ 32 \<Longrightarrow> unat (mline m * mcolumn m) = mrows m * mcols m"
  by (simp add: unat_word_ariths(2))

lemma field_entry:
  assumes "matrix_ok m" "k < mrows m * mcols m"
  shows "mfield m ! k = entry m (k div mcols m) (k mod mcols m)"
  by (simp add: entry_def)

text \<open>A matrix has the entries \<^term>\<open>e\<close> when its field has them in row-major order.\<close>

lemma shapedI:
  assumes "matrix_ok m" "\<And>k. k < mrows m * mcols m \<Longrightarrow> mfield m ! k = e (k div mcols m) (k mod mcols m)"
  shows "shaped (mrows m) (mcols m) e m"
proof -
  have "entry m i j = e i j" if "i < mrows m" "j < mcols m" for i j
    using assms(2) [OF row_major_less [OF that]] that by (simp add: entry_def)
  then show ?thesis using assms(1) by (simp add: shaped_def)
qed

lemma alloc_fresh:
  assumes "l \<noteq> 0" "c \<noteq> 0" "unat l * unat c < 2 ^ 32"
  shows "matrix2d_alloc True l c = Some \<lparr>mcolumn = c, mline = l, mfield = replicate (unat l * unat c) 0\<rparr>"
  using assms by (simp add: matrix2d_alloc_def unat_word_ariths(2))

lemma matrix_okD:
  assumes "matrix_ok m"
  shows "mline m \<noteq> 0" "mcolumn m \<noteq> 0" "mrows m * mcols m < 2 ^ 32" "length (mfield m) = mrows m * mcols m"
    "0 < mrows m" "0 < mcols m"
  using assms by (auto simp: matrix_ok_def unat_gt_0)

lemmas matrix_alloc = alloc_fresh [OF matrix_okD(1-3)]

section \<open>What the operations compute\<close>

lemma query_entry:
  assumes "matrix_ok m" "i < mrows m" "j < mcols m"
  shows "matrix2d_query_element (Some m) (of_nat i) (of_nat j) old = Some (0, entry m i j)"
proof -
  have b: "i < 2 ^ 32" "j < 2 ^ 32"
    using assms(2,3) unat_u32 [of "mline m"] unat_u32 [of "mcolumn m"] by simp_all
  then have "\<not> mcolumn m \<le> of_nat j" "\<not> mline m \<le> of_nat i"
    using assms(2,3) by (simp_all add: word_le_nat_alt unat_of_nat)
  moreover have "i * mcols m + j < length (mfield m)"
    using row_major_less [OF assms(2,3)] assms(1) by (simp add: matrix_ok_def)
  ultimately show ?thesis
    by (simp add: matrix2d_query_element_def unat_row_major [OF assms] entry_def)
qed

lemma query_outside:
  "\<not> (unat i < mrows m \<and> unat j < mcols m) \<Longrightarrow> matrix2d_query_element (Some m) i j old = Some (- 1, old)"
  by (auto simp: matrix2d_query_element_def word_le_nat_alt)

lemma add_entries:
  assumes "matrix_ok l" "matrix_ok r" "mline r = mline l" "mcolumn r = mcolumn l"
  shows "\<exists>m. matrix2d_add True (Some l) (Some r) addfn = Some (Some m) \<and>
    shaped (mrows l) (mcols l) (\<lambda>i j. calc_with addfn matrix2d_calc_add (entry l i j) (entry r i j)) m"
proof -
  note ok = matrix_okD [OF assms(1)] matrix_okD [OF assms(2)]
  define m where "m = \<lparr>mcolumn = mcolumn l, mline = mline l,
    mfield = map2 (calc_with addfn matrix2d_calc_add) (mfield l) (mfield r)\<rparr>"
  have "matrix2d_add True (Some l) (Some r) addfn = Some (Some m)"
    unfolding m_def matrix2d_add_def using ok assms
    by (simp add: matrix_alloc mem_read_all unat_word_ariths(2))
  moreover have "shaped (mrows m) (mcols m) (\<lambda>i j. calc_with addfn matrix2d_calc_add (entry l i j) (entry r i j)) m"
    by (rule shapedI) (use ok assms in \<open>auto simp: m_def matrix_ok_def entry_def\<close>)
  ultimately show ?thesis by (auto simp: m_def)
qed

lemma scalar_mul_entries:
  assumes "matrix_ok l"
  shows "\<exists>m. matrix2d_scalar_mul True (Some l) k mulfn = Some (Some m) \<and>
    shaped (mrows l) (mcols l) (\<lambda>i j. entry l i j * k) m"
proof -
  note ok = matrix_okD [OF assms(1)]
  define m where "m = \<lparr>mcolumn = mcolumn l, mline = mline l, mfield = map (\<lambda>e. e * k) (mfield l)\<rparr>"
  have "matrix2d_scalar_mul True (Some l) k mulfn = Some (Some m)"
    unfolding m_def matrix2d_scalar_mul_def using ok assms
    by (simp add: matrix_alloc mem_read_all unat_word_ariths(2))
  moreover have "shaped (mrows m) (mcols m) (\<lambda>i j. entry l i j * k) m"
    by (rule shapedI) (use ok assms in \<open>auto simp: m_def matrix_ok_def entry_def\<close>)
  ultimately show ?thesis by (auto simp: m_def)
qed


text \<open>The entry a product should have: the sum, in the order of the loop, over the inner dimension.\<close>

definition dot :: "matrix2d \<Rightarrow> matrix2d \<Rightarrow> matrix2d_calc \<Rightarrow> matrix2d_calc \<Rightarrow> nat \<Rightarrow> nat \<Rightarrow> matrix2d_ele_t \<Rightarrow> nat list \<Rightarrow> matrix2d_ele_t" where
  "dot l r mulfn addfn i j = foldl (\<lambda>acc k. calc_with addfn matrix2d_calc_add acc
     (calc_with mulfn matrix2d_calc_mul (entry l i k) (entry r k j)))"

lemma mul_inner_dot:
  assumes "matrix_ok l" "matrix_ok r" "i < mrows l" "c < mcols r" "set js \<subseteq> {..<mcols l}" "mcols l = mrows r"
  shows "\<exists>st. matrix2d_mul_inner l r mulfn addfn (of_nat i) (of_nat c) js (acc, a, b) = Some (dot l r mulfn addfn i c acc js, st)"
  using assms(5)
proof (induction js arbitrary: acc a b)
  case (Cons j js)
  then have "j < mcols l" "j < mrows r" using assms(6) by auto
  then show ?case using Cons assms(1-4) by (simp add: query_entry dot_def)
qed (auto simp: dot_def)

lemma index2line_of_nat: "k < 2 ^ 32 \<Longrightarrow> matrix2d_index2line m (of_nat k) = of_nat (k div mcols m)"
  and index2column_of_nat: "k < 2 ^ 32 \<Longrightarrow> matrix2d_index2column m (of_nat k) = of_nat (k mod mcols m)"
proof -
  assume k: "k < 2 ^ 32"
  then have "k div mcols m < 2 ^ 32" "k mod mcols m < 2 ^ 32"
    by (meson div_le_dividend le_less_trans, meson mod_less_eq_dividend le_less_trans)
  then show "matrix2d_index2line m (of_nat k) = of_nat (k div mcols m)"
    "matrix2d_index2column m (of_nat k) = of_nat (k mod mcols m)"
    using k by (auto intro!: word_unat_eq_iff [THEN iffD2]
      simp: matrix2d_index2line_def matrix2d_index2column_def unat_of_nat unat_div unat_mod)
qed

lemma mul_outer_dot:
  assumes "matrix_ok l" "matrix_ok r" "mcols l = mrows r" "mcols l \<le> mcols r"
    and "distinct is" "set is \<subseteq> {..<length (mfield m)}" "matrix_ok m" "mrows m = mrows l" "mcols m = mcols l"
  shows "\<exists>m' st. matrix2d_mul_outer l r mulfn addfn is (m, junk) = Some (m', st) \<and>
    mline m' = mline m \<and> mcolumn m' = mcolumn m \<and> length (mfield m') = length (mfield m) \<and>
    (\<forall>k < length (mfield m). mfield m' ! k =
      (if k \<in> set is then dot l r mulfn addfn (k div mcols l) (k mod mcols l) (mfield m ! k) [0 ..< mcols l] else mfield m ! k))"
  using assms(5-)
proof (induction "is" arbitrary: m junk)
  case (Cons i "is")
  obtain a b where junk: "junk = (a, b)" by (cases junk)
  have i: "i < length (mfield m)" "i < mrows l * mcols l" "i < 2 ^ 32"
    using Cons.prems matrix_okD [OF Cons.prems(3)] by auto
  then have rc: "i div mcols l < mrows l" "i mod mcols l < mcols l"
    using matrix_okD(6) [OF assms(1)] by (simp_all add: less_mult_imp_div_less)
  then obtain st where st: "matrix2d_mul_inner l r mulfn addfn (of_nat (i div mcols l)) (of_nat (i mod mcols l)) [0 ..< mcols l]
      (mfield m ! i, a, b) = Some (dot l r mulfn addfn (i div mcols l) (i mod mcols l) (mfield m ! i) [0 ..< mcols l], st)"
    using mul_inner_dot [OF assms(1,2) rc(1), of "i mod mcols l" "[0 ..< mcols l]" mulfn addfn "mfield m ! i" a b] assms(3,4)
    by (auto simp: atLeast0LessThan)
  define v where "v = dot l r mulfn addfn (i div mcols l) (i mod mcols l) (mfield m ! i) [0 ..< mcols l]"
  define m1 where "m1 = m\<lparr>mfield := (mfield m)[i := v]\<rparr>"
  have m1: "mline m1 = mline m" "mcolumn m1 = mcolumn m" "mfield m1 = (mfield m)[i := v]" by (simp_all add: m1_def)
  have "matrix_ok m1" using Cons.prems(3) by (simp add: matrix_ok_def m1)
  then obtain m' st' where m': "matrix2d_mul_outer l r mulfn addfn is (m1, st) = Some (m', st')"
    "mline m' = mline m1" "mcolumn m' = mcolumn m1" "length (mfield m') = length (mfield m1)"
    "\<forall>k < length (mfield m1). mfield m' ! k =
      (if k \<in> set is then dot l r mulfn addfn (k div mcols l) (k mod mcols l) (mfield m1 ! k) [0 ..< mcols l] else mfield m1 ! k)"
    using Cons.IH [of m1 st] Cons.prems by (auto simp: m1)
  have "matrix2d_mul_outer l r mulfn addfn (i # is) (m, junk) = Some (m', st')"
    using i st m'(1) Cons.prems(5)
    by (cases st) (simp add: junk index2line_of_nat index2column_of_nat v_def m1_def)
  moreover have "mfield m' ! k = (if k \<in> set (i # is) then dot l r mulfn addfn (k div mcols l) (k mod mcols l) (mfield m ! k) [0 ..< mcols l]
      else mfield m ! k)" if "k < length (mfield m)" for k
    using m'(5) that Cons.prems(1) by (cases "k = i") (auto simp: m1 v_def)
  ultimately show ?case using m' by (auto simp: m1)
qed auto

lemma mul_entries:
  assumes "matrix_ok l" "matrix_ok r" "mcolumn l = mline r" "mcols l \<le> mcols r"
  shows "\<exists>m. matrix2d_mul True junk (Some l) (Some r) mulfn addfn = Some (Some m) \<and>
    shaped (mrows l) (mcols l) (\<lambda>i j. dot l r mulfn addfn i j 0 [0 ..< mcols l]) m"
proof -
  note ok = matrix_okD [OF assms(1)]
  define z where "z = \<lparr>mcolumn = mcolumn l, mline = mline l, mfield = replicate (mrows l * mcols l) (0 :: u64)\<rparr>"
  have z: "matrix_ok z" "mline z = mline l" "mcolumn z = mcolumn l" "mfield z = replicate (mrows l * mcols l) 0"
    using ok by (auto simp: matrix_ok_def z_def)
  obtain m st where m: "matrix2d_mul_outer l r mulfn addfn [0 ..< mrows l * mcols l] (z, junk) = Some (m, st)"
    "mline m = mline z" "mcolumn m = mcolumn z" "length (mfield m) = length (mfield z)"
    "\<forall>k < length (mfield z). mfield m ! k =
      (if k \<in> set [0 ..< mrows l * mcols l] then dot l r mulfn addfn (k div mcols l) (k mod mcols l) (mfield z ! k) [0 ..< mcols l] else mfield z ! k)"
    using mul_outer_dot [OF assms(1,2) _ assms(4) _ _ z(1), of "[0 ..< mrows l * mcols l]" mulfn addfn junk] assms(3)
    by (auto simp: z atLeast0LessThan)
  have "matrix2d_mul True junk (Some l) (Some r) mulfn addfn = Some (Some m)"
    using m(1) ok assms(3) by (simp add: matrix2d_mul_def alloc_fresh unat_word_ariths(2) z_def)
  moreover have "shaped (mrows m) (mcols m) (\<lambda>i j. dot l r mulfn addfn i j 0 [0 ..< mcols l]) m"
    by (rule shapedI) (use ok m z in \<open>auto simp: matrix_ok_def\<close>)
  ultimately show ?thesis using m z by auto
qed


lemma dot_sum: "dot l r None None i j a js = a + (\<Sum>k\<leftarrow>js. entry l i k * entry r k j)"
  by (induction js arbitrary: a) (simp_all add: dot_def calc_with_def matrix2d_calc_add_def matrix2d_calc_mul_def add.assoc)

lemma transport_loop_entries:
  assumes "matrix_ok s" "\<And>i j. (i, j) \<in> set ps \<Longrightarrow> i < mcols s \<and> j < mrows s" "off + length ps \<le> length f"
  shows "matrix2d_transport_loop s ps off f = Some (take off f @ map (\<lambda>(i, j). entry s j i) ps @ drop (off + length ps) f)"
  using assms(2,3)
proof (induction ps arbitrary: off f)
  case (Cons p ps)
  obtain i j where p: "p = (i, j)" by (cases p)
  have ij: "i < mcols s" "j < mrows s" using Cons.prems(1) [of i j] by (simp_all add: p)
  have "j * mcols s + i < length (mfield s)" using row_major_less [OF ij(2,1)] matrix_okD(4) [OF assms(1)] by simp
  moreover have "take (Suc off) (f[off := v]) = take off f @ [v]" for v
    using Cons.prems(2) by (simp add: take_Suc_conv_app_nth)
  moreover have "matrix2d_transport_loop s ps (Suc off) (f[off := v]) =
      Some (take (Suc off) (f[off := v]) @ map (\<lambda>(i, j). entry s j i) ps @ drop (Suc off + length ps) (f[off := v]))" for v
    by (rule Cons.IH) (use Cons.prems in auto)
  ultimately show ?case using Cons.prems(2) ij
    by (simp add: p unat_row_major [OF assms(1) ij(2,1)] entry_def)
qed simp

lemma transport_entries:
  assumes "matrix_ok s"
  shows "\<exists>m. matrix2d_transport True (Some s) = Some (Some m) \<and> shaped (mcols s) (mrows s) (\<lambda>i j. entry s j i) m"
proof -
  note ok = matrix_okD [OF assms]
  let ?ps = "List.product [0 ..< mcols s] [0 ..< mrows s]"
  define m where "m = \<lparr>mcolumn = mline s, mline = mcolumn s, mfield = map (\<lambda>(i, j). entry s j i) ?ps\<rparr>"
  have "matrix2d_transport_loop s ?ps 0 (replicate (mcols s * mrows s) 0) = Some (mfield m)"
    using transport_loop_entries [OF assms, of ?ps 0 "replicate (mcols s * mrows s) 0"] by (auto simp: m_def)
  then have "matrix2d_transport True (Some s) = Some (Some m)"
    using ok by (simp add: matrix2d_transport_def alloc_fresh mult.commute m_def)
  moreover have "shaped (mrows m) (mcols m) (\<lambda>i j. entry s j i) m"
    by (rule shapedI)
      (use ok in \<open>auto simp: m_def matrix_ok_def product_nth less_mult_imp_div_less mult.commute\<close>)
  ultimately show ?thesis by (auto simp: m_def)
qed

text \<open>Two matrices of the same shape with the same entries are the same.\<close>

lemma shaped_unique:
  assumes "shaped r c e m" "matrix_ok n" "mrows n = r" "mcols n = c" "\<And>i j. i < r \<Longrightarrow> j < c \<Longrightarrow> e i j = entry n i j"
  shows "m = n"
proof -
  have m: "matrix_ok m" "mrows m = r" "mcols m = c" using assms(1) by (auto simp: shaped_def)
  have "mfield m = mfield n"
  proof (rule nth_equalityI)
    show "length (mfield m) = length (mfield n)" using m assms(2-4) by (simp add: matrix_ok_def)
    fix k assume "k < length (mfield m)"
    then have k: "k < r * c" using m by (simp add: matrix_ok_def)
    then have "k div c < r" "k mod c < c" by (cases c; simp add: less_mult_imp_div_less)+
    then have "entry m (k div c) (k mod c) = entry n (k div c) (k mod c)" using assms(1,5) by (auto simp: shaped_def)
    then show "mfield m ! k = mfield n ! k" using m assms(3,4) by (simp add: entry_def)
  qed
  moreover have "mline m = mline n" "mcolumn m = mcolumn n" using m assms(3,4) by (simp_all add: word_unat_eq_iff)
  ultimately show ?thesis by (cases m; cases n) simp
qed

lemma diagonal_ones:
  assumes "unat s * unat s < 2 ^ 32" "set is \<subseteq> {..<unat s}" "length f = unat s * unat s"
  shows "\<exists>f'. matrix2d_diagonal s is f = Some f' \<and> length f' = length f \<and>
    (\<forall>k < length f. f' ! k = (if k div unat s = k mod unat s \<and> k div unat s \<in> set is then 1 else f ! k))"
  using assms(2,3)
proof (induction "is" arbitrary: f)
  case (Cons i "is")
  have i: "i < unat s" using Cons.prems(1) by simp
  then have b: "i * unat s + i < unat s * unat s" by (intro row_major_less)
  have "unat (of_nat i * s + of_nat i) = unat (of_nat (i * unat s + i) :: u32)" by simp
  also have "\<dots> = i * unat s + i" using b assms(1) by (simp only: unat_of_nat) simp
  finally have u: "unat (of_nat i * s + of_nat i) = i * unat s + i" .
  have at: "k = i * unat s + i \<longleftrightarrow> k div unat s = k mod unat s \<and> k div unat s = i" for k
    using i by (auto, metis div_mult_mod_eq)
  obtain f' where f': "matrix2d_diagonal s is (f[i * unat s + i := 1]) = Some f'" "length f' = length f"
    "\<forall>k < length f. f' ! k = (if k div unat s = k mod unat s \<and> k div unat s \<in> set is then 1 else f[i * unat s + i := 1] ! k)"
    using Cons.IH [of "f[i * unat s + i := 1]"] Cons.prems by auto
  have "f' ! k = (if k div unat s = k mod unat s \<and> k div unat s \<in> set (i # is) then 1 else f ! k)" if "k < length f" for k
    using f'(3) that at [of k] by (cases "k = i * unat s + i") auto
  then show ?case using f'(1,2) b Cons.prems(2) by (simp add: u)
qed simp

lemma identity_entries:
  assumes "s \<noteq> 0" "unat s * unat s < 2 ^ 32"
  shows "\<exists>m. matrix2d_make_identity True s = Some (Some m) \<and> shaped (unat s) (unat s) (\<lambda>i j. if i = j then 1 else 0) m"
proof -
  let ?z = "replicate (unat s * unat s) (0 :: u64)"
  obtain f where f: "matrix2d_diagonal s [0 ..< unat s] ?z = Some f" "length f = unat s * unat s"
    "\<forall>k < unat s * unat s. f ! k = (if k div unat s = k mod unat s \<and> k div unat s \<in> set [0 ..< unat s] then 1 else ?z ! k)"
    using diagonal_ones [OF assms(2), of "[0 ..< unat s]" ?z] by (auto simp: atLeast0LessThan)
  define m where "m = \<lparr>mcolumn = s, mline = s, mfield = f\<rparr>"
  have "matrix2d_make_identity True s = Some (Some m)"
    using assms f(1) by (simp add: matrix2d_make_identity_def alloc_fresh m_def)
  moreover have "shaped (mrows m) (mcols m) (\<lambda>i j. if i = j then 1 else 0) m"
    by (rule shapedI) (use assms f(2,3) in \<open>auto simp: m_def matrix_ok_def less_mult_imp_div_less\<close>)
  ultimately show ?thesis by (auto simp: m_def)
qed


lemma sum_list_delta: "n < N \<Longrightarrow> (\<Sum>k\<leftarrow>[0 ..< N]. f k * (if k = n then 1 else 0)) = f n" for f :: "nat \<Rightarrow> u64"
proof -
  assume "n < N"
  have "(\<Sum>k\<leftarrow>[0 ..< N]. f k * (if k = n then 1 else 0)) = (\<Sum>k = 0 ..< N. if k = n then f k else 0)"
    by (simp add: interv_sum_list_conv_sum_set_nat if_distrib cong: if_cong)
  then show ?thesis using \<open>n < N\<close> by simp
qed

text \<open>Comparison looks at \<^verbatim>\<open>matrix2d_size\<close> bytes, a 32-bit count.\<close>

lemma size_bytes: "mrows m * mcols m * 8 < 2 ^ 32 \<Longrightarrow> unat (matrix2d_size (Some m)) = mrows m * mcols m * 8"
proof -
  assume a: "mrows m * mcols m * 8 < 2 ^ 32"
  then have "unat (mline m * mcolumn m) = mrows m * mcols m" by (intro unat_count) linarith
  then show ?thesis using a by (simp add: matrix2d_size_def unat_word_ariths(2) [of "mline m * mcolumn m"])
qed

lemma matrix2d_equal_iff:
  assumes "matrix_ok l" "matrix_ok r" "mrows l * mcols l * 8 < 2 ^ 32"
  shows "matrix2d_equal (Some l) (Some r) = Some (l = r)"
proof (cases "mcolumn l = mcolumn r \<and> mline l = mline r")
  case True
  have "mem_read (mfield x) 0 (mrows l * mcols l) = Some (mfield x)" if "x = l \<or> x = r" for x
    using that matrix_okD(4) [OF assms(1)] matrix_okD(4) [OF assms(2)] True by (intro mem_read_all) auto
  then have "matrix2d_equal (Some l) (Some r) = Some (mfield l = mfield r)"
    using True size_bytes [OF assms(3)] by (simp add: matrix2d_equal_def)
  then show ?thesis using True by (cases l; cases r) simp
qed (auto simp: matrix2d_equal_def)

section \<open>Properties\<close>

text \<open>
  C33. With the default arithmetic and a right operand that has as many columns as the left one, the product
  succeeds and its entries are the sums of products of row and column (modulo \<open>2 ^ 64\<close>); the identity
  matrix of the fitting size is a right unit, whatever the uninitialised variables of the code held.
\<close>

theorem matrix2d_mul_correct:
  assumes "matrix_ok l" "matrix_ok r" "mcolumn l = mline r" "mcolumn r = mcolumn l"
  shows "(\<exists>m. matrix2d_mul True junk (Some l) (Some r) None None = Some (Some m) \<and>
      shaped (mrows l) (mcols r) (\<lambda>i j. \<Sum>k\<leftarrow>[0 ..< mcols l]. entry l i k * entry r k j) m) \<and>
    (\<exists>e. matrix2d_make_identity True (mcolumn r) = Some (Some e) \<and>
      matrix2d_mul True junk (Some l) (Some e) None None = Some (Some l))"
proof
  show "\<exists>m. matrix2d_mul True junk (Some l) (Some r) None None = Some (Some m) \<and>
      shaped (mrows l) (mcols r) (\<lambda>i j. \<Sum>k\<leftarrow>[0 ..< mcols l]. entry l i k * entry r k j) m"
    using mul_entries [OF assms(1-3), of junk None None] assms(4) by (simp add: dot_sum)
next
  let ?n = "mcolumn r"
  have n: "?n \<noteq> 0" "unat ?n * unat ?n < 2 ^ 32"
    using matrix_okD [OF assms(2)] assms(3,4) by simp_all
  obtain e where e: "matrix2d_make_identity True ?n = Some (Some e)" "shaped (unat ?n) (unat ?n) (\<lambda>i j. if i = j then 1 else 0) e"
    using identity_entries [OF n] by blast
  then have ok: "matrix_ok e" "mline e = ?n" "mcolumn e = ?n" by (auto simp: shaped_def word_unat_eq_iff)
  obtain m where m: "matrix2d_mul True junk (Some l) (Some e) None None = Some (Some m)"
    "shaped (mrows l) (mcols l) (\<lambda>i j. \<Sum>k\<leftarrow>[0 ..< mcols l]. entry l i k * entry e k j) m"
    using mul_entries [OF assms(1) ok(1), of junk None None] ok assms(4) by (auto simp: dot_sum)
  have "(\<Sum>k\<leftarrow>[0 ..< mcols l]. entry l i k * entry e k j) = entry l i j" if "j < mcols l" for i j
  proof -
    have "(\<Sum>k\<leftarrow>[0 ..< mcols l]. entry l i k * entry e k j) = (\<Sum>k\<leftarrow>[0 ..< mcols l]. entry l i k * (if k = j then 1 else 0))"
      using e(2) that assms(4) by (intro arg_cong [where f = sum_list] map_cong) (auto simp: shaped_def)
    then show ?thesis using sum_list_delta [OF that] by simp
  qed
  then have "m = l" using shaped_unique [OF m(2) assms(1) refl refl] by simp
  then show "\<exists>e. matrix2d_make_identity True ?n = Some (Some e) \<and>
      matrix2d_mul True junk (Some l) (Some e) None None = Some (Some l)" using e(1) m(1) by blast
qed

definition sample_matrix :: matrix2d where
  "sample_matrix = \<lparr>mcolumn = 2, mline = 2, mfield = [1, 2, 3, 4]\<rparr>"

lemma sample_matrix_ok: "matrix_ok sample_matrix" "mcolumn sample_matrix = 2" "mline sample_matrix = 2"
  by (simp_all add: matrix_ok_def sample_matrix_def)

lemma sample_entry: "entry sample_matrix i j = [1, 2, 3, 4] ! (i * 2 + j)"
  by (simp add: entry_def sample_matrix_def)

theorem matrix2d_mul_correct_witness:
  "matrix_ok sample_matrix \<and> mcolumn sample_matrix = mline sample_matrix \<and>
   (\<exists>m. matrix2d_mul True (7, 9) (Some sample_matrix) (Some sample_matrix) None None = Some (Some m) \<and>
      entry m 1 0 = 15)"
proof -
  obtain m where "matrix2d_mul True (7, 9) (Some sample_matrix) (Some sample_matrix) None None = Some (Some m)"
    "shaped 2 2 (\<lambda>i j. \<Sum>k\<leftarrow>[0 ..< 2]. entry sample_matrix i k * entry sample_matrix k j) m"
    using matrix2d_mul_correct [OF sample_matrix_ok(1) sample_matrix_ok(1), of "(7, 9)"] sample_matrix_ok by auto
  moreover from this(2) have "entry m 1 0 = 15" by (simp add: shaped_def upt_rec sample_entry)
  ultimately show ?thesis using sample_matrix_ok by auto
qed

text \<open>
  Transposing succeeds, exchanges the two indices of every entry, and transposing the result
  gives the matrix back.
\<close>

theorem matrix2d_transport_involution:
  assumes "matrix_ok s"
  shows "\<exists>t. matrix2d_transport True (Some s) = Some (Some t) \<and>
    shaped (mcols s) (mrows s) (\<lambda>i j. entry s j i) t \<and>
    matrix2d_transport True (Some t) = Some (Some s)"
proof -
  obtain t where t: "matrix2d_transport True (Some s) = Some (Some t)" "shaped (mcols s) (mrows s) (\<lambda>i j. entry s j i) t"
    using transport_entries [OF assms] by blast
  then have tok: "matrix_ok t" "mrows t = mcols s" "mcols t = mrows s" by (auto simp: shaped_def)
  obtain u where u: "matrix2d_transport True (Some t) = Some (Some u)" "shaped (mrows s) (mcols s) (\<lambda>i j. entry t j i) u"
    using transport_entries [OF tok(1)] tok by auto
  have "u = s" by (rule shaped_unique [OF u(2) assms refl refl]) (use t(2) in \<open>auto simp: shaped_def\<close>)
  then show ?thesis using t u by blast
qed

theorem matrix2d_transport_involution_witness:
  "matrix_ok sample_matrix \<and>
   (\<exists>t. matrix2d_transport True (Some sample_matrix) = Some (Some t) \<and> entry t 1 0 = 2)"
proof -
  obtain t where "matrix2d_transport True (Some sample_matrix) = Some (Some t)" "shaped 2 2 (\<lambda>i j. entry sample_matrix j i) t"
    using matrix2d_transport_involution [OF sample_matrix_ok(1)] sample_matrix_ok by auto
  moreover from this(2) have "entry t 1 0 = 2" by (simp add: shaped_def sample_entry)
  ultimately show ?thesis using sample_matrix_ok by auto
qed

text \<open>
  A product with a right operand that is narrower than the left one: the result has the shape of the
  left operand, and its last columns repeat whatever the loop's variable held.
\<close>

lemma matrix2d_mul_narrow:
  "matrix2d_mul True (0, 0) (Some \<lparr>mcolumn = 2, mline = 1, mfield = [1, 2]\<rparr>) (Some \<lparr>mcolumn = 1, mline = 2, mfield = [3, 4]\<rparr>)
     None None = Some (Some \<lparr>mcolumn = 2, mline = 1, mfield = [11, 12]\<rparr>)"
  by code_simp

end
