(* ===== verification/Refs.thy ===== *)
theory Refs
  imports Prelude "HOL-Library.Monad_Syntax"
begin

text \<open>
  \<^verbatim>\<open>src/refs.c\<close>: the reference counter of a shared object with a close callback. The object is
  \<^term>\<open>None\<close> when the pointer is NULL. A callback runs on the object and on the rest of the
  program (the world \<^typ>\<open>'w\<close>), and returns the object as it leaves it, or \<^term>\<open>None\<close> when it has released its
  memory. An access to released memory and an overflowing count are failures: the outer option of a result.
\<close>

section \<open>Operations\<close>

definition REF_STATUS_NORMAL :: int where "REF_STATUS_NORMAL = 0"
definition REF_STATUS_CLOSEWAIT :: int where "REF_STATUS_CLOSEWAIT = 1"
definition REF_STATUS_CLOSED :: int where "REF_STATUS_CLOSED = 2"

lemmas ref_status_defs = REF_STATUS_NORMAL_def REF_STATUS_CLOSEWAIT_def REF_STATUS_CLOSED_def

record refs_data =
  rcount :: int
  rstatus :: int

type_synonym 'w refs_close_fp = "'w \<Rightarrow> refs_data \<Rightarrow> 'w \<times> refs_data option"

record 'w refs = refs_data +
  on_closed :: "'w refs_close_fp option"

definition ref_init :: "'w refs option \<Rightarrow> 'w refs_close_fp option \<Rightarrow> 'w refs option" where
  "ref_init ref cb =
     (case ref of
        None \<Rightarrow> None
      | Some r \<Rightarrow> Some \<lparr>rcount = 0, rstatus = REF_STATUS_NORMAL, on_closed = cb\<rparr>)"

definition ref_retain :: "'w refs option \<Rightarrow> (int \<times> 'w refs option) option" where
  "ref_retain ref =
     (case ref of
        None \<Rightarrow> Some (- 1, None)
      | Some r \<Rightarrow>
          if REF_STATUS_NORMAL \<noteq> rstatus r then Some (- 1, Some r)
          else do {
            c \<leftarrow> c_int (rcount r + 1);
            Some (c, Some (r\<lparr>rcount := c\<rparr>))
          })"

definition call_on_closed :: "'w refs \<Rightarrow> 'w \<Rightarrow> 'w \<times> 'w refs option" where
  "call_on_closed r w =
     (case on_closed r of
        None \<Rightarrow> (w, Some r)
      | Some cb \<Rightarrow>
          (case cb w (refs_data.truncate r) of
             (w, d) \<Rightarrow> (w, map_option (\<lambda>d. r\<lparr>rcount := rcount d, rstatus := rstatus d\<rparr>) d)))"

definition ref_release :: "'w refs option \<Rightarrow> 'w \<Rightarrow> (int \<times> 'w refs option \<times> 'w) option" where
  "ref_release ref w =
     (case ref of
        None \<Rightarrow> Some (- 1, None, w)
      | Some r \<Rightarrow>
          if REF_STATUS_CLOSED = rstatus r then Some (- 1, Some r, w)
          else if rcount r \<le> 0 then Some (- 1, Some r, w)
          else
            (let r = r\<lparr>rcount := rcount r - 1\<rparr>;
                 (w, ref) = (if 0 = rcount r \<and> REF_STATUS_CLOSEWAIT = rstatus r then call_on_closed r w else (w, Some r))
             in case ref of None \<Rightarrow> None | Some r \<Rightarrow> Some (rcount r, Some r, w)))"

definition ref_close :: "'w refs option \<Rightarrow> 'w \<Rightarrow> ('w refs option \<times> 'w) option" where
  "ref_close ref w =
     (case ref of
        None \<Rightarrow> Some (None, w)
      | Some r \<Rightarrow>
          if REF_STATUS_NORMAL = rstatus r then
            (if 0 = rcount r then
               (case call_on_closed r w of
                  (w, None) \<Rightarrow> None
                | (w, Some r) \<Rightarrow> Some (Some (r\<lparr>rstatus := REF_STATUS_CLOSED\<rparr>), w))
             else Some (Some (r\<lparr>rstatus := REF_STATUS_CLOSEWAIT\<rparr>), w))
          else Some (Some r, w))"

section \<open>Specification\<close>

text \<open>
  Abstractly a shared object counts its references and remembers whether it was closed; a reference is only
  given out before the close, and the callback has run exactly when the object is closed and no reference is left.
\<close>

record shared =
  owners :: nat
  closed :: bool

definition torn_down :: "shared \<Rightarrow> bool" where
  "torn_down s \<longleftrightarrow> closed s \<and> owners s = 0"

definition spec_retain :: "shared \<Rightarrow> shared" where
  "spec_retain s = (if closed s then s else s\<lparr>owners := owners s + 1\<rparr>)"

definition spec_release :: "shared \<Rightarrow> shared" where
  "spec_release s = s\<lparr>owners := owners s - 1\<rparr>"

definition spec_close :: "shared \<Rightarrow> shared" where
  "spec_close s = s\<lparr>closed := True\<rparr>"

datatype ref_op = Retain | Release | Close

fun ref_step :: "ref_op \<Rightarrow> 'w refs option \<times> 'w \<Rightarrow> ('w refs option \<times> 'w) option" where
  "ref_step Retain (ref, w) = do { (_, ref) \<leftarrow> ref_retain ref; Some (ref, w) }"
| "ref_step Release (ref, w) = do { (_, ref, w) \<leftarrow> ref_release ref w; Some (ref, w) }"
| "ref_step Close (ref, w) = ref_close ref w"

fun spec_step :: "ref_op \<Rightarrow> shared \<Rightarrow> shared" where
  "spec_step Retain s = spec_retain s"
| "spec_step Release s = spec_release s"
| "spec_step Close s = spec_close s"

fun ref_run :: "ref_op list \<Rightarrow> 'w refs option \<times> 'w \<Rightarrow> ('w refs option \<times> 'w) option" where
  "ref_run [] st = Some st"
| "ref_run (op # ops) st = do { st \<leftarrow> ref_step op st; ref_run ops st }"

text \<open>A callback that counts its calls and leaves the object alone.\<close>

definition counting :: "nat refs_close_fp" where
  "counting n d = (n + 1, Some d)"

definition represents :: "nat refs \<Rightarrow> nat \<Rightarrow> shared \<Rightarrow> bool" where
  "represents r n s \<longleftrightarrow> on_closed r = Some counting \<and> rcount r = int (owners s) \<and>
     (if \<not> closed s then rstatus r = REF_STATUS_NORMAL \<and> n = 0
      else if owners s = 0 then rstatus r \<in> {REF_STATUS_CLOSEWAIT, REF_STATUS_CLOSED} \<and> n = 1
      else rstatus r = REF_STATUS_CLOSEWAIT \<and> n = 0)"

lemma call_counting:
  "on_closed r = Some counting \<Longrightarrow> call_on_closed r n = (n + 1, Some r)"
  by (simp add: call_on_closed_def counting_def refs_data.defs)

lemma represents_init: "represents (the (ref_init (Some r) (Some counting))) 0 \<lparr>owners = 0, closed = False\<rparr>"
  by (simp add: represents_def ref_init_def)

lemma represents_calls: "represents r n s \<Longrightarrow> n = (if torn_down s then 1 else 0)"
  by (auto simp: represents_def torn_down_def split: if_splits)

text \<open>Every operation simulates its abstract counterpart.\<close>

lemma represents_retain:
  assumes "represents r n s" "owners s + 1 < 2 ^ 31"
  shows "\<exists>r'. ref_step Retain (Some r, n) = Some (Some r', n) \<and> represents r' n (spec_retain s)"
proof (cases "closed s")
  case True
  then show ?thesis using assms
    by (auto simp: represents_def spec_retain_def ref_retain_def ref_status_defs split: if_splits)
next
  case False
  then have "c_int (rcount r + 1) = Some (rcount r + 1)"
    using assms by (intro c_int_Some) (auto simp: represents_def)
  then show ?thesis using False assms by (auto simp: represents_def spec_retain_def ref_retain_def ref_status_defs)
qed

lemma represents_release:
  assumes "represents r n s"
  shows "\<exists>r' n'. ref_step Release (Some r, n) = Some (Some r', n') \<and> represents r' n' (spec_release s)"
proof (cases "owners s = 0")
  case True
  then show ?thesis using assms
    by (auto simp: represents_def spec_release_def ref_release_def)
next
  case False
  then have live: "rstatus r \<noteq> REF_STATUS_CLOSED" "0 < rcount r"
    using assms by (auto simp: represents_def ref_status_defs split: if_splits)
  have c: "rcount r - 1 = int (owners s - 1)" using False assms by (simp add: represents_def)
  then show ?thesis
    using live assms False
    by (auto simp: represents_def spec_release_def ref_release_def call_counting ref_status_defs Let_def split: if_splits)
qed

lemma represents_close:
  assumes "represents r n s"
  shows "\<exists>r' n'. ref_step Close (Some r, n) = Some (Some r', n') \<and> represents r' n' (spec_close s)"
  using assms
  by (auto simp: represents_def spec_close_def ref_close_def call_counting ref_status_defs split: if_splits)

lemma owners_step: "owners (spec_step op s) \<le> owners s + 1"
  by (cases op) (simp_all add: spec_retain_def spec_release_def spec_close_def)

lemma represents_step:
  assumes "represents r n s" "owners s + 1 < 2 ^ 31"
  shows "\<exists>r' n'. ref_step op (Some r, n) = Some (Some r', n') \<and> represents r' n' (spec_step op s)"
  using represents_retain [OF assms] represents_release [OF assms(1)] represents_close [OF assms(1)]
  by (cases op) fastforce+

lemma represents_run:
  assumes "represents r n s" "owners s + length ops < 2 ^ 31"
  shows "\<exists>r' n'. ref_run ops (Some r, n) = Some (Some r', n') \<and> represents r' n' (fold spec_step ops s)"
  using assms
proof (induction ops arbitrary: r n s)
  case (Cons op ops)
  obtain r' n' where s: "ref_step op (Some r, n) = Some (Some r', n')" "represents r' n' (spec_step op s)"
    using represents_step [OF Cons.prems(1), of op] Cons.prems(2) by auto
  then show ?case using Cons.IH [OF s(2)] owners_step [of op s] Cons.prems(2) by simp
qed auto

section \<open>Properties\<close>

text \<open>
  C34. On an initialised counter with a counting callback, any sequence of fewer than \<open>2 ^ 31\<close>
  retains, releases and closes runs without failure and refines the abstract object: the count is the number of
  references, and the callback has run once when the object is closed with no reference left and never otherwise.
\<close>

theorem refs_callback_once:
  assumes "length ops < 2 ^ 31"
  shows "\<exists>r n. ref_run ops (ref_init (Some r0) (Some counting), 0) = Some (Some r, n) \<and>
    (let s = fold spec_step ops \<lparr>owners = 0, closed = False\<rparr> in
      rcount r = int (owners s) \<and> n = (if torn_down s then 1 else 0))"
proof -
  obtain r n where "ref_run ops (ref_init (Some r0) (Some counting), 0) = Some (Some r, n)"
    "represents r n (fold spec_step ops \<lparr>owners = 0, closed = False\<rparr>)"
    using represents_run [OF represents_init, of ops r0] assms by (auto simp: ref_init_def)
  moreover from this(2) have "n = (if torn_down (fold spec_step ops \<lparr>owners = 0, closed = False\<rparr>) then 1 else 0)"
    by (rule represents_calls)
  ultimately show ?thesis by (auto simp: represents_def Let_def)
qed

theorem refs_callback_once_witness:
  "\<exists>r n. ref_run [Retain, Retain, Close, Release, Retain, Release, Release]
      (ref_init (Some \<lparr>rcount = 9, rstatus = 9, on_closed = None\<rparr>) (Some counting), 0) = Some (Some r, n) \<and> rcount r = 0 \<and> n = 1"
  using refs_callback_once [of "[Retain, Retain, Close, Release, Retain, Release, Release]" "\<lparr>rcount = 9, rstatus = 9, on_closed = None\<rparr>"]
  by (simp add: Let_def torn_down_def spec_retain_def spec_release_def spec_close_def)

text \<open>A callback that releases the object, as the header suggests: both callers touch the object after the call.\<close>

lemma ref_close_uses_released: "ref_close (ref_init (Some r) (Some (\<lambda>w d. (w, None)))) w = None"
  by (simp add: ref_close_def ref_init_def call_on_closed_def)

end
