(* ===== verification/Cstack.thy ===== *)
theory Cstack
  imports Prelude "HOL-Library.Monad_Syntax"
begin

text \<open>
  \<^verbatim>\<open>src/cstack.c\<close>: an intrusive stack of caller-owned nodes. Nodes live in a heap, a finite map from
  addresses; the NULL pointer is \<^term>\<open>None\<close> and a dereference outside the heap fails.
\<close>

type_synonym addr = nat

record cstack_node =
  snext :: "addr option"
  sbottom :: "addr option"

type_synonym stack_heap = "addr \<rightharpoonup> cstack_node"

definition cstack_push :: "stack_heap \<Rightarrow> addr option \<Rightarrow> addr option \<Rightarrow> (stack_heap \<times> addr option) option" where
  "cstack_push h stack node =
     (case node of
        None \<Rightarrow> Some (h, stack)
      | Some n \<Rightarrow> do {
          nd \<leftarrow> h n;
          (case stack of
             None \<Rightarrow> Some (h(n \<mapsto> nd\<lparr>snext := None, sbottom := Some n\<rparr>), Some n)
           | Some s \<Rightarrow> do {
               let h = h(n \<mapsto> nd\<lparr>snext := Some s\<rparr>);
               sd \<leftarrow> h s;
               nd \<leftarrow> h n;
               Some (h(n \<mapsto> nd\<lparr>sbottom := sbottom sd\<rparr>), Some n)
             })
        })"

text \<open>The result is the heap, the new top and the node stored through \<^verbatim>\<open>removed\<close>, if one is.\<close>

definition cstack_pop :: "stack_heap \<Rightarrow> addr option \<Rightarrow> (stack_heap \<times> addr option \<times> addr option) option" where
  "cstack_pop h stack =
     (case stack of
        None \<Rightarrow> Some (h, None, None)
      | Some s \<Rightarrow> do {
          sd \<leftarrow> h s;
          if Some s = sbottom sd then Some (h(s \<mapsto> sd\<lparr>sbottom := None\<rparr>), None, Some s)
          else do {
            let top = snext sd;
            Some (h(s \<mapsto> sd\<lparr>sbottom := None\<rparr>), top, Some s)
          }
        })"

section \<open>Refinement of a list\<close>

text \<open>\<^term>\<open>stack_of h p xs\<close>: the stack with top \<^term>\<open>p\<close> holds the nodes \<^term>\<open>xs\<close>, top first.\<close>

fun linked :: "stack_heap \<Rightarrow> addr \<Rightarrow> addr option \<Rightarrow> addr list \<Rightarrow> bool" where
  "linked h b p [] \<longleftrightarrow> p = None"
| "linked h b p (x # xs) \<longleftrightarrow> p = Some x \<and>
     (case h x of None \<Rightarrow> False | Some d \<Rightarrow> sbottom d = Some b \<and> linked h b (snext d) xs)"

definition stack_of :: "stack_heap \<Rightarrow> addr option \<Rightarrow> addr list \<Rightarrow> bool" where
  "stack_of h p xs \<longleftrightarrow> distinct xs \<and> (xs \<noteq> [] \<longrightarrow> linked h (last xs) p xs) \<and> (xs = [] \<longrightarrow> p = None)"

lemma linked_frame: "x \<notin> set xs \<Longrightarrow> linked (h(x \<mapsto> d)) b p xs = linked h b p xs"
  by (induction xs arbitrary: p) (auto split: option.splits)

lemma linked_top: "linked h b p (x # xs) \<Longrightarrow> \<exists>d. p = Some x \<and> h x = Some d \<and> sbottom d = Some b \<and> linked h b (snext d) xs"
  by (auto split: option.splits)

lemma push_stack_of:
  assumes "stack_of h p xs" "h n = Some nd" "n \<notin> set xs"
  shows "\<exists>d. cstack_push h p (Some n) = Some (h(n \<mapsto> d), Some n) \<and> stack_of (h(n \<mapsto> d)) (Some n) (n # xs)"
proof (cases xs)
  case Nil
  then show ?thesis using assms by (auto simp: stack_of_def cstack_push_def)
next
  case (Cons x ys)
  then have l: "linked h (last xs) p xs" "distinct xs" using assms(1) by (auto simp: stack_of_def)
  then obtain d where d: "p = Some x" "h x = Some d" "sbottom d = Some (last xs)"
    unfolding Cons using linked_top by blast
  have "x \<noteq> n" "xs \<noteq> []" using assms(3) Cons by auto
  then have "cstack_push h p (Some n) = Some (h(n \<mapsto> nd\<lparr>snext := Some x, sbottom := Some (last xs)\<rparr>), Some n)"
    using d assms(2) by (simp add: cstack_push_def)
  moreover have "stack_of (h(n \<mapsto> nd\<lparr>snext := Some x, sbottom := Some (last xs)\<rparr>)) (Some n) (n # xs)"
    using l assms(3) linked_frame [OF assms(3)] \<open>xs \<noteq> []\<close> by (simp add: stack_of_def d(1))
  ultimately show ?thesis by blast
qed

lemma pop_stack_of:
  assumes "stack_of h p (x # xs)"
  shows "\<exists>d q. cstack_pop h p = Some (h(x \<mapsto> d), q, Some x) \<and> stack_of (h(x \<mapsto> d)) q xs"
proof -
  let ?b = "last (x # xs)"
  have "linked h ?b p (x # xs)" and x: "x \<notin> set xs" "distinct xs" using assms by (auto simp: stack_of_def)
  then obtain d where d: "p = Some x" "h x = Some d" "sbottom d = Some ?b" "linked h ?b (snext d) xs"
    using linked_top by blast
  show ?thesis
  proof (cases xs)
    case Nil
    then show ?thesis using d by (auto simp: cstack_pop_def stack_of_def)
  next
    case (Cons y ys)
    then have "last xs \<noteq> x" using x(1) last_in_set [of xs] by auto
    then have "cstack_pop h p = Some (h(x \<mapsto> d\<lparr>sbottom := None\<rparr>), snext d, Some x)"
      using d Cons by (simp add: cstack_pop_def)
    moreover have "stack_of (h(x \<mapsto> d\<lparr>sbottom := None\<rparr>)) (snext d) xs"
      using d(4) x Cons by (simp add: stack_of_def linked_frame del: linked.simps)
    ultimately show ?thesis by blast
  qed
qed

section \<open>Sequences of operations\<close>

text \<open>Pushing the nodes of a list one after the other, and popping a number of times.\<close>

fun push_each :: "('h \<Rightarrow> 'p \<Rightarrow> 'n \<Rightarrow> ('h \<times> 'p) option) \<Rightarrow> 'n list \<Rightarrow> 'h \<Rightarrow> 'p \<Rightarrow> ('h \<times> 'p) option" where
  "push_each f [] h p = Some (h, p)"
| "push_each f (n # ns) h p = do { (h, p) \<leftarrow> f h p n; push_each f ns h p }"

fun pop_each :: "('h \<Rightarrow> 'p \<Rightarrow> ('h \<times> 'p \<times> 'n option) option) \<Rightarrow> nat \<Rightarrow> 'h \<Rightarrow> 'p \<Rightarrow> ('h \<times> 'p \<times> 'n option list) option" where
  "pop_each g 0 h p = Some (h, p, [])"
| "pop_each g (Suc k) h p = do { (h, p, r) \<leftarrow> g h p; (h, p, rs) \<leftarrow> pop_each g k h p; Some (h, p, r # rs) }"

text \<open>What a user of an intrusive stack relies on.\<close>

locale intrusive_stack =
  fixes holds :: "'h \<Rightarrow> 'p \<Rightarrow> 'n list \<Rightarrow> bool"
    and allocated :: "'h \<Rightarrow> 'n \<Rightarrow> bool"
    and push :: "'h \<Rightarrow> 'p \<Rightarrow> 'n \<Rightarrow> ('h \<times> 'p) option"
    and pop :: "'h \<Rightarrow> 'p \<Rightarrow> ('h \<times> 'p \<times> 'n option) option"
  assumes push_law: "holds h p xs \<Longrightarrow> allocated h n \<Longrightarrow> n \<notin> set xs \<Longrightarrow>
      \<exists>h' q. push h p n = Some (h', q) \<and> holds h' q (n # xs) \<and> allocated h' = allocated h"
    and pop_law: "holds h p (x # xs) \<Longrightarrow>
      \<exists>h' q. pop h p = Some (h', q, Some x) \<and> holds h' q xs \<and> allocated h' = allocated h"
begin

lemma push_each_holds:
  assumes "holds h p xs" "\<forall>n \<in> set ns. allocated h n" "distinct (rev ns @ xs)"
  shows "\<exists>h' q. push_each push ns h p = Some (h', q) \<and> holds h' q (rev ns @ xs) \<and> allocated h' = allocated h"
  using assms
proof (induction ns arbitrary: h p xs)
  case (Cons n ns)
  obtain h1 p1 where s: "push h p n = Some (h1, p1)" "holds h1 p1 (n # xs)" "allocated h1 = allocated h"
    using push_law [OF Cons.prems(1), of n] Cons.prems(2,3) by auto
  then show ?case using Cons.IH [OF s(2)] Cons.prems(2,3) by (auto simp: s)
qed auto

lemma pop_each_holds:
  assumes "holds h p (as @ xs)"
  shows "\<exists>h' q. pop_each pop (length as) h p = Some (h', q, map Some as) \<and> holds h' q xs \<and> allocated h' = allocated h"
  using assms
proof (induction as arbitrary: h p)
  case (Cons a as)
  obtain h1 p1 where s: "pop h p = Some (h1, p1, Some a)" "holds h1 p1 (as @ xs)" "allocated h1 = allocated h"
    using pop_law [of h p a "as @ xs"] Cons.prems by auto
  then show ?case using Cons.IH [OF s(2)] by auto
qed auto

lemma last_in_first_out:
  assumes "holds h p xs" "\<forall>n \<in> set ns. allocated h n" "distinct (rev ns @ xs)"
  shows "\<exists>h1 p1 h2 p2. push_each push ns h p = Some (h1, p1) \<and>
    pop_each pop (length ns) h1 p1 = Some (h2, p2, map Some (rev ns)) \<and> holds h2 p2 xs"
proof -
  obtain h1 p1 where a: "push_each push ns h p = Some (h1, p1)" "holds h1 p1 (rev ns @ xs)"
    using push_each_holds [OF assms] by blast
  then show ?thesis using pop_each_holds [OF a(2)] by auto
qed

end

interpretation cs: intrusive_stack stack_of "\<lambda>h n. h n \<noteq> None" "\<lambda>h p n. cstack_push h p (Some n)" cstack_pop
proof
  fix h p xs n assume "stack_of h p xs" "h n \<noteq> None" "n \<notin> set xs"
  then obtain nd where "stack_of h p xs" "h n = Some nd" "n \<notin> set xs" by auto
  from push_stack_of [OF this] this(2)
  show "\<exists>h' q. cstack_push h p (Some n) = Some (h', q) \<and> stack_of h' q (n # xs) \<and> (\<lambda>n. h' n \<noteq> None) = (\<lambda>n. h n \<noteq> None)"
    by (auto intro!: ext)
next
  fix h p x xs assume s: "stack_of h p (x # xs)"
  then have "h x \<noteq> None" by (auto simp: stack_of_def split: option.splits)
  with pop_stack_of [OF s]
  show "\<exists>h' q. cstack_pop h p = Some (h', q, Some x) \<and> stack_of h' q xs \<and> (\<lambda>n. h' n \<noteq> None) = (\<lambda>n. h n \<noteq> None)"
    by (auto intro!: ext)
qed

text \<open>Nodes other than the one pushed or popped are left as they are.\<close>

lemma push_frame: "cstack_push h p (Some n) = Some (h', q) \<Longrightarrow> a \<noteq> n \<Longrightarrow> h' a = h a"
  by (auto simp: cstack_push_def bind_eq_Some_conv split: option.splits)

lemma pop_frame: "cstack_pop h p = Some (h', q, r) \<Longrightarrow> r \<noteq> Some a \<Longrightarrow> h' a = h a"
  by (auto simp: cstack_pop_def bind_eq_Some_conv Let_def split: option.splits if_splits)

lemma push_each_frame:
  "push_each (\<lambda>h p n. cstack_push h p (Some n)) ns h p = Some (h', q) \<Longrightarrow> a \<notin> set ns \<Longrightarrow> h' a = h a"
  by (induction ns arbitrary: h p) (auto simp: bind_eq_Some_conv push_frame)

lemma pop_each_frame:
  "pop_each cstack_pop k h p = Some (h', q, rs) \<Longrightarrow> Some a \<notin> set rs \<Longrightarrow> h' a = h a"
  by (induction k arbitrary: h p rs) (auto simp: bind_eq_Some_conv dest!: pop_frame)

section \<open>Properties\<close>

text \<open>
  C35. Last in, first out: on a stack that holds the nodes \<open>xs\<close>, pushing distinct nodes that are in memory and
  not on it and popping as many times succeeds, returns them in the reverse order, leaves a stack that holds
  \<open>xs\<close> again, and changes no other node of the heap.
\<close>

theorem cstack_lifo:
  assumes "stack_of h p xs" "\<forall>n \<in> set ns. h n \<noteq> None" "distinct (rev ns @ xs)"
  shows "\<exists>h1 p1 h2 p2. push_each (\<lambda>h p n. cstack_push h p (Some n)) ns h p = Some (h1, p1) \<and> stack_of h1 p1 (rev ns @ xs) \<and>
    pop_each cstack_pop (length ns) h1 p1 = Some (h2, p2, map Some (rev ns)) \<and> stack_of h2 p2 xs \<and>
    (\<forall>a. a \<notin> set ns \<longrightarrow> h2 a = h a)"
proof -
  obtain h1 p1 where a: "push_each (\<lambda>h p n. cstack_push h p (Some n)) ns h p = Some (h1, p1)" "stack_of h1 p1 (rev ns @ xs)"
    using cs.push_each_holds [OF assms] by blast
  obtain h2 p2 where b: "pop_each cstack_pop (length ns) h1 p1 = Some (h2, p2, map Some (rev ns))" "stack_of h2 p2 xs"
    using cs.pop_each_holds [OF a(2)] by auto
  have "h2 n = h n" if "n \<notin> set ns" for n
    using push_each_frame [OF a(1) that] pop_each_frame [OF b(1), of n] that by auto
  then show ?thesis using a b by blast
qed

definition sample_heap :: stack_heap where
  "sample_heap = (\<lambda>a. if a < 3 then Some \<lparr>snext = None, sbottom = None\<rparr> else None)"

theorem cstack_lifo_witness:
  "stack_of sample_heap None [] \<and> (\<exists>h1 p1 h2 p2. push_each (\<lambda>h p n. cstack_push h p (Some n)) [0, 1, 2] sample_heap None = Some (h1, p1) \<and>
    pop_each cstack_pop 3 h1 p1 = Some (h2, p2, [Some 2, Some 1, Some 0]) \<and> stack_of h2 p2 [])"
proof -
  have e: "stack_of sample_heap None []" by (simp add: stack_of_def)
  have "\<forall>n \<in> set [0, 1, 2]. sample_heap n \<noteq> None" by (simp add: sample_heap_def)
  from cstack_lifo [OF e this] e show ?thesis by (auto simp: numeral_3_eq_3)
qed

end
