(* ===== verification/Ifos.thy ===== *)
theory Ifos
  imports Prelude "HOL-Library.Monad_Syntax"
begin

text \<open>
  The file operations of \<^verbatim>\<open>src/posix/wosi/ifos.c\<close> over a model of the POSIX calls they use. A kernel has
  files (byte lists by path) and open files with a position. What POSIX leaves open is a
  schedule: \<^term>\<open>events\<close> says for each transfer whether it is interrupted, shortened or fails,
  \<^term>\<open>ctl\<close> says for each other call whether it fails. A transfer with an exhausted schedule is complete, a
  call with an exhausted schedule succeeds. Error numbers are positive.
\<close>

section \<open>The POSIX calls\<close>

datatype sys_event = Interrupt | Short nat | Fail nat

record ofile =
  opath :: string
  opos :: nat
  owrite :: bool

record kernel =
  files :: "string \<rightharpoonup> bytes"
  fds :: "int \<rightharpoonup> ofile"
  next_fd :: int
  events :: "sys_event list"
  ctl :: "nat option list"

definition ENOENT :: int where "ENOENT = 2"
definition EINTR :: int where "EINTR = 4"
definition EBADF :: int where "EBADF = 9"
definition ENOSPC :: int where "ENOSPC = 28"

definition errno_of :: "nat \<Rightarrow> int" where
  "errno_of n = int n + 1"

definition file_write :: "bytes \<Rightarrow> nat \<Rightarrow> bytes \<Rightarrow> bytes" where
  "file_write d p bs = take p d @ replicate (p - length d) 0 @ bs @ drop (p + length bs) d"

definition take_event :: "kernel \<Rightarrow> sys_event option \<times> kernel" where
  "take_event k = (case events k of [] \<Rightarrow> (None, k) | e # es \<Rightarrow> (Some e, k\<lparr>events := es\<rparr>))"

definition take_ctl :: "kernel \<Rightarrow> int option \<times> kernel" where
  "take_ctl k = (case ctl k of [] \<Rightarrow> (None, k) | c # cs \<Rightarrow> (map_option errno_of c, k\<lparr>ctl := cs\<rparr>))"

definition content :: "kernel \<Rightarrow> string \<Rightarrow> bytes" where
  "content k path = (case files k path of None \<Rightarrow> [] | Some d \<Rightarrow> d)"

definition sys_read :: "int \<Rightarrow> nat \<Rightarrow> kernel \<Rightarrow> (int + bytes) \<times> kernel" where
  "sys_read fd n k =
     (case fds k fd of
        None \<Rightarrow> (Inl EBADF, k)
      | Some f \<Rightarrow>
          (let (e, k) = take_event k;
               transfer = (\<lambda>m. let bs = take m (drop (opos f) (content k (opath f)))
                               in (Inr bs, k\<lparr>fds := (fds k)(fd \<mapsto> f\<lparr>opos := opos f + length bs\<rparr>)\<rparr>))
           in case e of
                Some Interrupt \<Rightarrow> (Inl EINTR, k)
              | Some (Fail c) \<Rightarrow> (Inl (errno_of c), k)
              | Some (Short m) \<Rightarrow> transfer (min n (m + 1))
              | None \<Rightarrow> transfer n))"

definition sys_write :: "int \<Rightarrow> bytes \<Rightarrow> kernel \<Rightarrow> (int + nat) \<times> kernel" where
  "sys_write fd bs k =
     (case fds k fd of
        None \<Rightarrow> (Inl EBADF, k)
      | Some f \<Rightarrow>
          if \<not> owrite f then (Inl EBADF, k)
          else
            (let (e, k) = take_event k;
                 transfer = (\<lambda>m. let bs = take m bs
                                 in (Inr (length bs),
                                     k\<lparr>fds := (fds k)(fd \<mapsto> f\<lparr>opos := opos f + length bs\<rparr>),
                                       files := (files k)(opath f \<mapsto> file_write (content k (opath f)) (opos f) bs)\<rparr>))
             in case e of
                  Some Interrupt \<Rightarrow> (Inl EINTR, k)
                | Some (Fail c) \<Rightarrow> (Inl (errno_of c), k)
                | Some (Short m) \<Rightarrow> transfer m
                | None \<Rightarrow> transfer (length bs)))"

definition sys_open :: "string \<Rightarrow> bool \<Rightarrow> bool \<Rightarrow> bool \<Rightarrow> bool \<Rightarrow> kernel \<Rightarrow> (int + int) \<times> kernel" where
  "sys_open path rdwr creat excl trunc k =
     (let (c, k) = take_ctl k in
      case c of
        Some e \<Rightarrow> (Inl e, k)
      | None \<Rightarrow>
          (let opened = (\<lambda>d. (Inr (next_fd k),
                 k\<lparr>files := (files k)(path \<mapsto> d), fds := (fds k)(next_fd k \<mapsto> \<lparr>opath = path, opos = 0, owrite = rdwr\<rparr>),
                   next_fd := next_fd k + 1\<rparr>))
           in case files k path of
                None \<Rightarrow> if creat then opened [] else (Inl ENOENT, k)
              | Some d \<Rightarrow> if creat \<and> excl then (Inl EEXIST, k) else opened (if trunc then [] else d)))"

definition sys_lseek :: "int \<Rightarrow> int \<Rightarrow> kernel \<Rightarrow> (int + int) \<times> kernel" where
  "sys_lseek fd off k =
     (let (c, k) = take_ctl k in
      case c of
        Some e \<Rightarrow> (Inl e, k)
      | None \<Rightarrow>
          (case fds k fd of
             None \<Rightarrow> (Inl EBADF, k)
           | Some f \<Rightarrow>
               if off < 0 then (Inl EINVAL, k)
               else (Inr off, k\<lparr>fds := (fds k)(fd \<mapsto> f\<lparr>opos := nat off\<rparr>)\<rparr>)))"

definition sys_fsync :: "int \<Rightarrow> kernel \<Rightarrow> (int + unit) \<times> kernel" where
  "sys_fsync fd k =
     (let (c, k) = take_ctl k in
      case c of
        Some e \<Rightarrow> (Inl e, k)
      | None \<Rightarrow> (if fds k fd = None then Inl EBADF else Inr (), k))"

definition sys_fstat :: "int \<Rightarrow> kernel \<Rightarrow> (int + int) \<times> kernel" where
  "sys_fstat fd k =
     (let (c, k) = take_ctl k in
      case c of
        Some e \<Rightarrow> (Inl e, k)
      | None \<Rightarrow> (case fds k fd of None \<Rightarrow> Inl EBADF | Some f \<Rightarrow> Inr (int (length (content k (opath f)))), k))"

definition sys_stat :: "string \<Rightarrow> kernel \<Rightarrow> (int + int) \<times> kernel" where
  "sys_stat path k =
     (let (c, k) = take_ctl k in
      case c of
        Some e \<Rightarrow> (Inl e, k)
      | None \<Rightarrow> (case files k path of None \<Rightarrow> Inl ENOENT | Some d \<Rightarrow> Inr (int (length d)), k))"

definition sys_close :: "int \<Rightarrow> kernel \<Rightarrow> kernel" where
  "sys_close fd k = k\<lparr>fds := (fds k)(fd := None)\<rparr>"

section \<open>The operations of the library\<close>

text \<open>\<^verbatim>\<open>SYSCALL_WHILE_EINTR\<close>: the call is repeated while a signal interrupts it.\<close>

lemma errno_of_pos [simp]: "0 < errno_of n" "errno_of n \<noteq> 0"
  by (simp_all add: errno_of_def)

lemma sys_read_error_event: "sys_read fd n k = (Inl EINTR, k') \<Longrightarrow> length (events k') < length (events k)"
  by (auto simp: sys_read_def take_event_def EBADF_def EINTR_def Let_def split: option.splits list.splits sys_event.splits)

lemma sys_write_error_event: "sys_write fd bs k = (Inl EINTR, k') \<Longrightarrow> length (events k') < length (events k)"
  by (auto simp: sys_write_def take_event_def EBADF_def EINTR_def Let_def split: option.splits list.splits sys_event.splits if_splits)

function read_eintr :: "int \<Rightarrow> nat \<Rightarrow> kernel \<Rightarrow> (int + bytes) \<times> kernel" where
  "read_eintr fd n k = (case sys_read fd n k of (r, k') \<Rightarrow> if r = Inl EINTR then read_eintr fd n k' else (r, k'))"
  by pat_completeness auto
termination
  by (relation "measure (\<lambda>(fd, n, k). length (events k))") (auto dest: sys_read_error_event [OF sym])

function write_eintr :: "int \<Rightarrow> bytes \<Rightarrow> kernel \<Rightarrow> (int + nat) \<times> kernel" where
  "write_eintr fd bs k = (case sys_write fd bs k of (r, k') \<Rightarrow> if r = Inl EINTR then write_eintr fd bs k' else (r, k'))"
  by pat_completeness auto
termination
  by (relation "measure (\<lambda>(fd, bs, k). length (events k))") (auto dest: sys_write_error_event [OF sym])

definition INVALID_FILE_DESCRIPTOR :: int where "INVALID_FILE_DESCRIPTOR = - 1"
definition FF_WRACCESS :: nat where "FF_WRACCESS = 1"
definition FF_OPEN_EXISTING :: nat where "FF_OPEN_EXISTING = 2"
definition FF_OPEN_ALWAYS :: nat where "FF_OPEN_ALWAYS = 4"
definition FF_CREATE_NEWONE :: nat where "FF_CREATE_NEWONE = 6"
definition FF_CREATE_ALWAYS :: nat where "FF_CREATE_ALWAYS = 8"

text \<open>The status, the descriptor stored through \<^verbatim>\<open>descriptor\<close> (if one is stored), and the kernel.\<close>

definition ifos_file_open :: "string option \<Rightarrow> nat \<Rightarrow> kernel \<Rightarrow> nsp_status \<times> int option \<times> kernel" where
  "ifos_file_open path flag k =
     (case path of
        None \<Rightarrow> (posix__makeerror EINVAL, None, k)
      | Some path \<Rightarrow>
          (let rdwr = odd flag;
               mode = flag - flag mod 2;
               finish = (\<lambda>(r, k). case r of
                   Inl e \<Rightarrow> (posix__makeerror e, Some INVALID_FILE_DESCRIPTOR, k)
                 | Inr fd \<Rightarrow> (NSP_STATUS_SUCCESSFUL, Some fd, k))
           in if mode = FF_OPEN_EXISTING then finish (sys_open path rdwr False False False k)
              else if mode = FF_OPEN_ALWAYS then finish (sys_open path rdwr True False False k)
              else if mode = FF_CREATE_NEWONE then finish (sys_open path rdwr True True False k)
              else if mode = FF_CREATE_ALWAYS then finish (sys_open path rdwr True False True k)
              else (posix__makeerror EINVAL, None, k)))"

text \<open>The loop of a read fills the caller's block; storing outside the block is a failure.\<close>

function ifos_read_loop :: "int \<Rightarrow> nat \<Rightarrow> nat \<Rightarrow> bytes \<Rightarrow> kernel \<Rightarrow> (int \<times> bytes \<times> kernel) option" where
  "ifos_read_loop fd len offset buf k =
     (if offset < len then
        (case read_eintr fd (len - offset) k of
           (Inl e, k') \<Rightarrow> Some (posix__makeerror e, buf, k')
         | (Inr [], k') \<Rightarrow> Some (int offset, buf, k')
         | (Inr (b # bs), k') \<Rightarrow>
             (case mem_write buf offset (b # bs) of
                None \<Rightarrow> None
              | Some buf' \<Rightarrow> ifos_read_loop fd len (offset + length (b # bs)) buf' k'))
      else Some (int offset, buf, k))"
  by pat_completeness auto
termination
  by (relation "measure (\<lambda>(fd, len, offset, buf, k). len - offset)") auto

definition ifos_file_read :: "int \<Rightarrow> bytes option \<Rightarrow> int \<Rightarrow> kernel \<Rightarrow> (int \<times> bytes option \<times> kernel) option" where
  "ifos_file_read fd buffer cb k =
     (case buffer of
        None \<Rightarrow> Some (posix__makeerror EINVAL, None, k)
      | Some buf \<Rightarrow>
          if cb \<le> 0 then Some (posix__makeerror EINVAL, Some buf, k)
          else do { (r, buf, k) \<leftarrow> ifos_read_loop fd (nat cb) 0 buf k; Some (r, Some buf, k) })"

function ifos_write_loop :: "int \<Rightarrow> bytes \<Rightarrow> nat \<Rightarrow> kernel \<Rightarrow> int \<times> kernel" where
  "ifos_write_loop fd bs offset k =
     (if offset < length bs then
        (case write_eintr fd (drop offset bs) k of
           (Inl e, k') \<Rightarrow> if e = ENOSPC then (int offset, k') else (posix__makeerror e, k')
         | (Inr 0, k') \<Rightarrow> (int offset, k')
         | (Inr (Suc n), k') \<Rightarrow> ifos_write_loop fd bs (offset + Suc n) k')
      else (int offset, k))"
  by pat_completeness auto
termination
  by (relation "measure (\<lambda>(fd, bs, offset, k). length bs - offset)") auto

definition ifos_file_write :: "int \<Rightarrow> bytes option \<Rightarrow> int \<Rightarrow> kernel \<Rightarrow> (int \<times> kernel) option" where
  "ifos_file_write fd buffer cb k =
     (case buffer of
        None \<Rightarrow> Some (posix__makeerror EINVAL, k)
      | Some buf \<Rightarrow>
          if cb \<le> 0 then Some (posix__makeerror EINVAL, k)
          else do { bs \<leftarrow> mem_read buf 0 (nat cb); Some (ifos_write_loop fd bs 0 k) })"

definition ifos_file_close :: "int \<Rightarrow> kernel \<Rightarrow> kernel" where
  "ifos_file_close fd k = (if fd < 0 then k else sys_close fd k)"

definition ifos_file_flush :: "int \<Rightarrow> kernel \<Rightarrow> nsp_status \<times> kernel" where
  "ifos_file_flush fd k =
     (if fd < 0 then (posix__makeerror EINVAL, k)
      else
        (case sys_fsync fd k of
           (Inl e, k) \<Rightarrow> (posix__makeerror e, k)
         | (Inr _, k) \<Rightarrow> (NSP_STATUS_SUCCESSFUL, k)))"

definition ifos_file_fgetsize :: "int \<Rightarrow> kernel \<Rightarrow> int \<times> kernel" where
  "ifos_file_fgetsize fd k =
     (case sys_fstat fd k of (Inl e, k) \<Rightarrow> (posix__makeerror e, k) | (Inr n, k) \<Rightarrow> (n, k))"

definition ifos_file_getsize :: "string option \<Rightarrow> kernel \<Rightarrow> int \<times> kernel" where
  "ifos_file_getsize path k =
     (case path of
        None \<Rightarrow> (posix__makeerror EINVAL, k)
      | Some path \<Rightarrow> (case sys_stat path k of (Inl e, k) \<Rightarrow> (posix__makeerror e, k) | (Inr n, k) \<Rightarrow> (n, k)))"

definition ifos_file_seek :: "int \<Rightarrow> int \<Rightarrow> kernel \<Rightarrow> nsp_status \<times> kernel" where
  "ifos_file_seek fd offset k =
     (case sys_lseek fd offset k of
        (Inl e, k) \<Rightarrow> (posix__makeerror e, k)
      | (Inr _, k) \<Rightarrow> (NSP_STATUS_SUCCESSFUL, k))"


section \<open>What a transfer does to the files\<close>

text \<open>\<^term>\<open>quiet k\<close>: no scheduled transfer fails or transfers nothing, so only interruptions and short transfers are left.\<close>

fun quiet_event :: "sys_event \<Rightarrow> bool" where
  "quiet_event Interrupt \<longleftrightarrow> True"
| "quiet_event (Short n) \<longleftrightarrow> 0 < n"
| "quiet_event (Fail n) \<longleftrightarrow> False"

definition quiet :: "kernel \<Rightarrow> bool" where
  "quiet k \<longleftrightarrow> list_all quiet_event (events k)"

text \<open>The kernel \<^term>\<open>k'\<close> is \<^term>\<open>k\<close> with another schedule.\<close>

definition same_files :: "kernel \<Rightarrow> kernel \<Rightarrow> bool" where
  "same_files k k' \<longleftrightarrow> files k' = files k \<and> fds k' = fds k \<and> next_fd k' = next_fd k \<and> ctl k' = ctl k \<and> (quiet k \<longrightarrow> quiet k')"

lemma same_files_refl [simp]: "same_files k k"
  by (simp add: same_files_def)

lemma same_files_trans: "same_files a b \<Longrightarrow> same_files b c \<Longrightarrow> same_files a c"
  by (simp add: same_files_def)

definition advanced :: "int \<Rightarrow> ofile \<Rightarrow> nat \<Rightarrow> kernel \<Rightarrow> kernel \<Rightarrow> bool" where
  "advanced fd f m k k' \<longleftrightarrow> files k' = files k \<and> fds k' = (fds k)(fd \<mapsto> f\<lparr>opos := opos f + m\<rparr>) \<and>
     next_fd k' = next_fd k \<and> ctl k' = ctl k \<and> (quiet k \<longrightarrow> quiet k')"

definition stored :: "int \<Rightarrow> ofile \<Rightarrow> bytes \<Rightarrow> kernel \<Rightarrow> kernel \<Rightarrow> bool" where
  "stored fd f bs k k' \<longleftrightarrow> files k' = (files k)(opath f \<mapsto> file_write (content k (opath f)) (opos f) bs) \<and>
     fds k' = (fds k)(fd \<mapsto> f\<lparr>opos := opos f + length bs\<rparr>) \<and>
     next_fd k' = next_fd k \<and> ctl k' = ctl k \<and> (quiet k \<longrightarrow> quiet k')"

lemma take_event_same: "take_event k = (e, k') \<Longrightarrow> same_files k k'"
  by (auto simp: take_event_def same_files_def quiet_def split: list.splits)

lemma take_event_quiet: "take_event k = (Some e, k') \<Longrightarrow> quiet k \<Longrightarrow> quiet_event e"
  by (auto simp: take_event_def quiet_def split: list.splits)

lemma content_same: "same_files k k' \<Longrightarrow> content k' = content k"
  by (auto simp: content_def same_files_def)

lemma sys_read_cases:
  assumes "fds k fd = Some f" "sys_read fd n k = (r, k')"
  obtains "r = Inl EINTR" "same_files k k'"
    | e where "r = Inl e" "0 < e" "e \<noteq> EINTR" "same_files k k'" "\<not> quiet k"
    | bs m where "r = Inr bs" "bs = take m (drop (opos f) (content k (opath f)))" "m \<le> n" "0 < n \<longrightarrow> 0 < m"
      "advanced fd f (length bs) k k'"
proof -
  obtain e k1 where e: "take_event k = (e, k1)" by (cases "take_event k")
  note same = take_event_same [OF e]
  have c: "content k1 = content k" "fds k1 = fds k" using content_same [OF same] same by (simp_all add: same_files_def)
  have adv: "advanced fd f m k (k1\<lparr>fds := (fds k)(fd \<mapsto> f\<lparr>opos := opos f + m\<rparr>)\<rparr>)" for m
    using same by (simp add: advanced_def same_files_def quiet_def)
  show ?thesis
  proof (cases e)
    case None
    then show ?thesis using assms e that(3) [of _ n] adv by (auto simp: sys_read_def Let_def c)
  next
    case (Some ev)
    show ?thesis
    proof (cases ev)
      case Interrupt
      then show ?thesis using assms e Some same that(1) by (auto simp: sys_read_def)
    next
      case (Short m)
      then show ?thesis using assms e Some that(3) [of _ "min n (m + 1)"] adv by (auto simp: sys_read_def Let_def c)
    next
      case (Fail x)
      then have "\<not> quiet k" using take_event_quiet e Some by fastforce
      then show ?thesis using assms e Some same that(1) that(2) [of "errno_of x"] Fail
        by (cases "errno_of x = EINTR") (auto simp: sys_read_def)
    qed
  qed
qed

lemma sys_write_cases:
  assumes "fds k fd = Some f" "owrite f" "sys_write fd bs k = (r, k')"
  obtains "r = Inl EINTR" "same_files k k'"
    | e where "r = Inl e" "0 < e" "e \<noteq> EINTR" "same_files k k'" "\<not> quiet k"
    | m where "r = Inr m" "m \<le> length bs" "quiet k \<and> bs \<noteq> [] \<longrightarrow> 0 < m" "stored fd f (take m bs) k k'"
proof -
  obtain e k1 where e: "take_event k = (e, k1)" by (cases "take_event k")
  note same = take_event_same [OF e]
  have c: "content k1 = content k" "fds k1 = fds k" using content_same [OF same] same by (simp_all add: same_files_def)
  have st: "stored fd f xs k (k1\<lparr>fds := (fds k)(fd \<mapsto> f\<lparr>opos := opos f + length xs\<rparr>),
      files := (files k1)(opath f \<mapsto> file_write (content k (opath f)) (opos f) xs)\<rparr>)" for xs
    using same by (simp add: stored_def same_files_def quiet_def)
  show ?thesis
  proof (cases e)
    case None
    then show ?thesis using assms e that(3) [of "length bs"] st [of bs] by (auto simp: sys_write_def Let_def c)
  next
    case (Some ev)
    show ?thesis
    proof (cases ev)
      case Interrupt
      then show ?thesis using assms e Some same that(1) by (auto simp: sys_write_def)
    next
      case (Short m)
      have "quiet k \<Longrightarrow> 0 < m" using take_event_quiet [of k ev k1] e Some Short by simp
      moreover have "take (min (length bs) m) bs = take m bs" by (metis min.commute take_take take_all_iff order_refl)
      ultimately show ?thesis using assms e Some Short that(3) [of "min (length bs) m"] st [of "take m bs"]
        by (auto simp: sys_write_def Let_def c)
    next
      case (Fail x)
      then have "\<not> quiet k" using take_event_quiet e Some by fastforce
      then show ?thesis using assms e Some same that(1) that(2) [of "errno_of x"] Fail
        by (cases "errno_of x = EINTR") (auto simp: sys_write_def)
    qed
  qed
qed


lemma advanced_same: "same_files k k1 \<Longrightarrow> advanced fd f m k1 k' \<Longrightarrow> advanced fd f m k k'"
  by (simp add: same_files_def advanced_def)

lemma stored_same: "same_files k k1 \<Longrightarrow> stored fd f bs k1 k' \<Longrightarrow> stored fd f bs k k'"
  using content_same [of k k1] by (simp add: same_files_def stored_def)

declare read_eintr.simps [simp del] write_eintr.simps [simp del] ifos_read_loop.simps [simp del] ifos_write_loop.simps [simp del]

lemma read_eintr_spec:
  assumes "fds k fd = Some f" "0 < n" "read_eintr fd n k = (r, k')"
  shows "(\<exists>e. r = Inl e \<and> 0 < e \<and> same_files k k' \<and> \<not> quiet k) \<or>
    (\<exists>bs m. r = Inr bs \<and> bs = take m (drop (opos f) (content k (opath f))) \<and> 0 < m \<and> m \<le> n \<and> advanced fd f (length bs) k k')"
  using assms
proof (induction fd n k rule: read_eintr.induct)
  case (1 fd n k)
  obtain r1 k1 where s: "sys_read fd n k = (r1, k1)" by (cases "sys_read fd n k")
  have step: "read_eintr fd n k = (if r1 = Inl EINTR then read_eintr fd n k1 else (r1, k1))"
    by (simp add: read_eintr.simps [of fd n k] s)
  from "1.prems"(1) s show ?case
  proof (cases rule: sys_read_cases)
    case 1
    then have k1: "fds k1 fd = Some f" "read_eintr fd n k1 = (r, k')" using "1.prems" step by (simp_all add: same_files_def)
    have "(\<exists>e. r = Inl e \<and> 0 < e \<and> same_files k1 k' \<and> \<not> quiet k1) \<or>
      (\<exists>bs m. r = Inr bs \<and> bs = take m (drop (opos f) (content k1 (opath f))) \<and> 0 < m \<and> m \<le> n \<and> advanced fd f (length bs) k1 k')"
      by (rule "1.IH" [OF s [symmetric] 1(1) k1(1) "1.prems"(2) k1(2)])
    moreover have "quiet k \<Longrightarrow> quiet k1" using 1(2) by (simp add: same_files_def)
    ultimately show ?thesis
      unfolding content_same [OF 1(2)] using advanced_same [OF 1(2)] same_files_trans [OF 1(2)] by blast
  next
    case (2 e)
    then show ?thesis using "1.prems"(3) step by auto
  next
    case (3 bs m)
    then show ?thesis using "1.prems" step by auto
  qed
qed

lemma write_eintr_spec:
  assumes "fds k fd = Some f" "owrite f" "bs \<noteq> []" "write_eintr fd bs k = (r, k')"
  shows "(\<exists>e. r = Inl e \<and> 0 < e \<and> same_files k k' \<and> \<not> quiet k) \<or>
    (\<exists>m. r = Inr m \<and> m \<le> length bs \<and> (quiet k \<longrightarrow> 0 < m) \<and> stored fd f (take m bs) k k')"
  using assms
proof (induction fd bs k rule: write_eintr.induct)
  case (1 fd bs k)
  obtain r1 k1 where s: "sys_write fd bs k = (r1, k1)" by (cases "sys_write fd bs k")
  have step: "write_eintr fd bs k = (if r1 = Inl EINTR then write_eintr fd bs k1 else (r1, k1))"
    by (simp add: write_eintr.simps [of fd bs k] s)
  from "1.prems"(1,2) s show ?case
  proof (cases rule: sys_write_cases)
    case 1
    then have k1: "fds k1 fd = Some f" "write_eintr fd bs k1 = (r, k')" using "1.prems" step by (simp_all add: same_files_def)
    have "(\<exists>e. r = Inl e \<and> 0 < e \<and> same_files k1 k' \<and> \<not> quiet k1) \<or>
      (\<exists>m. r = Inr m \<and> m \<le> length bs \<and> (quiet k1 \<longrightarrow> 0 < m) \<and> stored fd f (take m bs) k1 k')"
      by (rule "1.IH" [OF s [symmetric] 1(1) k1(1) "1.prems"(2,3) k1(2)])
    moreover have "quiet k \<Longrightarrow> quiet k1" using 1(2) by (simp add: same_files_def)
    ultimately show ?thesis using stored_same [OF 1(2)] same_files_trans [OF 1(2)] by blast
  next
    case (2 e)
    then show ?thesis using "1.prems"(4) step by auto
  next
    case (3 m)
    then show ?thesis using "1.prems" step by auto
  qed
qed

text \<open>Two transfers in a row are one transfer.\<close>

lemma file_write_append: "file_write (file_write d p a) (p + length a) b = file_write d p (a @ b)"
  by (auto simp: file_write_def min_def ac_simps)

lemma file_write_Nil: "p \<le> length d \<Longrightarrow> file_write d p [] = d"
  by (simp add: file_write_def)

lemma length_file_write: "length (file_write d p bs) = max (length d) (p + length bs)"
  by (simp add: file_write_def)

lemma advanced_advanced:
  "advanced fd f m k k1 \<Longrightarrow> advanced fd (f\<lparr>opos := opos f + m\<rparr>) n k1 k' \<Longrightarrow> advanced fd f (m + n) k k'"
  by (simp add: advanced_def add.assoc)

lemma stored_stored:
  "stored fd f a k k1 \<Longrightarrow> stored fd (f\<lparr>opos := opos f + length a\<rparr>) b k1 k' \<Longrightarrow> stored fd f (a @ b) k k'"
  by (simp add: stored_def content_def file_write_append add.assoc)

lemma advanced_zero: "fds k fd = Some f \<Longrightarrow> same_files k k' \<Longrightarrow> advanced fd f 0 k k'"
  by (auto simp: advanced_def same_files_def)

lemma stored_nothing:
  "fds k fd = Some f \<Longrightarrow> files k (opath f) = Some d \<Longrightarrow> opos f \<le> length d \<Longrightarrow> same_files k k' \<Longrightarrow> stored fd f [] k k'"
  by (auto simp: stored_def same_files_def content_def file_write_Nil)


lemma content_advanced: "advanced fd f m k k' \<Longrightarrow> content k' = content k"
  by (auto simp: advanced_def content_def)

lemma mem_write_prefix:
  "off + length bs \<le> length buf \<Longrightarrow> mem_write buf off bs = Some (take off buf @ bs @ drop (off + length bs) buf)"
  by (simp add: mem_write_def)

lemma splice_splice: "off + length a \<le> length buf \<Longrightarrow>
   (let buf' = take off buf @ a @ drop (off + length a) buf
    in take (off + length a) buf' @ b @ drop (off + length a + length b) buf') = take off buf @ (a @ b) @ drop (off + length (a @ b)) buf"
  by (cases a) (auto simp: min_def ac_simps)

lemma take_prefix_append: "a = take m (drop p d) \<Longrightarrow> a @ take n (drop (p + length a) d) = take (length a + n) (drop p d)"
proof -
  assume "a = take m (drop p d)"
  then have "take (length a) (drop p d) = a" by (metis length_take min.commute take_take take_all_iff order_refl)
  then show ?thesis by (metis take_add drop_drop add.commute)
qed

text \<open>
  A read loop stores a prefix of what follows the position and advances it; without an error it stops
  at the requested size or the end of the file, and a quiet schedule has no error.
\<close>

lemma read_loop_spec:
  assumes "fds k fd = Some f" "off \<le> len" "len \<le> length buf"
  shows "\<exists>r bs m k'. ifos_read_loop fd len off buf k = Some (r, take off buf @ bs @ drop (off + length bs) buf, k') \<and>
    m \<le> len - off \<and> bs = take m (drop (opos f) (content k (opath f))) \<and> advanced fd f (length bs) k k' \<and>
    (r = int (off + length bs) \<and> (off + length bs = len \<or> length (content k (opath f)) \<le> opos f + length bs) \<or> r < 0 \<and> \<not> quiet k)"
  using assms
proof (induction fd len off buf k arbitrary: f rule: ifos_read_loop.induct)
  case (1 fd len off buf k)
  let ?d = "content k (opath f)"
  note unfold = ifos_read_loop.simps [of fd len off buf k]
  show ?case
  proof (cases "off < len")
    case False
    then have "off = len" using "1.prems"(2) by simp
    then show ?thesis using "1.prems" advanced_zero [OF "1.prems"(1) same_files_refl]
      by (auto simp: ifos_read_loop.simps [of fd len len buf k])
  next
    case True
    obtain r1 k1 where s: "read_eintr fd (len - off) k = (r1, k1)" by (cases "read_eintr fd (len - off) k")
    have "0 < len - off" using True by simp
    from read_eintr_spec [OF "1.prems"(1) this s]
    consider (err) e where "r1 = Inl e" "0 < e" "same_files k k1" "\<not> quiet k"
      | (got) bs m where "r1 = Inr bs" "bs = take m (drop (opos f) ?d)" "0 < m" "m \<le> len - off" "advanced fd f (length bs) k k1"
      by blast
    then show ?thesis
    proof cases
      case err
      then have "advanced fd f 0 k k1" using advanced_zero "1.prems"(1) by blast
      then show ?thesis using err True s
        by (intro exI [of _ "posix__makeerror e"] exI [of _ "[]"] exI [of _ 0] exI [of _ k1]) (simp add: unfold posix__makeerror_def)
    next
      case got
      show ?thesis
      proof (cases bs)
        case Nil
        then have "length ?d \<le> opos f" using got(2,3) by auto
        then show ?thesis using got Nil True s by (auto simp: unfold)
      next
        case (Cons b bs')
        have len: "off + length bs \<le> len" using got(2,4) True by simp
        let ?buf = "take off buf @ bs @ drop (off + length bs) buf"
        have w: "mem_write buf off bs = Some ?buf" using len "1.prems"(3) by (intro mem_write_prefix) simp
        have loop: "ifos_read_loop fd len off buf k = ifos_read_loop fd len (off + length bs) ?buf k1"
          using True s got(1) w by (simp add: unfold Cons)
        let ?f = "f\<lparr>opos := opos f + length bs\<rparr>"
        have k1: "fds k1 fd = Some ?f" using got(5) by (simp add: advanced_def)
        have f: "opath ?f = opath f" "opos ?f = opos f + length bs" by simp_all
        have lb: "len \<le> length ?buf" using len "1.prems"(3) by simp
        obtain r bs2 m2 k' where IH: "ifos_read_loop fd len (off + length bs) ?buf k1 =
            Some (r, take (off + length bs) ?buf @ bs2 @ drop (off + length bs + length bs2) ?buf, k')"
          "m2 \<le> len - (off + length bs)" "bs2 = take m2 (drop (opos f + length bs) ?d)" "advanced fd ?f (length bs2) k1 k'"
          "r = int (off + length bs + length bs2) \<and> (off + length bs + length bs2 = len \<or> length ?d \<le> opos f + length bs + length bs2)
            \<or> r < 0 \<and> \<not> quiet k1"
          using "1.IH" [OF True s [symmetric] got(1) Cons, of ?buf ?f, folded Cons, OF w k1 len lb]
          unfolding content_advanced [OF got(5)] f by blast
        have "bs @ bs2 = take (length bs + m2) (drop (opos f) ?d)"
          using take_prefix_append [OF got(2)] IH(3) by simp
        moreover have "take (off + length bs) ?buf @ bs2 @ drop (off + length bs + length bs2) ?buf =
            take off buf @ (bs @ bs2) @ drop (off + length (bs @ bs2)) buf"
          using len "1.prems"(3) by (intro splice_splice [unfolded Let_def]) simp
        then have "ifos_read_loop fd len off buf k = Some (r, take off buf @ (bs @ bs2) @ drop (off + length (bs @ bs2)) buf, k')"
          unfolding loop IH(1) by (rule arg_cong)
        moreover have "advanced fd f (length (bs @ bs2)) k k'" using advanced_advanced [OF got(5) IH(4)] by simp
        moreover have "length bs + m2 \<le> len - off" using IH(2) len by simp
        moreover have "r = int (off + length (bs @ bs2)) \<and> (off + length (bs @ bs2) = len \<or> length ?d \<le> opos f + length (bs @ bs2))
            \<or> r < 0 \<and> \<not> quiet k"
          using IH(5) got(5) by (auto simp: advanced_def add.assoc)
        ultimately show ?thesis by blast
      qed
    qed
  qed
qed


lemma write_loop_spec:
  assumes "fds k fd = Some f" "owrite f" "files k (opath f) = Some d" "opos f \<le> length d" "off \<le> length bs"
  shows "\<exists>r m k'. ifos_write_loop fd bs off k = (r, k') \<and> m \<le> length bs - off \<and> stored fd f (take m (drop off bs)) k k' \<and>
    (r = int (off + m) \<or> r < 0) \<and> (quiet k \<longrightarrow> r = int (length bs) \<and> off + m = length bs)"
  using assms
proof (induction fd bs off k arbitrary: f d rule: ifos_write_loop.induct)
  case (1 fd bs off k)
  note unfold = ifos_write_loop.simps [of fd bs off k]
  show ?case
  proof (cases "off < length bs")
    case False
    then have "off = length bs" using "1.prems"(5) by simp
    then show ?thesis using "1.prems" stored_nothing [OF "1.prems"(1,3,4) same_files_refl]
      by (auto simp: ifos_write_loop.simps [of fd bs "length bs" k])
  next
    case True
    obtain r1 k1 where s: "write_eintr fd (drop off bs) k = (r1, k1)" by (cases "write_eintr fd (drop off bs) k")
    have "drop off bs \<noteq> []" using True by simp
    from write_eintr_spec [OF "1.prems"(1,2) this s]
    consider (err) e where "r1 = Inl e" "0 < e" "same_files k k1" "\<not> quiet k"
      | (put0) m where "r1 = Inr m" "m \<le> length (drop off bs)" "quiet k \<longrightarrow> 0 < m" "stored fd f (take m (drop off bs)) k k1"
      by blast
    then consider (err) e where "r1 = Inl e" "0 < e" "same_files k k1" "\<not> quiet k"
      | (none) "r1 = Inr 0" "stored fd f [] k k1" "\<not> quiet k"
      | (put) m where "r1 = Inr (Suc m)" "off + Suc m \<le> length bs" "stored fd f (take (Suc m) (drop off bs)) k k1"
    proof cases
      case (put0 m)
      then show ?thesis using True that(2) that(3) [of "m - 1"] by (cases m) auto
    qed (rule that(1))
    then show ?thesis
    proof cases
      case err
      then have "stored fd f [] k k1" using stored_nothing "1.prems"(1,3,4) by blast
      then show ?thesis using err True s by (auto simp: unfold posix__makeerror_def intro!: exI [of _ 0])
    next
      case none
      then show ?thesis using True s by (auto simp: unfold intro!: exI [of _ 0])
    next
      case put
      let ?a = "take (Suc m) (drop off bs)"
      let ?f = "f\<lparr>opos := opos f + length ?a\<rparr>"
      have la: "length ?a = Suc m" using put(2) by simp
      have k1: "fds k1 fd = Some ?f" "files k1 (opath ?f) = Some (file_write d (opos f) ?a)"
        "opos ?f \<le> length (file_write d (opos f) ?a)" "owrite ?f"
        using put(3) "1.prems"(2,3) by (simp_all add: stored_def content_def length_file_write)
      obtain r m2 k' where IH: "ifos_write_loop fd bs (off + Suc m) k1 = (r, k')" "m2 \<le> length bs - (off + Suc m)"
        "stored fd ?f (take m2 (drop (off + Suc m) bs)) k1 k'" "r = int (off + Suc m + m2) \<or> r < 0"
        "quiet k1 \<longrightarrow> r = int (length bs) \<and> off + Suc m + m2 = length bs"
        using "1.IH" [OF True s [symmetric] put(1) refl k1(1,4,2,3) put(2)] by blast
      have "take (Suc m + m2) (drop off bs) = ?a @ take m2 (drop (off + Suc m) bs)"
        using take_add [of "Suc m" m2 "drop off bs"] by (simp add: add.commute)
      then have "stored fd f (take (Suc m + m2) (drop off bs)) k k'" using stored_stored [OF put(3) IH(3)] by simp
      moreover have "quiet k \<Longrightarrow> quiet k1" using put(3) by (simp add: stored_def)
      moreover have "ifos_write_loop fd bs off k = (r, k')" using True s put(1) IH(1) by (simp add: unfold)
      moreover have "Suc m + m2 \<le> length bs - off" using IH(2) put(2) by simp
      ultimately show ?thesis using IH(4,5) by (intro exI [of _ r] exI [of _ "Suc m + m2"] exI [of _ k']) auto
    qed
  qed
qed


section \<open>Properties\<close>

text \<open>
  C40. A transfer through an open file, whatever interruptions, short transfers and failures are scheduled: a write stores
  a prefix of the buffer at the position and touches nothing else, a read stores a prefix of what follows the position at the
  start of the block; the position advances by the length of the prefix, and the result is that length or a negative error.
  Without scheduled failures a write is complete, and a read is complete or ends at the end of the file.
\<close>

theorem ifos_transfers:
  assumes "fds k fd = Some f" "owrite f" "files k (opath f) = Some d" "opos f \<le> length d" "0 < n" "n \<le> length buf"
  shows "(\<exists>r m k'. ifos_file_write fd (Some buf) (int n) k = Some (r, k') \<and> m \<le> n \<and> stored fd f (take m buf) k k' \<and>
      (r = int m \<or> r < 0) \<and> (quiet k \<longrightarrow> r = int n)) \<and>
    (\<exists>r m k'. ifos_file_read fd (Some buf) (int n) k = Some (r, Some (take m (drop (opos f) d) @ drop m buf), k') \<and>
      m \<le> min n (length d - opos f) \<and> advanced fd f m k k' \<and> (r = int m \<or> r < 0) \<and>
      (quiet k \<longrightarrow> r = int (min n (length d - opos f))))"
proof
  have bs: "mem_read buf 0 n = Some (take n buf)" and l: "length (take n buf) = n" using assms(6) by (simp_all add: mem_read_def)
  obtain r m k' where "ifos_write_loop fd (take n buf) 0 k = (r, k')" "m \<le> n" "stored fd f (take m (take n buf)) k k'"
    "r = int m \<or> r < 0" "quiet k \<longrightarrow> r = int n"
    using write_loop_spec [OF assms(1-4), of 0 "take n buf"] unfolding l drop_0 by (metis le0 diff_zero add_0)
  then show "\<exists>r m k'. ifos_file_write fd (Some buf) (int n) k = Some (r, k') \<and> m \<le> n \<and> stored fd f (take m buf) k k' \<and>
      (r = int m \<or> r < 0) \<and> (quiet k \<longrightarrow> r = int n)"
    using bs assms(5) by (auto simp: ifos_file_write_def min_def)
next
  have c: "content k (opath f) = d" using assms(3) by (simp add: content_def)
  obtain r bs m k' where w: "ifos_read_loop fd n 0 buf k = Some (r, bs @ drop (length bs) buf, k')" "m \<le> n"
    "bs = take m (drop (opos f) d)" "advanced fd f (length bs) k k'"
    "r = int (length bs) \<and> (length bs = n \<or> length d \<le> opos f + length bs) \<or> r < 0 \<and> \<not> quiet k"
    using read_loop_spec [OF assms(1), of 0 n buf] assms(6) unfolding c by auto
  have lb: "length bs \<le> min n (length d - opos f)" "bs = take (length bs) (drop (opos f) d)" using w(2,3) by (auto simp: min_def)
  moreover have "quiet k \<longrightarrow> r = int (min n (length d - opos f))" using w(5) lb(1) by auto
  moreover have "ifos_file_read fd (Some buf) (int n) k = Some (r, Some (take (length bs) (drop (opos f) d) @ drop (length bs) buf), k')"
    using w(1) lb(2) assms(5) by (simp add: ifos_file_read_def)
  ultimately show "\<exists>r m k'. ifos_file_read fd (Some buf) (int n) k = Some (r, Some (take m (drop (opos f) d) @ drop m buf), k') \<and>
      m \<le> min n (length d - opos f) \<and> advanced fd f m k k' \<and> (r = int m \<or> r < 0) \<and>
      (quiet k \<longrightarrow> r = int (min n (length d - opos f)))"
    using w(4,5) by blast
qed

definition sample_kernel :: kernel where
  "sample_kernel = \<lparr>files = [''f'' \<mapsto> [1, 2, 3]], fds = [3 \<mapsto> \<lparr>opath = ''f'', opos = 1, owrite = True\<rparr>], next_fd = 4,
     events = [Interrupt, Short 1, Interrupt], ctl = []\<rparr>"

theorem ifos_transfers_witness:
  "\<exists>r k' r2 b k2. ifos_file_write 3 (Some [7, 8, 9, 0]) (int 4) sample_kernel = Some (r, k') \<and> r = 4 \<and>
    ifos_file_read 3 (Some [7, 8, 9, 0]) (int 4) sample_kernel = Some (r2, b, k2) \<and> r2 = 2"
proof -
  let ?f = "\<lparr>opath = ''f'', opos = 1, owrite = True\<rparr>"
  have h: "fds sample_kernel 3 = Some ?f" "owrite ?f" "files sample_kernel (opath ?f) = Some [1, 2, 3]" "quiet sample_kernel"
    by (simp_all add: sample_kernel_def quiet_def)
  from ifos_transfers [OF h(1-3), of 4 "[7, 8, 9, 0]"] h(4) show ?thesis by auto
qed

end
