(* ===== verification/EvfsCluster.thy ===== *)
theory EvfsCluster
  imports Ifos
begin

text \<open>
  \<^verbatim>\<open>addons/evfs/cluster.c\<close>: the lowest layer of the entry file system, a file split into clusters of one
  size. Cluster 0 holds the head record. The state is the manager (the static variable
  \<^verbatim>\<open>__evfs_cluster_mgr\<close>), the kernel of \<^theory_text>\<open>Ifos\<close>, and a schedule for \<^verbatim>\<open>ztrymalloc\<close>: \<^term>\<open>None\<close> is a failed allocation,
  \<^term>\<open>Some g\<close> a block with the content \<^term>\<open>g\<close>; an exhausted schedule gives zeroed blocks. Blocks and the file are bytes; the
  packed structures are read and written at their offsets. An access outside a block and a signed overflow are failures.
\<close>

section \<open>Layout\<close>

definition EBFONT :: int where "EBFONT = 59"
definition EPROTOTYPE :: int where "EPROTOTYPE = 91"

definition MINIMUM_CLUSTER_SIZE :: int where "MINIMUM_CLUSTER_SIZE = 32"
definition MAXIMUM_CLUSTER_SIZE :: int where "MAXIMUM_CLUSTER_SIZE = 4096"
definition MAXIMUM_FILE_SIZE :: int where "MAXIMUM_FILE_SIZE = 2 ^ 30"
definition EVFS_MAGIC :: int where "EVFS_MAGIC = 0x73667645"

text \<open>Sizes of \<^verbatim>\<open>struct evfs_cluster\<close> and \<^verbatim>\<open>struct evfs_head_record_data\<close>.\<close>

definition sizeof_cluster :: nat where "sizeof_cluster = 12"
definition sizeof_hrd :: nat where "sizeof_hrd = 80"

lemmas evfs_consts = EBFONT_def EPROTOTYPE_def MINIMUM_CLUSTER_SIZE_def MAXIMUM_CLUSTER_SIZE_def MAXIMUM_FILE_SIZE_def
  EVFS_MAGIC_def sizeof_cluster_def sizeof_hrd_def

datatype evfs_ready_stat =
  kEvmgrNotReady | kEvmgrInitializing | kEvmgrUninitializing | kEvmgrReady | kEvmgrClosing | kEvmgrBusy

record cluster_mgr =
  mgr_fd :: int
  the_first_cluster :: "bytes option"
  evhrd :: bool
  ready :: evfs_ready_stat
  max_data_seg_size :: int
  fsize :: int

record evfs_env =
  kern :: kernel
  mallocs :: "(nat \<Rightarrow> u8) option list"
  mgr :: cluster_mgr

definition evfs_cluster_mgr0 :: cluster_mgr where
  "evfs_cluster_mgr0 = \<lparr>mgr_fd = INVALID_FILE_DESCRIPTOR, the_first_cluster = None, evhrd = False, ready = kEvmgrNotReady,
     max_data_seg_size = 0, fsize = 0\<rparr>"

text \<open>A conversion to \<^verbatim>\<open>int\<close>, and \<^verbatim>\<open>int\<close> fields of a block.\<close>

definition to_int :: "int \<Rightarrow> int" where
  "to_int x = sint (word_of_int x :: u32)"

definition get_int :: "bytes \<Rightarrow> nat \<Rightarrow> int option" where
  "get_int b off = do { x \<leftarrow> mem_read b off 4; Some (sint (of_le_bytes x)) }"

definition put_int :: "bytes \<Rightarrow> nat \<Rightarrow> int \<Rightarrow> bytes option" where
  "put_int b off v = mem_write b off (le_bytes (word_of_int v))"

abbreviation get_data_seg_size :: "bytes \<Rightarrow> int option" where "get_data_seg_size b \<equiv> get_int b 0"
abbreviation get_next_cluster_id :: "bytes \<Rightarrow> int option" where "get_next_cluster_id b \<equiv> get_int b 4"
abbreviation get_head_cluster_id :: "bytes \<Rightarrow> int option" where "get_head_cluster_id b \<equiv> get_int b 8"
abbreviation hrd_magic :: "bytes \<Rightarrow> int option" where "hrd_magic b \<equiv> get_int b 12"
abbreviation hrd_cluster_size :: "bytes \<Rightarrow> int option" where "hrd_cluster_size b \<equiv> get_int b 16"
abbreviation hrd_cluster_count :: "bytes \<Rightarrow> int option" where "hrd_cluster_count b \<equiv> get_int b 20"
abbreviation hrd_expand_cluster_count :: "bytes \<Rightarrow> int option" where "hrd_expand_cluster_count b \<equiv> get_int b 24"

definition ztrymalloc :: "int \<Rightarrow> evfs_env \<Rightarrow> bytes option \<times> evfs_env" where
  "ztrymalloc n e =
     (case mallocs e of
        [] \<Rightarrow> (Some (replicate (nat n) 0), e)
      | None # ms \<Rightarrow> (None, e\<lparr>mallocs := ms\<rparr>)
      | Some g # ms \<Rightarrow> (Some (map g [0 ..< nat n]), e\<lparr>mallocs := ms\<rparr>))"

section \<open>Operations\<close>

definition evfs_is_ready :: "evfs_env \<Rightarrow> bool" where
  "evfs_is_ready e \<longleftrightarrow>
     (let m = mgr e in
      \<not> (kEvmgrReady \<noteq> ready m \<or> \<not> evhrd m \<or> the_first_cluster m = None \<or>
         INVALID_FILE_DESCRIPTOR = mgr_fd m \<or> 0 = fsize m \<or> 0 = max_data_seg_size m))"

definition evfs_cluster_offset :: "evfs_env \<Rightarrow> int \<Rightarrow> int option" where
  "evfs_cluster_offset e cluster_id = do {
     b \<leftarrow> the_first_cluster (mgr e);
     cs \<leftarrow> hrd_cluster_size b;
     c_int (cluster_id * cs)
   }"

text \<open>
  \<^verbatim>\<open>remain_size\<close> is an \<^verbatim>\<open>int\<close> compared with a \<^verbatim>\<open>size_t\<close>, so a negative value counts as a large one: the loop
  works on the 32-bit pattern. \<^term>\<open>Inl\<close> is the early return.
\<close>

function expand_loop :: "int \<Rightarrow> u32 \<Rightarrow> kernel \<Rightarrow> ((nsp_status + u32) \<times> kernel) option" where
  "expand_loop fd remain_size k =
     (if 65536 \<le> remain_size then
        (case ifos_file_write fd (Some (replicate 65536 0)) 65536 k of
           None \<Rightarrow> None
         | Some (n, k') \<Rightarrow> if n \<noteq> 65536 then Some (Inl (posix__makeerror EIO), k') else expand_loop fd (remain_size - 65536) k')
      else Some (Inr remain_size, k))"
  by pat_completeness auto
termination
  by (relation "measure (\<lambda>(fd, r, k). unat r)") (auto simp: unat_sub word_le_nat_alt)

text \<open>What is left after the large blocks; the first component says that the function returns here.\<close>

definition expand_remainder :: "int \<Rightarrow> int \<Rightarrow> nsp_status \<Rightarrow> evfs_env \<Rightarrow> (bool \<times> nsp_status \<times> evfs_env) option" where
  "expand_remainder fd remain_size status e =
     (if remain_size > 0 then
        (case ztrymalloc remain_size e of
           (None, e) \<Rightarrow> Some (True, posix__makeerror ENOMEM, e)
         | (Some blk, e) \<Rightarrow> do {
             (n, k) \<leftarrow> ifos_file_write fd (Some (replicate (length blk) 0)) remain_size (kern e);
             Some (False, if remain_size \<noteq> n then posix__makeerror EIO else NSP_STATUS_SUCCESSFUL, e\<lparr>kern := k\<rparr>)
           })
      else Some (False, status, e))"

definition evfs_cluster_expand_file :: "int \<Rightarrow> int \<Rightarrow> int \<Rightarrow> int \<Rightarrow> evfs_env \<Rightarrow> (nsp_status \<times> evfs_env) option" where
  "evfs_cluster_expand_file fd cluster_size offset len e = do {
     remain_size \<leftarrow> c_int (len - offset);
     let (status, k) = ifos_file_seek fd offset (kern e);
     let e = e\<lparr>kern := k\<rparr>;
     if \<not> NSP_SUCCESS status then Some (status, e)
     else do {
       (r, k) \<leftarrow> expand_loop fd (word_of_int remain_size) (kern e);
       let e = e\<lparr>kern := k\<rparr>;
       case r of
         Inl st \<Rightarrow> Some (st, e)
       | Inr remain_size \<Rightarrow> do {
           (ret, status, e) \<leftarrow> expand_remainder fd (sint remain_size) status e;
           if ret then Some (status, e)
           else if NSP_SUCCESS status then
             (case ifos_file_flush fd (kern e) of (status, k) \<Rightarrow> Some (status, e\<lparr>kern := k\<rparr>))
           else Some (status, e)
         }
     }
   }"

text \<open>
  The body of the \<^verbatim>\<open>do ... while (0)\<close> of \<^verbatim>\<open>evfs_hard_create\<close> with its breaks as results: the status, the
  descriptor and the environment.
\<close>

definition set_ready :: "evfs_ready_stat \<Rightarrow> evfs_env \<Rightarrow> evfs_env" where
  "set_ready r e = e\<lparr>mgr := (mgr e)\<lparr>ready := r\<rparr>\<rparr>"

definition create_hrd :: "bytes \<Rightarrow> int \<Rightarrow> int \<Rightarrow> bytes option" where
  "create_hrd clusterptr cluster_size cluster_count_format = do {
     c \<leftarrow> put_int clusterptr 0 (int sizeof_hrd);
     c \<leftarrow> put_int c 4 0;
     c \<leftarrow> put_int c 8 0;
     c \<leftarrow> put_int c 20 cluster_count_format;
     c \<leftarrow> put_int c 16 cluster_size;
     c \<leftarrow> put_int c 24 cluster_count_format;
     put_int c 12 EVFS_MAGIC
   }"

definition create_body :: "string option \<Rightarrow> int \<Rightarrow> int \<Rightarrow> evfs_env \<Rightarrow> (nsp_status \<times> int \<times> evfs_env) option" where
  "create_body file cluster_size_format cluster_count_format e =
     (if cluster_size_format < MINIMUM_CLUSTER_SIZE \<or> cluster_size_format > MAXIMUM_CLUSTER_SIZE \<or>
         \<not> is_powerof_2 (word_of_int cluster_size_format :: u32)
      then Some (posix__makeerror EINVAL, INVALID_FILE_DESCRIPTOR, e)
      else do {
        let cluster_size = cluster_size_format;
        total \<leftarrow> c_int (cluster_size * cluster_count_format);
        if total \<ge> MAXIMUM_FILE_SIZE then Some (posix__makeerror EINVAL, INVALID_FILE_DESCRIPTOR, e)
        else
          (case ztrymalloc cluster_size e of
             (None, e) \<Rightarrow> Some (posix__makeerror ENOMEM, INVALID_FILE_DESCRIPTOR, e)
           | (Some blk, e) \<Rightarrow> do {
               let clusterptr = replicate (length blk) 0;
               let (status, fdo, k) = ifos_file_open file (FF_WRACCESS + FF_CREATE_ALWAYS) (kern e);
               let fd = (case fdo of None \<Rightarrow> INVALID_FILE_DESCRIPTOR | Some fd \<Rightarrow> fd);
               let e = e\<lparr>kern := k\<rparr>;
               if \<not> NSP_SUCCESS status then Some (status, fd, e)
               else do {
                 c \<leftarrow> create_hrd clusterptr cluster_size cluster_count_format;
                 (wrcb, k) \<leftarrow> ifos_file_write fd (Some c) cluster_size (kern e);
                 let e = e\<lparr>kern := k\<rparr>;
                 if wrcb \<noteq> cluster_size then Some (posix__makeerror wrcb, fd, e)
                 else do {
                   (status, e) \<leftarrow> evfs_cluster_expand_file fd cluster_size_format cluster_size_format total e;
                   if \<not> NSP_SUCCESS status then Some (status, fd, e)
                   else
                     Some (NSP_STATUS_SUCCESSFUL, fd,
                       e\<lparr>mgr := \<lparr>mgr_fd = fd, the_first_cluster = Some c, evhrd = True, ready = kEvmgrReady,
                          max_data_seg_size = cluster_size - int sizeof_cluster, fsize = total\<rparr>\<rparr>)
                 }
               }
             })
      })"

text \<open>What follows the body in both functions: close an abandoned descriptor, reset the ready state after a failure.\<close>

definition finish_init :: "nsp_status \<times> int \<times> evfs_env \<Rightarrow> nsp_status \<times> evfs_env" where
  "finish_init = (\<lambda>(status, fd, e).
     let e = (if fd > 0 \<and> fd \<noteq> mgr_fd (mgr e) then e\<lparr>kern := ifos_file_close fd (kern e)\<rparr> else e);
         e = (if ready (mgr e) = kEvmgrInitializing then set_ready kEvmgrNotReady e else e)
     in (status, e))"

definition evfs_hard_create :: "string option \<Rightarrow> int \<Rightarrow> int \<Rightarrow> evfs_env \<Rightarrow> (nsp_status \<times> evfs_env) option" where
  "evfs_hard_create file cluster_size_format cluster_count_format e =
     (if ready (mgr e) \<noteq> kEvmgrNotReady then Some (posix__makeerror EEXIST, e)
      else do {
        r \<leftarrow> create_body file cluster_size_format cluster_count_format (set_ready kEvmgrInitializing e);
        Some (finish_init r)
      })"

definition evfs_check_hard_legal :: "bytes \<Rightarrow> int \<Rightarrow> nsp_status option" where
  "evfs_check_hard_legal b fsz = do {
     magic \<leftarrow> hrd_magic b;
     if magic \<noteq> EVFS_MAGIC then Some (posix__makeerror EBFONT)
     else do {
       cs \<leftarrow> hrd_cluster_size b;
       if cs < MINIMUM_CLUSTER_SIZE \<or> cs > MAXIMUM_CLUSTER_SIZE then Some (posix__makeerror EBFONT)
       else do {
         cc \<leftarrow> hrd_cluster_count b;
         total \<leftarrow> c_int (cs * cc);
         if total \<noteq> fsz then Some (posix__makeerror EBFONT) else Some NSP_STATUS_SUCCESSFUL
       }
     }
   }"

definition open_body :: "string option \<Rightarrow> evfs_env \<Rightarrow> (nsp_status \<times> int \<times> evfs_env) option" where
  "open_body file e = do {
     let guide_size = int (sizeof_cluster + sizeof_hrd);
     let (status, fdo, k) = ifos_file_open file (FF_WRACCESS + FF_OPEN_EXISTING) (kern e);
     let fd = (case fdo of None \<Rightarrow> INVALID_FILE_DESCRIPTOR | Some fd \<Rightarrow> fd);
     let e = e\<lparr>kern := k\<rparr>;
     if \<not> NSP_SUCCESS status then Some (status, fd, e)
     else do {
       let (fsz, k) = ifos_file_fgetsize fd (kern e);
       let e = e\<lparr>kern := k\<rparr>;
       if fsz < guide_size \<or> fsz > MAXIMUM_FILE_SIZE then Some (posix__makeerror EBFONT, fd, e)
       else
         (case ztrymalloc guide_size e of
            (None, e) \<Rightarrow> Some (posix__makeerror ENOMEM, fd, e)
          | (Some guide, e) \<Rightarrow> do {
              (rdcb, g, k) \<leftarrow> ifos_file_read fd (Some guide) guide_size (kern e);
              guide \<leftarrow> g;
              let e = e\<lparr>kern := k\<rparr>;
              if rdcb \<noteq> guide_size then Some (posix__makeerror rdcb, fd, e)
              else do {
                dss \<leftarrow> get_data_seg_size guide;
                nci \<leftarrow> get_next_cluster_id guide;
                hci \<leftarrow> get_head_cluster_id guide;
                if dss \<noteq> int sizeof_hrd \<or> nci \<noteq> 0 \<or> hci \<noteq> 0 then Some (posix__makeerror EPROTOTYPE, fd, e)
                else do {
                  status \<leftarrow> evfs_check_hard_legal guide (to_int fsz);
                  if \<not> NSP_SUCCESS status then Some (status, fd, e)
                  else do {
                    cs \<leftarrow> hrd_cluster_size guide;
                    (case ztrymalloc cs e of
                       (None, e) \<Rightarrow> Some (posix__makeerror ENOMEM, fd, e)
                     | (Some blk, e) \<Rightarrow> do {
                         clusterptr \<leftarrow> mem_write blk 0 guide;
                         Some (NSP_STATUS_SUCCESSFUL, fd,
                           e\<lparr>mgr := \<lparr>mgr_fd = fd, the_first_cluster = Some clusterptr, evhrd = True, ready = kEvmgrReady,
                              max_data_seg_size = cs - int sizeof_cluster, fsize = fsz\<rparr>\<rparr>)
                       })
                  }
                }
              }
            })
     }
   }"

definition evfs_hard_open :: "string option \<Rightarrow> evfs_env \<Rightarrow> (nsp_status \<times> evfs_env) option" where
  "evfs_hard_open file e =
     (if ready (mgr e) \<noteq> kEvmgrNotReady then Some (posix__makeerror EEXIST, e)
      else do { r \<leftarrow> open_body file (set_ready kEvmgrInitializing e); Some (finish_init r) })"

definition evfs_hard_close :: "evfs_env \<Rightarrow> evfs_env" where
  "evfs_hard_close e =
     (let e = set_ready kEvmgrClosing e;
          e = (if mgr_fd (mgr e) > 0 then
                 (let (_, k) = ifos_file_flush (mgr_fd (mgr e)) (kern e);
                      k = ifos_file_close (mgr_fd (mgr e)) k
                  in e\<lparr>kern := k, mgr := (mgr e)\<lparr>mgr_fd := INVALID_FILE_DESCRIPTOR\<rparr>\<rparr>)
               else e);
          e = e\<lparr>mgr := (mgr e)\<lparr>the_first_cluster := None, evhrd := False\<rparr>\<rparr>
      in set_ready kEvmgrNotReady e)"

definition evfs_hard_write_cluster :: "int \<Rightarrow> bytes option \<Rightarrow> evfs_env \<Rightarrow> (nsp_status \<times> evfs_env) option" where
  "evfs_hard_write_cluster cluster_id buffer e =
     (if \<not> evfs_is_ready e then Some (posix__makeerror EBFONT, e)
      else do {
        off \<leftarrow> evfs_cluster_offset e cluster_id;
        let (status, k) = ifos_file_seek (mgr_fd (mgr e)) off (kern e);
        let e = e\<lparr>kern := k\<rparr>;
        if \<not> NSP_SUCCESS status then Some (status, e)
        else do {
          b \<leftarrow> the_first_cluster (mgr e);
          cs \<leftarrow> hrd_cluster_size b;
          (wrcb, k) \<leftarrow> ifos_file_write (mgr_fd (mgr e)) buffer cs (kern e);
          Some (if wrcb = cs then NSP_STATUS_SUCCESSFUL else wrcb, e\<lparr>kern := k\<rparr>)
        }
      })"

definition evfs_hard_expand :: "evfs_env \<Rightarrow> (int \<times> int option \<times> evfs_env) option" where
  "evfs_hard_expand e =
     (if \<not> evfs_is_ready e then Some (posix__makeerror EBFONT, None, e)
      else do {
        b \<leftarrow> the_first_cluster (mgr e);
        available_cluster_count \<leftarrow> hrd_cluster_count b;
        ecc \<leftarrow> hrd_expand_cluster_count b;
        cs \<leftarrow> hrd_cluster_size b;
        expand_size \<leftarrow> c_int (ecc * cs);
        (status, e) \<leftarrow> evfs_cluster_expand_file (mgr_fd (mgr e)) cs (to_int (fsize (mgr e))) (to_int (fsize (mgr e) + expand_size)) e;
        if \<not> NSP_SUCCESS status then Some (status, None, e)
        else do {
          cc \<leftarrow> c_int (available_cluster_count + ecc);
          b \<leftarrow> put_int b 20 cc;
          let e = e\<lparr>mgr := (mgr e)\<lparr>fsize := fsize (mgr e) + expand_size, the_first_cluster := Some b\<rparr>\<rparr>;
          (status, e) \<leftarrow> evfs_hard_write_cluster 0 (Some b) e;
          if \<not> NSP_SUCCESS status then Some (status, None, e)
          else Some (ecc, Some available_cluster_count, e)
        }
      })"

text \<open>Both reads differ in the number of bytes only.\<close>

definition read_at :: "int \<Rightarrow> bytes option \<Rightarrow> (int \<Rightarrow> int) \<Rightarrow> evfs_env \<Rightarrow> (nsp_status \<times> bytes option \<times> evfs_env) option" where
  "read_at cluster_id buffer amount e =
     (if \<not> evfs_is_ready e then Some (posix__makeerror EBFONT, buffer, e)
      else do {
        off \<leftarrow> evfs_cluster_offset e cluster_id;
        let (status, k) = ifos_file_seek (mgr_fd (mgr e)) off (kern e);
        let e = e\<lparr>kern := k\<rparr>;
        if \<not> NSP_SUCCESS status then Some (status, buffer, e)
        else do {
          b \<leftarrow> the_first_cluster (mgr e);
          cs \<leftarrow> hrd_cluster_size b;
          (rdcb, buffer, k) \<leftarrow> ifos_file_read (mgr_fd (mgr e)) buffer (amount cs) (kern e);
          Some (if rdcb = amount cs then NSP_STATUS_SUCCESSFUL else rdcb, buffer, e\<lparr>kern := k\<rparr>)
        }
      })"

definition evfs_hard_read_cluster :: "int \<Rightarrow> bytes option \<Rightarrow> evfs_env \<Rightarrow> (nsp_status \<times> bytes option \<times> evfs_env) option" where
  "evfs_hard_read_cluster cluster_id buffer = read_at cluster_id buffer (\<lambda>cs. cs)"

definition evfs_hard_read_cluster_head :: "int \<Rightarrow> bytes option \<Rightarrow> evfs_env \<Rightarrow> (nsp_status \<times> bytes option \<times> evfs_env) option" where
  "evfs_hard_read_cluster_head cluster_id clusterptr = read_at cluster_id clusterptr (\<lambda>cs. int sizeof_cluster)"

definition evfs_hard_flush :: "evfs_env \<Rightarrow> nsp_status \<times> evfs_env" where
  "evfs_hard_flush e =
     (if \<not> evfs_is_ready e then (posix__makeerror EBFONT, e)
      else (case ifos_file_flush (mgr_fd (mgr e)) (kern e) of (status, k) \<Rightarrow> (status, e\<lparr>kern := k\<rparr>)))"

definition evfs_hard_get_filesize :: "evfs_env \<Rightarrow> int" where
  "evfs_hard_get_filesize e = (if evfs_is_ready e then to_int (fsize (mgr e)) else 0)"

definition evfs_hard_get_cluster_size :: "evfs_env \<Rightarrow> int option" where
  "evfs_hard_get_cluster_size e = (if evfs_is_ready e then do { b \<leftarrow> the_first_cluster (mgr e); hrd_cluster_size b } else Some 0)"

definition evfs_hard_get_usable_cluster_count :: "evfs_env \<Rightarrow> int option" where
  "evfs_hard_get_usable_cluster_count e =
     (if evfs_is_ready e then do { b \<leftarrow> the_first_cluster (mgr e); n \<leftarrow> hrd_cluster_count b; c_int (n - 1) } else Some 0)"

definition evfs_hard_get_max_data_seg_size :: "evfs_env \<Rightarrow> int" where
  "evfs_hard_get_max_data_seg_size e = (if evfs_is_ready e then max_data_seg_size (mgr e) else 0)"

text \<open>The outer option is a failure, the inner one the returned pointer.\<close>

definition evfs_hard_allocate_cluster :: "bytes option \<Rightarrow> evfs_env \<Rightarrow> (bytes option \<times> evfs_env) option" where
  "evfs_hard_allocate_cluster source e =
     (if evfs_is_ready e then do {
        b \<leftarrow> the_first_cluster (mgr e);
        cs \<leftarrow> hrd_cluster_size b;
        (case ztrymalloc (int sizeof_cluster + cs) e of
           (None, e) \<Rightarrow> Some (None, e)
         | (Some blk, e) \<Rightarrow>
             (let c = replicate (length blk) 0 in
              case source of
                None \<Rightarrow> Some (Some c, e)
              | Some src \<Rightarrow> do { h \<leftarrow> mem_read src 0 sizeof_cluster; c \<leftarrow> mem_write c 0 h; Some (Some c, e) }))
      } else Some (None, e))"


section \<open>Fields of a block\<close>

lemma to_int_small: "- (2 ^ 31) \<le> v \<Longrightarrow> v < 2 ^ 31 \<Longrightarrow> to_int v = v"
  by (simp add: to_int_def signed_of_int signed_take_bit_int_eq_self)

lemma put_int_Some: "off + 4 \<le> length b \<Longrightarrow> \<exists>b'. put_int b off v = Some b' \<and> length b' = length b"
  by (simp add: put_int_def mem_write_def)

lemma put_int_bytes: "put_int b off v = Some b' \<Longrightarrow>
    off + 4 \<le> length b \<and> b' = take off b @ le_bytes (word_of_int v) @ drop (off + 4) b"
  by (auto simp: put_int_def mem_write_def split: if_splits)

lemma get_put_same: "put_int b off v = Some b' \<Longrightarrow> get_int b' off = Some (to_int v)"
proof -
  assume "put_int b off v = Some b'"
  then have "off + 4 \<le> length b" "b' = take off b @ le_bytes (word_of_int v) @ drop (off + 4) b" using put_int_bytes by auto
  then have "mem_read b' off 4 = Some (le_bytes (word_of_int v))" by (simp add: mem_read_def)
  then show ?thesis by (simp add: get_int_def to_int_def of_le_bytes_le_bytes)
qed

lemma mem_read_nth: "off + n \<le> length b \<Longrightarrow> mem_read b off n = Some (map (\<lambda>i. b ! (off + i)) [0 ..< n])"
  by (auto simp: mem_read_def intro!: nth_equalityI)

lemma get_put_other:
  assumes "put_int b off v = Some b'" "off + 4 \<le> off' \<or> off' + 4 \<le> off"
  shows "get_int b' off' = get_int b off'"
proof -
  have w: "mem_write b off (le_bytes (word_of_int v)) = Some b'" using assms(1) by (simp add: put_int_def)
  have l: "length b' = length b" using length_mem_write [OF w] .
  have "mem_read b' off' 4 = mem_read b off' 4"
  proof (cases "off' + 4 \<le> length b")
    case True
    then show ?thesis using assms(2) l by (auto simp: mem_read_nth nth_mem_write [OF w])
  qed (simp add: mem_read_def l)
  then show ?thesis by (simp add: get_int_def)
qed

lemma get_int_take: "off + 4 \<le> n \<Longrightarrow> n \<le> length b \<Longrightarrow> get_int (take n b) off = get_int b off"
  by (simp add: get_int_def mem_read_def take_drop min_def)

lemma get_int_append: "off + 4 \<le> length a \<Longrightarrow> get_int (a @ b) off = get_int a off"
  by (simp add: get_int_def mem_read_def)

section \<open>The cluster store\<close>

text \<open>The head record of a file of \<^term>\<open>cc\<close> clusters of \<^term>\<open>cs\<close> bytes that grows by \<^term>\<open>ecc\<close> clusters.\<close>

definition header :: "bytes \<Rightarrow> nat \<Rightarrow> nat \<Rightarrow> nat \<Rightarrow> bool" where
  "header b cs cc ecc \<longleftrightarrow> get_data_seg_size b = Some (int sizeof_hrd) \<and> get_next_cluster_id b = Some 0 \<and> get_head_cluster_id b = Some 0 \<and>
     hrd_magic b = Some EVFS_MAGIC \<and> hrd_cluster_size b = Some (int cs) \<and> hrd_cluster_count b = Some (int cc) \<and>
     hrd_expand_cluster_count b = Some (int ecc)"

definition cluster_of :: "bytes \<Rightarrow> nat \<Rightarrow> nat \<Rightarrow> bytes" where
  "cluster_of d cs i = take cs (drop (i * cs) d)"

text \<open>A ready manager over an open file with the content \<^term>\<open>d\<close>.\<close>

definition store_ok :: "evfs_env \<Rightarrow> nat \<Rightarrow> nat \<Rightarrow> nat \<Rightarrow> string \<Rightarrow> bytes \<Rightarrow> bool" where
  "store_ok e cs cc ecc path d \<longleftrightarrow>
     ready (mgr e) = kEvmgrReady \<and> evhrd (mgr e) \<and> 0 < mgr_fd (mgr e) \<and>
     (\<exists>b. the_first_cluster (mgr e) = Some b \<and> length b = cs \<and> header b cs cc ecc) \<and>
     (\<exists>f. fds (kern e) (mgr_fd (mgr e)) = Some f \<and> owrite f \<and> opath f = path) \<and>
     files (kern e) path = Some d \<and> length d = cs * cc \<and> fsize (mgr e) = int (cs * cc) \<and>
     max_data_seg_size (mgr e) = int cs - int sizeof_cluster \<and> 32 \<le> cs \<and> cs \<le> 4096 \<and> 0 < cc \<and> cs * cc < 2 ^ 31"

text \<open>No scheduled call fails.\<close>

definition calm :: "kernel \<Rightarrow> bool" where
  "calm k \<longleftrightarrow> quiet k \<and> list_all (\<lambda>c. c = None) (ctl k)"

lemma store_ready: "store_ok e cs cc ecc path d \<Longrightarrow> evfs_is_ready e"
  by (auto simp: store_ok_def evfs_is_ready_def Let_def INVALID_FILE_DESCRIPTOR_def sizeof_cluster_def)

text \<open>An update of the kernel that keeps the descriptor open keeps the store.\<close>

lemma store_kern:
  assumes "store_ok e cs cc ecc path d" "fds k (mgr_fd (mgr e)) = Some f" "owrite f" "opath f = path"
    "files k path = Some d'" "length d' = length d"
  shows "store_ok (e\<lparr>kern := k\<rparr>) cs cc ecc path d'"
  using assms by (auto simp: store_ok_def)

lemma take_ctl_cases:
  assumes "take_ctl k = (c, k')"
  shows "files k' = files k" "fds k' = fds k" "next_fd k' = next_fd k" "events k' = events k"
    "calm k \<Longrightarrow> c = None \<and> calm k'" "c = Some x \<Longrightarrow> 0 < x"
  using assms by (auto simp: take_ctl_def calm_def quiet_def split: list.splits)

lemma seek_spec:
  assumes "fds k fd = Some f" "0 \<le> off" "ifos_file_seek fd off k = (st, k')"
  shows "files k' = files k" "next_fd k' = next_fd k" "calm k \<Longrightarrow> NSP_SUCCESS st \<and> calm k'"
    "NSP_SUCCESS st \<Longrightarrow> fds k' = (fds k)(fd \<mapsto> f\<lparr>opos := nat off\<rparr>)"
    "\<not> NSP_SUCCESS st \<Longrightarrow> fds k' = fds k"
    "NSP_SUCCESS st \<Longrightarrow> st = 0"
proof -
  obtain c k1 where c: "take_ctl k = (c, k1)" by (cases "take_ctl k")
  note s = take_ctl_cases [OF c] and def = ifos_file_seek_def sys_lseek_def
  show "files k' = files k" "next_fd k' = next_fd k" "calm k \<Longrightarrow> NSP_SUCCESS st \<and> calm k'"
    "NSP_SUCCESS st \<Longrightarrow> fds k' = (fds k)(fd \<mapsto> f\<lparr>opos := nat off\<rparr>)" "\<not> NSP_SUCCESS st \<Longrightarrow> fds k' = fds k"
    "NSP_SUCCESS st \<Longrightarrow> st = 0"
    using assms c s by (auto simp: def status_defs calm_def quiet_def split: option.splits if_splits)
qed


lemma write_spec:
  assumes "fds k fd = Some f" "owrite f" "files k (opath f) = Some d" "opos f \<le> length d" "n \<le> length buf" "0 < n"
  shows "\<exists>r m k'. ifos_file_write fd (Some buf) (int n) k = Some (r, k') \<and> m \<le> n \<and> stored fd f (take m buf) k k' \<and>
    (calm k \<longrightarrow> r = int n \<and> m = n \<and> calm k')"
proof -
  have bs: "mem_read buf 0 n = Some (take n buf)" using assms(5) by (simp add: mem_read_def)
  have l: "length (take n buf) = n" using assms(5) by simp
  obtain r m k' where w: "ifos_write_loop fd (take n buf) 0 k = (r, k')" "m \<le> n" "stored fd f (take m (take n buf)) k k'"
    "quiet k \<longrightarrow> r = int n \<and> m = n"
    using write_loop_spec [OF assms(1-4), of 0 "take n buf"] unfolding l drop_0 by (metis le0 diff_zero add_0)
  have "calm k \<longrightarrow> r = int n \<and> m = n \<and> calm k'" using w(3,4) by (auto simp: calm_def stored_def)
  then show ?thesis using w assms(6) bs by (auto simp: ifos_file_write_def min_def)
qed

lemma read_spec:
  assumes "fds k fd = Some f" "files k (opath f) = Some d" "opos f + n \<le> length d" "n \<le> length buf" "0 < n"
  shows "\<exists>r m k'. ifos_file_read fd (Some buf) (int n) k =
      Some (r, Some (take m (drop (opos f) d) @ drop m buf), k') \<and> m \<le> n \<and> advanced fd f m k k' \<and>
    (r = int n \<longrightarrow> m = n) \<and> (calm k \<longrightarrow> r = int n \<and> calm k')"
proof -
  have c: "content k (opath f) = d" using assms(2) by (simp add: content_def)
  obtain r bs m k' where w: "ifos_read_loop fd n 0 buf k = Some (r, bs @ drop (length bs) buf, k')" "m \<le> n"
    "bs = take m (drop (opos f) d)" "advanced fd f (length bs) k k'"
    "r = int (length bs) \<and> (length bs = n \<or> length d \<le> opos f + length bs) \<or> r < 0 \<and> \<not> quiet k"
    using read_loop_spec [OF assms(1), of 0 n buf] assms(4) unfolding c by auto
  have lb: "length bs = m" using w(2,3) assms(3) by simp
  have "r = int n \<longrightarrow> m = n" "calm k \<longrightarrow> r = int n \<and> calm k'"
    using w(4,5) assms(3) lb w(2) by (auto simp: calm_def advanced_def)
  then show ?thesis using w lb assms(5) by (auto simp: ifos_file_read_def)
qed

text \<open>A write inside one cluster leaves the others alone.\<close>

lemma nth_file_write:
  "p + length bs \<le> length d \<Longrightarrow> i < length d \<Longrightarrow>
   file_write d p bs ! i = (if p \<le> i \<and> i < p + length bs then bs ! (i - p) else d ! i)"
  by (auto simp: file_write_def nth_append min_def)

lemma cluster_of_nth: "(i + 1) * cs \<le> length d \<Longrightarrow> cluster_of d cs i = map (\<lambda>j. d ! (i * cs + j)) [0 ..< cs]"
  by (auto simp: cluster_of_def intro!: nth_equalityI)

lemma cluster_bound: "i < cc \<Longrightarrow> (i + 1) * cs \<le> cs * cc" for i cc cs :: nat
  by (metis Suc_eq_plus1 Suc_leI mult.commute mult_le_mono1)

lemma cluster_other:
  assumes "length d = cs * cc" "i < cc" "cid < cc" "i \<noteq> cid" "length bs \<le> cs"
  shows "cluster_of (file_write d (cid * cs) bs) cs i = cluster_of d cs i"
proof -
  have b: "(i + 1) * cs \<le> length d" "(cid + 1) * cs \<le> length d" using assms(1-3) cluster_bound by auto
  have "file_write d (cid * cs) bs ! (i * cs + j) = d ! (i * cs + j)" if "j < cs" for j
  proof (cases "i < cid")
    case True
    then have "(i + 1) * cs \<le> cid * cs" by (intro mult_le_mono1) simp
    then show ?thesis using b that assms(5) by (subst nth_file_write) auto
  next
    case False
    then have "(cid + 1) * cs \<le> i * cs" using assms(4) by (intro mult_le_mono1) simp
    then show ?thesis using b that assms(5) by (subst nth_file_write) auto
  qed
  moreover have "length (file_write d (cid * cs) bs) = length d" using b assms(5) by (simp add: length_file_write)
  ultimately show ?thesis using b by (simp add: cluster_of_nth)
qed

lemma cluster_same:
  assumes "(cid + 1) * cs \<le> length d" "length bs = cs"
  shows "cluster_of (file_write d (cid * cs) bs) cs cid = bs"
  using assms by (simp add: cluster_of_def file_write_def)

lemma cluster_append:
  assumes "length d = cs * cc" "i < cc + ecc"
  shows "cluster_of (d @ replicate (cs * ecc) 0) cs i = (if i < cc then cluster_of d cs i else replicate cs 0)"
proof (cases "i < cc")
  case True
  then show ?thesis using assms(1) cluster_bound [OF True, of cs] by (simp add: cluster_of_def)
next
  case False
  then obtain j where j: "i = cc + j" "j < ecc" using assms(2) by (metis le_Suc_ex nat_add_left_cancel_less not_less)
  have "(j + 1) * cs \<le> cs * ecc" by (rule cluster_bound [OF j(2)])
  then have "min (cs * ecc - j * cs) cs = cs" by simp
  moreover have "i * cs = length d + j * cs" by (simp add: assms(1) j(1) algebra_simps)
  ultimately show ?thesis using False by (simp add: cluster_of_def min.commute)
qed

lemma store_offset:
  assumes "store_ok e cs cc ecc path d" "cid < cc"
  shows "evfs_cluster_offset e (int cid) = Some (int (cid * cs))"
proof -
  have "cid * cs < 2 ^ 31" using cluster_bound [OF assms(2), of cs] assms(1) by (simp add: store_ok_def)
  then have "int (cid * cs) < 2 ^ 31" by (metis of_nat_less_numeral_power_cancel_iff)
  moreover have "0 \<le> int (cid * cs)" by (rule of_nat_0_le_iff)
  ultimately have "c_int (int (cid * cs)) = Some (int (cid * cs))" by (intro c_int_Some) linarith+
  then show ?thesis using assms(1) by (auto simp: store_ok_def evfs_cluster_offset_def header_def)
qed


lemma write_cluster_spec:
  assumes st: "store_ok e cs cc ecc path d" and "cid < cc" "cs \<le> length buf"
  shows "\<exists>r m e'. evfs_hard_write_cluster (int cid) (Some buf) e = Some (r, e') \<and> m \<le> cs \<and>
    store_ok e' cs cc ecc path (file_write d (cid * cs) (take m buf)) \<and> mgr e' = mgr e \<and> mallocs e' = mallocs e \<and> next_fd (kern e') = next_fd (kern e) \<and>
    (calm (kern e) \<longrightarrow> r = 0 \<and> m = cs \<and> calm (kern e'))"
proof -
  let ?fd = "mgr_fd (mgr e)"
  obtain f where f: "fds (kern e) ?fd = Some f" "owrite f" "opath f = path" "files (kern e) path = Some d" "length d = cs * cc" "32 \<le> cs"
    using st by (auto simp: store_ok_def)
  obtain b where b: "the_first_cluster (mgr e) = Some b" "hrd_cluster_size b = Some (int cs)"
    using st by (auto simp: store_ok_def header_def)
  have bnd: "cid * cs + cs \<le> length d" using cluster_bound [OF assms(2), of cs] f(5) by simp
  obtain s k1 where s: "ifos_file_seek ?fd (int (cid * cs)) (kern e) = (s, k1)" by fastforce
  note seek = seek_spec [OF f(1) of_nat_0_le_iff s]
  have unfold: "evfs_hard_write_cluster (int cid) (Some buf) e =
      (if \<not> NSP_SUCCESS s then Some (s, e\<lparr>kern := k1\<rparr>)
       else do { (wrcb, k) \<leftarrow> ifos_file_write ?fd (Some buf) (int cs) k1;
                 Some (if wrcb = int cs then NSP_STATUS_SUCCESSFUL else wrcb, e\<lparr>kern := k\<rparr>) })"
    using store_ready [OF st] s b unfolding evfs_hard_write_cluster_def store_offset [OF st assms(2)] by simp
  show ?thesis
  proof (cases "NSP_SUCCESS s")
    case False
    have "file_write d (cid * cs) (take 0 buf) = d" using bnd by (simp add: file_write_Nil)
    moreover have "store_ok (e\<lparr>kern := k1\<rparr>) cs cc ecc path d"
      by (rule store_kern [OF st, of _ f]) (use f seek(1) seek(5) [OF False] in auto)
    ultimately show ?thesis using False seek(2,3) unfold by (intro exI [of _ s] exI [of _ 0] exI [of _ "e\<lparr>kern := k1\<rparr>"]) auto
  next
    case True
    let ?f = "f\<lparr>opos := cid * cs\<rparr>"
    have "fds k1 ?fd = Some ?f" using seek(4) [OF True] by (simp del: of_nat_mult)
    moreover have "opos ?f \<le> length d" using bnd by simp
    ultimately have k1: "fds k1 ?fd = Some ?f" "owrite ?f" "files k1 (opath ?f) = Some d" "opos ?f \<le> length d" "0 < cs"
      using seek(1) f by simp_all
    obtain r m k2 where w: "ifos_file_write ?fd (Some buf) (int cs) k1 = Some (r, k2)" "m \<le> cs" "stored ?fd ?f (take m buf) k1 k2"
      "calm k1 \<longrightarrow> r = int cs \<and> m = cs \<and> calm k2"
      using write_spec [OF k1(1-4) assms(3) k1(5)] by blast
    have "store_ok (e\<lparr>kern := k2\<rparr>) cs cc ecc path (file_write d (cid * cs) (take m buf))"
      by (rule store_kern [OF st, of _ "?f\<lparr>opos := cid * cs + length (take m buf)\<rparr>"])
        (use w(2,3) f k1 bnd in \<open>auto simp: stored_def content_def length_file_write\<close>)
    then show ?thesis using True w seek(2,3) unfold
      by (intro exI [of _ "if r = int cs then NSP_STATUS_SUCCESSFUL else r"] exI [of _ m] exI [of _ "e\<lparr>kern := k2\<rparr>"])
        (auto simp: NSP_STATUS_SUCCESSFUL_def stored_def advanced_def)
  qed
qed

lemma read_at_spec:
  assumes st: "store_ok e cs cc ecc path d" and "cid < cc" "amount (int cs) = int n" "0 < n" "n \<le> cs" "n \<le> length buf"
  shows "\<exists>r m e'. read_at (int cid) (Some buf) amount e = Some (r, Some (take m (cluster_of d cs cid) @ drop m buf), e') \<and> m \<le> n \<and>
    store_ok e' cs cc ecc path d \<and> mgr e' = mgr e \<and> mallocs e' = mallocs e \<and> next_fd (kern e') = next_fd (kern e) \<and> (r = 0 \<and> m \<noteq> n \<longrightarrow> \<not> calm (kern e)) \<and>
    (calm (kern e) \<longrightarrow> r = 0 \<and> m = n \<and> calm (kern e'))"
proof -
  let ?fd = "mgr_fd (mgr e)"
  obtain f where f: "fds (kern e) ?fd = Some f" "owrite f" "opath f = path" "files (kern e) path = Some d" "length d = cs * cc"
    using st by (auto simp: store_ok_def)
  obtain b where b: "the_first_cluster (mgr e) = Some b" "hrd_cluster_size b = Some (int cs)"
    using st by (auto simp: store_ok_def header_def)
  have bnd: "cid * cs + cs \<le> length d" using cluster_bound [OF assms(2), of cs] f(5) by simp
  obtain s k1 where s: "ifos_file_seek ?fd (int (cid * cs)) (kern e) = (s, k1)" by fastforce
  note seek = seek_spec [OF f(1) of_nat_0_le_iff s]
  have unfold: "read_at (int cid) (Some buf) amount e =
      (if \<not> NSP_SUCCESS s then Some (s, Some buf, e\<lparr>kern := k1\<rparr>)
       else do { (rdcb, buffer, k) \<leftarrow> ifos_file_read ?fd (Some buf) (int n) k1;
                 Some (if rdcb = int n then NSP_STATUS_SUCCESSFUL else rdcb, buffer, e\<lparr>kern := k\<rparr>) })"
    using store_ready [OF st] s b assms(3) unfolding read_at_def store_offset [OF st assms(2)] by simp
  show ?thesis
  proof (cases "NSP_SUCCESS s")
    case False
    have "store_ok (e\<lparr>kern := k1\<rparr>) cs cc ecc path d"
      by (rule store_kern [OF st, of _ f]) (use f seek(1) seek(5) [OF False] in auto)
    then show ?thesis using False seek(2,3) unfold by (intro exI [of _ s] exI [of _ 0] exI [of _ "e\<lparr>kern := k1\<rparr>"]) auto
  next
    case True
    let ?f = "f\<lparr>opos := cid * cs\<rparr>"
    have "fds k1 ?fd = Some ?f" using seek(4) [OF True] by (simp del: of_nat_mult)
    moreover have "opos ?f + n \<le> length d" using bnd assms(5) by simp
    ultimately have k1: "fds k1 ?fd = Some ?f" "files k1 (opath ?f) = Some d" "opos ?f + n \<le> length d"
      using seek(1) f by simp_all
    obtain r m k2 where w: "ifos_file_read ?fd (Some buf) (int n) k1 = Some (r, Some (take m (drop (cid * cs) d) @ drop m buf), k2)"
      "m \<le> n" "advanced ?fd ?f m k1 k2" "r = int n \<longrightarrow> m = n" "calm k1 \<longrightarrow> r = int n \<and> calm k2"
      using read_spec [OF k1 assms(6,4)] by auto
    have "store_ok (e\<lparr>kern := k2\<rparr>) cs cc ecc path d"
      by (rule store_kern [OF st, of _ "?f\<lparr>opos := cid * cs + m\<rparr>"]) (use w(3) f k1 in \<open>auto simp: advanced_def\<close>)
    moreover have "take m (cluster_of d cs cid) = take m (drop (cid * cs) d)" using w(2) assms(5) by (simp add: cluster_of_def min_def)
    ultimately show ?thesis using True w seek(2,3) unfold
      by (intro exI [of _ "if r = int n then NSP_STATUS_SUCCESSFUL else r"] exI [of _ m] exI [of _ "e\<lparr>kern := k2\<rparr>"])
        (auto simp: NSP_STATUS_SUCCESSFUL_def stored_def advanced_def)
  qed
qed


section \<open>Growing the file\<close>

declare expand_loop.simps [simp del]

lemma expand_loop_spec:
  assumes "fds k fd = Some f" "owrite f" "files k (opath f) = Some d" "opos f \<le> length d" "calm k"
  shows "\<exists>r' k'. expand_loop fd r k = Some (Inr r', k') \<and> unat r' = unat r mod 65536 \<and>
    stored fd f (replicate (unat r - unat r mod 65536) 0) k k' \<and> calm k'"
  using assms
proof (induction fd r k arbitrary: f d rule: expand_loop.induct)
  case (1 fd r k)
  note unfold = expand_loop.simps [of fd r k]
  show ?case
  proof (cases "65536 \<le> r")
    case False
    then have "unat r < 65536" by (simp add: word_le_nat_alt)
    then show ?thesis using False "1.prems" stored_nothing [OF "1.prems"(1,3,4) same_files_refl] by (simp add: unfold)
  next
    case True
    let ?z = "replicate 65536 (0 :: u8)"
    obtain k1 where w: "ifos_file_write fd (Some ?z) 65536 k = Some (65536, k1)" "stored fd f ?z k k1" "calm k1"
      using write_spec [OF "1.prems"(1-4), of 65536 ?z] "1.prems"(5) by auto
    let ?f = "f\<lparr>opos := opos f + 65536\<rparr>"
    have k1: "fds k1 fd = Some ?f" "owrite ?f" "files k1 (opath ?f) = Some (file_write d (opos f) ?z)"
      "opos ?f \<le> length (file_write d (opos f) ?z)"
      using w(2) "1.prems" by (auto simp: stored_def content_def length_file_write)
    have u: "unat (r - 65536) = unat r - 65536" "65536 \<le> unat r" using True by (simp_all add: unat_sub word_le_nat_alt)
    obtain r' k' where IH: "expand_loop fd (r - 65536) k1 = Some (Inr r', k')" "unat r' = unat (r - 65536) mod 65536"
      "stored fd ?f (replicate (unat (r - 65536) - unat (r - 65536) mod 65536) 0) k1 k'" "calm k'"
      using "1.IH" [OF True w(1) refl _ k1 w(3)] by auto
    have m: "unat (r - 65536) mod 65536 = unat r mod 65536" using u by (simp add: le_mod_geq)
    have "65536 + (unat r - 65536 - unat r mod 65536) = unat r - unat r mod 65536"
      using u(2) m unfolding u(1) using mod_le_divisor [of 65536 "unat r - 65536"] mod_less_eq_dividend [of "unat r - 65536" 65536] by linarith
    then have "?z @ replicate (unat (r - 65536) - unat (r - 65536) mod 65536) 0 = replicate (unat r - unat r mod 65536) 0"
      using m unfolding u(1) by (simp add: replicate_add [symmetric])
    moreover have "stored fd (f\<lparr>opos := opos f + length ?z\<rparr>) (replicate (unat (r - 65536) - unat (r - 65536) mod 65536) 0) k1 k'"
      using IH(3) by (simp only: length_replicate)
    ultimately have "stored fd f (replicate (unat r - unat r mod 65536) 0) k k'" using stored_stored [OF w(2)] by metis
    moreover have "expand_loop fd r k = Some (Inr r', k')" using True w(1) IH(1) by (simp add: unfold)
    ultimately show ?thesis using IH(2,4) m by auto
  qed
qed

text \<open>No scheduled allocation fails.\<close>

definition roomy :: "evfs_env \<Rightarrow> bool" where
  "roomy e \<longleftrightarrow> list_all (\<lambda>m. m \<noteq> None) (mallocs e)"

lemma malloc_roomy:
  assumes "roomy e"
  shows "\<exists>b ms. ztrymalloc n e = (Some b, e\<lparr>mallocs := ms\<rparr>) \<and> length b = nat n \<and> roomy (e\<lparr>mallocs := ms\<rparr>)"
proof (cases "mallocs e")
  case Nil
  then show ?thesis using assms by (intro exI [of _ "replicate (nat n) 0"] exI [of _ "[]"]) (simp add: ztrymalloc_def roomy_def)
next
  case (Cons m ms)
  then show ?thesis using assms by (cases m) (auto simp: ztrymalloc_def roomy_def)
qed

lemma flush_spec:
  assumes "fds k fd = Some f" "0 < fd" "calm k"
  shows "\<exists>k'. ifos_file_flush fd k = (0, k') \<and> calm k' \<and> files k' = files k \<and> fds k' = fds k \<and> next_fd k' = next_fd k"
proof -
  obtain c k1 where c: "take_ctl k = (c, k1)" by fastforce
  show ?thesis using assms c take_ctl_cases [OF c] by (auto simp: ifos_file_flush_def sys_fsync_def status_defs)
qed

text \<open>The kernel \<^term>\<open>k'\<close> differs from \<^term>\<open>k\<close> in the schedule, the position of \<^term>\<open>fd\<close> and the content of its file.\<close>

definition rewritten :: "int \<Rightarrow> ofile \<Rightarrow> bytes \<Rightarrow> kernel \<Rightarrow> kernel \<Rightarrow> bool" where
  "rewritten fd f d k k' \<longleftrightarrow> (\<exists>p. fds k' = (fds k)(fd \<mapsto> f\<lparr>opos := p\<rparr>)) \<and> files k' = (files k)(opath f \<mapsto> d) \<and>
     next_fd k' = next_fd k \<and> calm k'"

lemma stored_rewritten:
  assumes "stored fd (f\<lparr>opos := p\<rparr>) bs k1 k2" "fds k1 = (fds k)(fd \<mapsto> f\<lparr>opos := p\<rparr>)" "files k1 = files k" "next_fd k1 = next_fd k"
    and "files k (opath f) = Some d" "calm k2"
  shows "rewritten fd f (file_write d p bs) k k2"
  using assms by (auto simp: rewritten_def stored_def content_def)

lemma file_write_end: "file_write d (length d) bs = d @ bs"
  by (simp add: file_write_def)

lemma rewritten_schedule:
  "rewritten fd f d k k1 \<Longrightarrow> files k2 = files k1 \<Longrightarrow> fds k2 = fds k1 \<Longrightarrow> next_fd k2 = next_fd k1 \<Longrightarrow> calm k2 \<Longrightarrow>
   rewritten fd f d k k2"
  by (simp add: rewritten_def)

lemma expand_tail:
  assumes "fds k fd = Some f" "owrite f" "files k (opath f) = Some d" "opos f \<le> length d" "calm k" "roomy e" "kern e = k"
    "unat (r :: u32) = n" "n < 65536"
  shows "\<exists>k' ms. expand_remainder fd (sint r) 0 e = Some (False, 0, e\<lparr>kern := k', mallocs := ms\<rparr>) \<and>
     stored fd f (replicate n 0) k k' \<and> calm k' \<and> roomy (e\<lparr>mallocs := ms\<rparr>)"
proof (cases "n = 0")
  case True
  then have "\<not> sint r > 0" using assms(8) by (simp add: unat_eq_0)
  then show ?thesis using True stored_nothing [OF assms(1,3,4) same_files_refl] assms
    by (intro exI [of _ k] exI [of _ "mallocs e"]) (simp add: expand_remainder_def)
next
  case False
  then have s: "sint r = int n" using sint_small [of r] assms(8,9) by simp
  obtain b ms where m: "ztrymalloc (int n) e = (Some b, e\<lparr>mallocs := ms\<rparr>)" "length b = n" "roomy (e\<lparr>mallocs := ms\<rparr>)"
    using malloc_roomy [OF assms(6), of "int n"] by auto
  obtain k' where "ifos_file_write fd (Some (replicate n 0)) (int n) k = Some (int n, k')" "stored fd f (replicate n 0) k k'" "calm k'"
    using write_spec [OF assms(1-4), of n "replicate n 0"] False assms(5) by auto
  then show ?thesis using m False assms(7) unfolding s
    by (intro exI [of _ k'] exI [of _ ms]) (auto simp: expand_remainder_def NSP_STATUS_SUCCESSFUL_def)
qed

lemma expand_file_spec:
  assumes "fds (kern e) fd = Some f" "owrite f" "files (kern e) (opath f) = Some d" "calm (kern e)" "roomy e" "0 < fd"
    and "length d + n < 2 ^ 31"
  shows "\<exists>k ms. evfs_cluster_expand_file fd cs (int (length d)) (int (length d + n)) e = Some (0, e\<lparr>kern := k, mallocs := ms\<rparr>) \<and>
    roomy (e\<lparr>mallocs := ms\<rparr>) \<and> rewritten fd f (d @ replicate n 0) (kern e) k"
proof -
  let ?f = "f\<lparr>opos := length d\<rparr>"
  have n: "n < 2 ^ 31" using assms(7) by simp
  then have "int n < 2 ^ 31" by (metis of_nat_less_numeral_power_cancel_iff)
  then have c: "c_int (int n) = Some (int n)" by (simp add: c_int_def)
  obtain s k1 where s: "ifos_file_seek fd (int (length d)) (kern e) = (s, k1)" by fastforce
  note seek = seek_spec [OF assms(1) of_nat_0_le_iff s]
  have s0: "NSP_SUCCESS s" "s = 0" "calm k1" using seek(3,6) assms(4) by auto
  have k1: "fds k1 = (fds (kern e))(fd \<mapsto> ?f)" "files k1 = files (kern e)" "next_fd k1 = next_fd (kern e)"
    using seek(1,2,4) s0 by simp_all
  have f1: "fds k1 fd = Some ?f" "owrite ?f" "files k1 (opath ?f) = Some d" "opos ?f \<le> length d" using k1 assms(2,3) by simp_all
  have u: "unat (word_of_int (int n) :: u32) = n" using n by (simp add: unat_of_nat)
  obtain r k2 where l: "expand_loop fd (word_of_int (int n)) k1 = Some (Inr r, k2)" "unat r = n mod 65536"
    "stored fd ?f (replicate (n - n mod 65536) 0) k1 k2" "calm k2"
    using expand_loop_spec [OF f1 s0(3), of "word_of_int (int n)"] unfolding u by blast
  let ?g = "?f\<lparr>opos := opos ?f + length (replicate (n - n mod 65536) (0 :: u8))\<rparr>"
  have f2: "fds k2 fd = Some ?g" "owrite ?g" "files k2 (opath ?g) = Some (file_write d (length d) (replicate (n - n mod 65536) 0))"
    "opos ?g \<le> length (file_write d (length d) (replicate (n - n mod 65536) 0))"
    using l(3) f1(2,3) by (auto simp: stored_def content_def length_file_write)
  obtain k3 ms where t: "expand_remainder fd (sint r) 0 (e\<lparr>kern := k2\<rparr>) = Some (False, 0, e\<lparr>kern := k3, mallocs := ms\<rparr>)"
    "stored fd ?g (replicate (n mod 65536) 0) k2 k3" "calm k3" "roomy (e\<lparr>mallocs := ms\<rparr>)"
    using expand_tail [OF f2 l(4), of "e\<lparr>kern := k2\<rparr>" r "n mod 65536"] assms(5) l(2) by (auto simp: roomy_def)
  have "replicate (n - n mod 65536) 0 @ replicate (n mod 65536) 0 = replicate n (0 :: u8)" by (simp add: replicate_add [symmetric])
  then have "stored fd ?f (replicate n 0) k1 k3" using stored_stored [OF l(3) t(2)] by simp
  then have w: "rewritten fd f (d @ replicate n 0) (kern e) k3"
    using stored_rewritten [OF _ k1 assms(3) t(3)] by (simp add: file_write_end)
  then have "\<exists>g. fds k3 fd = Some g" by (auto simp: rewritten_def)
  then obtain k4 where fl: "ifos_file_flush fd k3 = (0, k4)" "calm k4" "files k4 = files k3" "fds k4 = fds k3" "next_fd k4 = next_fd k3"
    using flush_spec [OF _ assms(6) t(3)] by blast
  have "evfs_cluster_expand_file fd cs (int (length d)) (int (length d + n)) e = Some (0, e\<lparr>kern := k4, mallocs := ms\<rparr>)"
    unfolding evfs_cluster_expand_file_def using c s s0 l(1) t(1) fl(1) by (simp add: NSP_SUCCESS_def)
  then show ?thesis using t(4) rewritten_schedule [OF w fl(3,4,5,2)] by blast
qed


lemma header_count:
  assumes "header b cs cc ecc" "put_int b 20 (int cc') = Some b'" "cc' < 2 ^ 31"
  shows "header b' cs cc' ecc"
proof -
  have "int cc' < 2 ^ 31" using assms(3) by (metis of_nat_less_numeral_power_cancel_iff)
  then have "to_int (int cc') = int cc'" by (intro to_int_small) auto
  then show ?thesis using assms(1) get_put_same [OF assms(2)] get_put_other [OF assms(2)] by (simp add: header_def)
qed

lemma int_less_2_31: "n < 2 ^ 31 \<Longrightarrow> int n < 2 ^ 31"
  by (metis of_nat_less_numeral_power_cancel_iff)

lemma c_int_of_nat: "n < 2 ^ 31 \<Longrightarrow> c_int (int n) = Some (int n)"
  using int_less_2_31 [of n] by (simp add: c_int_def)

lemma to_int_of_nat: "n < 2 ^ 31 \<Longrightarrow> to_int (int n) = int n"
  using int_less_2_31 [of n] by (intro to_int_small) auto

lemma factor_less: "cs * n < b \<Longrightarrow> 0 < cs \<Longrightarrow> n < b" for cs n b :: nat
  by (cases cs) auto

text \<open>
  Growing the store appends zero clusters and rewrites cluster 0 with the head record in memory.
\<close>

lemma expand_spec:
  assumes st: "store_ok e cs cc ecc path d" and "calm (kern e)" "roomy e" "cs * (cc + ecc) < 2 ^ 31"
  shows "\<exists>e' b. evfs_hard_expand e = Some (int ecc, Some (int cc), e') \<and> length b = cs \<and> header b cs (cc + ecc) ecc \<and>
    store_ok e' cs (cc + ecc) ecc path (file_write (d @ replicate (cs * ecc) 0) 0 b) \<and> calm (kern e') \<and> roomy e' \<and>
    next_fd (kern e') = next_fd (kern e)"
proof -
  let ?fd = "mgr_fd (mgr e)" and ?d = "d @ replicate (cs * ecc) (0 :: u8)"
  obtain f where f: "fds (kern e) ?fd = Some f" "owrite f" "opath f = path" "files (kern e) (opath f) = Some d" "0 < ?fd"
    using st by (auto simp: store_ok_def)
  obtain b where b: "the_first_cluster (mgr e) = Some b" "length b = cs" "header b cs cc ecc"
    using st by (auto simp: store_ok_def)
  have g: "length d = cs * cc" "fsize (mgr e) = int (length d)" "32 \<le> cs" using st by (auto simp: store_ok_def)
  have tot: "length d + cs * ecc = cs * (cc + ecc)" using g(1) by (simp add: distrib_left)
  have small: "cs * ecc < 2 ^ 31" "length d < 2 ^ 31" "cc + ecc < 2 ^ 31"
    using assms(4) tot factor_less [OF assms(4)] g(3) by simp_all
  obtain k ms where x: "evfs_cluster_expand_file ?fd (int cs) (int (length d)) (int (length d + cs * ecc)) e = Some (0, e\<lparr>kern := k, mallocs := ms\<rparr>)"
    "roomy (e\<lparr>mallocs := ms\<rparr>)" "rewritten ?fd f ?d (kern e) k"
    using expand_file_spec [OF f(1,2,4) assms(2,3) f(5), of "cs * ecc" "int cs"] assms(4) tot by auto
  obtain b' where b': "put_int b 20 (int (cc + ecc)) = Some b'" "length b' = cs"
    using put_int_Some [of 20 b "int (cc + ecc)"] b(2) g(3) by auto
  note h = header_count [OF b(3) b'(1) small(3)]
  define e2 where "e2 = e\<lparr>kern := k, mallocs := ms, mgr := (mgr e)\<lparr>fsize := fsize (mgr e) + int (cs * ecc), the_first_cluster := Some b'\<rparr>\<rparr>"
  have "store_ok e2 cs (cc + ecc) ecc path ?d"
    using st x(3) f h b' assms(4) tot g(2) unfolding e2_def store_ok_def rewritten_def by (auto simp: distrib_left)
  then obtain e3 where w: "evfs_hard_write_cluster 0 (Some b') e2 = Some (0, e3)" "store_ok e3 cs (cc + ecc) ecc path (file_write ?d 0 b')"
    "mallocs e3 = ms" "calm (kern e3)" "next_fd (kern e3) = next_fd k"
    using write_cluster_spec [of e2 cs "cc + ecc" ecc path ?d 0 b'] b'(2) x(3) st
    by (auto simp: e2_def rewritten_def store_ok_def)
  have "c_int (int ecc * int cs) = Some (int (cs * ecc))" using c_int_of_nat [OF small(1)] by (simp add: mult.commute)
  moreover have "to_int (fsize (mgr e)) = int (length d)" unfolding g(2) by (rule to_int_of_nat [OF small(2)])
  moreover have "to_int (fsize (mgr e) + int (cs * ecc)) = int (length d + cs * ecc)"
    unfolding g(2) of_nat_add [symmetric] by (rule to_int_of_nat) (use tot assms(4) in simp)
  moreover have "c_int (int cc + int ecc) = Some (int (cc + ecc))" using c_int_of_nat [OF small(3)] by simp
  ultimately have "evfs_hard_expand e = Some (int ecc, Some (int cc), e3)"
    using b(1,3) store_ready [OF st] x(1) b'(1) w(1) unfolding evfs_hard_expand_def header_def e2_def
    by (simp add: NSP_SUCCESS_def)
  then show ?thesis using w b'(2) h x(2,3) by (auto simp: roomy_def rewritten_def)
qed


section \<open>Creating, closing and opening\<close>

lemma create_hrd_spec:
  assumes "length z = n" "28 \<le> n" "cs < 2 ^ 31" "cc < 2 ^ 31"
  shows "\<exists>c. create_hrd z (int cs) (int cc) = Some c \<and> length c = n \<and> header c cs cc cc"
proof -
  obtain c1 where 1: "put_int z 0 (int sizeof_hrd) = Some c1" "length c1 = n" using put_int_Some [of 0 z] assms by auto
  obtain c2 where 2: "put_int c1 4 0 = Some c2" "length c2 = n" using put_int_Some [of 4 c1] 1 assms by auto
  obtain c3 where 3: "put_int c2 8 0 = Some c3" "length c3 = n" using put_int_Some [of 8 c2] 2 assms by auto
  obtain c4 where 4: "put_int c3 20 (int cc) = Some c4" "length c4 = n" using put_int_Some [of 20 c3] 3 assms by auto
  obtain c5 where 5: "put_int c4 16 (int cs) = Some c5" "length c5 = n" using put_int_Some [of 16 c4] 4 assms by auto
  obtain c6 where 6: "put_int c5 24 (int cc) = Some c6" "length c6 = n" using put_int_Some [of 24 c5] 5 assms by auto
  obtain c7 where 7: "put_int c6 12 EVFS_MAGIC = Some c7" "length c7 = n" using put_int_Some [of 12 c6] 6 assms by auto
  have "to_int (int sizeof_hrd) = int sizeof_hrd" "to_int 0 = 0" "to_int EVFS_MAGIC = EVFS_MAGIC"
    by (rule to_int_small; simp add: sizeof_hrd_def EVFS_MAGIC_def)+
  then have "header c7 cs cc cc"
    using get_put_same [OF 1(1)] get_put_same [OF 2(1)] get_put_same [OF 3(1)] get_put_same [OF 4(1)] get_put_same [OF 5(1)]
      get_put_same [OF 6(1)] get_put_same [OF 7(1)] to_int_of_nat [OF assms(3)] to_int_of_nat [OF assms(4)]
    by (simp add: header_def get_put_other [OF 2(1)] get_put_other [OF 3(1)] get_put_other [OF 4(1)] get_put_other [OF 5(1)]
        get_put_other [OF 6(1)] get_put_other [OF 7(1)])
  then show ?thesis using 1 2 3 4 5 6 7 by (auto simp: create_hrd_def)
qed

lemma open_spec_create:
  assumes "calm k"
  shows "\<exists>k'. ifos_file_open (Some path) (FF_WRACCESS + FF_CREATE_ALWAYS) k = (0, Some (next_fd k), k') \<and> calm k' \<and>
    files k' = (files k)(path \<mapsto> []) \<and> fds k' = (fds k)(next_fd k \<mapsto> \<lparr>opath = path, opos = 0, owrite = True\<rparr>) \<and> next_fd k' = next_fd k + 1"
proof -
  obtain c k1 where c: "take_ctl k = (c, k1)" by fastforce
  show ?thesis using take_ctl_cases [OF c] assms
    by (auto simp: ifos_file_open_def sys_open_def c FF_WRACCESS_def FF_CREATE_ALWAYS_def FF_OPEN_EXISTING_def FF_OPEN_ALWAYS_def
        FF_CREATE_NEWONE_def NSP_STATUS_SUCCESSFUL_def calm_def quiet_def split: option.split)
qed

lemma open_spec_existing:
  assumes "calm k" "files k path = Some d"
  shows "\<exists>k'. ifos_file_open (Some path) (FF_WRACCESS + FF_OPEN_EXISTING) k = (0, Some (next_fd k), k') \<and> calm k' \<and>
    files k' = files k \<and> fds k' = (fds k)(next_fd k \<mapsto> \<lparr>opath = path, opos = 0, owrite = True\<rparr>) \<and> next_fd k' = next_fd k + 1"
proof -
  obtain c k1 where c: "take_ctl k = (c, k1)" by fastforce
  show ?thesis using take_ctl_cases [OF c] assms
    by (auto simp: ifos_file_open_def sys_open_def c FF_WRACCESS_def FF_CREATE_ALWAYS_def FF_OPEN_EXISTING_def FF_OPEN_ALWAYS_def
        FF_CREATE_NEWONE_def NSP_STATUS_SUCCESSFUL_def calm_def quiet_def split: option.split)
qed

text \<open>The finished manager of a file that was created or opened.\<close>

definition ready_mgr :: "int \<Rightarrow> bytes \<Rightarrow> nat \<Rightarrow> nat \<Rightarrow> cluster_mgr" where
  "ready_mgr fd b cs cc = \<lparr>mgr_fd = fd, the_first_cluster = Some b, evhrd = True, ready = kEvmgrReady,
     max_data_seg_size = int cs - int sizeof_cluster, fsize = int (cs * cc)\<rparr>"

lemma store_ready_mgr:
  assumes "mgr e = ready_mgr fd b cs cc" "length b = cs" "header b cs cc ecc" "fds (kern e) fd = Some f" "owrite f" "opath f = path"
    and "files (kern e) path = Some d" "length d = cs * cc" "0 < fd" "32 \<le> cs" "cs \<le> 4096" "0 < cc" "cs * cc < 2 ^ 31"
  shows "store_ok e cs cc ecc path d"
  using assms by (auto simp: store_ok_def ready_mgr_def)

lemma finish_ready: "mgr e = ready_mgr fd b cs cc \<Longrightarrow> finish_init (st, fd, e) = (st, e)"
  by (simp add: finish_init_def ready_mgr_def)


lemma create_spec:
  assumes "ready (mgr e) = kEvmgrNotReady" "calm (kern e)" "roomy e" "0 < next_fd (kern e)"
    and "is_powerof_2 (of_nat cs :: u32)" "32 \<le> cs" "cs \<le> 4096" "0 < cc" "cs * cc < 2 ^ 30"
  shows "\<exists>e' b. evfs_hard_create (Some path) (int cs) (int cc) e = Some (0, e') \<and> length b = cs \<and> header b cs cc cc \<and>
    store_ok e' cs cc cc path (b @ replicate (cs * (cc - 1)) 0) \<and> calm (kern e') \<and> roomy e' \<and> 0 < next_fd (kern e')"
proof -
  let ?e = "set_ready kEvmgrInitializing e" and ?fd = "next_fd (kern e)"
  have e: "kern ?e = kern e" "roomy ?e" using assms(3) by (simp_all add: set_ready_def roomy_def)
  have tot: "cs + cs * (cc - 1) = cs * cc" using assms(8) by (cases cc) auto
  have cc: "cc < 2 ^ 31" "cs < 2 ^ 31" "cs * cc < 2 ^ 31" using assms(6,7,9) factor_less [OF assms(9)] by auto
  obtain z ms where m: "ztrymalloc (int cs) ?e = (Some z, ?e\<lparr>mallocs := ms\<rparr>)" "length z = cs" "roomy (?e\<lparr>mallocs := ms\<rparr>)"
    using malloc_roomy [OF e(2), of "int cs"] by auto
  obtain k1 where o: "ifos_file_open (Some path) (FF_WRACCESS + FF_CREATE_ALWAYS) (kern e) = (0, Some ?fd, k1)" "calm k1"
    "files k1 = (files (kern e))(path \<mapsto> [])" "fds k1 = (fds (kern e))(?fd \<mapsto> \<lparr>opath = path, opos = 0, owrite = True\<rparr>)" "next_fd k1 = ?fd + 1"
    using open_spec_create [OF assms(2), of path] by blast
  obtain b where b: "create_hrd (replicate cs 0) (int cs) (int cc) = Some b" "length b = cs" "header b cs cc cc"
    using create_hrd_spec [of "replicate cs 0" cs cs cc] assms(6) cc by auto
  let ?f = "\<lparr>opath = path, opos = 0, owrite = True\<rparr>"
  obtain k2 where w: "ifos_file_write ?fd (Some b) (int cs) k1 = Some (int cs, k2)" "stored ?fd ?f b k1 k2" "calm k2"
    using write_spec [of k1 ?fd ?f "[]" cs b] o b(2) assms(6) by auto
  let ?g = "?f\<lparr>opos := cs\<rparr>" and ?e2 = "?e\<lparr>mallocs := ms, kern := k2\<rparr>"
  have k2: "fds (kern ?e2) ?fd = Some ?g" "owrite ?g" "files (kern ?e2) (opath ?g) = Some b" "calm (kern ?e2)" "roomy ?e2" "next_fd k2 = ?fd + 1"
    using w o m(3) b(2) by (auto simp: stored_def content_def file_write_def roomy_def)
  have "length b + cs * (cc - 1) < 2 ^ 31" using b(2) tot cc(3) by simp
  from expand_file_spec [OF k2(1-5) assms(4) this, of "int cs"] obtain k3 ms' where
    x: "evfs_cluster_expand_file ?fd (int cs) (int cs) (int (cs * cc)) ?e2 = Some (0, ?e2\<lparr>kern := k3, mallocs := ms'\<rparr>)"
    "roomy (?e2\<lparr>mallocs := ms'\<rparr>)" "rewritten ?fd ?g (b @ replicate (cs * (cc - 1)) 0) k2 k3"
    unfolding b(2) tot by auto
  define e3 where "e3 = ?e2\<lparr>kern := k3, mallocs := ms', mgr := ready_mgr ?fd b cs cc\<rparr>"
  have "c_int (int cs * int cc) = Some (int (cs * cc))" using c_int_of_nat [OF cc(3)] by simp
  moreover have "\<not> MAXIMUM_FILE_SIZE \<le> int (cs * cc)" using assms(9) unfolding MAXIMUM_FILE_SIZE_def
    by (metis not_less of_nat_less_numeral_power_cancel_iff)
  ultimately have "create_body (Some path) (int cs) (int cc) ?e = Some (0, ?fd, e3)"
    unfolding create_body_def using assms(5-7) m(1,2) o(1) b(1) w(1) x(1) e(1)
    by (simp add: MINIMUM_CLUSTER_SIZE_def MAXIMUM_CLUSTER_SIZE_def NSP_SUCCESS_def NSP_STATUS_SUCCESSFUL_def e3_def ready_mgr_def Let_def)
  then have "evfs_hard_create (Some path) (int cs) (int cc) e = Some (0, e3)"
    using assms(1) finish_ready [of e3 ?fd b cs cc 0] by (simp add: evfs_hard_create_def e3_def)
  moreover obtain p where p: "fds k3 = (fds k2)(?fd \<mapsto> ?g\<lparr>opos := p\<rparr>)" using x(3) by (auto simp: rewritten_def)
  have "store_ok e3 cs cc cc path (b @ replicate (cs * (cc - 1)) 0)"
    by (rule store_ready_mgr [OF _ b(2,3), where f = "?g\<lparr>opos := p\<rparr>"])
      (use x(3) p k2 assms cc b(2) tot in \<open>auto simp: e3_def rewritten_def\<close>)
  ultimately show ?thesis using b x k2(6) assms(4) by (auto simp: e3_def roomy_def rewritten_def)
qed


lemma close_spec:
  assumes "store_ok e cs cc ecc path d" "calm (kern e)"
  shows "ready (mgr (evfs_hard_close e)) = kEvmgrNotReady" "files (kern (evfs_hard_close e)) = files (kern e)"
    "calm (kern (evfs_hard_close e))" "mallocs (evfs_hard_close e) = mallocs e" "next_fd (kern (evfs_hard_close e)) = next_fd (kern e)"
proof -
  obtain f where f: "fds (kern e) (mgr_fd (mgr e)) = Some f" "0 < mgr_fd (mgr e)" using assms(1) by (auto simp: store_ok_def)
  obtain k where k: "ifos_file_flush (mgr_fd (mgr e)) (kern e) = (0, k)" "calm k" "files k = files (kern e)" "next_fd k = next_fd (kern e)"
    using flush_spec [OF f assms(2)] by blast
  show "ready (mgr (evfs_hard_close e)) = kEvmgrNotReady" "files (kern (evfs_hard_close e)) = files (kern e)"
    "calm (kern (evfs_hard_close e))" "mallocs (evfs_hard_close e) = mallocs e" "next_fd (kern (evfs_hard_close e)) = next_fd (kern e)"
    using f k by (simp_all add: evfs_hard_close_def set_ready_def ifos_file_close_def sys_close_def calm_def quiet_def)
qed

lemma fgetsize_spec:
  assumes "fds k fd = Some f" "files k (opath f) = Some d" "calm k"
  shows "\<exists>k'. ifos_file_fgetsize fd k = (int (length d), k') \<and> calm k' \<and> files k' = files k \<and> fds k' = fds k \<and> next_fd k' = next_fd k"
proof -
  obtain c k1 where c: "take_ctl k = (c, k1)" by fastforce
  show ?thesis using assms c take_ctl_cases [OF c] by (auto simp: ifos_file_fgetsize_def sys_fstat_def content_def)
qed

text \<open>The guide is the prefix of the file that holds the head record.\<close>

lemma header_guide: "header d cs cc ecc \<Longrightarrow> 92 \<le> length d \<Longrightarrow> header (take 92 d) cs cc ecc"
  by (simp add: header_def get_int_take)

lemma header_block:
  assumes "header g cs cc ecc" "length g = 92" "92 \<le> length z"
  shows "\<exists>b. mem_write z 0 g = Some b \<and> length b = length z \<and> header b cs cc ecc"
  using assms by (simp add: mem_write_def header_def get_int_append)

lemma legal_spec:
  assumes "header g cs cc ecc" "32 \<le> cs" "cs \<le> 4096" "cs * cc < 2 ^ 31"
  shows "evfs_check_hard_legal g (int (cs * cc)) = Some 0"
  using assms c_int_of_nat [OF assms(4)]
  by (simp add: evfs_check_hard_legal_def header_def MINIMUM_CLUSTER_SIZE_def MAXIMUM_CLUSTER_SIZE_def NSP_STATUS_SUCCESSFUL_def)

lemma open_body_spec:
  assumes "calm (kern e)" "roomy e" "files (kern e) path = Some d" "length d = cs * cc" "header d cs cc ecc"
    and "32 \<le> cs" "cs \<le> 4096" "92 \<le> length d" "cs * cc \<le> 2 ^ 30"
  shows "\<exists>z k ms. length z = cs \<and> open_body (Some path) e = (case mem_write z 0 (take 92 d) of
      None \<Rightarrow> None | Some b \<Rightarrow> Some (0, next_fd (kern e), e\<lparr>kern := k, mallocs := ms, mgr := ready_mgr (next_fd (kern e)) b cs cc\<rparr>)) \<and>
    calm k \<and> roomy (e\<lparr>mallocs := ms\<rparr>) \<and> files k = files (kern e) \<and> next_fd k = next_fd (kern e) + 1 \<and>
    fds k = (fds (kern e))(next_fd (kern e) \<mapsto> \<lparr>opath = path, opos = 92, owrite = True\<rparr>)"
proof -
  let ?fd = "next_fd (kern e)" and ?f = "\<lparr>opath = path, opos = 0, owrite = True\<rparr>"
  have len: "cs * cc < 2 ^ 31" using assms(9) by simp
  obtain k1 where o: "ifos_file_open (Some path) (FF_WRACCESS + FF_OPEN_EXISTING) (kern e) = (0, Some ?fd, k1)" "calm k1"
    "files k1 = files (kern e)" "fds k1 = (fds (kern e))(?fd \<mapsto> ?f)" "next_fd k1 = ?fd + 1"
    using open_spec_existing [OF assms(1,3)] by blast
  obtain k2 where s: "ifos_file_fgetsize ?fd k1 = (int (length d), k2)" "calm k2" "files k2 = files k1" "fds k2 = fds k1" "next_fd k2 = next_fd k1"
    using fgetsize_spec [of k1 ?fd ?f d] o assms(3) by auto
  let ?e1 = "e\<lparr>kern := k2\<rparr>"
  have "roomy ?e1" using assms(2) by (simp add: roomy_def)
  then obtain z ms where m: "ztrymalloc 92 ?e1 = (Some z, ?e1\<lparr>mallocs := ms\<rparr>)" "length z = 92" "roomy (?e1\<lparr>mallocs := ms\<rparr>)"
    using malloc_roomy [of ?e1 92] by auto
  obtain k3 where r: "ifos_file_read ?fd (Some z) 92 k2 = Some (92, Some (take 92 d), k3)" "calm k3" "advanced ?fd ?f 92 k2 k3"
    using read_spec [of k2 ?fd ?f d 92 z] o s assms(3) m(2) assms(8) by auto
  let ?e2 = "e\<lparr>mallocs := ms, kern := k3\<rparr>"
  have "roomy ?e2" using m(3) by (simp add: roomy_def)
  then obtain z2 ms2 where m2: "ztrymalloc (int cs) ?e2 = (Some z2, ?e2\<lparr>mallocs := ms2\<rparr>)" "length z2 = cs" "roomy (?e2\<lparr>mallocs := ms2\<rparr>)"
    using malloc_roomy [of ?e2 "int cs"] by auto
  note h = header_guide [OF assms(5,8)]
  have "\<not> MAXIMUM_FILE_SIZE < int (length d)" unfolding MAXIMUM_FILE_SIZE_def assms(4)
    using assms(9) by (metis not_less of_nat_le_numeral_power_cancel_iff)
  moreover have "evfs_check_hard_legal (take 92 d) (to_int (int (length d))) = Some 0"
    unfolding assms(4) to_int_of_nat [OF len] by (rule legal_spec [OF h assms(6,7) len])
  moreover have "\<not> int cs * int cc < 92" using assms(4,8) by (metis of_nat_mult of_nat_less_iff of_nat_numeral not_less)
  ultimately have "open_body (Some path) e = (case mem_write z2 0 (take 92 d) of
      None \<Rightarrow> None | Some b \<Rightarrow> Some (0, ?fd, e\<lparr>kern := k3, mallocs := ms2, mgr := ready_mgr ?fd b cs cc\<rparr>))"
    unfolding open_body_def using o(1) s(1) m(1) r(1) m2(1) h assms(4,8)
    by (simp add: sizeof_cluster_def sizeof_hrd_def NSP_SUCCESS_def NSP_STATUS_SUCCESSFUL_def ready_mgr_def header_def Let_def split: option.split)
  then show ?thesis using m2(2,3) r(2,3) o s
    by (intro exI [of _ z2] exI [of _ k3] exI [of _ ms2]) (auto simp: advanced_def roomy_def)
qed

lemma open_spec:
  assumes "ready (mgr e) = kEvmgrNotReady" "calm (kern e)" "roomy e" "0 < next_fd (kern e)"
    and "files (kern e) path = Some d" "length d = cs * cc" "header d cs cc ecc" "92 \<le> cs" "cs \<le> 4096" "0 < cc" "cs * cc \<le> 2 ^ 30"
  shows "\<exists>e'. evfs_hard_open (Some path) e = Some (0, e') \<and> store_ok e' cs cc ecc path d \<and> calm (kern e') \<and> roomy e' \<and>
    0 < next_fd (kern e')"
proof -
  let ?e = "set_ready kEvmgrInitializing e" and ?fd = "next_fd (kern e)"
  have e: "kern ?e = kern e" "roomy ?e" using assms(3) by (simp_all add: set_ready_def roomy_def)
  have len: "92 \<le> length d" "32 \<le> cs" "cs * cc < 2 ^ 31" using assms(6,8,10,11) by (cases cc; simp)+
  obtain z k ms where o: "length z = cs" "open_body (Some path) ?e = (case mem_write z 0 (take 92 d) of
      None \<Rightarrow> None | Some b \<Rightarrow> Some (0, ?fd, ?e\<lparr>kern := k, mallocs := ms, mgr := ready_mgr ?fd b cs cc\<rparr>))"
    "calm k" "roomy (?e\<lparr>mallocs := ms\<rparr>)" "files k = files (kern e)" "next_fd k = ?fd + 1"
    "fds k = (fds (kern e))(?fd \<mapsto> \<lparr>opath = path, opos = 92, owrite = True\<rparr>)"
    using open_body_spec [of ?e, unfolded e(1), OF assms(2) e(2) assms(5-7) len(2) assms(9) len(1) assms(11)] by blast
  obtain b where b: "mem_write z 0 (take 92 d) = Some b" "length b = cs" "header b cs cc ecc"
    using header_block [OF header_guide [OF assms(7) len(1)], of z] o(1) assms(8) len(1) by auto
  define e3 where "e3 = ?e\<lparr>kern := k, mallocs := ms, mgr := ready_mgr ?fd b cs cc\<rparr>"
  have "evfs_hard_open (Some path) e = Some (0, e3)"
    using assms(1) o(2) b(1) finish_ready [of e3 ?fd b cs cc 0] by (simp add: evfs_hard_open_def e3_def)
  moreover have "store_ok e3 cs cc ecc path d"
    by (rule store_ready_mgr [OF _ b(2,3), where f = "\<lparr>opath = path, opos = 92, owrite = True\<rparr>"])
      (use o assms len in \<open>auto simp: e3_def\<close>)
  ultimately show ?thesis using o(3,4,6) assms(4) by (auto simp: e3_def roomy_def)
qed

section \<open>The interface of the store\<close>

text \<open>
  What a layer above relies on: while no call fails, the store is an array of \<^term>\<open>cc\<close> blocks of \<^term>\<open>cs\<close> bytes.
\<close>

fun write_each :: "(nat \<Rightarrow> bytes \<Rightarrow> 'e \<Rightarrow> (int \<times> 'e) option) \<Rightarrow> (nat \<times> bytes) list \<Rightarrow> 'e \<Rightarrow> 'e option" where
  "write_each wr [] e = Some e"
| "write_each wr ((cid, buf) # ws) e = do { (st, e) \<leftarrow> wr cid buf e; if st = 0 then write_each wr ws e else None }"

locale block_store =
  fixes holds :: "'e \<Rightarrow> nat \<Rightarrow> nat \<Rightarrow> (nat \<Rightarrow> bytes) \<Rightarrow> bool"
    and wr :: "nat \<Rightarrow> bytes \<Rightarrow> 'e \<Rightarrow> (int \<times> 'e) option"
    and rd :: "nat \<Rightarrow> bytes \<Rightarrow> 'e \<Rightarrow> (int \<times> bytes option \<times> 'e) option"
  assumes wr_law: "holds e cs cc c \<Longrightarrow> cid < cc \<Longrightarrow> length buf = cs \<Longrightarrow> \<exists>e'. wr cid buf e = Some (0, e') \<and> holds e' cs cc (c(cid := buf))"
    and rd_law: "holds e cs cc c \<Longrightarrow> cid < cc \<Longrightarrow> length blk = cs \<Longrightarrow> \<exists>e'. rd cid blk e = Some (0, Some (c cid), e') \<and> holds e' cs cc c"
begin

lemma write_each_holds:
  assumes "holds e cs cc c" "\<forall>(cid, buf) \<in> set ws. cid < cc \<and> length buf = cs"
  shows "\<exists>e'. write_each wr ws e = Some e' \<and> holds e' cs cc (fold (\<lambda>(cid, buf) c. c(cid := buf)) ws c)"
  using assms
proof (induction ws arbitrary: e c)
  case (Cons w ws)
  obtain cid buf where w: "w = (cid, buf)" by (cases w)
  obtain e1 where e1: "wr cid buf e = Some (0, e1)" "holds e1 cs cc (c(cid := buf))"
    using wr_law [OF Cons.prems(1), of cid buf] Cons.prems(2) by (auto simp: w)
  have "\<forall>(cid, buf) \<in> set ws. cid < cc \<and> length buf = cs" using Cons.prems(2) by simp
  from Cons.IH [OF e1(2) this] show ?case by (simp add: w e1(1))
qed auto

lemma read_back:
  assumes "holds e cs cc c" "\<forall>(cid, buf) \<in> set ws. cid < cc \<and> length buf = cs" "cid < cc" "length blk = cs"
  shows "\<exists>e1 e2. write_each wr ws e = Some e1 \<and>
    rd cid blk e1 = Some (0, Some (fold (\<lambda>(cid, buf) c. c(cid := buf)) ws c cid), e2)"
  using write_each_holds [OF assms(1,2)] rd_law [OF _ assms(3,4)] by metis

end

definition store_holds :: "nat \<Rightarrow> string \<Rightarrow> evfs_env \<Rightarrow> nat \<Rightarrow> nat \<Rightarrow> (nat \<Rightarrow> bytes) \<Rightarrow> bool" where
  "store_holds ecc path e cs cc c \<longleftrightarrow> calm (kern e) \<and> roomy e \<and> 0 < next_fd (kern e) \<and> (\<exists>d. store_ok e cs cc ecc path d \<and> (\<forall>i < cc. cluster_of d cs i = c i))"

interpretation disk: block_store "store_holds ecc path" "\<lambda>cid buf. evfs_hard_write_cluster (int cid) (Some buf)"
  "\<lambda>cid blk. evfs_hard_read_cluster (int cid) (Some blk)" for ecc path
proof
  fix e cs cc c cid and buf :: bytes
  assume h: "store_holds ecc path e cs cc c" "cid < cc" "length buf = cs"
  then obtain d where d: "calm (kern e)" "store_ok e cs cc ecc path d" "\<forall>i < cc. cluster_of d cs i = c i" "roomy e" "0 < next_fd (kern e)"
    by (auto simp: store_holds_def)
  have l: "length d = cs * cc" "(cid + 1) * cs \<le> length d" using d(2) cluster_bound [OF h(2), of cs] by (auto simp: store_ok_def)
  obtain e' where w: "evfs_hard_write_cluster (int cid) (Some buf) e = Some (0, e')" "calm (kern e')"
    "store_ok e' cs cc ecc path (file_write d (cid * cs) buf)" "roomy e'" "0 < next_fd (kern e')"
    using write_cluster_spec [OF d(2) h(2), of buf] d(1,4,5) h(3) by (auto simp: roomy_def)
  have "cluster_of (file_write d (cid * cs) buf) cs i = (c(cid := buf)) i" if "i < cc" for i
    using cluster_other [OF l(1) that h(2), of buf] cluster_same [OF l(2) h(3)] d(3) h(3) that by (cases "i = cid") auto
  then show "\<exists>e'. evfs_hard_write_cluster (int cid) (Some buf) e = Some (0, e') \<and> store_holds ecc path e' cs cc (c(cid := buf))"
    using w by (auto simp: store_holds_def)
next
  fix e cs cc c cid and blk :: bytes
  assume h: "store_holds ecc path e cs cc c" "cid < cc" "length blk = cs"
  then obtain d where d: "calm (kern e)" "store_ok e cs cc ecc path d" "\<forall>i < cc. cluster_of d cs i = c i" "roomy e" "0 < next_fd (kern e)"
    by (auto simp: store_holds_def)
  have "length (cluster_of d cs cid) = cs" "0 < cs" using d(2) cluster_bound [OF h(2), of cs] by (auto simp: store_ok_def cluster_of_def)
  then obtain e' where "evfs_hard_read_cluster (int cid) (Some blk) e = Some (0, Some (c cid), e')" "store_ok e' cs cc ecc path d" "calm (kern e')"
    "roomy e'" "0 < next_fd (kern e')"
    using read_at_spec [OF d(2) h(2), of "\<lambda>cs. cs" cs blk] d h by (auto simp: evfs_hard_read_cluster_def roomy_def)
  then show "\<exists>e'. evfs_hard_read_cluster (int cid) (Some blk) e = Some (0, Some (c cid), e') \<and> store_holds ecc path e' cs cc c"
    using d(3) by (auto simp: store_holds_def)
qed

text \<open>The contents of a file survive closing and opening it, as long as cluster 0 still has the head record.\<close>

lemma header_cluster_zero:
  assumes "length d = cs * cc" "0 < cc" "28 \<le> cs"
  shows "header (cluster_of d cs 0) cs cc ecc = header d cs cc ecc"
proof -
  have "cs \<le> length d" using assms by (cases cc) auto
  then show ?thesis using assms(3) by (simp add: header_def cluster_of_def get_int_take)
qed

lemma reopen_holds:
  assumes "store_holds ecc path e cs cc c" "header (c 0) cs cc ecc" "92 \<le> cs" "cs * cc \<le> 2 ^ 30"
  shows "\<exists>e'. evfs_hard_open (Some path) (evfs_hard_close e) = Some (0, e') \<and> store_holds ecc path e' cs cc c"
proof -
  obtain d where d: "calm (kern e)" "store_ok e cs cc ecc path d" "\<forall>i < cc. cluster_of d cs i = c i" "roomy e" "0 < next_fd (kern e)"
    using assms(1) by (auto simp: store_holds_def)
  have g: "length d = cs * cc" "cs \<le> 4096" "0 < cc" "files (kern e) path = Some d" using d(2) by (auto simp: store_ok_def)
  have h: "header d cs cc ecc" using header_cluster_zero [OF g(1,3)] assms(2,3) d(3) g(3) by simp
  note cl = close_spec [OF d(2,1)]
  have "roomy (evfs_hard_close e)" using d(4) cl(4) by (simp add: roomy_def)
  then obtain e' where "evfs_hard_open (Some path) (evfs_hard_close e) = Some (0, e')" "store_ok e' cs cc ecc path d" "calm (kern e')"
    "roomy e'" "0 < next_fd (kern e')"
    using open_spec [OF cl(1,3) _ _ _ g(1) h assms(3) g(2,3) assms(4)] cl(2,5) g(4) d(5) by auto
  then show ?thesis using d(3) by (auto simp: store_holds_def)
qed

lemma create_holds:
  assumes "ready (mgr e) = kEvmgrNotReady" "calm (kern e)" "roomy e" "0 < next_fd (kern e)"
    and "is_powerof_2 (of_nat cs :: u32)" "32 \<le> cs" "cs \<le> 4096" "0 < cc" "cs * cc < 2 ^ 30"
  shows "\<exists>e' c. evfs_hard_create (Some path) (int cs) (int cc) e = Some (0, e') \<and> header (c 0) cs cc cc \<and>
    (\<forall>i. 0 < i \<longrightarrow> c i = replicate cs 0) \<and> store_holds cc path e' cs cc c"
proof -
  obtain e' b where e: "evfs_hard_create (Some path) (int cs) (int cc) e = Some (0, e')" "length b = cs" "header b cs cc cc"
    "store_ok e' cs cc cc path (b @ replicate (cs * (cc - 1)) 0)" "calm (kern e')" "roomy e'" "0 < next_fd (kern e')"
    using create_spec [OF assms] by blast
  have "cluster_of (b @ replicate (cs * (cc - 1)) 0) cs i = (if i = 0 then b else replicate cs 0)" if "i < cc" for i
  proof (cases i)
    case (Suc j)
    then have "(j + 1) * cs \<le> cs * (cc - 1)" using that by (intro cluster_bound) simp
    then have "min (cs * (cc - 1) - j * cs) cs = cs" by simp
    then show ?thesis using e(2) Suc by (simp add: cluster_of_def)
  qed (simp add: cluster_of_def e(2))
  then have "store_holds cc path e' cs cc (\<lambda>i. if i = 0 then b else replicate cs 0)" using e by (auto simp: store_holds_def)
  then show ?thesis using e(1,3) by (intro exI [of _ e'] exI [of _ "\<lambda>i. if i = 0 then b else replicate cs 0"]) simp
qed

section \<open>Properties\<close>

text \<open>
  C36. While no system call fails (calls may be interrupted and transfers shortened at will), the clusters of a store are an
  array: after any sequence of cluster writes each of which covers a whole cluster, every write has succeeded and reading a
  cluster succeeds and returns what was last written to it, or what it held before.
\<close>

theorem evfs_clusters_read_back:
  assumes "store_holds ecc path e cs cc c" "\<forall>(cid, buf) \<in> set ws. cid < cc \<and> length buf = cs" "cid < cc" "length blk = cs"
  shows "\<exists>e1 e2. write_each (\<lambda>cid buf. evfs_hard_write_cluster (int cid) (Some buf)) ws e = Some e1 \<and>
    evfs_hard_read_cluster (int cid) (Some blk) e1 = Some (0, Some (fold (\<lambda>(cid, buf) c. c(cid := buf)) ws c cid), e2)"
  by (rule disk.read_back [OF assms])

text \<open>A file system with one file of two empty clusters, as it is after creating it.\<close>

definition sample_env :: evfs_env where
  "sample_env = \<lparr>kern = \<lparr>files = Map.empty, fds = Map.empty, next_fd = 3, events = [Interrupt, Short 5], ctl = []\<rparr>, mallocs = [],
     mgr = evfs_cluster_mgr0\<rparr>"

lemma sample_env_start: "ready (mgr sample_env) = kEvmgrNotReady" "calm (kern sample_env)" "roomy sample_env" "0 < next_fd (kern sample_env)"
  by (simp_all add: sample_env_def evfs_cluster_mgr0_def calm_def quiet_def roomy_def)

lemma sample_powerof_2: "is_powerof_2 (of_nat 128 :: u32)"
  by (simp add: is_powerof_2_def)

lemma sample_store:
  "\<exists>e c. evfs_hard_create (Some ''f'') 128 2 sample_env = Some (0, e) \<and> store_holds 2 ''f'' e 128 2 c"
  using create_holds [OF sample_env_start sample_powerof_2, of 2 "''f''"] by auto

theorem evfs_clusters_read_back_witness:
  "\<exists>e e1 e2. evfs_hard_create (Some ''f'') 128 2 sample_env = Some (0, e) \<and>
    write_each (\<lambda>cid buf. evfs_hard_write_cluster (int cid) (Some buf)) [(1, replicate 128 7), (1, replicate 128 8)] e = Some e1 \<and>
    evfs_hard_read_cluster (int 1) (Some (replicate 128 0)) e1 = Some (0, Some (replicate 128 8), e2)"
proof -
  obtain e c where "evfs_hard_create (Some ''f'') 128 2 sample_env = Some (0, e)" and h: "store_holds 2 ''f'' e 128 2 c"
    using sample_store by blast
  moreover have "\<forall>(cid, buf) \<in> set [(1, replicate 128 7), (1, replicate 128 8 :: bytes)]. cid < (2 :: nat) \<and> length buf = 128" by simp
  from evfs_clusters_read_back [OF h this, of 1 "replicate 128 0"] obtain e1 e2 where
    "write_each (\<lambda>cid buf. evfs_hard_write_cluster (int cid) (Some buf)) [(1, replicate 128 7), (1, replicate 128 8)] e = Some e1"
    "evfs_hard_read_cluster (int 1) (Some (replicate 128 0)) e1 = Some (0, Some (replicate 128 8), e2)"
    by auto
  ultimately show ?thesis by blast
qed

text \<open>
  C37. Whatever fails (a seek, a transfer, a full disk): writing a cluster of a store never leaves the file, keeps the
  manager and the geometry of the file, and changes no other cluster.
\<close>

theorem evfs_write_isolated:
  assumes "store_ok e cs cc ecc path d" "cid < cc" "cs \<le> length buf"
  shows "\<exists>r e' d'. evfs_hard_write_cluster (int cid) (Some buf) e = Some (r, e') \<and> store_ok e' cs cc ecc path d' \<and>
    mgr e' = mgr e \<and> (\<forall>i < cc. i \<noteq> cid \<longrightarrow> cluster_of d' cs i = cluster_of d cs i)"
proof -
  obtain r m e' where w: "evfs_hard_write_cluster (int cid) (Some buf) e = Some (r, e')" "m \<le> cs"
    "store_ok e' cs cc ecc path (file_write d (cid * cs) (take m buf))" "mgr e' = mgr e"
    using write_cluster_spec [OF assms] by blast
  have "length d = cs * cc" using assms(1) by (simp add: store_ok_def)
  then have "\<forall>i < cc. i \<noteq> cid \<longrightarrow> cluster_of (file_write d (cid * cs) (take m buf)) cs i = cluster_of d cs i"
    using cluster_other [of d cs cc _ cid "take m buf"] assms(2) w(2) by simp
  then show ?thesis using w by blast
qed

theorem evfs_write_isolated_witness:
  "\<exists>e d r e' d'. store_ok e 128 2 2 ''f'' d \<and> evfs_hard_write_cluster (int 1) (Some (replicate 128 9)) e = Some (r, e') \<and>
    store_ok e' 128 2 2 ''f'' d' \<and> cluster_of d' 128 0 = cluster_of d 128 0"
proof -
  obtain e d where s: "store_ok e 128 2 2 ''f'' d" using sample_store by (auto simp: store_holds_def)
  from evfs_write_isolated [OF this, of 1 "replicate 128 9"] show ?thesis using s by fastforce
qed

text \<open>
  C38. Data survives: creating a file system of clusters of at least 92 bytes, writing a cluster other than the first, closing
  and opening it and reading the cluster gives the written data, and every step reports success, while no call fails.
\<close>

theorem evfs_clusters_persist:
  assumes "ready (mgr e) = kEvmgrNotReady" "calm (kern e)" "roomy e" "0 < next_fd (kern e)"
    and "is_powerof_2 (of_nat cs :: u32)" "92 \<le> cs" "cs \<le> 4096" "cs * cc < 2 ^ 30"
    and "0 < cid" "cid < cc" "length buf = cs" "length blk = cs"
  shows "\<exists>e1 e2 e3 e4. evfs_hard_create (Some path) (int cs) (int cc) e = Some (0, e1) \<and>
    evfs_hard_write_cluster (int cid) (Some buf) e1 = Some (0, e2) \<and>
    evfs_hard_open (Some path) (evfs_hard_close e2) = Some (0, e3) \<and>
    evfs_hard_read_cluster (int cid) (Some blk) e3 = Some (0, Some buf, e4)"
proof -
  have cs: "32 \<le> cs" "0 < cc" using assms by auto
  obtain e1 c where 1: "evfs_hard_create (Some path) (int cs) (int cc) e = Some (0, e1)" "header (c 0) cs cc cc"
    "store_holds cc path e1 cs cc c"
    using create_holds [OF assms(1-5) cs(1) assms(7) cs(2) assms(8)] by blast
  obtain e2 where 2: "evfs_hard_write_cluster (int cid) (Some buf) e1 = Some (0, e2)" "store_holds cc path e2 cs cc (c(cid := buf))"
    using disk.wr_law [OF 1(3) assms(10,11)] by blast
  obtain e3 where 3: "evfs_hard_open (Some path) (evfs_hard_close e2) = Some (0, e3)" "store_holds cc path e3 cs cc (c(cid := buf))"
    using reopen_holds [OF 2(2) _ assms(6)] 1(2) assms(8,9) by auto
  show ?thesis using 1(1) 2(1) 3(1) disk.rd_law [OF 3(2) assms(10,12)] by auto
qed

theorem evfs_clusters_persist_witness:
  "\<exists>e1 e2 e3 e4. evfs_hard_create (Some ''f'') (int 128) (int 2) sample_env = Some (0, e1) \<and>
    evfs_hard_write_cluster (int 1) (Some (replicate 128 7)) e1 = Some (0, e2) \<and>
    evfs_hard_open (Some ''f'') (evfs_hard_close e2) = Some (0, e3) \<and>
    evfs_hard_read_cluster (int 1) (Some (replicate 128 0)) e3 = Some (0, Some (replicate 128 7), e4)"
  by (rule evfs_clusters_persist [OF sample_env_start sample_powerof_2]) simp_all



section \<open>Defects\<close>

text \<open>
  Clusters of 32 and 64 bytes are accepted on creation but are smaller than the guide that opening copies into the
  cluster block: the copy leaves the block. A full disk makes the write of a cluster transfer nothing, which is reported as success.
\<close>

lemma evfs_open_overflows:
  assumes "ready (mgr e) = kEvmgrNotReady" "calm (kern e)" "roomy e"
    and "files (kern e) path = Some d" "length d = cs * cc" "header d cs cc ecc" "32 \<le> cs" "cs < 92" "92 \<le> length d" "cs * cc \<le> 2 ^ 30"
  shows "evfs_hard_open (Some path) e = None"
proof -
  let ?e = "set_ready kEvmgrInitializing e"
  have e: "kern ?e = kern e" "roomy ?e" using assms(3) by (simp_all add: set_ready_def roomy_def)
  have cs: "cs \<le> 4096" using assms(8) by simp
  obtain z k ms where "length z = cs" "open_body (Some path) ?e = (case mem_write z 0 (take 92 d) of None \<Rightarrow> None
      | Some b \<Rightarrow> Some (0, next_fd (kern e), ?e\<lparr>kern := k, mallocs := ms, mgr := ready_mgr (next_fd (kern e)) b cs cc\<rparr>))"
    using open_body_spec [of ?e, unfolded e(1), OF assms(2) e(2) assms(4-7) cs assms(9,10)] by blast
  then show ?thesis using assms(1,8,9) by (simp add: evfs_hard_open_def mem_write_def)
qed

lemma evfs_full_disk_success:
  assumes st: "store_ok e cs cc ecc path d" and "cid < cc" "cs \<le> length buf" "ctl (kern e) = []" "events (kern e) = [Fail 27]"
  shows "\<exists>e'. evfs_hard_write_cluster (int cid) (Some buf) e = Some (NSP_STATUS_SUCCESSFUL, e') \<and> files (kern e') = files (kern e)"
proof -
  let ?fd = "mgr_fd (mgr e)"
  obtain f where f: "fds (kern e) ?fd = Some f" "owrite f" "32 \<le> cs" using st by (auto simp: store_ok_def)
  obtain b where b: "the_first_cluster (mgr e) = Some b" "hrd_cluster_size b = Some (int cs)" using st by (auto simp: store_ok_def header_def)
  let ?k = "(kern e)\<lparr>fds := (fds (kern e))(?fd \<mapsto> f\<lparr>opos := nat (int (cid * cs))\<rparr>)\<rparr>"
  have seek: "ifos_file_seek ?fd (int (cid * cs)) (kern e) = (0, ?k)"
    using f assms(4) by (simp add: ifos_file_seek_def sys_lseek_def take_ctl_def NSP_STATUS_SUCCESSFUL_def del: of_nat_mult)
  have "sys_write ?fd bs ?k = (Inl ENOSPC, ?k\<lparr>events := []\<rparr>)" for bs
    using f assms(5) by (simp add: sys_write_def take_event_def errno_of_def ENOSPC_def)
  then have "write_eintr ?fd bs ?k = (Inl ENOSPC, ?k\<lparr>events := []\<rparr>)" for bs
    by (subst write_eintr.simps) (simp add: ENOSPC_def EINTR_def)
  then have "ifos_write_loop ?fd (take cs buf) 0 ?k = (0, ?k\<lparr>events := []\<rparr>)"
    using f(3) assms(3) by (subst ifos_write_loop.simps) simp
  then have "ifos_file_write ?fd (Some buf) (int cs) ?k = Some (0, ?k\<lparr>events := []\<rparr>)"
    using f(3) assms(3) by (simp add: ifos_file_write_def mem_read_def)
  then show ?thesis using seek store_ready [OF st] b f(3) unfolding evfs_hard_write_cluster_def store_offset [OF st assms(2)]
    by (simp add: NSP_SUCCESS_def NSP_STATUS_SUCCESSFUL_def)
qed

end
