(* ===== verification/EvfsCache.thy ===== *)
theory EvfsCache
  imports AvlTree EvfsCluster
begin

text \<open>
  \<^verbatim>\<open>addons/evfs/cache.c\<close>: the write-back cache over the clusters. Cache nodes are structures on a heap, linked into a
  list of recently used nodes (\<^verbatim>\<open>lru\<close>), a list of modified nodes (\<^verbatim>\<open>dirty\<close>), a list of unused nodes (\<^verbatim>\<open>idle\<close>) and an AVL tree by
  cluster id. A linked list is the list of its nodes' addresses with the code's counter; a leaf of the tree is the
  address of its node together with its cluster id, which does not change while the node is in the tree. All work is done by one
  thread that takes tasks from a queue. An access to released memory or outside a block is a failure.
\<close>

section \<open>State\<close>

datatype evfs_cache_node_state = kEvfsCacheBlockIdle | kEvfsCacheBlockClean | kEvfsCacheBlockDirty

record evfs_cache_node =
  cluster_id :: int
  node_state :: evfs_cache_node_state
  node_data :: bytes

record list_with_count =
  lhead :: "nat list"
  lcount :: int

record evfs_cache_mgr =
  root_of_lru_index :: "(int \<times> nat) avltree"
  lru :: list_with_count
  dirty :: list_with_count
  idle :: list_with_count
  cache_cluster_size :: int
  cache_block_num :: int
  count_of_hit :: u32
  count_of_miss :: u32
  cache_ready :: evfs_ready_stat
  nodes :: "nat \<rightharpoonup> evfs_cache_node"
  fresh :: nat

text \<open>The tasks of the worker thread and its queue.\<close>

datatype evfs_cache_iotype =
  kEvfsCacheIOTypeRead | kEvfsCacheIOTypeReadHeadDirectly | kEvfsCacheIOTypeReadDirectly | kEvfsCacheIOTypeWrite
  | kEvfsCacheIOTypeWriteDirectly | kEvfsCacheIOTypeFlushBuffer | kEvfsCacheIOTypeFlushBufferAll | kEvfsCacheIOTypeExpandFile
  | kEvfsCacheIOTypeAddCacheBlock | kEvfsCacheIOTypeHardClose | kEvfsCacheIOTypeHardState | kEvfsCacheIOTypeHardExpand
  | kEvfsCacheIOTypeChangeBlockCount

definition EVFS_MAX_IO_PENDING_COUNT :: int where "EVFS_MAX_IO_PENDING_COUNT = 160"

record evfs_cache_stat =
  file_size :: int
  hard_cluster_size :: int
  hard_cluster_count :: int
  hard_max_data_seg_size :: int
  stat_cache_block_num :: int

record evfs_cache_io_task =
  task_cluster_id :: int
  task_offset :: int
  task_length :: int
  task_data :: "bytes option"
  task_stat :: "evfs_cache_stat option"
  task_io_type :: evfs_cache_iotype
  task_status :: nsp_status

record evfs_cache_merge_thread =
  stop :: bool
  io :: "evfs_cache_io_task list"
  io_count :: int

record evfs_state =
  env :: evfs_env
  cm :: evfs_cache_mgr
  merge :: evfs_cache_merge_thread

definition empty_list :: list_with_count where
  "empty_list = \<lparr>lhead = [], lcount = 0\<rparr>"

definition list_add_tail :: "nat \<Rightarrow> list_with_count \<Rightarrow> list_with_count" where
  "list_add_tail a l = \<lparr>lhead = lhead l @ [a], lcount = lcount l + 1\<rparr>"

definition list_del :: "nat \<Rightarrow> list_with_count \<Rightarrow> list_with_count" where
  "list_del a l = \<lparr>lhead = remove1 a (lhead l), lcount = lcount l - 1\<rparr>"

definition set_node :: "nat \<Rightarrow> evfs_cache_node \<Rightarrow> evfs_state \<Rightarrow> evfs_state" where
  "set_node a n s = s\<lparr>cm := (cm s)\<lparr>nodes := (nodes (cm s))(a \<mapsto> n)\<rparr>\<rparr>"

abbreviation get_node :: "evfs_state \<Rightarrow> nat \<Rightarrow> evfs_cache_node option" where
  "get_node s a \<equiv> nodes (cm s) a"

section \<open>Lists and index\<close>

definition evfs_cache_compare_by_cluster_id :: "(int \<times> nat) avl_compare_fp" where
  "evfs_cache_compare_by_cluster_id l r = (if fst l < fst r then - 1 else if fst l > fst r then 1 else 0)"

definition evfs_cache_flush_block_if_dirty :: "nat \<Rightarrow> evfs_state \<Rightarrow> evfs_state option" where
  "evfs_cache_flush_block_if_dirty a s = do {
     n \<leftarrow> get_node s a;
     if node_state n = kEvfsCacheBlockDirty then do {
       (_, e) \<leftarrow> evfs_hard_write_cluster (cluster_id n) (Some (node_data n)) (env s);
       let s = set_node a (n\<lparr>node_state := kEvfsCacheBlockClean\<rparr>) (s\<lparr>env := e\<rparr>);
       Some (s\<lparr>cm := (cm s)\<lparr>dirty := list_del a (dirty (cm s))\<rparr>\<rparr>)
     } else Some s
   }"

definition evfs_cache_search_lru :: "int \<Rightarrow> evfs_state \<Rightarrow> nat option" where
  "evfs_cache_search_lru cid s =
     map_option snd (avlsearch (root_of_lru_index (cm s)) (Some (cid, 0)) (Some evfs_cache_compare_by_cluster_id))"

definition evfs_cache_pop_idle :: "evfs_state \<Rightarrow> nat option \<times> evfs_state" where
  "evfs_cache_pop_idle s =
     (case lhead (idle (cm s)) of
        [] \<Rightarrow> (None, s)
      | a # _ \<Rightarrow> (Some a, s\<lparr>cm := (cm s)\<lparr>idle := list_del a (idle (cm s))\<rparr>\<rparr>))"

definition evfs_cache_pop_lru :: "evfs_state \<Rightarrow> (nat option \<times> evfs_state) option" where
  "evfs_cache_pop_lru s =
     (case lhead (lru (cm s)) of
        [] \<Rightarrow> Some (None, s)
      | a # _ \<Rightarrow> do {
          n \<leftarrow> get_node s a;
          (t, _) \<leftarrow> avlremove (root_of_lru_index (cm s)) (Some (cluster_id n, a)) None (Some evfs_cache_compare_by_cluster_id);
          Some (Some a, s\<lparr>cm := (cm s)\<lparr>lru := list_del a (lru (cm s)), root_of_lru_index := t\<rparr>\<rparr>)
        })"

definition evfs_cache_push_idle :: "nat \<Rightarrow> evfs_state \<Rightarrow> evfs_state option" where
  "evfs_cache_push_idle a s = do {
     n \<leftarrow> get_node s a;
     let s = set_node a (n\<lparr>cluster_id := 0, node_state := kEvfsCacheBlockIdle\<rparr>) s;
     Some (s\<lparr>cm := (cm s)\<lparr>idle := list_add_tail a (idle (cm s))\<rparr>\<rparr>)
   }"

definition evfs_cache_push_dirty :: "nat \<Rightarrow> evfs_state \<Rightarrow> evfs_state option" where
  "evfs_cache_push_dirty a s = do {
     n \<leftarrow> get_node s a;
     if kEvfsCacheBlockDirty \<noteq> node_state n then
       (let s = set_node a (n\<lparr>node_state := kEvfsCacheBlockDirty\<rparr>) s
        in Some (s\<lparr>cm := (cm s)\<lparr>dirty := list_add_tail a (dirty (cm s))\<rparr>\<rparr>))
     else Some s
   }"

definition evfs_cache_push_lru :: "nat \<Rightarrow> evfs_state \<Rightarrow> evfs_state option" where
  "evfs_cache_push_lru a s = do {
     n \<leftarrow> get_node s a;
     t \<leftarrow> avlinsert (root_of_lru_index (cm s)) (Some (cluster_id n, a)) (Some evfs_cache_compare_by_cluster_id);
     Some (s\<lparr>cm := (cm s)\<lparr>lru := list_add_tail a (lru (cm s)), root_of_lru_index := t\<rparr>\<rparr>)
   }"

definition evfs_cache_move_lru_to_tail :: "nat \<Rightarrow> evfs_state \<Rightarrow> evfs_state" where
  "evfs_cache_move_lru_to_tail a s =
     s\<lparr>cm := (cm s)\<lparr>lru := (lru (cm s))\<lparr>lhead := remove1 a (lhead (lru (cm s))) @ [a]\<rparr>\<rparr>\<rparr>"

section \<open>Reading and writing\<close>

text \<open>A read returns the status, the copied bytes if any were copied, and the state.\<close>

type_synonym read_result = "(nsp_status \<times> bytes option \<times> evfs_state) option"
type_synonym write_result = "(nsp_status \<times> evfs_state) option"

definition count_hit :: "evfs_state \<Rightarrow> evfs_state" where
  "count_hit s = s\<lparr>cm := (cm s)\<lparr>count_of_hit := count_of_hit (cm s) + 1\<rparr>\<rparr>"

definition count_miss :: "evfs_state \<Rightarrow> evfs_state" where
  "count_miss s = s\<lparr>cm := (cm s)\<lparr>count_of_miss := count_of_miss (cm s) + 1\<rparr>\<rparr>"

definition evfs_cache_read_from_lru :: "int \<Rightarrow> int \<Rightarrow> int \<Rightarrow> evfs_state \<Rightarrow> read_result" where
  "evfs_cache_read_from_lru cid offset len s =
     (case evfs_cache_search_lru cid s of
        None \<Rightarrow> Some (posix__makeerror ENOENT, None, count_miss s)
      | Some a \<Rightarrow> do {
          let s = evfs_cache_move_lru_to_tail a s;
          n \<leftarrow> get_node s a;
          bs \<leftarrow> mem_read (node_data n) (nat offset) (nat len);
          Some (NSP_STATUS_SUCCESSFUL, Some bs, count_hit s)
        })"

definition evfs_cache_write_to_lru :: "int \<Rightarrow> bytes \<Rightarrow> int \<Rightarrow> int \<Rightarrow> evfs_state \<Rightarrow> write_result" where
  "evfs_cache_write_to_lru cid data offset len s =
     (case evfs_cache_search_lru cid s of
        None \<Rightarrow> Some (posix__makeerror ENOENT, count_miss s)
      | Some a \<Rightarrow> do {
          let s = evfs_cache_move_lru_to_tail a s;
          n \<leftarrow> get_node s a;
          bs \<leftarrow> mem_read data 0 (nat len);
          d \<leftarrow> mem_write (node_data n) (nat offset) bs;
          let s = count_hit (set_node a (n\<lparr>node_data := d\<rparr>) s);
          s \<leftarrow> evfs_cache_push_dirty a s;
          Some (NSP_STATUS_SUCCESSFUL, s)
        })"

text \<open>Loading a cluster into the data block of a node.\<close>

definition load_node :: "int \<Rightarrow> nat \<Rightarrow> evfs_state \<Rightarrow> write_result" where
  "load_node cid a s = do {
     n \<leftarrow> get_node s a;
     (status, blk, e) \<leftarrow> evfs_hard_read_cluster cid (Some (node_data n)) (env s);
     d \<leftarrow> blk;
     Some (status, set_node a (n\<lparr>node_data := d\<rparr>) (s\<lparr>env := e\<rparr>))
   }"

text \<open>What the two reads do with a loaded node, and the two writes.\<close>

definition finish_read :: "int \<Rightarrow> nat \<Rightarrow> int \<Rightarrow> int \<Rightarrow> nsp_status \<Rightarrow> evfs_state \<Rightarrow> read_result" where
  "finish_read cid a offset len status s = do {
     n \<leftarrow> get_node s a;
     let s = set_node a (n\<lparr>cluster_id := cid, node_state := kEvfsCacheBlockClean\<rparr>) s;
     bs \<leftarrow> mem_read (node_data n) (nat offset) (nat len);
     s \<leftarrow> evfs_cache_push_lru a s;
     Some (status, Some bs, s)
   }"

definition finish_write :: "int \<Rightarrow> nat \<Rightarrow> bytes \<Rightarrow> int \<Rightarrow> int \<Rightarrow> nsp_status \<Rightarrow> evfs_state \<Rightarrow> write_result" where
  "finish_write cid a data offset len status s = do {
     n \<leftarrow> get_node s a;
     bs \<leftarrow> mem_read data 0 (nat len);
     d \<leftarrow> mem_write (node_data n) (nat offset) bs;
     let s = set_node a (n\<lparr>cluster_id := cid, node_data := d\<rparr>) s;
     s \<leftarrow> evfs_cache_push_dirty a s;
     s \<leftarrow> evfs_cache_push_lru a s;
     Some (status, s)
   }"

definition evfs_cache_read_from_idle :: "int \<Rightarrow> int \<Rightarrow> int \<Rightarrow> evfs_state \<Rightarrow> read_result" where
  "evfs_cache_read_from_idle cid offset len s =
     (case evfs_cache_pop_idle s of
        (None, s) \<Rightarrow> Some (posix__makeerror ENOMEM, None, s)
      | (Some a, s) \<Rightarrow> do {
          (status, s) \<leftarrow> load_node cid a s;
          if \<not> NSP_SUCCESS status then do { s \<leftarrow> evfs_cache_push_idle a s; Some (status, None, s) }
          else finish_read cid a offset len NSP_STATUS_SUCCESSFUL s
        })"

text \<open>A failed load leaves the node in no list.\<close>

definition evfs_cache_write_to_idle :: "int \<Rightarrow> bytes \<Rightarrow> int \<Rightarrow> int \<Rightarrow> evfs_state \<Rightarrow> write_result" where
  "evfs_cache_write_to_idle cid data offset len s =
     (case evfs_cache_pop_idle s of
        (None, s) \<Rightarrow> Some (posix__makeerror ENOMEM, s)
      | (Some a, s) \<Rightarrow> do {
          (status, s) \<leftarrow> load_node cid a s;
          if \<not> NSP_SUCCESS status then Some (status, s)
          else finish_write cid a data offset len status s
        })"

definition evfs_cache_replace_read_from_lru :: "int \<Rightarrow> int \<Rightarrow> int \<Rightarrow> evfs_state \<Rightarrow> read_result" where
  "evfs_cache_replace_read_from_lru cid offset len s = do {
     (p, s) \<leftarrow> evfs_cache_pop_lru s;
     case p of
       None \<Rightarrow> Some (posix__makeerror ENOENT, None, s)
     | Some a \<Rightarrow> do {
         s \<leftarrow> evfs_cache_flush_block_if_dirty a s;
         (status, s) \<leftarrow> load_node cid a s;
         if \<not> NSP_SUCCESS status then do { s \<leftarrow> evfs_cache_push_idle a s; Some (status, None, s) }
         else finish_read cid a offset len status s
       }
   }"

definition evfs_cache_replace_write_to_lru :: "int \<Rightarrow> bytes \<Rightarrow> int \<Rightarrow> int \<Rightarrow> evfs_state \<Rightarrow> write_result" where
  "evfs_cache_replace_write_to_lru cid data offset len s = do {
     (p, s) \<leftarrow> evfs_cache_pop_lru s;
     case p of
       None \<Rightarrow> Some (posix__makeerror ENOENT, s)
     | Some a \<Rightarrow> do {
         s \<leftarrow> evfs_cache_flush_block_if_dirty a s;
         (status, s) \<leftarrow> load_node cid a s;
         if \<not> NSP_SUCCESS status then do { s \<leftarrow> evfs_cache_push_idle a s; Some (status, s) }
         else finish_write cid a data offset len status s
       }
   }"

definition evfs_cache_read_harddisk :: "int \<Rightarrow> int \<Rightarrow> int \<Rightarrow> evfs_state \<Rightarrow> read_result" where
  "evfs_cache_read_harddisk cid offset len s = do {
     (c, e) \<leftarrow> evfs_hard_allocate_cluster None (env s);
     case c of
       None \<Rightarrow> Some (posix__makeerror ENOMEM, None, s\<lparr>env := e\<rparr>)
     | Some c \<Rightarrow> do {
         (status, blk, e) \<leftarrow> evfs_hard_read_cluster cid (Some c) e;
         c \<leftarrow> blk;
         if NSP_SUCCESS status then do { bs \<leftarrow> mem_read c (nat offset) (nat len); Some (status, Some bs, s\<lparr>env := e\<rparr>) }
         else Some (status, None, s\<lparr>env := e\<rparr>)
       }
   }"

definition evfs_cache_write_harddisk :: "int \<Rightarrow> bytes \<Rightarrow> int \<Rightarrow> int \<Rightarrow> evfs_state \<Rightarrow> write_result" where
  "evfs_cache_write_harddisk cid data offset len s = do {
     (c, e) \<leftarrow> evfs_hard_allocate_cluster None (env s);
     case c of
       None \<Rightarrow> Some (posix__makeerror ENOMEM, s\<lparr>env := e\<rparr>)
     | Some c \<Rightarrow> do {
         (status, blk, e) \<leftarrow> evfs_hard_read_cluster cid (Some c) e;
         c \<leftarrow> blk;
         if NSP_SUCCESS status then do {
           bs \<leftarrow> mem_read data 0 (nat len);
           c \<leftarrow> mem_write c (nat offset) bs;
           (status, e) \<leftarrow> evfs_hard_write_cluster cid (Some c) e;
           Some (status, s\<lparr>env := e\<rparr>)
         } else Some (status, s\<lparr>env := e\<rparr>)
       }
   }"

definition evfs_cache_read_task :: "int \<Rightarrow> int \<Rightarrow> int \<Rightarrow> evfs_state \<Rightarrow> read_result" where
  "evfs_cache_read_task cid offset len s =
     (if 0 = cache_block_num (cm s) then evfs_cache_read_harddisk cid offset len s
      else do {
        (status, bs, s) \<leftarrow> evfs_cache_read_from_lru cid offset len s;
        if NSP_SUCCESS status then Some (status, bs, s)
        else do {
          (status, bs, s) \<leftarrow> evfs_cache_read_from_idle cid offset len s;
          if NSP_SUCCESS status then Some (status, bs, s)
          else evfs_cache_replace_read_from_lru cid offset len s
        }
      })"

definition evfs_cache_write_task :: "int \<Rightarrow> bytes \<Rightarrow> int \<Rightarrow> int \<Rightarrow> evfs_state \<Rightarrow> write_result" where
  "evfs_cache_write_task cid data offset len s =
     (if 0 = cache_block_num (cm s) then evfs_cache_write_harddisk cid data offset len s
      else do {
        (status, s) \<leftarrow> evfs_cache_write_to_lru cid data offset len s;
        if NSP_SUCCESS status then Some (status, s)
        else do {
          (status, s) \<leftarrow> evfs_cache_write_to_idle cid data offset len s;
          if NSP_SUCCESS status then Some (status, s)
          else evfs_cache_replace_write_to_lru cid data offset len s
        }
      })"

text \<open>\<^verbatim>\<open>list_for_each_safe\<close> saves the successor before the node is taken out of the list, so it visits the initial list.\<close>

fun flush_each :: "nat list \<Rightarrow> evfs_state \<Rightarrow> evfs_state option" where
  "flush_each [] s = Some s"
| "flush_each (a # as) s = do { s \<leftarrow> evfs_cache_flush_block_if_dirty a s; flush_each as s }"

definition evfs_cache_flush_buffer_all :: "evfs_state \<Rightarrow> evfs_state option" where
  "evfs_cache_flush_buffer_all s =
     (if 0 = lcount (dirty (cm s)) then Some s
      else do {
        s \<leftarrow> flush_each (lhead (dirty (cm s))) s;
        (case evfs_hard_flush (env s) of (_, e) \<Rightarrow> Some (s\<lparr>env := e\<rparr>))
      })"

definition evfs_cache_flush_block_task :: "int \<Rightarrow> evfs_state \<Rightarrow> evfs_state option" where
  "evfs_cache_flush_block_task cid s =
     (case evfs_cache_search_lru cid s of None \<Rightarrow> Some s | Some a \<Rightarrow> evfs_cache_flush_block_if_dirty a s)"

section \<open>The number of blocks\<close>

text \<open>A new node: two allocations, the structure and its data.\<close>

definition new_node :: "evfs_state \<Rightarrow> nat option \<times> evfs_state" where
  "new_node s =
     (case ztrymalloc 72 (env s) of
        (None, e) \<Rightarrow> (None, s\<lparr>env := e\<rparr>)
      | (Some _, e) \<Rightarrow>
          (case ztrymalloc (cache_cluster_size (cm s)) e of
             (None, e) \<Rightarrow> (None, s\<lparr>env := e\<rparr>)
           | (Some d, e) \<Rightarrow>
               (let a = fresh (cm s);
                    n = \<lparr>cluster_id = 0, node_state = kEvfsCacheBlockIdle, node_data = d\<rparr>
                in (Some a, s\<lparr>env := e, cm := (cm s)\<lparr>nodes := (nodes (cm s))(a \<mapsto> n), fresh := a + 1\<rparr>\<rparr>))))"

fun add_block_loop :: "nat \<Rightarrow> int \<Rightarrow> evfs_state \<Rightarrow> int \<times> evfs_state" where
  "add_block_loop 0 i s = (i, s)"
| "add_block_loop (Suc k) i s =
     (case new_node s of
        (None, s) \<Rightarrow> (i, s)
      | (Some a, s) \<Rightarrow>
          add_block_loop k (i + 1)
            (s\<lparr>cm := (cm s)\<lparr>idle := list_add_tail a (idle (cm s)), cache_block_num := cache_block_num (cm s) + 1\<rparr>\<rparr>))"

definition evfs_cache_add_block_to_idle :: "int \<Rightarrow> evfs_state \<Rightarrow> int \<times> evfs_state" where
  "evfs_cache_add_block_to_idle n s =
     (case add_block_loop (nat n) 0 s of
        (i, s) \<Rightarrow> (i, s\<lparr>cm := (cm s)\<lparr>cache_block_num := cache_block_num (cm s) + i\<rparr>\<rparr>))"

definition free_node :: "nat \<Rightarrow> evfs_state \<Rightarrow> evfs_state" where
  "free_node a s = s\<lparr>cm := (cm s)\<lparr>nodes := (nodes (cm s))(a := None)\<rparr>\<rparr>"

text \<open>The two loops that release nodes: each stops when its list is empty or the count has become the target.\<close>

function shrink_idle :: "int \<Rightarrow> evfs_state \<Rightarrow> evfs_state" where
  "shrink_idle target s =
     (case lhead (idle (cm s)) of
        [] \<Rightarrow> s
      | a # _ \<Rightarrow>
          (let s' = free_node a (s\<lparr>cm := (cm s)\<lparr>idle := list_del a (idle (cm s)), cache_block_num := cache_block_num (cm s) - 1\<rparr>\<rparr>)
           in if target = cache_block_num (cm s') then s' else shrink_idle target s'))"
  by pat_completeness auto
termination
  by (relation "measure (\<lambda>(t, s). length (lhead (idle (cm s))))") (auto simp: free_node_def list_del_def)

function shrink_lru :: "int \<Rightarrow> evfs_state \<Rightarrow> evfs_state" where
  "shrink_lru target s =
     (case lhead (lru (cm s)) of
        [] \<Rightarrow> s
      | a # _ \<Rightarrow>
          (let s' = free_node a (s\<lparr>cm := (cm s)\<lparr>lru := list_del a (lru (cm s)), cache_block_num := cache_block_num (cm s) - 1\<rparr>\<rparr>)
           in if target = cache_block_num (cm s') then s' else shrink_lru target s'))"
  by pat_completeness auto
termination
  by (relation "measure (\<lambda>(t, s). length (lhead (lru (cm s))))") (auto simp: free_node_def list_del_def)

fun grow_loop :: "nat \<Rightarrow> evfs_state \<Rightarrow> nsp_status \<times> evfs_state" where
  "grow_loop 0 s = (NSP_STATUS_SUCCESSFUL, s)"
| "grow_loop (Suc k) s =
     (case new_node s of
        (None, s) \<Rightarrow> (posix__makeerror ENOMEM, s)
      | (Some a, s) \<Rightarrow>
          grow_loop k (s\<lparr>cm := (cm s)\<lparr>idle := list_add_tail a (idle (cm s)), cache_block_num := cache_block_num (cm s) + 1\<rparr>\<rparr>))"

definition evfs_cache_set_block_num_task :: "int \<Rightarrow> evfs_state \<Rightarrow> nsp_status \<times> evfs_state" where
  "evfs_cache_set_block_num_task n s =
     (if kEvmgrReady \<noteq> cache_ready (cm s) \<or> n < 0 then (posix__makeerror EINVAL, s)
      else if n > cache_block_num (cm s) then grow_loop (nat (n - cache_block_num (cm s))) s
      else if n < cache_block_num (cm s) then (NSP_STATUS_SUCCESSFUL, shrink_lru n (shrink_idle n s))
      else (NSP_STATUS_SUCCESSFUL, s))"

declare shrink_idle.simps [simp del] shrink_lru.simps [simp del]

section \<open>The worker\<close>

definition evfs_cache_expand_task :: "evfs_cache_io_task \<Rightarrow> evfs_state \<Rightarrow> (evfs_cache_io_task \<times> evfs_state) option" where
  "evfs_cache_expand_task task s = do {
     (n, first, e) \<leftarrow> evfs_hard_expand (env s);
     let task = task\<lparr>task_cluster_id := (case first of None \<Rightarrow> task_cluster_id task | Some c \<Rightarrow> c), task_offset := n\<rparr>;
     Some (task\<lparr>task_status := if n > 0 then NSP_STATUS_SUCCESSFUL else NSP_STATUS_FATAL\<rparr>, s\<lparr>env := e\<rparr>)
   }"

definition evfs_cache_exec_task :: "evfs_cache_io_task \<Rightarrow> evfs_state \<Rightarrow> (evfs_cache_io_task \<times> evfs_state) option" where
  "evfs_cache_exec_task task s =
     (let cid = task_cluster_id task; off = task_offset task; len = task_length task in
      case task_io_type task of
        kEvfsCacheIOTypeRead \<Rightarrow> do {
          (status, bs, s) \<leftarrow> evfs_cache_read_task cid off len s;
          buf \<leftarrow> (case bs of None \<Rightarrow> Some (task_data task)
                   | Some bs \<Rightarrow> do { d \<leftarrow> task_data task; d \<leftarrow> mem_write d 0 bs; Some (Some d) });
          Some (task\<lparr>task_data := buf, task_status := status\<rparr>, s)
        }
      | kEvfsCacheIOTypeReadDirectly \<Rightarrow> do {
          (status, buf, e) \<leftarrow> evfs_hard_read_cluster cid (task_data task) (env s);
          Some (task\<lparr>task_data := buf, task_status := status\<rparr>, s\<lparr>env := e\<rparr>)
        }
      | kEvfsCacheIOTypeReadHeadDirectly \<Rightarrow> do {
          (status, buf, e) \<leftarrow> evfs_hard_read_cluster_head cid (task_data task) (env s);
          Some (task\<lparr>task_data := buf, task_status := status\<rparr>, s\<lparr>env := e\<rparr>)
        }
      | kEvfsCacheIOTypeWrite \<Rightarrow> do {
          d \<leftarrow> task_data task;
          (status, s) \<leftarrow> evfs_cache_write_task cid d off len s;
          Some (task\<lparr>task_status := status\<rparr>, s)
        }
      | kEvfsCacheIOTypeWriteDirectly \<Rightarrow> do {
          (status, e) \<leftarrow> evfs_hard_write_cluster cid (task_data task) (env s);
          Some (task\<lparr>task_status := status\<rparr>, s\<lparr>env := e\<rparr>)
        }
      | kEvfsCacheIOTypeFlushBufferAll \<Rightarrow> do {
          s \<leftarrow> evfs_cache_flush_buffer_all s;
          Some (task\<lparr>task_status := NSP_STATUS_SUCCESSFUL\<rparr>, s)
        }
      | kEvfsCacheIOTypeFlushBuffer \<Rightarrow> do {
          s \<leftarrow> evfs_cache_flush_block_task cid s;
          Some (task\<lparr>task_status := NSP_STATUS_SUCCESSFUL\<rparr>, s)
        }
      | kEvfsCacheIOTypeAddCacheBlock \<Rightarrow>
          (case evfs_cache_add_block_to_idle len s of
             (i, s) \<Rightarrow> Some (task\<lparr>task_status := if 0 = i then posix__makeerror ENOMEM else NSP_STATUS_SUCCESSFUL\<rparr>, s))
      | kEvfsCacheIOTypeHardClose \<Rightarrow> do {
          s \<leftarrow> evfs_cache_flush_buffer_all s;
          Some (task\<lparr>task_status := NSP_STATUS_SUCCESSFUL\<rparr>, s\<lparr>env := evfs_hard_close (env s)\<rparr>)
        }
      | kEvfsCacheIOTypeHardState \<Rightarrow> do {
          cc \<leftarrow> evfs_hard_get_usable_cluster_count (env s);
          cs \<leftarrow> evfs_hard_get_cluster_size (env s);
          Some (task\<lparr>task_stat := Some \<lparr>file_size = evfs_hard_get_filesize (env s), hard_cluster_size = cs, hard_cluster_count = cc,
             hard_max_data_seg_size = evfs_hard_get_max_data_seg_size (env s), stat_cache_block_num = cache_block_num (cm s)\<rparr>,
             task_status := NSP_STATUS_SUCCESSFUL\<rparr>, s)
        }
      | kEvfsCacheIOTypeHardExpand \<Rightarrow> evfs_cache_expand_task task s
      | kEvfsCacheIOTypeChangeBlockCount \<Rightarrow> (case evfs_cache_set_block_num_task len s of (_, s) \<Rightarrow> Some (task, s))
      | kEvfsCacheIOTypeExpandFile \<Rightarrow> Some (task\<lparr>task_status := posix__makeerror EINVAL\<rparr>, s))"

definition evfs_cache_push_task_and_notify_run :: "evfs_cache_io_task \<Rightarrow> evfs_state \<Rightarrow> nsp_status \<times> evfs_state" where
  "evfs_cache_push_task_and_notify_run task s =
     (if stop (merge s) then (posix__makeerror ENODEV, s)
      else if io_count (merge s) \<ge> EVFS_MAX_IO_PENDING_COUNT then (posix__makeerror ENOMEM, s)
      else (NSP_STATUS_SUCCESSFUL, s\<lparr>merge := (merge s)\<lparr>io := io (merge s) @ [task], io_count := io_count (merge s) + 1\<rparr>\<rparr>))"

text \<open>Draining the queue gives the finished tasks in order.\<close>

fun drain :: "evfs_cache_io_task list \<Rightarrow> evfs_state \<Rightarrow> (evfs_cache_io_task list \<times> evfs_state) option" where
  "drain [] s = Some ([], s)"
| "drain (task # tasks) s = do {
     (t, s) \<leftarrow> evfs_cache_exec_task task (s\<lparr>merge := (merge s)\<lparr>io := tasks, io_count := io_count (merge s) - 1\<rparr>\<rparr>);
     (ts, s) \<leftarrow> drain tasks s;
     Some (t # ts, s)
   }"

definition evfs_cache_pop_task_until_empty :: "evfs_state \<Rightarrow> (evfs_cache_io_task list \<times> evfs_state) option" where
  "evfs_cache_pop_task_until_empty s = drain (io (merge s)) s"


section \<open>The index\<close>

lemma compare_by_id_simple: "evfs_cache_compare_by_cluster_id = avl_simple_compare fst"
  by (auto simp: fun_eq_iff evfs_cache_compare_by_cluster_id_def avl_simple_compare_def)

definition index_lookup :: "(int \<times> nat) avltree \<Rightarrow> int \<Rightarrow> (int \<times> nat) option" where
  "index_lookup t cid = avlsearch t (Some (cid, 0)) (Some evfs_cache_compare_by_cluster_id)"

definition index_ok :: "(int \<times> nat) avltree \<Rightarrow> bool" where
  "index_ok t \<longleftrightarrow> avl t \<and> avl_ordered evfs_cache_compare_by_cluster_id t"

interpretation clix: keyed_index fst AvlNull index_lookup
  "\<lambda>t n. avlinsert t (Some n) (Some evfs_cache_compare_by_cluster_id)"
  "\<lambda>t cid. avlremove_rec evfs_cache_compare_by_cluster_id t (cid, 0)"
  "avl_modify fst" index_ok
  unfolding compare_by_id_simple index_lookup_def [abs_def] index_ok_def [abs_def]
  by (rule avl_keyed_index) simp

lemma remove_by_key:
  "key n = key m \<Longrightarrow> avlremove_rec (avl_simple_compare key) t n = avlremove_rec (avl_simple_compare key) t m"
  by (induction t) (simp_all add: avl_simple_compare_def)

lemma index_insert:
  assumes "index_ok t" "index_lookup t cid = None"
  shows "\<exists>t'. avlinsert t (Some (cid, a)) (Some evfs_cache_compare_by_cluster_id) = Some t' \<and> index_ok t' \<and>
    index_lookup t' = (index_lookup t)(cid \<mapsto> (cid, a))"
  using clix.insert_new [OF assms(1), of "(cid, a)"] assms(2) by simp

lemma index_remove:
  assumes "index_ok t"
  shows "\<exists>t'. avlremove t (Some (cid, a)) None (Some evfs_cache_compare_by_cluster_id) = Some (t', None) \<and> index_ok t' \<and>
    index_lookup t' = (index_lookup t)(cid := None)"
proof (cases t)
  case AvlNull
  then show ?thesis using clix.invar_empty clix.lookup_empty by (auto simp: avlremove_def)
next
  case (AvlNode l x h r)
  obtain t' where t': "avlremove_rec evfs_cache_compare_by_cluster_id t (cid, 0) = Some (t', index_lookup t cid)" "index_ok t'"
    "index_lookup t' = (index_lookup t)(cid := None)"
    using clix.delete_ok [OF assms] by blast
  have "avlremove_rec evfs_cache_compare_by_cluster_id t (cid, a) = avlremove_rec evfs_cache_compare_by_cluster_id t (cid, 0)"
    unfolding compare_by_id_simple by (rule remove_by_key) simp
  then show ?thesis using t' AvlNode by (auto simp: avlremove_def)
qed

section \<open>The invariant\<close>

text \<open>
  Over the index \<^term>\<open>t\<close>, the lists of used, modified and unused nodes \<^term>\<open>L\<close>, \<^term>\<open>M\<close>, \<^term>\<open>I\<close> and the heap \<^term>\<open>N\<close>: the nodes of the index are the used
  ones; a used node that is not modified holds what is on the disk, whose clusters are \<^term>\<open>D\<close>; unused nodes are not modified.
\<close>

definition index_of :: "(int \<times> nat) avltree \<Rightarrow> int \<Rightarrow> nat option" where
  "index_of t cid = map_option snd (index_lookup t cid)"

definition used_node :: "(nat \<rightharpoonup> evfs_cache_node) \<Rightarrow> nat list \<Rightarrow> nat \<Rightarrow> nat \<Rightarrow> (nat \<Rightarrow> bytes) \<Rightarrow> nat \<Rightarrow> bool" where
  "used_node N M cs cc D a \<longleftrightarrow> (\<exists>n. N a = Some n \<and> length (node_data n) = cs \<and> 0 < cluster_id n \<and> cluster_id n < int cc \<and>
     (if a \<in> set M then node_state n = kEvfsCacheBlockDirty
      else node_state n = kEvfsCacheBlockClean \<and> node_data n = D (nat (cluster_id n))))"

definition spare_node :: "(nat \<rightharpoonup> evfs_cache_node) \<Rightarrow> nat \<Rightarrow> nat \<Rightarrow> bool" where
  "spare_node N cs a \<longleftrightarrow> (\<exists>n. N a = Some n \<and> length (node_data n) = cs \<and> node_state n \<noteq> kEvfsCacheBlockDirty)"

definition shelf :: "(int \<times> nat) avltree \<Rightarrow> nat list \<Rightarrow> nat list \<Rightarrow> nat list \<Rightarrow> (nat \<rightharpoonup> evfs_cache_node) \<Rightarrow> nat \<Rightarrow> nat \<Rightarrow> (nat \<Rightarrow> bytes) \<Rightarrow> bool" where
  "shelf t L M I N cs cc D \<longleftrightarrow> index_ok t \<and>
     (\<forall>c a. index_of t c = Some a \<longleftrightarrow> a \<in> set L \<and> (\<exists>n. N a = Some n \<and> cluster_id n = c)) \<and>
     (\<forall>a \<in> set L. used_node N M cs cc D a) \<and> (\<forall>a \<in> set I. spare_node N cs a) \<and>
     distinct L \<and> distinct I \<and> set L \<inter> set I = {} \<and> distinct M \<and> set M \<subseteq> set L"

definition cache_inv :: "nat \<Rightarrow> string \<Rightarrow> evfs_state \<Rightarrow> nat \<Rightarrow> nat \<Rightarrow> (nat \<Rightarrow> bytes) \<Rightarrow> bool" where
  "cache_inv ecc path s cs cc D \<longleftrightarrow>
     store_holds ecc path (env s) cs cc D \<and> cache_cluster_size (cm s) = int cs \<and> lcount (dirty (cm s)) = int (length (lhead (dirty (cm s)))) \<and>
     shelf (root_of_lru_index (cm s)) (lhead (lru (cm s))) (lhead (dirty (cm s))) (lhead (idle (cm s))) (nodes (cm s)) cs cc D"

text \<open>A node that is in no list.\<close>

definition detached :: "nat list \<Rightarrow> nat list \<Rightarrow> (nat \<rightharpoonup> evfs_cache_node) \<Rightarrow> nat \<Rightarrow> nat \<Rightarrow> bool" where
  "detached L I N cs a \<longleftrightarrow> spare_node N cs a \<and> a \<notin> set L \<and> a \<notin> set I"

text \<open>The clusters as a user of the cache sees them.\<close>

definition seen :: "(int \<times> nat) avltree \<Rightarrow> (nat \<rightharpoonup> evfs_cache_node) \<Rightarrow> (nat \<Rightarrow> bytes) \<Rightarrow> nat \<Rightarrow> bytes" where
  "seen t N D c = (case index_of t (int c) of None \<Rightarrow> D c | Some a \<Rightarrow> (case N a of None \<Rightarrow> D c | Some n \<Rightarrow> node_data n))"

definition view :: "evfs_state \<Rightarrow> (nat \<Rightarrow> bytes) \<Rightarrow> nat \<Rightarrow> bytes" where
  "view s = seen (root_of_lru_index (cm s)) (nodes (cm s))"

lemma search_index_of: "evfs_cache_search_lru cid s = index_of (root_of_lru_index (cm s)) cid"
  by (simp add: evfs_cache_search_lru_def index_of_def index_lookup_def)

lemma shelf_index:
  "shelf t L M I N cs cc D \<Longrightarrow> index_of t c = Some a \<longleftrightarrow> a \<in> set L \<and> (\<exists>n. N a = Some n \<and> cluster_id n = c)"
  unfolding shelf_def by blast

lemma shelf_used: "shelf t L M I N cs cc D \<Longrightarrow> a \<in> set L \<Longrightarrow> used_node N M cs cc D a"
  and shelf_spare: "shelf t L M I N cs cc D \<Longrightarrow> a \<in> set I \<Longrightarrow> spare_node N cs a"
  unfolding shelf_def by blast+

lemma shelf_lists:
  assumes "shelf t L M I N cs cc D"
  shows "distinct L" "distinct I" "set L \<inter> set I = {}" "distinct M" "set M \<subseteq> set L" "index_ok t"
  using assms unfolding shelf_def by blast+

lemma shelfI:
  assumes "index_ok t" "\<And>c a. index_of t c = Some a \<longleftrightarrow> a \<in> set L \<and> (\<exists>n. N a = Some n \<and> cluster_id n = c)"
    and "\<And>a. a \<in> set L \<Longrightarrow> used_node N M cs cc D a" "\<And>a. a \<in> set I \<Longrightarrow> spare_node N cs a"
    and "distinct L" "distinct I" "set L \<inter> set I = {}" "distinct M" "set M \<subseteq> set L"
  shows "shelf t L M I N cs cc D"
  unfolding shelf_def using assms by blast

lemma used_frame:
  "used_node N M cs cc D b \<Longrightarrow> b \<noteq> a \<Longrightarrow> b \<in> set M' \<longleftrightarrow> b \<in> set M \<Longrightarrow>
   (\<And>n. N b = Some n \<Longrightarrow> D' (nat (cluster_id n)) = D (nat (cluster_id n))) \<Longrightarrow> used_node (N(a \<mapsto> m)) M' cs cc D' b"
  by (auto simp: used_node_def)

lemma spare_frame: "spare_node N cs b \<Longrightarrow> b \<noteq> a \<Longrightarrow> spare_node (N(a \<mapsto> m)) cs b"
  by (simp add: spare_node_def)

lemma used_data:
  assumes "used_node N M cs cc D a" "N a = Some n"
  shows "length (node_data n) = cs" "0 < cluster_id n" "cluster_id n < int cc" "a \<in> set M \<longleftrightarrow> node_state n = kEvfsCacheBlockDirty"
    "node_state n \<noteq> kEvfsCacheBlockDirty \<Longrightarrow> node_data n = D (nat (cluster_id n))"
  using assms by (auto simp: used_node_def split: if_splits)

lemma shelf_hit:
  assumes "shelf t L M I N cs cc D" "index_of t c = Some a"
  obtains n where "a \<in> set L" "N a = Some n" "cluster_id n = c" "length (node_data n) = cs" "0 < c" "c < int cc"
    "seen t N D (nat c) = node_data n"
proof -
  obtain n where n: "a \<in> set L" "N a = Some n" "cluster_id n = c" using shelf_index [OF assms(1), of c a] assms(2) by auto
  note u = used_data [OF shelf_used [OF assms(1) n(1)] n(2)]
  show ?thesis by (rule that [OF n u(1)]) (use u n assms(2) in \<open>simp_all add: seen_def\<close>)
qed

lemma seen_miss: "index_of t (int c) = None \<Longrightarrow> seen t N D c = D c"
  by (simp add: seen_def)

text \<open>The order of the used nodes does not matter.\<close>

lemma shelf_to_tail:
  assumes "shelf t L M I N cs cc D" "a \<in> set L"
  shows "shelf t (remove1 a L @ [a]) M I N cs cc D"
proof -
  have "set (remove1 a L @ [a]) = set L" "distinct (remove1 a L @ [a])" using assms(2) shelf_lists(1) [OF assms(1)] by auto
  then show ?thesis using assms(1) unfolding shelf_def by simp
qed

text \<open>New content in a used node makes it a modified one.\<close>

definition mark :: "nat \<Rightarrow> nat list \<Rightarrow> nat list" where
  "mark a M = (if a \<in> set M then M else M @ [a])"

lemma shelf_modify:
  assumes sh: "shelf t L M I N cs cc D" and "index_of t c = Some a" "N a = Some n" "length d = cs"
  defines "N' \<equiv> N(a \<mapsto> n\<lparr>node_data := d, node_state := kEvfsCacheBlockDirty\<rparr>)"
  shows "shelf t L (mark a M) I N' cs cc D" "seen t N' D = (seen t N D)(nat c := d)"
proof -
  obtain n' where n: "a \<in> set L" "N a = Some n'" "cluster_id n' = c" "0 < c" "c < int cc" by (rule shelf_hit [OF sh assms(2)])
  have one: "c' = c" if "index_of t c' = Some a" for c' using shelf_index [OF sh, of c' a] that n(2,3) by auto
  note lists = shelf_lists [OF sh]
  show "shelf t L (mark a M) I N' cs cc D"
  proof (rule shelfI)
    fix b assume b: "b \<in> set L"
    show "used_node N' (mark a M) cs cc D b"
    proof (cases "b = a")
      case True
      then show ?thesis using n assms(3,4) by (simp add: used_node_def N'_def mark_def)
    next
      case False
      then show ?thesis unfolding N'_def using used_frame [OF shelf_used [OF sh b], of a "mark a M" D] by (simp add: mark_def)
    qed
  next
    fix b assume "b \<in> set I"
    then show "spare_node N' cs b" using spare_frame [OF shelf_spare [OF sh], of b a] n(1) lists(3) by (auto simp: N'_def)
  next
    fix c' b
    show "index_of t c' = Some b \<longleftrightarrow> b \<in> set L \<and> (\<exists>n. N' b = Some n \<and> cluster_id n = c')"
      unfolding shelf_index [OF sh] using assms(3) by (simp add: N'_def)
  qed (use lists n(1) in \<open>auto simp: mark_def\<close>)
  show "seen t N' D = (seen t N D)(nat c := d)"
  proof
    fix c'
    show "seen t N' D c' = ((seen t N D)(nat c := d)) c'"
    proof (cases "int c' = c")
      case True
      then show ?thesis using assms(2) n(4) by (auto simp: seen_def N'_def)
    next
      case False
      then have "index_of t (int c') \<noteq> Some a" "c' \<noteq> nat c" using one [of "int c'"] n(4) by auto
      then show ?thesis by (auto simp: seen_def N'_def split: option.split)
    qed
  qed
qed

text \<open>A node that is in no list is loaded and becomes a used one.\<close>

lemma index_of_update: "index_lookup t' = (index_lookup t)(c \<mapsto> (c, a)) \<Longrightarrow> index_of t' = (index_of t)(c \<mapsto> a)"
  "index_lookup t' = (index_lookup t)(c := None) \<Longrightarrow> index_of t' = (index_of t)(c := None)"
  by (auto simp: index_of_def)

lemma index_of_None: "index_of t c = None \<longleftrightarrow> index_lookup t c = None"
  by (simp add: index_of_def)

lemma shelf_admit:
  assumes sh: "shelf t L M I N cs cc D" and "detached L I N cs a" "index_of t c = None" "0 < c" "c < int cc"
    and "cluster_id n = c" "length (node_data n) = cs" "index_ok t'" "index_of t' = (index_of t)(c \<mapsto> a)"
    and M': "M' = M \<and> node_state n = kEvfsCacheBlockClean \<and> node_data n = D (nat c) \<or> M' = M @ [a] \<and> node_state n = kEvfsCacheBlockDirty"
  shows "shelf t' (L @ [a]) M' I (N(a \<mapsto> n)) cs cc D" "seen t' (N(a \<mapsto> n)) D = (seen t N D)(nat c := node_data n)"
proof -
  let ?N = "N(a \<mapsto> n)"
  note lists = shelf_lists [OF sh]
  have d: "a \<notin> set L" "a \<notin> set I" "a \<notin> set M" using assms(2) lists(5) by (auto simp: detached_def)
  have free: "index_of t c' \<noteq> Some a" for c' unfolding shelf_index [OF sh] using d by simp
  have miss: "b \<notin> set L" if "N b = Some m" "cluster_id m = c" for b m using shelf_index [OF sh, of c b] that assms(3) by auto
  have mem: "b \<in> set M' \<longleftrightarrow> b \<in> set M" if "b \<noteq> a" for b using M' that by auto
  show "shelf t' (L @ [a]) M' I ?N cs cc D"
  proof (rule shelfI)
    fix b assume b: "b \<in> set (L @ [a])"
    show "used_node ?N M' cs cc D b"
    proof (cases "b = a")
      case True
      then show ?thesis using M' d(3) assms(4-7) by (auto simp: used_node_def)
    next
      case False
      then show ?thesis using b used_frame [OF shelf_used [OF sh], of b a M' D n] mem by simp
    qed
  next
    fix b assume "b \<in> set I"
    then show "spare_node ?N cs b" using spare_frame [OF shelf_spare [OF sh], of b a] d(2) by metis
  next
    fix c' b
    show "index_of t' c' = Some b \<longleftrightarrow> b \<in> set (L @ [a]) \<and> (\<exists>m. ?N b = Some m \<and> cluster_id m = c')"
      unfolding assms(9) using shelf_index [OF sh, of c' b] free [of c'] miss [of b] assms(6) d(1)
      by (cases "c' = c"; cases "b = a") auto
  qed (use lists d M' assms(8) in auto)
  show "seen t' ?N D = (seen t N D)(nat c := node_data n)"
  proof
    fix c'
    show "seen t' ?N D c' = ((seen t N D)(nat c := node_data n)) c'"
      using free [of "int c'"] assms(4) by (auto simp: seen_def assms(9) split: option.split)
  qed
qed

text \<open>Taking the least recently used node out and writing it back if it was modified keeps what users see.\<close>

definition written_back :: "evfs_cache_node \<Rightarrow> (nat \<Rightarrow> bytes) \<Rightarrow> nat \<Rightarrow> bytes" where
  "written_back n D = (if node_state n = kEvfsCacheBlockDirty then D(nat (cluster_id n) := node_data n) else D)"

lemma shelf_evict:
  assumes sh: "shelf t (a # L) M I N cs cc D" and "N a = Some n" "index_ok t'" "index_of t' = (index_of t)(cluster_id n := None)"
  defines "N' \<equiv> N(a \<mapsto> n\<lparr>node_state := kEvfsCacheBlockClean\<rparr>)"
  shows "shelf t' L (remove1 a M) I N' cs cc (written_back n D)" "seen t' N' (written_back n D) = seen t N D" "detached L I N' cs a"
proof -
  note lists = shelf_lists [OF sh]
  note n = used_data [OF shelf_used [OF sh, of a] assms(2), simplified]
  have d: "a \<notin> set L" "a \<notin> set I" "distinct M" using lists by auto
  have ia: "index_of t (cluster_id n) = Some a" unfolding shelf_index [OF sh] using assms(2) by simp
  have other: "cluster_id m \<noteq> cluster_id n" if "b \<in> set L" "N b = Some m" for b m
    using shelf_index [OF sh, of "cluster_id m" b] that ia d(1) by auto
  have keep: "written_back n D (nat (cluster_id m)) = D (nat (cluster_id m))" if "b \<in> set L" "N b = Some m" for b m
    using other [OF that] used_data(2) [OF shelf_used [OF sh, of b] that(2)] that(1) n(2) by (auto simp: written_back_def)
  show "shelf t' L (remove1 a M) I N' cs cc (written_back n D)"
  proof (rule shelfI)
    fix b assume b: "b \<in> set L"
    then have "b \<noteq> a" using d(1) by auto
    then show "used_node N' (remove1 a M) cs cc (written_back n D) b"
      using used_frame [OF shelf_used [OF sh, of b], of a "remove1 a M" "written_back n D"] b keep [OF b] d(3) by (simp add: N'_def)
  next
    fix b assume "b \<in> set I"
    then show "spare_node N' cs b" using spare_frame [OF shelf_spare [OF sh], of b a] d(2) unfolding N'_def by metis
  next
    fix c' b
    show "index_of t' c' = Some b \<longleftrightarrow> b \<in> set L \<and> (\<exists>m. N' b = Some m \<and> cluster_id m = c')"
      unfolding assms(4) using shelf_index [OF sh, of c' b] other [of b] d(1) assms(2) ia
      by (cases "c' = cluster_id n"; cases "b = a") (auto simp: N'_def)
  next
    show "set (remove1 a M) \<subseteq> set L" using lists(4,5) by auto
  qed (use lists assms(3) in \<open>auto simp: distinct_remove1\<close>)
  show "detached L I N' cs a" using d n(1) by (auto simp: detached_def spare_node_def N'_def)
  show "seen t' N' (written_back n D) = seen t N D"
  proof
    fix c'
    show "seen t' N' (written_back n D) c' = seen t N D c'"
    proof (cases "int c' = cluster_id n")
      case True
      then have "index_of t (int c') = Some a" using ia by simp
      then show ?thesis using n(2,5) assms(2) True [symmetric] by (auto simp: seen_def assms(4) written_back_def)
    next
      case False
      then have "index_of t (int c') \<noteq> Some a" using shelf_index [OF sh, of "int c'" a] assms(2) by auto
      moreover have "written_back n D c' = D c'" using False n(2) by (auto simp: written_back_def)
      ultimately show ?thesis using False by (auto simp: seen_def assms(4) N'_def split: option.split)
    qed
  qed
qed


section \<open>Steps of the worker\<close>

text \<open>Blocks larger than a cluster, as the uncached path uses them.\<close>

lemma store_cluster_length: "store_holds ecc path e cs cc D \<Longrightarrow> c < cc \<Longrightarrow> length (D c) = cs \<and> 32 \<le> cs"
proof -
  assume h: "store_holds ecc path e cs cc D" and c: "c < cc"
  obtain d where d: "length d = cs * cc" "32 \<le> cs" "\<forall>i < cc. cluster_of d cs i = D i"
    using h by (auto simp: store_holds_def store_ok_def)
  then have "D c = take cs (drop (c * cs) d)" using c by (simp add: cluster_of_def)
  then show ?thesis using cluster_bound [OF c, of cs] d by simp
qed

lemma store_read:
  assumes "store_holds ecc path e cs cc D" "c < cc" "cs \<le> length buf"
  shows "\<exists>e'. evfs_hard_read_cluster (int c) (Some buf) e = Some (0, Some (D c @ drop cs buf), e') \<and> store_holds ecc path e' cs cc D"
proof -
  obtain d where d: "calm (kern e)" "store_ok e cs cc ecc path d" "\<forall>i < cc. cluster_of d cs i = D i" "roomy e" "0 < next_fd (kern e)"
    using assms(1) by (auto simp: store_holds_def)
  have l: "length (D c) = cs" "0 < cs" using store_cluster_length [OF assms(1,2)] by auto
  obtain e' where "evfs_hard_read_cluster (int c) (Some buf) e = Some (0, Some (D c @ drop cs buf), e')" "store_ok e' cs cc ecc path d"
    "calm (kern e')" "roomy e'" "0 < next_fd (kern e')"
    using read_at_spec [OF d(2) assms(2), of "\<lambda>cs. cs" cs buf] d(1,3-5) assms(2,3) l by (auto simp: evfs_hard_read_cluster_def roomy_def)
  then show ?thesis using d(3) by (auto simp: store_holds_def)
qed

lemma store_write:
  assumes "store_holds ecc path e cs cc D" "c < cc" "cs \<le> length buf"
  shows "\<exists>e'. evfs_hard_write_cluster (int c) (Some buf) e = Some (0, e') \<and> store_holds ecc path e' cs cc (D(c := take cs buf))"
proof -
  obtain d where d: "calm (kern e)" "store_ok e cs cc ecc path d" "\<forall>i < cc. cluster_of d cs i = D i" "roomy e" "0 < next_fd (kern e)"
    using assms(1) by (auto simp: store_holds_def)
  have l: "length d = cs * cc" "(c + 1) * cs \<le> length d" "length (take cs buf) = cs"
    using d(2) cluster_bound [OF assms(2), of cs] assms(3) by (auto simp: store_ok_def)
  obtain e' where w: "evfs_hard_write_cluster (int c) (Some buf) e = Some (0, e')" "calm (kern e')"
    "store_ok e' cs cc ecc path (file_write d (c * cs) (take cs buf))" "roomy e'" "0 < next_fd (kern e')"
    using write_cluster_spec [OF d(2) assms(2,3)] d(1,4,5) by (auto simp: roomy_def)
  have "cluster_of (file_write d (c * cs) (take cs buf)) cs i = (D(c := take cs buf)) i" if "i < cc" for i
    using cluster_other [OF l(1) that assms(2), of "take cs buf"] cluster_same [OF l(2,3)] d(3) l(3) that by (cases "i = c") auto
  then show ?thesis using w by (auto simp: store_holds_def)
qed

text \<open>What no step changes: the number of blocks, the queue, the allocated nodes.\<close>

definition blocks :: "evfs_state \<Rightarrow> nat" where
  "blocks s = length (lhead (lru (cm s))) + length (lhead (idle (cm s)))"

definition kept :: "evfs_state \<Rightarrow> evfs_state \<Rightarrow> bool" where
  "kept s s' \<longleftrightarrow> cache_block_num (cm s') = cache_block_num (cm s) \<and> cache_ready (cm s') = cache_ready (cm s) \<and> merge s' = merge s \<and>
     fresh (cm s') = fresh (cm s) \<and> dom (nodes (cm s')) = dom (nodes (cm s))"

lemma kept_refl [simp]: "kept s s"
  by (simp add: kept_def)

lemma kept_trans: "kept a b \<Longrightarrow> kept b c \<Longrightarrow> kept a c"
  by (simp add: kept_def)

abbreviation free_of :: "evfs_state \<Rightarrow> nat \<Rightarrow> nat \<Rightarrow> bool" where
  "free_of s cs a \<equiv> detached (lhead (lru (cm s))) (lhead (idle (cm s))) (nodes (cm s)) cs a"

abbreviation cached :: "evfs_state \<Rightarrow> int \<Rightarrow> nat option" where
  "cached s \<equiv> index_of (root_of_lru_index (cm s))"

lemma mem_read_data: "length d = cs \<Longrightarrow> 0 \<le> off \<Longrightarrow> 0 \<le> len \<Longrightarrow> off + len \<le> int cs \<Longrightarrow>
   mem_read d (nat off) (nat len) = Some (take (nat len) (drop (nat off) d))"
  by (simp add: mem_read_def nat_add_distrib [symmetric])

definition splice :: "bytes \<Rightarrow> nat \<Rightarrow> bytes \<Rightarrow> bytes" where
  "splice d off bs = take off d @ bs @ drop (off + length bs) d"

lemma mem_write_data: "length d = cs \<Longrightarrow> 0 \<le> off \<Longrightarrow> length bs = nat len \<Longrightarrow> 0 \<le> len \<Longrightarrow> off + len \<le> int cs \<Longrightarrow>
   mem_write d (nat off) bs = Some (splice d (nat off) bs) \<and> length (splice d (nat off) bs) = cs"
  by (auto simp: mem_write_def splice_def)

lemma read_hit:
  assumes "cache_inv ecc path s cs cc D" "cached s (int c) = Some a" "0 \<le> off" "0 \<le> len" "off + len \<le> int cs"
  shows "\<exists>s'. evfs_cache_read_from_lru (int c) off len s = Some (0, Some (take (nat len) (drop (nat off) (view s D c))), s') \<and>
    cache_inv ecc path s' cs cc D \<and> view s' D = view s D \<and> kept s s' \<and> blocks s' = blocks s"
proof -
  have sh: "shelf (root_of_lru_index (cm s)) (lhead (lru (cm s))) (lhead (dirty (cm s))) (lhead (idle (cm s))) (nodes (cm s)) cs cc D"
    using assms(1) by (simp add: cache_inv_def)
  obtain n where n: "a \<in> set (lhead (lru (cm s)))" "nodes (cm s) a = Some n" "length (node_data n) = cs" "view s D c = node_data n"
    using shelf_hit [OF sh assms(2)] unfolding view_def nat_int by metis
  define s' where "s' = count_hit (evfs_cache_move_lru_to_tail a s)"
  have "evfs_cache_read_from_lru (int c) off len s = Some (0, Some (take (nat len) (drop (nat off) (view s D c))), s')"
    using assms(2-5) n mem_read_data [OF n(3) assms(3-5)]
    by (simp add: evfs_cache_read_from_lru_def search_index_of evfs_cache_move_lru_to_tail_def s'_def NSP_STATUS_SUCCESSFUL_def)
  moreover have "cache_inv ecc path s' cs cc D"
    using assms(1) shelf_to_tail [OF sh n(1)] by (simp add: cache_inv_def s'_def count_hit_def evfs_cache_move_lru_to_tail_def)
  moreover have "0 < length (lhead (lru (cm s)))" using n(1) by (cases "lhead (lru (cm s))") auto
  then have "blocks s' = blocks s" using n(1)
    by (simp add: blocks_def s'_def count_hit_def evfs_cache_move_lru_to_tail_def length_remove1)
  ultimately show ?thesis by (simp add: s'_def view_def kept_def count_hit_def evfs_cache_move_lru_to_tail_def)
qed

lemma push_dirty_run:
  assumes "get_node s a = Some n"
  shows "\<exists>s'. evfs_cache_push_dirty a s = Some s' \<and> env s' = env s \<and> merge s' = merge s \<and>
    cm s' = (cm s)\<lparr>nodes := (nodes (cm s))(a \<mapsto> n\<lparr>node_state := kEvfsCacheBlockDirty\<rparr>),
      dirty := (if node_state n = kEvfsCacheBlockDirty then dirty (cm s) else list_add_tail a (dirty (cm s)))\<rparr>"
proof (cases "node_state n = kEvfsCacheBlockDirty")
  case True
  then have "(nodes (cm s))(a \<mapsto> n\<lparr>node_state := kEvfsCacheBlockDirty\<rparr>) = nodes (cm s)" using assms by (auto simp: fun_eq_iff)
  then show ?thesis using True assms by (simp add: evfs_cache_push_dirty_def)
qed (use assms in \<open>simp add: evfs_cache_push_dirty_def set_node_def\<close>)

lemma write_hit:
  assumes "cache_inv ecc path s cs cc D" "cached s (int c) = Some a" "0 \<le> off" "0 \<le> len" "off + len \<le> int cs" "nat len \<le> length data"
  shows "\<exists>s'. evfs_cache_write_to_lru (int c) data off len s = Some (0, s') \<and> cache_inv ecc path s' cs cc D \<and>
    view s' D = (view s D)(c := splice (view s D c) (nat off) (take (nat len) data)) \<and> kept s s' \<and> blocks s' = blocks s"
proof -
  let ?t = "root_of_lru_index (cm s)" and ?M = "lhead (dirty (cm s))" and ?N = "nodes (cm s)"
  have sh: "shelf ?t (lhead (lru (cm s))) ?M (lhead (idle (cm s))) ?N cs cc D" using assms(1) by (simp add: cache_inv_def)
  obtain n where n: "a \<in> set (lhead (lru (cm s)))" "?N a = Some n" "length (node_data n) = cs" "view s D c = node_data n"
    using shelf_hit [OF sh assms(2)] unfolding view_def nat_int by metis
  note dirty = used_data(4) [OF shelf_used [OF sh n(1)] n(2)]
  let ?d = "splice (node_data n) (nat off) (take (nat len) data)"
  have w: "mem_write (node_data n) (nat off) (take (nat len) data) = Some ?d" "length ?d = cs"
    using mem_write_data [OF n(3) assms(3) _ assms(4,5), of "take (nat len) data"] assms(6) by simp_all
  define s1 where "s1 = count_hit (set_node a (n\<lparr>node_data := ?d\<rparr>) (evfs_cache_move_lru_to_tail a s))"
  have s1: "get_node s1 a = Some (n\<lparr>node_data := ?d\<rparr>)" by (simp add: s1_def count_hit_def set_node_def)
  obtain s' where p: "evfs_cache_push_dirty a s1 = Some s'" "env s' = env s1" "merge s' = merge s1"
    "cm s' = (cm s1)\<lparr>nodes := (nodes (cm s1))(a \<mapsto> n\<lparr>node_data := ?d, node_state := kEvfsCacheBlockDirty\<rparr>),
       dirty := (if node_state n = kEvfsCacheBlockDirty then dirty (cm s1) else list_add_tail a (dirty (cm s1)))\<rparr>"
    using push_dirty_run [OF s1] by auto
  have "evfs_cache_write_to_lru (int c) data off len s = Some (0, s')"
    using assms(2,6) n(2) w(1) p(1)
    by (simp add: evfs_cache_write_to_lru_def search_index_of evfs_cache_move_lru_to_tail_def s1_def NSP_STATUS_SUCCESSFUL_def mem_read_def)
  moreover note mod = shelf_modify [OF shelf_to_tail [OF sh n(1)] assms(2) n(2) w(2)]
  note cm' = p(4) [unfolded s1_def count_hit_def set_node_def evfs_cache_move_lru_to_tail_def, simplified]
    and env' = p(2,3) [unfolded s1_def count_hit_def set_node_def evfs_cache_move_lru_to_tail_def, simplified]
  have "cache_inv ecc path s' cs cc D"
    using assms(1) mod(1) dirty by (auto simp: cache_inv_def cm' env' list_add_tail_def mark_def)
  moreover have "view s' D = (view s D)(c := ?d)" using mod(2) unfolding nat_int by (simp add: view_def cm')
  moreover have "0 < length (lhead (lru (cm s)))" using n(1) by (cases "lhead (lru (cm s))") auto
  then have "blocks s' = blocks s" using n(1) by (simp add: blocks_def cm' length_remove1)
  moreover have "kept s s'" using n(2) by (auto simp: kept_def cm' env')
  ultimately show ?thesis unfolding n(4) by blast
qed

abbreviation stacked :: "evfs_state \<Rightarrow> nat \<Rightarrow> nat \<Rightarrow> (nat \<Rightarrow> bytes) \<Rightarrow> bool" where
  "stacked s \<equiv> shelf (root_of_lru_index (cm s)) (lhead (lru (cm s))) (lhead (dirty (cm s))) (lhead (idle (cm s))) (nodes (cm s))"

lemma inv_stacked: "cache_inv ecc path s cs cc D \<Longrightarrow> stacked s cs cc D"
  and inv_store: "cache_inv ecc path s cs cc D \<Longrightarrow> store_holds ecc path (env s) cs cc D"
  by (simp_all add: cache_inv_def)

lemma list_del_count:
  assumes "lcount l = int (length (lhead l))" "a \<in> set (lhead l)"
  shows "lcount (list_del a l) = int (length (lhead (list_del a l)))"
proof -
  have "0 < length (lhead l)" using assms(2) by (cases "lhead l") auto
  then show ?thesis using assms by (simp add: list_del_def length_remove1 of_nat_diff Suc_le_eq)
qed

text \<open>A node in no list can change without anyone seeing it.\<close>

lemma shelf_loose:
  assumes sh: "shelf t L M I N cs cc D" and a: "a \<notin> set L" "a \<notin> set I"
  shows "shelf t L M I (N(a \<mapsto> n)) cs cc D" "seen t (N(a \<mapsto> n)) D = seen t N D"
proof -
  have free: "index_of t c \<noteq> Some a" for c unfolding shelf_index [OF sh] using a by simp
  show "shelf t L M I (N(a \<mapsto> n)) cs cc D"
  proof (rule shelfI)
    fix b assume b: "b \<in> set L"
    then show "used_node (N(a \<mapsto> n)) M cs cc D b" using used_frame [OF shelf_used [OF sh b], of a M D] a by auto
  next
    fix b assume b: "b \<in> set I"
    then show "spare_node (N(a \<mapsto> n)) cs b" using spare_frame [OF shelf_spare [OF sh b], of a n] a by metis
  next
    fix c b
    show "index_of t c = Some b \<longleftrightarrow> b \<in> set L \<and> (\<exists>m. (N(a \<mapsto> n)) b = Some m \<and> cluster_id m = c)"
      unfolding shelf_index [OF sh] using a by auto
  qed (use shelf_lists [OF sh] in auto)
  show "seen t (N(a \<mapsto> n)) D = seen t N D" using free by (auto simp: seen_def fun_eq_iff split: option.split)
qed

lemma shelf_take_idle:
  assumes sh: "shelf t L M (a # I) N cs cc D"
  shows "shelf t L M I N cs cc D" "detached L I N cs a"
proof -
  show "shelf t L M I N cs cc D" using sh unfolding shelf_def by auto
  show "detached L I N cs a" using shelf_spare [OF sh, of a] shelf_lists [OF sh] by (auto simp: detached_def)
qed

lemma load_spec:
  assumes "cache_inv ecc path s cs cc D" "c < cc" "free_of s cs a"
  shows "\<exists>e' n. load_node (int c) a s = Some (0, set_node a (n\<lparr>node_data := D c\<rparr>) (s\<lparr>env := e'\<rparr>)) \<and>
    store_holds ecc path e' cs cc D \<and> get_node s a = Some n \<and> node_state n \<noteq> kEvfsCacheBlockDirty"
proof -
  obtain n where n: "get_node s a = Some n" "length (node_data n) = cs" "node_state n \<noteq> kEvfsCacheBlockDirty"
    using assms(3) by (auto simp: detached_def spare_node_def)
  obtain e' where "evfs_hard_read_cluster (int c) (Some (node_data n)) (env s) = Some (0, Some (D c), e')" "store_holds ecc path e' cs cc D"
    using disk.rd_law [OF inv_store [OF assms(1)] assms(2) n(2)] by blast
  then show ?thesis using n by (auto simp: load_node_def)
qed

lemma push_lru_run:
  assumes "get_node s a = Some n" "cluster_id n = c" "index_ok (root_of_lru_index (cm s))" "cached s c = None"
  shows "\<exists>t'. evfs_cache_push_lru a s = Some (s\<lparr>cm := (cm s)\<lparr>lru := list_add_tail a (lru (cm s)), root_of_lru_index := t'\<rparr>\<rparr>) \<and>
    index_ok t' \<and> index_of t' = (cached s)(c \<mapsto> a)"
  using index_insert [OF assms(3), of c a] assms index_of_update(1) by (fastforce simp: evfs_cache_push_lru_def index_of_None)

text \<open>A free node is filled from the disk and becomes a used one.\<close>

lemma fill_read:
  assumes inv: "cache_inv ecc path s cs cc D" and c: "0 < c" "c < cc" "cached s (int c) = None" and a: "free_of s cs a"
    and off: "0 \<le> off" "0 \<le> len" "off + len \<le> int cs"
  shows "\<exists>s1 s'. load_node (int c) a s = Some (0, s1) \<and>
    finish_read (int c) a off len 0 s1 = Some (0, Some (take (nat len) (drop (nat off) (view s D c))), s') \<and>
    cache_inv ecc path s' cs cc D \<and> view s' D = view s D \<and> kept s s' \<and> blocks s' = blocks s + 1"
proof -
  obtain e' n where l: "load_node (int c) a s = Some (0, set_node a (n\<lparr>node_data := D c\<rparr>) (s\<lparr>env := e'\<rparr>))"
    "store_holds ecc path e' cs cc D" "get_node s a = Some n"
    using load_spec [OF inv c(2) a] by blast
  note sh = inv_stacked [OF inv]
  have len: "length (D c) = cs" using store_cluster_length [OF inv_store [OF inv] c(2)] by simp
  let ?n = "n\<lparr>node_data := D c, cluster_id := int c, node_state := kEvfsCacheBlockClean\<rparr>"
  define s2 where "s2 = set_node a ?n (s\<lparr>env := e'\<rparr>)"
  have s2: "get_node s2 a = Some ?n" "root_of_lru_index (cm s2) = root_of_lru_index (cm s)" by (simp_all add: s2_def set_node_def)
  obtain t' where p: "evfs_cache_push_lru a s2 = Some (s2\<lparr>cm := (cm s2)\<lparr>lru := list_add_tail a (lru (cm s2)), root_of_lru_index := t'\<rparr>\<rparr>)"
    "index_ok t'" "index_of t' = (cached s)(int c \<mapsto> a)"
    using push_lru_run [OF s2(1), of "int c"] s2(2) shelf_lists(6) [OF sh] c(3) by auto
  have seen: "view s D c = D c" using c(3) by (simp add: view_def seen_miss)
  define s' where "s' = s2\<lparr>cm := (cm s2)\<lparr>lru := list_add_tail a (lru (cm s2)), root_of_lru_index := t'\<rparr>\<rparr>"
  have run: "finish_read (int c) a off len 0 (set_node a (n\<lparr>node_data := D c\<rparr>) (s\<lparr>env := e'\<rparr>)) =
      Some (0, Some (take (nat len) (drop (nat off) (D c))), s')"
    using mem_read_data [OF len off] p(1) by (simp add: finish_read_def set_node_def s2_def s'_def)
  note adm = shelf_admit [OF sh a c(3), of ?n t' "lhead (dirty (cm s))"]
  have "shelf t' (lhead (lru (cm s)) @ [a]) (lhead (dirty (cm s))) (lhead (idle (cm s))) ((nodes (cm s))(a \<mapsto> ?n)) cs cc D"
    by (rule adm(1)) (use c len p(2,3) in simp_all)
  then have "cache_inv ecc path s' cs cc D"
    using inv l(2) by (simp add: cache_inv_def s'_def s2_def set_node_def list_add_tail_def)
  moreover have "seen t' ((nodes (cm s))(a \<mapsto> ?n)) D = (view s D)(nat (int c) := node_data ?n)"
    unfolding view_def by (rule adm(2)) (use c len p(2,3) in simp_all)
  then have "view s' D = view s D" using seen by (simp add: view_def s'_def s2_def set_node_def fun_upd_idem)
  moreover have "kept s s'" using l(3) by (auto simp: kept_def s'_def s2_def set_node_def)
  moreover have "blocks s' = blocks s + 1" by (simp add: blocks_def s'_def s2_def set_node_def list_add_tail_def)
  ultimately show ?thesis using l(1) run unfolding seen by blast
qed

lemma fill_write:
  assumes inv: "cache_inv ecc path s cs cc D" and c: "0 < c" "c < cc" "cached s (int c) = None" and a: "free_of s cs a"
    and off: "0 \<le> off" "0 \<le> len" "off + len \<le> int cs" "nat len \<le> length data"
  shows "\<exists>s1 s'. load_node (int c) a s = Some (0, s1) \<and> finish_write (int c) a data off len 0 s1 = Some (0, s') \<and>
    cache_inv ecc path s' cs cc D \<and> view s' D = (view s D)(c := splice (view s D c) (nat off) (take (nat len) data)) \<and>
    kept s s' \<and> blocks s' = blocks s + 1"
proof -
  obtain e' n where l: "load_node (int c) a s = Some (0, set_node a (n\<lparr>node_data := D c\<rparr>) (s\<lparr>env := e'\<rparr>))"
    "store_holds ecc path e' cs cc D" "get_node s a = Some n" "node_state n \<noteq> kEvfsCacheBlockDirty"
    using load_spec [OF inv c(2) a] by blast
  note sh = inv_stacked [OF inv]
  have len: "length (D c) = cs" using store_cluster_length [OF inv_store [OF inv] c(2)] by simp
  let ?d = "splice (D c) (nat off) (take (nat len) data)"
  have w: "mem_write (D c) (nat off) (take (nat len) data) = Some ?d" "length ?d = cs"
    using mem_write_data [OF len off(1) _ off(2,3), of "take (nat len) data"] off(4) by simp_all
  let ?m = "n\<lparr>cluster_id := int c, node_data := ?d\<rparr>"
  let ?n = "?m\<lparr>node_state := kEvfsCacheBlockDirty\<rparr>"
  define s1 where "s1 = set_node a ?m (s\<lparr>env := e'\<rparr>)"
  have s1: "get_node s1 a = Some ?m" by (simp add: s1_def set_node_def)
  obtain s2 where p: "evfs_cache_push_dirty a s1 = Some s2" "env s2 = env s1" "merge s2 = merge s1"
    "cm s2 = (cm s1)\<lparr>nodes := (nodes (cm s1))(a \<mapsto> ?n), dirty := list_add_tail a (dirty (cm s1))\<rparr>"
    using push_dirty_run [OF s1] l(4) by auto
  note cm2 = p(4) [unfolded s1_def set_node_def, simplified] and env2 = p(2,3) [unfolded s1_def set_node_def, simplified]
  have s2: "get_node s2 a = Some ?n" "root_of_lru_index (cm s2) = root_of_lru_index (cm s)" by (simp_all add: cm2)
  obtain t' where q: "evfs_cache_push_lru a s2 = Some (s2\<lparr>cm := (cm s2)\<lparr>lru := list_add_tail a (lru (cm s2)), root_of_lru_index := t'\<rparr>\<rparr>)"
    "index_ok t'" "index_of t' = (cached s)(int c \<mapsto> a)"
    using push_lru_run [OF s2(1), of "int c"] s2(2) shelf_lists(6) [OF sh] c(3) by auto
  have seen: "view s D c = D c" using c(3) by (simp add: view_def seen_miss)
  define s' where "s' = s2\<lparr>cm := (cm s2)\<lparr>lru := list_add_tail a (lru (cm s2)), root_of_lru_index := t'\<rparr>\<rparr>"
  have run: "finish_write (int c) a data off len 0 (set_node a (n\<lparr>node_data := D c\<rparr>) (s\<lparr>env := e'\<rparr>)) = Some (0, s')"
    using w(1) off(4) p(1) q(1) by (simp add: finish_write_def set_node_def s1_def s'_def mem_read_def)
  note adm = shelf_admit [OF sh a c(3), of ?n t' "lhead (dirty (cm s)) @ [a]"]
  have "shelf t' (lhead (lru (cm s)) @ [a]) (lhead (dirty (cm s)) @ [a]) (lhead (idle (cm s))) ((nodes (cm s))(a \<mapsto> ?n)) cs cc D"
    by (rule adm(1)) (use c w(2) q(2,3) in simp_all)
  then have "cache_inv ecc path s' cs cc D"
    using inv l(2) by (simp add: cache_inv_def s'_def cm2 env2 list_add_tail_def)
  moreover have "seen t' ((nodes (cm s))(a \<mapsto> ?n)) D = (view s D)(nat (int c) := node_data ?n)"
    unfolding view_def by (rule adm(2)) (use c w(2) q(2,3) in simp_all)
  then have "view s' D = (view s D)(c := ?d)" by (simp add: view_def s'_def cm2)
  moreover have "kept s s'" using l(3) by (auto simp: kept_def s'_def cm2 env2)
  moreover have "blocks s' = blocks s + 1" by (simp add: blocks_def s'_def cm2 list_add_tail_def)
  ultimately show ?thesis using l(1) run unfolding seen by blast
qed

text \<open>The least recently used node is written back if it is modified, and is then free.\<close>

lemma flush_run:
  assumes "get_node s a = Some n" "store_holds ecc path (env s) cs cc D" "length (node_data n) = cs"
    "0 < cluster_id n" "cluster_id n < int cc"
  shows "\<exists>s'. evfs_cache_flush_block_if_dirty a s = Some s' \<and> store_holds ecc path (env s') cs cc (written_back n D) \<and> merge s' = merge s \<and>
    cm s' = (if node_state n = kEvfsCacheBlockDirty then (cm s)\<lparr>nodes := (nodes (cm s))(a \<mapsto> n\<lparr>node_state := kEvfsCacheBlockClean\<rparr>), dirty := list_del a (dirty (cm s))\<rparr> else cm s)"
proof (cases "node_state n = kEvfsCacheBlockDirty")
  case True
  have c: "cluster_id n = int (nat (cluster_id n))" "nat (cluster_id n) < cc" using assms(4,5) by auto
  obtain e where e: "evfs_hard_write_cluster (cluster_id n) (Some (node_data n)) (env s) = Some (0, e)"
    "store_holds ecc path e cs cc (D(nat (cluster_id n) := node_data n))"
    using disk.wr_law [OF assms(2) c(2) assms(3)] c(1) by auto
  then show ?thesis using True assms(1) by (simp add: evfs_cache_flush_block_if_dirty_def set_node_def written_back_def)
qed (use assms in \<open>auto simp: evfs_cache_flush_block_if_dirty_def written_back_def\<close>)

lemma evict:
  assumes inv: "cache_inv ecc path s cs cc D" and L: "lhead (lru (cm s)) = a # L"
  shows "\<exists>s1 s2 D'. evfs_cache_pop_lru s = Some (Some a, s1) \<and> evfs_cache_flush_block_if_dirty a s1 = Some s2 \<and>
    cache_inv ecc path s2 cs cc D' \<and> view s2 D' = view s D \<and> free_of s2 cs a \<and> kept s s2 \<and> blocks s2 + 1 = blocks s \<and>
    (\<forall>c. cached s c = None \<longrightarrow> cached s2 c = None)"
proof -
  note sh = inv_stacked [OF inv, unfolded L]
  obtain n where n: "get_node s a = Some n" using shelf_used [OF sh, of a] by (auto simp: used_node_def)
  note u = used_data [OF shelf_used [OF sh, of a] n, simplified]
  obtain t' where t: "avlremove (root_of_lru_index (cm s)) (Some (cluster_id n, a)) None (Some evfs_cache_compare_by_cluster_id) = Some (t', None)"
    "index_ok t'" "index_lookup t' = (index_lookup (root_of_lru_index (cm s)))(cluster_id n := None)"
    using index_remove [OF shelf_lists(6) [OF sh]] by blast
  note ti = index_of_update(2) [OF t(3)]
  define s1 where "s1 = s\<lparr>cm := (cm s)\<lparr>lru := list_del a (lru (cm s)), root_of_lru_index := t'\<rparr>\<rparr>"
  have pop: "evfs_cache_pop_lru s = Some (Some a, s1)" using L n t(1) by (simp add: evfs_cache_pop_lru_def s1_def)
  have n1: "get_node s1 a = Some n" "env s1 = env s" using n by (simp_all add: s1_def)
  obtain s2 where f: "evfs_cache_flush_block_if_dirty a s1 = Some s2" "store_holds ecc path (env s2) cs cc (written_back n D)" "merge s2 = merge s1"
    "cm s2 = (if node_state n = kEvfsCacheBlockDirty then (cm s1)\<lparr>nodes := (nodes (cm s1))(a \<mapsto> n\<lparr>node_state := kEvfsCacheBlockClean\<rparr>), dirty := list_del a (dirty (cm s1))\<rparr> else cm s1)"
    using flush_run [OF n1(1)] n1(2) inv_store [OF inv] u(1-3) by metis
  let ?N = "(nodes (cm s))(a \<mapsto> n\<lparr>node_state := kEvfsCacheBlockClean\<rparr>)" and ?M = "remove1 a (lhead (dirty (cm s)))"
  have fields: "root_of_lru_index (cm s2) = t'" "lhead (lru (cm s2)) = L" "lhead (idle (cm s2)) = lhead (idle (cm s))"
    "cache_cluster_size (cm s2) = cache_cluster_size (cm s)" "cache_block_num (cm s2) = cache_block_num (cm s)"
    "cache_ready (cm s2) = cache_ready (cm s)" "merge s2 = merge s" "fresh (cm s2) = fresh (cm s)"
    using L f(3,4) by (simp_all add: s1_def list_del_def)
  have state: "node_state n = kEvfsCacheBlockDirty \<or> node_state n = kEvfsCacheBlockClean"
    using shelf_used [OF sh, of a] n by (auto simp: used_node_def split: if_splits)
  have nodes: "nodes (cm s2) = ?N"
    using f(4) state n by (auto simp: s1_def fun_eq_iff)
  have M: "lhead (dirty (cm s2)) = ?M" using f(4) u(4) by (simp add: s1_def list_del_def remove1_idem)
  have "lcount (dirty (cm s2)) = int (length ?M)"
    using f(4) u(4) inv list_del_count [of "dirty (cm s)" a] by (auto simp: s1_def list_del_def remove1_idem cache_inv_def)
  note ev = shelf_evict [OF sh n t(2) ti]
  have "cache_inv ecc path s2 cs cc (written_back n D)"
    using ev(1) f(2) inv \<open>lcount (dirty (cm s2)) = int (length ?M)\<close> by (simp add: cache_inv_def fields nodes M)
  moreover have "view s2 (written_back n D) = view s D" using ev(2) by (simp add: view_def fields nodes)
  moreover have "free_of s2 cs a" using ev(3) by (simp add: fields nodes)
  moreover have "kept s s2" using n by (auto simp: kept_def fields nodes)
  moreover have "blocks s2 + 1 = blocks s" using L by (simp add: blocks_def fields)
  moreover have "\<forall>c. cached s c = None \<longrightarrow> cached s2 c = None" by (simp add: fields ti)
  ultimately show ?thesis using pop f(1) by blast
qed

text \<open>The cache without blocks reads and writes the disk.\<close>

lemma allocate_spec:
  assumes "store_holds ecc path e cs cc D"
  shows "\<exists>e'. evfs_hard_allocate_cluster None e = Some (Some (replicate (12 + cs) 0), e') \<and> store_holds ecc path e' cs cc D"
proof -
  obtain d where d: "calm (kern e)" "roomy e" "0 < next_fd (kern e)" "store_ok e cs cc ecc path d" "\<forall>i < cc. cluster_of d cs i = D i"
    using assms by (auto simp: store_holds_def)
  obtain b where b: "the_first_cluster (mgr e) = Some b" "hrd_cluster_size b = Some (int cs)" using d(4) by (auto simp: store_ok_def header_def)
  obtain blk ms where m: "ztrymalloc (12 + int cs) e = (Some blk, e\<lparr>mallocs := ms\<rparr>)" "length blk = nat (12 + int cs)" "roomy (e\<lparr>mallocs := ms\<rparr>)"
    using malloc_roomy [OF d(2)] by blast
  have "evfs_hard_allocate_cluster None e = Some (Some (replicate (12 + cs) 0), e\<lparr>mallocs := ms\<rparr>)"
    using store_ready [OF d(4)] b m by (simp add: evfs_hard_allocate_cluster_def sizeof_cluster_def nat_add_distrib)
  moreover have "store_holds ecc path (e\<lparr>mallocs := ms\<rparr>) cs cc D" using d m(3) by (auto simp: store_holds_def store_ok_def)
  ultimately show ?thesis by blast
qed

lemma view_empty:
  assumes "stacked s cs cc D" "lhead (lru (cm s)) = []"
  shows "view s D = D"
  using shelf_index [OF assms(1)] assms(2) by (auto simp: view_def seen_def fun_eq_iff split: option.split)

lemma disk_read:
  assumes inv: "cache_inv ecc path s cs cc D" and "c < cc" and off: "0 \<le> off" "0 \<le> len" "off + len \<le> int cs"
  shows "\<exists>e'. evfs_cache_read_harddisk (int c) off len s = Some (0, Some (take (nat len) (drop (nat off) (D c))), s\<lparr>env := e'\<rparr>) \<and>
    store_holds ecc path e' cs cc D"
proof -
  obtain e1 where 1: "evfs_hard_allocate_cluster None (env s) = Some (Some (replicate (12 + cs) 0), e1)" "store_holds ecc path e1 cs cc D"
    using allocate_spec [OF inv_store [OF inv]] by blast
  let ?buf = "replicate (12 + cs) 0 :: bytes"
  obtain e2 where 2: "evfs_hard_read_cluster (int c) (Some ?buf) e1 = Some (0, Some (D c @ drop cs ?buf), e2)" "store_holds ecc path e2 cs cc D"
    using store_read [OF 1(2) assms(2), of ?buf] by auto
  have l: "length (D c) = cs" using store_cluster_length [OF 1(2) assms(2)] by simp
  have "nat off + nat len \<le> cs" using off by linarith
  then have "mem_read (D c @ drop cs ?buf) (nat off) (nat len) = Some (take (nat len) (drop (nat off) (D c)))"
    using l by (simp add: mem_read_def)
  then show ?thesis using 1 2 by (intro exI [of _ e2]) (simp add: evfs_cache_read_harddisk_def NSP_SUCCESS_def)
qed

lemma disk_write:
  assumes inv: "cache_inv ecc path s cs cc D" and "c < cc" and off: "0 \<le> off" "0 \<le> len" "off + len \<le> int cs" "nat len \<le> length data"
  shows "\<exists>e'. evfs_cache_write_harddisk (int c) data off len s = Some (0, s\<lparr>env := e'\<rparr>) \<and>
    store_holds ecc path e' cs cc (D(c := splice (D c) (nat off) (take (nat len) data)))"
proof -
  obtain e1 where 1: "evfs_hard_allocate_cluster None (env s) = Some (Some (replicate (12 + cs) 0), e1)" "store_holds ecc path e1 cs cc D"
    using allocate_spec [OF inv_store [OF inv]] by blast
  let ?buf = "replicate (12 + cs) 0 :: bytes"
  obtain e2 where 2: "evfs_hard_read_cluster (int c) (Some ?buf) e1 = Some (0, Some (D c @ drop cs ?buf), e2)" "store_holds ecc path e2 cs cc D"
    using store_read [OF 1(2) assms(2), of ?buf] by auto
  have l: "length (D c) = cs" using store_cluster_length [OF 1(2) assms(2)] by simp
  let ?d = "splice (D c) (nat off) (take (nat len) data)"
  have n: "nat off + nat len \<le> cs" using off by linarith
  then have w: "mem_write (D c @ drop cs ?buf) (nat off) (take (nat len) data) = Some (?d @ drop cs ?buf)" "length ?d = cs"
    using l off(4) by (simp_all add: mem_write_def splice_def)
  obtain e3 where 3: "evfs_hard_write_cluster (int c) (Some (?d @ drop cs ?buf)) e2 = Some (0, e3)" "store_holds ecc path e3 cs cc (D(c := ?d))"
    using store_write [OF 2(2) assms(2), of "?d @ drop cs ?buf"] w(2) by auto
  have "mem_read data 0 (nat len) = Some (take (nat len) data)" using off(4) by (simp add: mem_read_def)
  then show ?thesis using 1 2 3 w(1) by (intro exI [of _ e3]) (simp add: evfs_cache_write_harddisk_def NSP_SUCCESS_def)
qed

text \<open>A cache with blocks has at least one to use; one without has no used node.\<close>

definition fit :: "evfs_state \<Rightarrow> bool" where
  "fit s \<longleftrightarrow> (if cache_block_num (cm s) = 0 then lhead (lru (cm s)) = [] else 0 < blocks s)"

lemma fit_kept: "fit s \<Longrightarrow> kept s s' \<Longrightarrow> blocks s' = blocks s \<Longrightarrow> cache_block_num (cm s) \<noteq> 0 \<Longrightarrow> fit s'"
  by (simp add: fit_def kept_def)

lemma fit_lists:
  "fit s \<Longrightarrow> kept s s' \<Longrightarrow> lhead (lru (cm s')) = lhead (lru (cm s)) \<Longrightarrow> lhead (idle (cm s')) = lhead (idle (cm s)) \<Longrightarrow> fit s'"
  by (auto simp: fit_def kept_def blocks_def split: if_splits)

lemma miss_kept:
  assumes "cache_inv ecc path s cs cc D"
  shows "cache_inv ecc path (count_miss s) cs cc D" "view (count_miss s) = view s" "kept s (count_miss s)" "blocks (count_miss s) = blocks s"
    "cached (count_miss s) = cached s" "lhead (idle (cm (count_miss s))) = lhead (idle (cm s))" "lhead (lru (cm (count_miss s))) = lhead (lru (cm s))"
  using assms by (simp_all add: count_miss_def cache_inv_def view_def kept_def blocks_def)

text \<open>A block for a missing cluster: an unused one, or the least recently used one.\<close>

lemma pop_idle_run:
  assumes inv: "cache_inv ecc path s cs cc D" and I: "lhead (idle (cm s)) = a # I"
  shows "\<exists>s'. evfs_cache_pop_idle s = (Some a, s') \<and> cache_inv ecc path s' cs cc D \<and> view s' = view s \<and> free_of s' cs a \<and>
    kept s s' \<and> blocks s' + 1 = blocks s \<and> cached s' = cached s"
proof -
  note sh = shelf_take_idle [OF inv_stacked [OF inv, unfolded I]]
  show ?thesis using inv sh I
    by (simp add: evfs_cache_pop_idle_def cache_inv_def list_del_def view_def kept_def blocks_def)
qed

lemma error_not_success: "\<not> NSP_SUCCESS (posix__makeerror ENOENT)" "\<not> NSP_SUCCESS (posix__makeerror ENOMEM)" "NSP_SUCCESS 0"
  by (simp_all add: status_defs errno_defs ENOENT_def)

lemma make_room:
  assumes inv: "cache_inv ecc path s cs cc D" and "0 < blocks s" "cached s c = None"
  shows "\<exists>a s0 s1 D'. (evfs_cache_pop_idle s = (Some a, s1) \<or>
      evfs_cache_pop_idle s = (None, s) \<and> evfs_cache_pop_lru s = Some (Some a, s0) \<and> evfs_cache_flush_block_if_dirty a s0 = Some s1) \<and>
    cache_inv ecc path s1 cs cc D' \<and> view s1 D' = view s D \<and> free_of s1 cs a \<and> kept s s1 \<and> blocks s1 + 1 = blocks s \<and> cached s1 c = None"
proof (cases "lhead (idle (cm s))")
  case (Cons a I)
  obtain s1 where "evfs_cache_pop_idle s = (Some a, s1)" "cache_inv ecc path s1 cs cc D" "view s1 = view s" "free_of s1 cs a"
    "kept s s1" "blocks s1 + 1 = blocks s" "cached s1 = cached s"
    using pop_idle_run [OF inv Cons] by blast
  then show ?thesis using assms(3) by (intro exI [of _ a] exI [of _ s] exI [of _ s1] exI [of _ D]) simp
next
  case Nil
  then have "0 < length (lhead (lru (cm s)))" using assms(2) by (simp add: blocks_def)
  then obtain a L where L: "lhead (lru (cm s)) = a # L" by (cases "lhead (lru (cm s))") auto
  have "evfs_cache_pop_idle s = (None, s)" using Nil by (simp add: evfs_cache_pop_idle_def)
  then show ?thesis using evict [OF inv L] assms(3) by blast
qed

lemma miss_room:
  assumes "cache_inv ecc path s cs cc D" "0 < blocks s" "cached s c = None"
  shows "\<exists>a s0 s1 D'. (evfs_cache_pop_idle (count_miss s) = (Some a, s1) \<or>
      evfs_cache_pop_idle (count_miss s) = (None, count_miss s) \<and> evfs_cache_pop_lru (count_miss s) = Some (Some a, s0) \<and>
      evfs_cache_flush_block_if_dirty a s0 = Some s1) \<and>
    cache_inv ecc path s1 cs cc D' \<and> view s1 D' = view s D \<and> free_of s1 cs a \<and> kept s s1 \<and> blocks s1 + 1 = blocks s \<and> cached s1 c = None"
  using make_room [OF miss_kept(1) [OF assms(1)], of c] miss_kept [OF assms(1)] assms(2,3) by (simp add: kept_def)

lemma read_task_spec:
  assumes inv: "cache_inv ecc path s cs cc D" and "fit s" and c: "0 < c" "c < cc" and off: "0 \<le> off" "0 \<le> len" "off + len \<le> int cs"
  shows "\<exists>s' D'. evfs_cache_read_task (int c) off len s = Some (0, Some (take (nat len) (drop (nat off) (view s D c))), s') \<and>
    cache_inv ecc path s' cs cc D' \<and> view s' D' = view s D \<and> kept s s' \<and> fit s'"
proof (cases "cache_block_num (cm s) = 0")
  case True
  then have L: "lhead (lru (cm s)) = []" using assms(2) by (simp add: fit_def)
  obtain e' where e: "evfs_cache_read_harddisk (int c) off len s = Some (0, Some (take (nat len) (drop (nat off) (D c))), s\<lparr>env := e'\<rparr>)"
    "store_holds ecc path e' cs cc D" using disk_read [OF inv c(2) off] by blast
  have "cache_inv ecc path (s\<lparr>env := e'\<rparr>) cs cc D" using inv e(2) by (simp add: cache_inv_def)
  then show ?thesis using e(1) True assms(2) view_empty [OF inv_stacked [OF inv] L]
    by (intro exI [of _ "s\<lparr>env := e'\<rparr>"] exI [of _ D]) (simp add: evfs_cache_read_task_def kept_def fit_def view_def)
next
  case False
  show ?thesis
  proof (cases "cached s (int c)")
    case (Some a)
    obtain s' where "evfs_cache_read_from_lru (int c) off len s = Some (0, Some (take (nat len) (drop (nat off) (view s D c))), s')"
      "cache_inv ecc path s' cs cc D" "view s' D = view s D" "kept s s'" "blocks s' = blocks s"
      using read_hit [OF inv Some off] by blast
    then show ?thesis using False fit_kept [OF assms(2)]
      by (intro exI [of _ s'] exI [of _ D]) (simp add: evfs_cache_read_task_def error_not_success)
  next
    case None
    have miss: "evfs_cache_read_from_lru (int c) off len s = Some (posix__makeerror ENOENT, None, count_miss s)"
      using None by (simp add: evfs_cache_read_from_lru_def search_index_of)
    have "0 < blocks s" using False assms(2) by (simp add: fit_def)
    then obtain a s0 s1 D' where 1: "evfs_cache_pop_idle (count_miss s) = (Some a, s1) \<or>
        evfs_cache_pop_idle (count_miss s) = (None, count_miss s) \<and> evfs_cache_pop_lru (count_miss s) = Some (Some a, s0) \<and>
        evfs_cache_flush_block_if_dirty a s0 = Some s1"
      "cache_inv ecc path s1 cs cc D'" "view s1 D' = view s D" "free_of s1 cs a" "kept s s1" "blocks s1 + 1 = blocks s" "cached s1 (int c) = None"
      using miss_room [OF inv _ None] by blast
    obtain s2 s' where 2: "load_node (int c) a s1 = Some (0, s2)" "cache_inv ecc path s' cs cc D'" "view s' D' = view s D" "kept s1 s'"
      "finish_read (int c) a off len 0 s2 = Some (0, Some (take (nat len) (drop (nat off) (view s D c))), s')" "blocks s' = blocks s"
      using fill_read [OF 1(2) c 1(7,4) off] 1(3,6) by auto
    have "kept s s'" using kept_trans [OF 1(5) 2(4)] .
    moreover have "evfs_cache_read_task (int c) off len s = Some (0, Some (take (nat len) (drop (nat off) (view s D c))), s')"
      using 1(1) False miss 2(1,5) by (auto simp: evfs_cache_read_task_def evfs_cache_read_from_idle_def
          evfs_cache_replace_read_from_lru_def error_not_success NSP_STATUS_SUCCESSFUL_def)
    ultimately show ?thesis using 2(2,3,6) fit_kept [OF assms(2)] False by blast
  qed
qed

lemma write_task_spec:
  assumes inv: "cache_inv ecc path s cs cc D" and "fit s" and c: "0 < c" "c < cc"
    and off: "0 \<le> off" "0 \<le> len" "off + len \<le> int cs" "nat len \<le> length data"
  shows "\<exists>s' D'. evfs_cache_write_task (int c) data off len s = Some (0, s') \<and> cache_inv ecc path s' cs cc D' \<and>
    view s' D' = (view s D)(c := splice (view s D c) (nat off) (take (nat len) data)) \<and> kept s s' \<and> fit s'"
proof (cases "cache_block_num (cm s) = 0")
  case True
  then have L: "lhead (lru (cm s)) = []" using assms(2) by (simp add: fit_def)
  let ?D = "D(c := splice (D c) (nat off) (take (nat len) data))"
  obtain e' where e: "evfs_cache_write_harddisk (int c) data off len s = Some (0, s\<lparr>env := e'\<rparr>)" "store_holds ecc path e' cs cc ?D"
    using disk_write [OF inv c(2) off] by blast
  have st: "stacked (s\<lparr>env := e'\<rparr>) cs cc ?D" using inv_stacked [OF inv] L by (simp add: shelf_def)
  then have "cache_inv ecc path (s\<lparr>env := e'\<rparr>) cs cc ?D" using inv e(2) by (simp add: cache_inv_def)
  moreover have "view (s\<lparr>env := e'\<rparr>) ?D = ?D" using view_empty [OF st] L by simp
  moreover have "kept s (s\<lparr>env := e'\<rparr>)" "fit (s\<lparr>env := e'\<rparr>)" using assms(2) True L by (simp_all add: kept_def fit_def)
  moreover have "evfs_cache_write_task (int c) data off len s = Some (0, s\<lparr>env := e'\<rparr>)" using True e(1) by (simp add: evfs_cache_write_task_def)
  ultimately show ?thesis unfolding view_empty [OF inv_stacked [OF inv] L] by blast
next
  case False
  let ?V = "(view s D)(c := splice (view s D c) (nat off) (take (nat len) data))"
  show ?thesis
  proof (cases "cached s (int c)")
    case (Some a)
    obtain s' where "evfs_cache_write_to_lru (int c) data off len s = Some (0, s')"
      "cache_inv ecc path s' cs cc D" "view s' D = ?V" "kept s s'" "blocks s' = blocks s"
      using write_hit [OF inv Some off] by blast
    then show ?thesis using False fit_kept [OF assms(2)]
      by (intro exI [of _ s'] exI [of _ D]) (simp add: evfs_cache_write_task_def error_not_success)
  next
    case None
    have miss: "evfs_cache_write_to_lru (int c) data off len s = Some (posix__makeerror ENOENT, count_miss s)"
      using None by (simp add: evfs_cache_write_to_lru_def search_index_of)
    have "0 < blocks s" using False assms(2) by (simp add: fit_def)
    then obtain a s0 s1 D' where 1: "evfs_cache_pop_idle (count_miss s) = (Some a, s1) \<or>
        evfs_cache_pop_idle (count_miss s) = (None, count_miss s) \<and> evfs_cache_pop_lru (count_miss s) = Some (Some a, s0) \<and>
        evfs_cache_flush_block_if_dirty a s0 = Some s1"
      "cache_inv ecc path s1 cs cc D'" "view s1 D' = view s D" "free_of s1 cs a" "kept s s1" "blocks s1 + 1 = blocks s" "cached s1 (int c) = None"
      using miss_room [OF inv _ None] by blast
    obtain s2 s' where 2: "load_node (int c) a s1 = Some (0, s2)" "cache_inv ecc path s' cs cc D'" "view s' D' = ?V" "kept s1 s'"
      "finish_write (int c) a data off len 0 s2 = Some (0, s')" "blocks s' = blocks s"
      using fill_write [OF 1(2) c 1(7,4) off] 1(3,6) by auto
    have "kept s s'" using kept_trans [OF 1(5) 2(4)] .
    moreover have "evfs_cache_write_task (int c) data off len s = Some (0, s')"
      using 1(1) False miss 2(1,5) by (auto simp: evfs_cache_write_task_def evfs_cache_write_to_idle_def
          evfs_cache_replace_write_to_lru_def error_not_success)
    ultimately show ?thesis using 2(2,3,6) fit_kept [OF assms(2)] False by blast
  qed
qed

section \<open>Flushing\<close>

lemma shelf_flush:
  assumes sh: "shelf t L M I N cs cc D" and a: "a \<in> set L" "N a = Some n"
  defines "N' \<equiv> N(a \<mapsto> n\<lparr>node_state := kEvfsCacheBlockClean\<rparr>)"
  shows "shelf t L (remove1 a M) I N' cs cc (written_back n D)" "seen t N' (written_back n D) = seen t N D"
proof -
  note lists = shelf_lists [OF sh]
  note n = used_data [OF shelf_used [OF sh a(1)] a(2)]
  have ia: "index_of t (cluster_id n) = Some a" unfolding shelf_index [OF sh] using a by simp
  have other: "cluster_id m \<noteq> cluster_id n" if "b \<in> set L" "b \<noteq> a" "N b = Some m" for b m
    using shelf_index [OF sh, of "cluster_id m" b] that ia by auto
  have keep: "written_back n D (nat (cluster_id m)) = D (nat (cluster_id m))" if "b \<in> set L" "b \<noteq> a" "N b = Some m" for b m
    using other [OF that] used_data(2) [OF shelf_used [OF sh that(1)] that(3)] n(2) by (auto simp: written_back_def)
  show "shelf t L (remove1 a M) I N' cs cc (written_back n D)"
  proof (rule shelfI)
    fix b assume b: "b \<in> set L"
    show "used_node N' (remove1 a M) cs cc (written_back n D) b"
    proof (cases "b = a")
      case True
      then show ?thesis using n lists(4) by (auto simp: used_node_def N'_def written_back_def)
    next
      case False
      then show ?thesis using used_frame [OF shelf_used [OF sh b], of a "remove1 a M" "written_back n D"] keep [OF b] lists(4)
        by (simp add: N'_def)
    qed
  next
    fix b assume "b \<in> set I"
    then show "spare_node N' cs b" using spare_frame [OF shelf_spare [OF sh], of b a] lists(3) a(1) unfolding N'_def by blast
  next
    fix c b
    show "index_of t c = Some b \<longleftrightarrow> b \<in> set L \<and> (\<exists>m. N' b = Some m \<and> cluster_id m = c)"
      unfolding shelf_index [OF sh] using a(2) by (auto simp: N'_def)
  next
    show "set (remove1 a M) \<subseteq> set L" using lists(4,5) by auto
  qed (use lists in \<open>auto simp: distinct_remove1\<close>)
  show "seen t N' (written_back n D) = seen t N D"
  proof
    fix c
    show "seen t N' (written_back n D) c = seen t N D c"
    proof (cases "int c = cluster_id n")
      case True
      then show ?thesis using ia a(2) by (simp add: seen_def N'_def)
    next
      case False
      then have "index_of t (int c) \<noteq> Some a" using shelf_index [OF sh, of "int c" a] a(2) by auto
      moreover have "written_back n D c = D c" using False n(2) by (auto simp: written_back_def)
      ultimately show ?thesis by (auto simp: seen_def N'_def split: option.split)
    qed
  qed
qed

lemma flush_one:
  assumes inv: "cache_inv ecc path s cs cc D" and a: "a \<in> set (lhead (lru (cm s)))"
  shows "\<exists>s' D'. evfs_cache_flush_block_if_dirty a s = Some s' \<and> cache_inv ecc path s' cs cc D' \<and> view s' D' = view s D \<and> kept s s' \<and>
    lhead (lru (cm s')) = lhead (lru (cm s)) \<and> lhead (idle (cm s')) = lhead (idle (cm s)) \<and>
    lhead (dirty (cm s')) = remove1 a (lhead (dirty (cm s)))"
proof -
  note sh = inv_stacked [OF inv]
  obtain n where n: "get_node s a = Some n" using shelf_used [OF sh a] by (auto simp: used_node_def)
  note u = used_data [OF shelf_used [OF sh a] n]
  obtain s' where f: "evfs_cache_flush_block_if_dirty a s = Some s'" "store_holds ecc path (env s') cs cc (written_back n D)" "merge s' = merge s"
    "cm s' = (if node_state n = kEvfsCacheBlockDirty then (cm s)\<lparr>nodes := (nodes (cm s))(a \<mapsto> n\<lparr>node_state := kEvfsCacheBlockClean\<rparr>), dirty := list_del a (dirty (cm s))\<rparr> else cm s)"
    using flush_run [OF n inv_store [OF inv] u(1-3)] by metis
  let ?N = "(nodes (cm s))(a \<mapsto> n\<lparr>node_state := kEvfsCacheBlockClean\<rparr>)" and ?M = "remove1 a (lhead (dirty (cm s)))"
  have fields: "root_of_lru_index (cm s') = root_of_lru_index (cm s)" "lhead (lru (cm s')) = lhead (lru (cm s))"
    "lhead (idle (cm s')) = lhead (idle (cm s))" "cache_cluster_size (cm s') = cache_cluster_size (cm s)" "kept s s'"
    using f(3,4) n by (auto simp: kept_def)
  have state: "node_state n = kEvfsCacheBlockDirty \<or> node_state n = kEvfsCacheBlockClean"
    using shelf_used [OF sh a] n by (auto simp: used_node_def split: if_splits)
  have nodes: "nodes (cm s') = ?N" using f(4) state n by (auto simp: fun_eq_iff)
  have M: "lhead (dirty (cm s')) = ?M" "lcount (dirty (cm s')) = int (length ?M)"
    using f(4) u(4) inv list_del_count [of "dirty (cm s)" a] by (auto simp: list_del_def remove1_idem cache_inv_def)
  note fl = shelf_flush [OF sh a n]
  have "cache_inv ecc path s' cs cc (written_back n D)" using fl(1) f(2) inv M by (simp add: cache_inv_def fields nodes)
  moreover have "view s' (written_back n D) = view s D" using fl(2) by (simp add: view_def fields nodes)
  ultimately show ?thesis using f(1) fields M(1) by blast
qed

lemma flush_each_spec:
  assumes "cache_inv ecc path s cs cc D" "set as \<subseteq> set (lhead (lru (cm s)))"
  shows "\<exists>s' D'. flush_each as s = Some s' \<and> cache_inv ecc path s' cs cc D' \<and> view s' D' = view s D \<and> kept s s' \<and>
    lhead (lru (cm s')) = lhead (lru (cm s)) \<and> lhead (idle (cm s')) = lhead (idle (cm s)) \<and>
    lhead (dirty (cm s')) = fold remove1 as (lhead (dirty (cm s)))"
  using assms
proof (induction as arbitrary: s D)
  case (Cons a as)
  obtain s1 D1 where 1: "evfs_cache_flush_block_if_dirty a s = Some s1" "cache_inv ecc path s1 cs cc D1" "view s1 D1 = view s D" "kept s s1"
    "lhead (lru (cm s1)) = lhead (lru (cm s))" "lhead (idle (cm s1)) = lhead (idle (cm s))"
    "lhead (dirty (cm s1)) = remove1 a (lhead (dirty (cm s)))"
    using flush_one [OF Cons.prems(1), of a] Cons.prems(2) by auto
  then show ?case using Cons.IH [OF 1(2)] Cons.prems(2) kept_trans [OF 1(4)] by auto
qed auto

lemma fold_remove1_self [simp]: "fold remove1 as as = []"
  by (induction as) auto

lemma hard_flush_holds:
  assumes "store_holds ecc path e cs cc D"
  shows "\<exists>st e'. evfs_hard_flush e = (st, e') \<and> store_holds ecc path e' cs cc D"
proof -
  obtain d where d: "calm (kern e)" "roomy e" "0 < next_fd (kern e)" "store_ok e cs cc ecc path d" "\<forall>i < cc. cluster_of d cs i = D i"
    using assms by (auto simp: store_holds_def)
  obtain f where f: "fds (kern e) (mgr_fd (mgr e)) = Some f" "0 < mgr_fd (mgr e)" using d(4) by (auto simp: store_ok_def)
  obtain k' where k: "ifos_file_flush (mgr_fd (mgr e)) (kern e) = (0, k')" "calm k'" "files k' = files (kern e)" "fds k' = fds (kern e)"
    "next_fd k' = next_fd (kern e)" using flush_spec [OF f d(1)] by blast
  have "store_holds ecc path (e\<lparr>kern := k'\<rparr>) cs cc D" using d k by (auto simp: store_holds_def store_ok_def roomy_def)
  then show ?thesis using k(1) store_ready [OF d(4)] by (simp add: evfs_hard_flush_def)
qed

lemma view_clean:
  assumes sh: "stacked s cs cc D" and "lhead (dirty (cm s)) = []"
  shows "view s D = D"
proof
  fix c
  show "view s D c = D c"
  proof (cases "cached s (int c)")
    case (Some a)
    obtain n where n: "a \<in> set (lhead (lru (cm s)))" "get_node s a = Some n" "cluster_id n = int c" "seen (root_of_lru_index (cm s)) (nodes (cm s)) D (nat (int c)) = node_data n"
      by (rule shelf_hit [OF sh Some])
    show ?thesis using used_data(4,5) [OF shelf_used [OF sh n(1)] n(2)] n(3,4) assms(2) by (simp add: view_def)
  qed (simp add: view_def seen_miss)
qed

lemma flush_all_spec:
  assumes inv: "cache_inv ecc path s cs cc D"
  shows "\<exists>s'. evfs_cache_flush_buffer_all s = Some s' \<and> cache_inv ecc path s' cs cc (view s D) \<and> view s' (view s D) = view s D \<and>
    kept s s' \<and> lhead (lru (cm s')) = lhead (lru (cm s)) \<and> lhead (idle (cm s')) = lhead (idle (cm s)) \<and> lhead (dirty (cm s')) = []"
proof (cases "lhead (dirty (cm s))")
  case Nil
  then show ?thesis using inv view_clean [OF inv_stacked [OF inv] Nil] by (auto simp: evfs_cache_flush_buffer_all_def cache_inv_def)
next
  case (Cons a M)
  then have cnt: "lcount (dirty (cm s)) \<noteq> 0" using inv by (simp add: cache_inv_def)
  obtain s1 D1 where 1: "flush_each (lhead (dirty (cm s))) s = Some s1" "cache_inv ecc path s1 cs cc D1" "view s1 D1 = view s D" "kept s s1"
    "lhead (lru (cm s1)) = lhead (lru (cm s))" "lhead (idle (cm s1)) = lhead (idle (cm s))" "lhead (dirty (cm s1)) = []"
    using flush_each_spec [OF inv shelf_lists(5) [OF inv_stacked [OF inv]]] by auto
  have D1: "D1 = view s D" using view_clean [OF inv_stacked [OF 1(2)] 1(7)] 1(3) by simp
  obtain st e' where e: "evfs_hard_flush (env s1) = (st, e')" "store_holds ecc path e' cs cc D1" using hard_flush_holds [OF inv_store [OF 1(2)]] by blast
  have "cache_inv ecc path (s1\<lparr>env := e'\<rparr>) cs cc D1" using 1(2) e(2) by (simp add: cache_inv_def)
  then show ?thesis using cnt 1 e(1) unfolding D1
    by (intro exI [of _ "s1\<lparr>env := e'\<rparr>"]) (simp add: evfs_cache_flush_buffer_all_def kept_def view_def)
qed

lemma flush_block_spec:
  assumes inv: "cache_inv ecc path s cs cc D" and "fit s"
  shows "\<exists>s' D'. evfs_cache_flush_block_task c s = Some s' \<and> cache_inv ecc path s' cs cc D' \<and> view s' D' = view s D \<and> kept s s' \<and> fit s'"
proof (cases "cached s c")
  case None
  then show ?thesis using assms by (intro exI [of _ s] exI [of _ D]) (simp add: evfs_cache_flush_block_task_def search_index_of)
next
  case (Some a)
  then have "a \<in> set (lhead (lru (cm s)))" using shelf_index [OF inv_stacked [OF inv], of c a] by simp
  then obtain s' D' where f: "evfs_cache_flush_block_if_dirty a s = Some s'" "cache_inv ecc path s' cs cc D'" "view s' D' = view s D" "kept s s'"
    "lhead (lru (cm s')) = lhead (lru (cm s))" "lhead (idle (cm s')) = lhead (idle (cm s))" using flush_one [OF inv] by blast
  then have "fit s'" using fit_lists [OF assms(2)] by blast
  then show ?thesis using f Some by (intro exI [of _ s'] exI [of _ D']) (simp add: evfs_cache_flush_block_task_def search_index_of)
qed


section \<open>The worker serves an array of clusters\<close>

text \<open>What a task does to an array of clusters. Reads fill the front of the caller's buffer.\<close>

definition serve :: "evfs_cache_io_task \<Rightarrow> (nat \<Rightarrow> bytes) \<Rightarrow> evfs_cache_io_task \<times> (nat \<Rightarrow> bytes)" where
  "serve t V =
     (let c = nat (task_cluster_id t); off = nat (task_offset t); len = nat (task_length t) in
      if task_io_type t = kEvfsCacheIOTypeRead then
        (t\<lparr>task_data := map_option (\<lambda>d. take len (drop off (V c)) @ drop len d) (task_data t), task_status := NSP_STATUS_SUCCESSFUL\<rparr>, V)
      else if task_io_type t = kEvfsCacheIOTypeWrite then
        (t\<lparr>task_status := NSP_STATUS_SUCCESSFUL\<rparr>, V(c := splice (V c) off (take len (the (task_data t)))))
      else (t\<lparr>task_status := NSP_STATUS_SUCCESSFUL\<rparr>, V))"

fun serve_all :: "evfs_cache_io_task list \<Rightarrow> (nat \<Rightarrow> bytes) \<Rightarrow> evfs_cache_io_task list \<times> (nat \<Rightarrow> bytes)" where
  "serve_all [] V = ([], V)"
| "serve_all (t # ts) V = (case serve t V of (t, V) \<Rightarrow> (case serve_all ts V of (ts, V) \<Rightarrow> (t # ts, V)))"

text \<open>The tasks that reading, writing and flushing post: a cluster of the file other than the first, a range inside it, a buffer for it.\<close>

definition data_task :: "nat \<Rightarrow> nat \<Rightarrow> evfs_cache_io_task \<Rightarrow> bool" where
  "data_task cs cc t \<longleftrightarrow>
     task_io_type t \<in> {kEvfsCacheIOTypeRead, kEvfsCacheIOTypeWrite} \<and> 0 < task_cluster_id t \<and> task_cluster_id t < int cc \<and>
       0 \<le> task_offset t \<and> 0 \<le> task_length t \<and> task_offset t + task_length t \<le> int cs \<and>
       task_data t \<noteq> None \<and> task_length t \<le> int (length (the (task_data t))) \<or>
     task_io_type t \<in> {kEvfsCacheIOTypeFlushBuffer, kEvfsCacheIOTypeFlushBufferAll}"

lemma view_length:
  assumes inv: "cache_inv ecc path s cs cc D" and "c < cc"
  shows "length (view s D c) = cs"
proof (cases "cached s (int c)")
  case None
  then show ?thesis using store_cluster_length [OF inv_store [OF inv] assms(2)] by (simp add: view_def seen_miss)
next
  case (Some a)
  then show ?thesis using shelf_hit [OF inv_stacked [OF inv] Some] unfolding view_def nat_int by metis
qed

lemma exec_data_task:
  assumes inv: "cache_inv ecc path s cs cc D" and "fit s" and t: "data_task cs cc t"
  shows "\<exists>s' D'. evfs_cache_exec_task t s = Some (fst (serve t (view s D)), s') \<and> cache_inv ecc path s' cs cc D' \<and>
    view s' D' = snd (serve t (view s D)) \<and> kept s s' \<and> fit s'"
proof -
  consider "task_io_type t = kEvfsCacheIOTypeFlushBuffer" | "task_io_type t = kEvfsCacheIOTypeFlushBufferAll"
    | (rd) "task_io_type t = kEvfsCacheIOTypeRead" | (wr) "task_io_type t = kEvfsCacheIOTypeWrite"
    using t by (auto simp: data_task_def)
  then show ?thesis
  proof cases
    case 1
    then show ?thesis using flush_block_spec [OF inv assms(2), of "task_cluster_id t"] by (auto simp: evfs_cache_exec_task_def serve_def)
  next
    case 2
    then show ?thesis using flush_all_spec [OF inv] fit_lists [OF assms(2)] by (fastforce simp: evfs_cache_exec_task_def serve_def)
  next
    case rd
    obtain d where d: "task_data t = Some d" "task_length t \<le> int (length d)" using t rd by (auto simp: data_task_def)
    have c: "task_cluster_id t = int (nat (task_cluster_id t))" "0 < nat (task_cluster_id t)" "nat (task_cluster_id t) < cc"
      and off: "0 \<le> task_offset t" "0 \<le> task_length t" "task_offset t + task_length t \<le> int cs" using t rd by (auto simp: data_task_def)
    let ?bs = "take (nat (task_length t)) (drop (nat (task_offset t)) (view s D (nat (task_cluster_id t))))"
    obtain s' D' where r: "evfs_cache_read_task (task_cluster_id t) (task_offset t) (task_length t) s = Some (0, Some ?bs, s')"
      "cache_inv ecc path s' cs cc D'" "view s' D' = view s D" "kept s s'" "fit s'"
      using read_task_spec [OF inv assms(2) c(2,3) off] c(1) by metis
    have "length ?bs = nat (task_length t)" using view_length [OF inv c(3)] off by simp
    moreover have "nat (task_length t) \<le> length d" using d(2) by simp
    ultimately have "mem_write d 0 ?bs = Some (?bs @ drop (nat (task_length t)) d)" by (simp add: mem_write_def)
    then show ?thesis using rd r d(1) c(1)
      by (intro exI [of _ s'] exI [of _ D']) (simp add: evfs_cache_exec_task_def serve_def Let_def NSP_STATUS_SUCCESSFUL_def)
  next
    case wr
    obtain d where d: "task_data t = Some d" "nat (task_length t) \<le> length d" using t wr by (auto simp: data_task_def)
    have c: "task_cluster_id t = int (nat (task_cluster_id t))" "0 < nat (task_cluster_id t)" "nat (task_cluster_id t) < cc"
      and off: "0 \<le> task_offset t" "0 \<le> task_length t" "task_offset t + task_length t \<le> int cs" using t wr by (auto simp: data_task_def)
    obtain s' D' where "evfs_cache_write_task (task_cluster_id t) d (task_offset t) (task_length t) s = Some (0, s')"
      "cache_inv ecc path s' cs cc D'" "kept s s'" "fit s'" "view s' D' = (view s D)(nat (task_cluster_id t) :=
         splice (view s D (nat (task_cluster_id t))) (nat (task_offset t)) (take (nat (task_length t)) d))"
      using write_task_spec [OF inv assms(2) c(2,3) off d(2)] c(1) by metis
    then show ?thesis using wr d(1)
      by (intro exI [of _ s'] exI [of _ D']) (simp add: evfs_cache_exec_task_def serve_def Let_def NSP_STATUS_SUCCESSFUL_def)
  qed
qed

lemma inv_merge [simp]: "cache_inv ecc path (s\<lparr>merge := m\<rparr>) = cache_inv ecc path s" "view (s\<lparr>merge := m\<rparr>) = view s" "fit (s\<lparr>merge := m\<rparr>) = fit s"
  by (auto simp: cache_inv_def view_def fit_def blocks_def fun_eq_iff)

lemma drain_data_tasks:
  assumes "cache_inv ecc path s cs cc D" "fit s" "list_all (data_task cs cc) ts" "io (merge s) = ts"
  shows "\<exists>s' D'. drain ts s = Some (fst (serve_all ts (view s D)), s') \<and> cache_inv ecc path s' cs cc D' \<and>
    view s' D' = snd (serve_all ts (view s D)) \<and> fit s' \<and>
    kept (s\<lparr>merge := (merge s)\<lparr>io := [], io_count := io_count (merge s) - int (length ts)\<rparr>\<rparr>) s'"
  using assms
proof (induction ts arbitrary: s D)
  case Nil
  then show ?case by (intro exI [of _ s] exI [of _ D]) (simp add: kept_def)
next
  case (Cons t ts)
  let ?s = "s\<lparr>merge := (merge s)\<lparr>io := ts, io_count := io_count (merge s) - 1\<rparr>\<rparr>"
  obtain s1 D1 where 1: "evfs_cache_exec_task t ?s = Some (fst (serve t (view s D)), s1)" "cache_inv ecc path s1 cs cc D1"
    "view s1 D1 = snd (serve t (view s D))" "kept ?s s1" "fit s1"
    using exec_data_task [of ecc path ?s cs cc D t] Cons.prems by auto
  have m: "merge s1 = merge ?s" using 1(4) by (simp add: kept_def)
  obtain s' D' where 2: "drain ts s1 = Some (fst (serve_all ts (view s1 D1)), s')" "cache_inv ecc path s' cs cc D'"
    "view s' D' = snd (serve_all ts (view s1 D1))" "fit s'"
    "kept (s1\<lparr>merge := (merge s1)\<lparr>io := [], io_count := io_count (merge s1) - int (length ts)\<rparr>\<rparr>) s'"
    using Cons.IH [OF 1(2,5)] Cons.prems(3) m by auto
  have "kept (s\<lparr>merge := (merge s)\<lparr>io := [], io_count := io_count (merge s) - int (length (t # ts))\<rparr>\<rparr>) s'"
    using 1(4) 2(5) by (simp add: kept_def)
  then show ?case using 1(1,3) 2 by (intro exI [of _ s'] exI [of _ D']) (simp add: split_beta)
qed

section \<open>Removing blocks\<close>

text \<open>
  When the unused blocks are enough to reach the target, the second loop still runs, and as the count is already below
  its target after one more block, releases every used block.
\<close>

lemma shrink_lru_overshoot: "cache_block_num (cm s) \<le> target \<Longrightarrow> lhead (lru (cm (shrink_lru target s))) = []"
proof (induction target s rule: shrink_lru.induct)
  case (1 target s)
  show ?case
  proof (cases "lhead (lru (cm s))")
    case (Cons a L)
    define s' where "s' = free_node a (s\<lparr>cm := (cm s)\<lparr>lru := list_del a (lru (cm s)), cache_block_num := cache_block_num (cm s) - 1\<rparr>\<rparr>)"
    have n: "cache_block_num (cm s') = cache_block_num (cm s) - 1" by (simp add: s'_def free_node_def)
    have "lhead (lru (cm (shrink_lru target s'))) = []" using "1.IH" [OF Cons s'_def] "1.prems" n by simp
    then show ?thesis using shrink_lru.simps [of target s] Cons n "1.prems" by (simp add: Let_def s'_def [symmetric])
  qed (simp add: shrink_lru.simps [of target s])
qed

lemma evfs_cache_shrink_drops_used:
  assumes "cache_ready (cm s) = kEvmgrReady" "lhead (idle (cm s)) = [i]" "cache_block_num (cm s) = n + 1" "0 \<le> n"
  shows "lhead (lru (cm (snd (evfs_cache_set_block_num_task n s)))) = []"
  using assms shrink_lru_overshoot [of "shrink_idle n s" n] shrink_idle.simps [of n s]
  by (simp add: evfs_cache_set_block_num_task_def free_node_def list_del_def Let_def)

text \<open>A released block stays in the index: reading its cluster uses released memory.\<close>

lemma evfs_cache_shrink_dangles:
  assumes "cache_ready (cm s) = kEvmgrReady" "lhead (idle (cm s)) = []" "lhead (lru (cm s)) = a # L" "cached s c = Some a"
    and "cache_block_num (cm s) = n + 1" "0 < n"
  shows "evfs_cache_read_task c off len (snd (evfs_cache_set_block_num_task n s)) = None"
proof -
  define s' where "s' = free_node a (s\<lparr>cm := (cm s)\<lparr>lru := list_del a (lru (cm s)), cache_block_num := cache_block_num (cm s) - 1\<rparr>\<rparr>)"
  have "snd (evfs_cache_set_block_num_task n s) = s'"
    using assms shrink_idle.simps [of n s] shrink_lru.simps [of n s]
    by (simp add: evfs_cache_set_block_num_task_def s'_def free_node_def list_del_def Let_def)
  then show ?thesis using assms
    by (simp add: evfs_cache_read_task_def evfs_cache_read_from_lru_def search_index_of s'_def free_node_def evfs_cache_move_lru_to_tail_def)
qed

end
