(* ===== verification/EvfsCacheApi.thy ===== *)
theory EvfsCacheApi
  imports EvfsCache
begin

text \<open>
  \<^verbatim>\<open>addons/evfs/cache.c\<close>, the functions its users call. Each checks its arguments, posts a task to the worker and waits for
  it; the model runs the worker on the whole queue at that point. With \<^verbatim>\<open>no_wait\<close> the task stays in the queue until the worker
  runs. A task is allocated memory: what its status is before it is set is what the block holds. A function that stores
  through a pointer returns the content of the block pointed to.
\<close>

section \<open>Posting a task\<close>

definition sizeof_task :: int where "sizeof_task = 176"

definition long_at :: "bytes \<Rightarrow> nat \<Rightarrow> int option" where
  "long_at b off = do {
     lo \<leftarrow> mem_read b off 4;
     hi \<leftarrow> mem_read b (off + 4) 4;
     Some (sint ((ucast (of_le_bytes lo) :: u64) OR push_bit 32 (ucast (of_le_bytes hi))))
   }"

definition make_task :: "evfs_cache_iotype \<Rightarrow> int \<Rightarrow> int \<Rightarrow> int \<Rightarrow> bytes option \<Rightarrow> int \<Rightarrow> evfs_cache_io_task" where
  "make_task ty cid offset len data st =
     \<lparr>task_cluster_id = cid, task_offset = offset, task_length = len, task_data = data, task_stat = None, task_io_type = ty, task_status = st\<rparr>"

text \<open>Allocating and queueing a task: the status of the queueing, or \<^verbatim>\<open>ENOMEM\<close>.\<close>

definition post_task :: "evfs_cache_iotype \<Rightarrow> int \<Rightarrow> int \<Rightarrow> int \<Rightarrow> bytes option \<Rightarrow> evfs_state \<Rightarrow> (nsp_status \<times> evfs_state) option" where
  "post_task ty cid offset len data s =
     (case ztrymalloc sizeof_task (env s) of
        (None, e) \<Rightarrow> Some (posix__makeerror ENOMEM, s\<lparr>env := e\<rparr>)
      | (Some blk, e) \<Rightarrow> do {
          st \<leftarrow> long_at blk 48;
          Some (evfs_cache_push_task_and_notify_run (make_task ty cid offset len data st) (s\<lparr>env := e\<rparr>))
        })"

text \<open>Waiting: the worker finishes the queue, whose last task is the caller's. The task is released after its status is read.\<close>

definition evfs_cache_wait_background_compelete :: "evfs_state \<Rightarrow> (evfs_cache_io_task \<times> evfs_state) option" where
  "evfs_cache_wait_background_compelete s = do {
     (ts, s) \<leftarrow> evfs_cache_pop_task_until_empty s;
     if ts = [] then None else Some (last ts, s)
   }"

definition run_task :: "evfs_cache_iotype \<Rightarrow> int \<Rightarrow> int \<Rightarrow> int \<Rightarrow> bytes option \<Rightarrow> evfs_state \<Rightarrow> (nsp_status \<times> evfs_cache_io_task option \<times> evfs_state) option" where
  "run_task ty cid offset len data s = do {
     (status, s) \<leftarrow> post_task ty cid offset len data s;
     if \<not> NSP_SUCCESS status then Some (status, None, s)
     else do {
       (t, s) \<leftarrow> evfs_cache_wait_background_compelete s;
       Some (task_status t, Some t, s)
     }
   }"

text \<open>The caller's block after a task that had its address.\<close>

definition block_after :: "bytes option \<Rightarrow> evfs_cache_io_task option \<Rightarrow> bytes option" where
  "block_after output t = (case t of None \<Rightarrow> output | Some t \<Rightarrow> task_data t)"

section \<open>Reading and writing\<close>

definition evfs_cache_read :: "int \<Rightarrow> bytes option \<Rightarrow> int \<Rightarrow> int \<Rightarrow> evfs_state \<Rightarrow> (nsp_status \<times> bytes option \<times> evfs_state) option" where
  "evfs_cache_read cid output offset len s =
     (if cid \<le> 0 \<or> output = None \<or> offset < 0 \<or> len < 0 \<or> kEvmgrReady \<noteq> cache_ready (cm s) then Some (posix__makeerror EINVAL, output, s)
      else do {
        last \<leftarrow> c_int (offset + len);
        if last > cache_cluster_size (cm s) then Some (posix__makeerror EINVAL, output, s)
        else do {
          (status, t, s) \<leftarrow> run_task kEvfsCacheIOTypeRead cid offset len output s;
          Some (status, block_after output t, s)
        }
      })"

definition evfs_cache_read_head :: "int \<Rightarrow> bytes option \<Rightarrow> evfs_state \<Rightarrow> (nsp_status \<times> bytes option \<times> evfs_state) option" where
  "evfs_cache_read_head cid clusterptr s = evfs_cache_read cid clusterptr 0 (int sizeof_cluster) s"

text \<open>The sum is an \<^verbatim>\<open>int\<close> that is converted to \<^verbatim>\<open>size_t\<close> for the comparison.\<close>

definition beyond_userdata :: "int \<Rightarrow> int \<Rightarrow> evfs_state \<Rightarrow> bool option" where
  "beyond_userdata offset len s = do {
     last \<leftarrow> c_int (offset + len);
     Some ((word_of_int last :: u64) > word_of_int (cache_cluster_size (cm s)) - of_nat sizeof_cluster)
   }"

definition evfs_cache_read_userdata :: "int \<Rightarrow> bytes option \<Rightarrow> int \<Rightarrow> int \<Rightarrow> evfs_state \<Rightarrow> (nsp_status \<times> bytes option \<times> evfs_state) option" where
  "evfs_cache_read_userdata cid output offset len s =
     (if output = None then Some (posix__makeerror EINVAL, output, s)
      else do {
        b \<leftarrow> beyond_userdata offset len s;
        if b \<or> cid < 0 then Some (posix__makeerror EINVAL, output, s)
        else evfs_cache_read cid output (to_int (offset + int sizeof_cluster)) len s
      })"

definition evfs_cache_read_directly :: "int \<Rightarrow> bytes option \<Rightarrow> evfs_state \<Rightarrow> (nsp_status \<times> bytes option \<times> evfs_state) option" where
  "evfs_cache_read_directly cid output s =
     (if cid \<le> 0 \<or> output = None \<or> kEvmgrReady \<noteq> cache_ready (cm s) then Some (posix__makeerror EINVAL, output, s)
      else do {
        (status, t, s) \<leftarrow> run_task kEvfsCacheIOTypeReadDirectly cid 0 0 output s;
        Some (status, block_after output t, s)
      })"

definition evfs_cache_read_head_directly :: "int \<Rightarrow> bytes option \<Rightarrow> evfs_state \<Rightarrow> (nsp_status \<times> bytes option \<times> evfs_state) option" where
  "evfs_cache_read_head_directly cid clusterptr s =
     (if cid \<le> 0 \<or> clusterptr = None \<or> kEvmgrReady \<noteq> cache_ready (cm s) then Some (posix__makeerror EINVAL, clusterptr, s)
      else do {
        (status, t, s) \<leftarrow> run_task kEvfsCacheIOTypeReadHeadDirectly cid 0 0 clusterptr s;
        Some (status, block_after clusterptr t, s)
      })"

definition evfs_cache_write :: "int \<Rightarrow> bytes option \<Rightarrow> int \<Rightarrow> int \<Rightarrow> evfs_state \<Rightarrow> (nsp_status \<times> evfs_state) option" where
  "evfs_cache_write cid input offset len s =
     (if cid \<le> 0 \<or> input = None \<or> offset < 0 \<or> len < 0 then Some (posix__makeerror EINVAL, s)
      else do {
        last \<leftarrow> c_int (offset + len);
        if last > cache_cluster_size (cm s) \<or> kEvmgrReady \<noteq> cache_ready (cm s) then Some (posix__makeerror EINVAL, s)
        else do {
          (status, t, s) \<leftarrow> run_task kEvfsCacheIOTypeWrite cid offset len input s;
          Some (status, s)
        }
      })"

definition evfs_cache_write_head :: "int \<Rightarrow> bytes option \<Rightarrow> evfs_state \<Rightarrow> (nsp_status \<times> evfs_state) option" where
  "evfs_cache_write_head cid clusterptr s = evfs_cache_write cid clusterptr 0 (int sizeof_cluster) s"

definition evfs_cache_write_userdata :: "int \<Rightarrow> bytes option \<Rightarrow> int \<Rightarrow> int \<Rightarrow> evfs_state \<Rightarrow> (nsp_status \<times> evfs_state) option" where
  "evfs_cache_write_userdata cid input offset len s =
     (if input = None then Some (posix__makeerror EINVAL, s)
      else do {
        b \<leftarrow> beyond_userdata offset len s;
        if b \<or> cid < 0 then Some (posix__makeerror EINVAL, s)
        else evfs_cache_write cid input (to_int (offset + int sizeof_cluster)) len s
      })"

definition evfs_cache_write_directly :: "int \<Rightarrow> bytes option \<Rightarrow> evfs_state \<Rightarrow> (nsp_status \<times> evfs_state) option" where
  "evfs_cache_write_directly cid input s =
     (if cid \<le> 0 \<or> input = None \<or> kEvmgrReady \<noteq> cache_ready (cm s) then Some (posix__makeerror EINVAL, s)
      else do {
        (status, t, s) \<leftarrow> run_task kEvfsCacheIOTypeWriteDirectly cid 0 0 input s;
        Some (status, s)
      })"

section \<open>Flushing and the number of blocks\<close>

text \<open>A task that nobody waits for stays in the queue.\<close>

definition flush_with :: "evfs_cache_iotype \<Rightarrow> int \<Rightarrow> bool \<Rightarrow> evfs_state \<Rightarrow> evfs_state option" where
  "flush_with ty cid no_wait s = do {
     (status, s) \<leftarrow> post_task ty cid 0 0 None s;
     if \<not> NSP_SUCCESS status \<or> no_wait then Some s
     else do { (t, s) \<leftarrow> evfs_cache_wait_background_compelete s; Some s }
   }"

definition evfs_cache_flush :: "bool \<Rightarrow> evfs_state \<Rightarrow> evfs_state option" where
  "evfs_cache_flush no_wait s =
     (if kEvmgrReady \<noteq> cache_ready (cm s) then Some s else flush_with kEvfsCacheIOTypeFlushBufferAll 0 no_wait s)"

definition evfs_cache_flush_block :: "int \<Rightarrow> bool \<Rightarrow> evfs_state \<Rightarrow> evfs_state option" where
  "evfs_cache_flush_block cid no_wait s =
     (if cid \<le> 0 \<or> kEvmgrReady \<noteq> cache_ready (cm s) then Some s else flush_with kEvfsCacheIOTypeFlushBuffer cid no_wait s)"

text \<open>The result is read from the task after waiting has released it: a failure whenever the file did grow.\<close>

definition evfs_cache_expand :: "evfs_state \<Rightarrow> (int \<times> int option \<times> evfs_state) option" where
  "evfs_cache_expand s =
     (if kEvmgrReady \<noteq> cache_ready (cm s) then Some (- 1, None, s)
      else do {
        (status, t, s) \<leftarrow> run_task kEvfsCacheIOTypeHardExpand 0 0 0 None s;
        if \<not> NSP_SUCCESS status then Some (- 1, None, s) else None
      })"

definition evfs_cache_add_block :: "int \<Rightarrow> evfs_state \<Rightarrow> (nsp_status \<times> evfs_state) option" where
  "evfs_cache_add_block n s =
     (if kEvmgrReady \<noteq> cache_ready (cm s) then Some (posix__makeerror EINVAL, s)
      else do {
        (status, t, s) \<leftarrow> run_task kEvfsCacheIOTypeAddCacheBlock 0 0 n None s;
        Some (status, s)
      })"

definition evfs_cache_set_block_num :: "int \<Rightarrow> evfs_state \<Rightarrow> (nsp_status \<times> evfs_state) option" where
  "evfs_cache_set_block_num n s =
     (if kEvmgrReady \<noteq> cache_ready (cm s) \<or> n < 0 then Some (posix__makeerror EINVAL, s)
      else do {
        (status, t, s) \<leftarrow> run_task kEvfsCacheIOTypeChangeBlockCount 0 0 n None s;
        Some (if t = None then posix__makeerror ENOMEM else status, s)
      })"

text \<open>The result of \<^verbatim>\<open>evfs_cache_hard_state\<close> is the status and the filled structure.\<close>

definition evfs_cache_hard_state :: "bool \<Rightarrow> evfs_state \<Rightarrow> (nsp_status \<times> evfs_cache_stat option \<times> evfs_state) option" where
  "evfs_cache_hard_state stat s =
     (if \<not> stat then Some (posix__makeerror EINVAL, None, s)
      else if kEvmgrReady \<noteq> cache_ready (cm s) then Some (posix__makeerror ENODEV, None, s)
      else do {
        (status, t, s) \<leftarrow> run_task kEvfsCacheIOTypeHardState 0 0 20 None s;
        Some (status, Option.bind t task_stat, s)
      })"

section \<open>Starting and stopping\<close>

definition set_cache_ready :: "evfs_ready_stat \<Rightarrow> evfs_state \<Rightarrow> evfs_state" where
  "set_cache_ready r s = s\<lparr>cm := (cm s)\<lparr>cache_ready := r\<rparr>\<rparr>"

text \<open>The status of \<^verbatim>\<open>lwp_create\<close> is an argument.\<close>

definition evfs_cache_init_merge_thread :: "nsp_status \<Rightarrow> evfs_state \<Rightarrow> nsp_status \<times> evfs_state" where
  "evfs_cache_init_merge_thread created s = (created, s\<lparr>merge := (merge s)\<lparr>stop := False, io := []\<rparr>\<rparr>)"

text \<open>\<^verbatim>\<open>creator\<close>: the size and the number of clusters of a new file. The statuses before the thread is created are overwritten.\<close>

definition evfs_cache_init :: "nsp_status \<Rightarrow> string option \<Rightarrow> int \<Rightarrow> (int \<times> int) option \<Rightarrow> evfs_state \<Rightarrow> (nsp_status \<times> evfs_state) option" where
  "evfs_cache_init created file n creator s =
     (if n < 0 then Some (posix__makeerror EINVAL, s)
      else if cache_ready (cm s) \<noteq> kEvmgrNotReady then Some (posix__makeerror EEXIST, s)
      else do {
        let s = set_cache_ready kEvmgrInitializing s;
        (status, e) \<leftarrow> (case creator of Some (cs, cc) \<Rightarrow> evfs_hard_create file cs cc (env s) | None \<Rightarrow> evfs_hard_open file (env s));
        let s = s\<lparr>env := e\<rparr>;
        if \<not> NSP_SUCCESS status then Some (status, set_cache_ready kEvmgrNotReady s)
        else do {
          cs \<leftarrow> evfs_hard_get_cluster_size (env s);
          let s = s\<lparr>cm := (cm s)\<lparr>cache_cluster_size := cs\<rparr>\<rparr>;
          let (i, s) = evfs_cache_add_block_to_idle n s;
          let s = s\<lparr>cm := (cm s)\<lparr>cache_block_num := i\<rparr>\<rparr>;
          let (status, s) = evfs_cache_init_merge_thread created s;
          Some (status, set_cache_ready (if NSP_SUCCESS status then kEvmgrReady else kEvmgrNotReady) s)
        }
      })"

text \<open>The two loops that release the nodes; each iteration takes the head of its list.\<close>

fun release_lru :: "nat list \<Rightarrow> evfs_state \<Rightarrow> evfs_state option" where
  "release_lru [] s = Some s"
| "release_lru (a # as) s = do {
     n \<leftarrow> get_node s a;
     (t, _) \<leftarrow> avlremove (root_of_lru_index (cm s)) (Some (cluster_id n, a)) None (Some evfs_cache_compare_by_cluster_id);
     release_lru as (free_node a (s\<lparr>cm := (cm s)\<lparr>lru := list_del a (lru (cm s)), root_of_lru_index := t\<rparr>\<rparr>))
   }"

fun release_idle :: "nat list \<Rightarrow> evfs_state \<Rightarrow> evfs_state" where
  "release_idle [] s = s"
| "release_idle (a # as) s = release_idle as (free_node a (s\<lparr>cm := (cm s)\<lparr>idle := list_del a (idle (cm s))\<rparr>\<rparr>))"

text \<open>Without memory for the task nothing is flushed and the file stays open.\<close>

definition evfs_cache_uninit :: "evfs_state \<Rightarrow> evfs_state option" where
  "evfs_cache_uninit s =
     (if cache_ready (cm s) \<noteq> kEvmgrReady then Some s
      else do {
        (_, _, s) \<leftarrow> run_task kEvfsCacheIOTypeHardClose 0 0 0 None (set_cache_ready kEvmgrUninitializing s);
        (_, s) \<leftarrow> evfs_cache_pop_task_until_empty (s\<lparr>merge := (merge s)\<lparr>stop := True\<rparr>\<rparr>);
        s \<leftarrow> release_lru (lhead (lru (cm s))) s;
        let s = release_idle (lhead (idle (cm s))) s;
        let s = s\<lparr>cm := (cm s)\<lparr>idle := (idle (cm s))\<lparr>lhead := []\<rparr>, lru := (lru (cm s))\<lparr>lhead := []\<rparr>, dirty := (dirty (cm s))\<lparr>lhead := []\<rparr>,
          cache_cluster_size := 0, cache_block_num := 0\<rparr>\<rparr>;
        Some (set_cache_ready kEvmgrNotReady s)
      })"


text \<open>
  One round of the loop of the worker thread, after the outcome of waiting for an event: the result says whether the loop goes on.
  After five seconds without a task all modified blocks are flushed. A round that ends the loop finishes the queue.
\<close>

datatype wait_outcome = Awakened | TimedOut | WaitFailed

definition evfs_cache_thread_merge_io :: "wait_outcome \<Rightarrow> evfs_state \<Rightarrow> (bool \<times> evfs_state) option" where
  "evfs_cache_thread_merge_io w s =
     (if stop (merge s) \<or> w = WaitFailed then do { (_, s) \<leftarrow> evfs_cache_pop_task_until_empty s; Some (False, s) }
      else if w = TimedOut then do { s \<leftarrow> evfs_cache_flush_buffer_all s; Some (True, s) }
      else do { (_, s) \<leftarrow> evfs_cache_pop_task_until_empty s; Some (True, s) })"

section \<open>A started cache\<close>

text \<open>
  A started cache whose users see the clusters \<^term>\<open>V\<close>, with nothing in the queue; addresses of nodes are below the next
  fresh one.
\<close>

definition heap_ok :: "evfs_state \<Rightarrow> bool" where
  "heap_ok s \<longleftrightarrow> (\<forall>a \<in> dom (nodes (cm s)). a < fresh (cm s))"

definition waiting :: "evfs_state \<Rightarrow> bool" where
  "waiting s \<longleftrightarrow> cache_ready (cm s) = kEvmgrReady \<and> \<not> stop (merge s) \<and> io (merge s) = [] \<and> io_count (merge s) = 0"

definition serving :: "nat \<Rightarrow> string \<Rightarrow> evfs_state \<Rightarrow> nat \<Rightarrow> nat \<Rightarrow> (nat \<Rightarrow> bytes) \<Rightarrow> bool" where
  "serving ecc path s cs cc V \<longleftrightarrow> waiting s \<and> heap_ok s \<and> fit s \<and> (\<exists>D. cache_inv ecc path s cs cc D \<and> view s D = V)"

lemma heap_kept: "heap_ok s \<Longrightarrow> kept s s' \<Longrightarrow> heap_ok s'"
  by (simp add: heap_ok_def kept_def)

lemma inv_env: "store_holds ecc path e cs cc D \<Longrightarrow> cache_inv ecc path s cs cc D \<Longrightarrow> cache_inv ecc path (s\<lparr>env := e\<rparr>) cs cc D"
  "view (s\<lparr>env := e\<rparr>) = view s" "fit (s\<lparr>env := e\<rparr>) = fit s" "blocks (s\<lparr>env := e\<rparr>) = blocks s"
  by (auto simp: cache_inv_def view_def fit_def blocks_def)

lemma store_mallocs: "store_holds ecc path e cs cc D \<Longrightarrow> roomy (e\<lparr>mallocs := ms\<rparr>) \<Longrightarrow> store_holds ecc path (e\<lparr>mallocs := ms\<rparr>) cs cc D"
  by (auto simp: store_holds_def store_ok_def)

lemma store_malloc:
  assumes "store_holds ecc path e cs cc D"
  shows "\<exists>b e'. ztrymalloc n e = (Some b, e') \<and> length b = nat n \<and> store_holds ecc path e' cs cc D"
proof -
  have "roomy e" using assms by (simp add: store_holds_def)
  then obtain b ms where "ztrymalloc n e = (Some b, e\<lparr>mallocs := ms\<rparr>)" "length b = nat n" "roomy (e\<lparr>mallocs := ms\<rparr>)"
    using malloc_roomy by blast
  then show ?thesis using store_mallocs [OF assms] by blast
qed

lemma long_at_Some: "off + 8 \<le> length b \<Longrightarrow> \<exists>v. long_at b off = Some v"
  by (simp add: long_at_def mem_read_def)

text \<open>Posting a task to a waiting worker.\<close>

lemma post_keeps:
  assumes "store_holds ecc path (env s) cs cc D" "\<not> stop (merge s)" "io (merge s) = []" "io_count (merge s) = 0"
  shows "\<exists>st e. post_task ty cid off len data s =
      Some (0, s\<lparr>env := e, merge := (merge s)\<lparr>io := [make_task ty cid off len data st], io_count := 1\<rparr>\<rparr>) \<and>
      (\<forall>D. store_holds ecc path (env s) cs cc D \<longrightarrow> store_holds ecc path e cs cc D)"
proof -
  have "roomy (env s)" using assms(1) by (simp add: store_holds_def)
  then obtain b ms where b: "ztrymalloc sizeof_task (env s) = (Some b, (env s)\<lparr>mallocs := ms\<rparr>)" "length b = 176" "roomy ((env s)\<lparr>mallocs := ms\<rparr>)"
    using malloc_roomy [of "env s" sizeof_task] by (auto simp: sizeof_task_def)
  obtain st where "long_at b 48 = Some st" using long_at_Some [of 48 b] b(2) by auto
  then show ?thesis using b(1) store_mallocs [OF _ b(3)] assms(2-4)
    by (intro exI [of _ st] exI [of _ "(env s)\<lparr>mallocs := ms\<rparr>"])
      (simp add: post_task_def evfs_cache_push_task_and_notify_run_def EVFS_MAX_IO_PENDING_COUNT_def NSP_STATUS_SUCCESSFUL_def)
qed

lemma post_spec:
  assumes "store_holds ecc path (env s) cs cc D" "\<not> stop (merge s)" "io (merge s) = []" "io_count (merge s) = 0"
  shows "\<exists>st e. post_task ty cid off len data s =
      Some (0, s\<lparr>env := e, merge := (merge s)\<lparr>io := [make_task ty cid off len data st], io_count := 1\<rparr>\<rparr>) \<and> store_holds ecc path e cs cc D"
  using post_keeps [OF assms, of ty cid off len data] assms(1) by auto

lemma run_data_task:
  assumes s: "serving ecc path s cs cc V" and t: "\<And>st. data_task cs cc (make_task ty cid off len data st)"
  shows "\<exists>s' st. run_task ty cid off len data s = Some (0, Some (fst (serve (make_task ty cid off len data st) V)), s') \<and>
    serving ecc path s' cs cc (snd (serve (make_task ty cid off len data st) V))"
proof -
  obtain D where D: "cache_inv ecc path s cs cc D" "view s D = V" and w: "waiting s" "heap_ok s" "fit s" using s by (auto simp: serving_def)
  obtain st e where p: "post_task ty cid off len data s =
      Some (0, s\<lparr>env := e, merge := (merge s)\<lparr>io := [make_task ty cid off len data st], io_count := 1\<rparr>\<rparr>)" "store_holds ecc path e cs cc D"
    using post_spec [OF inv_store [OF D(1)]] w(1) unfolding waiting_def by blast
  let ?t = "make_task ty cid off len data st"
  define s1 where "s1 = s\<lparr>env := e, merge := (merge s)\<lparr>io := [?t], io_count := 1\<rparr>\<rparr>"
  have s1: "cache_inv ecc path s1 cs cc D" "fit s1" "view s1 D = V" "io (merge s1) = [?t]"
    using inv_env(1) [OF p(2) D(1)] D(2) w(3) by (simp_all add: s1_def inv_env(2,3))
  obtain s' D' where r: "drain [?t] s1 = Some (fst (serve_all [?t] V), s')" "cache_inv ecc path s' cs cc D'"
    "view s' D' = snd (serve_all [?t] V)" "fit s'" "kept (s1\<lparr>merge := (merge s1)\<lparr>io := [], io_count := io_count (merge s1) - int (length [?t])\<rparr>\<rparr>) s'"
    using drain_data_tasks [OF s1(1,2) _ s1(4)] t s1(3) by auto
  have k: "waiting s'" "heap_ok s'" using r(5) w(1,2) by (simp_all add: kept_def waiting_def heap_ok_def s1_def)
  have "task_status (fst (serve ?t V)) = 0" by (simp add: serve_def Let_def NSP_STATUS_SUCCESSFUL_def)
  then have "run_task ty cid off len data s = Some (0, Some (fst (serve ?t V)), s')"
    using p(1) r(1) s1(4) by (simp add: run_task_def evfs_cache_wait_background_compelete_def evfs_cache_pop_task_until_empty_def
        s1_def [symmetric] split_beta error_not_success)
  moreover have "serving ecc path s' cs cc (snd (serve ?t V))" using r(2-4) k by (auto simp: serving_def split_beta)
  ultimately show ?thesis by blast
qed

lemma serving_geometry:
  assumes "serving ecc path s cs cc V"
  shows "cache_cluster_size (cm s) = int cs" "cs \<le> 4096" "cache_ready (cm s) = kEvmgrReady"
  using assms by (auto simp: serving_def cache_inv_def store_holds_def store_ok_def waiting_def)

lemma read_served:
  assumes s: "serving ecc path s cs cc V" and c: "0 < c" "c < cc" and off: "0 \<le> off" "0 \<le> len" "off + len \<le> int cs" "len \<le> int (length buf)"
  shows "\<exists>s'. evfs_cache_read (int c) (Some buf) off len s = Some (0, Some (take (nat len) (drop (nat off) (V c)) @ drop (nat len) buf), s') \<and>
    serving ecc path s' cs cc V"
proof -
  note g = serving_geometry [OF s]
  have "c_int (off + len) = Some (off + len)" using off g(2) by (simp add: c_int_def)
  moreover have "data_task cs cc (make_task kEvfsCacheIOTypeRead (int c) off len (Some buf) st)" for st
    using c off by (simp add: data_task_def make_task_def)
  then obtain s' st where "run_task kEvfsCacheIOTypeRead (int c) off len (Some buf) s =
      Some (0, Some (fst (serve (make_task kEvfsCacheIOTypeRead (int c) off len (Some buf) st) V)), s')"
    "serving ecc path s' cs cc (snd (serve (make_task kEvfsCacheIOTypeRead (int c) off len (Some buf) st) V))"
    using run_data_task [OF s] by blast
  ultimately show ?thesis using c off g
    by (auto simp: evfs_cache_read_def block_after_def serve_def make_task_def Let_def)
qed

lemma write_served:
  assumes s: "serving ecc path s cs cc V" and c: "0 < c" "c < cc" and off: "0 \<le> off" "0 \<le> len" "off + len \<le> int cs" "len \<le> int (length buf)"
  shows "\<exists>s'. evfs_cache_write (int c) (Some buf) off len s = Some (0, s') \<and>
    serving ecc path s' cs cc (V(c := splice (V c) (nat off) (take (nat len) buf)))"
proof -
  note g = serving_geometry [OF s]
  have "c_int (off + len) = Some (off + len)" using off g(2) by (simp add: c_int_def)
  moreover have "data_task cs cc (make_task kEvfsCacheIOTypeWrite (int c) off len (Some buf) st)" for st
    using c off by (simp add: data_task_def make_task_def)
  then obtain s' st where "run_task kEvfsCacheIOTypeWrite (int c) off len (Some buf) s =
      Some (0, Some (fst (serve (make_task kEvfsCacheIOTypeWrite (int c) off len (Some buf) st) V)), s')"
    "serving ecc path s' cs cc (snd (serve (make_task kEvfsCacheIOTypeWrite (int c) off len (Some buf) st) V))"
    using run_data_task [OF s] by blast
  ultimately show ?thesis using c off g by (auto simp: evfs_cache_write_def serve_def make_task_def Let_def)
qed

lemma flush_all_served:
  assumes "serving ecc path s cs cc V"
  shows "\<exists>s'. evfs_cache_flush_buffer_all s = Some s' \<and> serving ecc path s' cs cc V \<and> store_holds ecc path (env s') cs cc V \<and> kept s s'"
proof -
  obtain D where D: "cache_inv ecc path s cs cc D" "view s D = V" and w: "waiting s" "heap_ok s" "fit s" using assms by (auto simp: serving_def)
  obtain s' where f: "evfs_cache_flush_buffer_all s = Some s'" "cache_inv ecc path s' cs cc V" "view s' V = V" "kept s s'"
    "lhead (lru (cm s')) = lhead (lru (cm s))" "lhead (idle (cm s')) = lhead (idle (cm s))"
    using flush_all_spec [OF D(1)] D(2) by auto
  have "waiting s'" "heap_ok s'" "fit s'" using w f(4) heap_kept [OF w(2) f(4)] fit_lists [OF w(3) f(4-6)] by (simp_all add: waiting_def kept_def)
  then show ?thesis using f(1-4) inv_store [OF f(2)] by (auto simp: serving_def)
qed

lemma serving_env:
  assumes "serving ecc path s cs cc V" "\<And>D. store_holds ecc path (env s) cs cc D \<Longrightarrow> store_holds ecc path e cs cc D"
  shows "serving ecc path (s\<lparr>env := e\<rparr>) cs cc V"
proof -
  obtain D where D: "cache_inv ecc path s cs cc D" "view s D = V" and w: "waiting s" "heap_ok s" "fit s" using assms(1) by (auto simp: serving_def)
  have "cache_inv ecc path (s\<lparr>env := e\<rparr>) cs cc D" by (rule inv_env(1) [OF assms(2) [OF inv_store [OF D(1)]] D(1)])
  then show ?thesis using D(2) w by (auto simp: serving_def waiting_def heap_ok_def inv_env(2,3))
qed

lemma flush_served:
  assumes s: "serving ecc path s cs cc V"
  shows "\<exists>s'. evfs_cache_flush False s = Some s' \<and> serving ecc path s' cs cc V \<and> store_holds ecc path (env s') cs cc V"
proof -
  obtain D where D: "store_holds ecc path (env s) cs cc D" and w: "waiting s" using s by (auto simp: serving_def cache_inv_def)
  obtain st e where p: "post_task kEvfsCacheIOTypeFlushBufferAll 0 0 0 None s =
      Some (0, s\<lparr>env := e, merge := (merge s)\<lparr>io := [make_task kEvfsCacheIOTypeFlushBufferAll 0 0 0 None st], io_count := 1\<rparr>\<rparr>)"
    "\<And>D. store_holds ecc path (env s) cs cc D \<Longrightarrow> store_holds ecc path e cs cc D"
    using post_keeps [OF D] w unfolding waiting_def by blast
  have s1: "s\<lparr>env := e, merge := (merge s)\<lparr>io := [], io_count := 0\<rparr>\<rparr> = s\<lparr>env := e\<rparr>" using w by (simp add: waiting_def)
  obtain s' where f: "evfs_cache_flush_buffer_all (s\<lparr>env := e\<rparr>) = Some s'" "serving ecc path s' cs cc V" "store_holds ecc path (env s') cs cc V"
    using flush_all_served [OF serving_env [OF s p(2)]] by blast
  have "flush_with kEvfsCacheIOTypeFlushBufferAll 0 False s = Some s'"
    using p(1) f(1) s1 by (simp add: flush_with_def evfs_cache_wait_background_compelete_def evfs_cache_pop_task_until_empty_def
        error_not_success evfs_cache_exec_task_def make_task_def Let_def)
  then show ?thesis using f(2,3) serving_geometry(3) [OF s] by (auto simp: evfs_cache_flush_def)
qed

section \<open>Starting and stopping\<close>

text \<open>A stopped cache: no nodes in any list or in the index.\<close>

definition asleep :: "evfs_state \<Rightarrow> bool" where
  "asleep s \<longleftrightarrow> cache_ready (cm s) = kEvmgrNotReady \<and> index_ok (root_of_lru_index (cm s)) \<and> (\<forall>c. cached s c = None) \<and>
     lhead (lru (cm s)) = [] \<and> lhead (idle (cm s)) = [] \<and> lhead (dirty (cm s)) = [] \<and> lcount (dirty (cm s)) = 0 \<and>
     io_count (merge s) = 0 \<and> heap_ok s"

lemma shelf_new:
  assumes sh: "shelf t L M I N cs cc D" and a: "N a = None" and n: "length (node_data n) = cs" "node_state n \<noteq> kEvfsCacheBlockDirty"
  shows "shelf t L M (I @ [a]) (N(a \<mapsto> n)) cs cc D" "seen t (N(a \<mapsto> n)) D = seen t N D"
proof -
  have d: "a \<notin> set L" "a \<notin> set I" using shelf_used [OF sh, of a] shelf_spare [OF sh, of a] a by (auto simp: used_node_def spare_node_def)
  note loose = shelf_loose [OF sh d, of n]
  show "seen t (N(a \<mapsto> n)) D = seen t N D" by (rule loose(2))
  note lists = shelf_lists [OF loose(1)]
  show "shelf t L M (I @ [a]) (N(a \<mapsto> n)) cs cc D"
  proof (rule shelfI)
    fix b assume "b \<in> set (I @ [a])"
    then show "spare_node (N(a \<mapsto> n)) cs b" using shelf_spare [OF loose(1), of b] n by (auto simp: spare_node_def)
  qed (use lists d shelf_index [OF loose(1)] shelf_used [OF loose(1)] in auto)
qed

lemma add_block_loop_spec:
  assumes "cache_inv ecc path s cs cc D" "heap_ok s"
  shows "\<exists>s'. add_block_loop k i s = (i + int k, s') \<and> cache_inv ecc path s' cs cc D \<and> view s' D = view s D \<and> heap_ok s' \<and>
    cache_ready (cm s') = cache_ready (cm s) \<and> merge s' = merge s \<and> lhead (lru (cm s')) = lhead (lru (cm s)) \<and>
    length (lhead (idle (cm s'))) = length (lhead (idle (cm s))) + k"
  using assms
proof (induction k arbitrary: s i)
  case (Suc k)
  note inv = Suc.prems(1) and sh = inv_stacked [OF Suc.prems(1)]
  have cs: "cache_cluster_size (cm s) = int cs" using inv by (simp add: cache_inv_def)
  obtain b1 e1 where 1: "ztrymalloc 72 (env s) = (Some b1, e1)" "store_holds ecc path e1 cs cc D" using store_malloc [OF inv_store [OF inv]] by blast
  obtain b2 e2 where 2: "ztrymalloc (int cs) e1 = (Some b2, e2)" "length b2 = cs" "store_holds ecc path e2 cs cc D"
    using store_malloc [OF 1(2), of "int cs"] by auto
  let ?a = "fresh (cm s)" and ?n = "\<lparr>cluster_id = 0, node_state = kEvfsCacheBlockIdle, node_data = b2\<rparr>"
  define s1 where "s1 = s\<lparr>env := e2, cm := (cm s)\<lparr>nodes := (nodes (cm s))(?a \<mapsto> ?n), fresh := ?a + 1,
    idle := list_add_tail ?a (idle (cm s)), cache_block_num := cache_block_num (cm s) + 1\<rparr>\<rparr>"
  have a: "nodes (cm s) ?a = None" using Suc.prems(2) by (auto simp: heap_ok_def)
  note new = shelf_new [OF sh a, of ?n]
  have "cache_inv ecc path s1 cs cc D" using inv 2(2,3) new(1) by (simp add: cache_inv_def s1_def list_add_tail_def)
  moreover have "heap_ok s1" using Suc.prems(2) by (auto simp: heap_ok_def s1_def less_Suc_eq)
  ultimately obtain s' where s': "add_block_loop k (i + 1) s1 = (i + 1 + int k, s')" "cache_inv ecc path s' cs cc D" "view s' D = view s1 D" "heap_ok s'"
    "cache_ready (cm s') = cache_ready (cm s1)" "merge s' = merge s1" "lhead (lru (cm s')) = lhead (lru (cm s1))"
    "length (lhead (idle (cm s'))) = length (lhead (idle (cm s1))) + k"
    using Suc.IH by blast
  have "view s1 D = view s D" using new(2) 2(2) by (simp add: view_def s1_def)
  moreover have "add_block_loop (Suc k) i s = add_block_loop k (i + 1) s1"
    using 1(1) 2(1) cs by (simp add: new_node_def s1_def Let_def)
  ultimately show ?case using s' by (intro exI [of _ s']) (simp add: s1_def list_add_tail_def)
qed auto

lemma store_cluster_size: "store_holds ecc path e cs cc D \<Longrightarrow> evfs_hard_get_cluster_size e = Some (int cs)"
  using store_ready by (auto simp: store_holds_def store_ok_def header_def evfs_hard_get_cluster_size_def)

lemma init_serves:
  assumes s: "asleep s" and n: "0 \<le> n"
    and h: "(case creator of Some (cs, cc) \<Rightarrow> evfs_hard_create file cs cc (env s) | None \<Rightarrow> evfs_hard_open file (env s)) = Some (0, e)"
    and e: "store_holds ecc path e cs cc V"
  shows "\<exists>s'. evfs_cache_init 0 file n creator s = Some (0, s') \<and> serving ecc path s' cs cc V \<and> store_holds ecc path (env s') cs cc V"
proof -
  define s1 where "s1 = (set_cache_ready kEvmgrInitializing s)\<lparr>env := e, cm := (cm (set_cache_ready kEvmgrInitializing s))\<lparr>cache_cluster_size := int cs\<rparr>\<rparr>"
  have f: "root_of_lru_index (cm s1) = root_of_lru_index (cm s)" "lhead (lru (cm s1)) = []" "lhead (idle (cm s1)) = []"
    "lhead (dirty (cm s1)) = []" "lcount (dirty (cm s1)) = 0" "env s1 = e" "cache_cluster_size (cm s1) = int cs" "merge s1 = merge s"
    "nodes (cm s1) = nodes (cm s)" "fresh (cm s1) = fresh (cm s)"
    using s by (simp_all add: s1_def set_cache_ready_def asleep_def)
  have inv: "cache_inv ecc path s1 cs cc V" using s e by (simp add: cache_inv_def f shelf_def asleep_def)
  have hp: "heap_ok s1" using s by (simp add: heap_ok_def f asleep_def)
  obtain s2 where 2: "add_block_loop (nat n) 0 s1 = (int (nat n), s2)" "cache_inv ecc path s2 cs cc V" "view s2 V = view s1 V" "heap_ok s2"
    "merge s2 = merge s1" "lhead (lru (cm s2)) = []" "length (lhead (idle (cm s2))) = nat n"
    using add_block_loop_spec [OF inv hp, of "nat n" 0] f(2,3) by auto
  define s3 where "s3 = s2\<lparr>cm := (cm s2)\<lparr>cache_block_num := n, cache_ready := kEvmgrReady\<rparr>, merge := (merge s2)\<lparr>stop := False, io := []\<rparr>\<rparr>"
  have h': "(case creator of Some (cs, cc) \<Rightarrow> evfs_hard_create file cs cc (env (set_cache_ready kEvmgrInitializing s))
      | None \<Rightarrow> evfs_hard_open file (env (set_cache_ready kEvmgrInitializing s))) = Some (0, e)"
    using h by (cases creator) (simp_all add: set_cache_ready_def split_beta)
  have "evfs_cache_init 0 file n creator s = Some (0, s3)"
    using assms(1,2) store_cluster_size [OF e] 2(1) unfolding s1_def
    by (simp add: evfs_cache_init_def asleep_def h' error_not_success evfs_cache_add_block_to_idle_def
        evfs_cache_init_merge_thread_def s3_def Let_def set_cache_ready_def [of kEvmgrReady])
  moreover have "view s3 V = V" using 2(3) view_empty [OF inv_stacked [OF inv] f(2)] by (simp add: view_def s3_def)
  moreover have "cache_inv ecc path s3 cs cc V" using 2(2) by (simp add: cache_inv_def s3_def)
  moreover have "waiting s3" "heap_ok s3" "fit s3"
    using 2 f(8) s n by (simp_all add: waiting_def s3_def asleep_def heap_ok_def fit_def blocks_def)
  moreover have "store_holds ecc path (env s3) cs cc V" using inv_store [OF 2(2)] by (simp add: s3_def)
  ultimately show ?thesis by (auto simp: serving_def)
qed

text \<open>Releasing the used nodes empties the index.\<close>

lemma release_lru_spec:
  assumes "index_ok (root_of_lru_index (cm s))" "distinct as" "lhead (lru (cm s)) = as" "\<And>a. a \<in> set as \<Longrightarrow> get_node s a \<noteq> None"
    and "\<And>c a. cached s c = Some a \<longleftrightarrow> a \<in> set as \<and> (\<exists>n. get_node s a = Some n \<and> cluster_id n = c)"
  shows "\<exists>s'. release_lru as s = Some s' \<and> index_ok (root_of_lru_index (cm s')) \<and> (\<forall>c. cached s' c = None) \<and>
    env s' = env s \<and> merge s' = merge s \<and> fresh (cm s') = fresh (cm s) \<and> dom (nodes (cm s')) \<subseteq> dom (nodes (cm s)) \<and>
    dirty (cm s') = dirty (cm s)"
  using assms
proof (induction as arbitrary: s)
  case Nil
  have "cached s c = None" for c using Nil.prems(5) by (cases "cached s c") auto
  then show ?case using Nil.prems(1) by simp
next
  case (Cons a as)
  obtain n where n: "get_node s a = Some n" using Cons.prems(4) by auto
  obtain t' where t: "avlremove (root_of_lru_index (cm s)) (Some (cluster_id n, a)) None (Some evfs_cache_compare_by_cluster_id) = Some (t', None)"
    "index_ok t'" "index_lookup t' = (index_lookup (root_of_lru_index (cm s)))(cluster_id n := None)"
    using index_remove [OF Cons.prems(1)] by blast
  define s1 where "s1 = free_node a (s\<lparr>cm := (cm s)\<lparr>lru := list_del a (lru (cm s)), root_of_lru_index := t'\<rparr>\<rparr>)"
  have s1: "root_of_lru_index (cm s1) = t'" "lhead (lru (cm s1)) = as" "nodes (cm s1) = (nodes (cm s))(a := None)" "env s1 = env s"
    "merge s1 = merge s" "fresh (cm s1) = fresh (cm s)" "dirty (cm s1) = dirty (cm s)"
    using Cons.prems(3) by (simp_all add: s1_def free_node_def list_del_def)
  have a: "a \<notin> set as" "cached s (cluster_id n) = Some a" using Cons.prems(2,5) n by auto
  have ix: "cached s1 c = Some b \<longleftrightarrow> b \<in> set as \<and> (\<exists>m. get_node s1 b = Some m \<and> cluster_id m = c)" for c b
    unfolding s1(1,3) index_of_update(2) [OF t(3)] using Cons.prems(5) [of c b] a n
    by (cases "c = cluster_id n"; cases "b = a") auto
  have "get_node s1 b \<noteq> None" if "b \<in> set as" for b using Cons.prems(4) [of b] that a(1) by (auto simp: s1(3))
  then obtain s' where "release_lru as s1 = Some s'" "index_ok (root_of_lru_index (cm s'))" "\<forall>c. cached s' c = None"
    "env s' = env s1" "merge s' = merge s1" "fresh (cm s') = fresh (cm s1)" "dom (nodes (cm s')) \<subseteq> dom (nodes (cm s1))"
    "dirty (cm s') = dirty (cm s1)"
    using Cons.IH [of s1] Cons.prems(2) t(2) ix by (auto simp: s1(1,2))
  then show ?case using n t(1) s1 by (intro exI [of _ s']) (auto simp: s1_def [symmetric])
qed

lemma release_idle_spec:
  "env (release_idle as s) = env s \<and> merge (release_idle as s) = merge s \<and> fresh (cm (release_idle as s)) = fresh (cm s) \<and>
   dom (nodes (cm (release_idle as s))) \<subseteq> dom (nodes (cm s)) \<and> root_of_lru_index (cm (release_idle as s)) = root_of_lru_index (cm s) \<and>
   dirty (cm (release_idle as s)) = dirty (cm s)"
proof (induction as arbitrary: s)
  case (Cons a as)
  show ?case using Cons.IH [of "free_node a (s\<lparr>cm := (cm s)\<lparr>idle := list_del a (idle (cm s))\<rparr>\<rparr>)"] by (auto simp: free_node_def split: if_splits)
qed simp

lemma uninit_sleeps:
  assumes s: "serving ecc path s cs cc V"
  shows "\<exists>s' e. evfs_cache_uninit s = Some s' \<and> asleep s' \<and> env s' = evfs_hard_close e \<and> store_holds ecc path e cs cc V"
proof -
  obtain D where D: "cache_inv ecc path s cs cc D" "view s D = V" and w: "waiting s" "heap_ok s" using s by (auto simp: serving_def)
  define s0 where "s0 = set_cache_ready kEvmgrUninitializing s"
  have 0: "store_holds ecc path (env s0) cs cc D" "\<not> stop (merge s0)" "io (merge s0) = []" "io_count (merge s0) = 0"
    using inv_store [OF D(1)] w(1) by (simp_all add: s0_def set_cache_ready_def waiting_def)
  obtain st e where p: "post_task kEvfsCacheIOTypeHardClose 0 0 0 None s0 =
      Some (0, s0\<lparr>env := e, merge := (merge s0)\<lparr>io := [make_task kEvfsCacheIOTypeHardClose 0 0 0 None st], io_count := 1\<rparr>\<rparr>)" "store_holds ecc path e cs cc D"
    using post_spec [OF 0] by blast
  define s1 where "s1 = s0\<lparr>env := e, merge := (merge s0)\<lparr>io := [], io_count := 0\<rparr>\<rparr>"
  have s1: "cache_inv ecc path s1 cs cc D" "view s1 D = V"
    using D p(2) by (simp_all add: s1_def s0_def set_cache_ready_def cache_inv_def view_def)
  obtain s2 where f: "evfs_cache_flush_buffer_all s1 = Some s2" "cache_inv ecc path s2 cs cc V" "kept s1 s2" "lhead (dirty (cm s2)) = []"
    using flush_all_spec [OF s1(1)] s1(2) by auto
  define s3 where "s3 = s2\<lparr>env := evfs_hard_close (env s2)\<rparr>"
  have m3: "merge s3 = (merge s)\<lparr>io := [], io_count := 0\<rparr>" using f(3) by (simp add: s3_def kept_def s1_def s0_def set_cache_ready_def)
  have run: "run_task kEvfsCacheIOTypeHardClose 0 0 0 None s0 = Some (0, Some ((make_task kEvfsCacheIOTypeHardClose 0 0 0 None st)\<lparr>task_status := 0\<rparr>), s3)"
    using p(1) f(1) by (simp add: run_task_def evfs_cache_wait_background_compelete_def evfs_cache_pop_task_until_empty_def error_not_success
        evfs_cache_exec_task_def make_task_def NSP_STATUS_SUCCESSFUL_def s3_def s1_def Let_def)
  define s4 where "s4 = s3\<lparr>merge := (merge s3)\<lparr>stop := True\<rparr>\<rparr>"
  have s4: "root_of_lru_index (cm s4) = root_of_lru_index (cm s2)" "lhead (lru (cm s4)) = lhead (lru (cm s2))" "nodes (cm s4) = nodes (cm s2)"
    "dirty (cm s4) = dirty (cm s2)" "fresh (cm s4) = fresh (cm s)" "dom (nodes (cm s4)) = dom (nodes (cm s))"
    using f(3) by (simp_all add: s4_def s3_def kept_def s1_def s0_def set_cache_ready_def)
  note sh = inv_stacked [OF f(2)]
  have used: "get_node s2 a \<noteq> None" if "a \<in> set (lhead (lru (cm s2)))" for a using shelf_used [OF sh that] by (auto simp: used_node_def)
  obtain s5 where 5: "release_lru (lhead (lru (cm s4))) s4 = Some s5" "index_ok (root_of_lru_index (cm s5))" "\<forall>c. cached s5 c = None"
    "env s5 = env s4" "merge s5 = merge s4" "fresh (cm s5) = fresh (cm s4)" "dom (nodes (cm s5)) \<subseteq> dom (nodes (cm s4))" "dirty (cm s5) = dirty (cm s4)"
  proof -
    have "\<exists>s'. release_lru (lhead (lru (cm s4))) s4 = Some s' \<and> index_ok (root_of_lru_index (cm s')) \<and> (\<forall>c. cached s' c = None) \<and>
      env s' = env s4 \<and> merge s' = merge s4 \<and> fresh (cm s') = fresh (cm s4) \<and> dom (nodes (cm s')) \<subseteq> dom (nodes (cm s4)) \<and> dirty (cm s') = dirty (cm s4)"
      by (rule release_lru_spec [OF _ _ refl]) (use shelf_lists [OF sh] shelf_index [OF sh] used in \<open>simp_all add: s4(1-3)\<close>)
    then show ?thesis using that by blast
  qed
  define s6 where "s6 = release_idle (lhead (idle (cm s5))) s5"
  note s6 = release_idle_spec [of "lhead (idle (cm s5))" s5, folded s6_def]
  define s7 where "s7 = set_cache_ready kEvmgrNotReady (s6\<lparr>cm := (cm s6)\<lparr>idle := (idle (cm s6))\<lparr>lhead := []\<rparr>, lru := (lru (cm s6))\<lparr>lhead := []\<rparr>,
    dirty := (dirty (cm s6))\<lparr>lhead := []\<rparr>, cache_cluster_size := 0, cache_block_num := 0\<rparr>\<rparr>)"
  have un: "evfs_cache_uninit s = Some s7"
    using run 5(1) w(1) m3 by (simp add: evfs_cache_uninit_def s0_def [symmetric] waiting_def evfs_cache_pop_task_until_empty_def
        s4_def [symmetric] s6_def [symmetric] s7_def Let_def) (simp add: s4_def s6_def s7_def)
  have "dom (nodes (cm s6)) \<subseteq> dom (nodes (cm s))" using s6 5(7) s4(6) by (metis order_trans)
  then have "heap_ok s7" using w(2) s6 5(6) s4(5) by (auto simp: heap_ok_def s7_def set_cache_ready_def)
  moreover have "lcount (dirty (cm s7)) = 0" using s6 5(8) s4(4) f(2,4) by (simp add: s7_def set_cache_ready_def cache_inv_def)
  ultimately have "asleep s7" using 5(2,3,5) s6 m3 by (simp add: asleep_def s7_def set_cache_ready_def s4_def)
  moreover have "env s7 = evfs_hard_close (env s2)" using s6 5(4) by (simp add: s7_def set_cache_ready_def s4_def s3_def)
  ultimately show ?thesis using un inv_store [OF f(2)] by blast
qed


section \<open>Other tasks of a started cache\<close>

text \<open>The file holds what it held before.\<close>

definition same_disk :: "nat \<Rightarrow> string \<Rightarrow> nat \<Rightarrow> nat \<Rightarrow> evfs_env \<Rightarrow> evfs_env \<Rightarrow> bool" where
  "same_disk ecc path cs cc e e' \<longleftrightarrow> (\<forall>D. store_holds ecc path e cs cc D \<longrightarrow> store_holds ecc path e' cs cc D)"

lemma same_disk_trans: "same_disk ecc path cs cc a b \<Longrightarrow> same_disk ecc path cs cc b c \<Longrightarrow> same_disk ecc path cs cc a c"
  by (simp add: same_disk_def)

lemma serving_disk: "serving ecc path s cs cc V \<Longrightarrow> same_disk ecc path cs cc (env s) e \<Longrightarrow> serving ecc path (s\<lparr>env := e\<rparr>) cs cc V"
  by (rule serving_env) (simp_all add: same_disk_def)

lemma run_one:
  assumes s: "serving ecc path s cs cc V"
  shows "\<exists>st e. same_disk ecc path cs cc (env s) e \<and> run_task ty cid off len data s =
    do { (t, s) \<leftarrow> evfs_cache_exec_task (make_task ty cid off len data st) (s\<lparr>env := e\<rparr>); Some (task_status t, Some t, s) }"
proof -
  obtain D where D: "store_holds ecc path (env s) cs cc D" and w: "waiting s" using s by (auto simp: serving_def cache_inv_def)
  obtain st e where p: "post_task ty cid off len data s =
      Some (0, s\<lparr>env := e, merge := (merge s)\<lparr>io := [make_task ty cid off len data st], io_count := 1\<rparr>\<rparr>)" "same_disk ecc path cs cc (env s) e"
    using post_keeps [OF D] w unfolding waiting_def same_disk_def by blast
  have "s\<lparr>env := e, merge := (merge s)\<lparr>io := [], io_count := 0\<rparr>\<rparr> = s\<lparr>env := e\<rparr>" using w by (simp add: waiting_def)
  then have "run_task ty cid off len data s =
    do { (t, s) \<leftarrow> evfs_cache_exec_task (make_task ty cid off len data st) (s\<lparr>env := e\<rparr>); Some (task_status t, Some t, s) }"
    using p(1) by (cases "evfs_cache_exec_task (make_task ty cid off len data st) (s\<lparr>env := e\<rparr>)")
      (auto simp: run_task_def evfs_cache_wait_background_compelete_def evfs_cache_pop_task_until_empty_def error_not_success)
  then show ?thesis using p(2) by blast
qed

lemma hard_state_served:
  assumes s: "serving ecc path s cs cc V"
  shows "\<exists>stat s'. evfs_cache_hard_state True s = Some (0, Some stat, s') \<and> hard_cluster_size stat = int cs \<and> hard_cluster_count stat = int cc - 1 \<and>
    hard_max_data_seg_size stat = int cs - 12 \<and> serving ecc path s' cs cc V \<and> same_disk ecc path cs cc (env s) (env s')"
proof -
  obtain st e where r: "same_disk ecc path cs cc (env s) e" "run_task kEvfsCacheIOTypeHardState 0 0 20 None s =
    do { (t, s) \<leftarrow> evfs_cache_exec_task (make_task kEvfsCacheIOTypeHardState 0 0 20 None st) (s\<lparr>env := e\<rparr>); Some (task_status t, Some t, s) }"
    using run_one [OF s] by blast
  obtain D d where d: "store_ok e cs cc ecc path d" using s r(1) by (fastforce simp: serving_def cache_inv_def same_disk_def store_holds_def)
  obtain b where b: "the_first_cluster (mgr e) = Some b" "hrd_cluster_size b = Some (int cs)" "hrd_cluster_count b = Some (int cc)"
    using d by (auto simp: store_ok_def header_def)
  have "cs * cc < 2 ^ 31" "32 \<le> cs" "0 < cc" using d by (auto simp: store_ok_def)
  then have "int cc < 2 ^ 31" using factor_less [of cs cc "2 ^ 31"] int_less_2_31 by simp
  then have "evfs_hard_get_usable_cluster_count e = Some (int cc - 1)" "evfs_hard_get_cluster_size e = Some (int cs)"
    "evfs_hard_get_max_data_seg_size e = int cs - 12"
    using store_ready [OF d] b \<open>0 < cc\<close> d
    by (simp_all add: evfs_hard_get_usable_cluster_count_def evfs_hard_get_cluster_size_def evfs_hard_get_max_data_seg_size_def c_int_def
        store_ok_def sizeof_cluster_def)
  then show ?thesis using r serving_disk [OF s r(1)] serving_geometry(3) [OF s]
    by (intro exI [of _ "\<lparr>file_size = evfs_hard_get_filesize e, hard_cluster_size = int cs, hard_cluster_count = int cc - 1,
        hard_max_data_seg_size = int cs - 12, stat_cache_block_num = cache_block_num (cm s)\<rparr>"] exI [of _ "s\<lparr>env := e\<rparr>"])
      (simp add: evfs_cache_hard_state_def evfs_cache_exec_task_def make_task_def Let_def NSP_STATUS_SUCCESSFUL_def)
qed

text \<open>Reading a head from the file itself.\<close>

lemma read_head_keeps:
  assumes "store_holds ecc path e cs cc V" "c < cc" "12 \<le> length buf"
  shows "\<exists>e'. evfs_hard_read_cluster_head (int c) (Some buf) e = Some (0, Some (take 12 (V c) @ drop 12 buf), e') \<and> same_disk ecc path cs cc e e'"
proof -
  obtain d where d: "calm (kern e)" "roomy e" "0 < next_fd (kern e)" "store_ok e cs cc ecc path d" "\<forall>i < cc. cluster_of d cs i = V i"
    using assms(1) by (auto simp: store_holds_def)
  have cs: "12 \<le> cs" using d(4) by (simp add: store_ok_def)
  obtain e' where e: "evfs_hard_read_cluster_head (int c) (Some buf) e = Some (0, Some (take 12 (cluster_of d cs c) @ drop 12 buf), e')"
    "store_ok e' cs cc ecc path d" "mallocs e' = mallocs e" "next_fd (kern e') = next_fd (kern e)" "calm (kern e')"
    using read_at_spec [OF d(4) assms(2), of "\<lambda>cs. int sizeof_cluster" 12 buf] d(1) assms(3) cs
    by (auto simp: evfs_hard_read_cluster_head_def sizeof_cluster_def)
  have one: "D' = d" if "store_ok e cs cc ecc path D'" for D' using that d(4) by (simp add: store_ok_def)
  have "same_disk ecc path cs cc e e'" using e(2-5) one by (auto simp: same_disk_def store_holds_def roomy_def)
  then show ?thesis using e(1) d(5) assms(2) by auto
qed

lemma read_head_directly_served:
  assumes s: "serving ecc path s cs cc V" "store_holds ecc path (env s) cs cc V" and c: "0 < c" "c < cc" and buf: "12 \<le> length buf"
  shows "\<exists>s'. evfs_cache_read_head_directly (int c) (Some buf) s = Some (0, Some (take 12 (V c) @ drop 12 buf), s') \<and>
    serving ecc path s' cs cc V \<and> store_holds ecc path (env s') cs cc V"
proof -
  obtain st e where r: "same_disk ecc path cs cc (env s) e" "run_task kEvfsCacheIOTypeReadHeadDirectly (int c) 0 0 (Some buf) s =
    do { (t, s) \<leftarrow> evfs_cache_exec_task (make_task kEvfsCacheIOTypeReadHeadDirectly (int c) 0 0 (Some buf) st) (s\<lparr>env := e\<rparr>); Some (task_status t, Some t, s) }"
    using run_one [OF s(1)] by blast
  have "store_holds ecc path e cs cc V" using r(1) s(2) by (simp add: same_disk_def)
  then obtain e' where e: "evfs_hard_read_cluster_head (int c) (Some buf) e = Some (0, Some (take 12 (V c) @ drop 12 buf), e')" "same_disk ecc path cs cc e e'"
    using read_head_keeps [OF _ c(2) buf] by blast
  note k = same_disk_trans [OF r(1) e(2)]
  show ?thesis using r(2) e(1) c(1) serving_disk [OF s(1) k] s(2) k serving_geometry(3) [OF s(1)]
    by (intro exI [of _ "s\<lparr>env := e'\<rparr>"]) (simp add: evfs_cache_read_head_directly_def evfs_cache_exec_task_def make_task_def Let_def block_after_def same_disk_def)
qed

text \<open>Parts of a cluster: its head and its data.\<close>

lemma write_head_served:
  assumes "serving ecc path s cs cc V" "0 < c" "c < cc" "length h = 12"
  shows "\<exists>s'. evfs_cache_write_head (int c) (Some h) s = Some (0, s') \<and> serving ecc path s' cs cc (V(c := h @ drop 12 (V c)))"
proof -
  have "12 \<le> cs" using assms(1) by (auto simp: serving_def cache_inv_def store_holds_def store_ok_def)
  then show ?thesis using write_served [OF assms(1-3), of 0 12 h] assms(4) by (simp add: evfs_cache_write_head_def sizeof_cluster_def splice_def)
qed

lemma userdata_within:
  assumes "serving ecc path s cs cc V" "0 \<le> off" "0 \<le> len" "off + len \<le> int cs - 12"
  shows "beyond_userdata off len s = Some False" "to_int (off + 12) = off + 12"
proof -
  note g = serving_geometry [OF assms(1)]
  have r: "0 \<le> off + len" "off + len < 2 ^ 31" "12 \<le> cs" using assms(2-4) g(2) by simp_all
  have "(word_of_int (int cs) :: u64) - of_nat 12 = word_of_int (int cs - 12)" by simp
  moreover have u: "uint (word_of_int x :: u64) = x" if "0 \<le> x" "x < 2 ^ 31" for x
    unfolding uint_word_of_int using that by (intro mod_pos_pos_trivial) simp_all
  have "uint (word_of_int (off + len) :: u64) \<le> uint (word_of_int (int cs - 12) :: u64)"
    unfolding u [OF r(1,2)] using u [of "int cs - 12"] r(3) g(2) assms(4) by (simp del: of_int_diff of_int_add)
  ultimately have "\<not> word_of_int (int cs) - of_nat 12 < (word_of_int (off + len) :: u64)" unfolding word_less_def not_less by (simp only:)
  then show "beyond_userdata off len s = Some False"
    using r g(1) by (simp add: beyond_userdata_def c_int_def sizeof_cluster_def)
  show "to_int (off + 12) = off + 12" using assms(2-4) g(2) by (intro to_int_small) simp_all
qed

lemma write_userdata_served:
  assumes "serving ecc path s cs cc V" "0 < c" "c < cc" "0 \<le> off" "0 \<le> len" "off + len \<le> int cs - 12" "len \<le> int (length buf)"
  shows "\<exists>s'. evfs_cache_write_userdata (int c) (Some buf) off len s = Some (0, s') \<and>
    serving ecc path s' cs cc (V(c := splice (V c) (nat off + 12) (take (nat len) buf)))"
  using write_served [OF assms(1-3), of "off + 12" len buf] userdata_within [OF assms(1,4-6)] assms(2,4-7)
  by (simp add: evfs_cache_write_userdata_def sizeof_cluster_def nat_add_distrib)

lemma read_userdata_served:
  assumes "serving ecc path s cs cc V" "0 < c" "c < cc" "0 \<le> off" "0 \<le> len" "off + len \<le> int cs - 12" "len \<le> int (length buf)"
  shows "\<exists>s'. evfs_cache_read_userdata (int c) (Some buf) off len s =
      Some (0, Some (take (nat len) (drop (nat off + 12) (V c)) @ drop (nat len) buf), s') \<and> serving ecc path s' cs cc V"
  using read_served [OF assms(1-3), of "off + 12" len buf] userdata_within [OF assms(1,4-6)] assms(2,4-7)
  by (simp add: evfs_cache_read_userdata_def sizeof_cluster_def nat_add_distrib)

section \<open>The interface of the cache\<close>

text \<open>
  What the layers above rely on: \<^term>\<open>cc\<close> clusters of \<^term>\<open>cs\<close> bytes, of which all but the first can be read and written in
  parts. A client is a sequence of commands; the specification runs them on an array and collects what is read.
\<close>

datatype cluster_cmd = Fetch nat nat nat | Store nat nat bytes | Sync

fun cmd_ok :: "nat \<Rightarrow> nat \<Rightarrow> cluster_cmd \<Rightarrow> bool" where
  "cmd_ok cs cc (Fetch c off len) = (0 < c \<and> c < cc \<and> off + len \<le> cs)"
| "cmd_ok cs cc (Store c off bs) = (0 < c \<and> c < cc \<and> off + length bs \<le> cs)"
| "cmd_ok cs cc Sync = True"

fun array_run :: "cluster_cmd list \<Rightarrow> (nat \<Rightarrow> bytes) \<Rightarrow> bytes list \<times> (nat \<Rightarrow> bytes)" where
  "array_run [] V = ([], V)"
| "array_run (Fetch c off len # cs) V = (case array_run cs V of (outs, V') \<Rightarrow> (take len (drop off (V c)) # outs, V'))"
| "array_run (Store c off bs # cs) V = array_run cs (V(c := splice (V c) off bs))"
| "array_run (Sync # cs) V = array_run cs V"

fun client_run :: "(int \<Rightarrow> bytes option \<Rightarrow> int \<Rightarrow> int \<Rightarrow> 's \<Rightarrow> (int \<times> bytes option \<times> 's) option) \<Rightarrow>
    (int \<Rightarrow> bytes option \<Rightarrow> int \<Rightarrow> int \<Rightarrow> 's \<Rightarrow> (int \<times> 's) option) \<Rightarrow> ('s \<Rightarrow> 's option) \<Rightarrow> cluster_cmd list \<Rightarrow> 's \<Rightarrow> (bytes list \<times> 's) option" where
  "client_run rd wr fl [] s = Some ([], s)"
| "client_run rd wr fl (Fetch c off len # cs) s = do {
     (st, b, s) \<leftarrow> rd (int c) (Some (replicate len 0)) (int off) (int len) s;
     b \<leftarrow> b;
     if st \<noteq> 0 then None else do { (outs, s) \<leftarrow> client_run rd wr fl cs s; Some (b # outs, s) }
   }"
| "client_run rd wr fl (Store c off bs # cs) s = do {
     (st, s) \<leftarrow> wr (int c) (Some bs) (int off) (int (length bs)) s;
     if st \<noteq> 0 then None else client_run rd wr fl cs s
   }"
| "client_run rd wr fl (Sync # cs) s = do { s \<leftarrow> fl s; client_run rd wr fl cs s }"

locale cluster_cache =
  fixes holds :: "'s \<Rightarrow> nat \<Rightarrow> nat \<Rightarrow> (nat \<Rightarrow> bytes) \<Rightarrow> bool"
    and rd :: "int \<Rightarrow> bytes option \<Rightarrow> int \<Rightarrow> int \<Rightarrow> 's \<Rightarrow> (int \<times> bytes option \<times> 's) option"
    and wr :: "int \<Rightarrow> bytes option \<Rightarrow> int \<Rightarrow> int \<Rightarrow> 's \<Rightarrow> (int \<times> 's) option"
    and fl :: "'s \<Rightarrow> 's option"
  assumes fetch_law: "holds s cs cc V \<Longrightarrow> 0 < c \<Longrightarrow> c < cc \<Longrightarrow> 0 \<le> off \<Longrightarrow> 0 \<le> len \<Longrightarrow> off + len \<le> int cs \<Longrightarrow> len \<le> int (length buf) \<Longrightarrow>
      \<exists>s'. rd (int c) (Some buf) off len s = Some (0, Some (take (nat len) (drop (nat off) (V c)) @ drop (nat len) buf), s') \<and> holds s' cs cc V"
    and store_law: "holds s cs cc V \<Longrightarrow> 0 < c \<Longrightarrow> c < cc \<Longrightarrow> 0 \<le> off \<Longrightarrow> 0 \<le> len \<Longrightarrow> off + len \<le> int cs \<Longrightarrow> len \<le> int (length buf) \<Longrightarrow>
      \<exists>s'. wr (int c) (Some buf) off len s = Some (0, s') \<and> holds s' cs cc (V(c := splice (V c) (nat off) (take (nat len) buf)))"
    and sync_law: "holds s cs cc V \<Longrightarrow> \<exists>s'. fl s = Some s' \<and> holds s' cs cc V"
begin

lemma run_is_array:
  assumes "holds s cs cc V" "list_all (cmd_ok cs cc) cmds"
  shows "\<exists>s'. client_run rd wr fl cmds s = Some (fst (array_run cmds V), s') \<and> holds s' cs cc (snd (array_run cmds V))"
  using assms
proof (induction cmds arbitrary: s V)
  case (Cons cmd cmds)
  show ?case
  proof (cases cmd)
    case (Fetch c off len)
    then obtain s1 where 1: "rd (int c) (Some (replicate len 0)) (int off) (int len) s = Some (0, Some (take len (drop off (V c))), s1)" "holds s1 cs cc V"
      using fetch_law [OF Cons.prems(1), of c "int off" "int len" "replicate len 0"] Cons.prems(2) by auto
    then show ?thesis using Cons.IH [OF 1(2)] Cons.prems(2) Fetch by (auto simp: split_beta)
  next
    case (Store c off bs)
    then obtain s1 where 1: "wr (int c) (Some bs) (int off) (int (length bs)) s = Some (0, s1)" "holds s1 cs cc (V(c := splice (V c) off bs))"
      using store_law [OF Cons.prems(1), of c "int off" "int (length bs)" bs] Cons.prems(2) by auto
    have "list_all (cmd_ok cs cc) cmds" using Cons.prems(2) by simp
    from Cons.IH [OF 1(2) this] show ?thesis unfolding Store client_run.simps array_run.simps 1(1) by (simp del: fun_upd_apply)
  next
    case Sync
    then show ?thesis using sync_law [OF Cons.prems(1)] Cons.IH Cons.prems(2) by fastforce
  qed
qed auto

end

interpretation cache: cluster_cache "serving ecc path" evfs_cache_read evfs_cache_write "evfs_cache_flush False" for ecc path
  proof unfold_locales
  show "\<exists>s'. evfs_cache_flush False s = Some s' \<and> serving ecc path s' cs cc V" if "serving ecc path s cs cc V" for s cs cc V
    using flush_served [OF that] by blast
qed (fact read_served write_served)+

lemma array_run_zero: "list_all (cmd_ok cs cc) cmds \<Longrightarrow> snd (array_run cmds V) 0 = V 0"
  by (induction cmds V rule: array_run.induct) (auto simp: split_beta)

section \<open>Properties\<close>

text \<open>
  C4. The cache is transparent: whatever its number of blocks (none at all included) and whatever is cached or modified, any
  sequence of reads and writes of parts of clusters (other than the first one) and of flushes through the interface reports
  success and reads what the same sequence reads from an array of clusters, while no system call and no allocation fails.
\<close>

theorem evfs_cache_transparent:
  assumes "serving ecc path s cs cc V" "list_all (cmd_ok cs cc) cmds"
  shows "\<exists>s'. client_run evfs_cache_read evfs_cache_write (evfs_cache_flush False) cmds s = Some (fst (array_run cmds V), s') \<and>
    serving ecc path s' cs cc (snd (array_run cmds V))"
  by (rule cache.run_is_array [OF assms])

text \<open>A stopped cache over a kernel without files, and one started on a new file with one block for three clusters.\<close>

definition sample_cache :: evfs_state where
  "sample_cache = \<lparr>env = sample_env,
     cm = \<lparr>root_of_lru_index = AvlNull, lru = empty_list, dirty = empty_list, idle = empty_list, cache_cluster_size = 0, cache_block_num = 0,
       count_of_hit = 0, count_of_miss = 0, cache_ready = kEvmgrNotReady, nodes = Map.empty, fresh = 0\<rparr>,
     merge = \<lparr>stop = False, io = [], io_count = 0\<rparr>\<rparr>"

lemma asleep_sample: "asleep sample_cache"
  using clix.invar_empty clix.lookup_empty by (simp add: asleep_def sample_cache_def empty_list_def heap_ok_def index_of_def)

lemma sample_serving:
  "\<exists>s V. evfs_cache_init 0 (Some ''f'') 1 (Some (128, 3)) sample_cache = Some (0, s) \<and> serving 3 ''f'' s 128 3 V \<and> V 1 = replicate 128 0"
proof -
  obtain e V where "evfs_hard_create (Some ''f'') 128 3 sample_env = Some (0, e)" "store_holds 3 ''f'' e 128 3 V" "V 1 = replicate 128 0"
    using create_holds [OF sample_env_start sample_powerof_2, of 3 "''f''"] by fastforce
  then show ?thesis using init_serves [OF asleep_sample, of 1 "Some ''f''" "Some (128, 3)" e 3 "''f''" 128 3 V] by (auto simp: sample_cache_def)
qed

theorem evfs_cache_transparent_witness:
  "\<exists>s0 s. evfs_cache_init 0 (Some ''f'') 1 (Some (128, 3)) sample_cache = Some (0, s0) \<and>
    client_run evfs_cache_read evfs_cache_write (evfs_cache_flush False) [Store 1 3 [7, 8], Store 2 0 [9], Fetch 1 2 3, Sync, Fetch 2 0 1] s0 =
      Some ([[0, 7, 8], [9]], s)"
proof -
  obtain s0 V where s0: "evfs_cache_init 0 (Some ''f'') 1 (Some (128, 3)) sample_cache = Some (0, s0)" "serving 3 ''f'' s0 128 3 V" "V 1 = replicate 128 0"
    using sample_serving by blast
  have "fst (array_run [Store 1 3 [7, 8], Store 2 0 [9], Fetch 1 2 3, Sync, Fetch 2 0 1] V) = [[0, 7, 8], [9]]"
    using s0(3) by (simp add: splice_def)
  moreover have "list_all (cmd_ok 128 3) [Store 1 3 [7, 8], Store 2 0 [9], Fetch 1 2 3, Sync, Fetch 2 0 1]" by simp
  ultimately show ?thesis using evfs_cache_transparent [OF s0(2)] s0(1) by metis
qed

text \<open>
  C10. Data survives: a file system is created behind a cache of \<^term>\<open>n\<close> blocks, any sequence of reads, writes and flushes is run, the
  cache is stopped, started again on the same file with \<^term>\<open>m\<close> blocks, and any further sequence is run: all of it succeeds and the
  second sequence continues on the clusters the first one left.
\<close>

theorem evfs_cache_persists:
  assumes "asleep s" "ready (mgr (env s)) = kEvmgrNotReady" "calm (kern (env s))" "roomy (env s)" "0 < next_fd (kern (env s))"
    and "is_powerof_2 (of_nat cs :: u32)" "92 \<le> cs" "cs \<le> 4096" "0 < cc" "cs * cc < 2 ^ 30" "0 \<le> n" "0 \<le> m"
    and "list_all (cmd_ok cs cc) cmds" "list_all (cmd_ok cs cc) cmds2"
  shows "\<exists>s1 s2 s3 s4 s5 V. evfs_cache_init 0 (Some path) n (Some (int cs, int cc)) s = Some (0, s1) \<and>
    (\<forall>c. 0 < c \<longrightarrow> V c = replicate cs 0) \<and>
    client_run evfs_cache_read evfs_cache_write (evfs_cache_flush False) cmds s1 = Some (fst (array_run cmds V), s2) \<and>
    evfs_cache_uninit s2 = Some s3 \<and> evfs_cache_init 0 (Some path) m None s3 = Some (0, s4) \<and>
    client_run evfs_cache_read evfs_cache_write (evfs_cache_flush False) cmds2 s4 = Some (fst (array_run cmds2 (snd (array_run cmds V))), s5)"
proof -
  have cs: "32 \<le> cs" using assms(7) by simp
  obtain e1 V where 0: "evfs_hard_create (Some path) (int cs) (int cc) (env s) = Some (0, e1)" "header (V 0) cs cc cc"
    "\<forall>i. 0 < i \<longrightarrow> V i = replicate cs 0" "store_holds cc path e1 cs cc V"
    using create_holds [OF assms(2-6) cs assms(8-10)] by blast
  obtain s1 where 1: "evfs_cache_init 0 (Some path) n (Some (int cs, int cc)) s = Some (0, s1)" "serving cc path s1 cs cc V"
    using init_serves [OF assms(1,11), of "Some path" "Some (int cs, int cc)" e1, OF _ 0(4)] 0(1) by auto
  let ?V = "snd (array_run cmds V)"
  obtain s2 where 2: "client_run evfs_cache_read evfs_cache_write (evfs_cache_flush False) cmds s1 = Some (fst (array_run cmds V), s2)"
    "serving cc path s2 cs cc ?V" using cache.run_is_array [OF 1(2) assms(13)] by blast
  obtain s3 e where 3: "evfs_cache_uninit s2 = Some s3" "asleep s3" "env s3 = evfs_hard_close e" "store_holds cc path e cs cc ?V"
    using uninit_sleeps [OF 2(2)] by blast
  have "?V 0 = V 0" using array_run_zero [OF assms(13)] .
  then obtain e2 where e2: "evfs_hard_open (Some path) (evfs_hard_close e) = Some (0, e2)" "store_holds cc path e2 cs cc ?V"
    using reopen_holds [OF 3(4) _ assms(7)] 0(2) assms(10) by auto
  obtain s4 where 4: "evfs_cache_init 0 (Some path) m None s3 = Some (0, s4)" "serving cc path s4 cs cc ?V"
    using init_serves [OF 3(2) assms(12), of "Some path" None e2, OF _ e2(2)] 3(3) e2(1) by auto
  show ?thesis using 0(3) 1(1) 2(1) 3(1) 4(1) cache.run_is_array [OF 4(2) assms(14)] by blast
qed

theorem evfs_cache_persists_witness:
  "\<exists>s1 s2 s3 s4 s5 V. evfs_cache_init 0 (Some ''f'') 1 (Some (128, 3)) sample_cache = Some (0, s1) \<and>
    client_run evfs_cache_read evfs_cache_write (evfs_cache_flush False) [Store 1 3 [7, 8], Store 2 0 [9]] s1 = Some ([], s2) \<and>
    evfs_cache_uninit s2 = Some s3 \<and> evfs_cache_init 0 (Some ''f'') 0 None s3 = Some (0, s4) \<and>
    client_run evfs_cache_read evfs_cache_write (evfs_cache_flush False) [Fetch 2 0 2, Fetch 1 3 2] s4 = Some ([[9, 0], [7, 8]], s5)"
proof -
  have e: "env sample_cache = sample_env" by (simp add: sample_cache_def)
  let ?w = "[Store 1 3 [7, 8], Store 2 0 [9]]" and ?r = "[Fetch 2 0 2, Fetch 1 3 2]"
  have ok: "list_all (cmd_ok 128 3) ?w" "list_all (cmd_ok 128 3) ?r" by simp_all
  have out: "fst (array_run ?w V) = []" "fst (array_run ?r (snd (array_run ?w V))) = [[9, 0], [7, 8]]" if "\<forall>c. 0 < c \<longrightarrow> V c = replicate 128 0" for V
    using that by (simp_all add: splice_def)
  obtain s1 s2 s3 s4 s5 V where "evfs_cache_init 0 (Some ''f'') 1 (Some (int 128, int 3)) sample_cache = Some (0, s1)" "\<forall>c. 0 < c \<longrightarrow> V c = replicate 128 0"
    "client_run evfs_cache_read evfs_cache_write (evfs_cache_flush False) ?w s1 = Some (fst (array_run ?w V), s2)"
    "evfs_cache_uninit s2 = Some s3" "evfs_cache_init 0 (Some ''f'') 0 None s3 = Some (0, s4)"
    "client_run evfs_cache_read evfs_cache_write (evfs_cache_flush False) ?r s4 = Some (fst (array_run ?r (snd (array_run ?w V))), s5)"
    using evfs_cache_persists [OF asleep_sample, unfolded e, OF sample_env_start sample_powerof_2 _ _ _ _ _ _ ok, of 1 0 "''f''"] by auto
  then show ?thesis unfolding of_nat_numeral using out by metis
qed


text \<open>
  C11. Flushing is durable: after a flush, asked for by a caller or made by the worker after five idle seconds, the clusters in the
  file are the ones the users of the cache see, and the users still see the same.
\<close>

theorem evfs_cache_flush_durable:
  assumes "serving ecc path s cs cc V"
  shows "(\<exists>s'. evfs_cache_flush False s = Some s' \<and> serving ecc path s' cs cc V \<and> store_holds ecc path (env s') cs cc V) \<and>
    (\<exists>s'. evfs_cache_thread_merge_io TimedOut s = Some (True, s') \<and> serving ecc path s' cs cc V \<and> store_holds ecc path (env s') cs cc V)"
proof
  have "\<not> stop (merge s)" using assms by (simp add: serving_def waiting_def)
  then show "\<exists>s'. evfs_cache_thread_merge_io TimedOut s = Some (True, s') \<and> serving ecc path s' cs cc V \<and> store_holds ecc path (env s') cs cc V"
    using flush_all_served [OF assms] by (auto simp: evfs_cache_thread_merge_io_def)
qed (rule flush_served [OF assms])

theorem evfs_cache_flush_durable_witness:
  "\<exists>s0 s V. evfs_cache_init 0 (Some ''f'') 1 (Some (128, 3)) sample_cache = Some (0, s0) \<and> serving 3 ''f'' s0 128 3 V \<and>
    evfs_cache_flush False s0 = Some s \<and> store_holds 3 ''f'' (env s) 128 3 V"
  using sample_serving evfs_cache_flush_durable by metis

text \<open>
  C12. The worker serves its queue in order: run on any queue of read, write and flush tasks, posted by any number of callers, it
  finishes every task with success, leaves the queue empty, and every read has filled its caller's buffer with what an array
  of clusters holds to which the tasks are applied in the order they were posted.
\<close>

theorem evfs_cache_worker_in_order:
  assumes "cache_inv ecc path s cs cc D" "fit s" "list_all (data_task cs cc) (io (merge s))"
  shows "\<exists>s' D'. evfs_cache_pop_task_until_empty s = Some (fst (serve_all (io (merge s)) (view s D)), s') \<and> io (merge s') = [] \<and>
    cache_inv ecc path s' cs cc D' \<and> view s' D' = snd (serve_all (io (merge s)) (view s D))"
  using drain_data_tasks [OF assms refl] by (auto simp: evfs_cache_pop_task_until_empty_def kept_def)

theorem evfs_cache_worker_in_order_witness:
  "\<exists>s D s' D'. io (merge s) = [make_task kEvfsCacheIOTypeWrite 1 0 2 (Some [5, 6]) 0, make_task kEvfsCacheIOTypeRead 1 1 1 (Some [0]) 0] \<and>
    evfs_cache_pop_task_until_empty s = Some ([make_task kEvfsCacheIOTypeWrite 1 0 2 (Some [5, 6]) 0, make_task kEvfsCacheIOTypeRead 1 1 1 (Some [6]) 0], s') \<and>
    cache_inv 3 ''f'' s' 128 3 D'"
proof -
  let ?q = "[make_task kEvfsCacheIOTypeWrite 1 0 2 (Some [5, 6]) 0, make_task kEvfsCacheIOTypeRead 1 1 1 (Some [0]) 0]"
  obtain s0 V where s0: "serving 3 ''f'' s0 128 3 V" using sample_serving by blast
  then obtain D where D: "cache_inv 3 ''f'' s0 128 3 D" "fit s0" by (auto simp: serving_def)
  define s where "s = s0\<lparr>merge := (merge s0)\<lparr>io := ?q\<rparr>\<rparr>"
  have s: "cache_inv 3 ''f'' s 128 3 D" "fit s" "io (merge s) = ?q" using D by (simp_all add: s_def)
  have "list_all (data_task 128 3) (io (merge s))" unfolding s(3) by (simp add: data_task_def make_task_def)
  from evfs_cache_worker_in_order [OF s(1,2) this] obtain s' D' where
    "evfs_cache_pop_task_until_empty s = Some (fst (serve_all ?q (view s D)), s')" "cache_inv 3 ''f'' s' 128 3 D'" unfolding s(3) by blast
  moreover have "fst (serve_all ?q (view s D)) = [make_task kEvfsCacheIOTypeWrite 1 0 2 (Some [5, 6]) 0, make_task kEvfsCacheIOTypeRead 1 1 1 (Some [6]) 0]"
    by (simp add: serve_def make_task_def Let_def splice_def NSP_STATUS_SUCCESSFUL_def)
  ultimately show ?thesis using s(3) by auto
qed

section \<open>Divergences\<close>

text \<open>Adding blocks counts each of them twice.\<close>

lemma new_node_count: "new_node s = (r, s') \<Longrightarrow> cache_block_num (cm s') = cache_block_num (cm s)"
  by (auto simp: new_node_def Let_def split: prod.splits option.splits)

lemma add_block_loop_count: "add_block_loop k i s = (j, s') \<Longrightarrow> cache_block_num (cm s') = cache_block_num (cm s) + (j - i)"
  by (induction k arbitrary: i s) (auto split: prod.splits option.splits dest!: new_node_count)

lemma evfs_cache_add_block_counts_twice:
  "evfs_cache_add_block_to_idle n s = (i, s') \<Longrightarrow> cache_block_num (cm s') = cache_block_num (cm s) + 2 * i"
  by (auto simp: evfs_cache_add_block_to_idle_def split: prod.splits dest!: add_block_loop_count)

text \<open>Growing the file through the cache never returns a result: it is read from released memory.\<close>

lemma evfs_cache_expand_released: "evfs_cache_expand s = Some (n, c, s') \<Longrightarrow> n = - 1"
  by (auto simp: evfs_cache_expand_def Option.bind_eq_Some_conv split: if_splits)

end
