(* ===== verification/EvfsView.thy ===== *)
theory EvfsView
  imports EvfsCacheApi
begin

text \<open>
  \<^verbatim>\<open>addons/evfs/view.c\<close>: one view node per cluster (other than the first), in a list of busy or of idle ones, with a copy of the
  cluster's head. Nodes are structures on a heap; the tree of all views is kept but never searched. The state has the
  cache below it. \<^term>\<open>None\<close> is undefined behaviour, as in the layers below.
\<close>

section \<open>State\<close>

record evfs_cluster =
  data_seg_size :: int
  next_cluster_id :: int
  head_cluster_id :: int

record evfs_view_node =
  viewid :: int
  cluster :: evfs_cluster

record evfs_view_mgr =
  root_of_view_tree :: "(int \<times> nat) avltree"
  busylist :: "nat list"
  idlelist :: "nat list"
  count_of_busy_views :: int
  count_of_idle_views :: int
  total_cluster_count :: int
  view_cluster_size :: int
  view_max_data_seg_size :: int
  views :: "nat \<rightharpoonup> evfs_view_node"
  view_fresh :: nat

record evfs_fs =
  store :: evfs_state
  vm :: evfs_view_mgr

definition evfs_view_mgr0 :: evfs_view_mgr where
  "evfs_view_mgr0 = \<lparr>root_of_view_tree = AvlNull, busylist = [], idlelist = [], count_of_busy_views = 0, count_of_idle_views = 0,
     total_cluster_count = 0, view_cluster_size = 0, view_max_data_seg_size = 0, views = Map.empty, view_fresh = 0\<rparr>"

text \<open>The packed structure in memory.\<close>

definition head_bytes :: "evfs_cluster \<Rightarrow> bytes" where
  "head_bytes c = le_bytes (word_of_int (data_seg_size c)) @ le_bytes (word_of_int (next_cluster_id c)) @ le_bytes (word_of_int (head_cluster_id c))"

definition head_at :: "bytes \<Rightarrow> nat \<Rightarrow> evfs_cluster option" where
  "head_at b off = do {
     d \<leftarrow> get_int b off;
     n \<leftarrow> get_int b (off + 4);
     h \<leftarrow> get_int b (off + 8);
     Some \<lparr>data_seg_size = d, next_cluster_id = n, head_cluster_id = h\<rparr>
   }"

definition zero_head :: evfs_cluster where
  "zero_head = \<lparr>data_seg_size = 0, next_cluster_id = 0, head_cluster_id = 0\<rparr>"

definition evfs_cluster_looks_like_busy :: "evfs_cluster \<Rightarrow> bool" where
  "evfs_cluster_looks_like_busy c \<longleftrightarrow> 0 \<noteq> data_seg_size c \<or> head_cluster_id c > 0"

abbreviation get_view :: "evfs_fs \<Rightarrow> nat \<Rightarrow> evfs_view_node option" where
  "get_view s a \<equiv> views (vm s) a"

definition set_view :: "nat \<Rightarrow> evfs_view_node \<Rightarrow> evfs_fs \<Rightarrow> evfs_fs" where
  "set_view a v s = s\<lparr>vm := (vm s)\<lparr>views := (views (vm s))(a \<mapsto> v)\<rparr>\<rparr>"

definition free_view :: "nat \<Rightarrow> evfs_fs \<Rightarrow> evfs_fs" where
  "free_view a s = s\<lparr>vm := (vm s)\<lparr>views := (views (vm s))(a := None)\<rparr>\<rparr>"

section \<open>Creating and loading\<close>

definition evfs_view_compare :: "(int \<times> nat) avl_compare_fp" where
  "evfs_view_compare l r = (if fst l > fst r then 1 else if fst l < fst r then - 1 else 0)"

definition evfs_view_insert_new_idle :: "nat \<Rightarrow> evfs_fs \<Rightarrow> evfs_fs option" where
  "evfs_view_insert_new_idle a s = do {
     v \<leftarrow> get_view s a;
     t \<leftarrow> avlinsert (root_of_view_tree (vm s)) (Some (viewid v, a)) (Some evfs_view_compare);
     Some (s\<lparr>vm := (vm s)\<lparr>idlelist := idlelist (vm s) @ [a], root_of_view_tree := t, count_of_idle_views := count_of_idle_views (vm s) + 1\<rparr>\<rparr>)
   }"

text \<open>A new node; the copy of the head is what the block holds unless it is set. The address is \<^term>\<open>None\<close> without memory.\<close>

definition sizeof_view :: int where "sizeof_view = 64"

definition new_view :: "int \<Rightarrow> evfs_cluster option \<Rightarrow> evfs_fs \<Rightarrow> (nat option \<times> evfs_fs) option" where
  "new_view i c s =
     (case ztrymalloc sizeof_view (env (store s)) of
        (None, e) \<Rightarrow> Some (None, s\<lparr>store := (store s)\<lparr>env := e\<rparr>\<rparr>)
      | (Some blk, e) \<Rightarrow> do {
          junk \<leftarrow> head_at blk 48;
          let a = view_fresh (vm s);
          let s = s\<lparr>store := (store s)\<lparr>env := e\<rparr>, vm := (vm s)\<lparr>view_fresh := a + 1\<rparr>\<rparr>;
          Some (Some a, set_view a \<lparr>viewid = i, cluster = (case c of None \<Rightarrow> junk | Some c \<Rightarrow> c)\<rparr> s)
        })"

fun create_loop :: "nat \<Rightarrow> int \<Rightarrow> evfs_fs \<Rightarrow> (nsp_status \<times> evfs_fs) option" where
  "create_loop 0 i s = Some (NSP_STATUS_SUCCESSFUL, s)"
| "create_loop (Suc k) i s = do {
     (a, s) \<leftarrow> new_view i None s;
     case a of
       None \<Rightarrow> Some (posix__makeerror ENOMEM, s)
     | Some a \<Rightarrow> do { s \<leftarrow> evfs_view_insert_new_idle a s; create_loop k (i + 1) s }
   }"

text \<open>The two loops that release the idle nodes differ in whether they count; \<^term>\<open>d\<close> is what one node takes off the count.\<close>

fun release_idle_views :: "int \<Rightarrow> nat list \<Rightarrow> evfs_fs \<Rightarrow> evfs_fs option" where
  "release_idle_views d [] s = Some s"
| "release_idle_views d (a # as) s = do {
     v \<leftarrow> get_view s a;
     (t, _) \<leftarrow> avlremove (root_of_view_tree (vm s)) (Some (viewid v, a)) None (Some evfs_view_compare);
     release_idle_views d as (free_view a (s\<lparr>vm := (vm s)\<lparr>idlelist := remove1 a (idlelist (vm s)), root_of_view_tree := t,
       count_of_idle_views := count_of_idle_views (vm s) - d\<rparr>\<rparr>))
   }"


text \<open>The early returns give \<^verbatim>\<open>EEXIST\<close> itself, a positive status.\<close>

definition evfs_view_create :: "evfs_fs \<Rightarrow> (nsp_status \<times> evfs_fs) option" where
  "evfs_view_create s =
     (if total_cluster_count (vm s) > 0 then Some (EEXIST, s)
      else do {
        (status, stat, c) \<leftarrow> evfs_cache_hard_state True (store s);
        let s = s\<lparr>store := c\<rparr>;
        if \<not> NSP_SUCCESS status then Some (status, s)
        else do {
          stat \<leftarrow> stat;
          if total_cluster_count (vm s) \<noteq> 0 then Some (EEXIST, s)
          else do {
            let n = hard_cluster_count stat;
            (status, s) \<leftarrow> create_loop (nat n) 1 (s\<lparr>vm := (vm s)\<lparr>total_cluster_count := n\<rparr>\<rparr>);
            if \<not> NSP_SUCCESS status then do {
              s \<leftarrow> release_idle_views 1 (idlelist (vm s)) s;
              Some (status, s)
            } else
              Some (status, s\<lparr>vm := (vm s)\<lparr>view_cluster_size := hard_cluster_size stat, view_max_data_seg_size := hard_max_data_seg_size stat\<rparr>\<rparr>)
          }
        }
      })"

text \<open>The callback acts on a state of its own together with the file system.\<close>

fun recognize_loop :: "(nat \<Rightarrow> evfs_fs \<times> 'w \<Rightarrow> (evfs_fs \<times> 'w) option) option \<Rightarrow> nat list \<Rightarrow> evfs_fs \<times> 'w \<Rightarrow> (evfs_fs \<times> 'w) option" where
  "recognize_loop on_loaded [] sw = Some sw"
| "recognize_loop on_loaded (a # as) (s, w) = do {
     v \<leftarrow> get_view s a;
     if evfs_cluster_looks_like_busy (cluster v) then do {
       let s = s\<lparr>vm := (vm s)\<lparr>idlelist := remove1 a (idlelist (vm s)), count_of_idle_views := count_of_idle_views (vm s) - 1,
         busylist := busylist (vm s) @ [a], count_of_busy_views := count_of_busy_views (vm s) + 1\<rparr>\<rparr>;
       sw \<leftarrow> (case on_loaded of None \<Rightarrow> Some (s, w) | Some f \<Rightarrow> f a (s, w));
       recognize_loop on_loaded as sw
     } else recognize_loop on_loaded as (s, w)
   }"

definition evfs_view_recognize_and_move_to_busy :: "(nat \<Rightarrow> evfs_fs \<times> 'w \<Rightarrow> (evfs_fs \<times> 'w) option) option \<Rightarrow> evfs_fs \<times> 'w \<Rightarrow> (evfs_fs \<times> 'w) option" where
  "evfs_view_recognize_and_move_to_busy on_loaded sw = recognize_loop on_loaded (idlelist (vm (fst sw))) sw"

text \<open>\<^term>\<open>buf\<close> is the local structure \<^verbatim>\<open>cluster\<close>, which keeps its content between the reads.\<close>

fun load_loop :: "nat \<Rightarrow> int \<Rightarrow> bytes \<Rightarrow> evfs_fs \<Rightarrow> (nsp_status \<times> evfs_fs) option" where
  "load_loop 0 i buf s = Some (NSP_STATUS_SUCCESSFUL, s)"
| "load_loop (Suc k) i buf s = do {
     (status, buf, c) \<leftarrow> evfs_cache_read_head_directly i (Some buf) (store s);
     buf \<leftarrow> buf;
     let s = s\<lparr>store := c\<rparr>;
     if \<not> NSP_SUCCESS status then Some (status, s)
     else do {
       h \<leftarrow> head_at buf 0;
       (a, s) \<leftarrow> new_view i (Some h) s;
       case a of
         None \<Rightarrow> Some (posix__makeerror ENOMEM, s)
       | Some a \<Rightarrow> do { s \<leftarrow> evfs_view_insert_new_idle a s; load_loop k (i + 1) buf s }
     }
   }"

definition evfs_view_load :: "bytes \<Rightarrow> (nat \<Rightarrow> evfs_fs \<times> 'w \<Rightarrow> (evfs_fs \<times> 'w) option) option \<Rightarrow> evfs_fs \<times> 'w \<Rightarrow> (nsp_status \<times> evfs_fs \<times> 'w) option" where
  "evfs_view_load buf on_loaded = (\<lambda>(s, w). do {
     (status, stat, c) \<leftarrow> evfs_cache_hard_state True (store s);
     let s = s\<lparr>store := c\<rparr>;
     if \<not> NSP_SUCCESS status then Some (status, s, w)
     else do {
       stat \<leftarrow> stat;
       if total_cluster_count (vm s) \<noteq> 0 then Some (EEXIST, s, w)
       else do {
         let n = hard_cluster_count stat;
         (status, s) \<leftarrow> load_loop (nat n) 1 buf (s\<lparr>vm := (vm s)\<lparr>total_cluster_count := n\<rparr>\<rparr>);
         if \<not> NSP_SUCCESS status then do {
           s \<leftarrow> release_idle_views 0 (idlelist (vm s)) s;
           Some (status, s, w)
         } else do {
           (s, w) \<leftarrow> evfs_view_recognize_and_move_to_busy on_loaded (s, w);
           Some (status, s\<lparr>vm := (vm s)\<lparr>view_cluster_size := hard_cluster_size stat, view_max_data_seg_size := hard_max_data_seg_size stat\<rparr>\<rparr>, w)
         }
       }
     }
   })"


section \<open>Growing and stopping\<close>

text \<open>\<^term>\<open>cid\<close> is the caller's variable, which \<^verbatim>\<open>evfs_cache_expand\<close> sets.\<close>

fun expand_views :: "nat \<Rightarrow> int \<Rightarrow> evfs_fs \<Rightarrow> evfs_fs option" where
  "expand_views 0 cid s = Some s"
| "expand_views (Suc k) cid s = do {
     (a, s) \<leftarrow> new_view cid (Some zero_head) s;
     s \<leftarrow> (case a of None \<Rightarrow> Some s | Some a \<Rightarrow> evfs_view_insert_new_idle a s);
     cid \<leftarrow> c_int (cid + 1);
     expand_views k cid s
   }"

definition evfs_view_expand :: "evfs_fs \<Rightarrow> (nsp_status \<times> evfs_fs) option" where
  "evfs_view_expand s = do {
     (n, cid, c) \<leftarrow> evfs_cache_expand (store s);
     let s = s\<lparr>store := c\<rparr>;
     if n \<le> 0 then Some (NSP_STATUS_FATAL, s)
     else do {
       cid \<leftarrow> cid;
       s \<leftarrow> expand_views (nat n) cid s;
       Some (NSP_STATUS_SUCCESSFUL, s)
     }
   }"

fun release_busy_views :: "nat list \<Rightarrow> evfs_fs \<Rightarrow> evfs_fs option" where
  "release_busy_views [] s = Some s"
| "release_busy_views (a # as) s = do {
     v \<leftarrow> get_view s a;
     (t, _) \<leftarrow> avlremove (root_of_view_tree (vm s)) (Some (viewid v, a)) None (Some evfs_view_compare);
     release_busy_views as (free_view a (s\<lparr>vm := (vm s)\<lparr>busylist := remove1 a (busylist (vm s)),
       count_of_busy_views := count_of_busy_views (vm s) - 1, root_of_view_tree := t\<rparr>\<rparr>))
   }"

definition evfs_view_uninit :: "evfs_fs \<Rightarrow> evfs_fs option" where
  "evfs_view_uninit s =
     (let n = total_cluster_count (vm s); s = s\<lparr>vm := (vm s)\<lparr>total_cluster_count := 0\<rparr>\<rparr> in
      if n \<le> 0 then Some s
      else do {
        s \<leftarrow> release_busy_views (busylist (vm s)) s;
        release_idle_views 1 (idlelist (vm s)) s
      })"

text \<open>The counts, if the manager is ready: idle and busy ones.\<close>

definition evfs_view_get_count :: "evfs_fs \<Rightarrow> (int \<times> int) option" where
  "evfs_view_get_count s =
     (if total_cluster_count (vm s) \<le> 0 then None else Some (count_of_idle_views (vm s), count_of_busy_views (vm s)))"

section \<open>Idle and busy views\<close>

text \<open>A view argument is an address or NULL. Writing the head of a view stores its copy in the cluster.\<close>

definition write_view_head :: "nat \<Rightarrow> evfs_fs \<Rightarrow> (nsp_status \<times> evfs_fs) option" where
  "write_view_head a s = do {
     v \<leftarrow> get_view s a;
     (status, c) \<leftarrow> evfs_cache_write_head (viewid v) (Some (head_bytes (cluster v))) (store s);
     Some (status, s\<lparr>store := c\<rparr>)
   }"

definition set_cluster :: "nat \<Rightarrow> (evfs_cluster \<Rightarrow> evfs_cluster) \<Rightarrow> evfs_fs \<Rightarrow> evfs_fs option" where
  "set_cluster a f s = do { v \<leftarrow> get_view s a; Some (set_view a (v\<lparr>cluster := f (cluster v)\<rparr>) s) }"

definition evfs_view_move_to_idle :: "nat option \<Rightarrow> evfs_fs \<Rightarrow> (nsp_status \<times> evfs_fs) option" where
  "evfs_view_move_to_idle vp s =
     (case vp of
        None \<Rightarrow> Some (posix__makeerror EINVAL, s)
      | Some a \<Rightarrow>
          if total_cluster_count (vm s) \<le> 0 then Some (posix__makeerror EINVAL, s)
          else do {
            s \<leftarrow> set_cluster a (\<lambda>_. zero_head) s;
            let s = s\<lparr>vm := (vm s)\<lparr>busylist := remove1 a (busylist (vm s)), count_of_busy_views := count_of_busy_views (vm s) - 1,
              idlelist := remove1 a (idlelist (vm s)) @ [a], count_of_idle_views := count_of_idle_views (vm s) + 1\<rparr>\<rparr>;
            write_view_head a s
          })"

text \<open>Waiting for an idle view: the result says whether there is one.\<close>

partial_function (option) idle_or_expand :: "evfs_fs \<Rightarrow> (bool \<times> evfs_fs) option" where
  "idle_or_expand s =
     (if count_of_idle_views (vm s) \<le> 0 then
        Option.bind (evfs_view_expand s) (\<lambda>(status, s). if \<not> NSP_SUCCESS status then Some (False, s) else idle_or_expand s)
      else Some (True, s))"

definition evfs_view_acquire_idle :: "evfs_fs \<Rightarrow> (nat option \<times> evfs_fs) option" where
  "evfs_view_acquire_idle s =
     (if total_cluster_count (vm s) \<le> 0 then Some (None, s)
      else do {
        (found, s) \<leftarrow> idle_or_expand s;
        if \<not> found then Some (None, s)
        else
          (case idlelist (vm s) of
             [] \<Rightarrow> None
           | a # _ \<Rightarrow> do {
               s \<leftarrow> set_cluster a (\<lambda>_. zero_head) s;
               let s = s\<lparr>vm := (vm s)\<lparr>idlelist := remove1 a (idlelist (vm s)), count_of_idle_views := count_of_idle_views (vm s) - 1,
                 busylist := busylist (vm s) @ [a], count_of_busy_views := count_of_busy_views (vm s) + 1\<rparr>\<rparr>;
               v \<leftarrow> get_view s a;
               (z, e) \<leftarrow> evfs_hard_allocate_cluster (Some (head_bytes (cluster v))) (env (store s));
               let s = s\<lparr>store := (store s)\<lparr>env := e\<rparr>\<rparr>;
               case z of
                 None \<Rightarrow> Some (None, s)
               | Some z \<Rightarrow> do {
                   (_, c) \<leftarrow> evfs_cache_write (viewid v) (Some z) 0 (view_cluster_size (vm s)) (store s);
                   Some (Some a, s\<lparr>store := c\<rparr>)
                 }
             })
      })"

text \<open>The loop gives the views acquired and whether it stopped early.\<close>

fun acquire_loop :: "nat \<Rightarrow> evfs_fs \<Rightarrow> (nat list \<times> bool \<times> evfs_fs) option" where
  "acquire_loop 0 s = Some ([], False, s)"
| "acquire_loop (Suc k) s = do {
     (a, s) \<leftarrow> evfs_view_acquire_idle s;
     case a of
       None \<Rightarrow> Some ([], True, s)
     | Some a \<Rightarrow> do { (as, e, s) \<leftarrow> acquire_loop k s; Some (a # as, e, s) }
   }"

fun give_back :: "nat list \<Rightarrow> evfs_fs \<Rightarrow> evfs_fs option" where
  "give_back [] s = Some s"
| "give_back (a # as) s = do { (_, s) \<leftarrow> evfs_view_move_to_idle (Some a) s; give_back as s }"

definition evfs_view_acquire_idle_more :: "int \<Rightarrow> evfs_fs \<Rightarrow> (nsp_status \<times> nat list \<times> evfs_fs) option" where
  "evfs_view_acquire_idle_more amount s =
     (if amount \<le> 0 \<or> total_cluster_count (vm s) \<le> 0 then Some (posix__makeerror EINVAL, [], s)
      else do {
        (as, early, s) \<leftarrow> acquire_loop (nat amount) s;
        if early then do { s \<leftarrow> give_back as s; Some (posix__makeerror ENOMEM, as, s) }
        else Some (NSP_STATUS_SUCCESSFUL, as, s)
      })"

section \<open>Data\<close>

definition evfs_view_write_head :: "nat option \<Rightarrow> evfs_fs \<Rightarrow> (int \<times> evfs_fs) option" where
  "evfs_view_write_head vp s =
     (case vp of
        None \<Rightarrow> Some (0, s)
      | Some a \<Rightarrow>
          if total_cluster_count (vm s) \<le> 0 then Some (0, s)
          else do {
            (status, s) \<leftarrow> write_view_head a s;
            Some (if \<not> NSP_SUCCESS status then 0 else int sizeof_cluster, s)
          })"

definition evfs_view_write_userdata :: "nat option \<Rightarrow> bytes option \<Rightarrow> int \<Rightarrow> int \<Rightarrow> evfs_fs \<Rightarrow> (int \<times> evfs_fs) option" where
  "evfs_view_write_userdata vp buffer offset len s =
     (case vp of
        None \<Rightarrow> Some (0, s)
      | Some a \<Rightarrow>
          if buffer = None \<or> offset < 0 \<or> len \<le> 0 \<or> total_cluster_count (vm s) \<le> 0 then Some (0, s)
          else do {
            v \<leftarrow> get_view s a;
            if 0 = data_seg_size (cluster v) \<and> 0 = head_cluster_id (cluster v) then Some (0, s)
            else do {
              (status, c) \<leftarrow> evfs_cache_write_userdata (viewid v) buffer offset len (store s);
              Some (if \<not> NSP_SUCCESS status then 0 else len, s\<lparr>store := c\<rparr>)
            }
          })"

definition evfs_view_read_userdata :: "nat option \<Rightarrow> bytes option \<Rightarrow> int \<Rightarrow> int \<Rightarrow> evfs_fs \<Rightarrow> (int \<times> bytes option \<times> evfs_fs) option" where
  "evfs_view_read_userdata vp buffer offset len s =
     (case vp of
        None \<Rightarrow> Some (0, buffer, s)
      | Some a \<Rightarrow>
          if buffer = None \<or> offset < 0 \<or> len \<le> 0 \<or> total_cluster_count (vm s) \<le> 0 then Some (0, buffer, s)
          else do {
            v \<leftarrow> get_view s a;
            if 0 = data_seg_size (cluster v) \<and> 0 = head_cluster_id (cluster v) then Some (0, buffer, s)
            else do {
              (status, buffer, c) \<leftarrow> evfs_cache_read_userdata (viewid v) buffer offset len (store s);
              Some (if \<not> NSP_SUCCESS status then 0 else len, buffer, s\<lparr>store := c\<rparr>)
            }
          })"

definition evfs_view_flush :: "nat option \<Rightarrow> evfs_fs \<Rightarrow> evfs_fs option" where
  "evfs_view_flush vp s =
     (case vp of
        None \<Rightarrow> Some s
      | Some a \<Rightarrow>
          if total_cluster_count (vm s) \<le> 0 then Some s
          else do {
            v \<leftarrow> get_view s a;
            c \<leftarrow> evfs_cache_flush_block (viewid v) True (store s);
            Some (s\<lparr>store := c\<rparr>)
          })"

section \<open>Fields of a head\<close>

definition evfs_view_set_next :: "nat option \<Rightarrow> nat option \<Rightarrow> evfs_fs \<Rightarrow> (nsp_status \<times> evfs_fs) option" where
  "evfs_view_set_next vp next_view s =
     (case vp of
        None \<Rightarrow> Some (posix__makeerror EINVAL, s)
      | Some a \<Rightarrow> do {
          i \<leftarrow> (case next_view of None \<Rightarrow> Some 0 | Some b \<Rightarrow> map_option viewid (get_view s b));
          s \<leftarrow> set_cluster a (\<lambda>c. c\<lparr>next_cluster_id := i\<rparr>) s;
          write_view_head a s
        })"

definition evfs_view_set_head :: "nat option \<Rightarrow> nat option \<Rightarrow> evfs_fs \<Rightarrow> (nsp_status \<times> evfs_fs) option" where
  "evfs_view_set_head vp head_view s =
     (case vp of
        None \<Rightarrow> Some (posix__makeerror EINVAL, s)
      | Some a \<Rightarrow> do {
          i \<leftarrow> map_option viewid (get_view s (case head_view of None \<Rightarrow> a | Some b \<Rightarrow> b));
          s \<leftarrow> set_cluster a (\<lambda>c. c\<lparr>head_cluster_id := i\<rparr>) s;
          write_view_head a s
        })"

text \<open>The highest bit of the size marks the head of an entry.\<close>

definition mark_size :: "int \<Rightarrow> int" where
  "mark_size n = sint ((word_of_int n :: u32) OR 0x80000000)"

definition unmark_size :: "int \<Rightarrow> int" where
  "unmark_size n = sint ((word_of_int n :: u32) AND NOT 0x80000000)"

definition set_size :: "nat \<Rightarrow> int \<Rightarrow> evfs_fs \<Rightarrow> (nsp_status \<times> evfs_fs) option" where
  "set_size a n s = do {
     v \<leftarrow> get_view s a;
     if data_seg_size (cluster v) \<noteq> n then do {
       s \<leftarrow> set_cluster a (\<lambda>c. c\<lparr>data_seg_size := n\<rparr>) s;
       write_view_head a s
     } else Some (NSP_STATUS_SUCCESSFUL, s)
   }"

definition evfs_view_set_head_data_seg_size :: "nat option \<Rightarrow> int \<Rightarrow> evfs_fs \<Rightarrow> (nsp_status \<times> evfs_fs) option" where
  "evfs_view_set_head_data_seg_size vp n s =
     (case vp of None \<Rightarrow> Some (posix__makeerror EINVAL, s) | Some a \<Rightarrow> set_size a (if n \<le> 0 then n else mark_size n) s)"

definition evfs_view_set_element_data_seg_size :: "nat option \<Rightarrow> int \<Rightarrow> evfs_fs \<Rightarrow> (nsp_status \<times> evfs_fs) option" where
  "evfs_view_set_element_data_seg_size vp n s =
     (case vp of None \<Rightarrow> Some (posix__makeerror EINVAL, s) | Some a \<Rightarrow> set_size a (if n \<ge> 0 then n else unmark_size n) s)"

definition view_field :: "(evfs_view_node \<Rightarrow> int) \<Rightarrow> int \<Rightarrow> nat option \<Rightarrow> evfs_fs \<Rightarrow> int option" where
  "view_field f z vp s = (case vp of None \<Rightarrow> Some z | Some a \<Rightarrow> map_option f (get_view s a))"

definition evfs_view_get_next_cluster_id :: "nat option \<Rightarrow> evfs_fs \<Rightarrow> int option" where
  "evfs_view_get_next_cluster_id = view_field (\<lambda>v. next_cluster_id (cluster v)) 0"

definition evfs_view_get_data_seg_size :: "nat option \<Rightarrow> evfs_fs \<Rightarrow> int option" where
  "evfs_view_get_data_seg_size =
     view_field (\<lambda>v. if data_seg_size (cluster v) < 0 then unmark_size (data_seg_size (cluster v)) else data_seg_size (cluster v)) 0"

definition evfs_view_get_head_cluster_id :: "nat option \<Rightarrow> evfs_fs \<Rightarrow> int option" where
  "evfs_view_get_head_cluster_id = view_field (\<lambda>v. head_cluster_id (cluster v)) (- 1)"

definition evfs_view_get_viewid :: "nat option \<Rightarrow> evfs_fs \<Rightarrow> int option" where
  "evfs_view_get_viewid = view_field viewid (- 1)"

definition evfs_view_get_max_data_seg_size :: "evfs_fs \<Rightarrow> int" where
  "evfs_view_get_max_data_seg_size s = view_max_data_seg_size (vm s)"

definition evfs_view_transfer_size_to_cluster_count :: "int \<Rightarrow> evfs_fs \<Rightarrow> int" where
  "evfs_view_transfer_size_to_cluster_count n s =
     (let m = view_max_data_seg_size (vm s) in
      if n \<le> 0 \<or> m \<le> 0 then 0 else n div m + (if n mod m = 0 then 0 else 1))"

definition evfs_view_looks_like_head :: "nat option \<Rightarrow> evfs_fs \<Rightarrow> bool option" where
  "evfs_view_looks_like_head vp s =
     (case vp of None \<Rightarrow> Some False | Some a \<Rightarrow> map_option (\<lambda>v. (word_of_int (data_seg_size (cluster v)) :: u32) AND 0x80000000 \<noteq> 0) (get_view s a))"

section \<open>The index\<close>

lemma view_compare_same: "evfs_view_compare = evfs_cache_compare_by_cluster_id"
  by (auto simp: fun_eq_iff evfs_view_compare_def evfs_cache_compare_by_cluster_id_def)

section \<open>Heads in memory\<close>

definition head_range :: "evfs_cluster \<Rightarrow> bool" where
  "head_range c \<longleftrightarrow> - (2 ^ 31) \<le> data_seg_size c \<and> data_seg_size c < 2 ^ 31 \<and> - (2 ^ 31) \<le> next_cluster_id c \<and> next_cluster_id c < 2 ^ 31 \<and>
     - (2 ^ 31) \<le> head_cluster_id c \<and> head_cluster_id c < 2 ^ 31"

lemma length_head_bytes [simp]: "length (head_bytes c) = 12"
  by (simp add: head_bytes_def)

lemma head_at_bytes:
  assumes "head_range c"
  shows "head_at (head_bytes c @ rest) 0 = Some c"
proof -
  have r: "sint (word_of_int x :: u32) = x" if "- (2 ^ 31) \<le> x" "x < 2 ^ 31" for x using to_int_small [OF that] by (simp add: to_int_def)
  have m: "mem_read (head_bytes c @ rest) 0 4 = Some (le_bytes (word_of_int (data_seg_size c)))"
    "mem_read (head_bytes c @ rest) 4 4 = Some (le_bytes (word_of_int (next_cluster_id c)))"
    "mem_read (head_bytes c @ rest) 8 4 = Some (le_bytes (word_of_int (head_cluster_id c)))"
    by (simp_all add: mem_read_def head_bytes_def)
  show ?thesis using assms r by (simp add: head_at_def get_int_def m of_le_bytes_le_bytes head_range_def)
qed

lemma head_at_take: "12 \<le> length b \<Longrightarrow> take 12 b = head_bytes c \<Longrightarrow> head_range c \<Longrightarrow> head_at b 0 = Some c"
  using head_at_bytes [of c "drop 12 b"] append_take_drop_id [of 12 b] by simp

lemma head_at_Some: "12 \<le> length b \<Longrightarrow> \<exists>c. head_at b 0 = Some c \<and> head_bytes c = take 12 b \<and> head_range c"
proof -
  assume l: "12 \<le> length b"
  let ?w = "\<lambda>i. of_le_bytes (take 4 (drop i b))"
  let ?c = "\<lparr>data_seg_size = sint (?w 0), next_cluster_id = sint (?w 4), head_cluster_id = sint (?w 8)\<rparr>"
  have m: "mem_read b i 4 = Some (take 4 (drop i b))" "length (take 4 (drop i b)) = 4" if "i \<le> 8" for i using that l by (simp_all add: mem_read_def)
  have "head_at b 0 = Some ?c" using m by (simp add: head_at_def get_int_def)
  moreover have w: "le_bytes (word_of_int (sint (?w i))) = take 4 (drop i b)" if "i \<le> 8" for i
    using le_bytes_of_le_bytes [OF m(2) [OF that]] by simp
  have "head_bytes ?c = take 4 b @ take 4 (drop 4 b) @ take 4 (drop 8 b)" using w [of 0] w [of 4] w [of 8] by (simp add: head_bytes_def)
  then have "head_bytes ?c = take 12 b" using take_add [of 4 8 b] take_add [of 4 4 "drop 4 b"] by simp
  moreover have "head_range ?c"
    using sint_ge [of "?w 0"] sint_lt [of "?w 0"] sint_ge [of "?w 4"] sint_lt [of "?w 4"] sint_ge [of "?w 8"] sint_lt [of "?w 8"]
    by (simp add: head_range_def)
  ultimately show ?thesis by blast
qed

section \<open>The invariant\<close>

text \<open>
  Over the tree \<^term>\<open>t\<close>, the busy and idle views \<^term>\<open>B\<close> and \<^term>\<open>I\<close> and the heap \<^term>\<open>N\<close>: every cluster but the first has exactly one view, and it is
  busy or idle.
\<close>

definition view_shelf :: "(int \<times> nat) avltree \<Rightarrow> nat list \<Rightarrow> nat list \<Rightarrow> (nat \<rightharpoonup> evfs_view_node) \<Rightarrow> nat \<Rightarrow> bool" where
  "view_shelf t B I N cc \<longleftrightarrow> index_ok t \<and> distinct (B @ I) \<and>
     (\<forall>c a. index_of t c = Some a \<longleftrightarrow> a \<in> set B \<union> set I \<and> (\<exists>v. N a = Some v \<and> viewid v = c)) \<and>
     (\<forall>a \<in> set B \<union> set I. \<exists>v. N a = Some v \<and> 0 < viewid v \<and> viewid v < int cc) \<and>
     (\<forall>c. 0 < c \<longrightarrow> c < int cc \<longrightarrow> index_of t c \<noteq> None)"

text \<open>A busy view has a copy of the head of its cluster; the cluster of an idle one does not look busy.\<close>

definition idle_bytes :: "bytes \<Rightarrow> bool" where
  "idle_bytes b \<longleftrightarrow> (\<forall>c. head_at b 0 = Some c \<longrightarrow> \<not> evfs_cluster_looks_like_busy c)"

definition busy_ok :: "(nat \<rightharpoonup> evfs_view_node) \<Rightarrow> (nat \<Rightarrow> bytes) \<Rightarrow> nat \<Rightarrow> bool" where
  "busy_ok N V a \<longleftrightarrow> (\<exists>v. N a = Some v \<and> head_range (cluster v) \<and> take 12 (V (nat (viewid v))) = head_bytes (cluster v))"

definition idle_ok :: "(nat \<rightharpoonup> evfs_view_node) \<Rightarrow> (nat \<Rightarrow> bytes) \<Rightarrow> nat \<Rightarrow> bool" where
  "idle_ok N V a \<longleftrightarrow> (\<exists>v. N a = Some v \<and> idle_bytes (V (nat (viewid v))))"

definition view_counts :: "evfs_view_mgr \<Rightarrow> nat \<Rightarrow> nat \<Rightarrow> bool" where
  "view_counts m cs cc \<longleftrightarrow> count_of_busy_views m = int (length (busylist m)) \<and> count_of_idle_views m = int (length (idlelist m)) \<and>
     total_cluster_count m = int cc - 1 \<and> 1 < cc \<and> view_cluster_size m = int cs \<and> view_max_data_seg_size m = int cs - 12 \<and>
     (\<forall>a \<in> dom (views m). a < view_fresh m)"

definition views_ok :: "evfs_view_mgr \<Rightarrow> nat \<Rightarrow> (nat \<Rightarrow> bytes) \<Rightarrow> bool" where
  "views_ok m cc V \<longleftrightarrow> view_shelf (root_of_view_tree m) (busylist m) (idlelist m) (views m) cc \<and>
     (\<forall>a \<in> set (busylist m). busy_ok (views m) V a) \<and> (\<forall>a \<in> set (idlelist m). idle_ok (views m) V a)"

definition view_inv :: "nat \<Rightarrow> string \<Rightarrow> evfs_fs \<Rightarrow> nat \<Rightarrow> nat \<Rightarrow> (nat \<Rightarrow> bytes) \<Rightarrow> bool" where
  "view_inv ecc path s cs cc V \<longleftrightarrow> serving ecc path (store s) cs cc V \<and> view_counts (vm s) cs cc \<and> views_ok (vm s) cc V"

text \<open>Which clusters are in use, with their heads.\<close>

definition busy_heads :: "evfs_view_mgr \<Rightarrow> int \<Rightarrow> evfs_cluster option" where
  "busy_heads m c = (case index_of (root_of_view_tree m) c of
     None \<Rightarrow> None | Some a \<Rightarrow> if a \<in> set (busylist m) then map_option cluster (views m a) else None)"

lemma shelf_view:
  assumes "view_shelf t B I N cc" "a \<in> set B \<union> set I"
  obtains v where "N a = Some v" "0 < viewid v" "viewid v < int cc" "index_of t (viewid v) = Some a"
  using assms unfolding view_shelf_def by blast

lemma shelf_view_index:
  "view_shelf t B I N cc \<Longrightarrow> index_of t c = Some a \<longleftrightarrow> a \<in> set B \<union> set I \<and> (\<exists>v. N a = Some v \<and> viewid v = c)"
  unfolding view_shelf_def by blast

lemma shelf_view_inj:
  assumes "view_shelf t B I N cc" "a \<in> set B \<union> set I" "b \<in> set B \<union> set I" "N a = Some v" "N b = Some w" "a \<noteq> b"
  shows "nat (viewid v) \<noteq> nat (viewid w)"
proof -
  have i: "index_of t (viewid v) = Some a" "index_of t (viewid w) = Some b" "0 < viewid v" "0 < viewid w"
    using shelf_view [OF assms(1,2)] shelf_view [OF assms(1,3)] assms(4,5) by force+
  then have "viewid v \<noteq> viewid w" using assms(6) by auto
  then show ?thesis using i(3,4) by simp
qed

text \<open>Changing a view and its cluster leaves the others alone.\<close>

lemma busy_frame: "busy_ok N V b \<Longrightarrow> b \<noteq> a \<Longrightarrow> (\<And>w. N b = Some w \<Longrightarrow> nat (viewid w) \<noteq> c) \<Longrightarrow> busy_ok (N(a := x)) (V(c := y)) b"
  by (auto simp: busy_ok_def)

lemma idle_frame: "idle_ok N V b \<Longrightarrow> b \<noteq> a \<Longrightarrow> (\<And>w. N b = Some w \<Longrightarrow> nat (viewid w) \<noteq> c) \<Longrightarrow> idle_ok (N(a := x)) (V(c := y)) b"
  by (auto simp: idle_ok_def)

lemma view_shelfI:
  assumes "index_ok t" "distinct (B @ I)" "\<And>c a. index_of t c = Some a \<longleftrightarrow> a \<in> set B \<union> set I \<and> (\<exists>v. N a = Some v \<and> viewid v = c)"
    and "\<And>a. a \<in> set B \<union> set I \<Longrightarrow> \<exists>v. N a = Some v \<and> 0 < viewid v \<and> viewid v < int cc" "\<And>c. 0 < c \<Longrightarrow> c < int cc \<Longrightarrow> index_of t c \<noteq> None"
  shows "view_shelf t B I N cc"
  unfolding view_shelf_def using assms by blast

lemma shelf_view_update:
  assumes sh: "view_shelf t B I N cc" and "N a = Some v" "set B' \<union> set I' = set B \<union> set I" "distinct (B' @ I')"
  shows "view_shelf t B' I' (N(a \<mapsto> v\<lparr>cluster := h\<rparr>)) cc"
proof (rule view_shelfI)
  show "index_ok t" using sh by (simp add: view_shelf_def)
  show "index_of t c = Some b \<longleftrightarrow> b \<in> set B' \<union> set I' \<and> (\<exists>w. (N(a \<mapsto> v\<lparr>cluster := h\<rparr>)) b = Some w \<and> viewid w = c)" for c b
    unfolding shelf_view_index [OF sh] assms(3) using assms(2) by simp
  show "\<exists>w. (N(a \<mapsto> v\<lparr>cluster := h\<rparr>)) b = Some w \<and> 0 < viewid w \<and> viewid w < int cc" if "b \<in> set B' \<union> set I'" for b
  proof -
    have "b \<in> set B \<union> set I" using that assms(3) by simp
    then obtain w where "N b = Some w" "0 < viewid w" "viewid w < int cc" using shelf_view [OF sh] by blast
    then show ?thesis using assms(2) by auto
  qed
  show "index_of t c \<noteq> None" if "0 < c" "c < int cc" for c using sh that unfolding view_shelf_def by blast
qed (rule assms(4))

section \<open>Operations\<close>

lemma inv_shelf: "view_inv ecc path s cs cc V \<Longrightarrow> view_shelf (root_of_view_tree (vm s)) (busylist (vm s)) (idlelist (vm s)) (views (vm s)) cc"
  and inv_busy: "view_inv ecc path s cs cc V \<Longrightarrow> a \<in> set (busylist (vm s)) \<Longrightarrow> busy_ok (views (vm s)) V a"
  and inv_idle: "view_inv ecc path s cs cc V \<Longrightarrow> a \<in> set (idlelist (vm s)) \<Longrightarrow> idle_ok (views (vm s)) V a"
  and inv_serving: "view_inv ecc path s cs cc V \<Longrightarrow> serving ecc path (store s) cs cc V"
  and inv_counts: "view_inv ecc path s cs cc V \<Longrightarrow> view_counts (vm s) cs cc"
  by (auto simp: view_inv_def views_ok_def)

lemma view_invI:
  assumes "serving ecc path (store s) cs cc V" "view_counts (vm s) cs cc"
    and "view_shelf (root_of_view_tree (vm s)) (busylist (vm s)) (idlelist (vm s)) (views (vm s)) cc"
    and "\<And>a. a \<in> set (busylist (vm s)) \<Longrightarrow> busy_ok (views (vm s)) V a" "\<And>a. a \<in> set (idlelist (vm s)) \<Longrightarrow> idle_ok (views (vm s)) V a"
  shows "view_inv ecc path s cs cc V"
  using assms by (simp add: view_inv_def views_ok_def)

lemma serving_length:
  assumes "serving ecc path s cs cc V" "c < cc"
  shows "length (V c) = cs" "32 \<le> cs"
proof -
  obtain D where D: "cache_inv ecc path s cs cc D" "view s D = V" using assms(1) by (auto simp: serving_def)
  show "length (V c) = cs" using view_length [OF D(1) assms(2)] D(2) by simp
  show "32 \<le> cs" using store_cluster_length [OF inv_store [OF D(1)] assms(2)] by simp
qed

lemma shelf_view_id:
  assumes "view_shelf t B I N cc" "a \<in> set B \<union> set I" "N a = Some v"
  shows "viewid v = int (nat (viewid v))" "0 < nat (viewid v)" "nat (viewid v) < cc"
proof -
  obtain w where "N a = Some w" "0 < viewid w" "viewid w < int cc" by (rule shelf_view [OF assms(1,2)])
  then show "viewid v = int (nat (viewid v))" "0 < nat (viewid v)" "nat (viewid v) < cc" using assms(3) by auto
qed

lemma view_id_range:
  assumes inv: "view_inv ecc path s cs cc V" and a: "a \<in> set (busylist (vm s)) \<union> set (idlelist (vm s))" "get_view s a = Some v"
  shows "0 < viewid v \<and> viewid v < 2 ^ 31"
proof -
  have "viewid v < int cc" "0 < viewid v" using shelf_view_id [OF inv_shelf [OF inv] a] by auto
  moreover have "32 \<le> cs" using serving_length(2) [OF inv_serving [OF inv], of 0] inv_counts [OF inv] by (simp add: view_counts_def)
  moreover have "cs * cc < 2 ^ 31" using inv_serving [OF inv] by (auto simp: serving_def cache_inv_def store_holds_def store_ok_def)
  ultimately show ?thesis using factor_less [of cs cc "2 ^ 31"] int_less_2_31 [of cc] by auto
qed

text \<open>A new head of a busy view.\<close>

lemma head_update:
  assumes inv: "view_inv ecc path s cs cc V" and a: "a \<in> set (busylist (vm s))" "get_view s a = Some v" and r: "head_range (f (cluster v))"
  shows "\<exists>s'. do { s \<leftarrow> set_cluster a f s; write_view_head a s } = Some (0, s') \<and>
    view_inv ecc path s' cs cc (V(nat (viewid v) := head_bytes (f (cluster v)) @ drop 12 (V (nat (viewid v))))) \<and>
    vm s' = (vm s)\<lparr>views := (views (vm s))(a \<mapsto> v\<lparr>cluster := f (cluster v)\<rparr>)\<rparr>"
proof -
  note sh = inv_shelf [OF inv]
  let ?i = "nat (viewid v)" and ?h = "head_bytes (f (cluster v))"
  note i = shelf_view_id [OF sh _ a(2)]
  have i: "viewid v = int ?i" "0 < ?i" "?i < cc" using i a(1) by blast+
  obtain c where c: "evfs_cache_write_head (viewid v) (Some ?h) (store s) = Some (0, c)" "serving ecc path c cs cc (V(?i := ?h @ drop 12 (V ?i)))"
    using write_head_served [OF inv_serving [OF inv] i(2,3), of ?h] i(1) by auto
  define s' where "s' = (set_view a (v\<lparr>cluster := f (cluster v)\<rparr>) s)\<lparr>store := c\<rparr>"
  have run: "do { s \<leftarrow> set_cluster a f s; write_view_head a s } = Some (0, s')"
    using a(2) c(1) by (simp add: set_cluster_def write_view_head_def set_view_def s'_def)
  have vm: "vm s' = (vm s)\<lparr>views := (views (vm s))(a \<mapsto> v\<lparr>cluster := f (cluster v)\<rparr>)\<rparr>" by (simp add: s'_def set_view_def)
  have fs: "root_of_view_tree (vm s') = root_of_view_tree (vm s)" "busylist (vm s') = busylist (vm s)" "idlelist (vm s') = idlelist (vm s)"
    "views (vm s') = (views (vm s))(a \<mapsto> v\<lparr>cluster := f (cluster v)\<rparr>)" by (simp_all add: vm)
  have apart: "nat (viewid w) \<noteq> ?i" if "b \<in> set (busylist (vm s)) \<union> set (idlelist (vm s))" "b \<noteq> a" "views (vm s) b = Some w" for b w
    using shelf_view_inj [OF sh that(1) _ that(3) a(2)] a(1) that(2) by simp
  have "a \<notin> set (idlelist (vm s))" using sh a(1) by (auto simp: view_shelf_def)
  have "view_inv ecc path s' cs cc (V(?i := ?h @ drop 12 (V ?i)))"
  proof (rule view_invI)
    show "serving ecc path (store s') cs cc (V(?i := ?h @ drop 12 (V ?i)))" using c(2) by (simp add: s'_def)
    show "view_counts (vm s') cs cc" using inv_counts [OF inv] a(2) by (auto simp: view_counts_def vm)
    show "view_shelf (root_of_view_tree (vm s')) (busylist (vm s')) (idlelist (vm s')) (views (vm s')) cc"
      unfolding fs using shelf_view_update [OF sh a(2) refl] sh by (simp add: view_shelf_def)
  next
    fix b assume "b \<in> set (busylist (vm s'))"
    then have b: "b \<in> set (busylist (vm s))" by (simp add: fs)
    show "busy_ok (views (vm s')) (V(?i := ?h @ drop 12 (V ?i))) b"
    proof (cases "b = a")
      case True
      then show ?thesis using r by (simp add: busy_ok_def fs)
    next
      case False
      then show ?thesis unfolding fs using busy_frame [OF inv_busy [OF inv b] False] apart [of b] b by simp
    qed
  next
    fix b assume "b \<in> set (idlelist (vm s'))"
    then have b: "b \<in> set (idlelist (vm s))" by (simp add: fs)
    then have "b \<noteq> a" using \<open>a \<notin> set (idlelist (vm s))\<close> by auto
    then show "idle_ok (views (vm s')) (V(?i := ?h @ drop 12 (V ?i))) b"
      unfolding fs using idle_frame [OF inv_idle [OF inv b]] apart [of b] b by simp
  qed
  then show ?thesis using run vm by blast
qed

text \<open>The fields of a busy view.\<close>

lemma set_next_run:
  assumes inv: "view_inv ecc path s cs cc V" and a: "a \<in> set (busylist (vm s))" "get_view s a = Some v"
    and b: "case nv of None \<Rightarrow> i = 0 | Some b \<Rightarrow> b \<in> set (busylist (vm s)) \<and> map_option viewid (get_view s b) = Some i"
  shows "\<exists>s'. evfs_view_set_next (Some a) nv s = Some (0, s') \<and>
    view_inv ecc path s' cs cc (V(nat (viewid v) := head_bytes ((cluster v)\<lparr>next_cluster_id := i\<rparr>) @ drop 12 (V (nat (viewid v))))) \<and>
    vm s' = (vm s)\<lparr>views := (views (vm s))(a \<mapsto> v\<lparr>cluster := (cluster v)\<lparr>next_cluster_id := i\<rparr>\<rparr>)\<rparr>"
proof -
  have r: "head_range (cluster v)" using inv_busy [OF inv a(1)] a(2) by (simp add: busy_ok_def)
  have i: "0 \<le> i \<and> i < 2 ^ 31"
  proof (cases nv)
    case (Some b)
    then obtain w where "b \<in> set (busylist (vm s))" "get_view s b = Some w" "viewid w = i" using b by auto
    then show ?thesis using view_id_range [OF inv, of b w] by auto
  qed (use b in simp)
  have n: "(case nv of None \<Rightarrow> Some 0 | Some b \<Rightarrow> map_option viewid (get_view s b)) = Some i" using b by (auto split: option.splits)
  have "head_range ((cluster v)\<lparr>next_cluster_id := i\<rparr>)" using r i by (simp add: head_range_def)
  from head_update [OF inv a, of "\<lambda>c. c\<lparr>next_cluster_id := i\<rparr>", OF this] show ?thesis
    using n by (simp add: evfs_view_set_next_def)
qed

section \<open>Acquiring and giving back\<close>

lemma zero_head_bytes: "head_bytes zero_head = replicate 12 0" "head_range zero_head" "\<not> evfs_cluster_looks_like_busy zero_head"
  by (simp_all add: head_bytes_def zero_head_def le_bytes_def head_range_def evfs_cluster_looks_like_busy_def numeral_eq_Suc)

lemma idle_zero: "idle_bytes (head_bytes zero_head @ rest)"
  using zero_head_bytes(3) by (simp add: idle_bytes_def head_at_bytes [OF zero_head_bytes(2)])

lemma allocate_keeps:
  assumes "store_holds ecc path e cs cc D" "length h = 12"
  shows "\<exists>e'. evfs_hard_allocate_cluster (Some h) e = Some (Some (h @ replicate cs 0), e') \<and> same_disk ecc path cs cc e e'"
proof -
  obtain d where d: "roomy e" "store_ok e cs cc ecc path d" using assms(1) by (auto simp: store_holds_def)
  obtain b where b: "the_first_cluster (mgr e) = Some b" "hrd_cluster_size b = Some (int cs)" using d(2) by (auto simp: store_ok_def header_def)
  obtain blk ms where m: "ztrymalloc (12 + int cs) e = (Some blk, e\<lparr>mallocs := ms\<rparr>)" "length blk = 12 + cs" "roomy (e\<lparr>mallocs := ms\<rparr>)"
    using malloc_roomy [OF d(1), of "12 + int cs"] by (auto simp: nat_add_distrib)
  have "mem_read h 0 12 = Some h" "mem_write (replicate (12 + cs) 0) 0 h = Some (h @ replicate cs 0)"
    using assms(2) by (simp_all add: mem_read_def mem_write_def)
  then have "evfs_hard_allocate_cluster (Some h) e = Some (Some (h @ replicate cs 0), e\<lparr>mallocs := ms\<rparr>)"
    using store_ready [OF d(2)] b m by (simp add: evfs_hard_allocate_cluster_def sizeof_cluster_def)
  moreover have "same_disk ecc path cs cc e (e\<lparr>mallocs := ms\<rparr>)" using store_mallocs [OF _ m(3)] by (simp add: same_disk_def)
  ultimately show ?thesis by blast
qed

text \<open>Moving a view between the lists with a new head and content of its cluster.\<close>

lemma view_inv_move:
  assumes inv: "view_inv ecc path s cs cc V" and a: "a \<in> set (busylist (vm s)) \<union> set (idlelist (vm s))" "get_view s a = Some v"
    and s': "serving ecc path c cs cc (V(nat (viewid v) := y))" "set B' \<union> set I' = set (busylist (vm s)) \<union> set (idlelist (vm s))" "distinct (B' @ I')"
      "set B' - {a} \<subseteq> set (busylist (vm s))" "set I' - {a} \<subseteq> set (idlelist (vm s))" "length B' = nat nb" "0 \<le> nb" "length I' = nat ni" "0 \<le> ni"
    and y: "a \<in> set B' \<Longrightarrow> head_range h \<and> take 12 y = head_bytes h" "a \<in> set I' \<Longrightarrow> idle_bytes y"
  shows "view_inv ecc path (s\<lparr>vm := (vm s)\<lparr>views := (views (vm s))(a \<mapsto> v\<lparr>cluster := h\<rparr>), idlelist := I', count_of_idle_views := ni,
    busylist := B', count_of_busy_views := nb\<rparr>, store := c\<rparr>) cs cc (V(nat (viewid v) := y))"
proof -
  note sh = inv_shelf [OF inv]
  let ?N = "(views (vm s))(a \<mapsto> v\<lparr>cluster := h\<rparr>)" and ?V = "V(nat (viewid v) := y)"
  have apart: "nat (viewid w) \<noteq> nat (viewid v)" if "b \<in> set (busylist (vm s)) \<union> set (idlelist (vm s))" "b \<noteq> a" "views (vm s) b = Some w" for b w
    using shelf_view_inj [OF sh that(1) _ that(3) a(2)] a(1) that(2) by simp
  have "busy_ok ?N ?V b" if "b \<in> set B'" for b
  proof (cases "b = a")
    case True
    then show ?thesis using y(1) that by (simp add: busy_ok_def)
  next
    case False
    then have b: "b \<in> set (busylist (vm s))" using s'(4) that by auto
    then show ?thesis using busy_frame [OF inv_busy [OF inv b] False] apart [of b] False by simp
  qed
  moreover have "idle_ok ?N ?V b" if "b \<in> set I'" for b
  proof (cases "b = a")
    case True
    then show ?thesis using y(2) that by (simp add: idle_ok_def)
  next
    case False
    then have b: "b \<in> set (idlelist (vm s))" using s'(5) that by auto
    then show ?thesis using idle_frame [OF inv_idle [OF inv b] False] apart [of b] False by simp
  qed
  moreover have "view_shelf (root_of_view_tree (vm s)) B' I' ?N cc" by (rule shelf_view_update [OF sh a(2) s'(2,3)])
  moreover have "view_counts ((vm s)\<lparr>views := ?N, idlelist := I', count_of_idle_views := ni, busylist := B', count_of_busy_views := nb\<rparr>) cs cc"
    using inv_counts [OF inv] a(2) s'(6-9) by (auto simp: view_counts_def)
  ultimately show ?thesis using s'(1) by (simp add: view_inv_def views_ok_def del: fun_upd_apply)
qed

lemma acquire_run:
  assumes inv: "view_inv ecc path s cs cc V" and I: "idlelist (vm s) = a # I" and v: "get_view s a = Some v"
  shows "\<exists>s'. evfs_view_acquire_idle s = Some (Some a, s') \<and> view_inv ecc path s' cs cc (V(nat (viewid v) := replicate cs 0)) \<and>
    vm s' = (vm s)\<lparr>views := (views (vm s))(a \<mapsto> v\<lparr>cluster := zero_head\<rparr>), idlelist := I, count_of_idle_views := count_of_idle_views (vm s) - 1,
      busylist := busylist (vm s) @ [a], count_of_busy_views := count_of_busy_views (vm s) + 1\<rparr>"
proof -
  note sh = inv_shelf [OF inv] and ct = inv_counts [OF inv] and se = inv_serving [OF inv]
  let ?i = "nat (viewid v)"
  have a: "a \<in> set (busylist (vm s)) \<union> set (idlelist (vm s))" using I by simp
  note i = shelf_view_id [OF sh a v]
  have l: "length (V ?i) = cs" "32 \<le> cs" using serving_length [OF se i(3)] by auto
  obtain D where D: "store_holds ecc path (env (store s)) cs cc D" using se by (auto simp: serving_def cache_inv_def)
  obtain e where e: "evfs_hard_allocate_cluster (Some (head_bytes zero_head)) (env (store s)) = Some (Some (replicate (12 + cs) 0), e)"
    "same_disk ecc path cs cc (env (store s)) e"
    using allocate_keeps [OF D, of "head_bytes zero_head"] zero_head_bytes(1) by (auto simp: replicate_add)
  let ?c = "(store s)\<lparr>env := e\<rparr>"
  obtain c where c: "evfs_cache_write (viewid v) (Some (replicate (12 + cs) 0)) 0 (int cs) ?c = Some (0, c)"
    "serving ecc path c cs cc (V(?i := replicate cs 0))"
    using write_served [OF serving_disk [OF se e(2)] i(2,3), of 0 "int cs" "replicate (12 + cs) 0"] i(1) l by (auto simp: splice_def)
  define s' where "s' = s\<lparr>vm := (vm s)\<lparr>views := (views (vm s))(a \<mapsto> v\<lparr>cluster := zero_head\<rparr>), idlelist := I,
    count_of_idle_views := count_of_idle_views (vm s) - 1, busylist := busylist (vm s) @ [a], count_of_busy_views := count_of_busy_views (vm s) + 1\<rparr>, store := c\<rparr>"
  have d: "distinct (busylist (vm s) @ a # I)" using sh I by (simp add: view_shelf_def)
  have "view_inv ecc path s' cs cc (V(?i := replicate cs 0))" unfolding s'_def
    by (rule view_inv_move [OF inv a v c(2)]) (use ct I d l zero_head_bytes in \<open>auto simp: view_counts_def\<close>)
  moreover have "evfs_view_acquire_idle s = Some (Some a, s')"
    using ct I v e(1) c(1) idle_or_expand.simps [of s]
    by (simp add: evfs_view_acquire_idle_def view_counts_def set_cluster_def set_view_def s'_def Let_def)
  ultimately show ?thesis by (auto simp: s'_def)
qed

lemma move_to_idle_run:
  assumes inv: "view_inv ecc path s cs cc V" and a: "a \<in> set (busylist (vm s))" and v: "get_view s a = Some v"
  shows "\<exists>s'. evfs_view_move_to_idle (Some a) s = Some (0, s') \<and>
    view_inv ecc path s' cs cc (V(nat (viewid v) := head_bytes zero_head @ drop 12 (V (nat (viewid v))))) \<and>
    vm s' = (vm s)\<lparr>views := (views (vm s))(a \<mapsto> v\<lparr>cluster := zero_head\<rparr>), idlelist := idlelist (vm s) @ [a],
      count_of_idle_views := count_of_idle_views (vm s) + 1, busylist := remove1 a (busylist (vm s)), count_of_busy_views := count_of_busy_views (vm s) - 1\<rparr>"
proof -
  note sh = inv_shelf [OF inv] and ct = inv_counts [OF inv] and se = inv_serving [OF inv]
  let ?i = "nat (viewid v)" and ?h = "head_bytes zero_head"
  have ab: "a \<in> set (busylist (vm s)) \<union> set (idlelist (vm s))" using a by simp
  note i = shelf_view_id [OF sh ab v]
  have d: "distinct (busylist (vm s))" "a \<notin> set (idlelist (vm s))" "distinct (idlelist (vm s))" "set (busylist (vm s)) \<inter> set (idlelist (vm s)) = {}"
    using sh a by (auto simp: view_shelf_def)
  obtain c where c: "evfs_cache_write_head (viewid v) (Some ?h) (store s) = Some (0, c)" "serving ecc path c cs cc (V(?i := ?h @ drop 12 (V ?i)))"
    using write_head_served [OF se i(2,3), of ?h] i(1) by auto
  define s' where "s' = s\<lparr>vm := (vm s)\<lparr>views := (views (vm s))(a \<mapsto> v\<lparr>cluster := zero_head\<rparr>), idlelist := idlelist (vm s) @ [a],
      count_of_idle_views := count_of_idle_views (vm s) + 1, busylist := remove1 a (busylist (vm s)), count_of_busy_views := count_of_busy_views (vm s) - 1\<rparr>, store := c\<rparr>"
  have n: "0 < length (busylist (vm s))" using a by (cases "busylist (vm s)") auto
  have "length (remove1 a (busylist (vm s))) = nat (count_of_busy_views (vm s) - 1)" "0 \<le> count_of_busy_views (vm s) - 1"
    using n a ct by (simp_all add: view_counts_def length_remove1 nat_diff_distrib)
  then have "view_inv ecc path s' cs cc (V(?i := ?h @ drop 12 (V ?i)))" unfolding s'_def
    by (intro view_inv_move [OF inv ab v c(2)]) (use ct a d idle_zero in \<open>auto simp: view_counts_def nat_add_distrib\<close>)
  moreover have "evfs_view_move_to_idle (Some a) s = Some (0, s')"
    using ct v c(1) d(2) by (simp add: evfs_view_move_to_idle_def view_counts_def set_cluster_def set_view_def s'_def write_view_head_def remove1_idem)
  ultimately show ?thesis by (auto simp: s'_def)
qed

section \<open>Data of a view\<close>

lemma view_inv_store:
  assumes inv: "view_inv ecc path s cs cc V" and "serving ecc path c cs cc (V(i := y))" "take 12 y = take 12 (V i)" "length y = length (V i)"
  shows "view_inv ecc path (s\<lparr>store := c\<rparr>) cs cc (V(i := y))"
proof -
  have h: "head_at y 0 = head_at (V i) 0" if "32 \<le> length (V i)"
  proof -
    have l: "12 \<le> length y" "12 \<le> length (V i)" using that assms(4) by simp_all
    obtain c where c: "head_at y 0 = Some c" "head_bytes c = take 12 y" "head_range c" using head_at_Some [OF l(1)] by blast
    then show ?thesis using head_at_take [OF l(2), of c] assms(3) by simp
  qed
  have "idle_bytes y = idle_bytes (V i)" if "i < cc"
    using h serving_length [OF inv_serving [OF inv] that] by (simp add: idle_bytes_def)
  moreover have "nat (viewid w) < cc" if "b \<in> set (idlelist (vm s))" "views (vm s) b = Some w" for b w
    using shelf_view_id(3) [OF inv_shelf [OF inv] _ that(2)] that(1) by simp
  ultimately have "idle_ok (views (vm s)) (V(i := y)) b" if "b \<in> set (idlelist (vm s))" for b
    using inv_idle [OF inv that] that by (auto simp: idle_ok_def)
  moreover have "busy_ok (views (vm s)) (V(i := y)) b" if "b \<in> set (busylist (vm s))" for b
    using inv_busy [OF inv that] assms(3) by (auto simp: busy_ok_def)
  ultimately show ?thesis using inv assms(2) by (simp add: view_inv_def views_ok_def)
qed

lemma write_userdata_run:
  assumes inv: "view_inv ecc path s cs cc V" and a: "a \<in> set (busylist (vm s))" "get_view s a = Some v"
    and u: "data_seg_size (cluster v) \<noteq> 0 \<or> head_cluster_id (cluster v) \<noteq> 0"
    and off: "0 \<le> off" "0 < len" "off + len \<le> int cs - 12" "len \<le> int (length buf)"
  shows "\<exists>c. evfs_view_write_userdata (Some a) (Some buf) off len s = Some (len, s\<lparr>store := c\<rparr>) \<and>
    view_inv ecc path (s\<lparr>store := c\<rparr>) cs cc (V(nat (viewid v) := splice (V (nat (viewid v))) (nat off + 12) (take (nat len) buf)))"
proof -
  note sh = inv_shelf [OF inv] and se = inv_serving [OF inv]
  have "a \<in> set (busylist (vm s)) \<union> set (idlelist (vm s))" using a by simp
  note i = shelf_view_id [OF sh this a(2)]
  let ?i = "nat (viewid v)" and ?y = "splice (V (nat (viewid v))) (nat off + 12) (take (nat len) buf)"
  obtain c where c: "evfs_cache_write_userdata (viewid v) (Some buf) off len (store s) = Some (0, c)" "serving ecc path c cs cc (V(?i := ?y))"
    using write_userdata_served [OF se i(2,3) off(1) _ off(3,4)] off(2) i(1) by auto
  have l: "length (V ?i) = cs" using serving_length [OF se i(3)] by simp
  have "nat off + 12 + length (take (nat len) buf) \<le> cs" using off by auto
  then have "take 12 ?y = take 12 (V ?i)" "length ?y = length (V ?i)" using l by (simp_all add: splice_def)
  then show ?thesis using c view_inv_store [OF inv c(2)] a u off(1,2) inv_counts [OF inv]
    by (intro exI [of _ c]) (auto simp: evfs_view_write_userdata_def view_counts_def error_not_success)
qed

lemma read_userdata_run:
  assumes inv: "view_inv ecc path s cs cc V" and a: "a \<in> set (busylist (vm s))" "get_view s a = Some v"
    and u: "data_seg_size (cluster v) \<noteq> 0 \<or> head_cluster_id (cluster v) \<noteq> 0"
    and off: "0 \<le> off" "0 < len" "off + len \<le> int cs - 12" "len \<le> int (length buf)"
  shows "\<exists>c. evfs_view_read_userdata (Some a) (Some buf) off len s =
      Some (len, Some (take (nat len) (drop (nat off + 12) (V (nat (viewid v)))) @ drop (nat len) buf), s\<lparr>store := c\<rparr>) \<and>
    view_inv ecc path (s\<lparr>store := c\<rparr>) cs cc V"
proof -
  note sh = inv_shelf [OF inv] and se = inv_serving [OF inv]
  have "a \<in> set (busylist (vm s)) \<union> set (idlelist (vm s))" using a by simp
  note i = shelf_view_id [OF sh this a(2)]
  let ?i = "nat (viewid v)"
  obtain c where c: "evfs_cache_read_userdata (viewid v) (Some buf) off len (store s) =
      Some (0, Some (take (nat len) (drop (nat off + 12) (V ?i)) @ drop (nat len) buf), c)" "serving ecc path c cs cc V"
    using read_userdata_served [OF se i(2,3) off(1) _ off(3,4)] off(2) i(1) by auto
  have "view_inv ecc path (s\<lparr>store := c\<rparr>) cs cc V" using inv c(2) by (simp add: view_inv_def)
  then show ?thesis using c a u off(1,2) inv_counts [OF inv]
    by (intro exI [of _ c]) (auto simp: evfs_view_read_userdata_def view_counts_def error_not_success)
qed

section \<open>Creating and loading\<close>

text \<open>While the views are made, the ones with numbers below \<^term>\<open>i\<close> are there, all idle, and \<^term>\<open>P\<close> holds of each.\<close>

definition growing :: "nat \<Rightarrow> string \<Rightarrow> (evfs_view_node \<Rightarrow> bool) \<Rightarrow> evfs_fs \<Rightarrow> nat \<Rightarrow> nat \<Rightarrow> (nat \<Rightarrow> bytes) \<Rightarrow> nat \<Rightarrow> bool" where
  "growing ecc path P s cs cc V i \<longleftrightarrow> serving ecc path (store s) cs cc V \<and> busylist (vm s) = [] \<and> count_of_busy_views (vm s) = 0 \<and>
     count_of_idle_views (vm s) = int (length (idlelist (vm s))) \<and> view_shelf (root_of_view_tree (vm s)) [] (idlelist (vm s)) (views (vm s)) i \<and>
     (\<forall>a \<in> dom (views (vm s)). a < view_fresh (vm s)) \<and> (\<forall>a \<in> set (idlelist (vm s)). \<exists>v. get_view s a = Some v \<and> P v)"

lemma shelf_view_add:
  assumes sh: "view_shelf t [] I N i" and "N a = None" "viewid v = int i" "0 < i"
  shows "\<exists>t'. avlinsert t (Some (int i, a)) (Some evfs_view_compare) = Some t' \<and> view_shelf t' [] (I @ [a]) (N(a \<mapsto> v)) (i + 1)"
proof -
  have range: "\<exists>w. N b = Some w \<and> 0 < viewid w \<and> viewid w < int i" if "b \<in> set I" for b using sh that by (simp add: view_shelf_def)
  have "index_of t (int i) \<noteq> Some b" for b unfolding shelf_view_index [OF sh] using range [of b] by auto
  then have "index_of t (int i) = None" by (cases "index_of t (int i)") auto
  then obtain t' where t: "avlinsert t (Some (int i, a)) (Some evfs_view_compare) = Some t'" "index_ok t'" "index_of t' = (index_of t)(int i \<mapsto> a)"
    using index_insert [of t "int i" a] sh index_of_update(1) unfolding view_compare_same index_of_None by (auto simp: view_shelf_def)
  have a: "a \<notin> set I" using range [of a] assms(2) by auto
  have "view_shelf t' [] (I @ [a]) (N(a \<mapsto> v)) (i + 1)"
  proof (rule view_shelfI)
    show "index_of t' c = Some b \<longleftrightarrow> b \<in> set [] \<union> set (I @ [a]) \<and> (\<exists>w. (N(a \<mapsto> v)) b = Some w \<and> viewid w = c)" for c b
      unfolding t(3) using shelf_view_index [OF sh, of c b] range [of b] assms(3) a by (cases "b = a"; cases "c = int i") auto
    show "\<exists>w. (N(a \<mapsto> v)) b = Some w \<and> 0 < viewid w \<and> viewid w < int (i + 1)" if "b \<in> set [] \<union> set (I @ [a])" for b
      using range [of b] that assms(3,4) by (cases "b = a") auto
    show "index_of t' c \<noteq> None" if "0 < c" "c < int (i + 1)" for c
    proof (cases "c = int i")
      case False
      then have "index_of t c \<noteq> None" using sh that unfolding view_shelf_def by (metis less_add_one of_nat_1 of_nat_add zle_add1_eq_le order_less_le)
      then show ?thesis by (simp add: t(3))
    qed (simp add: t(3))
  qed (use t(2) sh a in \<open>auto simp: view_shelf_def\<close>)
  then show ?thesis using t(1) by blast
qed

lemma new_view_run:
  assumes g: "growing ecc path P s cs cc V i" and i: "0 < i" and P: "\<And>v. viewid v = int i \<Longrightarrow> (\<forall>h. c = Some h \<longrightarrow> cluster v = h) \<Longrightarrow> P v"
  shows "\<exists>a s1 s'. new_view (int i) c s = Some (Some a, s1) \<and> evfs_view_insert_new_idle a s1 = Some s' \<and> growing ecc path P s' cs cc V (i + 1) \<and>
    total_cluster_count (vm s') = total_cluster_count (vm s) \<and> same_disk ecc path cs cc (env (store s)) (env (store s'))"
proof -
  have se: "serving ecc path (store s) cs cc V" using g by (simp add: growing_def)
  obtain D where D: "store_holds ecc path (env (store s)) cs cc D" using se by (auto simp: serving_def cache_inv_def)
  then have "roomy (env (store s))" by (simp add: store_holds_def)
  then obtain b ms where b: "ztrymalloc sizeof_view (env (store s)) = (Some b, (env (store s))\<lparr>mallocs := ms\<rparr>)" "length b = 64" "roomy ((env (store s))\<lparr>mallocs := ms\<rparr>)"
    using malloc_roomy [of "env (store s)" sizeof_view] by (auto simp: sizeof_view_def)
  let ?e = "(env (store s))\<lparr>mallocs := ms\<rparr>"
  have sd: "same_disk ecc path cs cc (env (store s)) ?e" using store_mallocs [OF _ b(3)] by (simp add: same_disk_def)
  obtain junk where j: "head_at b 48 = Some junk" using b(2) by (simp add: head_at_def get_int_def mem_read_def)
  let ?a = "view_fresh (vm s)" and ?v = "\<lparr>viewid = int i, cluster = (case c of None \<Rightarrow> junk | Some c \<Rightarrow> c)\<rparr>"
  define s1 where "s1 = set_view ?a ?v (s\<lparr>store := (store s)\<lparr>env := ?e\<rparr>, vm := (vm s)\<lparr>view_fresh := ?a + 1\<rparr>\<rparr>)"
  have n: "new_view (int i) c s = Some (Some ?a, s1)" using b(1) j by (simp add: new_view_def s1_def Let_def)
  have fr: "views (vm s) ?a = None" using g by (auto simp: growing_def)
  have sh: "view_shelf (root_of_view_tree (vm s)) [] (idlelist (vm s)) (views (vm s)) i" using g by (simp add: growing_def)
  obtain t' where t: "avlinsert (root_of_view_tree (vm s)) (Some (int i, ?a)) (Some evfs_view_compare) = Some t'"
    "view_shelf t' [] (idlelist (vm s) @ [?a]) ((views (vm s))(?a \<mapsto> ?v)) (i + 1)"
    using shelf_view_add [OF sh fr, of ?v] i by auto
  define s' where "s' = s1\<lparr>vm := (vm s1)\<lparr>idlelist := idlelist (vm s1) @ [?a], root_of_view_tree := t', count_of_idle_views := count_of_idle_views (vm s1) + 1\<rparr>\<rparr>"
  have f: "vm s' = (vm s)\<lparr>view_fresh := ?a + 1, views := (views (vm s))(?a \<mapsto> ?v), idlelist := idlelist (vm s) @ [?a], root_of_view_tree := t',
      count_of_idle_views := count_of_idle_views (vm s) + 1\<rparr>" "store s' = (store s)\<lparr>env := ?e\<rparr>"
    by (simp_all add: s'_def s1_def set_view_def)
  have ins: "evfs_view_insert_new_idle ?a s1 = Some s'" using t(1) by (simp add: evfs_view_insert_new_idle_def s'_def s1_def set_view_def)
  have "P ?v" by (rule P) (auto split: option.split)
  then have "\<forall>b \<in> set (idlelist (vm s) @ [?a]). \<exists>v. ((views (vm s))(?a \<mapsto> ?v)) b = Some v \<and> P v" using g by (auto simp: growing_def)
  moreover have "\<forall>b \<in> dom ((views (vm s))(?a \<mapsto> ?v)). b < ?a + 1" using g by (auto simp: growing_def less_Suc_eq)
  ultimately have "growing ecc path P s' cs cc V (i + 1)" using g t(2) serving_disk [OF se sd] by (simp add: growing_def f)
  then show ?thesis using n ins sd by (auto simp: f)
qed

text \<open>A manager of all clusters has as many views.\<close>

lemma shelf_view_count:
  assumes sh: "view_shelf t B I N cc"
  shows "length (B @ I) = cc - 1"
proof -
  let ?f = "\<lambda>a. nat (viewid (the (N a)))"
  have v: "\<exists>v. N a = Some v" if "a \<in> set (B @ I)" for a using sh that by (auto simp: view_shelf_def)
  have "inj_on ?f (set (B @ I))"
  proof (rule inj_onI)
    fix a b assume ab: "a \<in> set (B @ I)" "b \<in> set (B @ I)" "?f a = ?f b"
    obtain v w where "N a = Some v" "N b = Some w" using v [OF ab(1)] v [OF ab(2)] by blast
    then show "a = b" using shelf_view_inj [OF sh, of a b v w] ab by auto
  qed
  moreover have "?f ` set (B @ I) = {1 ..< cc}"
  proof
    show "?f ` set (B @ I) \<subseteq> {1 ..< cc}"
    proof
      fix c assume "c \<in> ?f ` set (B @ I)"
      then obtain a where a: "a \<in> set B \<union> set I" "c = ?f a" by auto
      then obtain w where w: "N a = Some w" using v [of a] by auto
      show "c \<in> {1 ..< cc}" using shelf_view_id [OF sh a(1) w] a(2) w by simp
    qed
    show "{1 ..< cc} \<subseteq> ?f ` set (B @ I)"
    proof
      fix c assume "c \<in> {1 ..< cc}"
      then have "index_of t (int c) \<noteq> None" using sh unfolding view_shelf_def by auto
      then obtain a where "index_of t (int c) = Some a" by auto
      then have "a \<in> set B \<union> set I" "\<exists>w. N a = Some w \<and> viewid w = int c" unfolding shelf_view_index [OF sh] by auto
      then show "c \<in> ?f ` set (B @ I)" by force
    qed
  qed
  ultimately have "card (set (B @ I)) = cc - 1" using card_image [of ?f "set (B @ I)"] by simp
  then show ?thesis using sh distinct_card [of "B @ I"] by (simp add: view_shelf_def)
qed

lemma create_loop_spec:
  assumes "growing ecc path (\<lambda>v. True) s cs cc V i" "0 < i"
  shows "\<exists>s'. create_loop k (int i) s = Some (0, s') \<and> growing ecc path (\<lambda>v. True) s' cs cc V (i + k) \<and> total_cluster_count (vm s') = total_cluster_count (vm s)"
  using assms
proof (induction k arbitrary: s i)
  case (Suc k)
  obtain a s1 s2 where 1: "new_view (int i) None s = Some (Some a, s1)" "evfs_view_insert_new_idle a s1 = Some s2"
    "growing ecc path (\<lambda>v. True) s2 cs cc V (i + 1)" "total_cluster_count (vm s2) = total_cluster_count (vm s)"
    using new_view_run [OF Suc.prems, of None] by blast
  obtain s' where "create_loop k (int (i + 1)) s2 = Some (0, s')" "growing ecc path (\<lambda>v. True) s' cs cc V (i + 1 + k)"
    "total_cluster_count (vm s') = total_cluster_count (vm s2)"
    using Suc.IH [OF 1(3)] by auto
  then show ?case using 1 by (intro exI [of _ s']) (simp add: add.commute)
qed (auto simp: NSP_STATUS_SUCCESSFUL_def)

text \<open>The views loaded from a file have the heads of their clusters.\<close>

definition loaded :: "(nat \<Rightarrow> bytes) \<Rightarrow> evfs_view_node \<Rightarrow> bool" where
  "loaded V v \<longleftrightarrow> head_at (V (nat (viewid v))) 0 = Some (cluster v)"

lemma load_loop_spec:
  assumes "growing ecc path (loaded V) s cs cc V i" "store_holds ecc path (env (store s)) cs cc V" "0 < i" "i + k \<le> cc" "length buf = 12"
  shows "\<exists>s'. load_loop k (int i) buf s = Some (0, s') \<and> growing ecc path (loaded V) s' cs cc V (i + k) \<and>
    total_cluster_count (vm s') = total_cluster_count (vm s) \<and> store_holds ecc path (env (store s')) cs cc V"
  using assms
proof (induction k arbitrary: s i buf)
  case (Suc k)
  have se: "serving ecc path (store s) cs cc V" using Suc.prems(1) by (simp add: growing_def)
  have i: "i < cc" using Suc.prems(4) by simp
  have l: "length (V i) = cs" "32 \<le> cs" using serving_length [OF se i] by auto
  have buf: "12 \<le> length buf" using Suc.prems(5) by simp
  obtain c where c: "evfs_cache_read_head_directly (int i) (Some buf) (store s) = Some (0, Some (take 12 (V i)), c)" "serving ecc path c cs cc V"
    "store_holds ecc path (env c) cs cc V"
    using read_head_directly_served [OF se Suc.prems(2,3) i buf] Suc.prems(5) by auto
  obtain h where h: "head_at (V i) 0 = Some h" "head_bytes h = take 12 (V i)" "head_range h" using head_at_Some [of "V i"] l by auto
  have h0: "head_at (take 12 (V i)) 0 = Some h" using head_at_bytes [OF h(3), of "[]"] h(2) by simp
  let ?s = "s\<lparr>store := c\<rparr>"
  have g: "growing ecc path (loaded V) ?s cs cc V i" using Suc.prems(1) c(2) by (simp add: growing_def)
  obtain a s1 s2 where 1: "new_view (int i) (Some h) ?s = Some (Some a, s1)" "evfs_view_insert_new_idle a s1 = Some s2"
    "growing ecc path (loaded V) s2 cs cc V (i + 1)" "total_cluster_count (vm s2) = total_cluster_count (vm s)"
    "same_disk ecc path cs cc (env c) (env (store s2))"
    using new_view_run [OF g Suc.prems(3), of "Some h"] h(1) by (auto simp: loaded_def)
  have st: "store_holds ecc path (env (store s2)) cs cc V" using 1(5) c(3) by (simp add: same_disk_def)
  obtain s' where "load_loop k (int (i + 1)) (take 12 (V i)) s2 = Some (0, s')" "growing ecc path (loaded V) s' cs cc V (i + 1 + k)"
    "total_cluster_count (vm s') = total_cluster_count (vm s2)" "store_holds ecc path (env (store s')) cs cc V"
    using Suc.IH [OF 1(3) st, of "take 12 (V i)"] Suc.prems(4) l by auto
  then show ?case using 1 c(1) h0 by (intro exI [of _ s']) (simp add: add.commute error_not_success)
qed (auto simp: NSP_STATUS_SUCCESSFUL_def)

text \<open>Sorting out the busy views.\<close>

lemma recognize_spec:
  assumes "\<And>a. a \<in> set as \<Longrightarrow> views m a \<noteq> None"
  defines "looks \<equiv> \<lambda>a. evfs_cluster_looks_like_busy (cluster (the (views m a)))"
  shows "vm s = m\<lparr>idlelist := I, count_of_idle_views := ni, busylist := B, count_of_busy_views := nb\<rparr> \<Longrightarrow>
    recognize_loop None as (s, w) = Some (s\<lparr>vm := m\<lparr>idlelist := fold remove1 (filter looks as) I, count_of_idle_views := ni - int (length (filter looks as)),
      busylist := B @ filter looks as, count_of_busy_views := nb + int (length (filter looks as))\<rparr>\<rparr>, w)"
  using assms(1)
proof (induction as arbitrary: s I ni B nb)
  case (Cons a as)
  obtain v where v: "views m a = Some v" using Cons.prems(2) by fastforce
  show ?case
  proof (cases "looks a")
    case True
    define s1 where "s1 = s\<lparr>vm := m\<lparr>idlelist := remove1 a I, count_of_idle_views := ni - 1, busylist := B @ [a], count_of_busy_views := nb + 1\<rparr>\<rparr>"
    have "recognize_loop None (a # as) (s, w) = recognize_loop None as (s1, w)"
      using True v Cons.prems(1) by (simp add: looks_def s1_def)
    then show ?thesis using Cons.IH [where s = s1 and I = "remove1 a I" and ni = "ni - 1" and B = "B @ [a]" and nb = "nb + 1"] Cons.prems(2) True by (simp add: s1_def)
  next
    case False
    then have "recognize_loop None (a # as) (s, w) = recognize_loop None as (s, w)"
      using v Cons.prems(1) by (simp add: looks_def)
    then show ?thesis using Cons.IH [OF Cons.prems(1)] Cons.prems(2) False by simp
  qed
qed simp

lemma fold_remove1_filter: "distinct xs \<Longrightarrow> fold remove1 (filter P ys) xs = filter (\<lambda>x. \<not> (P x \<and> x \<in> set ys)) xs"
  by (induction ys arbitrary: xs) (auto simp: distinct_remove1_removeAll removeAll_filter_not_eq intro!: filter_cong)

text \<open>A manager that is not started.\<close>

definition views_asleep :: "evfs_view_mgr \<Rightarrow> bool" where
  "views_asleep m \<longleftrightarrow> total_cluster_count m = 0 \<and> busylist m = [] \<and> idlelist m = [] \<and> count_of_busy_views m = 0 \<and> count_of_idle_views m = 0 \<and>
     index_ok (root_of_view_tree m) \<and> (\<forall>c. index_of (root_of_view_tree m) c = None) \<and> (\<forall>a \<in> dom (views m). a < view_fresh m)"

lemma asleep_growing:
  assumes "views_asleep (vm s)" "serving ecc path c cs cc V"
  shows "growing ecc path P (s\<lparr>store := c, vm := (vm s)\<lparr>total_cluster_count := n\<rparr>\<rparr>) cs cc V 1"
  using assms by (simp add: growing_def views_asleep_def view_shelf_def)

lemma create_run:
  assumes "views_asleep (vm s)" "serving ecc path (store s) cs cc V" "1 < cc" "\<And>c. 0 < c \<Longrightarrow> c < cc \<Longrightarrow> V c = replicate cs 0"
  shows "\<exists>s'. evfs_view_create s = Some (0, s') \<and> view_inv ecc path s' cs cc V \<and> busylist (vm s') = [] \<and> length (idlelist (vm s')) = cc - 1"
proof -
  obtain stat c where c: "evfs_cache_hard_state True (store s) = Some (0, Some stat, c)" "hard_cluster_size stat = int cs" "hard_cluster_count stat = int cc - 1"
    "hard_max_data_seg_size stat = int cs - 12" "serving ecc path c cs cc V"
    using hard_state_served [OF assms(2)] by blast
  let ?s = "s\<lparr>store := c, vm := (vm s)\<lparr>total_cluster_count := int cc - 1\<rparr>\<rparr>"
  have n: "nat (int cc - 1) = cc - 1" using assms(3) by simp
  obtain s1 where 1: "create_loop (cc - 1) 1 ?s = Some (0, s1)" "growing ecc path (\<lambda>v. True) s1 cs cc V cc" "total_cluster_count (vm s1) = int cc - 1"
    using create_loop_spec [OF asleep_growing [OF assms(1) c(5)], where k = "cc - 1"] assms(3) by auto
  define s' where "s' = s1\<lparr>vm := (vm s1)\<lparr>view_cluster_size := int cs, view_max_data_seg_size := int cs - 12\<rparr>\<rparr>"
  have "evfs_view_create s = Some (0, s')"
    using assms(1) c(1-4) 1(1) n by (simp add: evfs_view_create_def views_asleep_def s'_def error_not_success Let_def)
  moreover have sh: "view_shelf (root_of_view_tree (vm s1)) [] (idlelist (vm s1)) (views (vm s1)) cc" using 1(2) by (simp add: growing_def)
  have l: "32 \<le> cs" using serving_length(2) [OF assms(2), of 0] assms(3) by simp
  then have z: "replicate cs 0 = head_bytes zero_head @ replicate (cs - 12) (0 :: u8)"
    using zero_head_bytes(1) replicate_add [of 12 "cs - 12" "0 :: u8"] by simp
  have "idle_ok (views (vm s1)) V a" if "a \<in> set (idlelist (vm s1))" for a
  proof -
    have m: "a \<in> set [] \<union> set (idlelist (vm s1))" using that by simp
    obtain v where v: "views (vm s1) a = Some v" by (rule shelf_view [OF sh m])
    have "V (nat (viewid v)) = replicate cs 0" using assms(4) shelf_view_id(2,3) [OF sh m v] by blast
    then show ?thesis using idle_zero [of "replicate (cs - 12) 0"] v z by (auto simp: idle_ok_def)
  qed
  then have "view_inv ecc path s' cs cc V"
    using 1(2,3) sh assms(3) by (simp add: view_inv_def views_ok_def view_counts_def s'_def growing_def)
  moreover have "busylist (vm s') = []" using 1(2) by (simp add: growing_def s'_def)
  moreover have "length (idlelist (vm s')) = cc - 1" using shelf_view_count [OF sh] by (simp add: s'_def)
  ultimately show ?thesis by blast
qed

text \<open>Stopping releases every view.\<close>

definition indexed :: "(int \<times> nat) avltree \<Rightarrow> nat list \<Rightarrow> (nat \<rightharpoonup> evfs_view_node) \<Rightarrow> bool" where
  "indexed t L N \<longleftrightarrow> index_ok t \<and> distinct L \<and> (\<forall>a \<in> set L. N a \<noteq> None) \<and>
     (\<forall>c a. index_of t c = Some a \<longleftrightarrow> a \<in> set L \<and> (\<exists>v. N a = Some v \<and> viewid v = c))"

lemma indexed_drop:
  assumes ix: "indexed t (a # L) N" and v: "N a = Some v"
  shows "\<exists>t'. avlremove t (Some (viewid v, a)) None (Some evfs_view_compare) = Some (t', None) \<and> indexed t' L (N(a := None))"
proof -
  obtain t' where t: "avlremove t (Some (viewid v, a)) None (Some evfs_view_compare) = Some (t', None)" "index_ok t'"
    "index_of t' = (index_of t)(viewid v := None)"
    using index_remove [of t "viewid v" a] ix index_of_update(2) unfolding view_compare_same by (fastforce simp: indexed_def)
  have a: "a \<notin> set L" using ix by (simp add: indexed_def)
  have iv: "index_of t c = Some b \<longleftrightarrow> b \<in> set (a # L) \<and> (\<exists>w. N b = Some w \<and> viewid w = c)" for c b using ix unfolding indexed_def by blast
  have "index_of t' c = Some b \<longleftrightarrow> b \<in> set L \<and> (\<exists>w. (N(a := None)) b = Some w \<and> viewid w = c)" for c b
    unfolding t(3) using iv [of c b] iv [of "viewid v" a] a v by (cases "c = viewid v"; cases "b = a") auto
  then have "indexed t' L (N(a := None))" using t(2) ix a unfolding indexed_def by auto
  then show ?thesis using t(1) by blast
qed

lemma release_busy_spec:
  assumes "indexed (root_of_view_tree (vm s)) (B @ I) (views (vm s))" "busylist (vm s) = B" "count_of_busy_views (vm s) = int (length B)"
  shows "\<exists>t N. release_busy_views B s = Some (s\<lparr>vm := (vm s)\<lparr>views := N, root_of_view_tree := t, busylist := [], count_of_busy_views := 0\<rparr>\<rparr>) \<and>
    indexed t I N \<and> dom N \<subseteq> dom (views (vm s))"
  using assms
proof (induction B arbitrary: s)
  case Nil
  then show ?case by (intro exI [of _ "root_of_view_tree (vm s)"] exI [of _ "views (vm s)"]) simp
next
  case (Cons a B)
  obtain v where v: "views (vm s) a = Some v" using Cons.prems(1) by (auto simp: indexed_def)
  obtain t where t: "avlremove (root_of_view_tree (vm s)) (Some (viewid v, a)) None (Some evfs_view_compare) = Some (t, None)"
    "indexed t (B @ I) ((views (vm s))(a := None))"
    using indexed_drop [of _ a "B @ I" "views (vm s)", OF _ v] Cons.prems(1) unfolding append_Cons by blast
  define s1 where "s1 = free_view a (s\<lparr>vm := (vm s)\<lparr>busylist := remove1 a (busylist (vm s)), count_of_busy_views := count_of_busy_views (vm s) - 1,
    root_of_view_tree := t\<rparr>\<rparr>)"
  have f: "root_of_view_tree (vm s1) = t" "views (vm s1) = (views (vm s))(a := None)" "busylist (vm s1) = B" "count_of_busy_views (vm s1) = int (length B)"
    using Cons.prems(2,3) by (simp_all add: s1_def free_view_def del: fun_upd_apply)
  obtain t' N where r: "release_busy_views B s1 = Some (s1\<lparr>vm := (vm s1)\<lparr>views := N, root_of_view_tree := t', busylist := [], count_of_busy_views := 0\<rparr>\<rparr>)"
    "indexed t' I N" "dom N \<subseteq> dom (views (vm s1))"
    using Cons.IH [of s1] t(2) unfolding f by blast
  have "dom N \<subseteq> dom (views (vm s))" using r(3) unfolding f by (rule order_trans) auto
  then show ?case using v t(1) r(1,2) by (intro exI [of _ t'] exI [of _ N]) (simp add: s1_def free_view_def)
qed

lemma release_idle_views_spec:
  assumes "indexed (root_of_view_tree (vm s)) I (views (vm s))" "idlelist (vm s) = I" "count_of_idle_views (vm s) = int (length I)"
  shows "\<exists>t N. release_idle_views 1 I s = Some (s\<lparr>vm := (vm s)\<lparr>views := N, root_of_view_tree := t, idlelist := [], count_of_idle_views := 0\<rparr>\<rparr>) \<and>
    indexed t [] N \<and> dom N \<subseteq> dom (views (vm s))"
  using assms
proof (induction I arbitrary: s)
  case Nil
  then show ?case by (intro exI [of _ "root_of_view_tree (vm s)"] exI [of _ "views (vm s)"]) simp
next
  case (Cons a I)
  obtain v where v: "views (vm s) a = Some v" using Cons.prems(1) by (auto simp: indexed_def)
  obtain t where t: "avlremove (root_of_view_tree (vm s)) (Some (viewid v, a)) None (Some evfs_view_compare) = Some (t, None)"
    "indexed t I ((views (vm s))(a := None))"
    using indexed_drop [OF Cons.prems(1) v] by blast
  define s1 where "s1 = free_view a (s\<lparr>vm := (vm s)\<lparr>idlelist := remove1 a (idlelist (vm s)), root_of_view_tree := t,
    count_of_idle_views := count_of_idle_views (vm s) - 1\<rparr>\<rparr>)"
  have f: "root_of_view_tree (vm s1) = t" "views (vm s1) = (views (vm s))(a := None)" "idlelist (vm s1) = I" "count_of_idle_views (vm s1) = int (length I)"
    using Cons.prems(2,3) by (simp_all add: s1_def free_view_def del: fun_upd_apply)
  obtain t' N where r: "release_idle_views 1 I s1 = Some (s1\<lparr>vm := (vm s1)\<lparr>views := N, root_of_view_tree := t', idlelist := [], count_of_idle_views := 0\<rparr>\<rparr>)"
    "indexed t' [] N" "dom N \<subseteq> dom (views (vm s1))"
    using Cons.IH [of s1] t(2) unfolding f by blast
  have "dom N \<subseteq> dom (views (vm s))" using r(3) unfolding f by (rule order_trans) auto
  then show ?case using v t(1) r(1,2) by (intro exI [of _ t'] exI [of _ N]) (simp add: s1_def free_view_def)
qed

lemma view_uninit_run:
  assumes inv: "view_inv ecc path s cs cc V"
  shows "\<exists>m. evfs_view_uninit s = Some (s\<lparr>vm := m\<rparr>) \<and> views_asleep m"
proof -
  note sh = inv_shelf [OF inv] and ct = inv_counts [OF inv]
  let ?s = "s\<lparr>vm := (vm s)\<lparr>total_cluster_count := 0\<rparr>\<rparr>"
  have ix: "indexed (root_of_view_tree (vm s)) (busylist (vm s) @ idlelist (vm s)) (views (vm s))"
    using sh unfolding view_shelf_def indexed_def by auto
  obtain t N where 1: "release_busy_views (busylist (vm s)) ?s = Some (?s\<lparr>vm := (vm ?s)\<lparr>views := N, root_of_view_tree := t, busylist := [], count_of_busy_views := 0\<rparr>\<rparr>)"
    "indexed t (idlelist (vm s)) N" "dom N \<subseteq> dom (views (vm s))"
    using release_busy_spec [of ?s "busylist (vm s)" "idlelist (vm s)"] ix ct by (auto simp: view_counts_def)
  let ?s1 = "?s\<lparr>vm := (vm ?s)\<lparr>views := N, root_of_view_tree := t, busylist := [], count_of_busy_views := 0\<rparr>\<rparr>"
  obtain t' N' where 2: "release_idle_views 1 (idlelist (vm s)) ?s1 =
      Some (?s1\<lparr>vm := (vm ?s1)\<lparr>views := N', root_of_view_tree := t', idlelist := [], count_of_idle_views := 0\<rparr>\<rparr>)" "indexed t' [] N'" "dom N' \<subseteq> dom N"
    using release_idle_views_spec [of ?s1 "idlelist (vm s)"] 1(2) ct by (auto simp: view_counts_def)
  have "index_of t' c = None" for c using 2(2) unfolding indexed_def by (cases "index_of t' c") auto
  moreover have "dom N' \<subseteq> dom (views (vm s))" using 1(3) 2(3) by (rule order_trans [rotated])
  ultimately have "views_asleep (vm (?s1\<lparr>vm := (vm ?s1)\<lparr>views := N', root_of_view_tree := t', idlelist := [], count_of_idle_views := 0\<rparr>\<rparr>))"
    using 2(2) ct by (auto simp: views_asleep_def indexed_def view_counts_def)
  moreover have "evfs_view_uninit s = Some (?s1\<lparr>vm := (vm ?s1)\<lparr>views := N', root_of_view_tree := t', idlelist := [], count_of_idle_views := 0\<rparr>\<rparr>)"
    using 1(1) 2(1) ct by (simp add: evfs_view_uninit_def view_counts_def Let_def)
  ultimately show ?thesis by auto
qed

text \<open>The clusters in use on the disk.\<close>

definition disk_heads :: "(nat \<Rightarrow> bytes) \<Rightarrow> nat \<Rightarrow> int \<Rightarrow> evfs_cluster option" where
  "disk_heads V cc c =
     (if 0 < c \<and> c < int cc then
        (case head_at (V (nat c)) 0 of None \<Rightarrow> None | Some h \<Rightarrow> if evfs_cluster_looks_like_busy h then Some h else None)
      else None)"

definition all_look_busy :: "evfs_view_mgr \<Rightarrow> bool" where
  "all_look_busy m \<longleftrightarrow> (\<forall>a \<in> set (busylist m). \<forall>v. views m a = Some v \<longrightarrow> evfs_cluster_looks_like_busy (cluster v))"

lemma busy_head_at:
  assumes inv: "view_inv ecc path s cs cc V" and a: "a \<in> set (busylist (vm s))" "get_view s a = Some v"
  shows "head_at (V (nat (viewid v))) 0 = Some (cluster v)"
proof -
  have "nat (viewid v) < cc" using shelf_view_id(3) [OF inv_shelf [OF inv] _ a(2)] a(1) by simp
  then have "12 \<le> length (V (nat (viewid v)))" using serving_length [OF inv_serving [OF inv]] by fastforce
  then show ?thesis using head_at_take inv_busy [OF inv a(1)] a(2) by (auto simp: busy_ok_def)
qed

lemma busy_heads_disk:
  assumes inv: "view_inv ecc path s cs cc V" and b: "all_look_busy (vm s)"
  shows "busy_heads (vm s) = disk_heads V cc"
proof
  fix c
  note sh = inv_shelf [OF inv]
  show "busy_heads (vm s) c = disk_heads V cc c"
  proof (cases "index_of (root_of_view_tree (vm s)) c")
    case None
    then have "\<not> (0 < c \<and> c < int cc)" using sh unfolding view_shelf_def by blast
    then show ?thesis using None by (auto simp: busy_heads_def disk_heads_def)
  next
    case (Some a)
    then obtain v where v: "a \<in> set (busylist (vm s)) \<union> set (idlelist (vm s))" "get_view s a = Some v" "viewid v = c"
      unfolding shelf_view_index [OF sh] by blast
    have c: "0 < c" "c < int cc" using shelf_view_id [OF sh v(1,2)] v(3) by auto
    show ?thesis
    proof (cases "a \<in> set (busylist (vm s))")
      case True
      then show ?thesis using busy_head_at [OF inv True v(2)] b v(2,3) Some c by (simp add: busy_heads_def disk_heads_def all_look_busy_def)
    next
      case False
      then have "idle_bytes (V (nat c))" using inv_idle [OF inv, of a] v by (auto simp: idle_ok_def)
      then show ?thesis using False Some by (auto simp: busy_heads_def disk_heads_def idle_bytes_def split: option.split)
    qed
  qed
qed

lemma view_shelf_split:
  assumes sh: "view_shelf t B I N cc" and "set B' \<union> set I' = set B \<union> set I" "distinct (B' @ I')"
  shows "view_shelf t B' I' N cc"
  using assms(1,3) unfolding view_shelf_def assms(2) by blast

lemma loaded_ok:
  assumes "serving ecc path s cs cc V" "loaded V v" "nat (viewid v) < cc"
  shows "head_range (cluster v)" "take 12 (V (nat (viewid v))) = head_bytes (cluster v)"
proof -
  have "12 \<le> length (V (nat (viewid v)))" using serving_length [OF assms(1,3)] by simp
  from head_at_Some [OF this] show "head_range (cluster v)" "take 12 (V (nat (viewid v))) = head_bytes (cluster v)"
    using assms(2) by (auto simp: loaded_def)
qed

text \<open>The views after loading, before and after the busy ones are sorted out.\<close>

definition sorted_out :: "evfs_view_mgr \<Rightarrow> evfs_view_mgr" where
  "sorted_out m = (let looks = (\<lambda>a. evfs_cluster_looks_like_busy (cluster (the (views m a)))) in
     m\<lparr>idlelist := filter (\<lambda>a. \<not> looks a) (idlelist m), count_of_idle_views := int (length (filter (\<lambda>a. \<not> looks a) (idlelist m))),
       busylist := filter looks (idlelist m), count_of_busy_views := int (length (filter looks (idlelist m)))\<rparr>)"

definition sized :: "nat \<Rightarrow> evfs_view_mgr \<Rightarrow> evfs_view_mgr" where
  "sized cs m = m\<lparr>view_cluster_size := int cs, view_max_data_seg_size := int cs - 12\<rparr>"

lemma load_begin:
  assumes "views_asleep (vm s)" "serving ecc path (store s) cs cc V" "store_holds ecc path (env (store s)) cs cc V" "1 < cc" "length buf = 12"
  shows "\<exists>s1. growing ecc path (loaded V) s1 cs cc V cc \<and> total_cluster_count (vm s1) = int cc - 1 \<and>
    (\<forall>on_loaded w. evfs_view_load buf on_loaded (s, w) =
      do { (s, w) \<leftarrow> recognize_loop on_loaded (idlelist (vm s1)) (s1, w); Some (0, s\<lparr>vm := sized cs (vm s)\<rparr>, w) })"
proof -
  obtain stat c where c: "evfs_cache_hard_state True (store s) = Some (0, Some stat, c)" "hard_cluster_size stat = int cs" "hard_cluster_count stat = int cc - 1"
    "hard_max_data_seg_size stat = int cs - 12" "serving ecc path c cs cc V" "same_disk ecc path cs cc (env (store s)) (env c)"
    using hard_state_served [OF assms(2)] by blast
  let ?s = "s\<lparr>store := c, vm := (vm s)\<lparr>total_cluster_count := int cc - 1\<rparr>\<rparr>"
  have st: "store_holds ecc path (env (store ?s)) cs cc V" using c(6) assms(3) by (simp add: same_disk_def)
  have n: "nat (int cc - 1) = cc - 1" "1 + (cc - 1) = cc" using assms(4) by simp_all
  obtain s1 where 1: "load_loop (cc - 1) 1 buf ?s = Some (0, s1)" "growing ecc path (loaded V) s1 cs cc V cc" "total_cluster_count (vm s1) = int cc - 1"
    using load_loop_spec [OF asleep_growing [OF assms(1) c(5)] st, where k = "cc - 1" and buf = buf] assms(5) n by auto
  then show ?thesis using assms(1) c(1-4) n(1)
    by (intro exI [of _ s1]) (simp add: evfs_view_load_def views_asleep_def error_not_success evfs_view_recognize_and_move_to_busy_def Let_def sized_def)
qed

lemma recognize_sorts:
  assumes "growing ecc path (loaded V) s1 cs cc V cc"
  shows "recognize_loop None (idlelist (vm s1)) (s1, w) = Some (s1\<lparr>vm := sorted_out (vm s1)\<rparr>, w)"
proof -
  define looks where "looks = (\<lambda>a. evfs_cluster_looks_like_busy (cluster (the (views (vm s1) a))))"
  let ?I = "idlelist (vm s1)" let ?B = "filter looks ?I" and ?J = "filter (\<lambda>a. \<not> looks a) ?I"
  have sh: "view_shelf (root_of_view_tree (vm s1)) [] ?I (views (vm s1)) cc" and l: "\<forall>a \<in> set ?I. \<exists>v. views (vm s1) a = Some v \<and> loaded V v"
    using assms by (simp_all add: growing_def)
  have d: "distinct ?I" using sh by (simp add: view_shelf_def)
  have len: "int (length ?I) - int (length ?B) = int (length ?J)" using sum_length_filter_compl [of looks ?I] by linarith
  have J: "fold remove1 ?B ?I = ?J" using fold_remove1_filter [OF d, of looks ?I] by (simp cong: filter_cong)
  show ?thesis
    using recognize_spec [of ?I "vm s1", where s = s1 and I = ?I and ni = "int (length ?I)" and B = "[]" and nb = 0 and w = w] l assms len J
    unfolding looks_def [symmetric] sorted_out_def Let_def by (fastforce simp: growing_def)
qed

lemma sorted_out_inv:
  assumes g: "growing ecc path (loaded V) s1 cs cc V cc" and t: "total_cluster_count (vm s1) = int cc - 1" "1 < cc" and c: "serving ecc path c cs cc V"
  shows "view_inv ecc path (s1\<lparr>vm := sized cs (sorted_out (vm s1)), store := c\<rparr>) cs cc V" "all_look_busy (sized cs (sorted_out (vm s1)))"
proof -
  define looks where "looks = (\<lambda>a. evfs_cluster_looks_like_busy (cluster (the (views (vm s1) a))))"
  define m where "m = sized cs (sorted_out (vm s1))"
  let ?I = "idlelist (vm s1)" let ?B = "filter looks ?I" and ?J = "filter (\<lambda>a. \<not> looks a) ?I"
  have f: "idlelist m = ?J" "busylist m = ?B" "views m = views (vm s1)" "root_of_view_tree m = root_of_view_tree (vm s1)" "count_of_idle_views m = int (length ?J)"
    "count_of_busy_views m = int (length ?B)" "total_cluster_count m = int cc - 1" "view_cluster_size m = int cs" "view_max_data_seg_size m = int cs - 12" "view_fresh m = view_fresh (vm s1)"
    using t(1) by (simp_all add: m_def sized_def sorted_out_def looks_def Let_def)
  have sh: "view_shelf (root_of_view_tree (vm s1)) [] ?I (views (vm s1)) cc" and l: "\<forall>a \<in> set ?I. \<exists>v. views (vm s1) a = Some v \<and> loaded V v"
    and fr: "\<forall>a \<in> dom (views (vm s1)). a < view_fresh (vm s1)" using g by (simp_all add: growing_def)
  have d: "distinct ?I" using sh by (simp add: view_shelf_def)
  let ?s = "s1\<lparr>vm := m, store := c\<rparr>"
  have "view_inv ecc path ?s cs cc V"
  proof (rule view_invI)
    show "serving ecc path (store ?s) cs cc V" using c by simp
    show "view_counts (vm ?s) cs cc" using f t fr by (simp add: view_counts_def)
    have "view_shelf (root_of_view_tree (vm s1)) ?B ?J (views (vm s1)) cc"
      by (rule view_shelf_split [OF sh]) (use d in auto)
    then show "view_shelf (root_of_view_tree (vm ?s)) (busylist (vm ?s)) (idlelist (vm ?s)) (views (vm ?s)) cc" by (simp add: f)
    fix a assume "a \<in> set (busylist (vm ?s))"
    then have "a \<in> set ?I" by (simp add: f)
    then show "busy_ok (views (vm ?s)) V a" using l loaded_ok [OF c] shelf_view_id(3) [OF sh] by (fastforce simp: f busy_ok_def)
  next
    fix a assume "a \<in> set (idlelist (vm ?s))"
    then have a: "a \<in> set ?I" "\<not> looks a" by (simp_all add: f)
    obtain v where "views (vm s1) a = Some v" "loaded V v" using l a(1) by blast
    then show "idle_ok (views (vm ?s)) V a" using a(2) by (auto simp: f looks_def idle_ok_def idle_bytes_def loaded_def)
  qed
  then show "view_inv ecc path (s1\<lparr>vm := sized cs (sorted_out (vm s1)), store := c\<rparr>) cs cc V" by (simp add: m_def)
  have "all_look_busy m" by (auto simp: all_look_busy_def f looks_def)
  then show "all_look_busy (sized cs (sorted_out (vm s1)))" by (simp add: m_def)
qed

lemma load_run:
  fixes w :: 'a
  assumes "views_asleep (vm s)" "serving ecc path (store s) cs cc V" "store_holds ecc path (env (store s)) cs cc V" "1 < cc" "length buf = 12"
  shows "\<exists>s'. evfs_view_load buf None (s, w) = Some (0, s', w) \<and> view_inv ecc path s' cs cc V \<and> all_look_busy (vm s')"
proof -
  obtain s1 where 1: "growing ecc path (loaded V) s1 cs cc V cc" "total_cluster_count (vm s1) = int cc - 1"
    "\<forall>on_loaded w'. evfs_view_load buf on_loaded (s, w') =
      do { (s, w) \<leftarrow> recognize_loop on_loaded (idlelist (vm s1)) (s1, w'); Some (0, s\<lparr>vm := sized cs (vm s)\<rparr>, w :: 'a) }"
    using load_begin [OF assms] by (elim exE conjE) (rule that)
  have c: "serving ecc path (store s1) cs cc V" using 1(1) by (simp add: growing_def)
  show ?thesis using 1(3) [rule_format, of None w] recognize_sorts [OF 1(1), of w] sorted_out_inv [OF 1(1,2) assms(4) c] by simp
qed

text \<open>Acquiring several views.\<close>

definition view_ids :: "evfs_view_mgr \<Rightarrow> nat list \<Rightarrow> nat set" where
  "view_ids m as = {c. \<exists>a \<in> set as. \<exists>v. views m a = Some v \<and> nat (viewid v) = c}"

definition cleared :: "nat set \<Rightarrow> nat \<Rightarrow> (nat \<Rightarrow> bytes) \<Rightarrow> nat \<Rightarrow> bytes" where
  "cleared C cs V c = (if c \<in> C then replicate cs 0 else V c)"

lemma view_ids_Cons: "views m a = Some v \<Longrightarrow> view_ids m (a # as) = insert (nat (viewid v)) (view_ids m as)"
  by (auto simp: view_ids_def)

lemma view_ids_update: "views m a = Some v \<Longrightarrow> view_ids (m\<lparr>views := (views m)(a \<mapsto> v\<lparr>cluster := h\<rparr>), idlelist := I, count_of_idle_views := n,
    busylist := B, count_of_busy_views := k\<rparr>) as = view_ids m as"
  unfolding view_ids_def by (intro Collect_cong bex_cong) auto

lemma cleared_insert: "cleared (insert c C) cs V = cleared C cs (V(c := replicate cs 0))"
  by (auto simp: cleared_def)

lemma acquire_loop_spec:
  assumes "view_inv ecc path s cs cc V" "k \<le> length (idlelist (vm s))"
  shows "\<exists>s'. acquire_loop k s = Some (take k (idlelist (vm s)), False, s') \<and>
    view_inv ecc path s' cs cc (cleared (view_ids (vm s) (take k (idlelist (vm s)))) cs V) \<and>
    busylist (vm s') = busylist (vm s) @ take k (idlelist (vm s)) \<and> idlelist (vm s') = drop k (idlelist (vm s)) \<and>
    root_of_view_tree (vm s') = root_of_view_tree (vm s) \<and>
    views (vm s') = (\<lambda>a. if a \<in> set (take k (idlelist (vm s))) then map_option (\<lambda>v. v\<lparr>cluster := zero_head\<rparr>) (get_view s a) else get_view s a)"
  using assms
proof (induction k arbitrary: s V)
  case 0
  have "cleared (view_ids (vm s) []) cs V = V" by (auto simp: cleared_def view_ids_def)
  then show ?case using 0 by simp
next
  case (Suc k)
  obtain a I where I: "idlelist (vm s) = a # I" using Suc.prems(2) by (cases "idlelist (vm s)") auto
  then have "a \<in> set (busylist (vm s)) \<union> set (idlelist (vm s))" by simp
  then obtain v where v: "get_view s a = Some v" by (rule shelf_view [OF inv_shelf [OF Suc.prems(1)]])
  obtain s1 where 1: "evfs_view_acquire_idle s = Some (Some a, s1)" "view_inv ecc path s1 cs cc (V(nat (viewid v) := replicate cs 0))"
    "vm s1 = (vm s)\<lparr>views := (views (vm s))(a \<mapsto> v\<lparr>cluster := zero_head\<rparr>), idlelist := I, count_of_idle_views := count_of_idle_views (vm s) - 1,
      busylist := busylist (vm s) @ [a], count_of_busy_views := count_of_busy_views (vm s) + 1\<rparr>"
    using acquire_run [OF Suc.prems(1) I v] by blast
  have f: "idlelist (vm s1) = I" "busylist (vm s1) = busylist (vm s) @ [a]" "root_of_view_tree (vm s1) = root_of_view_tree (vm s)"
    "views (vm s1) = (views (vm s))(a \<mapsto> v\<lparr>cluster := zero_head\<rparr>)" "view_ids (vm s1) as = view_ids (vm s) as" for as
    using view_ids_update [of "vm s", OF v] by (simp_all add: 1(3) del: fun_upd_apply)
  have k: "k \<le> length I" using Suc.prems(2) I by simp
  obtain s' where 2: "acquire_loop k s1 = Some (take k I, False, s')"
    "view_inv ecc path s' cs cc (cleared (view_ids (vm s) (take k I)) cs (V(nat (viewid v) := replicate cs 0)))"
    "busylist (vm s') = (busylist (vm s) @ [a]) @ take k I" "idlelist (vm s') = drop k I" "root_of_view_tree (vm s') = root_of_view_tree (vm s)"
    "views (vm s') = (\<lambda>b. if b \<in> set (take k I) then map_option (\<lambda>v. v\<lparr>cluster := zero_head\<rparr>) (((views (vm s))(a \<mapsto> v\<lparr>cluster := zero_head\<rparr>)) b)
      else ((views (vm s))(a \<mapsto> v\<lparr>cluster := zero_head\<rparr>)) b)"
    using Suc.IH [OF 1(2), unfolded f, OF k] by (elim exE conjE) (rule that)
  have "views (vm s') = (\<lambda>b. if b \<in> set (take (Suc k) (idlelist (vm s))) then map_option (\<lambda>v. v\<lparr>cluster := zero_head\<rparr>) (get_view s b) else get_view s b)"
    unfolding 2(6) using v I by auto
  moreover have "acquire_loop (Suc k) s = Some (take (Suc k) (idlelist (vm s)), False, s')" using 1(1) 2(1) I by simp
  moreover have "view_inv ecc path s' cs cc (cleared (view_ids (vm s) (take (Suc k) (idlelist (vm s)))) cs V)"
    using 2(2) I view_ids_Cons [of "vm s", OF v] by (simp add: cleared_insert)
  ultimately show ?case using 2(3-5) I by simp
qed

text \<open>Stopping and starting again.\<close>

definition restart :: "string \<Rightarrow> int \<Rightarrow> bytes \<Rightarrow> evfs_fs \<Rightarrow> (nsp_status \<times> evfs_fs) option" where
  "restart path n buf s = do {
     s \<leftarrow> evfs_view_uninit s;
     c \<leftarrow> evfs_cache_uninit (store s);
     (_, c) \<leftarrow> evfs_cache_init 0 (Some path) n None c;
     (status, s, _) \<leftarrow> evfs_view_load buf None (s\<lparr>store := c\<rparr>, ());
     Some (status, s)
   }"

lemma reopen_run:
  assumes inv: "view_inv ecc path s cs cc V" and h: "header (V 0) cs cc ecc" "92 \<le> cs" "cs * cc \<le> 2 ^ 30" and "0 \<le> n"
  shows "\<exists>m c c'. evfs_view_uninit s = Some (s\<lparr>vm := m\<rparr>) \<and> views_asleep m \<and> evfs_cache_uninit (store s) = Some c \<and>
    evfs_cache_init 0 (Some path) n None c = Some (0, c') \<and> serving ecc path c' cs cc V \<and> store_holds ecc path (env c') cs cc V"
proof -
  obtain m where 1: "evfs_view_uninit s = Some (s\<lparr>vm := m\<rparr>)" "views_asleep m" using view_uninit_run [OF inv] by blast
  obtain c e where 2: "evfs_cache_uninit (store s) = Some c" "asleep c" "env c = evfs_hard_close e" "store_holds ecc path e cs cc V"
    using uninit_sleeps [OF inv_serving [OF inv]] by blast
  obtain e' where e: "evfs_hard_open (Some path) (evfs_hard_close e) = Some (0, e')" "store_holds ecc path e' cs cc V"
    using reopen_holds [OF 2(4) h] by blast
  have "\<exists>c'. evfs_cache_init 0 (Some path) n None c = Some (0, c') \<and> serving ecc path c' cs cc V \<and> store_holds ecc path (env c') cs cc V"
    using init_serves [OF 2(2) assms(5), of "Some path" None e', OF _ e(2)] 2(3) e(1) by auto
  then show ?thesis using 1 2(1) by blast
qed

lemma restart_run:
  assumes inv: "view_inv ecc path s cs cc V" and h: "header (V 0) cs cc ecc" "92 \<le> cs" "cs * cc \<le> 2 ^ 30" and "0 \<le> n" "length buf = 12"
  shows "\<exists>s'. restart path n buf s = Some (0, s') \<and> view_inv ecc path s' cs cc V \<and> all_look_busy (vm s')"
proof -
  obtain m c c' where 1: "evfs_view_uninit s = Some (s\<lparr>vm := m\<rparr>)" "views_asleep m" "evfs_cache_uninit (store s) = Some c"
    "evfs_cache_init 0 (Some path) n None c = Some (0, c')" "serving ecc path c' cs cc V" "store_holds ecc path (env c') cs cc V"
    using reopen_run [OF inv h assms(5)] by blast
  let ?s = "s\<lparr>vm := m, store := c'\<rparr>"
  obtain s' where "evfs_view_load buf None (?s, ()) = Some (0, s', ())" "view_inv ecc path s' cs cc V" "all_look_busy (vm s')"
    using load_run [of ?s ecc path cs cc V buf "()"] 1(2,5,6) assms(6) inv_counts [OF inv] by (auto simp: view_counts_def)
  then show ?thesis using 1(1,3,4) by (auto simp: restart_def)
qed

text \<open>The remaining fields.\<close>

lemma set_head_run:
  assumes inv: "view_inv ecc path s cs cc V" and a: "a \<in> set (busylist (vm s))" "get_view s a = Some v"
    and b: "(case h of None \<Rightarrow> a | Some b \<Rightarrow> b) \<in> set (busylist (vm s))" "get_view s (case h of None \<Rightarrow> a | Some b \<Rightarrow> b) = Some w"
  shows "\<exists>s'. evfs_view_set_head (Some a) h s = Some (0, s') \<and>
    view_inv ecc path s' cs cc (V(nat (viewid v) := head_bytes ((cluster v)\<lparr>head_cluster_id := viewid w\<rparr>) @ drop 12 (V (nat (viewid v))))) \<and>
    vm s' = (vm s)\<lparr>views := (views (vm s))(a \<mapsto> v\<lparr>cluster := (cluster v)\<lparr>head_cluster_id := viewid w\<rparr>\<rparr>)\<rparr>"
proof -
  have r: "head_range (cluster v)" using inv_busy [OF inv a(1)] a(2) by (simp add: busy_ok_def)
  have "0 < viewid w" "viewid w < 2 ^ 31" using view_id_range [OF inv _ b(2)] b(1) by auto
  then have "head_range ((cluster v)\<lparr>head_cluster_id := viewid w\<rparr>)" using r by (simp add: head_range_def)
  from head_update [OF inv a, of "\<lambda>c. c\<lparr>head_cluster_id := viewid w\<rparr>", OF this] show ?thesis
    using b(2) by (simp add: evfs_view_set_head_def)
qed

lemma set_size_run:
  assumes inv: "view_inv ecc path s cs cc V" and a: "a \<in> set (busylist (vm s))" "get_view s a = Some v" and n: "- (2 ^ 31) \<le> n" "n < 2 ^ 31"
  shows "\<exists>s'. set_size a n s = Some (0, s') \<and>
    view_inv ecc path s' cs cc (V(nat (viewid v) := head_bytes ((cluster v)\<lparr>data_seg_size := n\<rparr>) @ drop 12 (V (nat (viewid v))))) \<and>
    vm s' = (vm s)\<lparr>views := (views (vm s))(a \<mapsto> v\<lparr>cluster := (cluster v)\<lparr>data_seg_size := n\<rparr>\<rparr>)\<rparr>"
proof (cases "data_seg_size (cluster v) = n")
  case False
  have "head_range (cluster v)" using inv_busy [OF inv a(1)] a(2) by (simp add: busy_ok_def)
  then have "head_range ((cluster v)\<lparr>data_seg_size := n\<rparr>)" using n by (simp add: head_range_def)
  from head_update [OF inv a, of "\<lambda>c. c\<lparr>data_seg_size := n\<rparr>", OF this] show ?thesis
    using a(2) False by (simp add: set_size_def)
next
  case True
  have b: "take 12 (V (nat (viewid v))) = head_bytes (cluster v)" using inv_busy [OF inv a(1)] a(2) by (simp add: busy_ok_def)
  have c: "(cluster v)\<lparr>data_seg_size := n\<rparr> = cluster v" using True by simp
  moreover have "V(nat (viewid v) := head_bytes (cluster v) @ drop 12 (V (nat (viewid v)))) = V"
    using append_take_drop_id [of 12 "V (nat (viewid v))"] by (simp add: b)
  moreover have "(vm s)\<lparr>views := (views (vm s))(a \<mapsto> v)\<rparr> = vm s" using a(2) by (simp add: fun_upd_idem)
  ultimately show ?thesis unfolding c using inv a(2) True by (intro exI [of _ s]) (simp add: set_size_def NSP_STATUS_SUCCESSFUL_def)
qed

lemma sint_range: "- (2 ^ 31) \<le> sint (w :: u32)" "sint (w :: u32) < 2 ^ 31"
  using sint_ge [of w] sint_lt [of w] by simp_all

lemma mark_size_range: "- (2 ^ 31) \<le> mark_size n" "mark_size n < 2 ^ 31" "- (2 ^ 31) \<le> unmark_size n" "unmark_size n < 2 ^ 31"
  unfolding mark_size_def unmark_size_def by (rule sint_range)+

end
