(* ===== verification/EvfsViewApi.thy ===== *)
theory EvfsViewApi
  imports EvfsView
begin

text \<open>
  Sequences of operations on the views of \<^verbatim>\<open>addons/evfs/view.c\<close>: what one operation leaves alone, the states a client reaches
  from a newly formatted file, and what a restart gives back.
\<close>

section \<open>Sequences of operations\<close>

text \<open>What a client does with views; the arguments of \<^verbatim>\<open>ReadData\<close> are the view, the offset and the length.\<close>

datatype view_op = AcquireMore int | Release nat | SetNext nat "nat option" | SetHead nat "nat option" | HeadSize nat int | ElementSize nat int
  | WriteData nat int bytes | ReadData nat int nat

fun exec_op :: "view_op \<Rightarrow> evfs_fs \<Rightarrow> (int \<times> evfs_fs) option" where
  "exec_op (AcquireMore n) s = do { (status, _, s) \<leftarrow> evfs_view_acquire_idle_more n s; Some (status, s) }"
| "exec_op (Release a) s = evfs_view_move_to_idle (Some a) s"
| "exec_op (SetNext a b) s = evfs_view_set_next (Some a) b s"
| "exec_op (SetHead a b) s = evfs_view_set_head (Some a) b s"
| "exec_op (HeadSize a n) s = evfs_view_set_head_data_seg_size (Some a) n s"
| "exec_op (ElementSize a n) s = evfs_view_set_element_data_seg_size (Some a) n s"
| "exec_op (WriteData a off d) s = evfs_view_write_userdata (Some a) (Some d) off (int (length d)) s"
| "exec_op (ReadData a off n) s = do { (r, _, s) \<leftarrow> evfs_view_read_userdata (Some a) (Some (replicate n 0)) off (int n) s; Some (r, s) }"

text \<open>The views are busy ones, a view whose data are accessed has a size or a head, and there are enough idle views.\<close>

definition busy_view :: "nat \<Rightarrow> evfs_fs \<Rightarrow> bool" where
  "busy_view a s \<longleftrightarrow> a \<in> set (busylist (vm s))"

definition accessible :: "nat \<Rightarrow> int \<Rightarrow> nat \<Rightarrow> evfs_fs \<Rightarrow> bool" where
  "accessible a off n s \<longleftrightarrow> busy_view a s \<and> 0 \<le> off \<and> 0 < n \<and> off + int n \<le> view_max_data_seg_size (vm s) \<and>
     (case get_view s a of None \<Rightarrow> False | Some v \<Rightarrow> data_seg_size (cluster v) \<noteq> 0 \<or> head_cluster_id (cluster v) \<noteq> 0)"

fun op_ok :: "view_op \<Rightarrow> evfs_fs \<Rightarrow> bool" where
  "op_ok (AcquireMore n) s \<longleftrightarrow> 0 < n \<and> n \<le> count_of_idle_views (vm s)"
| "op_ok (Release a) s \<longleftrightarrow> busy_view a s"
| "op_ok (SetNext a b) s \<longleftrightarrow> busy_view a s \<and> (case b of None \<Rightarrow> True | Some b \<Rightarrow> busy_view b s)"
| "op_ok (SetHead a b) s \<longleftrightarrow> busy_view a s \<and> (case b of None \<Rightarrow> True | Some b \<Rightarrow> busy_view b s)"
| "op_ok (HeadSize a n) s \<longleftrightarrow> busy_view a s \<and> - (2 ^ 31) \<le> n \<and> n < 2 ^ 31"
| "op_ok (ElementSize a n) s \<longleftrightarrow> busy_view a s \<and> - (2 ^ 31) \<le> n \<and> n < 2 ^ 31"
| "op_ok (WriteData a off d) s \<longleftrightarrow> accessible a off (length d) s"
| "op_ok (ReadData a off n) s \<longleftrightarrow> accessible a off n s"

text \<open>The clusters an operation is about.\<close>

fun op_views :: "view_op \<Rightarrow> evfs_fs \<Rightarrow> nat list" where
  "op_views (AcquireMore n) s = take (nat n) (idlelist (vm s))"
| "op_views (Release a) s = [a]"
| "op_views (SetNext a b) s = [a]"
| "op_views (SetHead a b) s = [a]"
| "op_views (HeadSize a n) s = [a]"
| "op_views (ElementSize a n) s = [a]"
| "op_views (WriteData a off d) s = [a]"
| "op_views (ReadData a off n) s = [a]"

definition op_clusters :: "view_op \<Rightarrow> evfs_fs \<Rightarrow> nat set" where
  "op_clusters opn s = view_ids (vm s) (op_views opn s)"

text \<open>A step that is well-defined, succeeds and touches only its own clusters.\<close>

definition good_step :: "nat \<Rightarrow> string \<Rightarrow> nat \<Rightarrow> nat \<Rightarrow> nat list \<Rightarrow> evfs_fs \<Rightarrow> (nat \<Rightarrow> bytes) \<Rightarrow> (int \<times> evfs_fs) option \<Rightarrow> bool" where
  "good_step ecc path cs cc as s V r \<longleftrightarrow> (\<exists>n s' V'. r = Some (n, s') \<and> NSP_SUCCESS n \<and> view_inv ecc path s' cs cc V' \<and>
     (\<forall>c. c \<notin> view_ids (vm s) as \<longrightarrow> V' c = V c \<and> busy_heads (vm s') (int c) = busy_heads (vm s) (int c)))"

lemma busy_heads_frame:
  assumes sh: "view_shelf (root_of_view_tree m) (busylist m) (idlelist m) (views m) cc"
    and t: "root_of_view_tree m' = root_of_view_tree m" and c: "c \<notin> view_ids m as"
    and a: "\<And>a. a \<in> set (busylist m) \<union> set (idlelist m) \<Longrightarrow> a \<notin> set as \<Longrightarrow> (a \<in> set (busylist m') \<longleftrightarrow> a \<in> set (busylist m)) \<and> views m' a = views m a"
  shows "busy_heads m' (int c) = busy_heads m (int c)"
proof (cases "index_of (root_of_view_tree m) (int c)")
  case (Some b)
  then obtain v where v: "b \<in> set (busylist m) \<union> set (idlelist m)" "views m b = Some v" "viewid v = int c"
    unfolding shelf_view_index [OF sh] by blast
  then have "b \<notin> set as" using c by (auto simp: view_ids_def)
  then show ?thesis using a [OF v(1)] Some by (simp add: busy_heads_def t)
qed (simp add: busy_heads_def t)

lemma one_view_step:
  assumes inv: "view_inv ecc path s cs cc V" and a: "a \<in> set (busylist (vm s)) \<union> set (idlelist (vm s))" "get_view s a = Some v"
    and r: "r = Some (n, s')" "0 \<le> n" "view_inv ecc path s' cs cc (V(nat (viewid v) := y))"
    and vm: "root_of_view_tree (vm s') = root_of_view_tree (vm s)"
      "\<And>b. b \<in> set (busylist (vm s)) \<union> set (idlelist (vm s)) \<Longrightarrow> b \<noteq> a \<Longrightarrow> (b \<in> set (busylist (vm s')) \<longleftrightarrow> b \<in> set (busylist (vm s))) \<and> get_view s' b = get_view s b"
  shows "good_step ecc path cs cc [a] s V r"
proof -
  have "(V(nat (viewid v) := y)) c = V c \<and> busy_heads (vm s') (int c) = busy_heads (vm s) (int c)" if "c \<notin> view_ids (vm s) [a]" for c
    using busy_heads_frame [OF inv_shelf [OF inv] vm(1) that] vm(2) that a(2) by (auto simp: view_ids_def)
  then show ?thesis using r by (auto simp: good_step_def NSP_SUCCESS_def)
qed

lemma acquire_more_step:
  assumes inv: "view_inv ecc path s cs cc V" and n: "0 < n" "n \<le> count_of_idle_views (vm s)"
  shows "\<exists>s'. evfs_view_acquire_idle_more n s = Some (0, take (nat n) (idlelist (vm s)), s') \<and>
    view_inv ecc path s' cs cc (cleared (view_ids (vm s) (take (nat n) (idlelist (vm s)))) cs V) \<and>
    busylist (vm s') = busylist (vm s) @ take (nat n) (idlelist (vm s)) \<and> idlelist (vm s') = drop (nat n) (idlelist (vm s)) \<and>
    (\<forall>c. c \<notin> view_ids (vm s) (take (nat n) (idlelist (vm s))) \<longrightarrow> busy_heads (vm s') (int c) = busy_heads (vm s) (int c))"
proof -
  note sh = inv_shelf [OF inv]
  have k: "nat n \<le> length (idlelist (vm s))" "0 < total_cluster_count (vm s)" using n inv_counts [OF inv] by (auto simp: view_counts_def)
  let ?I = "take (nat n) (idlelist (vm s))"
  obtain s' where 1: "acquire_loop (nat n) s = Some (?I, False, s')" "view_inv ecc path s' cs cc (cleared (view_ids (vm s) ?I) cs V)"
    "busylist (vm s') = busylist (vm s) @ ?I" "idlelist (vm s') = drop (nat n) (idlelist (vm s))" "root_of_view_tree (vm s') = root_of_view_tree (vm s)"
    "views (vm s') = (\<lambda>a. if a \<in> set ?I then map_option (\<lambda>v. v\<lparr>cluster := zero_head\<rparr>) (get_view s a) else get_view s a)"
    using acquire_loop_spec [OF inv k(1)] by (elim exE conjE) (rule that)
  have "busy_heads (vm s') (int c) = busy_heads (vm s) (int c)" if "c \<notin> view_ids (vm s) ?I" for c
    by (rule busy_heads_frame [OF sh 1(5) that]) (simp add: 1(3,6))
  moreover have "evfs_view_acquire_idle_more n s = Some (0, ?I, s')"
    using n(1) k(2) 1(1) by (simp add: evfs_view_acquire_idle_more_def NSP_STATUS_SUCCESSFUL_def)
  ultimately show ?thesis using 1(2-4) by blast
qed

lemma busy_obtain:
  assumes "view_inv ecc path s cs cc V" "busy_view a s"
  obtains v where "a \<in> set (busylist (vm s))" "get_view s a = Some v"
proof -
  have "a \<in> set (busylist (vm s)) \<union> set (idlelist (vm s))" "a \<in> set (busylist (vm s))" using assms(2) by (simp_all add: busy_view_def)
  then show thesis using shelf_view [OF inv_shelf [OF assms(1)]] that by metis
qed

lemma head_step:
  assumes inv: "view_inv ecc path s cs cc V" and a: "a \<in> set (busylist (vm s))" "get_view s a = Some v"
    and r: "\<exists>s'. r = Some (0, s') \<and> view_inv ecc path s' cs cc (V(nat (viewid v) := y)) \<and> vm s' = (vm s)\<lparr>views := (views (vm s))(a \<mapsto> w)\<rparr>"
  shows "good_step ecc path cs cc [a] s V r"
proof -
  obtain s' where s': "r = Some (0, s')" "view_inv ecc path s' cs cc (V(nat (viewid v) := y))" "vm s' = (vm s)\<lparr>views := (views (vm s))(a \<mapsto> w)\<rparr>"
    using r by blast
  show ?thesis by (rule one_view_step [OF inv _ a(2) s'(1) _ s'(2)]) (use a(1) in \<open>auto simp: s'(3)\<close>)
qed

lemma data_step:
  assumes inv: "view_inv ecc path s cs cc V" and a: "a \<in> set (busylist (vm s))" "get_view s a = Some v"
    and r: "\<exists>c. r = Some (n, s\<lparr>store := c\<rparr>) \<and> view_inv ecc path (s\<lparr>store := c\<rparr>) cs cc (V(nat (viewid v) := y))" "0 \<le> n"
  shows "good_step ecc path cs cc [a] s V r"
proof -
  obtain c where s': "r = Some (n, s\<lparr>store := c\<rparr>)" "view_inv ecc path (s\<lparr>store := c\<rparr>) cs cc (V(nat (viewid v) := y))" using r(1) by blast
  show ?thesis by (rule one_view_step [OF inv _ a(2) s'(1) r(2) s'(2)]) (use a(1) in simp_all)
qed

lemma accessible_obtain:
  assumes "view_inv ecc path s cs cc V" "accessible a off n s"
  obtains v where "a \<in> set (busylist (vm s))" "get_view s a = Some v" "data_seg_size (cluster v) \<noteq> 0 \<or> head_cluster_id (cluster v) \<noteq> 0"
    "0 \<le> off" "0 < int n" "off + int n \<le> int cs - 12"
  using assms inv_counts [OF assms(1)] by (auto simp: accessible_def busy_view_def view_counts_def split: option.splits)

lemma op_good:
  assumes inv: "view_inv ecc path s cs cc V" and ok: "op_ok opn s"
  shows "good_step ecc path cs cc (op_views opn s) s V (exec_op opn s)"
proof (cases opn)
  case (AcquireMore n)
  obtain s' where "evfs_view_acquire_idle_more n s = Some (0, take (nat n) (idlelist (vm s)), s')"
    "view_inv ecc path s' cs cc (cleared (view_ids (vm s) (take (nat n) (idlelist (vm s)))) cs V)"
    "\<forall>c. c \<notin> view_ids (vm s) (take (nat n) (idlelist (vm s))) \<longrightarrow> busy_heads (vm s') (int c) = busy_heads (vm s) (int c)"
    using acquire_more_step [OF inv, of n] ok AcquireMore by auto
  then show ?thesis using AcquireMore by (auto simp: good_step_def NSP_SUCCESS_def cleared_def)
next
  case (Release a)
  obtain v where a: "a \<in> set (busylist (vm s))" "get_view s a = Some v" by (rule busy_obtain [OF inv]) (use ok Release in auto)
  obtain s' where s': "evfs_view_move_to_idle (Some a) s = Some (0, s')"
    "view_inv ecc path s' cs cc (V(nat (viewid v) := head_bytes zero_head @ drop 12 (V (nat (viewid v)))))"
    "vm s' = (vm s)\<lparr>views := (views (vm s))(a \<mapsto> v\<lparr>cluster := zero_head\<rparr>), idlelist := idlelist (vm s) @ [a],
      count_of_idle_views := count_of_idle_views (vm s) + 1, busylist := remove1 a (busylist (vm s)), count_of_busy_views := count_of_busy_views (vm s) - 1\<rparr>"
    using move_to_idle_run [OF inv a] by blast
  have "good_step ecc path cs cc [a] s V (evfs_view_move_to_idle (Some a) s)"
    by (rule one_view_step [OF inv _ a(2) s'(1) _ s'(2)]) (use a(1) in \<open>auto simp: s'(3)\<close>)
  then show ?thesis using Release by simp
next
  case (SetNext a b)
  obtain v where a: "a \<in> set (busylist (vm s))" "get_view s a = Some v" by (rule busy_obtain [OF inv]) (use ok SetNext in auto)
  have "\<exists>i. case b of None \<Rightarrow> i = 0 | Some b \<Rightarrow> b \<in> set (busylist (vm s)) \<and> map_option viewid (get_view s b) = Some i"
  proof (cases b)
    case (Some b')
    obtain w where "b' \<in> set (busylist (vm s))" "get_view s b' = Some w" by (rule busy_obtain [OF inv, where a = b']) (use ok SetNext Some in auto)
    then show ?thesis using Some by simp
  qed simp
  then show ?thesis using head_step [OF inv a set_next_run [OF inv a]] SetNext by auto
next
  case (SetHead a h)
  obtain v where a: "a \<in> set (busylist (vm s))" "get_view s a = Some v" by (rule busy_obtain [OF inv]) (use ok SetHead in auto)
  have "busy_view (case h of None \<Rightarrow> a | Some b \<Rightarrow> b) s" using ok SetHead by (auto split: option.splits)
  then obtain w where "(case h of None \<Rightarrow> a | Some b \<Rightarrow> b) \<in> set (busylist (vm s))" "get_view s (case h of None \<Rightarrow> a | Some b \<Rightarrow> b) = Some w"
    by (rule busy_obtain [OF inv])
  then show ?thesis using head_step [OF inv a set_head_run [OF inv a]] SetHead by auto
next
  case (HeadSize a n)
  obtain v where a: "a \<in> set (busylist (vm s))" "get_view s a = Some v" by (rule busy_obtain [OF inv]) (use ok HeadSize in auto)
  have "- (2 ^ 31) \<le> (if n \<le> 0 then n else mark_size n)" "(if n \<le> 0 then n else mark_size n) < 2 ^ 31"
    using ok HeadSize mark_size_range [of n] by auto
  from head_step [OF inv a set_size_run [OF inv a this]] show ?thesis using HeadSize by (simp add: evfs_view_set_head_data_seg_size_def)
next
  case (ElementSize a n)
  obtain v where a: "a \<in> set (busylist (vm s))" "get_view s a = Some v" by (rule busy_obtain [OF inv]) (use ok ElementSize in auto)
  have "- (2 ^ 31) \<le> (if n \<ge> 0 then n else unmark_size n)" "(if n \<ge> 0 then n else unmark_size n) < 2 ^ 31"
    using ok ElementSize mark_size_range [of n] by auto
  from head_step [OF inv a set_size_run [OF inv a this]] show ?thesis using ElementSize by (simp add: evfs_view_set_element_data_seg_size_def)
next
  case (WriteData a off d)
  obtain v where v: "a \<in> set (busylist (vm s))" "get_view s a = Some v" "data_seg_size (cluster v) \<noteq> 0 \<or> head_cluster_id (cluster v) \<noteq> 0"
    "0 \<le> off" "0 < int (length d)" "off + int (length d) \<le> int cs - 12" by (rule accessible_obtain [OF inv]) (use ok WriteData in auto)
  from data_step [OF inv v(1,2) write_userdata_run [OF inv v order_refl]] show ?thesis using WriteData by simp
next
  case (ReadData a off n)
  obtain v where v: "a \<in> set (busylist (vm s))" "get_view s a = Some v" "data_seg_size (cluster v) \<noteq> 0 \<or> head_cluster_id (cluster v) \<noteq> 0"
    "0 \<le> off" "0 < int n" "off + int n \<le> int cs - 12" by (rule accessible_obtain [OF inv]) (use ok ReadData in auto)
  have "\<exists>c. exec_op opn s = Some (int n, s\<lparr>store := c\<rparr>) \<and> view_inv ecc path (s\<lparr>store := c\<rparr>) cs cc (V(nat (viewid v) := V (nat (viewid v))))"
    using read_userdata_run [OF inv v, of "replicate n 0"] ReadData by auto
  from data_step [OF inv v(1,2) this] show ?thesis using ReadData by simp
qed

text \<open>The header cluster has no view, so it is never touched.\<close>

definition fs_inv :: "nat \<Rightarrow> string \<Rightarrow> evfs_fs \<Rightarrow> nat \<Rightarrow> nat \<Rightarrow> (nat \<Rightarrow> bytes) \<Rightarrow> bool" where
  "fs_inv ecc path s cs cc V \<longleftrightarrow> view_inv ecc path s cs cc V \<and> header (V 0) cs cc ecc"

lemma op_views_known: "view_inv ecc path s cs cc V \<Longrightarrow> op_ok opn s \<Longrightarrow> set (op_views opn s) \<subseteq> set (busylist (vm s)) \<union> set (idlelist (vm s))"
  by (cases opn) (auto simp: busy_view_def accessible_def dest: in_set_takeD)

lemma zero_not_view:
  assumes "view_inv ecc path s cs cc V" "set as \<subseteq> set (busylist (vm s)) \<union> set (idlelist (vm s))"
  shows "0 \<notin> view_ids (vm s) as"
proof
  assume "0 \<in> view_ids (vm s) as"
  then obtain a v where a: "a \<in> set as" "get_view s a = Some v" "nat (viewid v) = 0" by (auto simp: view_ids_def)
  then show False using shelf_view_id(2) [OF inv_shelf [OF assms(1)] _ a(2)] assms(2) by auto
qed

lemma fs_step:
  assumes "fs_inv ecc path s cs cc V" "op_ok opn s"
  shows "\<exists>n s' V'. exec_op opn s = Some (n, s') \<and> NSP_SUCCESS n \<and> fs_inv ecc path s' cs cc V' \<and>
     (\<forall>c. c \<notin> op_clusters opn s \<longrightarrow> V' c = V c \<and> busy_heads (vm s') (int c) = busy_heads (vm s) (int c))"
proof -
  have inv: "view_inv ecc path s cs cc V" using assms(1) by (simp add: fs_inv_def)
  have z: "0 \<notin> op_clusters opn s" unfolding op_clusters_def by (rule zero_not_view [OF inv op_views_known [OF inv assms(2)]])
  obtain n s' V' where r: "exec_op opn s = Some (n, s')" "NSP_SUCCESS n" "view_inv ecc path s' cs cc V'"
    "\<forall>c. c \<notin> op_clusters opn s \<longrightarrow> V' c = V c \<and> busy_heads (vm s') (int c) = busy_heads (vm s) (int c)"
    using op_good [OF inv assms(2)] unfolding good_step_def op_clusters_def by blast
  then have "fs_inv ecc path s' cs cc V'" using z assms(1) by (simp add: fs_inv_def)
  then show ?thesis using r by blast
qed

text \<open>The states a client reaches.\<close>

inductive reached :: "evfs_fs \<Rightarrow> evfs_fs \<Rightarrow> bool" for s0 where
  start: "reached s0 s0"
| step: "reached s0 s \<Longrightarrow> op_ok opn s \<Longrightarrow> exec_op opn s = Some (n, s') \<Longrightarrow> reached s0 s'"

lemma reached_inv: "reached s0 s \<Longrightarrow> fs_inv ecc path s0 cs cc V0 \<Longrightarrow> \<exists>V. fs_inv ecc path s cs cc V"
proof (induction rule: reached.induct)
  case (step s opn n s')
  then obtain V where "fs_inv ecc path s cs cc V" by blast
  from fs_step [OF this step.hyps(2)] show ?case using step.hyps(3) by auto
qed blast

text \<open>A new file system: a file of \<^term>\<open>cc\<close> clusters behind a cache of \<^term>\<open>n\<close> blocks, and a view of each cluster.\<close>

definition format_fs :: "string \<Rightarrow> int \<Rightarrow> nat \<Rightarrow> nat \<Rightarrow> evfs_fs \<Rightarrow> (nsp_status \<times> evfs_fs) option" where
  "format_fs path n cs cc s = do {
     (_, c) \<leftarrow> evfs_cache_init 0 (Some path) n (Some (int cs, int cc)) (store s);
     evfs_view_create (s\<lparr>store := c\<rparr>)
   }"

definition blank_fs :: "evfs_fs \<Rightarrow> bool" where
  "blank_fs s \<longleftrightarrow> asleep (store s) \<and> ready (mgr (env (store s))) = kEvmgrNotReady \<and> calm (kern (env (store s))) \<and> roomy (env (store s)) \<and>
     0 < next_fd (kern (env (store s))) \<and> views_asleep (vm s)"

definition geometry_ok :: "nat \<Rightarrow> nat \<Rightarrow> bool" where
  "geometry_ok cs cc \<longleftrightarrow> is_powerof_2 (of_nat cs :: u32) \<and> 92 \<le> cs \<and> cs \<le> 4096 \<and> 1 < cc \<and> cs * cc < 2 ^ 30"

lemma format_run:
  assumes s: "blank_fs s" and g: "geometry_ok cs cc" and n: "0 \<le> n"
  shows "\<exists>s' V. format_fs path n cs cc s = Some (0, s') \<and> fs_inv cc path s' cs cc V \<and> busylist (vm s') = [] \<and> length (idlelist (vm s')) = cc - 1"
proof -
  obtain e1 V where 0: "evfs_hard_create (Some path) (int cs) (int cc) (env (store s)) = Some (0, e1)" "header (V 0) cs cc cc"
    "\<forall>i. 0 < i \<longrightarrow> V i = replicate cs 0" "store_holds cc path e1 cs cc V"
    using create_holds [of "env (store s)" cs cc path] s g by (auto simp: blank_fs_def geometry_ok_def)
  obtain c where 1: "evfs_cache_init 0 (Some path) n (Some (int cs, int cc)) (store s) = Some (0, c)" "serving cc path c cs cc V"
    using init_serves [of "store s" n "Some path" "Some (int cs, int cc)" e1, OF _ n _ 0(4)] 0(1) s by (auto simp: blank_fs_def)
  obtain s' where "evfs_view_create (s\<lparr>store := c\<rparr>) = Some (0, s')" "view_inv cc path s' cs cc V" "busylist (vm s') = []" "length (idlelist (vm s')) = cc - 1"
    using create_run [of "s\<lparr>store := c\<rparr>" cc path cs cc V] s g 1(2) 0(3) by (auto simp: blank_fs_def geometry_ok_def)
  then show ?thesis using 1(1) 0(2) by (auto simp: format_fs_def fs_inv_def)
qed

section \<open>Properties\<close>

text \<open>
  C14. Views are isolated: after formatting a file and any sequence of operations on views, the next operation succeeds, and it changes
  neither the content of any cluster nor the head in any view but those it is about. Idle and busy views always make up all clusters.
\<close>

theorem evfs_views_isolated:
  assumes "blank_fs s0" "geometry_ok cs cc" "0 \<le> n" "format_fs path n cs cc s0 = Some (0, s1)" "reached s1 s" "op_ok opn s"
  shows "\<exists>r s' V V'. exec_op opn s = Some (r, s') \<and> NSP_SUCCESS r \<and> serving cc path (store s) cs cc V \<and> serving cc path (store s') cs cc V' \<and>
    (\<forall>c. c \<notin> op_clusters opn s \<longrightarrow> V' c = V c \<and> busy_heads (vm s') (int c) = busy_heads (vm s) (int c)) \<and>
    (\<exists>i b. evfs_view_get_count s' = Some (i, b) \<and> i + b = int cc - 1)"
proof -
  obtain V0 where "fs_inv cc path s1 cs cc V0" using format_run [OF assms(1-3), of path] assms(4) by auto
  then obtain V where V: "fs_inv cc path s cs cc V" using reached_inv [OF assms(5)] by blast
  obtain r s' V' where r: "exec_op opn s = Some (r, s')" "NSP_SUCCESS r" "fs_inv cc path s' cs cc V'"
    "\<forall>c. c \<notin> op_clusters opn s \<longrightarrow> V' c = V c \<and> busy_heads (vm s') (int c) = busy_heads (vm s) (int c)"
    using fs_step [OF V assms(6)] by blast
  have V': "view_inv cc path s' cs cc V'" "view_inv cc path s cs cc V" using r(3) V by (simp_all add: fs_inv_def)
  have "\<exists>i b. evfs_view_get_count s' = Some (i, b) \<and> i + b = int cc - 1"
    using inv_counts [OF V'(1)] shelf_view_count [OF inv_shelf [OF V'(1)]] by (auto simp: evfs_view_get_count_def view_counts_def)
  then show ?thesis using r inv_serving [OF V'(1)] inv_serving [OF V'(2)] by blast
qed

definition sample_fs :: evfs_fs where
  "sample_fs = \<lparr>store = sample_cache, vm = evfs_view_mgr0\<rparr>"

lemma sample_blank: "blank_fs sample_fs" "geometry_ok 128 3"
proof -
  have e: "env sample_cache = sample_env" by (simp add: sample_cache_def)
  have "views_asleep evfs_view_mgr0"
    using clix.invar_empty clix.lookup_empty by (simp add: views_asleep_def evfs_view_mgr0_def index_of_def)
  then show "blank_fs sample_fs" using asleep_sample sample_env_start by (simp add: blank_fs_def sample_fs_def e)
  show "geometry_ok 128 3" using sample_powerof_2 by (simp add: geometry_ok_def)
qed

theorem evfs_views_isolated_witness:
  "\<exists>s1 r s'. format_fs ''f'' 1 128 3 sample_fs = Some (0, s1) \<and> exec_op (AcquireMore 2) s1 = Some (r, s') \<and> NSP_SUCCESS r \<and>
    (\<exists>i b. evfs_view_get_count s' = Some (i, b) \<and> i + b = 2)"
proof -
  obtain s1 V where s1: "format_fs ''f'' 1 128 3 sample_fs = Some (0, s1)" "fs_inv 3 ''f'' s1 128 3 V" "length (idlelist (vm s1)) = 2"
    using format_run [OF sample_blank, of 1 "''f''"] by auto
  have "op_ok (AcquireMore 2) s1" using s1(2,3) inv_counts by (fastforce simp: fs_inv_def view_counts_def)
  from evfs_views_isolated [OF sample_blank _ s1(1) reached.start this] show ?thesis using s1(1) by auto
qed


lemma sample_busy:
  "\<exists>s1 s h. format_fs ''f'' 1 128 3 sample_fs = Some (0, s1) \<and> reached s1 s \<and> all_look_busy (vm s) \<and> (\<exists>c. busy_heads (vm s) c = Some h) \<and> 0 < head_cluster_id h"
proof -
  obtain s1 V where s1: "format_fs ''f'' 1 128 3 sample_fs = Some (0, s1)" "fs_inv 3 ''f'' s1 128 3 V" "busylist (vm s1) = []" "length (idlelist (vm s1)) = 2"
    using format_run [OF sample_blank, of 1 "''f''"] by auto
  have inv: "view_inv 3 ''f'' s1 128 3 V" using s1(2) by (simp add: fs_inv_def)
  have ok: "1 \<le> count_of_idle_views (vm s1)" using s1(4) inv_counts [OF inv] by (simp add: view_counts_def)
  obtain a b where I: "idlelist (vm s1) = [a, b]" using s1(4) by (auto simp: numeral_2_eq_2 length_Suc_conv)
  obtain s2 V2 where s2: "evfs_view_acquire_idle_more 1 s1 = Some (0, [a], s2)" "view_inv 3 ''f'' s2 128 3 V2" "busylist (vm s2) = [a]"
    using acquire_more_step [OF inv _ ok] s1(3) I by auto
  have r2: "reached s1 s2" using reached.step [OF reached.start, of "AcquireMore 1"] ok s2(1) by simp
  obtain v where v: "a \<in> set (busylist (vm s2))" "get_view s2 a = Some v" by (rule busy_obtain [OF s2(2)]) (simp add: busy_view_def s2(3))
  obtain s3 where s3: "evfs_view_set_head (Some a) None s2 = Some (0, s3)"
    "vm s3 = (vm s2)\<lparr>views := (views (vm s2))(a \<mapsto> v\<lparr>cluster := (cluster v)\<lparr>head_cluster_id := viewid v\<rparr>\<rparr>)\<rparr>"
    using set_head_run [OF s2(2) v, of None v] v by auto
  have "reached s1 s3" using reached.step [OF r2, of "SetHead a None"] s3(1) s2(3) by (simp add: busy_view_def)
  moreover have i: "0 < viewid v" using view_id_range [OF s2(2) _ v(2)] v(1) by simp
  then have "all_look_busy (vm s3)" by (simp add: all_look_busy_def s3(2) s2(3) evfs_cluster_looks_like_busy_def)
  moreover have "index_of (root_of_view_tree (vm s2)) (viewid v) = Some a" unfolding shelf_view_index [OF inv_shelf [OF s2(2)]] using v by simp
  then have "busy_heads (vm s3) (viewid v) = Some ((cluster v)\<lparr>head_cluster_id := viewid v\<rparr>)" using v(1) by (simp add: busy_heads_def s3(2))
  ultimately show ?thesis using s1(1) i by (intro exI [of _ s1] exI [of _ s3]) auto
qed


end
