(* ===== verification/EvfsEntries.thy ===== *)
theory EvfsEntries
  imports EvfsViewApi "HOL-Library.List_Lexorder"
begin

text \<open>
  \<^verbatim>\<open>addons/evfs/entries.c\<close>: an entry is a head view (its first 32 bytes are the name) and a chain of element views. Heads and
  elements are structures on a heap; two trees index the heads by number and by name. \<^term>\<open>None\<close> is undefined behaviour, a failed assertion or
  an endless loop. A C string argument is its bytes up to the terminator.
\<close>

section \<open>State\<close>

datatype evfs_entry_state = kEvfsEntryNormal | kEvfsEntryCloseWait | kEvfsEntryBusy | kEvfsEntryOpen | kEvfsEntryMandatory

text \<open>The pointer to the head is NULL, a head, or whatever a fresh block held.\<close>

datatype head_ptr = NullHead | HeadAt nat | JunkHead

record evfs_entry_element =
  elem_viewid :: int
  elem_view :: "nat option"
  entry_head :: head_ptr

record evfs_entry_head =
  ehead_viewid :: int
  ehead_view :: "nat option"
  elements :: "nat list"
  count_of_elements :: int
  ehead_refcnt :: int
  io_refcnt :: int
  ehead_state :: evfs_entry_state
  hard_remove_on_detach :: bool
  ehead_key :: bytes

record evfs_entries_mgr =
  root_of_entries_tree :: "(int \<times> nat) avltree"
  root_of_named_entries_tree :: "(bytes \<times> nat) avltree"
  entries_list :: "nat list"
  count_of_entries :: int
  wild_list :: "nat list"
  count_of_wild :: int
  ent_max_data_seg_size :: int
  heads :: "nat \<rightharpoonup> evfs_entry_head"
  elems :: "nat \<rightharpoonup> evfs_entry_element"
  ent_fresh :: nat

record evfs_vol =
  fsys :: evfs_fs
  em :: evfs_entries_mgr

definition evfs_entries_mgr0 :: evfs_entries_mgr where
  "evfs_entries_mgr0 = \<lparr>root_of_entries_tree = AvlNull, root_of_named_entries_tree = AvlNull, entries_list = [], count_of_entries = 0,
     wild_list = [], count_of_wild = 0, ent_max_data_seg_size = 0, heads = Map.empty, elems = Map.empty, ent_fresh = 0\<rparr>"

definition EACCES :: int where "EACCES = 13"

definition EBUSY :: int where "EBUSY = 16"

definition MAX_ENTRY_NAME_LENGTH :: nat where "MAX_ENTRY_NAME_LENGTH = 32"

definition sizeof_ehead :: int where "sizeof_ehead = 192"

definition sizeof_element :: int where "sizeof_element = 40"

text \<open>Operations of the view layer on the volume, allocation, and updates of the heaps.\<close>

definition on_fs :: "(evfs_fs \<Rightarrow> ('a \<times> evfs_fs) option) \<Rightarrow> evfs_vol \<Rightarrow> ('a \<times> evfs_vol) option" where
  "on_fs f s = do { (r, x) \<leftarrow> f (fsys s); Some (r, s\<lparr>fsys := x\<rparr>) }"

definition ent_malloc :: "int \<Rightarrow> evfs_vol \<Rightarrow> bytes option \<times> evfs_vol" where
  "ent_malloc n s = (case ztrymalloc n (env (store (fsys s))) of (r, e) \<Rightarrow> (r, s\<lparr>fsys := (fsys s)\<lparr>store := (store (fsys s))\<lparr>env := e\<rparr>\<rparr>\<rparr>))"

abbreviation get_ehead :: "evfs_vol \<Rightarrow> nat \<Rightarrow> evfs_entry_head option" where
  "get_ehead s a \<equiv> heads (em s) a"

abbreviation get_elem :: "evfs_vol \<Rightarrow> nat \<Rightarrow> evfs_entry_element option" where
  "get_elem s e \<equiv> elems (em s) e"

definition put_ehead :: "nat \<Rightarrow> evfs_entry_head \<Rightarrow> evfs_vol \<Rightarrow> evfs_vol" where
  "put_ehead a h s = s\<lparr>em := (em s)\<lparr>heads := (heads (em s))(a \<mapsto> h)\<rparr>\<rparr>"

definition drop_ehead :: "nat \<Rightarrow> evfs_vol \<Rightarrow> evfs_vol" where
  "drop_ehead a s = s\<lparr>em := (em s)\<lparr>heads := (heads (em s))(a := None)\<rparr>\<rparr>"

definition put_elem :: "nat \<Rightarrow> evfs_entry_element \<Rightarrow> evfs_vol \<Rightarrow> evfs_vol" where
  "put_elem e x s = s\<lparr>em := (em s)\<lparr>elems := (elems (em s))(e \<mapsto> x)\<rparr>\<rparr>"

definition drop_elem :: "nat \<Rightarrow> evfs_vol \<Rightarrow> evfs_vol" where
  "drop_elem e s = s\<lparr>em := (em s)\<lparr>elems := (elems (em s))(e := None)\<rparr>\<rparr>"

definition fresh_addr :: "evfs_vol \<Rightarrow> nat \<times> evfs_vol" where
  "fresh_addr s = (ent_fresh (em s), s\<lparr>em := (em s)\<lparr>ent_fresh := ent_fresh (em s) + 1\<rparr>\<rparr>)"

section \<open>Searching\<close>

definition evfs_entries_compare_entry_head :: "(int \<times> nat) avl_compare_fp" where
  "evfs_entries_compare_entry_head l r = (if fst l > fst r then 1 else if fst l < fst r then - 1 else 0)"

text \<open>\<^verbatim>\<open>strcmp\<close> on two blocks of the same length. Where it would read behind both, which \<^verbatim>\<open>reads_behind\<close> below excludes, the blocks
  count as equal.\<close>

fun strcmp :: "bytes \<Rightarrow> bytes \<Rightarrow> int" where
  "strcmp (x # xs) (y # ys) = (if x = y then (if x = 0 then 0 else strcmp xs ys) else if x < y then - 1 else 1)"
| "strcmp [] (y # ys) = (if y = 0 then 0 else - 1)"
| "strcmp (x # xs) [] = (if x = 0 then 0 else 1)"
| "strcmp [] [] = 0"

definition evfs_entries_compare_named_entry_head :: "(bytes \<times> nat) avl_compare_fp" where
  "evfs_entries_compare_named_entry_head l r = strcmp (fst l) (fst r)"

definition reads_behind :: "bytes \<Rightarrow> (bytes \<times> nat) avltree \<Rightarrow> bool" where
  "reads_behind k t \<longleftrightarrow> 0 \<notin> set k \<and> k \<in> fst ` set_avltree t"

definition evfs_entries_search_head :: "int \<Rightarrow> evfs_vol \<Rightarrow> nat option" where
  "evfs_entries_search_head i s =
     map_option snd (avlsearch (root_of_entries_tree (em s)) (Some (i, 0)) (Some evfs_entries_compare_entry_head))"

definition c_str :: "bytes \<Rightarrow> bytes" where
  "c_str k = takeWhile (\<lambda>x. x \<noteq> 0) k"

definition pad_key :: "bytes \<Rightarrow> bytes" where
  "pad_key k = k @ replicate (MAX_ENTRY_NAME_LENGTH - length k) 0"

text \<open>The name is copied to the key of a local structure without a bound.\<close>

definition evfs_entries_search_named_head :: "bytes \<Rightarrow> evfs_vol \<Rightarrow> nat option option" where
  "evfs_entries_search_named_head k s =
     (if MAX_ENTRY_NAME_LENGTH \<le> length (c_str k) then None
      else Some (map_option snd (avlsearch (root_of_named_entries_tree (em s)) (Some (pad_key (c_str k), 0)) (Some evfs_entries_compare_named_entry_head))))"

section \<open>References\<close>

definition evfs_entries_check_reference_condition :: "nat \<Rightarrow> evfs_entry_state \<Rightarrow> evfs_vol \<Rightarrow> (nsp_status \<times> evfs_vol) option" where
  "evfs_entries_check_reference_condition a permission s = do {
     h \<leftarrow> get_ehead s a;
     if kEvfsEntryNormal = permission then
       (if kEvfsEntryNormal \<noteq> ehead_state h then Some (posix__makeerror EACCES, s)
        else do {
          r \<leftarrow> c_int (ehead_refcnt h + 1);
          i \<leftarrow> c_int (io_refcnt h + 1);
          Some (NSP_STATUS_SUCCESSFUL, put_ehead a (h\<lparr>ehead_refcnt := r, io_refcnt := i\<rparr>) s)
        })
     else if kEvfsEntryOpen = permission then
       (if kEvfsEntryNormal \<noteq> ehead_state h then Some (posix__makeerror EACCES, s)
        else do {
          r \<leftarrow> c_int (ehead_refcnt h + 1);
          Some (NSP_STATUS_SUCCESSFUL, put_ehead a (h\<lparr>ehead_refcnt := r\<rparr>) s)
        })
     else if kEvfsEntryBusy = permission then
       (if kEvfsEntryNormal \<noteq> ehead_state h then Some (posix__makeerror EACCES, s)
        else if 0 \<noteq> io_refcnt h then Some (posix__makeerror EBUSY, s)
        else do {
          r \<leftarrow> c_int (ehead_refcnt h + 1);
          Some (NSP_STATUS_SUCCESSFUL, put_ehead a (h\<lparr>ehead_refcnt := r, ehead_state := kEvfsEntryBusy\<rparr>) s)
        })
     else Some (NSP_STATUS_SUCCESSFUL, s)
   }"

text \<open>The result is the status and, on success, the head.\<close>

definition reference_found :: "nat option \<Rightarrow> evfs_entry_state \<Rightarrow> evfs_vol \<Rightarrow> (nsp_status \<times> nat option \<times> evfs_vol) option" where
  "reference_found found permission s =
     (case found of
        None \<Rightarrow> Some (posix__makeerror ENOENT, None, s)
      | Some a \<Rightarrow> do {
          (status, s) \<leftarrow> evfs_entries_check_reference_condition a permission s;
          Some (status, if NSP_SUCCESS status then Some a else None, s)
        })"

definition evfs_entries_reference_head :: "int \<Rightarrow> evfs_entry_state \<Rightarrow> evfs_vol \<Rightarrow> (nsp_status \<times> nat option \<times> evfs_vol) option" where
  "evfs_entries_reference_head i permission s = reference_found (evfs_entries_search_head i s) permission s"

definition evfs_entries_reference_head_by_name :: "bytes \<Rightarrow> evfs_entry_state \<Rightarrow> evfs_vol \<Rightarrow> (nsp_status \<times> nat option \<times> evfs_vol) option" where
  "evfs_entries_reference_head_by_name k permission s = do {
     found \<leftarrow> evfs_entries_search_named_head k s;
     reference_found found permission s
   }"

section \<open>Releasing\<close>

definition evfs_entries_free_element :: "nat \<Rightarrow> evfs_vol \<Rightarrow> evfs_vol option" where
  "evfs_entries_free_element e s = do {
     x \<leftarrow> get_elem s e;
     case entry_head x of
       NullHead \<Rightarrow> Some (drop_elem e s)
     | JunkHead \<Rightarrow> None
     | HeadAt a \<Rightarrow> do {
         h \<leftarrow> get_ehead s a;
         let s = put_ehead a (h\<lparr>elements := remove1 e (elements h), count_of_elements := count_of_elements h - 1\<rparr>) s;
         if hard_remove_on_detach h then do {
           (_, s) \<leftarrow> on_fs (evfs_view_move_to_idle (elem_view x)) s;
           Some (drop_elem e s)
         } else Some (drop_elem e s)
       }
   }"

partial_function (option) free_elements :: "nat \<Rightarrow> evfs_vol \<Rightarrow> evfs_vol option" where
  "free_elements a s = Option.bind (get_ehead s a) (\<lambda>h.
     case elements h of
       [] \<Rightarrow> Some s
     | e # _ \<Rightarrow> Option.bind (evfs_entries_free_element e s) (free_elements a))"

definition evfs_entries_free_head :: "nat \<Rightarrow> evfs_vol \<Rightarrow> evfs_vol option" where
  "evfs_entries_free_head a s = do {
     h \<leftarrow> get_ehead s a;
     (t, _) \<leftarrow> avlremove (root_of_entries_tree (em s)) (Some (ehead_viewid h, a)) None (Some evfs_entries_compare_entry_head);
     let s = s\<lparr>em := (em s)\<lparr>entries_list := remove1 a (entries_list (em s)), root_of_entries_tree := t, count_of_entries := count_of_entries (em s) - 1\<rparr>\<rparr>;
     s \<leftarrow> (if hd (ehead_key h) \<noteq> 0 then
            (if reads_behind (ehead_key h) (root_of_named_entries_tree (em s)) then None
             else do {
               (t, _) \<leftarrow> avlremove (root_of_named_entries_tree (em s)) (Some (ehead_key h, a)) None (Some evfs_entries_compare_named_entry_head);
               Some (s\<lparr>em := (em s)\<lparr>root_of_named_entries_tree := t\<rparr>\<rparr>)
             })
          else Some s);
     s \<leftarrow> free_elements a s;
     h \<leftarrow> get_ehead s a;
     if hard_remove_on_detach h then do {
       (_, s) \<leftarrow> on_fs (evfs_view_move_to_idle (ehead_view h)) s;
       Some (drop_ehead a s)
     } else Some (drop_ehead a s)
   }"

definition evfs_entries_dereference_head :: "nat \<Rightarrow> evfs_entry_state \<Rightarrow> evfs_vol \<Rightarrow> evfs_vol option" where
  "evfs_entries_dereference_head a permission s = do {
     h \<leftarrow> get_ehead s a;
     if \<not> ehead_refcnt h > 0 then None
     else do {
       let h = h\<lparr>ehead_refcnt := ehead_refcnt h - 1\<rparr>;
       h \<leftarrow> (if kEvfsEntryNormal = permission then
              (if \<not> io_refcnt h > 0 then None else Some (h\<lparr>io_refcnt := io_refcnt h - 1\<rparr>))
            else Some h);
       let h = (if kEvfsEntryBusy = permission \<and> kEvfsEntryBusy = ehead_state h then h\<lparr>ehead_state := kEvfsEntryNormal\<rparr> else h);
       let s = put_ehead a h s;
       if 0 = ehead_refcnt h \<and> kEvfsEntryCloseWait = ehead_state h then evfs_entries_free_head a s else Some s
     }
   }"

definition evfs_entries_try_delete_head :: "nat \<Rightarrow> evfs_entry_state \<Rightarrow> evfs_vol \<Rightarrow> evfs_vol option" where
  "evfs_entries_try_delete_head a permission s = do {
     h \<leftarrow> get_ehead s a;
     let h = h\<lparr>ehead_state := kEvfsEntryCloseWait\<rparr>;
     let h = (if kEvfsEntryMandatory = permission \<and> 0 = io_refcnt h then h\<lparr>ehead_refcnt := 0\<rparr> else h);
     let s = put_ehead a h s;
     if 0 = ehead_refcnt h then evfs_entries_free_head a s else Some s
   }"

section \<open>New heads and elements\<close>

definition evfs_entries_insert_head :: "nat \<Rightarrow> evfs_vol \<Rightarrow> evfs_vol option" where
  "evfs_entries_insert_head a s = do {
     h \<leftarrow> get_ehead s a;
     t \<leftarrow> avlinsert (root_of_entries_tree (em s)) (Some (ehead_viewid h, a)) (Some evfs_entries_compare_entry_head);
     let s = s\<lparr>em := (em s)\<lparr>entries_list := entries_list (em s) @ [a], count_of_entries := count_of_entries (em s) + 1, root_of_entries_tree := t\<rparr>\<rparr>;
     if hd (ehead_key h) \<noteq> 0 then
       (if reads_behind (ehead_key h) (root_of_named_entries_tree (em s)) then None
        else do {
          t \<leftarrow> avlinsert (root_of_named_entries_tree (em s)) (Some (ehead_key h, a)) (Some evfs_entries_compare_named_entry_head);
          Some (s\<lparr>em := (em s)\<lparr>root_of_named_entries_tree := t\<rparr>\<rparr>)
        })
     else Some s
   }"

definition evfs_entries_insert_wild :: "nat \<Rightarrow> evfs_vol \<Rightarrow> evfs_vol" where
  "evfs_entries_insert_wild e s = s\<lparr>em := (em s)\<lparr>wild_list := wild_list (em s) @ [e], count_of_wild := count_of_wild (em s) + 1\<rparr>\<rparr>"

text \<open>The key of a new head: the given name, cut to 31 bytes, or what the cluster of the view says.\<close>

definition read_key :: "nat option \<Rightarrow> evfs_vol \<Rightarrow> (bytes \<times> evfs_vol) option" where
  "read_key vp s = do {
     (_, b, f) \<leftarrow> evfs_view_read_userdata vp (Some (replicate MAX_ENTRY_NAME_LENGTH 0)) 0 (int MAX_ENTRY_NAME_LENGTH) (fsys s);
     b \<leftarrow> b;
     Some (b, s\<lparr>fsys := f\<rparr>)
   }"

definition evfs_entries_alloc_head :: "nat option \<Rightarrow> bytes option \<Rightarrow> evfs_vol \<Rightarrow> (nat option \<times> evfs_vol) option" where
  "evfs_entries_alloc_head vp key s =
     (case ent_malloc sizeof_ehead s of
        (None, s) \<Rightarrow> Some (None, s)
      | (Some _, s) \<Rightarrow> do {
          let (a, s) = fresh_addr s;
          (i, k, s) \<leftarrow> (case vp of
              None \<Rightarrow> Some (0, replicate MAX_ENTRY_NAME_LENGTH 0, s)
            | Some _ \<Rightarrow> do {
                (k, s) \<leftarrow> (if key = None then read_key vp s else Some (replicate MAX_ENTRY_NAME_LENGTH 0, s));
                i \<leftarrow> evfs_view_get_viewid vp (fsys s);
                (_, s) \<leftarrow> on_fs (evfs_view_set_head vp None) s;
                Some (i, k, s)
              });
          let k = (case key of None \<Rightarrow> k | Some n \<Rightarrow> pad_key (take (MAX_ENTRY_NAME_LENGTH - 1) (c_str n)));
          Some (Some a, put_ehead a \<lparr>ehead_viewid = i, ehead_view = vp, elements = [], count_of_elements = 0, ehead_refcnt = 0, io_refcnt = 0,
            ehead_state = kEvfsEntryNormal, hard_remove_on_detach = False, ehead_key = k\<rparr> s)
        })"

definition evfs_entries_alloc_element :: "nat option \<Rightarrow> nat option \<Rightarrow> evfs_vol \<Rightarrow> (nat option \<times> evfs_vol) option" where
  "evfs_entries_alloc_element vp hp s =
     (case ent_malloc sizeof_element s of
        (None, s) \<Rightarrow> Some (None, s)
      | (Some _, s) \<Rightarrow> do {
          let (e, s) = fresh_addr s;
          (i, s) \<leftarrow> (case vp of
              None \<Rightarrow> Some (0, s)
            | Some _ \<Rightarrow> do {
                s \<leftarrow> (case hp of
                       None \<Rightarrow> Some s
                     | Some a \<Rightarrow> do { h \<leftarrow> get_ehead s a; (_, s) \<leftarrow> on_fs (evfs_view_set_head vp (ehead_view h)) s; Some s });
                i \<leftarrow> evfs_view_get_viewid vp (fsys s);
                Some (i, s)
              });
          let s = put_elem e \<lparr>elem_viewid = i, elem_view = vp, entry_head = (case hp of None \<Rightarrow> NullHead | Some a \<Rightarrow> HeadAt a)\<rparr> s;
          case hp of
            None \<Rightarrow> Some (Some e, s)
          | Some a \<Rightarrow> do {
              h \<leftarrow> get_ehead s a;
              Some (Some e, put_ehead a (h\<lparr>elements := elements h @ [e], count_of_elements := count_of_elements h + 1\<rparr>) s)
            }
        })"

section \<open>Starting and stopping\<close>

text \<open>An element found while loading keeps what its block held as the pointer to its head.\<close>

definition evfs_entries_raw_recognize :: "nat \<Rightarrow> evfs_vol \<Rightarrow> evfs_vol option" where
  "evfs_entries_raw_recognize v s = do {
     isHead \<leftarrow> evfs_view_looks_like_head (Some v) (fsys s);
     if isHead then do {
       (hp, s) \<leftarrow> evfs_entries_alloc_head (Some v) None s;
       case hp of None \<Rightarrow> Some s | Some a \<Rightarrow> evfs_entries_insert_head a s
     } else
       (case ent_malloc sizeof_element s of
          (None, s) \<Rightarrow> Some s
        | (Some blk, s) \<Rightarrow> do {
            junk \<leftarrow> mem_read blk 16 8;
            i \<leftarrow> evfs_view_get_viewid (Some v) (fsys s);
            let (e, s) = fresh_addr s;
            Some (evfs_entries_insert_wild e (put_elem e
              \<lparr>elem_viewid = i, elem_view = Some v, entry_head = (if junk = replicate 8 0 then NullHead else JunkHead)\<rparr> s))
          })
   }"

fun find_wild :: "int \<Rightarrow> nat list \<Rightarrow> evfs_vol \<Rightarrow> nat option option" where
  "find_wild i [] s = Some None"
| "find_wild i (e # es) s = do { x \<leftarrow> get_elem s e; if elem_viewid x = i then Some (Some e) else find_wild i es s }"

partial_function (option) adopt :: "nat \<Rightarrow> int \<Rightarrow> evfs_vol \<Rightarrow> evfs_vol option" where
  "adopt a i s =
     (if i \<le> 0 then Some s
      else Option.bind (find_wild i (wild_list (em s)) s) (\<lambda>found.
        case found of
          None \<Rightarrow> Option.bind (get_ehead s a) (\<lambda>h. evfs_entries_try_delete_head a kEvfsEntryMandatory (put_ehead a (h\<lparr>hard_remove_on_detach := True\<rparr>) s))
        | Some e \<Rightarrow> Option.bind (get_elem s e) (\<lambda>x. Option.bind (get_ehead s a) (\<lambda>h.
            let s = put_elem e (x\<lparr>entry_head := HeadAt a\<rparr>) s;
                s = s\<lparr>em := (em s)\<lparr>wild_list := remove1 e (wild_list (em s)), count_of_wild := count_of_wild (em s) - 1\<rparr>\<rparr>;
                s = put_ehead a (h\<lparr>elements := elements h @ [e], count_of_elements := count_of_elements h + 1\<rparr>) s
            in Option.bind (evfs_view_get_next_cluster_id (elem_view x) (fsys s)) (\<lambda>i. adopt a i s)))))"

fun adopt_all :: "nat list \<Rightarrow> evfs_vol \<Rightarrow> evfs_vol option" where
  "adopt_all [] s = Some s"
| "adopt_all (a # as) s = do {
     h \<leftarrow> get_ehead s a;
     i \<leftarrow> evfs_view_get_next_cluster_id (ehead_view h) (fsys s);
     s \<leftarrow> adopt a i s;
     adopt_all as s
   }"

fun free_wild :: "nat list \<Rightarrow> evfs_vol \<Rightarrow> evfs_vol option" where
  "free_wild [] s = Some s"
| "free_wild (e # es) s = do { s \<leftarrow> evfs_entries_free_element e s; free_wild es s }"

definition evfs_entries_init :: "evfs_vol \<Rightarrow> evfs_vol option" where
  "evfs_entries_init s = do {
     s \<leftarrow> adopt_all (entries_list (em s)) s;
     s \<leftarrow> free_wild (wild_list (em s)) s;
     Some (s\<lparr>em := (em s)\<lparr>ent_max_data_seg_size := evfs_view_get_max_data_seg_size (fsys s)\<rparr>\<rparr>)
   }"

definition evfs_entries_create :: "evfs_vol \<Rightarrow> (nsp_status \<times> evfs_vol) option" where
  "evfs_entries_create s = do {
     (status, s) \<leftarrow> on_fs evfs_view_create s;
     if \<not> NSP_SUCCESS status then Some (status, s)
     else do { s \<leftarrow> evfs_entries_init s; Some (status, s) }
   }"

definition recognize_callback :: "nat \<Rightarrow> evfs_fs \<times> evfs_entries_mgr \<Rightarrow> (evfs_fs \<times> evfs_entries_mgr) option" where
  "recognize_callback v = (\<lambda>(f, m). do { s \<leftarrow> evfs_entries_raw_recognize v \<lparr>fsys = f, em = m\<rparr>; Some (fsys s, em s) })"

definition evfs_entries_load :: "bytes \<Rightarrow> evfs_vol \<Rightarrow> (nsp_status \<times> evfs_vol) option" where
  "evfs_entries_load buf s = do {
     (status, f, m) \<leftarrow> evfs_view_load buf (Some recognize_callback) (fsys s, em s);
     let s = s\<lparr>fsys := f, em := m\<rparr>;
     if \<not> NSP_SUCCESS status then Some (status, s)
     else do { s \<leftarrow> evfs_entries_init s; Some (status, s) }
   }"

partial_function (option) delete_all :: "evfs_vol \<Rightarrow> evfs_vol option" where
  "delete_all s =
     (case entries_list (em s) of
        [] \<Rightarrow> Some s
      | a # _ \<Rightarrow> Option.bind (evfs_entries_try_delete_head a kEvfsEntryMandatory s) delete_all)"

definition evfs_entries_uninit :: "evfs_vol \<Rightarrow> evfs_vol option" where
  "evfs_entries_uninit s = do {
     s \<leftarrow> delete_all s;
     f \<leftarrow> evfs_view_uninit (fsys s);
     Some (s\<lparr>fsys := f\<rparr>)
   }"

section \<open>Opening and closing\<close>

text \<open>\<^term>\<open>entry_id\<close> says whether the caller gives a variable for the number; the result has its new content.\<close>

definition evfs_entries_create_one :: "bytes option \<Rightarrow> bool \<Rightarrow> evfs_vol \<Rightarrow> (nsp_status \<times> int option \<times> evfs_vol) option" where
  "evfs_entries_create_one key entry_id s =
     (if \<not> entry_id then Some (posix__makeerror EINVAL, None, s)
      else do {
        found \<leftarrow> (case key of None \<Rightarrow> Some None | Some k \<Rightarrow> evfs_entries_search_named_head k s);
        if found \<noteq> None then Some (posix__makeerror EEXIST, None, s)
        else do {
          (v, s) \<leftarrow> on_fs evfs_view_acquire_idle s;
          case v of
            None \<Rightarrow> Some (posix__makeerror ENOSPC, None, s)
          | Some _ \<Rightarrow> do {
              (hp, s) \<leftarrow> evfs_entries_alloc_head v key s;
              case hp of
                None \<Rightarrow> do { (_, s) \<leftarrow> on_fs (evfs_view_move_to_idle v) s; Some (posix__makeerror ENOMEM, None, s) }
              | Some a \<Rightarrow> do {
                  h \<leftarrow> get_ehead s a;
                  (status, s) \<leftarrow> on_fs (evfs_view_set_head_data_seg_size (ehead_view h) (int MAX_ENTRY_NAME_LENGTH)) s;
                  (status, s) \<leftarrow> (if \<not> NSP_SUCCESS status then Some (status, s)
                    else on_fs (evfs_view_write_userdata (ehead_view h) (Some (ehead_key h)) 0 (int MAX_ENTRY_NAME_LENGTH)) s);
                  if \<not> NSP_SUCCESS status then do {
                    (_, s) \<leftarrow> on_fs (evfs_view_move_to_idle v) (drop_ehead a s);
                    Some (status, None, s)
                  } else do {
                    s \<leftarrow> evfs_entries_insert_head a s;
                    i \<leftarrow> evfs_view_get_viewid v (fsys s);
                    (status, _, s) \<leftarrow> evfs_entries_reference_head (ehead_viewid h) kEvfsEntryOpen s;
                    Some (status, Some i, s)
                  }
                }
            }
        }
      })"

definition evfs_entries_open_one :: "int \<Rightarrow> evfs_vol \<Rightarrow> (nsp_status \<times> evfs_vol) option" where
  "evfs_entries_open_one i s = do { (status, _, s) \<leftarrow> evfs_entries_reference_head i kEvfsEntryOpen s; Some (status, s) }"

definition evfs_entries_open_one_by_name :: "bytes option \<Rightarrow> bool \<Rightarrow> evfs_vol \<Rightarrow> (nsp_status \<times> int option \<times> evfs_vol) option" where
  "evfs_entries_open_one_by_name key entry_id s =
     (case key of
        None \<Rightarrow> Some (posix__makeerror EINVAL, None, s)
      | Some k \<Rightarrow> do {
          (status, hp, s) \<leftarrow> evfs_entries_reference_head_by_name k kEvfsEntryOpen s;
          if \<not> NSP_SUCCESS status then Some (posix__makeerror ENOENT, None, s)
          else if entry_id then do { a \<leftarrow> hp; h \<leftarrow> get_ehead s a; Some (NSP_STATUS_SUCCESSFUL, Some (ehead_viewid h), s) }
          else Some (NSP_STATUS_SUCCESSFUL, None, s)
        })"

definition evfs_entries_close_one :: "int \<Rightarrow> evfs_vol \<Rightarrow> evfs_vol option" where
  "evfs_entries_close_one i s = do {
     (status, hp, s) \<leftarrow> evfs_entries_reference_head i kEvfsEntryOpen s;
     if NSP_SUCCESS status then do {
       a \<leftarrow> hp;
       s \<leftarrow> evfs_entries_dereference_head a kEvfsEntryOpen s;
       evfs_entries_dereference_head a kEvfsEntryOpen s
     } else Some s
   }"

section \<open>The chain of elements\<close>

definition element_view :: "nat \<Rightarrow> evfs_vol \<Rightarrow> nat option option" where
  "element_view e s = map_option elem_view (get_elem s e)"

text \<open>Linking new views behind the last element; False when an element could not be allocated.\<close>

fun link_elements :: "nat \<Rightarrow> nat option \<Rightarrow> nat list \<Rightarrow> evfs_vol \<Rightarrow> (bool \<times> evfs_vol) option" where
  "link_elements a lst [] s = Some (True, s)"
| "link_elements a lst (v # vs) s = do {
     (ep, s) \<leftarrow> evfs_entries_alloc_element (Some v) (Some a) s;
     case ep of
       None \<Rightarrow> Some (False, s)
     | Some e \<Rightarrow> do {
         pv \<leftarrow> (case lst of None \<Rightarrow> map_option ehead_view (get_ehead s a) | Some l \<Rightarrow> element_view l s);
         (_, s) \<leftarrow> on_fs (evfs_view_set_next pv (Some v)) s;
         link_elements a (Some e) vs s
       }
   }"

fun write_element_heads :: "nsp_status \<Rightarrow> nat list \<Rightarrow> evfs_vol \<Rightarrow> (nsp_status \<times> evfs_vol) option" where
  "write_element_heads status [] s = Some (status, s)"
| "write_element_heads status (e # es) s = do {
     vp \<leftarrow> element_view e s;
     (status, s) \<leftarrow> on_fs (evfs_view_write_head vp) s;
     if \<not> NSP_SUCCESS status then Some (status, s) else write_element_heads status es s
   }"

definition last_or_none :: "nat list \<Rightarrow> nat option" where
  "last_or_none xs = (if xs = [] then None else Some (last xs))"

definition evfs_entries_alloc_idle_elements_for_head :: "nat option \<Rightarrow> int \<Rightarrow> evfs_vol \<Rightarrow> (nsp_status \<times> evfs_vol) option" where
  "evfs_entries_alloc_idle_elements_for_head hp quota s =
     (case hp of
        None \<Rightarrow> Some (posix__makeerror EINVAL, s)
      | Some a \<Rightarrow>
          if 0 = quota then Some (NSP_STATUS_SUCCESSFUL, s)
          else
            (case ent_malloc (quota * 8) s of
               (None, s) \<Rightarrow> Some (posix__makeerror ENOMEM, s)
             | (Some _, s) \<Rightarrow> do {
                 (status, vs, f) \<leftarrow> evfs_view_acquire_idle_more quota (fsys s);
                 let s = s\<lparr>fsys := f\<rparr>;
                 if \<not> NSP_SUCCESS status then Some (status, s)
                 else do {
                   h \<leftarrow> get_ehead s a;
                   let cover = (elements h = []);
                   (linked, s) \<leftarrow> link_elements a (last_or_none (elements h)) vs s;
                   if \<not> linked then do { s \<leftarrow> free_elements a s; Some (posix__makeerror ENOMEM, s) }
                   else do {
                     h \<leftarrow> get_ehead s a;
                     (status, s) \<leftarrow> write_element_heads status (elements h) s;
                     if cover \<and> NSP_SUCCESS status then on_fs (evfs_view_write_head (ehead_view h)) s else Some (status, s)
                   }
                 }
               }))"

text \<open>Releasing elements from the end of the list.\<close>

fun free_last :: "nat \<Rightarrow> nat \<Rightarrow> evfs_vol \<Rightarrow> evfs_vol option" where
  "free_last 0 a s = Some s"
| "free_last (Suc k) a s = do {
     h \<leftarrow> get_ehead s a;
     e \<leftarrow> last_or_none (elements h);
     s \<leftarrow> evfs_entries_free_element e s;
     free_last k a s
   }"

definition last_view :: "nat \<Rightarrow> evfs_vol \<Rightarrow> nat option option" where
  "last_view a s = do { h \<leftarrow> get_ehead s a; e \<leftarrow> last_or_none (elements h); element_view e s }"

fun fill_last :: "nat \<Rightarrow> nat \<Rightarrow> evfs_vol \<Rightarrow> evfs_vol option" where
  "fill_last 0 a s = Some s"
| "fill_last (Suc k) a s = do {
     vp \<leftarrow> last_view a s;
     (_, s) \<leftarrow> on_fs (evfs_view_set_element_data_seg_size vp (ent_max_data_seg_size (em s))) s;
     fill_last k a s
   }"

definition truncate_body :: "nat \<Rightarrow> int \<Rightarrow> nsp_status \<Rightarrow> evfs_vol \<Rightarrow> (nsp_status \<times> evfs_vol) option" where
  "truncate_body a n status s = do {
     h \<leftarrow> get_ehead s a;
     current \<leftarrow> evfs_view_get_data_seg_size (ehead_view h) (fsys s);
     if n = current then Some (status, s)
     else do {
       let q = evfs_view_transfer_size_to_cluster_count n (fsys s);
       if q \<le> 0 then Some (posix__makeerror EINVAL, s)
       else do {
         let q = q - 1;
         if q = count_of_elements h then on_fs (evfs_view_set_head_data_seg_size (ehead_view h) n) s
         else if q < count_of_elements h then do {
           s \<leftarrow> free_last (nat (count_of_elements h - q)) a s;
           h \<leftarrow> get_ehead s a;
           vp \<leftarrow> (if count_of_elements h > 0 then last_view a s else Some (ehead_view h));
           (_, s) \<leftarrow> on_fs (evfs_view_set_next vp None) s;
           on_fs (evfs_view_set_head_data_seg_size (ehead_view h) n) s
         } else do {
           (status, s) \<leftarrow> on_fs (evfs_view_set_head_data_seg_size (ehead_view h) n) s;
           if \<not> NSP_SUCCESS status then Some (status, s)
           else do {
             (status, s) \<leftarrow> evfs_entries_alloc_idle_elements_for_head (Some a) q s;
             if \<not> NSP_SUCCESS status then Some (status, s)
             else do { s \<leftarrow> fill_last (nat q) a s; Some (status, s) }
           }
         }
       }
     }
   }"

definition evfs_entries_truncate :: "int \<Rightarrow> int \<Rightarrow> evfs_vol \<Rightarrow> (nsp_status \<times> evfs_vol) option" where
  "evfs_entries_truncate i n s = do {
     (status, hp, s) \<leftarrow> evfs_entries_reference_head i kEvfsEntryBusy s;
     if \<not> NSP_SUCCESS status then Some (status, s)
     else do {
       a \<leftarrow> hp;
       (status, s) \<leftarrow> truncate_body a n status s;
       s \<leftarrow> evfs_entries_dereference_head a kEvfsEntryBusy s;
       Some (status, s)
     }
   }"

fun flush_elements :: "nat list \<Rightarrow> evfs_vol \<Rightarrow> evfs_vol option" where
  "flush_elements [] s = Some s"
| "flush_elements (e # es) s = do { vp \<leftarrow> element_view e s; f \<leftarrow> evfs_view_flush vp (fsys s); flush_elements es (s\<lparr>fsys := f\<rparr>) }"

definition evfs_entries_flush :: "int \<Rightarrow> evfs_vol \<Rightarrow> evfs_vol option" where
  "evfs_entries_flush i s = do {
     (status, hp, s) \<leftarrow> evfs_entries_reference_head i kEvfsEntryNormal s;
     if \<not> NSP_SUCCESS status then Some s
     else do {
       a \<leftarrow> hp;
       h \<leftarrow> get_ehead s a;
       s \<leftarrow> flush_elements (elements h) s;
       f \<leftarrow> evfs_view_flush (ehead_view h) (fsys s);
       evfs_entries_dereference_head a kEvfsEntryNormal (s\<lparr>fsys := f\<rparr>)
     }
   }"

section \<open>Data\<close>

text \<open>The successor in the list; a node that is not in the list has none that is defined.\<close>

fun next_in :: "nat list \<Rightarrow> nat \<Rightarrow> nat option option" where
  "next_in [] e = None"
| "next_in (x # xs) e = (if x = e then Some (case xs of [] \<Rightarrow> None | y # _ \<Rightarrow> Some y) else next_in xs e)"

definition evfs_entries_first_element_or_null :: "nat \<Rightarrow> evfs_vol \<Rightarrow> nat option option" where
  "evfs_entries_first_element_or_null a s = do { h \<leftarrow> get_ehead s a; Some (case elements h of [] \<Rightarrow> None | e # _ \<Rightarrow> Some e) }"

definition evfs_entries_next_element_or_null :: "nat \<Rightarrow> nat \<Rightarrow> evfs_vol \<Rightarrow> nat option option" where
  "evfs_entries_next_element_or_null e a s = do { h \<leftarrow> get_ehead s a; next_in (elements h) e }"

definition last_element :: "nat \<Rightarrow> evfs_vol \<Rightarrow> nat option" where
  "last_element a s = do { h \<leftarrow> get_ehead s a; last_or_none (elements h) }"

definition last_or_new :: "nat \<Rightarrow> nat option \<Rightarrow> evfs_vol \<Rightarrow> (nat option \<times> evfs_vol) option" where
  "last_or_new a ep s =
     (case ep of
        Some e \<Rightarrow> Some (Some e, s)
      | None \<Rightarrow> do {
          (status, s) \<leftarrow> evfs_entries_alloc_idle_elements_for_head (Some a) 1 s;
          if \<not> NSP_SUCCESS status then Some (None, s)
          else do { e \<leftarrow> last_element a s; Some (Some e, s) }
        })"

text \<open>How much goes into an element; an element without a size gets one.\<close>

definition element_room :: "nat \<Rightarrow> int \<Rightarrow> int \<Rightarrow> evfs_vol \<Rightarrow> (int \<times> evfs_vol) option" where
  "element_room e off remain s = do {
     vp \<leftarrow> element_view e s;
     n \<leftarrow> evfs_view_get_data_seg_size vp (fsys s);
     if n > 0 then Some (min remain n, s)
     else do {
       let c = min remain (ent_max_data_seg_size (em s) - off);
       (_, s) \<leftarrow> on_fs (evfs_view_set_element_data_seg_size vp (off + c)) s;
       Some (c, s)
     }
   }"

partial_function (option) evfs_entries_write_element ::
    "nat option \<Rightarrow> nat \<Rightarrow> bytes \<Rightarrow> int \<Rightarrow> int \<Rightarrow> evfs_vol \<Rightarrow> (int \<times> evfs_vol) option" where
  "evfs_entries_write_element ep a data off remain s =
     (if remain \<le> 0 \<or> off < 0 \<or> off \<ge> ent_max_data_seg_size (em s) then Some (0, s)
      else Option.bind (last_or_new a ep s) (\<lambda>(ep, s).
        case ep of
          None \<Rightarrow> Some (0, s)
        | Some e \<Rightarrow> Option.bind (element_room e off remain s) (\<lambda>(c, s).
            Option.bind (element_view e s) (\<lambda>vp.
            Option.bind (on_fs (evfs_view_write_userdata vp (Some data) off c) s) (\<lambda>(r, s).
              if r \<noteq> c \<or> remain = r then Some (r, s)
              else Option.bind (evfs_entries_next_element_or_null e a s) (\<lambda>ep.
                Option.bind (evfs_entries_write_element ep a (drop (nat r) data) 0 (remain - r) s) (\<lambda>(q, s).
                  Some (r + q, s))))))))"

text \<open>Going to the element of an offset, adding elements as needed: an error, or the element and the offset in it.\<close>

partial_function (option) seek_write :: "nat \<Rightarrow> nat option \<Rightarrow> int \<Rightarrow> evfs_vol \<Rightarrow> ((nsp_status + nat option \<times> int) \<times> evfs_vol) option" where
  "seek_write a ep off s =
     (if off < ent_max_data_seg_size (em s) then Some (Inr (ep, off), s)
      else
        case ep of
          None \<Rightarrow> Option.bind (evfs_entries_alloc_idle_elements_for_head (Some a) 1 s) (\<lambda>(status, s).
            if \<not> NSP_SUCCESS status then Some (Inl status, s)
            else Option.bind (last_element a s) (\<lambda>e. Option.bind (element_view e s) (\<lambda>vp.
              Option.bind (on_fs (evfs_view_set_element_data_seg_size vp (ent_max_data_seg_size (em s))) s) (\<lambda>(_, s).
                Option.bind (evfs_entries_next_element_or_null e a s) (\<lambda>ep. seek_write a ep (off - ent_max_data_seg_size (em s)) s)))))
        | Some e \<Rightarrow> Option.bind (element_view e s) (\<lambda>vp. Option.bind (evfs_view_get_data_seg_size vp (fsys s)) (\<lambda>n.
            Option.bind (evfs_entries_next_element_or_null e a s) (\<lambda>ep.
              seek_write a ep (off - (if n > 0 then n else ent_max_data_seg_size (em s))) s))))"



definition evfs_entries_write_data :: "int \<Rightarrow> bytes option \<Rightarrow> int \<Rightarrow> int \<Rightarrow> evfs_vol \<Rightarrow> (int \<times> evfs_vol) option" where
  "evfs_entries_write_data i data offset n s =
     (case data of
        None \<Rightarrow> Some (posix__makeerror EINVAL, s)
      | Some d \<Rightarrow>
          if i \<le> 0 \<or> n \<le> 0 then Some (posix__makeerror EINVAL, s)
          else do {
            (status, hp, s) \<leftarrow> evfs_entries_reference_head i kEvfsEntryNormal s;
            if \<not> NSP_SUCCESS status then Some (status, s)
            else do {
              a \<leftarrow> hp;
              h \<leftarrow> get_ehead s a;
              let cpoff = to_int (offset + int MAX_ENTRY_NAME_LENGTH);
              e \<leftarrow> c_int (cpoff + n);
              seg \<leftarrow> evfs_view_get_data_seg_size (ehead_view h) (fsys s);
              s \<leftarrow> (if e > seg then do { (_, s) \<leftarrow> on_fs (evfs_view_set_head_data_seg_size (ehead_view h) e) s; Some s } else Some s);
              let m = ent_max_data_seg_size (em s);
              (r, c, rem, s) \<leftarrow> (if cpoff < m then do {
                  x \<leftarrow> c_int (m - cpoff);
                  let c = min x n;
                  (k, s) \<leftarrow> on_fs (evfs_view_write_userdata (ehead_view h) data cpoff c) s;
                  ep \<leftarrow> evfs_entries_first_element_or_null a s;
                  Some (Inr (ep, 0), c, n - k, s)
                } else do {
                  ep \<leftarrow> evfs_entries_first_element_or_null a s;
                  (r, s) \<leftarrow> seek_write a ep (cpoff - m) s;
                  Some (r, 0, n, s)
                });
              case r of
                Inl status \<Rightarrow> do { s \<leftarrow> evfs_entries_dereference_head a kEvfsEntryNormal s; Some (status, s) }
              | Inr (ep, off) \<Rightarrow> do {
                  (total, s) \<leftarrow> (if 0 = rem then Some (c, s)
                    else do { (q, s) \<leftarrow> evfs_entries_write_element ep a (drop (nat c) d) off rem s; Some (c + q, s) });
                  s \<leftarrow> evfs_entries_dereference_head a kEvfsEntryNormal s;
                  Some (total, s)
                }
            }
          })"

text \<open>Reading fills the block from its start; the result is how much, and the block.\<close>

definition read_view :: "nat option \<Rightarrow> bytes \<Rightarrow> int \<Rightarrow> int \<Rightarrow> evfs_vol \<Rightarrow> (int \<times> bytes \<times> evfs_vol) option" where
  "read_view vp buf off n s = do {
     (r, b, f) \<leftarrow> evfs_view_read_userdata vp (Some buf) off n (fsys s);
     b \<leftarrow> b;
     Some (r, b, s\<lparr>fsys := f\<rparr>)
   }"

partial_function (option) evfs_entries_read_element ::
    "nat option \<Rightarrow> nat \<Rightarrow> bytes \<Rightarrow> int \<Rightarrow> int \<Rightarrow> evfs_vol \<Rightarrow> (int \<times> bytes \<times> evfs_vol) option" where
  "evfs_entries_read_element ep a buf off remain s =
     (case ep of
        None \<Rightarrow> Some (0, buf, s)
      | Some e \<Rightarrow>
          if remain \<le> 0 \<or> off < 0 \<or> off \<ge> ent_max_data_seg_size (em s) then Some (0, buf, s)
          else Option.bind (element_view e s) (\<lambda>vp. Option.bind (evfs_view_get_data_seg_size vp (fsys s)) (\<lambda>n.
            if n \<le> 0 then Some (0, buf, s)
            else Option.bind (read_view vp buf off (min remain (n - off)) s) (\<lambda>(r, buf, s).
              if r \<noteq> min remain (n - off) \<or> remain = r then Some (r, buf, s)
              else Option.bind (evfs_entries_next_element_or_null e a s) (\<lambda>ep.
                Option.bind (evfs_entries_read_element ep a (drop (nat r) buf) 0 (remain - r) s) (\<lambda>(q, b, s).
                  Some (r + q, take (nat r) buf @ b, s)))))))"

fun seek_read :: "nat list \<Rightarrow> int \<Rightarrow> evfs_vol \<Rightarrow> (nat option \<times> int) option" where
  "seek_read [] off s = Some (None, off)"
| "seek_read (e # es) off s =
     (if off < ent_max_data_seg_size (em s) then Some (Some e, off)
      else do {
        vp \<leftarrow> element_view e s;
        n \<leftarrow> evfs_view_get_data_seg_size vp (fsys s);
        seek_read es (if n > 0 then off - n else off) s
      })"

text \<open>Where reading goes on after the head: the element, the offset in it, how much the head gave and what remains, and the block.\<close>

definition read_from_head :: "nat \<Rightarrow> int \<Rightarrow> int \<Rightarrow> bytes \<Rightarrow> evfs_vol \<Rightarrow> (nat option \<times> int \<times> int \<times> int \<times> bytes \<times> evfs_vol) option" where
  "read_from_head a cpoff n buf s = do {
     h \<leftarrow> get_ehead s a;
     seg \<leftarrow> evfs_view_get_data_seg_size (ehead_view h) (fsys s);
     if seg \<le> 0 then Some (None, 0, 0, 0, buf, s)
     else do {
       d \<leftarrow> c_int (seg - cpoff);
       let rem = min d n;
       let m = ent_max_data_seg_size (em s);
       if rem \<le> 0 then Some (None, 0, 0, 0, buf, s)
       else if cpoff < m then do {
         x \<leftarrow> c_int (m - cpoff);
         let c = min x rem;
         (r, buf, s) \<leftarrow> read_view (ehead_view h) buf cpoff c s;
         ep \<leftarrow> (if r \<noteq> c then Some None else evfs_entries_first_element_or_null a s);
         Some (ep, 0, c, rem - r, buf, s)
       } else do {
         h \<leftarrow> get_ehead s a;
         (ep, off) \<leftarrow> seek_read (elements h) (cpoff - m) s;
         Some (ep, off, 0, rem, buf, s)
       }
     }
   }"

definition evfs_entries_read_data :: "int \<Rightarrow> bytes option \<Rightarrow> int \<Rightarrow> int \<Rightarrow> evfs_vol \<Rightarrow> (int \<times> bytes option \<times> evfs_vol) option" where
  "evfs_entries_read_data i data offset n s =
     (case data of
        None \<Rightarrow> Some (posix__makeerror EINVAL, data, s)
      | Some buf \<Rightarrow>
          if i < 0 \<or> offset < 0 \<or> n \<le> 0 then Some (posix__makeerror EINVAL, data, s)
          else do {
            (status, hp, s) \<leftarrow> evfs_entries_reference_head i kEvfsEntryNormal s;
            if \<not> NSP_SUCCESS status then Some (status, data, s)
            else do {
              a \<leftarrow> hp;
              (ep, off, c, rem, buf, s) \<leftarrow> read_from_head a (to_int (int MAX_ENTRY_NAME_LENGTH + offset)) n buf s;
              (total, buf, s) \<leftarrow> (if 0 = rem then Some (c, buf, s)
                else do {
                  (q, b, s) \<leftarrow> evfs_entries_read_element ep a (drop (nat c) buf) off rem s;
                  Some (c + q, take (nat c) buf @ b, s)
                });
              s \<leftarrow> evfs_entries_dereference_head a kEvfsEntryNormal s;
              Some (total, Some buf, s)
            }
          })"

section \<open>Queries, iteration and deletion\<close>

text \<open>\<^term>\<open>strcpy\<close> writes the name and its terminator into the caller's block.\<close>

definition evfs_entries_query_key :: "int \<Rightarrow> bytes option \<Rightarrow> evfs_vol \<Rightarrow> (int \<times> bytes option \<times> evfs_vol) option" where
  "evfs_entries_query_key i key s = do {
     (status, hp, s) \<leftarrow> evfs_entries_reference_head i kEvfsEntryNormal s;
     if \<not> NSP_SUCCESS status then Some (status, key, s)
     else do {
       a \<leftarrow> hp;
       h \<leftarrow> get_ehead s a;
       let k = c_str (ehead_key h);
       if length k = length (ehead_key h) then None
       else do {
         key \<leftarrow> (case key of
             Some b \<Rightarrow> if length k > 0 then do { b \<leftarrow> mem_write b 0 (k @ [0]); Some (Some b) } else Some key
           | None \<Rightarrow> Some None);
         s \<leftarrow> evfs_entries_dereference_head a kEvfsEntryNormal s;
         Some (int (length k), key, s)
       }
     }
   }"

definition evfs_entries_query_user_seg_size :: "int \<Rightarrow> evfs_vol \<Rightarrow> (int \<times> evfs_vol) option" where
  "evfs_entries_query_user_seg_size i s = do {
     (status, hp, s) \<leftarrow> evfs_entries_reference_head i kEvfsEntryNormal s;
     if \<not> NSP_SUCCESS status then Some (status, s)
     else do {
       a \<leftarrow> hp;
       h \<leftarrow> get_ehead s a;
       n \<leftarrow> evfs_view_get_data_seg_size (ehead_view h) (fsys s);
       s \<leftarrow> evfs_entries_dereference_head a kEvfsEntryNormal s;
       Some (if n > 0 then n - int MAX_ENTRY_NAME_LENGTH else n, s)
     }
   }"

text \<open>A position is NULL (\<^term>\<open>None\<close>), the list head (\<^term>\<open>Some None\<close>) or an entry. The loop gives the number and the next position.\<close>

fun list_from :: "nat list \<Rightarrow> nat \<Rightarrow> nat list option" where
  "list_from [] a = None"
| "list_from (x # xs) a = (if x = a then Some (x # xs) else list_from xs a)"

definition list_pos :: "nat list \<Rightarrow> nat option option" where
  "list_pos as = Some (case as of [] \<Rightarrow> None | a # _ \<Rightarrow> Some a)"

fun iterate_loop :: "nat list \<Rightarrow> evfs_vol \<Rightarrow> (int \<times> nat option option) option" where
  "iterate_loop [] s = Some (- 1, list_pos [])"
| "iterate_loop (a # as) s = do {
     h \<leftarrow> get_ehead s a;
     if ehead_state h = kEvfsEntryNormal then Some (ehead_viewid h, list_pos as) else iterate_loop as s
   }"

definition evfs_entries_iterate :: "nat option option \<Rightarrow> evfs_vol \<Rightarrow> (int \<times> nat option option) option" where
  "evfs_entries_iterate pos s =
     (case pos of
        None \<Rightarrow> iterate_loop (entries_list (em s)) s
      | Some None \<Rightarrow> iterate_loop [] s
      | Some (Some a) \<Rightarrow> do { as \<leftarrow> list_from (entries_list (em s)) a; iterate_loop as s })"

text \<open>Both deletions differ in the flag they set; \<^term>\<open>hard\<close> says which.\<close>

definition delete_referenced :: "bool \<Rightarrow> nsp_status \<Rightarrow> nat option \<Rightarrow> evfs_vol \<Rightarrow> (nsp_status \<times> evfs_vol) option" where
  "delete_referenced hard status hp s =
     (if \<not> NSP_SUCCESS status then Some (status, s)
      else do {
        a \<leftarrow> hp;
        h \<leftarrow> get_ehead s a;
        let s = (if hard then put_ehead a (h\<lparr>hard_remove_on_detach := True\<rparr>) s else s);
        s \<leftarrow> evfs_entries_try_delete_head a kEvfsEntryNormal s;
        s \<leftarrow> evfs_entries_dereference_head a kEvfsEntryNormal s;
        Some (status, s)
      })"

definition evfs_entries_soft_delete :: "int \<Rightarrow> evfs_vol \<Rightarrow> (nsp_status \<times> evfs_vol) option" where
  "evfs_entries_soft_delete i s = do {
     (status, hp, s) \<leftarrow> evfs_entries_reference_head i kEvfsEntryNormal s;
     delete_referenced False status hp s
   }"

definition evfs_entries_hard_delete :: "int \<Rightarrow> evfs_vol \<Rightarrow> (nsp_status \<times> evfs_vol) option" where
  "evfs_entries_hard_delete i s = do {
     (status, hp, s) \<leftarrow> evfs_entries_reference_head i kEvfsEntryNormal s;
     delete_referenced True status hp s
   }"

definition evfs_entries_hard_delete_by_name :: "bytes option \<Rightarrow> evfs_vol \<Rightarrow> (nsp_status \<times> evfs_vol) option" where
  "evfs_entries_hard_delete_by_name key s = do {
     k \<leftarrow> key;
     (status, hp, s) \<leftarrow> evfs_entries_reference_head_by_name k kEvfsEntryNormal s;
     delete_referenced True status hp s
   }"

definition evfs_entries_get_entry_id_by_name :: "bytes option \<Rightarrow> evfs_vol \<Rightarrow> (int \<times> evfs_vol) option" where
  "evfs_entries_get_entry_id_by_name key s = do {
     k \<leftarrow> key;
     (status, hp, s) \<leftarrow> evfs_entries_reference_head_by_name k kEvfsEntryNormal s;
     if \<not> NSP_SUCCESS status then Some (status, s)
     else do {
       a \<leftarrow> hp;
       h \<leftarrow> get_ehead s a;
       s \<leftarrow> evfs_entries_dereference_head a kEvfsEntryNormal s;
       Some (ehead_viewid h, s)
     }
   }"

text \<open>The counts of views (unset when the views are not started) and of entries.\<close>

definition evfs_entries_soft_stat :: "bool \<Rightarrow> evfs_vol \<Rightarrow> nsp_status \<times> (int \<times> int) option \<times> int option" where
  "evfs_entries_soft_stat stat s =
     (if \<not> stat then (posix__makeerror EINVAL, None, None)
      else (NSP_STATUS_SUCCESSFUL, evfs_view_get_count (fsys s), Some (count_of_entries (em s))))"

end
