(* ===== verification/EvfsEntriesInv.thy ===== *)
theory EvfsEntriesInv
  imports EvfsEntries
begin

text \<open>
  What \<^theory_text>\<open>EvfsEntries\<close> rests on: names and their index, heads and bodies of clusters, and the operations on busy views in terms of the
  clusters they are about.
\<close>

section \<open>Names\<close>

text \<open>Names are ordered as their bytes up to the terminator.\<close>

typedef cname = "{k :: bytes. 0 \<notin> set k}"
  by (rule exI [of _ "[]"]) simp

setup_lifting type_definition_cname

instantiation cname :: linorder
begin

lift_definition less_eq_cname :: "cname \<Rightarrow> cname \<Rightarrow> bool" is "\<lambda>a b. a \<le> b" .

lift_definition less_cname :: "cname \<Rightarrow> cname \<Rightarrow> bool" is "\<lambda>a b. a < b" .

instance
  by standard (transfer, force)+

end

lemma c_str_no_zero: "0 \<notin> set (c_str k)"
  using set_takeWhileD [of 0 "\<lambda>x. x \<noteq> 0" k] by (auto simp: c_str_def)

lift_definition name_of_block :: "bytes \<Rightarrow> cname" is c_str
  by (rule c_str_no_zero)

lift_definition noname :: cname is "[]"
  by simp

lemma c_str_id: "0 \<notin> set k \<Longrightarrow> c_str k = k"
  by (auto simp: c_str_def takeWhile_eq_all_conv)

lemma name_of_rep [simp]: "name_of_block (Rep_cname n) = n"
  by transfer (rule c_str_id)

lemma strcmp_c_str: "strcmp x y = (if c_str x < c_str y then - 1 else if c_str x > c_str y then 1 else 0)"
  by (induction x y rule: strcmp.induct) (auto simp: c_str_def word_gt_0)

lemma compare_by_name_simple: "evfs_entries_compare_named_entry_head = avl_simple_compare (\<lambda>n. name_of_block (fst n))"
  by (auto simp: fun_eq_iff evfs_entries_compare_named_entry_head_def avl_simple_compare_def strcmp_c_str less_cname.rep_eq name_of_block.rep_eq)

definition name_lookup :: "(bytes \<times> nat) avltree \<Rightarrow> cname \<Rightarrow> (bytes \<times> nat) option" where
  "name_lookup t n = avlsearch t (Some (Rep_cname n, 0)) (Some evfs_entries_compare_named_entry_head)"

definition name_ok :: "(bytes \<times> nat) avltree \<Rightarrow> bool" where
  "name_ok t \<longleftrightarrow> avl t \<and> avl_ordered evfs_entries_compare_named_entry_head t"

interpretation nmix: keyed_index "\<lambda>n. name_of_block (fst n)" AvlNull name_lookup
  "\<lambda>t n. avlinsert t (Some n) (Some evfs_entries_compare_named_entry_head)"
  "\<lambda>t n. avlremove_rec evfs_entries_compare_named_entry_head t (Rep_cname n, 0)"
  "avl_modify (\<lambda>n. name_of_block (fst n))" name_ok
  unfolding compare_by_name_simple name_lookup_def [abs_def] name_ok_def [abs_def]
  by (rule avl_keyed_index) simp

definition name_of :: "(bytes \<times> nat) avltree \<Rightarrow> cname \<Rightarrow> nat option" where
  "name_of t n = map_option snd (name_lookup t n)"

lemma name_insert:
  assumes "name_ok t" "name_of t (name_of_block k) = None"
  shows "\<exists>t'. avlinsert t (Some (k, a)) (Some evfs_entries_compare_named_entry_head) = Some t' \<and> name_ok t' \<and> name_of t' = (name_of t)(name_of_block k \<mapsto> a)"
  using nmix.insert_new [OF assms(1), of "(k, a)"] assms(2) by (auto simp: name_of_def fun_eq_iff)

lemma name_remove:
  assumes "name_ok t"
  shows "\<exists>t'. avlremove t (Some (k, a)) None (Some evfs_entries_compare_named_entry_head) = Some (t', None) \<and> name_ok t' \<and>
    name_of t' = (name_of t)(name_of_block k := None)"
proof (cases t)
  case AvlNull
  then show ?thesis using nmix.invar_empty nmix.lookup_empty by (auto simp: avlremove_def name_of_def fun_eq_iff)
next
  case (AvlNode l x h r)
  let ?n = "name_of_block k"
  obtain t' where t': "avlremove_rec evfs_entries_compare_named_entry_head t (Rep_cname ?n, 0) = Some (t', name_lookup t ?n)" "name_ok t'"
    "name_lookup t' = (name_lookup t)(?n := None)"
    using nmix.delete_ok [OF assms] by blast
  have "avlremove_rec evfs_entries_compare_named_entry_head t (k, a) = avlremove_rec evfs_entries_compare_named_entry_head t (Rep_cname ?n, 0)"
    unfolding compare_by_name_simple by (rule remove_by_key) simp
  then show ?thesis using t' AvlNode by (auto simp: avlremove_def name_of_def fun_eq_iff)
qed

lemma search_by_key: "key n = key m \<Longrightarrow> avlsearch_loop (avl_simple_compare key) t n = avlsearch_loop (avl_simple_compare key) t m"
  by (induction t) (simp_all add: avl_simple_compare_def)

lemma name_of_padded: "0 \<notin> set k \<Longrightarrow> name_of_block (pad_key k) = name_of_block k"
proof -
  assume k: "0 \<notin> set k"
  have "\<forall>x \<in> set k. x \<noteq> 0" using k by metis
  then have "c_str (pad_key k) = k @ takeWhile (\<lambda>x. x \<noteq> 0) (replicate (MAX_ENTRY_NAME_LENGTH - length k) 0)"
    by (simp add: c_str_def pad_key_def takeWhile_append2)
  then have "c_str (pad_key k) = k" by (cases "MAX_ENTRY_NAME_LENGTH - length k") simp_all
  then show ?thesis using c_str_id [OF k] by (simp add: name_of_block_def)
qed

lemma name_search:
  assumes "0 \<notin> set k"
  shows "map_option snd (avlsearch t (Some (pad_key k, 0)) (Some evfs_entries_compare_named_entry_head)) = name_of t (name_of_block k)"
  using name_of_padded [OF assms] search_by_key [of "\<lambda>n. name_of_block (fst n)" "(pad_key k, 0)" "(Rep_cname (name_of_block k), 0)" t]
  by (simp add: name_of_def name_lookup_def avlsearch_def compare_by_name_simple)

section \<open>Clusters\<close>

text \<open>Head and body of a cluster, and a new head.\<close>

definition hd_of :: "(nat \<Rightarrow> bytes) \<Rightarrow> nat \<Rightarrow> evfs_cluster" where
  "hd_of V c = the (head_at (V c) 0)"

definition body :: "(nat \<Rightarrow> bytes) \<Rightarrow> nat \<Rightarrow> bytes" where
  "body V c = drop 12 (V c)"

definition set_hd :: "(nat \<Rightarrow> bytes) \<Rightarrow> nat \<Rightarrow> evfs_cluster \<Rightarrow> nat \<Rightarrow> bytes" where
  "set_hd V c h = V(c := head_bytes h @ body V c)"

definition set_body :: "(nat \<Rightarrow> bytes) \<Rightarrow> nat \<Rightarrow> bytes \<Rightarrow> nat \<Rightarrow> bytes" where
  "set_body V c b = V(c := take 12 (V c) @ b)"

lemma hd_of_set_hd [simp]: "head_range h \<Longrightarrow> hd_of (set_hd V c h) c = h"
  by (simp add: hd_of_def set_hd_def head_at_bytes)

lemma body_set_hd [simp]: "body (set_hd V c h) = body V"
  by (auto simp: body_def set_hd_def)

lemma hd_of_set_hd_other [simp]: "d \<noteq> c \<Longrightarrow> hd_of (set_hd V c h) d = hd_of V d"
  by (simp add: hd_of_def set_hd_def)

lemma set_hd_other [simp]: "d \<noteq> c \<Longrightarrow> set_hd V c h d = V d" "d \<noteq> c \<Longrightarrow> set_body V c b d = V d"
  by (simp_all add: set_hd_def set_body_def)

lemma hd_of_take: "12 \<le> length (V c) \<Longrightarrow> 12 \<le> length (W d) \<Longrightarrow> take 12 (V c) = take 12 (W d) \<Longrightarrow> hd_of V c = hd_of W d"
  using head_at_Some [of "V c"] head_at_Some [of "W d"] head_at_take [of "V c"] unfolding hd_of_def by fastforce

lemma hd_of_set_body: "12 \<le> length (V c) \<Longrightarrow> hd_of (set_body V c b) d = hd_of V d"
proof (cases "d = c")
  case True
  assume l: "12 \<le> length (V c)"
  then have "12 \<le> length (set_body V c b c)" "take 12 (set_body V c b c) = take 12 (V c)" by (simp_all add: set_body_def)
  then show ?thesis using hd_of_take [of "set_body V c b" c V c] l True by simp
qed (simp add: hd_of_def)

lemma body_set_body: "12 \<le> length (V c) \<Longrightarrow> body (set_body V c b) = (body V)(c := b)"
  by (auto simp: body_def set_body_def)

lemma body_other [simp]: "d \<noteq> c \<Longrightarrow> body (V(c := x)) d = body V d" "d \<noteq> c \<Longrightarrow> hd_of (V(c := x)) d = hd_of V d"
  by (simp_all add: body_def hd_of_def)

lemma hd_range: "12 \<le> length (V c) \<Longrightarrow> head_range (hd_of V c)"
  using head_at_Some [of "V c"] by (auto simp: hd_of_def)

section \<open>Views on their clusters\<close>

text \<open>View \<^term>\<open>v\<close> is busy with cluster \<^term>\<open>c\<close>.\<close>

definition busy_at :: "evfs_fs \<Rightarrow> nat \<Rightarrow> nat \<Rightarrow> bool" where
  "busy_at f v c \<longleftrightarrow> v \<in> set (busylist (vm f)) \<and> (\<exists>x. get_view f v = Some x \<and> viewid x = int c)"

definition idle_at :: "evfs_fs \<Rightarrow> nat \<Rightarrow> nat \<Rightarrow> bool" where
  "idle_at f v c \<longleftrightarrow> v \<in> set (idlelist (vm f)) \<and> (\<exists>x. get_view f v = Some x \<and> viewid x = int c)"

text \<open>The same views are busy and idle, with the same clusters.\<close>

definition same_views :: "evfs_fs \<Rightarrow> evfs_fs \<Rightarrow> bool" where
  "same_views f f' \<longleftrightarrow> busy_at f' = busy_at f \<and> idlelist (vm f') = idlelist (vm f) \<and> idle_at f' = idle_at f \<and>
     view_max_data_seg_size (vm f') = view_max_data_seg_size (vm f)"

lemma same_views_refl [simp]: "same_views f f"
  by (simp add: same_views_def)

lemma same_views_trans: "same_views f g \<Longrightarrow> same_views g h \<Longrightarrow> same_views f h"
  by (simp add: same_views_def)

lemma same_views_update:
  assumes "get_view f v = Some x" "vm f' = (vm f)\<lparr>views := (views (vm f))(v \<mapsto> x\<lparr>cluster := h\<rparr>)\<rparr>"
  shows "same_views f f'"
  using assms by (auto simp: same_views_def busy_at_def idle_at_def fun_eq_iff)

lemma same_views_store [simp]: "same_views f (f\<lparr>store := c\<rparr>)"
  by (simp add: same_views_def busy_at_def [abs_def] idle_at_def [abs_def])

lemma fs_view: "fs_inv ecc path f cs cc V \<Longrightarrow> view_inv ecc path f cs cc V"
  by (simp add: fs_inv_def)

lemma busy_cluster:
  assumes "fs_inv ecc path f cs cc V" "busy_at f v c"
  shows "0 < c" "c < cc" "length (V c) = cs" "32 \<le> cs"
proof -
  obtain x where x: "v \<in> set (busylist (vm f)) \<union> set (idlelist (vm f))" "get_view f v = Some x" "viewid x = int c"
    using assms(2) by (auto simp: busy_at_def)
  show "0 < c" "c < cc" using shelf_view_id [OF inv_shelf [OF fs_view [OF assms(1)]] x(1,2)] x(3) by simp_all
  then show "length (V c) = cs" "32 \<le> cs" using serving_length [OF inv_serving [OF fs_view [OF assms(1)]]] by auto
qed

lemma busy_obtain_view:
  assumes "fs_inv ecc path f cs cc V" "busy_at f v c"
  obtains x where "v \<in> set (busylist (vm f))" "get_view f v = Some x" "viewid x = int c" "cluster x = hd_of V c"
proof -
  obtain x where x: "v \<in> set (busylist (vm f))" "get_view f v = Some x" "viewid x = int c" using assms(2) by (auto simp: busy_at_def)
  show thesis using busy_head_at [OF fs_view [OF assms(1)] x(1,2)] x that by (simp add: hd_of_def)
qed

lemma busy_inj:
  assumes "fs_inv ecc path f cs cc V" "busy_at f v c" "busy_at f w c"
  shows "v = w"
proof -
  obtain x y where "v \<in> set (busylist (vm f))" "get_view f v = Some x" "viewid x = int c"
    "w \<in> set (busylist (vm f))" "get_view f w = Some y" "viewid y = int c" using assms(2,3) by (auto simp: busy_at_def)
  then show ?thesis using shelf_view_inj [OF inv_shelf [OF fs_view [OF assms(1)]], of v w x y] by auto
qed

lemma busy_fun: "busy_at f v c \<Longrightarrow> busy_at f v d \<Longrightarrow> c = d"
  by (auto simp: busy_at_def)

lemma fs_head_op:
  assumes inv: "fs_inv ecc path f cs cc V" and v: "busy_at f v c"
    and run: "\<And>x. v \<in> set (busylist (vm f)) \<Longrightarrow> get_view f v = Some x \<Longrightarrow> viewid x = int c \<Longrightarrow> cluster x = hd_of V c \<Longrightarrow>
      \<exists>f'. r = Some (n, f') \<and> view_inv ecc path f' cs cc (V(nat (viewid x) := head_bytes (h (cluster x)) @ drop 12 (V (nat (viewid x))))) \<and>
        vm f' = (vm f)\<lparr>views := (views (vm f))(v \<mapsto> x\<lparr>cluster := h (cluster x)\<rparr>)\<rparr>"
  shows "\<exists>f'. r = Some (n, f') \<and> fs_inv ecc path f' cs cc (set_hd V c (h (hd_of V c))) \<and> same_views f f'"
proof -
  obtain x where x: "v \<in> set (busylist (vm f))" "get_view f v = Some x" "viewid x = int c" "cluster x = hd_of V c" by (rule busy_obtain_view [OF inv v])
  obtain f' where f': "r = Some (n, f')" "view_inv ecc path f' cs cc (set_hd V c (h (hd_of V c)))"
    "vm f' = (vm f)\<lparr>views := (views (vm f))(v \<mapsto> x\<lparr>cluster := h (cluster x)\<rparr>)\<rparr>"
    using run [OF x] x(3,4) by (auto simp: set_hd_def body_def)
  have "header (set_hd V c (h (hd_of V c)) 0) cs cc ecc" using inv busy_cluster(1) [OF inv v] by (simp add: fs_inv_def)
  then show ?thesis using f'(1,2) same_views_update [OF x(2) f'(3)] by (auto simp: fs_inv_def)
qed

lemma fs_set_head:
  assumes inv: "fs_inv ecc path f cs cc V" and v: "busy_at f v c" and w: "busy_at f (case wp of None \<Rightarrow> v | Some w \<Rightarrow> w) b"
  shows "\<exists>f'. evfs_view_set_head (Some v) wp f = Some (0, f') \<and> fs_inv ecc path f' cs cc (set_hd V c ((hd_of V c)\<lparr>head_cluster_id := int b\<rparr>)) \<and> same_views f f'"
proof (rule fs_head_op [OF inv v, where h = "\<lambda>h. h\<lparr>head_cluster_id := int b\<rparr>"])
  fix x assume x: "v \<in> set (busylist (vm f))" "get_view f v = Some x"
  obtain y where y: "(case wp of None \<Rightarrow> v | Some w \<Rightarrow> w) \<in> set (busylist (vm f))" "get_view f (case wp of None \<Rightarrow> v | Some w \<Rightarrow> w) = Some y" "viewid y = int b"
    using w by (auto simp: busy_at_def)
  show "\<exists>f'. evfs_view_set_head (Some v) wp f = Some (0, f') \<and>
      view_inv ecc path f' cs cc (V(nat (viewid x) := head_bytes ((cluster x)\<lparr>head_cluster_id := int b\<rparr>) @ drop 12 (V (nat (viewid x))))) \<and>
      vm f' = (vm f)\<lparr>views := (views (vm f))(v \<mapsto> x\<lparr>cluster := (cluster x)\<lparr>head_cluster_id := int b\<rparr>\<rparr>)\<rparr>"
    using set_head_run [OF fs_view [OF inv] x y(1,2)] y(3) by simp
qed

lemma fs_set_next:
  assumes inv: "fs_inv ecc path f cs cc V" and v: "busy_at f v c" and w: "case wp of None \<Rightarrow> b = 0 | Some w \<Rightarrow> busy_at f w b"
  shows "\<exists>f'. evfs_view_set_next (Some v) wp f = Some (0, f') \<and> fs_inv ecc path f' cs cc (set_hd V c ((hd_of V c)\<lparr>next_cluster_id := int b\<rparr>)) \<and> same_views f f'"
proof (rule fs_head_op [OF inv v, where h = "\<lambda>h. h\<lparr>next_cluster_id := int b\<rparr>"])
  fix x assume x: "v \<in> set (busylist (vm f))" "get_view f v = Some x"
  have "case wp of None \<Rightarrow> int b = 0 | Some w \<Rightarrow> w \<in> set (busylist (vm f)) \<and> map_option viewid (get_view f w) = Some (int b)"
    using w by (auto simp: busy_at_def split: option.splits)
  from set_next_run [OF fs_view [OF inv] x this]
  show "\<exists>f'. evfs_view_set_next (Some v) wp f = Some (0, f') \<and>
      view_inv ecc path f' cs cc (V(nat (viewid x) := head_bytes ((cluster x)\<lparr>next_cluster_id := int b\<rparr>) @ drop 12 (V (nat (viewid x))))) \<and>
      vm f' = (vm f)\<lparr>views := (views (vm f))(v \<mapsto> x\<lparr>cluster := (cluster x)\<lparr>next_cluster_id := int b\<rparr>\<rparr>)\<rparr>" .
qed

lemma fs_set_size:
  assumes inv: "fs_inv ecc path f cs cc V" and v: "busy_at f v c" and n: "- (2 ^ 31) \<le> n" "n < 2 ^ 31"
  shows "\<exists>f'. set_size v n f = Some (0, f') \<and> fs_inv ecc path f' cs cc (set_hd V c ((hd_of V c)\<lparr>data_seg_size := n\<rparr>)) \<and> same_views f f'"
proof (rule fs_head_op [OF inv v, where h = "\<lambda>h. h\<lparr>data_seg_size := n\<rparr>"])
  fix x assume x: "v \<in> set (busylist (vm f))" "get_view f v = Some x"
  from set_size_run [OF fs_view [OF inv] x n]
  show "\<exists>f'. set_size v n f = Some (0, f') \<and>
      view_inv ecc path f' cs cc (V(nat (viewid x) := head_bytes ((cluster x)\<lparr>data_seg_size := n\<rparr>) @ drop 12 (V (nat (viewid x))))) \<and>
      vm f' = (vm f)\<lparr>views := (views (vm f))(v \<mapsto> x\<lparr>cluster := (cluster x)\<lparr>data_seg_size := n\<rparr>\<rparr>)\<rparr>" .
qed

text \<open>Marked sizes.\<close>

lemma sint_of_int: "- (2 ^ 31) \<le> n \<Longrightarrow> n < 2 ^ 31 \<Longrightarrow> sint (word_of_int n :: u32) = n"
  using to_int_small [of n] by (simp add: to_int_def)

lemma top_bit: "bit (0x80000000 :: u32) k \<longleftrightarrow> k = 31"
  using bit_exp_iff [of 31 k, where 'a = "32 word"] by auto

lemma low_bits: "0 \<le> n \<Longrightarrow> n < 2 ^ 31 \<Longrightarrow> \<not> bit (word_of_int n :: u32) 31"
  using bit_word_of_int_iff [of n 31, where 'a = 32] by (simp add: bit_iff_odd [of n] div_pos_pos_trivial)

lemma mark_word: "0 \<le> n \<Longrightarrow> n < 2 ^ 31 \<Longrightarrow> (word_of_int n :: u32) OR 0x80000000 = word_of_int (n - 2 ^ 31)"
proof -
  assume n: "0 \<le> n" "n < 2 ^ 31"
  have "(word_of_int n :: u32) + 0x80000000 = word_of_int n OR 0x80000000"
    by (rule disjunctive_add) (use low_bits [OF n] top_bit in auto)
  moreover have "(word_of_int n :: u32) + 0x80000000 = word_of_int (n - 2 ^ 31)" by simp
  ultimately show ?thesis by simp
qed

lemma mark_size_eq: "0 \<le> n \<Longrightarrow> n < 2 ^ 31 \<Longrightarrow> mark_size n = n - 2 ^ 31"
  using mark_word [of n] sint_of_int [of "n - 2 ^ 31"] by (simp add: mark_size_def)

lemma unmark_size_eq: "0 \<le> n \<Longrightarrow> n < 2 ^ 31 \<Longrightarrow> unmark_size (n - 2 ^ 31) = n"
proof -
  assume n: "0 \<le> n" "n < 2 ^ 31"
  have "bit ((word_of_int n OR 0x80000000) AND NOT 0x80000000 :: u32) k = bit (word_of_int n :: u32) k" if "k < 32" for k
    using low_bits [OF n] that unfolding bit_and_iff bit_or_iff bit_not_iff top_bit by auto
  then have "((word_of_int n :: u32) OR 0x80000000) AND NOT 0x80000000 = word_of_int n" by (intro bit_word_eqI) simp
  moreover have "sint (word_of_int n :: u32) = n" using sint_of_int n by simp
  ultimately show ?thesis unfolding unmark_size_def mark_word [OF n, symmetric] by (simp only:)
qed

text \<open>The size the interface shows.\<close>

definition shown_size :: "evfs_cluster \<Rightarrow> int" where
  "shown_size h = (if data_seg_size h < 0 then unmark_size (data_seg_size h) else data_seg_size h)"

lemma fs_get_size: "fs_inv ecc path f cs cc V \<Longrightarrow> busy_at f v c \<Longrightarrow> evfs_view_get_data_seg_size (Some v) f = Some (shown_size (hd_of V c))"
  by (erule (1) busy_obtain_view) (simp add: evfs_view_get_data_seg_size_def view_field_def shown_size_def)

lemma fs_get_next: "fs_inv ecc path f cs cc V \<Longrightarrow> busy_at f v c \<Longrightarrow> evfs_view_get_next_cluster_id (Some v) f = Some (next_cluster_id (hd_of V c))"
  by (erule (1) busy_obtain_view) (simp add: evfs_view_get_next_cluster_id_def view_field_def)

lemma fs_get_id: "busy_at f v c \<Longrightarrow> evfs_view_get_viewid (Some v) f = Some (int c)"
  by (auto simp: busy_at_def evfs_view_get_viewid_def view_field_def)

lemma fs_set_head_size:
  assumes "fs_inv ecc path f cs cc V" "busy_at f v c" "0 < n" "n < 2 ^ 31"
  shows "\<exists>f'. evfs_view_set_head_data_seg_size (Some v) n f = Some (0, f') \<and> fs_inv ecc path f' cs cc (set_hd V c ((hd_of V c)\<lparr>data_seg_size := n - 2 ^ 31\<rparr>)) \<and> same_views f f'"
  using fs_set_size [OF assms(1,2), of "n - 2 ^ 31"] assms(3,4) mark_size_eq [of n] by (simp add: evfs_view_set_head_data_seg_size_def)

lemma fs_set_element_size:
  assumes "fs_inv ecc path f cs cc V" "busy_at f v c" "0 \<le> n" "n < 2 ^ 31"
  shows "\<exists>f'. evfs_view_set_element_data_seg_size (Some v) n f = Some (0, f') \<and> fs_inv ecc path f' cs cc (set_hd V c ((hd_of V c)\<lparr>data_seg_size := n\<rparr>)) \<and> same_views f f'"
  using fs_set_size [OF assms(1,2), of n] assms(3,4) by (simp add: evfs_view_set_element_data_seg_size_def)

lemma fs_write:
  assumes inv: "fs_inv ecc path f cs cc V" and v: "busy_at f v c" and u: "data_seg_size (hd_of V c) \<noteq> 0 \<or> head_cluster_id (hd_of V c) \<noteq> 0"
    and off: "0 \<le> off" "0 < len" "off + len \<le> int cs - 12" "len \<le> int (length buf)"
  shows "\<exists>f'. evfs_view_write_userdata (Some v) (Some buf) off len f = Some (len, f') \<and>
    fs_inv ecc path f' cs cc (set_body V c (splice (body V c) (nat off) (take (nat len) buf))) \<and> same_views f f'"
proof -
  obtain x where x: "v \<in> set (busylist (vm f))" "get_view f v = Some x" "viewid x = int c" "cluster x = hd_of V c" by (rule busy_obtain_view [OF inv v])
  have l: "length (V c) = cs" "32 \<le> cs" "0 < c" using busy_cluster [OF inv v] by simp_all
  have "splice (V c) (nat off + 12) (take (nat len) buf) = take 12 (V c) @ splice (body V c) (nat off) (take (nat len) buf)"
    using l off take_add [of 12 "nat off" "V c"] by (simp add: splice_def body_def ac_simps)
  then obtain s' where "evfs_view_write_userdata (Some v) (Some buf) off len f = Some (len, f\<lparr>store := s'\<rparr>)"
    "view_inv ecc path (f\<lparr>store := s'\<rparr>) cs cc (set_body V c (splice (body V c) (nat off) (take (nat len) buf)))"
    using write_userdata_run [OF fs_view [OF inv] x(1,2) _ off] u x(3,4) by (auto simp: set_body_def)
  then show ?thesis using inv l(3) by (auto simp: fs_inv_def)
qed

lemma fs_read:
  assumes inv: "fs_inv ecc path f cs cc V" and v: "busy_at f v c" and u: "data_seg_size (hd_of V c) \<noteq> 0 \<or> head_cluster_id (hd_of V c) \<noteq> 0"
    and off: "0 \<le> off" "0 < len" "off + len \<le> int cs - 12" "len \<le> int (length buf)"
  shows "\<exists>f'. evfs_view_read_userdata (Some v) (Some buf) off len f = Some (len, Some (take (nat len) (drop (nat off) (body V c)) @ drop (nat len) buf), f') \<and>
    fs_inv ecc path f' cs cc V \<and> same_views f f'"
proof -
  obtain x where x: "v \<in> set (busylist (vm f))" "get_view f v = Some x" "viewid x = int c" "cluster x = hd_of V c" by (rule busy_obtain_view [OF inv v])
  obtain s' where "evfs_view_read_userdata (Some v) (Some buf) off len f =
      Some (len, Some (take (nat len) (drop (nat off) (body V c)) @ drop (nat len) buf), f\<lparr>store := s'\<rparr>)"
    "view_inv ecc path (f\<lparr>store := s'\<rparr>) cs cc V"
    using read_userdata_run [OF fs_view [OF inv] x(1,2) _ off] u x(3,4) by (auto simp: body_def add.commute)
  then show ?thesis using inv by (auto simp: fs_inv_def)
qed

lemma fs_write_head:
  assumes inv: "fs_inv ecc path f cs cc V" and v: "busy_at f v c"
  shows "\<exists>f'. evfs_view_write_head (Some v) f = Some (12, f') \<and> fs_inv ecc path f' cs cc V \<and> same_views f f'"
proof -
  obtain x where x: "v \<in> set (busylist (vm f))" "get_view f v = Some x" "viewid x = int c" "cluster x = hd_of V c" by (rule busy_obtain_view [OF inv v])
  have l: "length (V c) = cs" "32 \<le> cs" "0 < c" "c < cc" using busy_cluster [OF inv v] by simp_all
  have h: "take 12 (V c) = head_bytes (cluster x)" using inv_busy [OF fs_view [OF inv] x(1)] x(2,3) by (simp add: busy_ok_def)
  obtain s' where s': "evfs_cache_write_head (int c) (Some (head_bytes (cluster x))) (store f) = Some (0, s')"
    "serving ecc path s' cs cc (V(c := head_bytes (cluster x) @ drop 12 (V c)))"
    using write_head_served [OF inv_serving [OF fs_view [OF inv]] l(3,4), of "head_bytes (cluster x)"] by auto
  have "V(c := head_bytes (cluster x) @ drop 12 (V c)) = V" using h append_take_drop_id [of 12 "V c"] by simp
  then have "view_inv ecc path (f\<lparr>store := s'\<rparr>) cs cc V" using s'(2) inv by (simp add: fs_inv_def view_inv_def)
  then show ?thesis using inv s'(1) x inv_counts [OF fs_view [OF inv]]
    by (intro exI [of _ "f\<lparr>store := s'\<rparr>"]) (simp add: fs_inv_def evfs_view_write_head_def write_view_head_def view_counts_def error_not_success sizeof_cluster_def)
qed

text \<open>Acquiring and giving back.\<close>

lemma idle_obtain:
  assumes "fs_inv ecc path f cs cc V" "v \<in> set (idlelist (vm f))"
  obtains c where "idle_at f v c" "0 < c" "c < cc" "\<And>w. \<not> busy_at f w c"
proof -
  have m: "v \<in> set (busylist (vm f)) \<union> set (idlelist (vm f))" using assms(2) by simp
  note sh = inv_shelf [OF fs_view [OF assms(1)]]
  obtain x where x: "get_view f v = Some x" "0 < viewid x" "viewid x < int cc" by (rule shelf_view [OF sh m])
  have "\<not> busy_at f w (nat (viewid x))" for w
  proof
    assume "busy_at f w (nat (viewid x))"
    then obtain y where y: "w \<in> set (busylist (vm f))" "get_view f w = Some y" "viewid y = viewid x" using x(2) by (auto simp: busy_at_def)
    then have "w = v" using shelf_view_inj [OF sh _ m, of w y x] x(1) by auto
    then show False using y(1) assms(2) sh by (auto simp: view_shelf_def)
  qed
  then show thesis using that [of "nat (viewid x)"] x assms(2) by (simp add: idle_at_def)
qed

definition more_busy :: "evfs_fs \<Rightarrow> evfs_fs \<Rightarrow> nat \<Rightarrow> nat \<Rightarrow> bool" where
  "more_busy f f' v c \<longleftrightarrow> (\<forall>w d. busy_at f' w d \<longleftrightarrow> busy_at f w d \<or> w = v \<and> d = c) \<and> view_max_data_seg_size (vm f') = view_max_data_seg_size (vm f)"

lemma fs_acquire:
  assumes inv: "fs_inv ecc path f cs cc V" and I: "idlelist (vm f) = v # I" and c: "idle_at f v c"
  shows "\<exists>f'. evfs_view_acquire_idle f = Some (Some v, f') \<and> fs_inv ecc path f' cs cc (V(c := replicate cs 0)) \<and> idlelist (vm f') = I \<and> more_busy f f' v c"
proof -
  obtain x where x: "get_view f v = Some x" "viewid x = int c" using c by (auto simp: idle_at_def)
  obtain f' where f': "evfs_view_acquire_idle f = Some (Some v, f')" "view_inv ecc path f' cs cc (V(c := replicate cs 0))"
    "vm f' = (vm f)\<lparr>views := (views (vm f))(v \<mapsto> x\<lparr>cluster := zero_head\<rparr>), idlelist := I, count_of_idle_views := count_of_idle_views (vm f) - 1,
      busylist := busylist (vm f) @ [v], count_of_busy_views := count_of_busy_views (vm f) + 1\<rparr>"
    using acquire_run [OF fs_view [OF inv] I x(1)] x(2) by auto
  have "0 < c" using c shelf_view_id(2) [OF inv_shelf [OF fs_view [OF inv]] _ x(1)] x(2) by (simp add: idle_at_def)
  moreover have "v \<notin> set (busylist (vm f))" using inv_shelf [OF fs_view [OF inv]] I by (auto simp: view_shelf_def)
  then have "more_busy f f' v c" using x by (auto simp: more_busy_def busy_at_def f'(3))
  ultimately show ?thesis using f' inv by (auto simp: fs_inv_def)
qed

lemma fs_acquire_one:
  assumes inv: "fs_inv ecc path f cs cc V" and I: "idlelist (vm f) = v # I" and c: "idle_at f v c"
  shows "\<exists>f'. evfs_view_acquire_idle_more 1 f = Some (0, [v], f') \<and> fs_inv ecc path f' cs cc (V(c := replicate cs 0)) \<and> idlelist (vm f') = I \<and> more_busy f f' v c"
proof -
  have t: "0 < total_cluster_count (vm f)" using inv_counts [OF fs_view [OF inv]] by (simp add: view_counts_def)
  show ?thesis using fs_acquire [OF assms] t by (auto simp: evfs_view_acquire_idle_more_def numeral_eq_Suc NSP_STATUS_SUCCESSFUL_def)
qed

lemma fs_give_back:
  assumes inv: "fs_inv ecc path f cs cc V" and v: "busy_at f v c"
  shows "\<exists>f'. evfs_view_move_to_idle (Some v) f = Some (0, f') \<and> fs_inv ecc path f' cs cc (set_hd V c zero_head) \<and> idlelist (vm f') = idlelist (vm f) @ [v] \<and>
    (\<forall>w d. busy_at f' w d \<longleftrightarrow> busy_at f w d \<and> w \<noteq> v) \<and> view_max_data_seg_size (vm f') = view_max_data_seg_size (vm f)"
proof -
  obtain x where x: "v \<in> set (busylist (vm f))" "get_view f v = Some x" "viewid x = int c" by (rule busy_obtain_view [OF inv v])
  obtain f' where f': "evfs_view_move_to_idle (Some v) f = Some (0, f')" "view_inv ecc path f' cs cc (set_hd V c zero_head)"
    "vm f' = (vm f)\<lparr>views := (views (vm f))(v \<mapsto> x\<lparr>cluster := zero_head\<rparr>), idlelist := idlelist (vm f) @ [v],
      count_of_idle_views := count_of_idle_views (vm f) + 1, busylist := remove1 v (busylist (vm f)), count_of_busy_views := count_of_busy_views (vm f) - 1\<rparr>"
    using move_to_idle_run [OF fs_view [OF inv] x(1,2)] x(3) by (auto simp: set_hd_def body_def)
  have d: "distinct (busylist (vm f))" using inv_shelf [OF fs_view [OF inv]] by (simp add: view_shelf_def)
  have "busy_at f' w e \<longleftrightarrow> busy_at f w e \<and> w \<noteq> v" for w e using d by (auto simp: busy_at_def f'(3))
  moreover have "fs_inv ecc path f' cs cc (set_hd V c zero_head)" using f'(2) inv busy_cluster(1) [OF inv v] by (simp add: fs_inv_def)
  ultimately show ?thesis using f'(1,3) by auto
qed

section \<open>Entries in memory\<close>

text \<open>Element \<^term>\<open>e\<close> of the head \<^term>\<open>a\<close> has cluster \<^term>\<open>c\<close>; an entry has a chain of clusters.\<close>

definition elem_on :: "evfs_vol \<Rightarrow> nat \<Rightarrow> nat \<Rightarrow> nat \<Rightarrow> bool" where
  "elem_on s a e c \<longleftrightarrow> (\<exists>w. get_elem s e = Some \<lparr>elem_viewid = int c, elem_view = Some w, entry_head = HeadAt a\<rparr> \<and> busy_at (fsys s) w c)"

definition entry_on :: "evfs_vol \<Rightarrow> nat \<Rightarrow> nat list \<Rightarrow> bytes \<Rightarrow> int \<times> int \<Rightarrow> bool" where
  "entry_on s a cl k r \<longleftrightarrow> cl \<noteq> [] \<and> (\<exists>v es. get_ehead s a = Some \<lparr>ehead_viewid = int (hd cl), ehead_view = Some v, elements = es,
     count_of_elements = int (length es), ehead_refcnt = fst r, io_refcnt = snd r, ehead_state = kEvfsEntryNormal, hard_remove_on_detach = False, ehead_key = k\<rparr> \<and>
     busy_at (fsys s) v (hd cl) \<and> list_all2 (elem_on s a) es (tl cl) \<and> distinct es)"

text \<open>
  The entries in the list have the chains \<^term>\<open>L\<close>, the keys \<^term>\<open>K\<close> and the reference counts \<^term>\<open>R\<close>, both trees index them, and the busy
  clusters are those of the chains and \<^term>\<open>X\<close>.
\<close>

definition key_ok :: "bytes \<Rightarrow> bool" where
  "key_ok k \<longleftrightarrow> length k = 32 \<and> 0 \<in> set k"

definition vol_index :: "evfs_entries_mgr \<Rightarrow> (nat \<Rightarrow> nat list) \<Rightarrow> (nat \<Rightarrow> bytes) \<Rightarrow> bool" where
  "vol_index m L K \<longleftrightarrow> index_ok (root_of_entries_tree m) \<and> name_ok (root_of_named_entries_tree m) \<and> distinct (entries_list m) \<and>
     count_of_entries m = int (length (entries_list m)) \<and>
     (\<forall>c a. index_of (root_of_entries_tree m) c = Some a \<longleftrightarrow> a \<in> set (entries_list m) \<and> c = int (hd (L a))) \<and>
     (\<forall>n a. name_of (root_of_named_entries_tree m) n = Some a \<longleftrightarrow> a \<in> set (entries_list m) \<and> n \<noteq> noname \<and> n = name_of_block (K a)) \<and>
     (\<forall>a \<in> set (entries_list m). key_ok (K a))"

definition chains_ok :: "nat list \<Rightarrow> (nat \<Rightarrow> nat list) \<Rightarrow> bool" where
  "chains_ok as L \<longleftrightarrow> (\<forall>a \<in> set as. distinct (L a)) \<and> (\<forall>a \<in> set as. \<forall>b \<in> set as. a \<noteq> b \<longrightarrow> set (L a) \<inter> set (L b) = {})"

definition chain_set :: "nat list \<Rightarrow> (nat \<Rightarrow> nat list) \<Rightarrow> nat set" where
  "chain_set as L = (\<Union>a \<in> set as. set (L a))"

definition heap_fresh :: "evfs_entries_mgr \<Rightarrow> bool" where
  "heap_fresh m \<longleftrightarrow> (\<forall>a \<in> dom (heads m). a < ent_fresh m) \<and> (\<forall>e \<in> dom (elems m). e < ent_fresh m)"

definition vol_mem :: "evfs_vol \<Rightarrow> (nat \<Rightarrow> nat list) \<Rightarrow> (nat \<Rightarrow> bytes) \<Rightarrow> (nat \<Rightarrow> int \<times> int) \<Rightarrow> nat set \<Rightarrow> bool" where
  "vol_mem s L K R X \<longleftrightarrow> vol_index (em s) L K \<and> chains_ok (entries_list (em s)) L \<and>
     (\<forall>a \<in> set (entries_list (em s)). entry_on s a (L a) (K a) (R a)) \<and>
     (\<forall>c. (\<exists>v. busy_at (fsys s) v c) \<longleftrightarrow> c \<in> chain_set (entries_list (em s)) L \<union> X) \<and>
     heap_fresh (em s)"

lemma elem_on_fs: "busy_at (fsys s') = busy_at (fsys s) \<Longrightarrow> elems (em s') = elems (em s) \<Longrightarrow> elem_on s' = elem_on s"
  by (simp add: elem_on_def fun_eq_iff)

lemma vol_mem_views:
  assumes "same_views (fsys s) f"
  shows "vol_mem (s\<lparr>fsys := f\<rparr>) L K R X = vol_mem s L K R X"
proof -
  have b: "busy_at f = busy_at (fsys s)" using assms by (simp add: same_views_def)
  then have e: "elem_on (s\<lparr>fsys := f\<rparr>) = elem_on s" by (intro elem_on_fs) simp_all
  have "entry_on (s\<lparr>fsys := f\<rparr>) = entry_on s" unfolding entry_on_def [abs_def] e by (simp add: b)
  then show ?thesis by (simp add: vol_mem_def b)
qed

lemma mem_entry: "vol_mem s L K R X \<Longrightarrow> a \<in> set (entries_list (em s)) \<Longrightarrow> entry_on s a (L a) (K a) (R a)"
  and mem_index: "vol_mem s L K R X \<Longrightarrow> vol_index (em s) L K"
  and mem_chains: "vol_mem s L K R X \<Longrightarrow> chains_ok (entries_list (em s)) L"
  and mem_busy: "vol_mem s L K R X \<Longrightarrow> (\<exists>v. busy_at (fsys s) v c) \<longleftrightarrow> c \<in> chain_set (entries_list (em s)) L \<union> X"
  by (auto simp: vol_mem_def)

lemma compare_head_same: "evfs_entries_compare_entry_head = evfs_cache_compare_by_cluster_id"
  by (auto simp: fun_eq_iff evfs_entries_compare_entry_head_def evfs_cache_compare_by_cluster_id_def)

lemma search_head_index: "evfs_entries_search_head i s = index_of (root_of_entries_tree (em s)) i"
  by (simp add: evfs_entries_search_head_def index_of_def index_lookup_def compare_head_same)

lemma search_named_index:
  assumes "0 \<notin> set k" "length k < 32"
  shows "evfs_entries_search_named_head k s = Some (name_of (root_of_named_entries_tree (em s)) (name_of_block k))"
  using assms name_search [OF assms(1)] by (simp add: evfs_entries_search_named_head_def c_str_id MAX_ENTRY_NAME_LENGTH_def)

text \<open>Taking and giving back references.\<close>

lemma entry_on_refs:
  assumes "get_ehead s a = Some h" "entry_on s a cl k r"
  shows "entry_on (put_ehead a (h\<lparr>ehead_refcnt := x, io_refcnt := y\<rparr>) s) a cl k (x, y)"
proof -
  have "elem_on (put_ehead a (h\<lparr>ehead_refcnt := x, io_refcnt := y\<rparr>) s) = elem_on s" by (rule elem_on_fs) (simp_all add: put_ehead_def)
  then show ?thesis using assms by (auto simp: entry_on_def put_ehead_def)
qed

lemma entry_on_other: "b \<noteq> a \<Longrightarrow> entry_on (put_ehead a h s) b cl k r = entry_on s b cl k r"
proof -
  assume "b \<noteq> a"
  moreover have "elem_on (put_ehead a h s) = elem_on s" by (rule elem_on_fs) (simp_all add: put_ehead_def)
  ultimately show ?thesis by (simp add: entry_on_def put_ehead_def)
qed

lemma mem_refs:
  assumes m: "vol_mem s L K R X" and a: "a \<in> set (entries_list (em s))" and h: "get_ehead s a = Some h"
  shows "vol_mem (put_ehead a (h\<lparr>ehead_refcnt := x, io_refcnt := y\<rparr>) s) L K (R(a := (x, y))) X"
proof -
  let ?s = "put_ehead a (h\<lparr>ehead_refcnt := x, io_refcnt := y\<rparr>) s"
  have "entry_on ?s b (L b) (K b) ((R(a := (x, y))) b)" if "b \<in> set (entries_list (em s))" for b
    using mem_entry [OF m that] entry_on_refs [OF h] entry_on_other [of b a] by (cases "b = a") auto
  moreover have "vol_index (em ?s) L K" using mem_index [OF m] by (simp add: vol_index_def put_ehead_def)
  moreover have "heap_fresh (em ?s)" using m h by (auto simp: vol_mem_def heap_fresh_def put_ehead_def)
  ultimately show ?thesis using m by (simp add: vol_mem_def put_ehead_def)
qed

definition kept_vol :: "evfs_vol \<Rightarrow> evfs_vol \<Rightarrow> bool" where
  "kept_vol s s' \<longleftrightarrow> entries_list (em s') = entries_list (em s) \<and> ent_max_data_seg_size (em s') = ent_max_data_seg_size (em s) \<and>
     wild_list (em s') = wild_list (em s)"

lemma kept_vol_refl [simp]: "kept_vol s s" "kept_vol s (s\<lparr>fsys := f\<rparr>)" "kept_vol s (put_ehead a h s)"
  by (simp_all add: kept_vol_def put_ehead_def)

lemma kept_vol_trans: "kept_vol s t \<Longrightarrow> kept_vol t u \<Longrightarrow> kept_vol s u"
  by (simp add: kept_vol_def)

lemma entry_obtain:
  assumes "entry_on s a cl k r"
  obtains v h where "get_ehead s a = Some h" "ehead_viewid h = int (hd cl)" "ehead_view h = Some v" "count_of_elements h = int (length (elements h))"
    "ehead_refcnt h = fst r" "io_refcnt h = snd r" "ehead_state h = kEvfsEntryNormal" "\<not> hard_remove_on_detach h" "ehead_key h = k" "cl \<noteq> []"
    "busy_at (fsys s) v (hd cl)" "list_all2 (elem_on s a) (elements h) (tl cl)" "distinct (elements h)"
  using assms unfolding entry_on_def by (elim conjE exE) (rule that, auto)

lemma entry_onI:
  assumes "get_ehead s a = Some h" "ehead_viewid h = int (hd cl)" "ehead_view h = Some v" "count_of_elements h = int (length (elements h))"
    "ehead_refcnt h = fst r" "io_refcnt h = snd r" "ehead_state h = kEvfsEntryNormal" "\<not> hard_remove_on_detach h" "ehead_key h = k" "cl \<noteq> []"
    "busy_at (fsys s) v (hd cl)" "list_all2 (elem_on s a) (elements h) (tl cl)" "distinct (elements h)"
  shows "entry_on s a cl k r"
proof -
  have "h = \<lparr>ehead_viewid = int (hd cl), ehead_view = Some v, elements = elements h, count_of_elements = int (length (elements h)), ehead_refcnt = fst r,
    io_refcnt = snd r, ehead_state = kEvfsEntryNormal, hard_remove_on_detach = False, ehead_key = k\<rparr>"
    using assms(2-9) by (cases h) simp
  then show ?thesis unfolding entry_on_def using assms(1,10-13) by metis
qed

lemma find_entry: "vol_mem s L K R X \<Longrightarrow> a \<in> set (entries_list (em s)) \<Longrightarrow> evfs_entries_search_head (int (hd (L a))) s = Some a"
  unfolding search_head_index by (simp add: vol_mem_def vol_index_def)

text \<open>Access to the data of an entry: both counts go up and down again. An open entry has the first count only.\<close>

definition refs_ok :: "int \<times> int \<Rightarrow> bool" where
  "refs_ok r \<longleftrightarrow> 0 \<le> fst r \<and> fst r < 2 ^ 31 - 1 \<and> 0 \<le> snd r \<and> snd r < 2 ^ 31 - 1"

definition taken :: "(nat \<Rightarrow> int \<times> int) \<Rightarrow> nat \<Rightarrow> nat \<Rightarrow> int \<times> int" where
  "taken R a = R(a := (fst (R a) + 1, snd (R a) + 1))"

definition opened :: "(nat \<Rightarrow> int \<times> int) \<Rightarrow> nat \<Rightarrow> nat \<Rightarrow> int \<times> int" where
  "opened R a = R(a := (fst (R a) + 1, snd (R a)))"

lemma reference_entry:
  assumes m: "vol_mem s L K R X" and a: "a \<in> set (entries_list (em s))" and r: "refs_ok (R a)"
  shows "\<exists>s'. reference_found (Some a) kEvfsEntryNormal s = Some (0, Some a, s') \<and> vol_mem s' L K (taken R a) X \<and> fsys s' = fsys s \<and> kept_vol s s'"
    and "\<exists>s'. reference_found (Some a) kEvfsEntryOpen s = Some (0, Some a, s') \<and> vol_mem s' L K (opened R a) X \<and> fsys s' = fsys s \<and> kept_vol s s'"
proof -
  obtain h where h: "get_ehead s a = Some h" "ehead_refcnt h = fst (R a)" "io_refcnt h = snd (R a)" "ehead_state h = kEvfsEntryNormal"
    using mem_entry [OF m a] by (elim entry_obtain)
  let ?s = "put_ehead a (h\<lparr>ehead_refcnt := fst (R a) + 1, io_refcnt := snd (R a) + 1\<rparr>) s" and ?t = "put_ehead a (h\<lparr>ehead_refcnt := fst (R a) + 1\<rparr>) s"
  have t: "?t = put_ehead a (h\<lparr>ehead_refcnt := fst (R a) + 1, io_refcnt := snd (R a)\<rparr>) s" using h(3) by (cases h) simp
  have c: "c_int (fst (R a) + 1) = Some (fst (R a) + 1)" "c_int (snd (R a) + 1) = Some (snd (R a) + 1)" using r by (auto simp: refs_ok_def c_int_def)
  have "reference_found (Some a) kEvfsEntryNormal s = Some (0, Some a, ?s)" "reference_found (Some a) kEvfsEntryOpen s = Some (0, Some a, ?t)"
    using h c by (simp_all add: reference_found_def evfs_entries_check_reference_condition_def NSP_STATUS_SUCCESSFUL_def error_not_success)
  then show "\<exists>s'. reference_found (Some a) kEvfsEntryNormal s = Some (0, Some a, s') \<and> vol_mem s' L K (taken R a) X \<and> fsys s' = fsys s \<and> kept_vol s s'"
    "\<exists>s'. reference_found (Some a) kEvfsEntryOpen s = Some (0, Some a, s') \<and> vol_mem s' L K (opened R a) X \<and> fsys s' = fsys s \<and> kept_vol s s'"
    using mem_refs [OF m a h(1)] t by (auto simp: taken_def opened_def put_ehead_def kept_vol_def)
qed

lemma release_entry:
  assumes m: "vol_mem s L K R' X" and a: "a \<in> set (entries_list (em s))" and r: "refs_ok (R a)"
  shows "R' = taken R a \<Longrightarrow> \<exists>s'. evfs_entries_dereference_head a kEvfsEntryNormal s = Some s' \<and> vol_mem s' L K R X \<and> fsys s' = fsys s \<and> kept_vol s s'"
    and "R' = opened R a \<Longrightarrow> \<exists>s'. evfs_entries_dereference_head a kEvfsEntryOpen s = Some s' \<and> vol_mem s' L K R X \<and> fsys s' = fsys s \<and> kept_vol s s'"
proof -
  obtain h where h: "get_ehead s a = Some h" "ehead_refcnt h = fst (R' a)" "io_refcnt h = snd (R' a)" "ehead_state h = kEvfsEntryNormal"
    using mem_entry [OF m a] by (elim entry_obtain)
  let ?s = "put_ehead a (h\<lparr>ehead_refcnt := fst (R a), io_refcnt := snd (R a)\<rparr>) s"
  have v: "vol_mem ?s L K (R'(a := R a)) X" using mem_refs [OF m a h(1), where x = "fst (R a)" and y = "snd (R a)"] by simp
  {
    assume R: "R' = taken R a"
    then have "evfs_entries_dereference_head a kEvfsEntryNormal s = Some ?s"
      using h r by (simp add: evfs_entries_dereference_head_def Let_def taken_def refs_ok_def)
    then show "\<exists>s'. evfs_entries_dereference_head a kEvfsEntryNormal s = Some s' \<and> vol_mem s' L K R X \<and> fsys s' = fsys s \<and> kept_vol s s'"
      using v R by (intro exI [of _ ?s]) (simp add: put_ehead_def kept_vol_def taken_def)
  next
    assume R: "R' = opened R a"
    then have "put_ehead a (h\<lparr>ehead_refcnt := fst (R a)\<rparr>) s = ?s" using h(3) by (cases h) (simp add: opened_def)
    then have "evfs_entries_dereference_head a kEvfsEntryOpen s = Some ?s"
      using h r R by (simp add: evfs_entries_dereference_head_def Let_def opened_def refs_ok_def)
    then show "\<exists>s'. evfs_entries_dereference_head a kEvfsEntryOpen s = Some s' \<and> vol_mem s' L K R X \<and> fsys s' = fsys s \<and> kept_vol s s'"
      using v R by (intro exI [of _ ?s]) (simp add: put_ehead_def kept_vol_def opened_def)
  }
qed

lemma take_reference:
  assumes m: "vol_mem s L K R X" and a: "a \<in> set (entries_list (em s))" and r: "refs_ok (R a)"
  shows "\<exists>s'. evfs_entries_reference_head (int (hd (L a))) kEvfsEntryNormal s = Some (0, Some a, s') \<and> vol_mem s' L K (taken R a) X \<and>
    fsys s' = fsys s \<and> kept_vol s s'"
  using reference_entry(1) [OF assms] find_entry [OF m a] by (simp add: evfs_entries_reference_head_def)

lemmas drop_reference = release_entry(1) [OF _ _ _ refl]

section \<open>A longer chain\<close>

lemma malloc_serving:
  assumes se: "serving ecc path (store (fsys s)) cs cc V" and "0 \<le> n"
  shows "\<exists>b c. ent_malloc n s = (Some b, s\<lparr>fsys := (fsys s)\<lparr>store := c\<rparr>\<rparr>) \<and> length b = nat n \<and> serving ecc path c cs cc V"
proof -
  obtain D where D: "store_holds ecc path (env (store (fsys s))) cs cc D" using se by (auto simp: serving_def cache_inv_def)
  then have "roomy (env (store (fsys s)))" by (simp add: store_holds_def)
  then obtain b ms where b: "ztrymalloc n (env (store (fsys s))) = (Some b, (env (store (fsys s)))\<lparr>mallocs := ms\<rparr>)" "length b = nat n"
    "roomy ((env (store (fsys s)))\<lparr>mallocs := ms\<rparr>)"
    using malloc_roomy [of "env (store (fsys s))" n] assms(2) by auto
  let ?e = "(env (store (fsys s)))\<lparr>mallocs := ms\<rparr>"
  have "same_disk ecc path cs cc (env (store (fsys s))) ?e" using store_mallocs [OF _ b(3)] by (simp add: same_disk_def)
  then have "serving ecc path ((store (fsys s))\<lparr>env := ?e\<rparr>) cs cc V" by (rule serving_disk [OF se])
  then show ?thesis using b by (intro exI [of _ b] exI [of _ "(store (fsys s))\<lparr>env := ?e\<rparr>"]) (simp add: ent_malloc_def)
qed

lemma malloc_run:
  assumes inv: "fs_inv ecc path (fsys s) cs cc V" and "0 \<le> n"
  shows "\<exists>b f. ent_malloc n s = (Some b, s\<lparr>fsys := f\<rparr>) \<and> length b = nat n \<and> fs_inv ecc path f cs cc V \<and> same_views (fsys s) f"
proof -
  obtain b c where b: "ent_malloc n s = (Some b, s\<lparr>fsys := (fsys s)\<lparr>store := c\<rparr>\<rparr>)" "length b = nat n" "serving ecc path c cs cc V"
    using malloc_serving [OF inv_serving [OF fs_view [OF inv]] assms(2)] by blast
  then have "fs_inv ecc path ((fsys s)\<lparr>store := c\<rparr>) cs cc V" using inv by (simp add: fs_inv_def view_inv_def)
  then show ?thesis using b by (intro exI [of _ b] exI [of _ "(fsys s)\<lparr>store := c\<rparr>"]) simp
qed

text \<open>An element that belongs to no head joins a chain.\<close>

lemma mem_join:
  assumes m: "vol_mem s L K R X" and a: "a \<in> set (entries_list (em s))" and h: "get_ehead s a = Some h"
    and c: "busy_at (fsys s) v c" "c \<in> X" "c \<notin> chain_set (entries_list (em s)) L"
    and e: "\<And>x b. elems (em s) e = Some x \<Longrightarrow> entry_head x \<noteq> HeadAt b"
    and e': "root_of_entries_tree e' = root_of_entries_tree (em s)" "root_of_named_entries_tree e' = root_of_named_entries_tree (em s)"
      "entries_list e' = entries_list (em s)" "count_of_entries e' = count_of_entries (em s)" "heap_fresh e'"
      "elems e' = (elems (em s))(e \<mapsto> \<lparr>elem_viewid = int c, elem_view = Some v, entry_head = HeadAt a\<rparr>)"
      "heads e' = (heads (em s))(a \<mapsto> h\<lparr>elements := elements h @ [e], count_of_elements := count_of_elements h + 1\<rparr>)"
  shows "vol_mem (s\<lparr>em := e'\<rparr>) (L(a := L a @ [c])) K R (X - {c})"
    (is "vol_mem ?s ?L K R ?X")
proof -
  have ne: "\<not> elem_on s b e d" for b d unfolding elem_on_def using e by fastforce
  have on: "elem_on s b x d \<Longrightarrow> elem_on ?s b x d" for b x d using ne by (cases "x = e") (auto simp: elem_on_def e'(6))
  have new: "elem_on ?s a e c" using c(1) by (simp add: elem_on_def e'(6))
  have "entry_on ?s b (?L b) (K b) (R b)" if b: "b \<in> set (entries_list (em s))" for b
  proof (rule entry_obtain [OF mem_entry [OF m b]])
    fix w g assume g: "get_ehead s b = Some g" "ehead_viewid g = int (hd (L b))" "ehead_view g = Some w" "count_of_elements g = int (length (elements g))"
      "ehead_refcnt g = fst (R b)" "io_refcnt g = snd (R b)" "ehead_state g = kEvfsEntryNormal" "\<not> hard_remove_on_detach g" "ehead_key g = K b" "L b \<noteq> []"
      "busy_at (fsys s) w (hd (L b))" "list_all2 (elem_on s b) (elements g) (tl (L b))" "distinct (elements g)"
    have l: "list_all2 (elem_on ?s b) (elements g) (tl (L b))" using g(12) on by (rule list_all2_mono)
    have "e \<notin> set (elements g)"
    proof
      assume "e \<in> set (elements g)"
      then obtain d where "elem_on s b e d" using g(12) by (auto simp: list_all2_conv_all_nth in_set_conv_nth)
      then show False using ne by simp
    qed
    then have d: "distinct (elements g @ [e])" using g(13) by simp
    show ?thesis
    proof (cases "b = a")
      case True
      have gh: "h = g" using g(1) h True by simp
      have l2: "list_all2 (elem_on ?s a) (elements g @ [e]) (tl (L a @ [c]))" using l new g(10) True by (simp add: list_all2_appendI)
      show ?thesis unfolding True
        by (rule entry_onI [where h = "h\<lparr>elements := elements h @ [e], count_of_elements := count_of_elements h + 1\<rparr>" and v = w])
          (use g d l2 gh True in \<open>auto simp: e'(7)\<close>)
    next
      case False
      show ?thesis by (rule entry_onI [where h = g and v = w]) (use g d l False in \<open>auto simp: e'(7)\<close>)
    qed
  qed
  moreover have "vol_index (em ?s) ?L K" using mem_index [OF m] mem_entry [OF m a] by (auto simp: vol_index_def entry_on_def e'(1-4))
  moreover have "chains_ok (entries_list (em ?s)) ?L" using mem_chains [OF m] a c(3) by (auto simp: chains_ok_def chain_set_def e'(3))
  moreover have "chain_set (entries_list (em s)) ?L = insert c (chain_set (entries_list (em s)) L)" using a by (auto simp: chain_set_def split: if_splits)
  then have "(\<exists>v. busy_at (fsys ?s) v d) \<longleftrightarrow> d \<in> chain_set (entries_list (em ?s)) ?L \<union> ?X" for d using mem_busy [OF m, of d] c(2) by (auto simp: e'(3))
  ultimately show ?thesis using e'(5) by (simp add: vol_mem_def e'(3))
qed

lemma mem_append:
  assumes m: "vol_mem s L K R X" and a: "a \<in> set (entries_list (em s))" and h: "get_ehead s a = Some h"
    and c: "busy_at (fsys s) v c" "c \<in> X" "c \<notin> chain_set (entries_list (em s)) L"
    and e: "e = ent_fresh (em s)"
  shows "vol_mem (s\<lparr>em := (em s)\<lparr>ent_fresh := e + 1, elems := (elems (em s))(e \<mapsto> \<lparr>elem_viewid = int c, elem_view = Some v, entry_head = HeadAt a\<rparr>),
      heads := (heads (em s))(a \<mapsto> h\<lparr>elements := elements h @ [e], count_of_elements := count_of_elements h + 1\<rparr>)\<rparr>\<rparr>) (L(a := L a @ [c])) K R (X - {c})"
proof (rule mem_join [OF m a h c])
  have fr: "heap_fresh (em s)" using m by (simp add: vol_mem_def)
  then show "elems (em s) e = Some x \<Longrightarrow> entry_head x \<noteq> HeadAt b" for x b using e by (auto simp: heap_fresh_def)
  show "heap_fresh ((em s)\<lparr>ent_fresh := e + 1, elems := (elems (em s))(e \<mapsto> \<lparr>elem_viewid = int c, elem_view = Some v, entry_head = HeadAt a\<rparr>),
      heads := (heads (em s))(a \<mapsto> h\<lparr>elements := elements h @ [e], count_of_elements := count_of_elements h + 1\<rparr>)\<rparr>)"
    using fr h e by (auto simp: heap_fresh_def less_Suc_eq)
qed simp_all

text \<open>The cluster gets a zero head that names the first cluster, and the last one of the chain points to it.\<close>

definition linked :: "(nat \<Rightarrow> bytes) \<Rightarrow> nat list \<Rightarrow> nat \<Rightarrow> nat \<Rightarrow> nat \<Rightarrow> bytes" where
  "linked V cl c cs = (let W = set_hd (V(c := replicate cs 0)) c (zero_head\<lparr>head_cluster_id := int (hd cl)\<rparr>) in
     set_hd W (last cl) ((hd_of W (last cl))\<lparr>next_cluster_id := int c\<rparr>))"

lemma zero_hd: "12 \<le> cs \<Longrightarrow> hd_of (V(c := replicate cs 0)) c = zero_head"
proof -
  assume "12 \<le> cs"
  then have "replicate cs (0 :: u8) = head_bytes zero_head @ replicate (cs - 12) 0" using zero_head_bytes(1) replicate_add [of 12 "cs - 12" "0 :: u8"] by simp
  then show ?thesis by (simp add: hd_of_def head_at_bytes [OF zero_head_bytes(2)])
qed

lemma chain_view:
  assumes "entry_on s a cl k r" "c \<in> set cl"
  shows "\<exists>v. busy_at (fsys s) v c"
proof (rule entry_obtain [OF assms(1)])
  fix v h assume h: "cl \<noteq> []" "busy_at (fsys s) v (hd cl)" "list_all2 (elem_on s a) (elements h) (tl cl)"
  show ?thesis
  proof (cases "c = hd cl")
    case False
    then have "c \<in> set (tl cl)" using assms(2) h(1) by (cases cl) auto
    then obtain e where "elem_on s a e c" using h(3) by (auto simp: list_all2_conv_all_nth in_set_conv_nth)
    then show ?thesis by (auto simp: elem_on_def)
  qed (use h in auto)
qed

text \<open>The view of the last cluster, as the code finds it.\<close>

lemma last_view_on:
  assumes "entry_on s a cl k r" "get_ehead s a = Some h"
  shows "\<exists>w. (case last_or_none (elements h) of None \<Rightarrow> Some (ehead_view h) | Some l \<Rightarrow> element_view l s) = Some (Some w) \<and> busy_at (fsys s) w (last cl)"
proof (rule entry_obtain [OF assms(1)])
  fix v g assume g: "get_ehead s a = Some g" "ehead_view g = Some v" "cl \<noteq> []" "busy_at (fsys s) v (hd cl)" "list_all2 (elem_on s a) (elements g) (tl cl)"
  show ?thesis
  proof (cases "elements g = []")
    case True
    then have "tl cl = []" using g(5) by simp
    then have "last cl = hd cl" using g(3) by (cases cl) auto
    then show ?thesis using g True assms(2) by (simp add: last_or_none_def)
  next
    case False
    then have n: "tl cl \<noteq> []" using g(5) by auto
    have l: "last cl = last (tl cl)" using n by (cases cl) auto
    have "elem_on s a (last (elements g)) (last (tl cl))"
      unfolding last_conv_nth [OF n] last_conv_nth [OF False] list_all2_lengthD [OF g(5), symmetric] by (rule list_all2_nthD [OF g(5)]) (use False in simp)
    then show ?thesis using g(1) assms(2) False l by (auto simp: last_or_none_def elem_on_def element_view_def)
  qed
qed

lemma write_heads_run:
  assumes "fs_inv ecc path (fsys s) cs cc V" "list_all2 (elem_on s a) es cl" "NSP_SUCCESS n"
  shows "\<exists>f r. write_element_heads n es s = Some (r, s\<lparr>fsys := f\<rparr>) \<and> NSP_SUCCESS r \<and> fs_inv ecc path f cs cc V \<and> same_views (fsys s) f"
  using assms
proof (induction es arbitrary: s n cl)
  case Nil
  then show ?case by (intro exI [of _ "fsys s"] exI [of _ n]) simp
next
  case (Cons e es)
  obtain c cl' where c: "elem_on s a e c" "list_all2 (elem_on s a) es cl'" using Cons.prems(2) by (auto simp: list_all2_Cons1)
  obtain w where w: "element_view e s = Some (Some w)" "busy_at (fsys s) w c" using c(1) by (auto simp: elem_on_def element_view_def)
  obtain f where f: "evfs_view_write_head (Some w) (fsys s) = Some (12, f)" "fs_inv ecc path f cs cc V" "same_views (fsys s) f"
    using fs_write_head [OF Cons.prems(1) w(2)] by blast
  have "elem_on (s\<lparr>fsys := f\<rparr>) = elem_on s" by (rule elem_on_fs) (use f(3) in \<open>simp_all add: same_views_def\<close>)
  then obtain g r where g: "write_element_heads 12 es (s\<lparr>fsys := f\<rparr>) = Some (r, s\<lparr>fsys := g\<rparr>)" "NSP_SUCCESS r" "fs_inv ecc path g cs cc V" "same_views f g"
    using Cons.IH [of "s\<lparr>fsys := f\<rparr>" cl' 12] f(2) c(2) by (auto simp: NSP_SUCCESS_def)
  then show ?case using w(1) f(1,3) same_views_trans by (auto simp: on_fs_def NSP_SUCCESS_def)
qed

lemma more_busy_fresh:
  assumes "more_busy f f' v c" "busy_at f' w d" "d \<noteq> c"
  shows "busy_at f w d"
  using assms by (auto simp: more_busy_def)

text \<open>A view becomes busy; its cluster belongs to no entry yet.\<close>

lemma mem_acquired:
  assumes m: "vol_mem s L K R X" and b: "more_busy (fsys s) f v c"
  shows "vol_mem (s\<lparr>fsys := f\<rparr>) L K R (insert c X)"
proof -
  let ?s = "s\<lparr>fsys := f\<rparr>"
  have bg: "busy_at f w d \<longleftrightarrow> busy_at (fsys s) w d \<or> w = v \<and> d = c" for w d using b by (simp add: more_busy_def)
  have eo: "elem_on s b x d \<Longrightarrow> elem_on ?s b x d" for b x d using bg by (auto simp: elem_on_def)
  have "entry_on ?s b (L b) (K b) (R b)" if "b \<in> set (entries_list (em s))" for b
    using mem_entry [OF m that] list_all2_mono [of "elem_on s b" _ _ "elem_on ?s b"] eo bg unfolding entry_on_def by fastforce
  moreover have "(\<exists>w. busy_at f w d) \<longleftrightarrow> d \<in> chain_set (entries_list (em s)) L \<union> insert c X" for d using mem_busy [OF m, of d] bg by auto
  ultimately show ?thesis using m by (simp add: vol_mem_def)
qed

lemma alloc_element_run:
  assumes inv: "fs_inv ecc path (fsys s) cs cc V" and m: "vol_mem s L K R {c}" and a: "a \<in> set (entries_list (em s))" and h: "get_ehead s a = Some h"
    and c: "busy_at (fsys s) v c" "c \<notin> chain_set (entries_list (em s)) L"
  shows "\<exists>s' e h'. evfs_entries_alloc_element (Some v) (Some a) s = Some (Some e, s') \<and>
    fs_inv ecc path (fsys s') cs cc (set_hd V c ((hd_of V c)\<lparr>head_cluster_id := int (hd (L a))\<rparr>)) \<and>
    vol_mem s' (L(a := L a @ [c])) K R {} \<and> same_views (fsys s) (fsys s') \<and> kept_vol s s' \<and> elem_on s' a e c \<and>
    get_ehead s' a = Some (h\<lparr>elements := elements h @ [e], count_of_elements := count_of_elements h + 1\<rparr>) \<and>
    (\<forall>x. x \<in> set (elements h) \<longrightarrow> get_elem s' x = get_elem s x)"
proof -
  obtain b f where f: "ent_malloc sizeof_element s = (Some b, s\<lparr>fsys := f\<rparr>)" "fs_inv ecc path f cs cc V" "same_views (fsys s) f"
    using malloc_run [OF inv, of sizeof_element] by (auto simp: sizeof_element_def)
  obtain w where w: "ehead_view h = Some w" "busy_at (fsys s) w (hd (L a))" using mem_entry [OF m a] h by (elim entry_obtain) auto
  have bf: "busy_at f = busy_at (fsys s)" using f(3) by (simp add: same_views_def)
  obtain g where g: "evfs_view_set_head (Some v) (Some w) f = Some (0, g)"
    "fs_inv ecc path g cs cc (set_hd V c ((hd_of V c)\<lparr>head_cluster_id := int (hd (L a))\<rparr>))" "same_views f g"
    using fs_set_head [OF f(2), of v c "Some w"] c(1) w(2) bf by auto
  have sv: "same_views (fsys s) g" by (rule same_views_trans [OF f(3) g(3)])
  then have bg: "busy_at g = busy_at (fsys s)" by (simp add: same_views_def)
  let ?e = "ent_fresh (em s)"
  let ?x = "\<lparr>elem_viewid = int c, elem_view = Some v, entry_head = HeadAt a\<rparr>" and ?h = "h\<lparr>elements := elements h @ [?e], count_of_elements := count_of_elements h + 1\<rparr>"
  let ?s = "s\<lparr>fsys := g, em := (em s)\<lparr>ent_fresh := ?e + 1, elems := (elems (em s))(?e \<mapsto> ?x), heads := (heads (em s))(a \<mapsto> ?h)\<rparr>\<rparr>"
  have "evfs_view_get_viewid (Some v) g = Some (int c)" by (rule fs_get_id) (simp add: bg c(1))
  then have "evfs_entries_alloc_element (Some v) (Some a) s = Some (Some ?e, ?s)"
    using f(1) g(1) h w(1) by (simp add: evfs_entries_alloc_element_def fresh_addr_def on_fs_def put_elem_def put_ehead_def)
  moreover have "vol_mem (s\<lparr>fsys := g\<rparr>) L K R {c}" using m vol_mem_views [OF sv] by simp
  then have "vol_mem ?s (L(a := L a @ [c])) K R {}"
    using mem_append [of "s\<lparr>fsys := g\<rparr>" L K R "{c}" a h v c ?e] a h c bg by simp
  moreover have "get_elem s x \<noteq> None" if "x \<in> set (elements h)" for x
    using mem_entry [OF m a] h that by (elim entry_obtain) (auto simp: list_all2_conv_all_nth in_set_conv_nth elem_on_def)
  then have "?e \<notin> set (elements h)" using m by (fastforce simp: vol_mem_def heap_fresh_def)
  ultimately show ?thesis using g(2) sv c(1) bg by (intro exI [of _ ?s] exI [of _ ?e]) (auto simp: kept_vol_def elem_on_def)
qed

lemma alloc_one:
  assumes inv: "fs_inv ecc path (fsys s) cs cc V" and m: "vol_mem s L K R {}" and a: "a \<in> set (entries_list (em s))"
    and I: "idlelist (vm (fsys s)) = v # I" and c: "idle_at (fsys s) v c" and cs: "12 \<le> cs"
  shows "\<exists>r s' e. evfs_entries_alloc_idle_elements_for_head (Some a) 1 s = Some (r, s') \<and> NSP_SUCCESS r \<and> fs_inv ecc path (fsys s') cs cc (linked V (L a) c cs) \<and>
    vol_mem s' (L(a := L a @ [c])) K R {} \<and> idlelist (vm (fsys s')) = I \<and> kept_vol s s' \<and> last_element a s' = Some e \<and> elem_on s' a e c \<and>
    c \<notin> chain_set (entries_list (em s)) L \<and> 0 < c"
proof -
  obtain b f where f: "ent_malloc 8 s = (Some b, s\<lparr>fsys := f\<rparr>)" "fs_inv ecc path f cs cc V" "same_views (fsys s) f"
    using malloc_run [OF inv, of 8] by auto
  have If: "idlelist (vm f) = v # I" "idle_at f v c" using f(3) I c by (simp_all add: same_views_def)
  obtain g where g: "evfs_view_acquire_idle_more 1 f = Some (0, [v], g)" "fs_inv ecc path g cs cc (V(c := replicate cs 0))" "idlelist (vm g) = I" "more_busy f g v c"
    using fs_acquire_one [OF f(2) If] by blast
  obtain c' where c': "idle_at f v c'" "0 < c'" "\<And>w. \<not> busy_at f w c'" by (rule idle_obtain [OF f(2)]) (use If(1) in auto)
  have cc': "c' = c" using c'(1) If(2) by (auto simp: idle_at_def)
  have bf: "busy_at f = busy_at (fsys s)" using f(3) by (simp add: same_views_def)
  have nc: "c \<notin> chain_set (entries_list (em s)) L" using c'(3) cc' mem_busy [OF m, of c] bf by simp
  let ?s = "s\<lparr>fsys := g\<rparr>"
  have bg: "busy_at g w d \<longleftrightarrow> busy_at (fsys s) w d \<or> w = v \<and> d = c" for w d using g(4) bf by (simp add: more_busy_def)
  have "more_busy (fsys s) g v c" using g(4) bf f(3) by (simp add: more_busy_def same_views_def)
  then have m1: "vol_mem ?s L K R {c}" using mem_acquired [OF m] by simp
  obtain h where h: "get_ehead s a = Some h" using mem_entry [OF m a] by (elim entry_obtain)
  obtain w where w: "(case last_or_none (elements h) of None \<Rightarrow> Some (ehead_view h) | Some l \<Rightarrow> element_view l ?s) = Some (Some w)" "busy_at g w (last (L a))"
    using last_view_on [of ?s a "L a" "K a" "R a" h] mem_entry [OF m1] a h by auto
  obtain s1 e where s1: "evfs_entries_alloc_element (Some v) (Some a) ?s = Some (Some e, s1)"
    "fs_inv ecc path (fsys s1) cs cc (set_hd (V(c := replicate cs 0)) c ((hd_of (V(c := replicate cs 0)) c)\<lparr>head_cluster_id := int (hd (L a))\<rparr>))"
    "vol_mem s1 (L(a := L a @ [c])) K R {}" "same_views g (fsys s1)" "kept_vol ?s s1" "elem_on s1 a e c"
    "get_ehead s1 a = Some (h\<lparr>elements := elements h @ [e], count_of_elements := count_of_elements h + 1\<rparr>)"
    "\<forall>x. x \<in> set (elements h) \<longrightarrow> get_elem s1 x = get_elem ?s x"
    using alloc_element_run [of ecc path ?s cs cc "V(c := replicate cs 0)" L K R c a h v] g(2) m1 a h bg nc by auto
  let ?W = "set_hd (V(c := replicate cs 0)) c (zero_head\<lparr>head_cluster_id := int (hd (L a))\<rparr>)"
  have W: "fs_inv ecc path (fsys s1) cs cc ?W" using s1(2) zero_hd [OF cs] by simp
  have b1: "busy_at (fsys s1) = busy_at g" using s1(4) by (simp add: same_views_def)
  have pv: "(case last_or_none (elements h) of None \<Rightarrow> map_option ehead_view (get_ehead s1 a) | Some l \<Rightarrow> element_view l s1) = Some (Some w)"
    using w(1) s1(7,8) by (auto simp: last_or_none_def element_view_def split: if_splits)
  obtain f2 where f2: "evfs_view_set_next (Some w) (Some v) (fsys s1) = Some (0, f2)" "fs_inv ecc path f2 cs cc (linked V (L a) c cs)" "same_views (fsys s1) f2"
    using fs_set_next [OF W, where v = w and c = "last (L a)" and wp = "Some v" and b = c] w(2) bg by (auto simp: b1 linked_def Let_def simp del: fun_upd_apply)
  let ?s2 = "s1\<lparr>fsys := f2\<rparr>"
  have m2: "vol_mem ?s2 (L(a := L a @ [c])) K R {}" using s1(3) vol_mem_views [OF f2(3)] by simp
  have link: "link_elements a (last_or_none (elements h)) [v] ?s = Some (True, ?s2)"
    using s1(1) pv f2(1) by (simp add: on_fs_def)
  have a2: "a \<in> set (entries_list (em ?s2))" using a s1(5) by (simp add: kept_vol_def)
  have ne: "L a \<noteq> []" using mem_entry [OF m a] by (simp add: entry_on_def)
  have "entry_on ?s2 a (L a @ [c]) (K a) (R a)" using mem_entry [OF m2 a2] by simp
  then have e2: "list_all2 (elem_on ?s2 a) (elements h @ [e]) (tl (L a @ [c])) \<and> ehead_view h \<noteq> None \<and> busy_at f2 (the (ehead_view h)) (hd (L a))"
    by (rule entry_obtain) (use s1(7) ne in auto)
  obtain f3 r where f3: "write_element_heads 0 (elements h @ [e]) ?s2 = Some (r, ?s2\<lparr>fsys := f3\<rparr>)" "NSP_SUCCESS r" "fs_inv ecc path f3 cs cc (linked V (L a) c cs)" "same_views f2 f3"
    using write_heads_run [of ecc path ?s2 cs cc _ a, OF _ conjunct1 [OF e2], of "linked V (L a) c cs" 0] f2(2) by (auto simp: NSP_SUCCESS_def)
  have b3: "busy_at f3 = busy_at f2" using f3(4) by (simp add: same_views_def)
  obtain f4 where f4: "evfs_view_write_head (ehead_view h) f3 = Some (12, f4)" "fs_inv ecc path f4 cs cc (linked V (L a) c cs)" "same_views f3 f4"
    using fs_write_head [OF f3(3), of "the (ehead_view h)" "hd (L a)"] e2 b3 by auto
  define fz where "fz = (if elements h = [] then f4 else f3)"
  have fz: "fs_inv ecc path fz cs cc (linked V (L a) c cs)" "same_views f2 fz" using f3(3,4) f4(2,3) same_views_trans by (auto simp: fz_def)
  have run: "evfs_entries_alloc_idle_elements_for_head (Some a) 1 s = Some (if elements h = [] then 12 else r, s1\<lparr>fsys := fz\<rparr>)"
    using f(1) g(1) h link s1(7) f3(1,2) f4(1)
    by (simp add: evfs_entries_alloc_idle_elements_for_head_def error_not_success fz_def on_fs_def del: link_elements.simps)
  have "same_views g fz" using same_views_trans [OF same_views_trans [OF s1(4) f2(3)] fz(2)] .
  then have "idlelist (vm fz) = I" using g(3) by (simp add: same_views_def)
  moreover have "vol_mem (s1\<lparr>fsys := fz\<rparr>) (L(a := L a @ [c])) K R {}" using m2 vol_mem_views [of ?s2 fz] fz(2) by simp
  moreover have "last_element a (s1\<lparr>fsys := fz\<rparr>) = Some e" using s1(7) by (simp add: last_element_def last_or_none_def)
  moreover have "elem_on (s1\<lparr>fsys := fz\<rparr>) = elem_on s1"
    by (rule elem_on_fs) (use same_views_trans [OF f2(3) fz(2)] in \<open>simp_all add: same_views_def\<close>)
  then have "elem_on (s1\<lparr>fsys := fz\<rparr>) a e c" using s1(6) by simp
  ultimately show ?thesis using run fz(1) f3(2) nc c'(2) cc' s1(5)
    by (intro exI [of _ "s1\<lparr>fsys := fz\<rparr>"] exI [of _ e] exI [of _ "if elements h = [] then 12 else r"]) (simp add: kept_vol_def NSP_SUCCESS_def)
qed

end
