(* ===== verification/EvfsEntriesData.thy ===== *)
theory EvfsEntriesData
  imports EvfsEntriesInv
begin

text \<open>
  The data of entries (\<^verbatim>\<open>addons/evfs/entries.c\<close>): how a file lies on its chain of clusters, and what writing and reading do with it.
\<close>

section \<open>Files on clusters\<close>

text \<open>
  The bytes \<^term>\<open>P\<close> of a file (its key, then its data) lie on a chain of clusters in blocks of \<^term>\<open>m\<close> bytes. The head of the first cluster has the
  marked size \<^term>\<open>tot\<close> of the file, the others that of their block; each points to its successor and to the first one.
\<close>

definition block :: "bytes \<Rightarrow> nat \<Rightarrow> nat \<Rightarrow> bytes" where
  "block P m i = take m (drop (i * m) P)"

definition file_head :: "nat \<Rightarrow> nat list \<Rightarrow> bytes \<Rightarrow> nat \<Rightarrow> nat \<Rightarrow> evfs_cluster" where
  "file_head m cl P tot i = \<lparr>data_seg_size = (if i = 0 then int tot - 2 ^ 31 else int (length (block P m i))),
     next_cluster_id = (if Suc i < length cl then int (cl ! Suc i) else 0), head_cluster_id = int (hd cl)\<rparr>"

definition file_part :: "(nat \<Rightarrow> bytes) \<Rightarrow> nat \<Rightarrow> nat list \<Rightarrow> bytes \<Rightarrow> nat \<Rightarrow> bool" where
  "file_part V m cl P tot \<longleftrightarrow> cl \<noteq> [] \<and> (length cl - 1) * m < length P \<and> length P \<le> length cl * m \<and>
     (\<forall>i < length cl. hd_of V (cl ! i) = file_head m cl P tot i \<and> take (length (block P m i)) (body V (cl ! i)) = block P m i)"

lemma file_part_cong: "file_part V m cl P tot \<Longrightarrow> (\<And>c. c \<in> set cl \<Longrightarrow> W c = V c) \<Longrightarrow> file_part W m cl P tot"
  by (simp add: file_part_def hd_of_def body_def)

lemma block_append: "(i + 1) * m \<le> length P \<Longrightarrow> block (P @ D) m i = block P m i"
  by (simp add: block_def)

lemma block_last: "length P = n * m \<Longrightarrow> length D \<le> m \<Longrightarrow> block (P @ D) m n = D"
  by (simp add: block_def)

lemma file_part_append:
  assumes f: "file_part V m cl P tot" and l: "length P = length cl * m" "distinct cl" "c \<notin> set cl"
    and D: "D \<noteq> []" "length D \<le> m"
    and c: "hd_of W c = \<lparr>data_seg_size = int (length D), next_cluster_id = 0, head_cluster_id = int (hd cl)\<rparr>" "take (length D) (body W c) = D"
    and z: "hd_of W (last cl) = (hd_of V (last cl))\<lparr>next_cluster_id := int c\<rparr>"
    and b: "\<And>d. d \<in> set cl \<Longrightarrow> body W d = body V d" "\<And>d. d \<in> set cl \<Longrightarrow> d \<noteq> last cl \<Longrightarrow> hd_of W d = hd_of V d"
  shows "file_part W m (cl @ [c]) (P @ D) tot"
proof -
  have ne: "cl \<noteq> []" and old: "\<And>i. i < length cl \<Longrightarrow> hd_of V (cl ! i) = file_head m cl P tot i \<and> take (length (block P m i)) (body V (cl ! i)) = block P m i"
    using f by (auto simp: file_part_def)
  have "hd_of W ((cl @ [c]) ! i) = file_head m (cl @ [c]) (P @ D) tot i \<and> take (length (block (P @ D) m i)) (body W ((cl @ [c]) ! i)) = block (P @ D) m i"
    if i: "i < length (cl @ [c])" for i
  proof (cases "i = length cl")
    case True
    then show ?thesis using c block_last [OF l(1) D(2)] ne by (simp add: file_head_def)
  next
    case False
    then have i: "i < length cl" using i by simp
    have blk: "block (P @ D) m i = block P m i" by (rule block_append) (use i l(1) mult_le_mono1 [of "i + 1" "length cl" m] in simp)
    have m: "cl ! i \<in> set cl" using i by simp
    show ?thesis
    proof (cases "i = length cl - 1")
      case True
      then have "cl ! i = last cl" using ne by (simp add: last_conv_nth)
      then show ?thesis using z b(1) [OF m] old [OF i] i ne True blk by (auto simp: file_head_def nth_append)
    next
      case False
      then have "cl ! i \<noteq> last cl" using l(2) i ne by (simp add: last_conv_nth nth_eq_iff_index_eq)
      then show ?thesis using b [OF m] old [OF i] i ne False blk by (auto simp: file_head_def nth_append)
    qed
  qed
  then show ?thesis using D l(1) by (simp add: file_part_def)
qed

text \<open>Linking and filling a new cluster.\<close>

definition filled :: "(nat \<Rightarrow> bytes) \<Rightarrow> nat list \<Rightarrow> nat \<Rightarrow> nat \<Rightarrow> bytes \<Rightarrow> nat \<Rightarrow> bytes" where
  "filled V cl c cs D = (let W = linked V cl c cs; W = set_hd W c ((hd_of W c)\<lparr>data_seg_size := int (length D)\<rparr>) in set_body W c (splice (body W c) 0 D))"

lemma linked_heads:
  assumes "12 \<le> cs" "c \<noteq> last cl" "int (hd cl) < 2 ^ 31" "int c < 2 ^ 31" "head_range (hd_of V (last cl))"
  shows "hd_of (linked V cl c cs) c = zero_head\<lparr>head_cluster_id := int (hd cl)\<rparr>" "body (linked V cl c cs) c = replicate (cs - 12) 0"
    "hd_of (linked V cl c cs) (last cl) = (hd_of V (last cl))\<lparr>next_cluster_id := int c\<rparr>"
    "\<And>d. d \<noteq> c \<Longrightarrow> body (linked V cl c cs) d = body V d" "\<And>d. d \<noteq> c \<Longrightarrow> d \<noteq> last cl \<Longrightarrow> linked V cl c cs d = V d" "length (linked V cl c cs c) = cs"
proof -
  have r: "head_range (zero_head\<lparr>head_cluster_id := int (hd cl)\<rparr>)" "head_range ((hd_of V (last cl))\<lparr>next_cluster_id := int c\<rparr>)"
    using assms(3-5) by (simp_all add: head_range_def zero_head_def)
  show "hd_of (linked V cl c cs) c = zero_head\<lparr>head_cluster_id := int (hd cl)\<rparr>" "body (linked V cl c cs) c = replicate (cs - 12) 0"
    "hd_of (linked V cl c cs) (last cl) = (hd_of V (last cl))\<lparr>next_cluster_id := int c\<rparr>" "length (linked V cl c cs c) = cs"
    using assms(1,2) r by (simp_all add: linked_def Let_def) (simp_all add: body_def set_hd_def)
  show "\<And>d. d \<noteq> c \<Longrightarrow> body (linked V cl c cs) d = body V d" "\<And>d. d \<noteq> c \<Longrightarrow> d \<noteq> last cl \<Longrightarrow> linked V cl c cs d = V d"
    by (simp_all add: linked_def Let_def)
qed

lemma filled_file:
  assumes f: "file_part V m cl P tot" and l: "length P = length cl * m" "distinct cl" "c \<notin> set cl" and D: "D \<noteq> []" "length D \<le> m"
    and r: "12 \<le> cs" "m = cs - 12" "int (hd cl) < 2 ^ 31" "int c < 2 ^ 31" "head_range (hd_of V (last cl))" "int cs < 2 ^ 31"
  shows "file_part (filled V cl c cs D) m (cl @ [c]) (P @ D) tot" "\<And>d. d \<noteq> c \<Longrightarrow> d \<noteq> last cl \<Longrightarrow> filled V cl c cs D d = V d"
proof -
  have ne: "cl \<noteq> []" using f by (simp add: file_part_def)
  then have c: "c \<noteq> last cl" "last cl \<in> set cl" using l(3) by auto
  note k = linked_heads [OF r(1) c(1) r(3-5)]
  let ?W = "set_hd (linked V cl c cs) c ((hd_of (linked V cl c cs) c)\<lparr>data_seg_size := int (length D)\<rparr>)"
  have h: "head_range ((hd_of (linked V cl c cs) c)\<lparr>data_seg_size := int (length D)\<rparr>)"
    using k(1) r(3,6) D(2) r(2) by (simp add: head_range_def zero_head_def)
  have w: "12 \<le> length (?W c)" by (simp add: set_hd_def)
  have F: "filled V cl c cs D = set_body ?W c (splice (replicate (cs - 12) 0) 0 D)" using k(2) by (simp add: filled_def Let_def)
  show "file_part (filled V cl c cs D) m (cl @ [c]) (P @ D) tot"
  proof (rule file_part_append [OF f l D])
    show "hd_of (filled V cl c cs D) c = \<lparr>data_seg_size = int (length D), next_cluster_id = 0, head_cluster_id = int (hd cl)\<rparr>"
      unfolding F hd_of_set_body [of ?W c, OF w] using h k(1) by (simp add: zero_head_def)
    show "take (length D) (body (filled V cl c cs D) c) = D" unfolding F body_set_body [of ?W c, OF w] using D by (simp add: splice_def)
    show "hd_of (filled V cl c cs D) (last cl) = (hd_of V (last cl))\<lparr>next_cluster_id := int c\<rparr>"
      unfolding F hd_of_set_body [of ?W c, OF w] using k(3) c(1) by simp
    show "body (filled V cl c cs D) d = body V d" if "d \<in> set cl" for d
      unfolding F body_set_body [of ?W c, OF w] using k(4) [of d] that l(3) by auto
    show "hd_of (filled V cl c cs D) d = hd_of V d" if "d \<in> set cl" "d \<noteq> last cl" for d
    proof -
      have "d \<noteq> c" using that l(3) by auto
      then show ?thesis unfolding F hd_of_set_body [of ?W c, OF w] using k(5) [of d] that(2) by (simp add: hd_of_def)
    qed
  qed
  show "\<And>d. d \<noteq> c \<Longrightarrow> d \<noteq> last cl \<Longrightarrow> filled V cl c cs D d = V d" unfolding F using k(5) by simp
qed

text \<open>A volume: the file system below it, its entries, and what both sides know of the size of a cluster. No wild elements are left.\<close>

definition vol_inv :: "nat \<Rightarrow> string \<Rightarrow> evfs_vol \<Rightarrow> nat \<Rightarrow> nat \<Rightarrow> (nat \<Rightarrow> bytes) \<Rightarrow> (nat \<Rightarrow> nat list) \<Rightarrow> (nat \<Rightarrow> bytes) \<Rightarrow> (nat \<Rightarrow> int \<times> int) \<Rightarrow> bool" where
  "vol_inv ecc path s cs cc V L K R \<longleftrightarrow> fs_inv ecc path (fsys s) cs cc V \<and> vol_mem s L K R {} \<and> 92 \<le> cs \<and> cs \<le> 4096 \<and> cs * cc < 2 ^ 30 \<and>
     ent_max_data_seg_size (em s) = int cs - 12 \<and> wild_list (em s) = []"

lemma vol_fs: "vol_inv ecc path s cs cc V L K R \<Longrightarrow> fs_inv ecc path (fsys s) cs cc V"
  and vol_memory: "vol_inv ecc path s cs cc V L K R \<Longrightarrow> vol_mem s L K R {}"
  and vol_size: "vol_inv ecc path s cs cc V L K R \<Longrightarrow> 92 \<le> cs"
  and vol_max: "vol_inv ecc path s cs cc V L K R \<Longrightarrow> ent_max_data_seg_size (em s) = int cs - 12"
  by (simp_all add: vol_inv_def)

lemma vol_count: "vol_inv ecc path s cs cc V L K R \<Longrightarrow> cc < 2 ^ 30"
  using factor_less [of cs cc "2 ^ 30"] by (simp add: vol_inv_def)

lemma next_in_last: "distinct xs \<Longrightarrow> xs \<noteq> [] \<Longrightarrow> next_in xs (last xs) = Some None"
  by (induction xs) auto

lemma vol_invI:
  assumes "vol_inv ecc path s cs cc V L K R" "fs_inv ecc path (fsys s') cs cc V'" "vol_mem s' L' K' R' {}" "ent_max_data_seg_size (em s') = ent_max_data_seg_size (em s)" "wild_list (em s') = wild_list (em s)"
  shows "vol_inv ecc path s' cs cc V' L' K' R'"
  using assms by (simp add: vol_inv_def)

lemma vol_chain_range:
  assumes "vol_inv ecc path s cs cc V L K R" "a \<in> set (entries_list (em s))" "c \<in> set (L a)"
  shows "0 < c" "int c < 2 ^ 31" "length (V c) = cs" "head_range (hd_of V c)"
proof -
  obtain v where v: "busy_at (fsys s) v c" using chain_view [OF mem_entry [OF vol_memory [OF assms(1)] assms(2)] assms(3)] by blast
  note b = busy_cluster [OF vol_fs [OF assms(1)] v]
  show "0 < c" "length (V c) = cs" using b by simp_all
  show "head_range (hd_of V c)" using hd_range [of V c] b by simp
  show "int c < 2 ^ 31" using b(2) vol_count [OF assms(1)] by simp
qed

lemma vol_chain:
  assumes "vol_inv ecc path s cs cc V L K R" "a \<in> set (entries_list (em s))"
  shows "L a \<noteq> []" "distinct (L a)" "hd (L a) \<in> set (L a)" "last (L a) \<in> set (L a)"
  using mem_entry [OF vol_memory [OF assms(1)] assms(2)] mem_chains [OF vol_memory [OF assms(1)]] assms(2) by (auto simp: entry_on_def chains_ok_def)

lemma elem_view_on: "elem_on s a e c \<Longrightarrow> \<exists>w. element_view e s = Some (Some w) \<and> busy_at (fsys s) w c"
  by (auto simp: elem_on_def element_view_def)

lemma new_block:
  assumes v: "vol_inv ecc path s cs cc V L K R" and a: "a \<in> set (entries_list (em s))"
    and I: "idlelist (vm (fsys s)) \<noteq> []" and n: "0 < n" "n \<le> int (length data)"
    and D: "D = take (nat (min n (int cs - 12))) data"
  shows "\<exists>c s1 s2 s3 e w. last_or_new a None s = Some (Some e, s1) \<and> element_room e 0 n s1 = Some (int (length D), s2) \<and> element_view e s2 = Some (Some w) \<and>
    on_fs (evfs_view_write_userdata (Some w) (Some data) 0 (int (length D))) s2 = Some (int (length D), s3) \<and>
    vol_inv ecc path s3 cs cc (filled V (L a) c cs D) (L(a := L a @ [c])) K R \<and> c \<notin> chain_set (entries_list (em s)) L \<and> 0 < c \<and> int c < 2 ^ 31 \<and>
    kept_vol s s3 \<and> idlelist (vm (fsys s3)) = tl (idlelist (vm (fsys s))) \<and> evfs_entries_next_element_or_null e a s3 = Some None"
proof -
  let ?f = "fsys s"
  have cs: "12 \<le> cs" "92 \<le> cs" using vol_size [OF v] by simp_all
  obtain v0 I0 where I0: "idlelist (vm ?f) = v0 # I0" using I by (cases "idlelist (vm ?f)") auto
  obtain c where c: "idle_at ?f v0 c" "c < cc" by (rule idle_obtain [OF vol_fs [OF v], of v0]) (use I0 in auto)
  have cm: "int c < 2 ^ 31" using c(2) vol_count [OF v] by simp
  obtain r s1 e where 1: "evfs_entries_alloc_idle_elements_for_head (Some a) 1 s = Some (r, s1)" "NSP_SUCCESS r" "fs_inv ecc path (fsys s1) cs cc (linked V (L a) c cs)"
    "vol_mem s1 (L(a := L a @ [c])) K R {}" "idlelist (vm (fsys s1)) = I0" "kept_vol s s1" "last_element a s1 = Some e" "elem_on s1 a e c"
    "c \<notin> chain_set (entries_list (em s)) L" "0 < c"
    using alloc_one [OF vol_fs [OF v] vol_memory [OF v] a I0 c(1) cs(1)] by (elim exE conjE) (rule that)
  have D0: "D \<noteq> []" "length D \<le> cs - 12" "int (length D) = min n (int cs - 12)" using n cs D by (auto simp: min_def)
  have "cs \<le> 4096" using v by (simp add: vol_inv_def)
  then have Dm: "int (length D) < 2 ^ 31" using D0(2) by simp
  obtain w where w: "element_view e s1 = Some (Some w)" "busy_at (fsys s1) w c" using elem_view_on [OF 1(8)] by blast
  note lh = vol_chain_range [OF v a] and ch = vol_chain [OF v a]
  have cl: "c \<noteq> last (L a)" using 1(9) ch(4) a by (auto simp: chain_set_def)
  note k = linked_heads [OF cs(1) cl lh(2) [OF ch(3)] cm lh(4) [OF ch(4)]]
  have sz: "evfs_view_get_data_seg_size (Some w) (fsys s1) = Some 0" using fs_get_size [OF 1(3) w(2)] k(1) by (simp add: shown_size_def zero_head_def)
  obtain f2 where 2: "evfs_view_set_element_data_seg_size (Some w) (int (length D)) (fsys s1) = Some (0, f2)"
    "fs_inv ecc path f2 cs cc (set_hd (linked V (L a) c cs) c ((hd_of (linked V (L a) c cs) c)\<lparr>data_seg_size := int (length D)\<rparr>))" "same_views (fsys s1) f2"
    using fs_set_element_size [OF 1(3) w(2), of "int (length D)"] Dm by auto
  let ?s2 = "s1\<lparr>fsys := f2\<rparr>" and ?W = "set_hd (linked V (L a) c cs) c ((hd_of (linked V (L a) c cs) c)\<lparr>data_seg_size := int (length D)\<rparr>)"
  have b2: "busy_at f2 = busy_at (fsys s1)" using 2(3) by (simp add: same_views_def)
  have mx: "ent_max_data_seg_size (em s1) = int cs - 12" using vol_max [OF v] 1(6) by (simp add: kept_vol_def)
  have room: "element_room e 0 n s1 = Some (int (length D), ?s2)"
    using w(1) sz 2(1) D0(3) mx by (simp add: element_room_def on_fs_def)
  have hr: "head_range ((hd_of (linked V (L a) c cs) c)\<lparr>data_seg_size := int (length D)\<rparr>)"
    using k(1) lh(2) [OF ch(3)] Dm by (simp add: head_range_def zero_head_def)
  have u: "data_seg_size (hd_of ?W c) \<noteq> 0" using hr D0(1) by simp
  have bd: "take (nat (int (length D))) data = D" using D by (metis append_eq_conv_conj append_take_drop_id nat_int)
  have ln: "int (length D) \<le> int (length data)" "0 < int (length D)" "0 + int (length D) \<le> int cs - 12" using D0 n cs by auto
  obtain f3 where 3: "evfs_view_write_userdata (Some w) (Some data) 0 (int (length D)) f2 = Some (int (length D), f3)"
    "fs_inv ecc path f3 cs cc (filled V (L a) c cs D)" "same_views f2 f3"
    using fs_write [OF 2(2), of w c 0 "int (length D)" data] w(2) b2 u ln bd by (auto simp: filled_def Let_def)
  let ?s3 = "s1\<lparr>fsys := f3\<rparr>"
  have sv: "same_views (fsys s1) f3" by (rule same_views_trans [OF 2(3) 3(3)])
  have m3: "vol_mem ?s3 (L(a := L a @ [c])) K R {}" using vol_mem_views [OF sv] 1(4) by simp
  have a1: "a \<in> set (entries_list (em s1))" using a 1(6) by (simp add: kept_vol_def)
  have nx: "evfs_entries_next_element_or_null e a ?s3 = Some None"
  proof (rule entry_obtain [OF mem_entry [OF 1(4) a1]])
    fix g assume g: "get_ehead s1 a = Some g" "distinct (elements g)"
    have l: "elements g \<noteq> []" "last (elements g) = e" using 1(7) g(1) by (auto simp: last_element_def last_or_none_def split: if_splits)
    show ?thesis using g next_in_last [OF g(2) l(1)] l(2) by (simp add: evfs_entries_next_element_or_null_def)
  qed
  have "last_or_new a None s = Some (Some e, s1)" using 1(1,2,7) by (simp add: last_or_new_def)
  moreover have "element_view e ?s2 = Some (Some w)" using w(1) by (simp add: element_view_def)
  moreover have "on_fs (evfs_view_write_userdata (Some w) (Some data) 0 (int (length D))) ?s2 = Some (int (length D), ?s3)" using 3(1) by (simp add: on_fs_def)
  moreover have "vol_inv ecc path ?s3 cs cc (filled V (L a) c cs D) (L(a := L a @ [c])) K R"
    by (rule vol_invI [OF v]) (use 3(2) m3 mx vol_max [OF v] 1(6) in \<open>simp_all add: kept_vol_def\<close>)
  moreover have "kept_vol s ?s3" using 1(6) by (simp add: kept_vol_def)
  moreover have "idlelist (vm (fsys ?s3)) = tl (idlelist (vm (fsys s)))" using sv 1(5) I0 by (simp add: same_views_def)
  ultimately show ?thesis using room 1(9,10) cm nx by blast
qed

text \<open>Writing behind full blocks.\<close>

lemma write_new_blocks:
  assumes "vol_inv ecc path s cs cc V L K R" "a \<in> set (entries_list (em s))" "file_part V (cs - 12) (L a) P tot" "length P = length (L a) * (cs - 12)"
    and "data \<noteq> []" "length data \<le> length (idlelist (vm (fsys s))) * (cs - 12)"
  shows "\<exists>s' V' L'. evfs_entries_write_element None a data 0 (int (length data)) s = Some (int (length data), s') \<and> vol_inv ecc path s' cs cc V' L' K R \<and>
    kept_vol s s' \<and> file_part V' (cs - 12) (L' a) (P @ data) tot \<and> (\<forall>b. b \<noteq> a \<longrightarrow> L' b = L b) \<and> hd (L' a) = hd (L a) \<and>
    (\<forall>b \<in> set (entries_list (em s)). b \<noteq> a \<longrightarrow> (\<forall>c \<in> set (L b). V' c = V c))"
  using assms
proof (induction "length data" arbitrary: data s V L P rule: less_induct)
  case less
  note v = less.prems(1) and a = less.prems(2) and f = less.prems(3)
  have cs: "12 \<le> cs" "0 < cs - 12" "int (cs - 12) = int cs - 12" "int cs < 2 ^ 31" using vol_size [OF v] v by (simp_all add: vol_inv_def)
  define D where "D = take (nat (min (int (length data)) (int cs - 12))) data"
  have Dt: "D = take (cs - 12) data" unfolding D_def using cs(3) by (auto simp: min_def nat_diff_distrib)
  have I: "idlelist (vm (fsys s)) \<noteq> []" and len0: "0 < int (length data)" using less.prems(5,6) by auto
  obtain c s1 s2 s3 e w where 1: "last_or_new a None s = Some (Some e, s1)" "element_room e 0 (int (length data)) s1 = Some (int (length D), s2)"
    "element_view e s2 = Some (Some w)" "on_fs (evfs_view_write_userdata (Some w) (Some data) 0 (int (length D))) s2 = Some (int (length D), s3)"
    "vol_inv ecc path s3 cs cc (filled V (L a) c cs D) (L(a := L a @ [c])) K R" "c \<notin> chain_set (entries_list (em s)) L" "0 < c" "int c < 2 ^ 31"
    "kept_vol s s3" "idlelist (vm (fsys s3)) = tl (idlelist (vm (fsys s)))" "evfs_entries_next_element_or_null e a s3 = Some None"
    using new_block [OF v a I len0 order_refl D_def] by (elim exE conjE) (rule that)
  have D: "D \<noteq> []" "length D \<le> cs - 12" using less.prems(5) cs(2) Dt by auto
  have ca: "c \<notin> set (L a)" using 1(6) a by (auto simp: chain_set_def)
  note ch = vol_chain [OF v a] and cr = vol_chain_range [OF v a]
  note ff = filled_file [OF f less.prems(4) ch(2) ca D cs(1) refl cr(2) [OF ch(3)] 1(8) cr(4) [OF ch(4)] cs(4)]
  have fr: "filled V (L a) c cs D d = V d" if "b \<in> set (entries_list (em s))" "b \<noteq> a" "d \<in> set (L b)" for b d
  proof (rule ff(2))
    show "d \<noteq> c" using 1(6) that by (auto simp: chain_set_def)
    show "d \<noteq> last (L a)" using mem_chains [OF vol_memory [OF v]] that a ch(4) by (auto simp: chains_ok_def)
  qed
  have mx: "ent_max_data_seg_size (em s) = int cs - 12" by (rule vol_max [OF v])
  have hd: "hd (L a @ [c]) = hd (L a)" using ch(1) by simp
  show ?case
  proof (cases "length data \<le> cs - 12")
    case True
    then have DD: "D = data" using Dt by simp
    have "evfs_entries_write_element None a data 0 (int (length data)) s = Some (int (length data), s3)"
      using 1(1-4) less.prems(5) mx cs(2,3) DD by (subst evfs_entries_write_element.simps) simp
    then show ?thesis using 1(5,9) ff(1) fr hd DD by (intro exI [of _ s3] exI [of _ "filled V (L a) c cs D"] exI [of _ "L(a := L a @ [c])"]) simp
  next
    case False
    let ?r = "drop (length D) data"
    have lD: "length D = cs - 12" using False Dt by simp
    have r: "?r \<noteq> []" "length ?r < length data" "int (length data) - int (length D) = int (length ?r)" using False lD cs(2) by auto
    have P: "length (P @ D) = length ((L(a := L a @ [c])) a) * (cs - 12)" using less.prems(4) lD by simp
    obtain i0 I0 where i0: "idlelist (vm (fsys s)) = i0 # I0" using I by (cases "idlelist (vm (fsys s))") auto
    have rl: "length ?r \<le> length (idlelist (vm (fsys s3))) * (cs - 12)" using less.prems(6) 1(10) i0 lD by simp
    have a3: "a \<in> set (entries_list (em s3))" "entries_list (em s3) = entries_list (em s)" using a 1(9) by (simp_all add: kept_vol_def)
    obtain s' V' L' where 2: "evfs_entries_write_element None a ?r 0 (int (length ?r)) s3 = Some (int (length ?r), s')" "vol_inv ecc path s' cs cc V' L' K R"
      "kept_vol s3 s'" "file_part V' (cs - 12) (L' a) ((P @ D) @ ?r) tot" "\<forall>b. b \<noteq> a \<longrightarrow> L' b = (L(a := L a @ [c])) b" "hd (L' a) = hd ((L(a := L a @ [c])) a)"
      "\<forall>b \<in> set (entries_list (em s3)). b \<noteq> a \<longrightarrow> (\<forall>d \<in> set ((L(a := L a @ [c])) b). V' d = filled V (L a) c cs D d)"
      using less.hyps [OF r(2) 1(5) a3(1) _ P r(1) rl] ff(1) by auto
    have q: "evfs_entries_write_element None a ?r 0 (int (length data) - int (length D)) s3 = Some (int (length ?r), s')" unfolding r(3) by (rule 2(1))
    have ne: "int (length data) \<noteq> int (length D)" "\<not> int (length data) \<le> 0" "\<not> 0 \<ge> ent_max_data_seg_size (em s)" using False lD mx cs(2,3) less.prems(5) by auto
    have "evfs_entries_write_element None a data 0 (int (length data)) s = Some (int (length D) + int (length ?r), s')"
      by (subst evfs_entries_write_element.simps) (simp only: 1(1-4,11) ne q option.case prod.case bind.bind_lunit if_False if_True simp_thms nat_int order_less_irrefl)
    moreover have "(P @ D) @ ?r = P @ data" using Dt lD by simp
    moreover have "int (length D) + int (length ?r) = int (length data)" using r(3) by linarith
    moreover have "V' d = V d" if "b \<in> set (entries_list (em s))" "b \<noteq> a" "d \<in> set (L b)" for b d
      using 2(7) a3(2) fr [OF that] that by simp
    moreover have "kept_vol s s'" by (rule kept_vol_trans [OF 1(9) 2(3)])
    ultimately show ?thesis using 2(2,4-6) hd by (intro exI [of _ s'] exI [of _ V'] exI [of _ L']) simp
  qed
qed

text \<open>The first write to an entry, at its start.\<close>

definition file_on :: "(nat \<Rightarrow> bytes) \<Rightarrow> nat \<Rightarrow> nat list \<Rightarrow> bytes \<Rightarrow> bytes \<Rightarrow> bool" where
  "file_on V m cl k d \<longleftrightarrow> file_part V m cl (k @ d) (length k + length d)"

lemma file_one:
  "file_part V m [c] P tot \<longleftrightarrow> P \<noteq> [] \<and> length P \<le> m \<and> hd_of V c = \<lparr>data_seg_size = int tot - 2 ^ 31, next_cluster_id = 0, head_cluster_id = int c\<rparr> \<and>
     take (length P) (body V c) = P"
  by (auto simp: file_part_def file_head_def block_def)

lemma one_cluster: "file_part V m cl P tot \<Longrightarrow> length P \<le> m \<Longrightarrow> cl = [hd cl]"
proof -
  assume f: "file_part V m cl P tot" and l: "length P \<le> m"
  have "length cl = 1"
  proof (rule ccontr)
    assume "length cl \<noteq> 1"
    then have "1 \<le> length cl - 1" using f by (cases cl) (auto simp: file_part_def Suc_le_eq)
    then have "1 * m \<le> (length cl - 1) * m" by (rule mult_le_mono1)
    moreover have "(length cl - 1) * m < length P" using f by (simp add: file_part_def)
    ultimately show False using l by linarith
  qed
  then show ?thesis by (cases cl) auto
qed

lemma write_fresh:
  assumes v: "vol_inv ecc path s cs cc V L K R" and a: "a \<in> set (entries_list (em s))" and r: "refs_ok (R a)" and f: "file_on V (cs - 12) (L a) (K a) []"
    and d: "data \<noteq> []" "32 + length data \<le> (1 + length (idlelist (vm (fsys s)))) * (cs - 12)"
  shows "\<exists>s' V' L'. evfs_entries_write_data (int (hd (L a))) (Some data) 0 (int (length data)) s = Some (int (length data), s') \<and> vol_inv ecc path s' cs cc V' L' K R \<and>
    kept_vol s s' \<and> file_on V' (cs - 12) (L' a) (K a) data \<and> (\<forall>b. b \<noteq> a \<longrightarrow> L' b = L b) \<and> hd (L' a) = hd (L a) \<and>
    (\<forall>b \<in> set (entries_list (em s)). b \<noteq> a \<longrightarrow> (\<forall>c \<in> set (L b). V' c = V c))"
proof -
  let ?c = "hd (L a)" and ?m = "cs - 12" and ?n = "length data"
  have cs: "92 \<le> cs" "int ?m = int cs - 12" "cs \<le> 4096" using vol_size [OF v] v by (simp_all add: vol_inv_def)
  have k: "length (K a) = 32" using mem_index [OF vol_memory [OF v]] a by (auto simp: vol_index_def key_ok_def)
  have La: "L a = [?c]" using one_cluster [of V ?m "L a" "K a"] f k cs by (simp add: file_on_def)
  have f1: "hd_of V ?c = \<lparr>data_seg_size = 32 - 2 ^ 31, next_cluster_id = 0, head_cluster_id = int ?c\<rparr>" "take 32 (body V ?c) = K a"
    using f La k file_one [of V ?m ?c "K a" 32] by (simp_all add: file_on_def)
  note ch = vol_chain [OF v a] and cr = vol_chain_range [OF v a ch(3)]
  have il: "length (idlelist (vm (fsys s))) \<le> cc - 1" "1 < cc" using shelf_view_count [OF inv_shelf [OF fs_view [OF vol_fs [OF v]]]]
      inv_counts [OF fs_view [OF vol_fs [OF v]]] by (auto simp: view_counts_def)
  have "(1 + length (idlelist (vm (fsys s)))) * ?m \<le> cc * cs" by (rule mult_le_mono) (use il in auto)
  then have big: "32 + ?n < 2 ^ 30" using d(2) v by (simp add: vol_inv_def mult.commute)
  obtain s1 where 1: "evfs_entries_reference_head (int ?c) kEvfsEntryNormal s = Some (0, Some a, s1)" "vol_mem s1 L K (taken R a) {}" "fsys s1 = fsys s" "kept_vol s s1"
    using take_reference [OF vol_memory [OF v] a r] by blast
  have a1: "a \<in> set (entries_list (em s1))" using a 1(4) by (simp add: kept_vol_def)
  obtain h w where h: "get_ehead s1 a = Some h" "ehead_view h = Some w" "busy_at (fsys s) w ?c" "elements h = []"
    using mem_entry [OF 1(2) a1] 1(3) La by (elim entry_obtain) (metis list.sel(3) list_all2_Nil2)
  have sz: "evfs_view_get_data_seg_size (Some w) (fsys s) = Some 32" using fs_get_size [OF vol_fs [OF v] h(3)] f1(1) unmark_size_eq [of 32] by (simp add: shown_size_def)
  let ?h1 = "(hd_of V ?c)\<lparr>data_seg_size := int (32 + ?n) - 2 ^ 31\<rparr>"
  let ?V1 = "set_hd V ?c ?h1"
  obtain f2 where 2: "evfs_view_set_head_data_seg_size (Some w) (32 + int ?n) (fsys s) = Some (0, f2)" "fs_inv ecc path f2 cs cc ?V1" "same_views (fsys s) f2"
    using fs_set_head_size [OF vol_fs [OF v] h(3), of "32 + int ?n"] big by auto
  have hr: "head_range ?h1" using cr(4) big by (simp add: head_range_def)
  have h2: "hd_of ?V1 ?c = \<lparr>data_seg_size = int (32 + ?n) - 2 ^ 31, next_cluster_id = 0, head_cluster_id = int ?c\<rparr>" using hr f1(1) by simp
  define D where "D = take (?m - 32) data"
  have lD: "int (length D) = min (int cs - 44) (int ?n)" "D \<noteq> []" "take (length D) data = D" "length D \<le> ?n" "32 + length D \<le> ?m"
    using cs(1) d(1) by (auto simp: D_def min_def)
  have "44 + length D \<le> cs" using lD(5) cs(1) by linarith
  then have q: "44 + int (length D) \<le> int cs" by linarith
  define V1 where "V1 = set_hd V ?c ?h1"
  define V2 where "V2 = set_body V1 ?c (splice (body V ?c) 32 D)"
  have b2: "busy_at f2 w ?c" using h(3) 2(3) by (simp add: same_views_def)
  have w2: "fs_inv ecc path f2 cs cc V1" "data_seg_size (hd_of V1 ?c) \<noteq> 0" "body V1 = body V" using 2(2) h2 big by (simp_all add: V1_def)
  obtain f3 where 3: "evfs_view_write_userdata (Some w) (Some data) 32 (int (length D)) f2 = Some (int (length D), f3)" "fs_inv ecc path f3 cs cc V2" "same_views f2 f3"
    using fs_write [OF w2(1) b2, of 32 "int (length D)" data] w2(2,3) lD(2-4) q by (auto simp: V2_def)
  let ?s3 = "s1\<lparr>fsys := f3\<rparr>"
  have sv: "same_views (fsys s1) f3" using same_views_trans [OF 2(3) 3(3)] 1(3) by simp
  have v3: "vol_inv ecc path ?s3 cs cc V2 L K (taken R a)"
    by (rule vol_invI [OF v]) (use 3(2) vol_mem_views [OF sv] 1(2,4) in \<open>simp_all add: kept_vol_def\<close>)
  have len: "12 \<le> length (V1 ?c)" by (simp add: V1_def set_hd_def)
  have P3: "file_part V2 ?m (L a) (K a @ D) (32 + ?n)"
  proof -
    have "hd_of V2 ?c = \<lparr>data_seg_size = int (32 + ?n) - 2 ^ 31, next_cluster_id = 0, head_cluster_id = int ?c\<rparr>"
      unfolding V2_def hd_of_set_body [of V1 ?c, OF len] using h2 by (simp add: V1_def)
    moreover have "take (length (K a @ D)) (body V2 ?c) = K a @ D"
      unfolding V2_def body_set_body [of V1 ?c, OF len] using f1(2) k by (simp add: splice_def)
    ultimately have "file_part V2 ?m [?c] (K a @ D) (32 + ?n)" using lD(2,5) k by (simp add: file_one)
    then show ?thesis by (subst La)
  qed
  have fr: "V2 d = V d" if "d \<noteq> ?c" for d using that by (simp add: V2_def V1_def)
  have oth: "c \<noteq> ?c" if "b \<in> set (entries_list (em s))" "b \<noteq> a" "c \<in> set (L b)" for b c
    using mem_chains [OF vol_memory [OF v]] that a ch(3) by (auto simp: chains_ok_def)
  have a3: "a \<in> set (entries_list (em ?s3))" "entries_list (em ?s3) = entries_list (em s)" using a 1(4) by (simp_all add: kept_vol_def)
  have ep: "evfs_entries_first_element_or_null a ?s3 = Some None" using h(1,4) by (simp add: evfs_entries_first_element_or_null_def)
  have mx: "ent_max_data_seg_size (em s1) = int cs - 12" using vol_max [OF v] 1(4) by (simp add: kept_vol_def)
  have pre: "evfs_entries_write_data (int ?c) (Some data) 0 (int ?n) s = do {
      (total, s) \<leftarrow> (if 0 = int ?n - int (length D) then Some (int (length D), ?s3)
        else do { (q, s) \<leftarrow> evfs_entries_write_element None a (drop (length D) data) 0 (int ?n - int (length D)) ?s3; Some (int (length D) + q, s) });
      s \<leftarrow> evfs_entries_dereference_head a kEvfsEntryNormal s;
      Some (total, s) }"
    using 1(1,3) h(1,2) sz 2(1) 3(1) ep mx lD(1) [symmetric] big cs d(1) cr(1) to_int_small [of 32]
    by (simp add: evfs_entries_write_data_def error_not_success MAX_ENTRY_NAME_LENGTH_def c_int_def on_fs_def Let_def)
  show ?thesis
  proof (cases "length D = ?n")
    case True
    then have Dd: "D = data" using lD(3) by simp
    obtain s' where s': "evfs_entries_dereference_head a kEvfsEntryNormal ?s3 = Some s'" "vol_mem s' L K R {}" "fsys s' = f3" "kept_vol ?s3 s'"
      using drop_reference [OF vol_memory [OF v3] a3(1) r] by auto
    have "vol_inv ecc path s' cs cc V2 L K R" by (rule vol_invI [OF v3]) (use s' 3(2) r in \<open>simp_all add: kept_vol_def fun_upd_idem\<close>)
    moreover have "kept_vol s s'" using 1(4) s'(4) by (simp add: kept_vol_def)
    ultimately show ?thesis using pre s'(1) True P3 k Dd fr oth
      by (intro exI [of _ s'] exI [of _ V2] exI [of _ L]) (auto simp: file_on_def)
  next
    case False
    let ?r = "drop (length D) data"
    have Dm: "length D = ?m - 32" using False by (auto simp: D_def min_def)
    have r2: "?r \<noteq> []" "int ?n - int (length D) = int (length ?r)" "0 \<noteq> int ?n - int (length D)" using False lD(4) by auto
    have lP: "length (K a @ D) = length (L a) * ?m" using k Dm cs(1) arg_cong [OF La, of length] by simp
    have li: "idlelist (vm (fsys ?s3)) = idlelist (vm (fsys s))" using sv 1(3) by (simp add: same_views_def)
    have lr: "length ?r \<le> length (idlelist (vm (fsys ?s3))) * ?m" unfolding li using d(2) Dm cs(1) by simp
    obtain s4 V4 L4 where 4: "evfs_entries_write_element None a ?r 0 (int (length ?r)) ?s3 = Some (int (length ?r), s4)"
      "vol_inv ecc path s4 cs cc V4 L4 K (taken R a)" "kept_vol ?s3 s4" "file_part V4 ?m (L4 a) ((K a @ D) @ ?r) (32 + ?n)" "\<forall>b. b \<noteq> a \<longrightarrow> L4 b = L b"
      "hd (L4 a) = hd (L a)" "\<forall>b \<in> set (entries_list (em ?s3)). b \<noteq> a \<longrightarrow> (\<forall>c \<in> set (L b). V4 c = V2 c)"
      using write_new_blocks [OF v3 a3(1) P3 lP r2(1) lr] by (elim exE conjE) (rule that)
    have a4: "a \<in> set (entries_list (em s4))" using a3(1) 4(3) by (simp add: kept_vol_def)
    obtain s' where s': "evfs_entries_dereference_head a kEvfsEntryNormal s4 = Some s'" "vol_mem s' L4 K R {}" "fsys s' = fsys s4" "kept_vol s4 s'"
      using drop_reference [OF vol_memory [OF 4(2)] a4 r] by auto
    have "vol_inv ecc path s' cs cc V4 L4 K R" by (rule vol_invI [OF 4(2)]) (use s' vol_fs [OF 4(2)] r in \<open>simp_all add: kept_vol_def fun_upd_idem\<close>)
    moreover have kv: "kept_vol s s'" using 1(4) 4(3) s'(4) by (simp add: kept_vol_def)
    moreover have "int (length D) + int (length ?r) = int ?n" using r2(2) by linarith
    then have "evfs_entries_write_data (int ?c) (Some data) 0 (int ?n) s = Some (int ?n, s')"
      unfolding pre using 4(1) s'(1) r2(3) unfolding r2(2) by (simp del: length_drop)
    moreover have "(K a @ D) @ ?r = K a @ data" using lD(3) append_take_drop_id [of "length D" data] by simp
    then have "file_on V4 ?m (L4 a) (K a) data" using 4(4) k by (simp add: file_on_def)
    moreover have "V4 c = V c" if "b \<in> set (entries_list (em s))" "b \<noteq> a" "c \<in> set (L b)" for b c
      using 4(7) a3(2) that fr [OF oth [OF that]] by simp
    ultimately show ?thesis using 4(5,6) by (intro exI [of _ s'] exI [of _ V4] exI [of _ L4]) simp
  qed
qed

section \<open>Reading\<close>

lemma next_in_nth: "distinct xs \<Longrightarrow> i < length xs \<Longrightarrow> next_in xs (xs ! i) = Some (if Suc i < length xs then Some (xs ! Suc i) else None)"
  by (induction xs arbitrary: i) (auto simp: nth_Cons split: nat.split list.split)

text \<open>What every element of a file shows.\<close>

lemma element_at:
  assumes v: "vol_inv ecc path s cs cc V L K R" and a: "a \<in> set (entries_list (em s))" and f: "file_part V (cs - 12) (L a) P tot"
    and j: "0 < j" "j < length (L a)" and h: "get_ehead s a = Some h"
  shows "\<exists>w. element_view (elements h ! (j - 1)) s = Some (Some w) \<and> busy_at (fsys s) w (L a ! j) \<and>
    evfs_view_get_data_seg_size (Some w) (fsys s) = Some (int (length (block P (cs - 12) j)))" "j - 1 < length (elements h)"
proof -
  have l: "list_all2 (elem_on s a) (elements h) (tl (L a))" using mem_entry [OF vol_memory [OF v] a] h by (elim entry_obtain) auto
  then have len: "length (elements h) = length (L a) - 1" using list_all2_lengthD by fastforce
  show jl: "j - 1 < length (elements h)" using len j by simp
  have "elem_on s a (elements h ! (j - 1)) (tl (L a) ! (j - 1))" by (rule list_all2_nthD [OF l jl])
  then have "elem_on s a (elements h ! (j - 1)) (L a ! j)" using j by (simp add: nth_tl)
  then obtain w where w: "element_view (elements h ! (j - 1)) s = Some (Some w)" "busy_at (fsys s) w (L a ! j)" using elem_view_on by blast
  have "hd_of V (L a ! j) = file_head (cs - 12) (L a) P tot j" using f j(2) by (simp add: file_part_def)
  then have "evfs_view_get_data_seg_size (Some w) (fsys s) = Some (int (length (block P (cs - 12) j)))"
    using fs_get_size [OF vol_fs [OF v] w(2)] j(1) by (simp add: shown_size_def file_head_def)
  then show "\<exists>w. element_view (elements h ! (j - 1)) s = Some (Some w) \<and> busy_at (fsys s) w (L a ! j) \<and>
    evfs_view_get_data_seg_size (Some w) (fsys s) = Some (int (length (block P (cs - 12) j)))" using w by blast
qed

lemma block_length: "length (block P m j) = min m (length P - j * m)"
  by (simp add: block_def)

lemma take_block: "n + off \<le> length (block P m j) \<Longrightarrow> take (length (block P m j)) b = block P m j \<Longrightarrow> take n (drop off b) = take n (drop (j * m + off) P)"
proof -
  assume n: "n + off \<le> length (block P m j)" and b: "take (length (block P m j)) b = block P m j"
  have "take n (drop off b) = drop off (take (off + n) b)" by (simp add: drop_take)
  also have "take (off + n) b = take (off + n) (take (length (block P m j)) b)" using n by (simp add: min_absorb1 add.commute)
  also have "... = take (off + n) (drop (j * m) P)" unfolding b using n by (simp add: block_def min_absorb1)
  also have "drop off ... = take n (drop (j * m + off) P)" by (simp add: drop_take add.commute)
  finally show ?thesis .
qed

lemma read_view_run:
  assumes inv: "fs_inv ecc path (fsys s) cs cc V" and w: "busy_at (fsys s) w c" and u: "data_seg_size (hd_of V c) \<noteq> 0 \<or> head_cluster_id (hd_of V c) \<noteq> 0"
    and n: "0 < n" "off + n \<le> cs - 12" "n \<le> length buf"
  shows "\<exists>f. read_view (Some w) buf (int off) (int n) s = Some (int n, take n (drop off (body V c)) @ drop n buf, s\<lparr>fsys := f\<rparr>) \<and>
    fs_inv ecc path f cs cc V \<and> same_views (fsys s) f"
proof -
  have "int off + int n \<le> int cs - 12" using n(1,2) by linarith
  then show ?thesis using fs_read [OF inv w u, of "int off" "int n" buf] n by (auto simp: read_view_def)
qed

lemma read_blocks:
  assumes "vol_inv ecc path s cs cc V L K R" "a \<in> set (entries_list (em s))" "file_part V (cs - 12) (L a) P tot" "get_ehead s a = Some h"
    and "0 < j" "j < length (L a)" "off < cs - 12" "0 < n" "j * (cs - 12) + off + n \<le> length P" "n \<le> length buf"
  shows "\<exists>f. evfs_entries_read_element (Some (elements h ! (j - 1))) a buf (int off) (int n) s =
      Some (int n, take n (drop (j * (cs - 12) + off) P) @ drop n buf, s\<lparr>fsys := f\<rparr>) \<and> fs_inv ecc path f cs cc V \<and> same_views (fsys s) f"
  using assms
proof (induction n arbitrary: s j off buf rule: less_induct)
  case (less n)
  note v = less.prems(1) and a = less.prems(2) and f = less.prems(3) and h = less.prems(4) and j = less.prems(5,6)
  let ?m = "cs - 12" and ?e = "elements h ! (j - 1)" and ?c = "L a ! j"
  have cs: "92 \<le> cs" "int ?m = int cs - 12" using vol_size [OF v] by simp_all
  define k where "k = length (block P ?m j)"
  have k: "k = min ?m (length P - j * ?m)" by (simp add: k_def block_length)
  obtain w where w: "element_view ?e s = Some (Some w)" "busy_at (fsys s) w ?c" "evfs_view_get_data_seg_size (Some w) (fsys s) = Some (int k)"
    using element_at [OF v a f j h] by (auto simp: k_def)
  have hd: "hd_of V ?c = file_head ?m (L a) P tot j" "take k (body V ?c) = block P ?m j" using f j(2) by (simp_all add: file_part_def k_def)
  have ko: "off < k" using k less.prems(7,8,9) by (auto simp: min_def)
  have "data_seg_size (hd_of V ?c) = int k" using hd(1) j(1) by (simp add: file_head_def k_def)
  then have u: "data_seg_size (hd_of V ?c) \<noteq> 0" using ko by simp
  define r where "r = min n (k - off)"
  have r: "0 < r" "r \<le> n" "off + r \<le> k" using ko less.prems(8) by (auto simp: r_def)
  have km: "k \<le> ?m" using k by simp
  obtain f1 where f1: "read_view (Some w) buf (int off) (int r) s = Some (int r, take r (drop off (body V ?c)) @ drop r buf, s\<lparr>fsys := f1\<rparr>)"
    "fs_inv ecc path f1 cs cc V" "same_views (fsys s) f1"
    using read_view_run [OF vol_fs [OF v] w(2), of r off buf] u r km less.prems(10) by auto
  have tb: "take r (drop off (body V ?c)) = take r (drop (j * ?m + off) P)"
    by (rule take_block) (use r hd(2) k_def in \<open>simp_all add: add.commute\<close>)
  define x where "x = take r (drop off (body V ?c))"
  have lx: "length x = r" using vol_chain_range(3) [OF v a, of ?c] j(2) r(3) km by (simp add: x_def body_def)
  have dx: "drop r (x @ drop r buf) = drop r buf" "take r (x @ drop r buf) = x" using lx by simp_all
  have mn: "min (int n) (int k - int off) = int r" using ko by (simp add: r_def min_def) linarith
  have mx: "ent_max_data_seg_size (em s) = int cs - 12" by (rule vol_max [OF v])
  have g: "\<not> (int n \<le> 0 \<or> int off < 0 \<or> int off \<ge> ent_max_data_seg_size (em s))" "\<not> int k \<le> 0" using less.prems(7,8) mx cs(2) ko by auto
  show ?case
  proof (cases "n = r")
    case True
    then have nr: "(int n = int r) = True" by simp
    have "evfs_entries_read_element (Some ?e) a buf (int off) (int n) s = Some (int r, take r (drop off (body V ?c)) @ drop r buf, s\<lparr>fsys := f1\<rparr>)"
      by (subst evfs_entries_read_element.simps)
        (simp only: option.case g w f1(1) mn nr if_False if_True simp_thms bind.bind_lunit prod.case)
    then show ?thesis using f1(2,3) tb True by auto
  next
    case False
    then have rk: "r = k - off" "k - off < n" by (auto simp: r_def min_def split: if_splits)
    then have kf: "k = ?m" using k less.prems(9) ko by (auto simp: min_def split: if_splits)
    let ?n = "n - r"
    have nx: "j * ?m + ?m < length P" using less.prems(9) rk kf ko by linarith
    have jn: "Suc j < length (L a)"
    proof (rule ccontr)
      assume "\<not> Suc j < length (L a)"
      then have "length (L a) = j + 1" using j(2) by simp
      then have "length P \<le> (j + 1) * ?m" using f by (simp add: file_part_def)
      then show False using nx by simp
    qed
    let ?s1 = "s\<lparr>fsys := f1\<rparr>"
    have v1: "vol_inv ecc path ?s1 cs cc V L K R" using v f1(2) vol_mem_views [OF f1(3)] by (simp add: vol_inv_def)
    have dist: "distinct (elements h)" using mem_entry [OF vol_memory [OF v] a] h by (elim entry_obtain) auto
    have jl: "Suc j - 1 < length (elements h)" using element_at(2) [OF v a f _ jn h] by simp
    have "evfs_entries_next_element_or_null ?e a ?s1 = Some (Some (elements h ! (Suc j - 1)))"
      using next_in_nth [OF dist, of "j - 1"] jl j(1) h by (simp add: evfs_entries_next_element_or_null_def)
    moreover have P2: "Suc j * ?m + 0 + ?n \<le> length P" using less.prems(9) rk kf ko by simp
    then obtain f2 where f2: "evfs_entries_read_element (Some (elements h ! (Suc j - 1))) a (drop r buf) 0 (int ?n) ?s1 =
        Some (int ?n, take ?n (drop (Suc j * ?m + 0) P) @ drop ?n (drop r buf), ?s1\<lparr>fsys := f2\<rparr>)" "fs_inv ecc path f2 cs cc V" "same_views f1 f2"
      using less.IH [of ?n ?s1 "Suc j" 0 "drop r buf"] v1 a f h jn diff_le_mono [OF less.prems(10), of r] r(1,2) cs(1) False by auto
    moreover have ir: "int n - int r = int ?n" "int n \<noteq> int r" "nat (int r) = r" "int r + int ?n = int n" using r(2) False by auto
    ultimately have "evfs_entries_read_element (Some ?e) a buf (int off) (int n) s =
        Some (int n, x @ (take ?n (drop (Suc j * ?m + 0) P) @ drop ?n (drop r buf)), ?s1\<lparr>fsys := f2\<rparr>)"
      by (subst evfs_entries_read_element.simps)
        (simp only: option.case g w f1(1) [folded x_def] f2(1) mn ir if_False if_True simp_thms bind.bind_lunit prod.case dx)
    moreover have "x @ take ?n (drop (Suc j * ?m + 0) P) = take n (drop (j * ?m + off) P)"
    proof -
      have "Suc j * ?m + 0 = (j * ?m + off) + r" using rk kf ko by simp
      then have "take ?n (drop (Suc j * ?m + 0) P) = take ?n (drop r (drop (j * ?m + off) P))" unfolding drop_drop by (simp only: add.commute)
      then show ?thesis unfolding x_def tb using take_add [of r ?n "drop (j * ?m + off) P"] r(2) by simp
    qed
    moreover have "drop ?n (drop r buf) = drop n buf" using r(2) by simp
    ultimately have "evfs_entries_read_element (Some ?e) a buf (int off) (int n) s = Some (int n, take n (drop (j * ?m + off) P) @ drop n buf, s\<lparr>fsys := f2\<rparr>)"
      by (metis append.assoc evfs_vol.update_convs(1) evfs_vol.surjective)
    then show ?thesis using f2(2) same_views_trans [OF f1(3) f2(3)] by blast
  qed
qed

text \<open>Going to the element of a position.\<close>

lemma seek_blocks:
  assumes v: "vol_inv ecc path s cs cc V L K R" and a: "a \<in> set (entries_list (em s))" and f: "file_part V (cs - 12) (L a) P tot" and h: "get_ehead s a = Some h"
    and p: "p < length P"
  shows "0 < j \<Longrightarrow> j * (cs - 12) \<le> p \<Longrightarrow> seek_read (drop (j - 1) (elements h)) (int (p - j * (cs - 12))) s =
    Some (Some (elements h ! (p div (cs - 12) - 1)), int (p mod (cs - 12)))"
proof (induction "length (L a) - j" arbitrary: j rule: less_induct)
  case less
  let ?m = "cs - 12"
  have cs: "92 \<le> cs" "int ?m = int cs - 12" using vol_size [OF v] by simp_all
  have "length P \<le> length (L a) * ?m" using f by (simp add: file_part_def)
  then have "j * ?m < length (L a) * ?m" using less.prems(2) p by linarith
  then have j: "j < length (L a)" by simp
  have jl: "j - 1 < length (elements h)" by (rule element_at(2) [OF v a f less.prems(1) j h])
  then have dr: "drop (j - 1) (elements h) = elements h ! (j - 1) # drop j (elements h)"
    using Cons_nth_drop_Suc [OF jl] less.prems(1) by simp
  have mx: "ent_max_data_seg_size (em s) = int cs - 12" by (rule vol_max [OF v])
  show ?case
  proof (cases "p - j * ?m < ?m")
    case True
    have pd: "p div ?m = j" by (rule div_nat_eqI) (use True less.prems(2) in \<open>simp_all add: mult.commute\<close>)
    moreover have "p mod ?m = p - j * ?m" using minus_div_mult_eq_mod [of p ?m] pd by simp
    moreover have "int (p - j * ?m) < int cs - 12" using True cs(2) by linarith
    ultimately show ?thesis unfolding dr using mx by simp
  next
    case False
    then have nj: "Suc j * ?m \<le> p" using less.prems(2) by simp
    have len: "length (block P ?m j) = ?m" using nj p by (simp add: block_length)
    obtain w where w: "element_view (elements h ! (j - 1)) s = Some (Some w)" "evfs_view_get_data_seg_size (Some w) (fsys s) = Some (int ?m)"
      using element_at(1) [OF v a f less.prems(1) j h] len by auto
    have ih: "seek_read (drop j (elements h)) (int (p - Suc j * ?m)) s = Some (Some (elements h ! (p div ?m - 1)), int (p mod ?m))"
      using less.hyps [of "Suc j"] j nj by auto
    have e: "p - Suc j * ?m = (p - j * ?m) - ?m" by simp
    have i: "int (p - j * ?m) - int ?m = int (p - Suc j * ?m)" unfolding e using False by (intro of_nat_diff [symmetric]) simp
    have "\<not> int (p - j * ?m) < int cs - 12" using False unfolding cs(2) [symmetric] of_nat_less_iff .
    moreover have "(0 < int ?m) = True" using cs(1) by simp
    ultimately show ?thesis unfolding dr seek_read.simps mx w bind.bind_lunit i by (simp only: if_False if_True ih)
  qed
qed

definition read_rest :: "nat \<Rightarrow> nat option \<times> int \<times> int \<times> int \<times> bytes \<times> evfs_vol \<Rightarrow> (int \<times> bytes \<times> evfs_vol) option" where
  "read_rest a = (\<lambda>(ep, off, c, rem, buf, s). if 0 = rem then Some (c, buf, s)
     else do { (q, b, s) \<leftarrow> evfs_entries_read_element ep a (drop (nat c) buf) off rem s; Some (c + q, take (nat c) buf @ b, s) })"

lemma read_body:
  assumes v: "vol_inv ecc path s cs cc V L K R" and a: "a \<in> set (entries_list (em s))" and f: "file_part V (cs - 12) (L a) (K a @ d) (32 + length d)"
    and n: "0 < n" "n \<le> length buf" and d: "int (length d) < 2 ^ 31 - 32" and o: "int off < 2 ^ 31 - 32"
  defines "N \<equiv> length (take n (drop off d))"
  shows "\<exists>f. Option.bind (read_from_head a (int (32 + off)) (int n) buf s) (read_rest a) =
      Some (int N, take n (drop off d) @ drop N buf, s\<lparr>fsys := f\<rparr>) \<and> fs_inv ecc path f cs cc V \<and> same_views (fsys s) f"
proof -
  let ?m = "cs - 12" and ?P = "K a @ d"
  have cs: "92 \<le> cs" "int ?m = int cs - 12" "cs \<le> 4096" using vol_size [OF v] v by (simp_all add: vol_inv_def)
  have k: "length (K a) = 32" using mem_index [OF vol_memory [OF v]] a by (auto simp: vol_index_def key_ok_def)
  have PP: "drop (32 + i) ?P = drop i d" "length ?P = 32 + length d" for i using k by simp_all
  note ch = vol_chain [OF v a]
  obtain h w where h: "get_ehead s a = Some h" "ehead_view h = Some w" "busy_at (fsys s) w (hd (L a))"
    using mem_entry [OF vol_memory [OF v] a] by (elim entry_obtain) auto
  have c0: "hd_of V (hd (L a)) = file_head ?m (L a) ?P (32 + length d) 0" "take (length (block ?P ?m 0)) (body V (hd (L a))) = block ?P ?m 0"
    using f ch(1) by (auto simp: file_part_def hd_conv_nth)
  have sz: "evfs_view_get_data_seg_size (Some w) (fsys s) = Some (32 + int (length d))"
    using fs_get_size [OF vol_fs [OF v] h(3)] c0(1) unmark_size_eq [of "32 + int (length d)"] d by (simp add: shown_size_def file_head_def)
  have u: "head_cluster_id (hd_of V (hd (L a))) \<noteq> 0" using c0(1) vol_chain_range(1) [OF v a ch(3)] by (simp add: file_head_def)
  have mx: "ent_max_data_seg_size (em s) = int cs - 12" by (rule vol_max [OF v])
  have ci: "c_int (32 + int (length d) - int (32 + off)) = Some (int (length d) - int off)" using d o by (simp add: c_int_def)
  have tN: "take N (drop off d) = take n (drop off d)" unfolding N_def by (metis append_eq_conv_conj append_take_drop_id)
  have N: "N = min n (length d - off)" by (simp add: N_def min.commute)
  consider "length d \<le> off" | "off < length d" "32 + off < ?m" | "off < length d" "?m \<le> 32 + off" by linarith
  then show ?thesis
  proof cases
    case 1
    then have "read_from_head a (int (32 + off)) (int n) buf s = Some (None, 0, 0, 0, buf, s)"
      using h(1,2) sz ci by (simp add: read_from_head_def)
    then show ?thesis using 1 vol_fs [OF v] N by (intro exI [of _ "fsys s"]) (simp add: read_rest_def)
  next
    case 2
    then have N0: "0 < N" "min (int (length d) - int off) (int n) = int N" using n N by (auto simp: min_def)
    define c where "c = min (?m - (32 + off)) N"
    have c: "0 < c" "c \<le> N" "32 + off + c \<le> ?m" using 2 N0(1) by (auto simp: c_def)
    have ic: "c_int (int cs - 12 - int (32 + off)) = Some (int ?m - int (32 + off))" "min (int ?m - int (32 + off)) (int N) = int c" "int (32 + off) < int cs - 12"
      using 2(2) cs by (auto simp: c_int_def c_def min_def)
    have nb: "N \<le> length buf" using N n(2) by simp
    obtain f1 where f1: "read_view (Some w) buf (int (32 + off)) (int c) s = Some (int c, take c (drop (32 + off) (body V (hd (L a)))) @ drop c buf, s\<lparr>fsys := f1\<rparr>)"
      "fs_inv ecc path f1 cs cc V" "same_views (fsys s) f1"
      using read_view_run [OF vol_fs [OF v] h(3), of c "32 + off" buf] u c nb by auto
    have "c + (32 + off) \<le> length (block ?P ?m 0)" using c N 2(1) PP by (auto simp: block_length)
    from take_block [OF this c0(2)] have x: "take c (drop (32 + off) (body V (hd (L a)))) = take c (drop off d)" unfolding mult_0 add_0 PP(1) .
    have lx: "length (take c (drop off d)) = c" using c N by simp
    let ?s1 = "s\<lparr>fsys := f1\<rparr>"
    have rh: "read_from_head a (int (32 + off)) (int n) buf s =
        Some (case elements h of [] \<Rightarrow> None | e # _ \<Rightarrow> Some e, 0, int c, int N - int c, take c (drop off d) @ drop c buf, ?s1)"
      using h(1,2) sz ci mx N0 ic f1(1) unfolding x cs(2) by (simp add: read_from_head_def Let_def evfs_entries_first_element_or_null_def)
    show ?thesis
    proof (cases "c = N")
      case True
      then show ?thesis using rh f1(2,3) tN by (intro exI [of _ f1]) (simp add: read_rest_def)
    next
      case False
      have cm: "32 + off + c = ?m" using False c by (auto simp: c_def min_def split: if_splits)
      let ?n = "N - c"
      have q: "1 * ?m + 0 + ?n \<le> length ?P" using cm c N 2(1) PP by auto
      have l1: "1 < length (L a)"
      proof (rule ccontr)
        assume "\<not> 1 < length (L a)"
        then have "length (L a) * ?m \<le> 1 * ?m" by (intro mult_le_mono1) simp
        moreover have "length ?P \<le> length (L a) * ?m" using f by (simp add: file_part_def)
        ultimately show False using q False c(2) by linarith
      qed
      have v1: "vol_inv ecc path ?s1 cs cc V L K R" using v f1(2) vol_mem_views [OF f1(3)] by (simp add: vol_inv_def)
      have e: "elements h \<noteq> []" using element_at(2) [OF v a f _ l1 h(1)] by auto
      have el: "(case elements h of [] \<Rightarrow> None | e # _ \<Rightarrow> Some e) = Some (elements h ! (1 - 1))" using e by (cases "elements h") auto
      obtain g where g: "evfs_entries_read_element (Some (elements h ! (1 - 1))) a (drop c buf) (int 0) (int ?n) ?s1 =
          Some (int ?n, take ?n (drop (1 * ?m + 0) ?P) @ drop ?n (drop c buf), ?s1\<lparr>fsys := g\<rparr>)" "fs_inv ecc path g cs cc V" "same_views f1 g"
        using read_blocks [OF v1 _ f _ _ l1, of h 0 ?n "drop c buf"] a h(1) q diff_le_mono [OF nb, of c] c False cs(1) by auto
      have X: "take ?n (drop (1 * ?m + 0) ?P) = take ?n (drop c (drop off d))"
      proof -
        have e: "1 * ?m + 0 = 32 + (off + c)" using cm by simp
        show ?thesis unfolding e PP(1) drop_drop by (simp only: add.commute)
      qed
      have tk: "take c (drop off d) @ take ?n (drop (1 * ?m + 0) ?P) = take n (drop off d)"
        unfolding X take_add [symmetric] le_add_diff_inverse [OF c(2)] by (rule tN)
      have "Option.bind (read_from_head a (int (32 + off)) (int n) buf s) (read_rest a) =
          Some (int N, take c (drop off d) @ (take ?n (drop (1 * ?m + 0) ?P) @ drop ?n (drop c buf)), s\<lparr>fsys := g\<rparr>)"
        using g(1) c(2) False lx unfolding rh el by (simp add: read_rest_def of_nat_diff)
      then show ?thesis using g(2) same_views_trans [OF f1(3) g(3)] tk c(2) by (intro exI [of _ g]) (simp add: N_def)
    qed
  next
    case 3
    then have N0: "0 < N" "min (int (length d) - int off) (int n) = int N" using n N by (auto simp: min_def)
    let ?p = "32 + off"
    have p: "?p < length ?P" "1 * ?m \<le> ?p" using 3 PP by auto
    have mo: "?p div ?m * ?m + ?p mod ?m = ?p" "0 < ?p div ?m" "?p mod ?m < ?m"
      using cs(1) 3(2) div_mult_mod_eq [of ?p ?m] by (simp_all add: div_greater_zero_iff)
    have lp: "length ?P \<le> length (L a) * ?m" using f by (simp add: file_part_def)
    have "?p div ?m * ?m < length (L a) * ?m" using mo(1) p(1) lp by linarith
    then have jl: "?p div ?m < length (L a)" by simp
    have sk: "seek_read (elements h) (int (?p - 1 * ?m)) s = Some (Some (elements h ! (?p div ?m - 1)), int (?p mod ?m))"
      using seek_blocks [OF v a f h(1) p(1), of 1] p(2) by simp
    have "int (?p - 1 * ?m) = 44 + (int off - int cs)" using 3(2) cs(2) by linarith
    note sk [unfolded this]
    moreover have "\<not> int ?p < int cs - 12" using 3(2) cs(2) by linarith
    ultimately have rh: "read_from_head a (int ?p) (int n) buf s = Some (Some (elements h ! (?p div ?m - 1)), int (?p mod ?m), 0, int N, buf, s)"
      using h(1,2) sz ci mx N0 by (simp add: read_from_head_def Let_def)
    have q: "?p div ?m * ?m + ?p mod ?m + N \<le> length ?P" unfolding mo(1) using N 3(1) PP by auto
    have nb: "N \<le> length buf" using N n(2) by simp
    obtain g where g: "evfs_entries_read_element (Some (elements h ! (?p div ?m - 1))) a buf (int (?p mod ?m)) (int N) s =
        Some (int N, take N (drop ?p ?P) @ drop N buf, s\<lparr>fsys := g\<rparr>)" "fs_inv ecc path g cs cc V" "same_views (fsys s) g"
      using read_blocks [OF v a f h(1) mo(2) jl mo(3) N0(1) q nb] unfolding mo(1) by blast
    have "take N (drop ?p ?P) = take n (drop off d)" unfolding PP(1) by (rule tN)
    note g1 = g(1) [unfolded this]
    have "Option.bind (read_from_head a (int ?p) (int n) buf s) (read_rest a) = Some (int N, take n (drop off d) @ drop N buf, s\<lparr>fsys := g\<rparr>)"
      using g1 N0(1) unfolding rh by (simp add: read_rest_def)
    then show ?thesis using g(2,3) by (intro exI [of _ g]) simp
  qed
qed

lemma read_file:
  assumes v: "vol_inv ecc path s cs cc V L K R" and a: "a \<in> set (entries_list (em s))" and r: "refs_ok (R a)" and f: "file_on V (cs - 12) (L a) (K a) d"
    and n: "0 < n" "n \<le> length buf" and d: "int (length d) < 2 ^ 31 - 32" and off: "int off < 2 ^ 31 - 32"
  shows "\<exists>s'. evfs_entries_read_data (int (hd (L a))) (Some buf) (int off) (int n) s =
      Some (int (length (take n (drop off d))), Some (take n (drop off d) @ drop (length (take n (drop off d))) buf), s') \<and>
    vol_inv ecc path s' cs cc V L K R \<and> kept_vol s s'"
proof -
  have k: "length (K a) = 32" using mem_index [OF vol_memory [OF v]] a by (auto simp: vol_index_def key_ok_def)
  have f: "file_part V (cs - 12) (L a) (K a @ d) (32 + length d)" using f k by (simp add: file_on_def)
  obtain s1 where 1: "evfs_entries_reference_head (int (hd (L a))) kEvfsEntryNormal s = Some (0, Some a, s1)" "vol_mem s1 L K (taken R a) {}" "fsys s1 = fsys s" "kept_vol s s1"
    using take_reference [OF vol_memory [OF v] a r] by blast
  have a1: "a \<in> set (entries_list (em s1))" using a 1(4) by (simp add: kept_vol_def)
  have v1: "vol_inv ecc path s1 cs cc V L K (taken R a)" by (rule vol_invI [OF v]) (use 1 vol_fs [OF v] in \<open>simp_all add: kept_vol_def\<close>)
  define N where "N = length (take n (drop off d))"
  obtain g where g: "Option.bind (read_from_head a (int (32 + off)) (int n) buf s1) (read_rest a) = Some (int N, take n (drop off d) @ drop N buf, s1\<lparr>fsys := g\<rparr>)"
    "fs_inv ecc path g cs cc V" "same_views (fsys s1) g"
    using read_body [OF v1 a1 f n d off] unfolding N_def by blast
  let ?s2 = "s1\<lparr>fsys := g\<rparr>"
  have m2: "vol_mem ?s2 L K (taken R a) {}" using 1(2) vol_mem_views [OF g(3)] by simp
  obtain s' where s': "evfs_entries_dereference_head a kEvfsEntryNormal ?s2 = Some s'" "vol_mem s' L K R {}" "fsys s' = g" "kept_vol ?s2 s'"
    using drop_reference [OF m2 _ r] a1 by auto
  have "vol_inv ecc path s' cs cc V L K R" by (rule vol_invI [OF v1]) (use s' g(2) r in \<open>simp_all add: kept_vol_def fun_upd_idem\<close>)
  moreover have "kept_vol s s'" using 1(4) s'(4) by (simp add: kept_vol_def)
  moreover obtain ep o' c rem b s2 where rh: "read_from_head a (int (32 + off)) (int n) buf s1 = Some (ep, o', c, rem, b, s2)"
    "read_rest a (ep, o', c, rem, b, s2) = Some (int N, take n (drop off d) @ drop N buf, ?s2)"
    using g(1) by (cases "read_from_head a (int (32 + off)) (int n) buf s1") auto
  have "to_int (int MAX_ENTRY_NAME_LENGTH + int off) = int (32 + off)" using to_int_small [of "32 + int off"] off by (simp add: MAX_ENTRY_NAME_LENGTH_def)
  then have "evfs_entries_read_data (int (hd (L a))) (Some buf) (int off) (int n) s = Some (int N, Some (take n (drop off d) @ drop N buf), s')"
    using 1(1) rh s'(1) n(1) unfolding read_rest_def
    by (auto simp: evfs_entries_read_data_def error_not_success split: if_splits option.splits)
  ultimately show ?thesis unfolding N_def by blast
qed

end
