(* ===== verification/EvfsEntriesLife.thy ===== *)
theory EvfsEntriesLife
  imports EvfsEntriesData
begin

text \<open>
  The life of an entry (\<^verbatim>\<open>addons/evfs/entries.c\<close>): creating, opening, closing and removing it keep the invariant of the volume.
\<close>

section \<open>A new entry\<close>

lemma head_index_insert:
  "index_ok t \<Longrightarrow> index_of t c = None \<Longrightarrow>
    \<exists>t'. avlinsert t (Some (c, a)) (Some evfs_entries_compare_entry_head) = Some t' \<and> index_ok t' \<and> index_of t' = (index_of t)(c \<mapsto> a)"
  using index_insert [of t c a] index_of_update unfolding compare_head_same index_of_None by blast

lemma hd_noname: "k \<noteq> [] \<Longrightarrow> hd k = 0 \<longleftrightarrow> name_of_block k = noname"
  by (cases k) (auto simp: name_of_block.rep_eq noname.rep_eq Rep_cname_inject [symmetric] c_str_def)

text \<open>A new head in the list and the trees. An entry without a name is in the first tree only.\<close>

lemma mem_insert:
  assumes m: "vol_mem s L K R X" and a: "a \<notin> set (entries_list (em s))"
    and h: "get_ehead s a = Some \<lparr>ehead_viewid = int c, ehead_view = Some v, elements = [], count_of_elements = 0, ehead_refcnt = 0, io_refcnt = 0,
      ehead_state = kEvfsEntryNormal, hard_remove_on_detach = False, ehead_key = k\<rparr>"
    and c: "busy_at (fsys s) v c" "c \<in> X" "c \<notin> chain_set (entries_list (em s)) L"
    and k: "key_ok k" "name_of (root_of_named_entries_tree (em s)) (name_of_block k) = None"
  shows "\<exists>s'. evfs_entries_insert_head a s = Some s' \<and> fsys s' = fsys s \<and> entries_list (em s') = entries_list (em s) @ [a] \<and>
    vol_mem s' (L(a := [c])) (K(a := k)) (R(a := (0, 0))) (X - {c}) \<and> ent_max_data_seg_size (em s') = ent_max_data_seg_size (em s) \<and>
    wild_list (em s') = wild_list (em s) \<and> heads (em s') = heads (em s) \<and> elems (em s') = elems (em s) \<and> ent_fresh (em s') = ent_fresh (em s)"
proof -
  note ix = mem_index [OF m, unfolded vol_index_def]
  let ?as = "entries_list (em s)" and ?n = "name_of_block k" and ?L = "L(a := [c])" and ?K = "K(a := k)"
  have hd: "int (hd (L b)) \<noteq> int c" if "b \<in> set ?as" for b
    using c(3) mem_entry [OF m that] that by (auto simp: chain_set_def entry_on_def dest: hd_in_set)
  have "index_of (root_of_entries_tree (em s)) (int c) = None" using ix hd by (metis option.exhaust)
  then obtain t where t: "avlinsert (root_of_entries_tree (em s)) (Some (int c, a)) (Some evfs_entries_compare_entry_head) = Some t" "index_ok t"
    "index_of t = (index_of (root_of_entries_tree (em s)))(int c \<mapsto> a)"
    using head_index_insert [OF conjunct1 [OF ix]] by blast
  obtain u where u: "avlinsert (root_of_named_entries_tree (em s)) (Some (k, a)) (Some evfs_entries_compare_named_entry_head) = Some u" "name_ok u"
    "name_of u = (name_of (root_of_named_entries_tree (em s)))(?n \<mapsto> a)"
    using name_insert [OF conjunct1 [OF conjunct2 [OF ix]] k(2)] by blast
  define u' where "u' = (if hd k = 0 then root_of_named_entries_tree (em s) else u)"
  let ?s = "s\<lparr>em := (em s)\<lparr>entries_list := ?as @ [a], count_of_entries := count_of_entries (em s) + 1, root_of_entries_tree := t, root_of_named_entries_tree := u'\<rparr>\<rparr>"
  have "k \<noteq> []" using k(1) by (auto simp: key_ok_def)
  then have hn: "hd k = 0 \<longleftrightarrow> ?n = noname" by (rule hd_noname)
  have rb: "\<not> reads_behind k x" for x using k(1) by (simp add: reads_behind_def key_ok_def)
  have run: "evfs_entries_insert_head a s = Some ?s"
    using h t(1) u(1) rb by (cases "hd k = 0") (simp_all add: evfs_entries_insert_head_def u'_def Let_def)
  have eo: "elem_on ?s = elem_on s" by (rule elem_on_fs) simp_all
  have eno: "entry_on ?s = entry_on s" unfolding entry_on_def [abs_def] eo by simp
  have ia: "index_of t d = Some b \<longleftrightarrow> b \<in> set (?as @ [a]) \<and> d = int (hd (?L b))" for d b using ix a hd by (auto simp: t(3))
  have na: "name_of u' n = Some b \<longleftrightarrow> b \<in> set (?as @ [a]) \<and> n \<noteq> noname \<and> n = name_of_block (?K b)" for n b
  proof -
    have "name_of_block (K b) \<noteq> ?n" if "b \<in> set ?as" "hd k \<noteq> 0" using ix hn k(2) that by (metis option.distinct(1))
    then show ?thesis using ix a hn by (auto simp: u'_def u(3))
  qed
  have vi: "vol_index (em ?s) ?L ?K"
    unfolding vol_index_def using ix t(2) u(2) ia na a k(1) by (auto simp: u'_def)
  have ch: "chains_ok (entries_list (em ?s)) ?L" using mem_chains [OF m] a c(3) by (auto simp: chains_ok_def chain_set_def)
  have en: "entry_on ?s b (?L b) (?K b) ((R(a := (0, 0))) b)" if "b \<in> set (?as @ [a])" for b
  proof (cases "b = a")
    case True
    then show ?thesis unfolding eno using h c(1) by (simp add: entry_on_def)
  next
    case False
    then show ?thesis unfolding eno using mem_entry [OF m] that by simp
  qed
  have "chain_set (?as @ [a]) ?L = insert c (chain_set ?as L)" using a by (auto simp: chain_set_def split: if_splits)
  then have bz: "(\<exists>v. busy_at (fsys ?s) v d) \<longleftrightarrow> d \<in> chain_set (entries_list (em ?s)) ?L \<union> (X - {c})" for d using mem_busy [OF m, of d] c(2) by auto
  have "heap_fresh (em ?s)" using m by (simp add: vol_mem_def heap_fresh_def)
  then have "vol_mem ?s ?L ?K (R(a := (0, 0))) (X - {c})" using vi ch en bz unfolding vol_mem_def by simp
  then show ?thesis using run by simp
qed

lemma heads_fresh: "vol_mem s L K R X \<Longrightarrow> a \<in> set (entries_list (em s)) \<Longrightarrow> a < ent_fresh (em s)"
  by (frule (1) mem_entry) (auto simp: entry_on_def vol_mem_def heap_fresh_def)

lemma vol_order: "s\<lparr>em := e, fsys := f\<rparr> = s\<lparr>fsys := f, em := e\<rparr>"
  by simp

lemma mem_new_head:
  assumes m: "vol_mem s L K R X" and a: "a = ent_fresh (em s)"
  shows "vol_mem (put_ehead a h (s\<lparr>em := (em s)\<lparr>ent_fresh := a + 1\<rparr>\<rparr>)) L K R X"
proof -
  let ?s = "put_ehead a h (s\<lparr>em := (em s)\<lparr>ent_fresh := a + 1\<rparr>\<rparr>)"
  have eo: "elem_on ?s = elem_on s" by (rule elem_on_fs) (simp_all add: put_ehead_def)
  have "entry_on ?s b (L b) (K b) (R b)" if "b \<in> set (entries_list (em s))" for b
  proof -
    have "b \<noteq> a" using heads_fresh [OF m that] a by simp
    then show ?thesis using mem_entry [OF m that] unfolding entry_on_def eo by (simp add: put_ehead_def)
  qed
  moreover have "vol_index (em ?s) L K" using mem_index [OF m] by (simp add: vol_index_def put_ehead_def)
  moreover have "heap_fresh (em ?s)" using m a by (auto simp: vol_mem_def heap_fresh_def put_ehead_def less_Suc_eq)
  ultimately show ?thesis using m by (simp add: vol_mem_def put_ehead_def)
qed

lemma alloc_head_named:
  assumes inv: "fs_inv ecc path (fsys s) cs cc V" and b: "busy_at (fsys s) v c" and k: "0 \<notin> set k" "length k < 32" and a: "a = ent_fresh (em s)"
  shows "\<exists>f. evfs_entries_alloc_head (Some v) (Some k) s = Some (Some a, put_ehead a \<lparr>ehead_viewid = int c, ehead_view = Some v, elements = [],
      count_of_elements = 0, ehead_refcnt = 0, io_refcnt = 0, ehead_state = kEvfsEntryNormal, hard_remove_on_detach = False, ehead_key = pad_key k\<rparr>
      (s\<lparr>fsys := f, em := (em s)\<lparr>ent_fresh := a + 1\<rparr>\<rparr>)) \<and>
    fs_inv ecc path f cs cc (set_hd V c ((hd_of V c)\<lparr>head_cluster_id := int c\<rparr>)) \<and> same_views (fsys s) f"
proof -
  obtain blk f where f: "ent_malloc sizeof_ehead s = (Some blk, s\<lparr>fsys := f\<rparr>)" "fs_inv ecc path f cs cc V" "same_views (fsys s) f"
    using malloc_run [OF inv, of sizeof_ehead] by (auto simp: sizeof_ehead_def)
  have bf: "busy_at f v c" using f(3) b by (simp add: same_views_def)
  obtain g where g: "evfs_view_set_head (Some v) None f = Some (0, g)" "fs_inv ecc path g cs cc (set_hd V c ((hd_of V c)\<lparr>head_cluster_id := int c\<rparr>))" "same_views f g"
    using fs_set_head [OF f(2) bf, of None c] bf by auto
  have "evfs_view_get_viewid (Some v) f = Some (int c)" by (rule fs_get_id [OF bf])
  moreover have "take (MAX_ENTRY_NAME_LENGTH - 1) (c_str k) = k" using k by (simp add: c_str_id MAX_ENTRY_NAME_LENGTH_def)
  ultimately show ?thesis using f(1) g same_views_trans [OF f(3) g(3)] a
    by (intro exI [of _ g]) (simp add: evfs_entries_alloc_head_def fresh_addr_def on_fs_def put_ehead_def)
qed

text \<open>Names and their padded blocks.\<close>

lemma pad_key_ok: "length k < 32 \<Longrightarrow> key_ok (pad_key k)"
  by (simp add: key_ok_def pad_key_def MAX_ENTRY_NAME_LENGTH_def)

lemma pad_key_name:
  assumes "0 \<notin> set k" "k \<noteq> []"
  shows "hd (pad_key k) \<noteq> 0" "name_of_block (pad_key k) = name_of_block k" "name_of_block k \<noteq> noname"
proof -
  show "hd (pad_key k) \<noteq> 0" using assms by (cases k) (auto simp: pad_key_def)
  show "name_of_block (pad_key k) = name_of_block k" by (rule name_of_padded [OF assms(1)])
  have "Rep_cname (name_of_block k) = k" using c_str_id [OF assms(1)] by (simp add: name_of_block.rep_eq)
  then show "name_of_block k \<noteq> noname" using assms(2) by (auto simp: noname.rep_eq)
qed

definition client_name :: "bytes \<Rightarrow> bool" where
  "client_name k \<longleftrightarrow> k \<noteq> [] \<and> 0 \<notin> set k \<and> length k < 32"

lemma entry_create_run:
  assumes v: "vol_inv ecc path s cs cc V L K R" and k: "client_name k"
    and nm: "name_of (root_of_named_entries_tree (em s)) (name_of_block k) = None" and I: "idlelist (vm (fsys s)) \<noteq> []"
  shows "\<exists>s' a c V'. evfs_entries_create_one (Some k) True s = Some (0, Some (int c), s') \<and> a \<notin> set (entries_list (em s)) \<and>
    entries_list (em s') = entries_list (em s) @ [a] \<and> vol_inv ecc path s' cs cc V' (L(a := [c])) (K(a := pad_key k)) (R(a := (1, 0))) \<and>
    file_on V' (cs - 12) [c] (pad_key k) [] \<and> (\<forall>b \<in> set (entries_list (em s)). \<forall>d \<in> set (L b). V' d = V d) \<and>
    idlelist (vm (fsys s')) = tl (idlelist (vm (fsys s)))"
proof -
  have cs: "92 \<le> cs" "12 \<le> cs" using vol_size [OF v] by simp_all
  have k': "0 \<notin> set k" "length k < 32" "k \<noteq> []" using k by (simp_all add: client_name_def)
  note kn = pad_key_name [OF k'(1,3)]
  obtain v0 I0 where I0: "idlelist (vm (fsys s)) = v0 # I0" using I by (cases "idlelist (vm (fsys s))") auto
  obtain c where c: "idle_at (fsys s) v0 c" "0 < c" "c < cc" "\<And>w. \<not> busy_at (fsys s) w c" by (rule idle_obtain [OF vol_fs [OF v], of v0]) (use I0 in auto)
  have cm: "int c < 2 ^ 31" using c(3) vol_count [OF v] by simp
  have nc: "c \<notin> chain_set (entries_list (em s)) L" using c(4) mem_busy [OF vol_memory [OF v], of c] by simp
  obtain f1 where 1: "evfs_view_acquire_idle (fsys s) = Some (Some v0, f1)" "fs_inv ecc path f1 cs cc (V(c := replicate cs 0))" "idlelist (vm f1) = I0" "more_busy (fsys s) f1 v0 c"
    using fs_acquire [OF vol_fs [OF v] I0 c(1)] by blast
  let ?s1 = "s\<lparr>fsys := f1\<rparr>" and ?a = "ent_fresh (em s)" and ?V1 = "V(c := replicate cs 0)"
  have m1: "vol_mem ?s1 L K R {c}" using mem_acquired [OF vol_memory [OF v] 1(4)] by simp
  have b1: "busy_at f1 v0 c" using 1(4) by (simp add: more_busy_def)
  let ?h = "\<lparr>ehead_viewid = int c, ehead_view = Some v0, elements = [], count_of_elements = 0, ehead_refcnt = 0, io_refcnt = 0, ehead_state = kEvfsEntryNormal,
    hard_remove_on_detach = False, ehead_key = pad_key k\<rparr>"
  let ?e = "(em s)\<lparr>ent_fresh := ?a + 1\<rparr>"
  define V2 where "V2 = set_hd ?V1 c ((hd_of ?V1 c)\<lparr>head_cluster_id := int c\<rparr>)"
  obtain f2 where 2: "evfs_entries_alloc_head (Some v0) (Some k) ?s1 = Some (Some ?a, put_ehead ?a ?h (s\<lparr>fsys := f2, em := ?e\<rparr>))" "fs_inv ecc path f2 cs cc V2" "same_views f1 f2"
    using alloc_head_named [of ecc path ?s1 cs cc ?V1 v0 c k ?a] 1(2) b1 k' by (auto simp: V2_def simp del: fun_upd_apply)
  have h2: "hd_of V2 c = zero_head\<lparr>head_cluster_id := int c\<rparr>" unfolding V2_def zero_hd [OF cs(2)] by (rule hd_of_set_hd) (use cm in \<open>simp add: head_range_def zero_head_def\<close>)
  have b2: "busy_at f2 v0 c" using b1 2(3) by (simp add: same_views_def)
  define V3 where "V3 = set_hd V2 c ((hd_of V2 c)\<lparr>data_seg_size := 32 - 2 ^ 31\<rparr>)"
  obtain f3 where 3: "evfs_view_set_head_data_seg_size (Some v0) 32 f2 = Some (0, f3)" "fs_inv ecc path f3 cs cc V3" "same_views f2 f3"
    using fs_set_head_size [OF 2(2) b2, of 32] by (auto simp: V3_def)
  have h3: "hd_of V3 c = \<lparr>data_seg_size = 32 - 2 ^ 31, next_cluster_id = 0, head_cluster_id = int c\<rparr>"
  proof -
    have "head_range ((hd_of V2 c)\<lparr>data_seg_size := 32 - 2 ^ 31\<rparr>)" unfolding h2 using cm by (simp add: head_range_def zero_head_def)
    from hd_of_set_hd [OF this] show ?thesis unfolding V3_def h2 by (simp add: zero_head_def)
  qed
  have b3: "busy_at f3 v0 c" using b2 3(3) by (simp add: same_views_def)
  have kl: "length (pad_key k) = 32" using k'(2) by (simp add: pad_key_def MAX_ENTRY_NAME_LENGTH_def)
  define V4 where "V4 = set_body V3 c (splice (body V3 c) 0 (pad_key k))"
  obtain f4 where 4: "evfs_view_write_userdata (Some v0) (Some (pad_key k)) 0 32 f3 = Some (32, f4)" "fs_inv ecc path f4 cs cc V4" "same_views f3 f4"
    using fs_write [OF 3(2) b3, of 0 32 "pad_key k"] h3 kl cs by (auto simp: V4_def)
  let ?s4 = "put_ehead ?a ?h (s\<lparr>fsys := f4, em := ?e\<rparr>)"
  have sv: "same_views f1 f4" using same_views_trans [OF same_views_trans [OF 2(3) 3(3)] 4(3)] .
  have m4: "vol_mem ?s4 L K R {c}"
  proof -
    have "vol_mem (s\<lparr>fsys := f4\<rparr>) L K R {c}" using m1 vol_mem_views [of ?s1 f4] sv by simp
    from mem_new_head [OF this, of ?a ?h] show ?thesis by simp
  qed
  have e4: "entries_list (em ?s4) = entries_list (em s)" "root_of_named_entries_tree (em ?s4) = root_of_named_entries_tree (em s)"
    "get_ehead ?s4 ?a = Some ?h" "fsys ?s4 = f4" by (simp_all add: put_ehead_def)
  have na: "?a \<notin> set (entries_list (em s))" using heads_fresh [OF vol_memory [OF v]] by blast
  have b4: "busy_at f4 v0 c" using b3 4(3) by (simp add: same_views_def)
  obtain s5 where 5: "evfs_entries_insert_head ?a ?s4 = Some s5" "fsys s5 = f4" "entries_list (em s5) = entries_list (em s) @ [?a]"
    "vol_mem s5 (L(?a := [c])) (K(?a := pad_key k)) (R(?a := (0, 0))) {}" "ent_max_data_seg_size (em s5) = ent_max_data_seg_size (em s)" "wild_list (em s5) = wild_list (em s)"
    using mem_insert [OF m4, of ?a c v0 "pad_key k"] na nc b4 kn nm pad_key_ok [OF k'(2)] unfolding e4 by (auto simp: put_ehead_def simp del: fun_upd_apply)
  have a5: "?a \<in> set (entries_list (em s5))" using 5(3) by simp
  have ro: "refs_ok ((R(?a := (0, 0))) ?a)" by (simp add: refs_ok_def)
  have oR: "opened (R(?a := (0, 0))) ?a = R(?a := (1, 0))" by (simp add: opened_def fun_eq_iff)
  obtain s6 where 6: "evfs_entries_reference_head (int c) kEvfsEntryOpen s5 = Some (0, Some ?a, s6)" "vol_mem s6 (L(?a := [c])) (K(?a := pad_key k)) (R(?a := (1, 0))) {}"
    "fsys s6 = f4" "kept_vol s5 s6"
    using reference_entry(2) [OF 5(4) a5 ro, unfolded oR] find_entry [OF 5(4) a5] 5(2) by (auto simp: evfs_entries_reference_head_def)
  have id: "evfs_view_get_viewid (Some v0) (fsys s5) = Some (int c)" using fs_get_id [OF b4] 5(2) by simp
  have "evfs_entries_create_one (Some k) True s = Some (0, Some (int c), s6)"
    using 1(1) 2(1) 3(1) 4(1) 5(1) 6(1) id nm search_named_index [OF k'(1,2), of s]
    by (simp add: evfs_entries_create_one_def on_fs_def e4 MAX_ENTRY_NAME_LENGTH_def NSP_SUCCESS_def put_ehead_def vol_order)
  moreover have "vol_inv ecc path s6 cs cc V4 (L(?a := [c])) (K(?a := pad_key k)) (R(?a := (1, 0)))"
    by (rule vol_invI [OF v]) (use 4(2) 6 5(5,6) in \<open>simp_all add: kept_vol_def\<close>)
  moreover have "file_on V4 (cs - 12) [c] (pad_key k) []"
  proof -
    have l3: "12 \<le> length (V3 c)" by (simp add: V3_def set_hd_def)
    have "hd_of V4 c = hd_of V3 c" unfolding V4_def by (rule hd_of_set_body [of V3 c, OF l3])
    moreover have "take 32 (body V4 c) = pad_key k" unfolding V4_def body_set_body [of V3 c, OF l3] using kl by (simp add: splice_def)
    ultimately show ?thesis using h3 kl cs by (auto simp: file_on_def file_one)
  qed
  moreover have "V4 d = V d" if "b \<in> set (entries_list (em s))" "d \<in> set (L b)" for b d
  proof -
    have "d \<noteq> c" using nc that by (auto simp: chain_set_def)
    then show ?thesis by (simp add: V4_def V3_def V2_def)
  qed
  moreover have "idlelist (vm (fsys s6)) = tl (idlelist (vm (fsys s)))" using sv 1(3) I0 6(3) by (simp add: same_views_def)
  ultimately show ?thesis using na 5(3) 6(4) by (intro exI [of _ s6] exI [of _ ?a] exI [of _ c] exI [of _ V4]) (simp add: kept_vol_def)
qed

lemma close_run:
  assumes v: "vol_inv ecc path s cs cc V L K (opened R a)" and a: "a \<in> set (entries_list (em s))" and r: "refs_ok (R a)" "refs_ok (opened R a a)"
  shows "\<exists>s'. evfs_entries_close_one (int (hd (L a))) s = Some s' \<and> vol_inv ecc path s' cs cc V L K R \<and> kept_vol s s' \<and> fsys s' = fsys s"
proof -
  obtain s1 where 1: "evfs_entries_reference_head (int (hd (L a))) kEvfsEntryOpen s = Some (0, Some a, s1)" "vol_mem s1 L K (opened (opened R a) a) {}"
    "fsys s1 = fsys s" "kept_vol s s1"
    using reference_entry(2) [OF vol_memory [OF v] a r(2)] find_entry [OF vol_memory [OF v] a] by (auto simp: evfs_entries_reference_head_def)
  have a1: "a \<in> set (entries_list (em s1))" using a 1(4) by (simp add: kept_vol_def)
  obtain s2 where 2: "evfs_entries_dereference_head a kEvfsEntryOpen s1 = Some s2" "vol_mem s2 L K (opened R a) {}" "fsys s2 = fsys s1" "kept_vol s1 s2"
    using release_entry(2) [OF 1(2) a1 r(2) refl] by blast
  have a2: "a \<in> set (entries_list (em s2))" using a1 2(4) by (simp add: kept_vol_def)
  obtain s3 where 3: "evfs_entries_dereference_head a kEvfsEntryOpen s2 = Some s3" "vol_mem s3 L K R {}" "fsys s3 = fsys s2" "kept_vol s2 s3"
    using release_entry(2) [OF 2(2) a2 r(1) refl] by blast
  have kv: "kept_vol s s3" using 1(4) 2(4) 3(4) by (simp add: kept_vol_def)
  have "vol_inv ecc path s3 cs cc V L K R" by (rule vol_invI [OF v]) (use vol_fs [OF v] 1(3) 2(3) 3 kv in \<open>simp_all add: kept_vol_def\<close>)
  then show ?thesis using 1(1,3) 2(1,3) 3(1,3) kv by (simp add: evfs_entries_close_one_def NSP_SUCCESS_def)
qed

section \<open>Releasing an entry\<close>

text \<open>What releasing views of the clusters \<^term>\<open>cl\<close> does: a hard removal gives them back, a soft one leaves them on the disk.\<close>

definition released :: "bool \<Rightarrow> evfs_fs \<Rightarrow> evfs_fs \<Rightarrow> (nat \<Rightarrow> bytes) \<Rightarrow> (nat \<Rightarrow> bytes) \<Rightarrow> nat list \<Rightarrow> bool" where
  "released hard f f' V V' cl \<longleftrightarrow>
     (if hard then (\<forall>w d. busy_at f' w d \<longleftrightarrow> busy_at f w d \<and> d \<notin> set cl) \<and> length (idlelist (vm f')) = length (idlelist (vm f)) + length cl \<and>
        (\<forall>d. d \<notin> set cl \<longrightarrow> V' d = V d)
      else f' = f \<and> V' = V)"

lemma released_Nil: "released hard f f V V []"
  by (simp add: released_def)

lemma released_append: "released hard f f1 V V1 c \<Longrightarrow> released hard f1 f2 V1 V2 d \<Longrightarrow> released hard f f2 V V2 (c @ d)"
  by (auto simp: released_def)

lemma released_busy: "released hard f f' V V' cl \<Longrightarrow> busy_at f w d \<Longrightarrow> d \<notin> set cl \<Longrightarrow> busy_at f' w d"
  by (auto simp: released_def split: if_splits)

lemma released_rotate: "released hard f f' V V' (cl @ dl) = released hard f f' V V' (dl @ cl)"
  by (auto simp: released_def)

lemma release_view:
  assumes inv: "fs_inv ecc path f cs cc V" and v: "busy_at f v c"
  shows "\<exists>f' V'. (if hard then map_option snd (evfs_view_move_to_idle (Some v) f) else Some f) = Some f' \<and> fs_inv ecc path f' cs cc V' \<and> released hard f f' V V' [c]"
proof (cases hard)
  case True
  obtain f' where f': "evfs_view_move_to_idle (Some v) f = Some (0, f')" "fs_inv ecc path f' cs cc (set_hd V c zero_head)" "idlelist (vm f') = idlelist (vm f) @ [v]"
    "\<forall>w d. busy_at f' w d \<longleftrightarrow> busy_at f w d \<and> w \<noteq> v"
    using fs_give_back [OF inv v] by blast
  have "busy_at f w d \<Longrightarrow> w \<noteq> v \<longleftrightarrow> d \<noteq> c" for w d using busy_inj [OF inv v] busy_fun [OF v] by blast
  then have "released hard f f' V (set_hd V c zero_head) [c]" using f'(3,4) True by (auto simp: released_def)
  then show ?thesis using f'(1,2) True by (intro exI [of _ f'] exI [of _ "set_hd V c zero_head"]) simp
next
  case False
  then show ?thesis using inv by (intro exI [of _ f] exI [of _ V]) (simp add: released_def)
qed

lemma free_element_run:
  assumes inv: "fs_inv ecc path (fsys s) cs cc V" and e: "elem_on s a e c" and h: "get_ehead s a = Some h"
  shows "\<exists>f' V'. evfs_entries_free_element e s = Some (s\<lparr>fsys := f', em := (em s)\<lparr>heads := (heads (em s))(a \<mapsto> h\<lparr>elements := remove1 e (elements h),
      count_of_elements := count_of_elements h - 1\<rparr>), elems := (elems (em s))(e := None)\<rparr>\<rparr>) \<and>
    fs_inv ecc path f' cs cc V' \<and> released (hard_remove_on_detach h) (fsys s) f' V V' [c]"
proof -
  obtain w where w: "get_elem s e = Some \<lparr>elem_viewid = int c, elem_view = Some w, entry_head = HeadAt a\<rparr>" "busy_at (fsys s) w c" using e by (auto simp: elem_on_def)
  obtain f' V' where f': "(if hard_remove_on_detach h then map_option snd (evfs_view_move_to_idle (Some w) (fsys s)) else Some (fsys s)) = Some f'"
    "fs_inv ecc path f' cs cc V'" "released (hard_remove_on_detach h) (fsys s) f' V V' [c]" using release_view [OF inv w(2)] by blast
  show ?thesis using f' w(1) h
    by (intro exI [of _ f'] exI [of _ V']) (auto simp: evfs_entries_free_element_def drop_elem_def put_ehead_def on_fs_def Let_def split: if_splits)
qed

lemma free_elements_run:
  assumes "fs_inv ecc path (fsys s) cs cc V" "get_ehead s a = Some h" "list_all2 (elem_on s a) (elements h) cl" "distinct (elements h)" "distinct cl"
  shows "\<exists>f' V'. free_elements a s = Some (s\<lparr>fsys := f', em := (em s)\<lparr>heads := (heads (em s))(a \<mapsto> h\<lparr>elements := [],
      count_of_elements := count_of_elements h - int (length (elements h))\<rparr>), elems := elems (em s) |` (- set (elements h))\<rparr>\<rparr>) \<and>
    fs_inv ecc path f' cs cc V' \<and> released (hard_remove_on_detach h) (fsys s) f' V V' cl"
  using assms
proof (induction "elements h" arbitrary: s h V cl)
  case Nil
  have "elems (em s) |` UNIV = elems (em s)" by (simp add: restrict_map_def)
  moreover have "h\<lparr>elements := []\<rparr> = h" using Nil.hyps by (cases h) simp
  moreover have "(heads (em s))(a \<mapsto> h) = heads (em s)" using fun_upd_triv [of "heads (em s)" a] unfolding Nil.prems(2) .
  moreover have "free_elements a s = Some s" using Nil.hyps Nil.prems(2) by (subst free_elements.simps) simp
  ultimately show ?case using Nil.prems(1,3) released_Nil unfolding Nil.hyps [symmetric] by (intro exI [of _ "fsys s"] exI [of _ V]) simp
next
  case (Cons e es)
  obtain c dl where cl: "cl = c # dl" "elem_on s a e c" "list_all2 (elem_on s a) es dl" using Cons.prems(3) unfolding Cons.hyps(2) [symmetric] by (auto simp: list_all2_Cons1)
  let ?h = "h\<lparr>elements := es, count_of_elements := count_of_elements h - 1\<rparr>"
  have r: "remove1 e (elements h) = es" using Cons.hyps(2) by (metis remove1.simps(2))
  obtain f1 V1 where 1: "evfs_entries_free_element e s = Some (s\<lparr>fsys := f1, em := (em s)\<lparr>heads := (heads (em s))(a \<mapsto> ?h), elems := (elems (em s))(e := None)\<rparr>\<rparr>)"
    "fs_inv ecc path f1 cs cc V1" "released (hard_remove_on_detach h) (fsys s) f1 V V1 [c]"
    using free_element_run [OF Cons.prems(1) cl(2) Cons.prems(2)] unfolding r by blast
  let ?s = "s\<lparr>fsys := f1, em := (em s)\<lparr>heads := (heads (em s))(a \<mapsto> ?h), elems := (elems (em s))(e := None)\<rparr>\<rparr>"
  have d: "e \<notin> set es" "distinct es" "c \<notin> set dl" "distinct dl" using Cons.prems(4,5) cl(1) unfolding Cons.hyps(2) [symmetric] by simp_all
  have el: "list_all2 (elem_on ?s a) es dl"
  proof (rule list.rel_mono_strong [OF cl(3)])
    fix x y assume x: "x \<in> set es" "y \<in> set dl" "elem_on s a x y"
    then have "x \<noteq> e" "y \<notin> set [c]" using d(1,3) by auto
    then show "elem_on ?s a x y" using x(3) released_busy [OF 1(3)] by (auto simp: elem_on_def)
  qed
  obtain f2 V2 where 2: "free_elements a ?s = Some (?s\<lparr>fsys := f2, em := (em ?s)\<lparr>heads := (heads (em ?s))(a \<mapsto> ?h\<lparr>elements := [],
      count_of_elements := count_of_elements ?h - int (length (elements ?h))\<rparr>), elems := elems (em ?s) |` (- set (elements ?h))\<rparr>\<rparr>)"
    "fs_inv ecc path f2 cs cc V2" "released (hard_remove_on_detach ?h) f1 f2 V1 V2 dl"
    using Cons.hyps(1) [of ?h ?s V1 dl] 1(2) el d by auto
  have "free_elements a s = free_elements a ?s"
    using Cons.prems(2) 1(1) Cons.hyps(2) [symmetric] by (subst free_elements.simps) simp
  moreover have "(elems (em s))(e := None) |` (- set es) = elems (em s) |` (- insert e (set es))" by (auto simp: restrict_map_def)
  ultimately show ?case using 2 released_append [OF 1(3), of f2 V2 dl] cl(1) Cons.hyps(2) [symmetric]
    by (intro exI [of _ f2] exI [of _ V2]) (simp add: algebra_simps)
qed

lemma head_index_remove:
  "index_ok t \<Longrightarrow> \<exists>t' n. avlremove t (Some (c, a)) None (Some evfs_entries_compare_entry_head) = Some (t', n) \<and> index_ok t' \<and> index_of t' = (index_of t)(c := None)"
  using index_remove [of t c a] index_of_update unfolding compare_head_same by blast

text \<open>The indices without an entry.\<close>

lemma unindex_head:
  assumes vi: "vol_index m L K" and a: "a \<in> set (entries_list m)"
  shows "\<exists>t n t' u. avlremove (root_of_entries_tree m) (Some (int (hd (L a)), a)) None (Some evfs_entries_compare_entry_head) = Some (t, n) \<and>
    avlremove (root_of_named_entries_tree m) (Some (K a, a)) None (Some evfs_entries_compare_named_entry_head) = Some (t', None) \<and>
    u = (if hd (K a) \<noteq> 0 then t' else root_of_named_entries_tree m) \<and>
    (\<forall>hs es. vol_index (m\<lparr>entries_list := remove1 a (entries_list m), root_of_entries_tree := t, count_of_entries := count_of_entries m - 1,
      root_of_named_entries_tree := u, heads := hs, elems := es\<rparr>) L K)"
proof -
  note ix = vi [unfolded vol_index_def]
  have iok: "index_ok (root_of_entries_tree m)" and nok: "name_ok (root_of_named_entries_tree m)" and d: "distinct (entries_list m)" using ix by simp_all
  obtain t n where t: "avlremove (root_of_entries_tree m) (Some (int (hd (L a)), a)) None (Some evfs_entries_compare_entry_head) = Some (t, n)" "index_ok t"
    "index_of t = (index_of (root_of_entries_tree m))(int (hd (L a)) := None)"
    using head_index_remove [OF iok] by blast
  obtain t' where t': "avlremove (root_of_named_entries_tree m) (Some (K a, a)) None (Some evfs_entries_compare_named_entry_head) = Some (t', None)" "name_ok t'"
    "name_of t' = (name_of (root_of_named_entries_tree m))(name_of_block (K a) := None)"
    using name_remove [OF nok] by blast
  define u where "u = (if hd (K a) \<noteq> 0 then t' else root_of_named_entries_tree m)"
  have "K a \<noteq> []" using ix a by (auto simp: key_ok_def)
  then have hn: "hd (K a) = 0 \<longleftrightarrow> name_of_block (K a) = noname" by (rule hd_noname)
  have "index_of t c = Some b \<longleftrightarrow> b \<in> set (remove1 a (entries_list m)) \<and> c = int (hd (L b))" for c b
  proof -
    have i: "index_of (root_of_entries_tree m) (int (hd (L x))) = Some x" if "x \<in> set (entries_list m)" for x using ix that by blast
    have "hd (L a) \<noteq> hd (L b)" if "b \<in> set (entries_list m)" "b \<noteq> a" using i [OF a] i [OF that(1)] that(2) by auto
    then show ?thesis using ix d by (auto simp: t(3) set_remove1_eq)
  qed
  moreover have "name_of u n = Some b \<longleftrightarrow> b \<in> set (remove1 a (entries_list m)) \<and> n \<noteq> noname \<and> n = name_of_block (K b)" for n b
  proof -
    have i: "name_of (root_of_named_entries_tree m) (name_of_block (K x)) = Some x" if "x \<in> set (entries_list m)" "name_of_block (K x) \<noteq> noname" for x
      using ix that by blast
    have "name_of_block (K a) \<noteq> name_of_block (K b)" if "b \<in> set (entries_list m)" "b \<noteq> a" "name_of_block (K b) \<noteq> noname"
      using i [OF a] i [OF that(1,3)] that(2,3) by auto
    then show ?thesis using ix d hn by (auto simp: u_def t'(3) set_remove1_eq)
  qed
  moreover have "int (length (remove1 a (entries_list m))) = count_of_entries m - 1" using ix a Suc_leI [OF length_pos_if_in_set [OF a]] by (simp add: length_remove1 of_nat_diff)
  ultimately have "vol_index (m\<lparr>entries_list := remove1 a (entries_list m), root_of_entries_tree := t, count_of_entries := count_of_entries m - 1,
      root_of_named_entries_tree := u, heads := hs, elems := es\<rparr>) L K" for hs es
    using ix t(2) t'(2) d by (auto simp: vol_index_def u_def set_remove1_eq)
  then show ?thesis using t(1) t'(1) u_def by blast
qed

lemma mem_without:
  assumes m: "vol_mem s L K R X" and a: "a \<in> set (entries_list (em s))" and h: "get_ehead s a = Some h"
    and r: "released hard (fsys s) f' V V' (L a)"
    and e': "vol_index e' L K" "entries_list e' = remove1 a (entries_list (em s))" "heads e' = (heads (em s))(a := None)"
      "elems e' = elems (em s) |` (- set (elements h))" "ent_fresh e' = ent_fresh (em s)"
  shows "vol_mem (s\<lparr>fsys := f', em := e'\<rparr>) L K R (if hard then X - set (L a) else X \<union> set (L a))"
proof -
  let ?s = "s\<lparr>fsys := f', em := e'\<rparr>" and ?as = "entries_list (em s)"
  note chs = mem_chains [OF m]
  have d: "distinct ?as" using mem_index [OF m] by (simp add: vol_index_def)
  have ea: "\<And>x. x \<in> set (elements h) \<Longrightarrow> \<exists>c. elem_on s a x c"
    using mem_entry [OF m a] h by (elim entry_obtain) (auto simp: list_all2_conv_all_nth in_set_conv_nth)
  have eo: "elem_on ?s b x c" if "elem_on s b x c" "b \<noteq> a" "c \<notin> set (L a)" for b x c
  proof -
    have "x \<notin> set (elements h)" using ea that(1,2) by (fastforce simp: elem_on_def)
    then show ?thesis using that released_busy [OF r] by (auto simp: elem_on_def e'(4))
  qed
  have en: "entry_on ?s b (L b) (K b) (R b)" if b: "b \<in> set ?as" "b \<noteq> a" for b
  proof (rule entry_obtain [OF mem_entry [OF m b(1)]])
    fix v g
    assume g: "get_ehead s b = Some g" "ehead_viewid g = int (hd (L b))" "ehead_view g = Some v" "count_of_elements g = int (length (elements g))"
      "ehead_refcnt g = fst (R b)" "io_refcnt g = snd (R b)" "ehead_state g = kEvfsEntryNormal" "\<not> hard_remove_on_detach g" "ehead_key g = K b" "L b \<noteq> []"
      "busy_at (fsys s) v (hd (L b))" "list_all2 (elem_on s b) (elements g) (tl (L b))" "distinct (elements g)"
    have dis: "c \<notin> set (L a)" if "c \<in> set (L b)" for c using chs a b that by (auto simp: chains_ok_def)
    show ?thesis
    proof (rule entry_onI [where h = g and v = v])
      show "get_ehead ?s b = Some g" using g(1) b(2) by (simp add: e'(3))
      show "busy_at (fsys ?s) v (hd (L b))" using released_busy [OF r g(11) dis] g(10) by simp
      show "list_all2 (elem_on ?s b) (elements g) (tl (L b))"
        by (rule list.rel_mono_strong [OF g(12)]) (use eo b(2) dis list.set_sel(2) [OF g(10)] in auto)
    qed (use g in simp_all)
  qed
  have cs: "chain_set (remove1 a ?as) L = chain_set ?as L - set (L a)"
    using chs a d by (fastforce simp: chain_set_def chains_ok_def set_remove1_eq)
  have la: "set (L a) \<subseteq> chain_set ?as L" using a by (auto simp: chain_set_def)
  have "(\<exists>v. busy_at f' v c) \<longleftrightarrow> c \<in> chain_set (remove1 a ?as) L \<union> (if hard then X - set (L a) else X \<union> set (L a))" for c
    using mem_busy [OF m, of c] r cs la by (auto simp: released_def split: if_splits)
  moreover have "chains_ok (remove1 a ?as) L" using chs set_remove1_subset [of a ?as] unfolding chains_ok_def by blast
  moreover have "heap_fresh e'" using m by (auto simp: vol_mem_def heap_fresh_def e'(3-5) restrict_map_def split: if_splits)
  ultimately show ?thesis using en e'(1) d by (simp add: vol_mem_def e'(2) set_remove1_eq)
qed

lemma free_head_run:
  assumes inv: "fs_inv ecc path (fsys s) cs cc V" and m: "vol_mem s L K R X" and a: "a \<in> set (entries_list (em s))" and h: "get_ehead s a = Some h"
    and h': "ehead_viewid h' = ehead_viewid h" "ehead_view h' = ehead_view h" "elements h' = elements h" "ehead_key h' = ehead_key h" "hard = hard_remove_on_detach h'"
  shows "\<exists>s' V'. evfs_entries_free_head a (put_ehead a h' s) = Some s' \<and> fs_inv ecc path (fsys s') cs cc V' \<and> released hard (fsys s) (fsys s') V V' (L a) \<and>
    vol_mem s' L K R (if hard then X - set (L a) else X \<union> set (L a)) \<and> entries_list (em s') = remove1 a (entries_list (em s)) \<and>
    ent_max_data_seg_size (em s') = ent_max_data_seg_size (em s) \<and> wild_list (em s') = wild_list (em s)"
proof (rule entry_obtain [OF mem_entry [OF m a]])
  fix v g
  assume g: "get_ehead s a = Some g" "ehead_viewid g = int (hd (L a))" "ehead_view g = Some v" "ehead_key g = K a" "L a \<noteq> []"
    "busy_at (fsys s) v (hd (L a))" "list_all2 (elem_on s a) (elements g) (tl (L a))" "distinct (elements g)"
  have hg: "h = g" using g(1) h by simp
  have kk: "\<not> reads_behind (K a) x" for x using mem_index [OF m] a by (auto simp: vol_index_def key_ok_def reads_behind_def)
  obtain t n t' u where t: "avlremove (root_of_entries_tree (em s)) (Some (int (hd (L a)), a)) None (Some evfs_entries_compare_entry_head) = Some (t, n)"
    "avlremove (root_of_named_entries_tree (em s)) (Some (K a, a)) None (Some evfs_entries_compare_named_entry_head) = Some (t', None)"
    "u = (if hd (K a) \<noteq> 0 then t' else root_of_named_entries_tree (em s))"
    "\<And>hs es. vol_index ((em s)\<lparr>entries_list := remove1 a (entries_list (em s)), root_of_entries_tree := t, count_of_entries := count_of_entries (em s) - 1,
      root_of_named_entries_tree := u, heads := hs, elems := es\<rparr>) L K"
    using unindex_head [OF mem_index [OF m] a] by blast
  let ?e = "(em s)\<lparr>heads := (heads (em s))(a \<mapsto> h'), entries_list := remove1 a (entries_list (em s)), root_of_entries_tree := t,
      count_of_entries := count_of_entries (em s) - 1, root_of_named_entries_tree := u\<rparr>"
  let ?s1 = "s\<lparr>em := ?e\<rparr>"
  have dl: "distinct (L a)" using mem_chains [OF m] a by (simp add: chains_ok_def)
  have "elem_on ?s1 = elem_on s" by (rule elem_on_fs) simp_all
  then have el: "list_all2 (elem_on ?s1 a) (elements h') (tl (L a))" using g(7) h'(3) hg by simp
  have g1: "get_ehead ?s1 a = Some h'" by simp
  obtain f1 V1 where 1: "free_elements a ?s1 = Some (?s1\<lparr>fsys := f1, em := ?e\<lparr>heads := (heads ?e)(a \<mapsto> h'\<lparr>elements := [],
      count_of_elements := count_of_elements h' - int (length (elements h'))\<rparr>), elems := elems (em s) |` (- set (elements h'))\<rparr>\<rparr>)"
    "fs_inv ecc path f1 cs cc V1" "released hard (fsys s) f1 V V1 (tl (L a))"
    using free_elements_run [of ecc path ?s1 cs cc V a h', OF _ g1 el] inv g(8) dl h'(3,5) hg by (auto simp: distinct_tl simp del: fun_upd_apply)
  have hl: "hd (L a) \<notin> set (tl (L a))" "L a = hd (L a) # tl (L a)" using dl g(5) by (cases "L a"; simp)+
  have b1: "busy_at f1 v (hd (L a))" by (rule released_busy [OF 1(3) g(6) hl(1)])
  obtain f2 V2 where 2: "(if hard then map_option snd (evfs_view_move_to_idle (Some v) f1) else Some f1) = Some f2" "fs_inv ecc path f2 cs cc V2" "released hard f1 f2 V1 V2 [hd (L a)]"
    using release_view [OF 1(2) b1] by blast
  have r: "released hard (fsys s) f2 V V2 (L a)"
    using released_append [OF 1(3) 2(3)] released_rotate [of hard "fsys s" f2 V V2 "tl (L a)"] g(5) by simp
  let ?e2 = "?e\<lparr>heads := (heads (em s))(a := None), elems := elems (em s) |` (- set (elements h))\<rparr>"
  let ?s2 = "s\<lparr>fsys := f2, em := ?e2\<rparr>"
  have "evfs_entries_free_head a (put_ehead a h' s) = Some ?s2"
  proof (cases "hard")
    case True
    then show ?thesis using t(1-3) 1(1) 2(1) g(2-4) h' hg kk
      by (cases "hd (K a) = 0") (auto simp: evfs_entries_free_head_def put_ehead_def drop_ehead_def Let_def on_fs_def)
  next
    case False
    then show ?thesis using t(1-3) 1(1) 2(1) g(2-4) h' hg kk
      by (cases "hd (K a) = 0") (auto simp: evfs_entries_free_head_def put_ehead_def drop_ehead_def Let_def)
  qed
  moreover have "vol_mem ?s2 L K R (if hard then X - set (L a) else X \<union> set (L a))"
    by (rule mem_without [OF m a h r]) (use t(4) in \<open>simp_all add: vol_index_def\<close>)
  ultimately show ?thesis using 2(2) r by (intro exI [of _ ?s2] exI [of _ V2]) simp
qed

section \<open>Access by name, and removal\<close>

lemma put_put [simp]: "put_ehead a x (put_ehead a y s) = put_ehead a x s"
  by (simp add: put_ehead_def)

lemma find_named:
  assumes m: "vol_mem s L K R X" and a: "a \<in> set (entries_list (em s))" and k: "client_name k" "name_of_block (K a) = name_of_block k"
  shows "evfs_entries_search_named_head k s = Some (Some a)"
proof -
  have "name_of_block k \<noteq> noname" using pad_key_name(3) k(1) by (simp add: client_name_def)
  then have "name_of (root_of_named_entries_tree (em s)) (name_of_block k) = Some a" using mem_index [OF m] a k(2) unfolding vol_index_def by metis
  then show ?thesis using search_named_index [of k s] k(1) by (simp add: client_name_def)
qed

lemma id_by_name_run:
  assumes v: "vol_inv ecc path s cs cc V L K R" and a: "a \<in> set (entries_list (em s))" and r: "refs_ok (R a)" and k: "client_name k" "name_of_block (K a) = name_of_block k"
  shows "\<exists>s'. evfs_entries_get_entry_id_by_name (Some k) s = Some (int (hd (L a)), s') \<and> vol_inv ecc path s' cs cc V L K R \<and> kept_vol s s' \<and> fsys s' = fsys s"
proof -
  note m = vol_memory [OF v]
  obtain s1 where 1: "evfs_entries_reference_head_by_name k kEvfsEntryNormal s = Some (0, Some a, s1)" "vol_mem s1 L K (taken R a) {}" "fsys s1 = fsys s" "kept_vol s s1"
    using reference_entry(1) [OF m a r] find_named [OF m a k] by (auto simp: evfs_entries_reference_head_by_name_def)
  have a1: "a \<in> set (entries_list (em s1))" using a 1(4) by (simp add: kept_vol_def)
  obtain h where h: "get_ehead s1 a = Some h" "ehead_viewid h = int (hd (L a))" using mem_entry [OF 1(2) a1] by (elim entry_obtain)
  obtain s' where s': "evfs_entries_dereference_head a kEvfsEntryNormal s1 = Some s'" "vol_mem s' L K R {}" "fsys s' = fsys s1" "kept_vol s1 s'"
    using drop_reference [OF 1(2) a1 r] by blast
  have "vol_inv ecc path s' cs cc V L K R" by (rule vol_invI [OF v]) (use vol_fs [OF v] 1(3,4) s' in \<open>simp_all add: kept_vol_def\<close>)
  then show ?thesis using 1 h s' by (simp add: evfs_entries_get_entry_id_by_name_def NSP_SUCCESS_def kept_vol_def)
qed

lemma size_run:
  assumes v: "vol_inv ecc path s cs cc V L K R" and a: "a \<in> set (entries_list (em s))" and r: "refs_ok (R a)" and f: "file_on V (cs - 12) (L a) (K a) d"
    and d: "int (length d) < 2 ^ 31 - 32"
  shows "\<exists>s'. evfs_entries_query_user_seg_size (int (hd (L a))) s = Some (int (length d), s') \<and> vol_inv ecc path s' cs cc V L K R \<and> kept_vol s s' \<and> fsys s' = fsys s"
proof -
  note m = vol_memory [OF v]
  obtain s1 where 1: "evfs_entries_reference_head (int (hd (L a))) kEvfsEntryNormal s = Some (0, Some a, s1)" "vol_mem s1 L K (taken R a) {}" "fsys s1 = fsys s" "kept_vol s s1"
    using take_reference [OF m a r] by blast
  have a1: "a \<in> set (entries_list (em s1))" using a 1(4) by (simp add: kept_vol_def)
  obtain h w where h: "get_ehead s1 a = Some h" "ehead_view h = Some w" "busy_at (fsys s) w (hd (L a))"
    using mem_entry [OF 1(2) a1] 1(3) by (elim entry_obtain) auto
  have k: "length (K a) = 32" using mem_index [OF m] a by (auto simp: vol_index_def key_ok_def)
  have "data_seg_size (hd_of V (hd (L a))) = int (32 + length d) - 2 ^ 31"
    using f k vol_chain(1) [OF v a] by (auto simp: file_on_def file_part_def file_head_def hd_conv_nth)
  then have sz: "evfs_view_get_data_seg_size (Some w) (fsys s) = Some (int (32 + length d))"
    using fs_get_size [OF vol_fs [OF v] h(3)] unmark_size_eq [of "int (32 + length d)"] d by (simp add: shown_size_def)
  obtain s' where s': "evfs_entries_dereference_head a kEvfsEntryNormal s1 = Some s'" "vol_mem s' L K R {}" "fsys s' = fsys s1" "kept_vol s1 s'"
    using drop_reference [OF 1(2) a1 r] by blast
  have "vol_inv ecc path s' cs cc V L K R" by (rule vol_invI [OF v]) (use vol_fs [OF v] 1(3,4) s' in \<open>simp_all add: kept_vol_def\<close>)
  then show ?thesis using 1 h sz s' by (simp add: evfs_entries_query_user_seg_size_def NSP_SUCCESS_def kept_vol_def MAX_ENTRY_NAME_LENGTH_def)
qed

lemma delete_run:
  assumes v: "vol_inv ecc path s cs cc V L K R" and a: "a \<in> set (entries_list (em s))" and r: "R a = (0, 0)" and k: "client_name k" "name_of_block (K a) = name_of_block k"
  shows "\<exists>s' V'. evfs_entries_hard_delete_by_name (Some k) s = Some (0, s') \<and> vol_inv ecc path s' cs cc V' L K R \<and>
    entries_list (em s') = remove1 a (entries_list (em s)) \<and> (\<forall>d. d \<notin> set (L a) \<longrightarrow> V' d = V d)"
proof -
  note m = vol_memory [OF v]
  have ro: "refs_ok (R a)" using r by (simp add: refs_ok_def)
  obtain s1 where 1: "evfs_entries_reference_head_by_name k kEvfsEntryNormal s = Some (0, Some a, s1)" "vol_mem s1 L K (taken R a) {}" "fsys s1 = fsys s" "kept_vol s s1"
    using reference_entry(1) [OF m a ro] find_named [OF m a k] by (auto simp: evfs_entries_reference_head_by_name_def)
  have a1: "a \<in> set (entries_list (em s1))" using a 1(4) by (simp add: kept_vol_def)
  obtain h where h: "get_ehead s1 a = Some h" "ehead_refcnt h = 1" "io_refcnt h = 1"
    using mem_entry [OF 1(2) a1] r by (elim entry_obtain) (auto simp: taken_def)
  let ?h = "h\<lparr>hard_remove_on_detach := True, ehead_state := kEvfsEntryCloseWait, ehead_refcnt := 0, io_refcnt := 0\<rparr>"
  obtain s' V' where s': "evfs_entries_free_head a (put_ehead a ?h s1) = Some s'" "fs_inv ecc path (fsys s') cs cc V'" "released True (fsys s1) (fsys s') V V' (L a)"
    "vol_mem s' L K (taken R a) {}" "entries_list (em s') = remove1 a (entries_list (em s1))"
    "ent_max_data_seg_size (em s') = ent_max_data_seg_size (em s1)" "wild_list (em s') = wild_list (em s1)"
    using free_head_run [of ecc path s1 cs cc V L K "taken R a" "{}" a h ?h True] vol_fs [OF v] 1(2,3) a1 h(1) by auto
  have "delete_referenced True 0 (Some a) s1 = Some (0, s')"
    using h s'(1) by (simp add: delete_referenced_def evfs_entries_try_delete_head_def evfs_entries_dereference_head_def Let_def NSP_SUCCESS_def put_ehead_def)
  then have "evfs_entries_hard_delete_by_name (Some k) s = Some (0, s')" using 1(1) by (simp add: evfs_entries_hard_delete_by_name_def)
  moreover have e: "entries_list (em s') = remove1 a (entries_list (em s))" using s'(5) 1(4) by (simp add: kept_vol_def)
  moreover have "vol_mem s' L K R {}"
  proof -
    have "distinct (entries_list (em s))" using mem_index [OF m] by (simp add: vol_index_def)
    then have "(taken R a) b = R b" if "b \<in> set (entries_list (em s'))" for b using that e by (auto simp: taken_def)
    then show ?thesis using s'(4) by (simp add: vol_mem_def)
  qed
  then have "vol_inv ecc path s' cs cc V' L K R" by (intro vol_invI [OF v s'(2)]) (use s'(6,7) 1(4) in \<open>simp_all add: kept_vol_def\<close>)
  ultimately show ?thesis using s'(3) by (auto simp: released_def)
qed

text \<open>Every cluster is idle or in one chain.\<close>

lemma chain_total: "distinct as \<Longrightarrow> chains_ok as L \<Longrightarrow> card (chain_set as L) = (\<Sum>a\<leftarrow>as. length (L a))"
proof (induction as)
  case (Cons a as)
  have "chain_set (a # as) L = set (L a) \<union> chain_set as L" by (auto simp: chain_set_def)
  moreover have "set (L a) \<inter> chain_set as L = {}" using Cons.prems by (auto simp: chain_set_def chains_ok_def)
  moreover have "chains_ok as L" using Cons.prems(2) by (simp add: chains_ok_def)
  ultimately show ?case using Cons by (simp add: card_Un_disjoint chain_set_def distinct_card chains_ok_def)
qed (simp add: chain_set_def)

lemma vol_total:
  assumes v: "vol_inv ecc path s cs cc V L K R"
  shows "length (idlelist (vm (fsys s))) + (\<Sum>a\<leftarrow>entries_list (em s). length (L a)) = cc - 1"
proof -
  let ?f = "fsys s"
  note fi = fs_view [OF vol_fs [OF v]]
  note sh = inv_shelf [OF fi]
  have db: "distinct (busylist (vm ?f))" using sh by (simp add: view_shelf_def)
  let ?c = "\<lambda>w. nat (viewid (the (get_view ?f w)))"
  have bc: "busy_at ?f w (?c w)" if "w \<in> set (busylist (vm ?f))" for w
    by (rule shelf_view [OF sh, of w]) (use that in \<open>auto simp: busy_at_def\<close>)
  have "{c. \<exists>w. busy_at ?f w c} = ?c ` set (busylist (vm ?f))"
  proof
    show "?c ` set (busylist (vm ?f)) \<subseteq> {c. \<exists>w. busy_at ?f w c}" using bc by blast
    show "{c. \<exists>w. busy_at ?f w c} \<subseteq> ?c ` set (busylist (vm ?f))" by (force simp: busy_at_def image_iff)
  qed
  moreover have "inj_on ?c (set (busylist (vm ?f)))"
  proof (rule inj_onI)
    fix x y assume x: "x \<in> set (busylist (vm ?f))" "y \<in> set (busylist (vm ?f))" "?c x = ?c y"
    then show "x = y" using busy_inj [OF vol_fs [OF v] bc [OF x(1)]] bc [OF x(2)] by simp
  qed
  ultimately have "card {c. \<exists>w. busy_at ?f w c} = length (busylist (vm ?f))" by (simp add: card_image distinct_card [OF db])
  moreover have "{c. \<exists>w. busy_at ?f w c} = chain_set (entries_list (em s)) L" using mem_busy [OF vol_memory [OF v]] by auto
  moreover have "card (chain_set (entries_list (em s)) L) = (\<Sum>a\<leftarrow>entries_list (em s). length (L a))"
    by (rule chain_total) (use mem_index [OF vol_memory [OF v]] mem_chains [OF vol_memory [OF v]] in \<open>simp_all add: vol_index_def\<close>)
  ultimately show ?thesis using shelf_view_count [OF sh] by simp
qed

end
