(* ===== verification/EvfsEntriesFiles.thy ===== *)
theory EvfsEntriesFiles
  imports EvfsEntriesLife
begin

text \<open>
  Entries as named files (\<^verbatim>\<open>addons/evfs/entries.c\<close>): a client puts, fetches, measures and removes files by name through the operations of
  the entries. The volume refines a map from names to contents together with the number of free clusters.
\<close>

section \<open>The interface\<close>

text \<open>A machine whose steps follow a specification, and the runs of its clients.\<close>

fun run_steps :: "('op \<Rightarrow> 's \<Rightarrow> ('r \<times> 's) option) \<Rightarrow> 'op list \<Rightarrow> 's \<Rightarrow> ('r list \<times> 's) option" where
  "run_steps step [] s = Some ([], s)"
| "run_steps step (opn # ops) s = do { (r, s) \<leftarrow> step opn s; (rs, s) \<leftarrow> run_steps step ops s; Some (r # rs, s) }"

fun spec_run :: "('op \<Rightarrow> 'a \<Rightarrow> 'r \<times> 'a) \<Rightarrow> 'op list \<Rightarrow> 'a \<Rightarrow> 'r list \<times> 'a" where
  "spec_run spec [] A = ([], A)"
| "spec_run spec (opn # ops) A = (case spec opn A of (r, A) \<Rightarrow> case spec_run spec ops A of (rs, A) \<Rightarrow> (r # rs, A))"

fun all_ok :: "('op \<Rightarrow> 'a \<Rightarrow> bool) \<Rightarrow> ('op \<Rightarrow> 'a \<Rightarrow> 'r \<times> 'a) \<Rightarrow> 'op list \<Rightarrow> 'a \<Rightarrow> bool" where
  "all_ok ok spec [] A \<longleftrightarrow> True"
| "all_ok ok spec (opn # ops) A \<longleftrightarrow> ok opn A \<and> all_ok ok spec ops (snd (spec opn A))"

lemma all_ok_append: "all_ok ok spec (xs @ ys) A \<longleftrightarrow> all_ok ok spec xs A \<and> all_ok ok spec ys (snd (spec_run spec xs A))"
  by (induction xs arbitrary: A) (simp_all add: case_prod_unfold)

locale refining =
  fixes holds :: "'s \<Rightarrow> 'a \<Rightarrow> bool"
    and step :: "'op \<Rightarrow> 's \<Rightarrow> ('r \<times> 's) option"
    and spec :: "'op \<Rightarrow> 'a \<Rightarrow> 'r \<times> 'a"
    and ok :: "'op \<Rightarrow> 'a \<Rightarrow> bool"
  assumes step_law: "holds s A \<Longrightarrow> ok opn A \<Longrightarrow> \<exists>s'. step opn s = Some (fst (spec opn A), s') \<and> holds s' (snd (spec opn A))"
begin

lemma run_law: "holds s A \<Longrightarrow> all_ok ok spec ops A \<Longrightarrow> \<exists>s'. run_steps step ops s = Some (fst (spec_run spec ops A), s') \<and> holds s' (snd (spec_run spec ops A))"
proof (induction ops arbitrary: s A)
  case (Cons opn ops)
  obtain s1 where s1: "step opn s = Some (fst (spec opn A), s1)" "holds s1 (snd (spec opn A))" using step_law [OF Cons.prems(1)] Cons.prems(2) by auto
  then show ?case using Cons.IH [OF s1(2)] Cons.prems(2) by (auto split: prod.split)
qed simp

end

text \<open>A machine that keeps what it holds when it is stopped and started again.\<close>

locale durable = refining holds step spec ok
  for holds :: "'s \<Rightarrow> 'a \<Rightarrow> bool" and step :: "'op \<Rightarrow> 's \<Rightarrow> ('r \<times> 's) option" and spec :: "'op \<Rightarrow> 'a \<Rightarrow> 'r \<times> 'a" and ok :: "'op \<Rightarrow> 'a \<Rightarrow> bool" +
  fixes reboot :: "'s \<Rightarrow> 's option"
  assumes reboot_law: "holds s A \<Longrightarrow> \<exists>s'. reboot s = Some s' \<and> holds s' A"
begin

lemma reboot_between:
  assumes "holds s A" "all_ok ok spec (ops1 @ ops2) A"
  shows "\<exists>s1 s2 s3. run_steps step ops1 s = Some (fst (spec_run spec ops1 A), s1) \<and> reboot s1 = Some s2 \<and>
    run_steps step ops2 s2 = Some (fst (spec_run spec ops2 (snd (spec_run spec ops1 A))), s3)"
proof -
  have o: "all_ok ok spec ops1 A" "all_ok ok spec ops2 (snd (spec_run spec ops1 A))" using assms(2) by (simp_all add: all_ok_append)
  obtain s1 where s1: "run_steps step ops1 s = Some (fst (spec_run spec ops1 A), s1)" "holds s1 (snd (spec_run spec ops1 A))" using run_law [OF assms(1) o(1)] by blast
  obtain s2 where s2: "reboot s1 = Some s2" "holds s2 (snd (spec_run spec ops1 A))" using reboot_law [OF s1(2)] by blast
  show ?thesis using s1(1) s2(1) run_law [OF s2(2) o(2)] by blast
qed

end

section \<open>The client\<close>

datatype file_op = Put bytes bytes | Fetch bytes nat nat | Measure bytes | Remove bytes

datatype reply = Status int | Content bytes

definition put_file :: "bytes \<Rightarrow> bytes \<Rightarrow> evfs_vol \<Rightarrow> (reply \<times> evfs_vol) option" where
  "put_file k d s = do {
     (status, i, s) \<leftarrow> evfs_entries_create_one (Some k) True s;
     if \<not> NSP_SUCCESS status then Some (Status status, s)
     else do {
       i \<leftarrow> i;
       (n, s) \<leftarrow> evfs_entries_write_data i (Some d) 0 (int (length d)) s;
       s \<leftarrow> evfs_entries_close_one i s;
       Some (Status n, s)
     }
   }"

definition fetch_file :: "bytes \<Rightarrow> nat \<Rightarrow> nat \<Rightarrow> evfs_vol \<Rightarrow> (reply \<times> evfs_vol) option" where
  "fetch_file k off n s = do {
     (i, s) \<leftarrow> evfs_entries_get_entry_id_by_name (Some k) s;
     if \<not> NSP_SUCCESS i then Some (Status i, s)
     else do {
       (r, b, s) \<leftarrow> evfs_entries_read_data i (Some (replicate n 0)) (int off) (int n) s;
       b \<leftarrow> b;
       Some (if NSP_SUCCESS r then Content (take (nat r) b) else Status r, s)
     }
   }"

definition measure_file :: "bytes \<Rightarrow> evfs_vol \<Rightarrow> (reply \<times> evfs_vol) option" where
  "measure_file k s = do {
     (i, s) \<leftarrow> evfs_entries_get_entry_id_by_name (Some k) s;
     if \<not> NSP_SUCCESS i then Some (Status i, s)
     else do { (n, s) \<leftarrow> evfs_entries_query_user_seg_size i s; Some (Status n, s) }
   }"

definition remove_file :: "bytes \<Rightarrow> evfs_vol \<Rightarrow> (reply \<times> evfs_vol) option" where
  "remove_file k s = do { (status, s) \<leftarrow> evfs_entries_hard_delete_by_name (Some k) s; Some (Status status, s) }"

fun file_step :: "file_op \<Rightarrow> evfs_vol \<Rightarrow> (reply \<times> evfs_vol) option" where
  "file_step (Put k d) s = put_file k d s"
| "file_step (Fetch k off n) s = fetch_file k off n s"
| "file_step (Measure k) s = measure_file k s"
| "file_step (Remove k) s = remove_file k s"

text \<open>The specification: a map, and how many clusters are free. A file of \<^term>\<open>n\<close> bytes takes its share of clusters of \<^term>\<open>m\<close> bytes, with the name.\<close>

definition clusters_for :: "nat \<Rightarrow> bytes \<Rightarrow> nat" where
  "clusters_for m d = (32 + length d + (m - 1)) div m"

type_synonym files = "(bytes \<rightharpoonup> bytes) \<times> nat"

fun file_spec :: "nat \<Rightarrow> file_op \<Rightarrow> files \<Rightarrow> reply \<times> files" where
  "file_spec m (Put k d) (F, free) =
     (if F k \<noteq> None then (Status (posix__makeerror EEXIST), F, free) else (Status (int (length d)), F(k \<mapsto> d), free - clusters_for m d))"
| "file_spec m (Fetch k off n) (F, free) =
     (case F k of None \<Rightarrow> Status (posix__makeerror ENOENT) | Some d \<Rightarrow> Content (take n (drop off d)), F, free)"
| "file_spec m (Measure k) (F, free) =
     (case F k of None \<Rightarrow> Status (posix__makeerror ENOENT) | Some d \<Rightarrow> Status (int (length d)), F, free)"
| "file_spec m (Remove k) (F, free) =
     (case F k of None \<Rightarrow> (Status (posix__makeerror ENOENT), F, free) | Some d \<Rightarrow> (Status 0, F(k := None), free + clusters_for m d))"

fun file_ok :: "nat \<Rightarrow> file_op \<Rightarrow> files \<Rightarrow> bool" where
  "file_ok m (Put k d) (F, free) \<longleftrightarrow> client_name k \<and> d \<noteq> [] \<and> (F k = None \<longrightarrow> clusters_for m d \<le> free)"
| "file_ok m (Fetch k off n) (F, free) \<longleftrightarrow> client_name k \<and> 0 < n \<and> int off < 2 ^ 31 - 32"
| "file_ok m (Measure k) (F, free) \<longleftrightarrow> client_name k"
| "file_ok m (Remove k) (F, free) \<longleftrightarrow> client_name k"

section \<open>Refinement\<close>

text \<open>The files on a volume: the entries have the names \<^term>\<open>N\<close>, hold \<^term>\<open>D\<close> and have the reference counts \<^term>\<open>R\<close>.\<close>

definition files_with :: "(nat \<Rightarrow> int \<times> int) \<Rightarrow> nat \<Rightarrow> string \<Rightarrow> evfs_vol \<Rightarrow> nat \<Rightarrow> nat \<Rightarrow> (nat \<Rightarrow> bytes) \<Rightarrow> (nat \<Rightarrow> nat list) \<Rightarrow> (nat \<Rightarrow> bytes) \<Rightarrow> (nat \<Rightarrow> bytes) \<Rightarrow> bool" where
  "files_with R ecc path s cs cc V L N D \<longleftrightarrow> vol_inv ecc path s cs cc V L (\<lambda>a. pad_key (N a)) R \<and>
     (\<forall>a \<in> set (entries_list (em s)). client_name (N a) \<and> file_on V (cs - 12) (L a) (pad_key (N a)) (D a))"

text \<open>The files when every entry is closed.\<close>

abbreviation files_on :: "nat \<Rightarrow> string \<Rightarrow> evfs_vol \<Rightarrow> nat \<Rightarrow> nat \<Rightarrow> (nat \<Rightarrow> bytes) \<Rightarrow> (nat \<Rightarrow> nat list) \<Rightarrow> (nat \<Rightarrow> bytes) \<Rightarrow> (nat \<Rightarrow> bytes) \<Rightarrow> bool" where
  "files_on \<equiv> files_with (\<lambda>_. (0, 0))"

definition files_of :: "evfs_vol \<Rightarrow> (nat \<Rightarrow> bytes) \<Rightarrow> (nat \<Rightarrow> bytes) \<Rightarrow> bytes \<Rightarrow> bytes option" where
  "files_of s N D k = map_option D (find (\<lambda>a. N a = k) (entries_list (em s)))"

definition holds_files :: "nat \<Rightarrow> string \<Rightarrow> nat \<Rightarrow> nat \<Rightarrow> evfs_vol \<Rightarrow> files \<Rightarrow> bool" where
  "holds_files ecc path cs cc s A \<longleftrightarrow> (\<exists>V L N D. files_on ecc path s cs cc V L N D \<and> fst A = files_of s N D \<and> snd A = length (idlelist (vm (fsys s))))"

lemma files_vol: "files_with R ecc path s cs cc V L N D \<Longrightarrow> vol_inv ecc path s cs cc V L (\<lambda>a. pad_key (N a)) R"
  by (simp add: files_with_def)

text \<open>Looking a name up in the list and in the tree.\<close>

lemma name_inj: "client_name k \<Longrightarrow> client_name k' \<Longrightarrow> name_of_block k = name_of_block k' \<longleftrightarrow> k = k'"
  using c_str_id [of k] c_str_id [of k'] by (auto simp: client_name_def name_of_block.rep_eq dest: arg_cong [where f = Rep_cname])

lemma find_file:
  assumes f: "files_with R ecc path s cs cc V L N D" and k: "client_name k"
  shows "name_of (root_of_named_entries_tree (em s)) (name_of_block k) = find (\<lambda>a. N a = k) (entries_list (em s))"
proof -
  have vi: "vol_index (em s) L (\<lambda>a. pad_key (N a))" by (rule mem_index [OF vol_memory [OF files_vol [OF f]]])
  have nn: "name_of_block k \<noteq> noname" "\<And>a. a \<in> set (entries_list (em s)) \<Longrightarrow> name_of_block (pad_key (N a)) = name_of_block k \<longleftrightarrow> N a = k"
    using pad_key_name f k name_inj by (auto simp: client_name_def files_with_def)
  show ?thesis
  proof (cases "find (\<lambda>a. N a = k) (entries_list (em s))")
    case None
    then have "name_of (root_of_named_entries_tree (em s)) (name_of_block k) \<noteq> Some a" for a
      using vi nn(2) unfolding vol_index_def find_None_iff by metis
    then show ?thesis using None by auto
  next
    case (Some a)
    then have "a \<in> set (entries_list (em s))" "N a = k" by (auto simp: find_Some_iff)
    then have "name_of (root_of_named_entries_tree (em s)) (name_of_block k) = Some a" using vi nn unfolding vol_index_def by metis
    then show ?thesis using Some by simp
  qed
qed

lemma chain_clusters:
  assumes "file_on V m cl k d" "length k = 32" "0 < m"
  shows "length cl = clusters_for m d"
proof -
  let ?n = "length cl" and ?x = "32 + length d"
  have f: "(?n - 1) * m < ?x" "?x \<le> ?n * m" "0 < ?n" using assms(1,2) by (auto simp: file_on_def file_part_def)
  have "?n * m = (?n - 1) * m + m" using f(3) by (cases ?n) simp_all
  then have "?n * m \<le> ?x + (m - 1)" "?x + (m - 1) < Suc ?n * m" using f assms(3) by auto
  then have "(?x + (m - 1)) div m = ?n" by (intro div_nat_eqI) (simp_all add: mult.commute)
  then show ?thesis by (simp add: clusters_for_def)
qed



lemma files_room:
  assumes f: "files_with R ecc path s cs cc V L N D"
  shows "length (idlelist (vm (fsys s))) + (\<Sum>a\<leftarrow>entries_list (em s). clusters_for (cs - 12) (D a)) = cc - 1"
proof -
  have m: "0 < cs - 12" using vol_size [OF files_vol [OF f]] by simp
  have "length (L a) = clusters_for (cs - 12) (D a)" if "a \<in> set (entries_list (em s))" for a
  proof (rule chain_clusters [OF _ _ m])
    show "file_on V (cs - 12) (L a) (pad_key (N a)) (D a)" using f that by (simp add: files_with_def)
    show "length (pad_key (N a)) = 32" using f that pad_key_ok [of "N a"] by (simp add: files_with_def client_name_def key_ok_def)
  qed
  then have "(\<Sum>a\<leftarrow>entries_list (em s). length (L a)) = (\<Sum>a\<leftarrow>entries_list (em s). clusters_for (cs - 12) (D a))"
    by (intro arg_cong [where f = sum_list] map_cong) simp_all
  then show ?thesis using vol_total [OF files_vol [OF f]] by simp
qed

lemma clusters_bound: "0 < m \<Longrightarrow> 32 + length d \<le> clusters_for m d * m" "0 < m \<Longrightarrow> 0 < clusters_for m d"
proof -
  assume m: "0 < m"
  let ?x = "32 + length d + (m - 1)"
  have "?x < clusters_for m d * m + m" unfolding clusters_for_def using div_mult_mod_eq [of ?x m] mod_less_divisor [OF m, of ?x] by linarith
  then show "32 + length d \<le> clusters_for m d * m" using m by linarith
  then show "0 < clusters_for m d" by (cases "clusters_for m d") simp_all
qed

lemma file_bound:
  assumes f: "files_with R ecc path s cs cc V L N D" and a: "a \<in> set (entries_list (em s))"
  shows "int (length (D a)) < 2 ^ 31 - 32"
proof -
  note v = files_vol [OF f]
  have "clusters_for (cs - 12) (D a) \<le> (\<Sum>b\<leftarrow>entries_list (em s). clusters_for (cs - 12) (D b))" by (rule member_le_sum_list) (use a in simp_all)
  then have "clusters_for (cs - 12) (D a) \<le> cc" using files_room [OF f] by linarith
  then have "clusters_for (cs - 12) (D a) * (cs - 12) \<le> cc * cs" by (intro mult_le_mono) simp_all
  then show ?thesis using clusters_bound(1) [of "cs - 12" "D a"] v vol_size [OF v] by (simp add: vol_inv_def mult.commute)
qed

text \<open>Finding a name, and not finding it.\<close>

lemma found_file:
  assumes f: "files_with R ecc path s cs cc V L N D" and k: "client_name k" and F: "files_of s N D k = Some d"
  obtains a where "a \<in> set (entries_list (em s))" "N a = k" "D a = d" "find (\<lambda>a. N a = k) (entries_list (em s)) = Some a" "name_of_block (pad_key (N a)) = name_of_block k"
proof -
  obtain a where a: "find (\<lambda>a. N a = k) (entries_list (em s)) = Some a" "D a = d" using F by (auto simp: files_of_def)
  then have "a \<in> set (entries_list (em s))" "N a = k" by (auto simp: find_Some_iff)
  then show thesis using a that pad_key_name(2) [of k] k by (simp add: client_name_def)
qed

lemma absent_file:
  assumes f: "files_with R ecc path s cs cc V L N D" and k: "client_name k" and F: "files_of s N D k = None"
  shows "evfs_entries_search_named_head k s = Some None" "evfs_entries_reference_head_by_name k p s = Some (posix__makeerror ENOENT, None, s)"
proof -
  have "find (\<lambda>a. N a = k) (entries_list (em s)) = None" using F by (simp add: files_of_def)
  then show "evfs_entries_search_named_head k s = Some None" using find_file [OF f k] search_named_index [of k s] k by (simp add: client_name_def)
  then show "evfs_entries_reference_head_by_name k p s = Some (posix__makeerror ENOENT, None, s)" by (simp add: evfs_entries_reference_head_by_name_def reference_found_def)
qed

lemma zero_refs [simp]: "refs_ok (0, 0)" "refs_ok (1, 0)"
  by (simp_all add: refs_ok_def)

lemma file_on_cong: "file_on V m cl k d \<Longrightarrow> (\<And>c. c \<in> set cl \<Longrightarrow> W c = V c) \<Longrightarrow> file_on W m cl k d"
  unfolding file_on_def by (rule file_part_cong)

text \<open>A new file is empty and open.\<close>

lemma create_files:
  assumes f: "files_with R ecc path s cs cc V L N D" and k: "client_name k" and F: "files_of s N D k = None" and I: "idlelist (vm (fsys s)) \<noteq> []"
  shows "\<exists>s' V' a c. evfs_entries_create_one (Some k) True s = Some (0, Some (int c), s') \<and>
    files_with (R(a := (1, 0))) ecc path s' cs cc V' (L(a := [c])) (N(a := k)) (D(a := [])) \<and> a \<notin> set (entries_list (em s)) \<and>
    entries_list (em s') = entries_list (em s) @ [a] \<and> idlelist (vm (fsys s')) = tl (idlelist (vm (fsys s)))"
proof -
  note v = files_vol [OF f]
  let ?K = "\<lambda>a. pad_key (N a)"
  have nm: "name_of (root_of_named_entries_tree (em s)) (name_of_block k) = None" using find_file [OF f k] F by (simp add: files_of_def)
  obtain s' a c V' where 1: "evfs_entries_create_one (Some k) True s = Some (0, Some (int c), s')" "a \<notin> set (entries_list (em s))"
    "entries_list (em s') = entries_list (em s) @ [a]" "vol_inv ecc path s' cs cc V' (L(a := [c])) (?K(a := pad_key k)) (R(a := (1, 0)))"
    "file_on V' (cs - 12) [c] (pad_key k) []" "\<forall>b \<in> set (entries_list (em s)). \<forall>d \<in> set (L b). V' d = V d" "idlelist (vm (fsys s')) = tl (idlelist (vm (fsys s)))"
    using entry_create_run [OF v k nm I] by (elim exE conjE) (rule that)
  have K: "?K(a := pad_key k) = (\<lambda>x. pad_key ((N(a := k)) x))" by auto
  have "client_name ((N(a := k)) b) \<and> file_on V' (cs - 12) ((L(a := [c])) b) (pad_key ((N(a := k)) b)) ((D(a := [])) b)" if b: "b \<in> set (entries_list (em s) @ [a])" for b
  proof (cases "b = a")
    case True
    then show ?thesis using k 1(5) by simp
  next
    case False
    then have b': "b \<in> set (entries_list (em s))" using b by auto
    have "file_on V' (cs - 12) (L b) (pad_key (N b)) (D b)" by (rule file_on_cong [of V]) (use f 1(6) b' in \<open>simp_all add: files_with_def\<close>)
    then show ?thesis using False b' f by (simp add: files_with_def)
  qed
  then have "files_with (R(a := (1, 0))) ecc path s' cs cc V' (L(a := [c])) (N(a := k)) (D(a := []))" using 1(3,4) unfolding files_with_def K by simp
  then show ?thesis using 1(1,2,3,7) by blast
qed

text \<open>Writing an empty file.\<close>

lemma write_files:
  assumes f: "files_with R ecc path s cs cc V L N D" and a: "a \<in> set (entries_list (em s))" "refs_ok (R a)" "D a = []"
    and d: "d \<noteq> []" "clusters_for (cs - 12) d \<le> 1 + length (idlelist (vm (fsys s)))"
  shows "\<exists>s' V' L'. evfs_entries_write_data (int (hd (L a))) (Some d) 0 (int (length d)) s = Some (int (length d), s') \<and>
    files_with R ecc path s' cs cc V' L' N (D(a := d)) \<and> kept_vol s s' \<and> (\<forall>b. b \<noteq> a \<longrightarrow> L' b = L b) \<and> hd (L' a) = hd (L a)"
proof -
  note v = files_vol [OF f]
  have m: "0 < cs - 12" using vol_size [OF v] by simp
  have "clusters_for (cs - 12) d * (cs - 12) \<le> (1 + length (idlelist (vm (fsys s)))) * (cs - 12)" by (rule mult_le_mono1 [OF d(2)])
  then have room: "32 + length d \<le> (1 + length (idlelist (vm (fsys s)))) * (cs - 12)" using clusters_bound(1) [OF m, of d] by linarith
  have fa: "file_on V (cs - 12) (L a) (pad_key (N a)) []" using f a(1,3) by (auto simp: files_with_def)
  obtain s' V' L' where 2: "evfs_entries_write_data (int (hd (L a))) (Some d) 0 (int (length d)) s = Some (int (length d), s')"
    "vol_inv ecc path s' cs cc V' L' (\<lambda>a. pad_key (N a)) R" "kept_vol s s'" "file_on V' (cs - 12) (L' a) (pad_key (N a)) d"
    "\<forall>b. b \<noteq> a \<longrightarrow> L' b = L b" "hd (L' a) = hd (L a)" "\<forall>b \<in> set (entries_list (em s)). b \<noteq> a \<longrightarrow> (\<forall>c \<in> set (L b). V' c = V c)"
    using write_fresh [OF v a(1,2) fa d(1) room] by (elim exE conjE) (rule that)
  have "client_name (N b) \<and> file_on V' (cs - 12) (L' b) (pad_key (N b)) ((D(a := d)) b)" if b: "b \<in> set (entries_list (em s))" for b
  proof (cases "b = a")
    case False
    have "file_on V' (cs - 12) (L b) (pad_key (N b)) (D b)" by (rule file_on_cong [of V]) (use f b 2(7) False in \<open>simp_all add: files_with_def\<close>)
    then show ?thesis using False b f 2(5) by (simp add: files_with_def)
  qed (use f b 2(4) in \<open>simp add: files_with_def\<close>)
  then have "files_with R ecc path s' cs cc V' L' N (D(a := d))" using 2(2,3) by (simp add: files_with_def kept_vol_def)
  then show ?thesis using 2(1,3,5,6) by blast
qed

lemma files_withI: "files_with R ecc path s cs cc V L N D \<Longrightarrow> vol_inv ecc path s' cs cc V L (\<lambda>a. pad_key (N a)) R' \<Longrightarrow> kept_vol s s' \<Longrightarrow>
    files_with R' ecc path s' cs cc V L N D"
  by (simp add: files_with_def kept_vol_def)

lemma close_files:
  assumes f: "files_with (opened R a) ecc path s cs cc V L N D" and a: "a \<in> set (entries_list (em s))" "refs_ok (R a)" "refs_ok (opened R a a)"
  shows "\<exists>s'. evfs_entries_close_one (int (hd (L a))) s = Some s' \<and> files_with R ecc path s' cs cc V L N D \<and> kept_vol s s' \<and> fsys s' = fsys s"
  using close_run [OF files_vol [OF f] a] files_withI [OF f] by blast

lemma read_files:
  assumes f: "files_with R ecc path s cs cc V L N D" and a: "a \<in> set (entries_list (em s))" "refs_ok (R a)" and n: "0 < n" "n = length buf" "int off < 2 ^ 31 - 32"
    and t: "t = take n (drop off (D a))"
  shows "\<exists>s'. evfs_entries_read_data (int (hd (L a))) (Some buf) (int off) (int n) s = Some (int (length t), Some (t @ drop (length t) buf), s') \<and>
    files_with R ecc path s' cs cc V L N D \<and> kept_vol s s'"
proof -
  have fa: "file_on V (cs - 12) (L a) (pad_key (N a)) (D a)" using f a(1) by (simp add: files_with_def)
  show ?thesis using read_file [OF files_vol [OF f] a fa n(1) _ file_bound [OF f a(1)] n(3), of buf] n(2) files_withI [OF f] unfolding t by blast
qed

lemma size_files:
  assumes f: "files_with R ecc path s cs cc V L N D" and a: "a \<in> set (entries_list (em s))" "refs_ok (R a)"
  shows "\<exists>s'. evfs_entries_query_user_seg_size (int (hd (L a))) s = Some (int (length (D a)), s') \<and> files_with R ecc path s' cs cc V L N D \<and> kept_vol s s' \<and> fsys s' = fsys s"
proof -
  have fa: "file_on V (cs - 12) (L a) (pad_key (N a)) (D a)" using f a(1) by (simp add: files_with_def)
  show ?thesis using size_run [OF files_vol [OF f] a fa file_bound [OF f a(1)]] files_withI [OF f] by blast
qed

lemma put_step:
  assumes f: "files_on ecc path s cs cc V L N D" and k: "client_name k" and F: "files_of s N D k = None"
    and d: "d \<noteq> []" "clusters_for (cs - 12) d \<le> length (idlelist (vm (fsys s)))"
  shows "\<exists>s' V' L' a. put_file k d s = Some (Status (int (length d)), s') \<and> files_on ecc path s' cs cc V' L' (N(a := k)) (D(a := d)) \<and>
    a \<notin> set (entries_list (em s)) \<and> entries_list (em s') = entries_list (em s) @ [a]"
proof -
  let ?R = "\<lambda>_ :: nat. (0 :: int, 0 :: int)"
  have m: "0 < cs - 12" using vol_size [OF files_vol [OF f]] by simp
  have I: "idlelist (vm (fsys s)) \<noteq> []" using clusters_bound(2) [OF m, of d] d(2) by auto
  obtain s1 V1 a c where 1: "evfs_entries_create_one (Some k) True s = Some (0, Some (int c), s1)"
    "files_with (?R(a := (1, 0))) ecc path s1 cs cc V1 (L(a := [c])) (N(a := k)) (D(a := []))" "a \<notin> set (entries_list (em s))"
    "entries_list (em s1) = entries_list (em s) @ [a]" "idlelist (vm (fsys s1)) = tl (idlelist (vm (fsys s)))"
    using create_files [OF f k F I] by blast
  have a1: "a \<in> set (entries_list (em s1))" using 1(4) by simp
  have room: "clusters_for (cs - 12) d \<le> 1 + length (idlelist (vm (fsys s1)))" using d(2) 1(5) I by (cases "idlelist (vm (fsys s))") simp_all
  obtain s2 V2 L2 where 2: "evfs_entries_write_data (int c) (Some d) 0 (int (length d)) s1 = Some (int (length d), s2)"
    "files_with (?R(a := (1, 0))) ecc path s2 cs cc V2 L2 (N(a := k)) ((D(a := []))(a := d))" "kept_vol s1 s2" "hd (L2 a) = c"
    using write_files [OF 1(2) a1 _ _ d(1) room] by auto
  have a2: "a \<in> set (entries_list (em s2))" using a1 2(3) by (simp add: kept_vol_def)
  have oR: "?R(a := (1, 0)) = opened ?R a" by (simp add: opened_def)
  obtain s3 where 3: "evfs_entries_close_one (int c) s2 = Some s3" "files_on ecc path s3 cs cc V2 L2 (N(a := k)) ((D(a := []))(a := d))" "kept_vol s2 s3"
    using close_files [OF 2(2) [unfolded oR] a2] 2(4) by (auto simp: opened_def)
  have "entries_list (em s3) = entries_list (em s) @ [a]" using 1(4) 2(3) 3(3) by (simp add: kept_vol_def)
  moreover have "put_file k d s = Some (Status (int (length d)), s3)" using 1(1) 2(1) 3(1) by (simp add: put_file_def NSP_SUCCESS_def)
  moreover have "(D(a := []))(a := d) = D(a := d)" by simp
  ultimately show ?thesis using 1(3) 3(2) by auto
qed

lemma files_kept: "kept_vol s s' \<Longrightarrow> files_of s' N D = files_of s N D"
  by (simp add: files_of_def fun_eq_iff kept_vol_def)

lemma id_success: "NSP_SUCCESS (int n)"
  by (simp add: NSP_SUCCESS_def)

lemma named_files:
  assumes f: "files_with R ecc path s cs cc V L N D" and k: "client_name k" and F: "files_of s N D k = Some d" and r: "\<And>a. refs_ok (R a)"
  shows "\<exists>s' a. evfs_entries_get_entry_id_by_name (Some k) s = Some (int (hd (L a)), s') \<and> files_with R ecc path s' cs cc V L N D \<and> kept_vol s s' \<and>
    a \<in> set (entries_list (em s')) \<and> D a = d \<and> fsys s' = fsys s"
proof -
  obtain a where a: "a \<in> set (entries_list (em s))" "N a = k" "D a = d" "name_of_block (pad_key (N a)) = name_of_block k" by (rule found_file [OF f k F])
  obtain s' where 1: "evfs_entries_get_entry_id_by_name (Some k) s = Some (int (hd (L a)), s')" "vol_inv ecc path s' cs cc V L (\<lambda>a. pad_key (N a)) R" "kept_vol s s'" "fsys s' = fsys s"
    using id_by_name_run [OF files_vol [OF f] a(1) r k a(4)] by blast
  then show ?thesis using a(1,3) files_withI [OF f 1(2,3)] by (auto simp: kept_vol_def)
qed

lemma fetch_step:
  assumes f: "files_on ecc path s cs cc V L N D" and k: "client_name k" and F: "files_of s N D k = Some d" and n: "0 < n" "int off < 2 ^ 31 - 32"
  shows "\<exists>s'. fetch_file k off n s = Some (Content (take n (drop off d)), s') \<and> files_on ecc path s' cs cc V L N D \<and> kept_vol s s'"
proof -
  obtain s1 a where 1: "evfs_entries_get_entry_id_by_name (Some k) s = Some (int (hd (L a)), s1)" "files_on ecc path s1 cs cc V L N D" "kept_vol s s1"
    "a \<in> set (entries_list (em s1))" "D a = d"
    using named_files [OF f k F] by auto
  define t where "t = take n (drop off d)"
  obtain s2 where 2: "evfs_entries_read_data (int (hd (L a))) (Some (replicate n 0)) (int off) (int n) s1 = Some (int (length t), Some (t @ drop (length t) (replicate n 0)), s2)"
    "files_on ecc path s2 cs cc V L N D" "kept_vol s1 s2"
    using read_files [OF 1(2,4) _ n(1) _ n(2), of "replicate n 0" t] unfolding t_def 1(5) by auto
  have "fetch_file k off n s = Some (Content t, s2)" using 1(1) 2(1) by (simp add: fetch_file_def id_success)
  then show ?thesis using 2(2) kept_vol_trans [OF 1(3) 2(3)] unfolding t_def by blast
qed

lemma measure_step:
  assumes f: "files_on ecc path s cs cc V L N D" and k: "client_name k" and F: "files_of s N D k = Some d"
  shows "\<exists>s'. measure_file k s = Some (Status (int (length d)), s') \<and> files_on ecc path s' cs cc V L N D \<and> kept_vol s s'"
proof -
  obtain s1 a where 1: "evfs_entries_get_entry_id_by_name (Some k) s = Some (int (hd (L a)), s1)" "files_on ecc path s1 cs cc V L N D" "kept_vol s s1"
    "a \<in> set (entries_list (em s1))" "D a = d"
    using named_files [OF f k F] by auto
  obtain s2 where 2: "evfs_entries_query_user_seg_size (int (hd (L a))) s1 = Some (int (length d), s2)" "files_on ecc path s2 cs cc V L N D" "kept_vol s1 s2"
    using size_files [OF 1(2,4)] 1(5) by auto
  have "measure_file k s = Some (Status (int (length d)), s2)" using 1(1) 2(1) by (simp add: measure_file_def id_success)
  then show ?thesis using 2(2) kept_vol_trans [OF 1(3) 2(3)] by blast
qed

lemma remove_files:
  assumes f: "files_with R ecc path s cs cc V L N D" and a: "a \<in> set (entries_list (em s))" "R a = (0, 0)"
  shows "\<exists>s' V'. evfs_entries_hard_delete_by_name (Some (N a)) s = Some (0, s') \<and> files_with R ecc path s' cs cc V' L N D \<and>
    entries_list (em s') = remove1 a (entries_list (em s))"
proof -
  note v = files_vol [OF f]
  have k: "client_name (N a)" "name_of_block (pad_key (N a)) = name_of_block (N a)" using f a(1) pad_key_name(2) [of "N a"] by (auto simp: files_with_def client_name_def)
  obtain s' V' where s': "evfs_entries_hard_delete_by_name (Some (N a)) s = Some (0, s')" "vol_inv ecc path s' cs cc V' L (\<lambda>a. pad_key (N a)) R"
    "entries_list (em s') = remove1 a (entries_list (em s))" "\<forall>d. d \<notin> set (L a) \<longrightarrow> V' d = V d"
    using delete_run [OF v a k] by blast
  have d: "distinct (entries_list (em s))" using mem_index [OF vol_memory [OF v]] by (simp add: vol_index_def)
  have "file_on V' (cs - 12) (L b) (pad_key (N b)) (D b)" if b: "b \<in> set (entries_list (em s))" "b \<noteq> a" for b
  proof (rule file_on_cong)
    show "file_on V (cs - 12) (L b) (pad_key (N b)) (D b)" using f b(1) by (simp add: files_with_def)
    show "V' c = V c" if "c \<in> set (L b)" for c
    proof -
      have "set (L a) \<inter> set (L b) = {}" using mem_chains [OF vol_memory [OF v]] a(1) b unfolding chains_ok_def by blast
      then show ?thesis using s'(4) that by blast
    qed
  qed
  then have "files_with R ecc path s' cs cc V' L N D" using f s'(2,3) d by (simp add: files_with_def set_remove1_eq)
  then show ?thesis using s'(1,3) by blast
qed

lemma remove_step:
  assumes f: "files_on ecc path s cs cc V L N D" and k: "client_name k" and F: "files_of s N D k = Some d"
  shows "\<exists>s' V' a. remove_file k s = Some (Status 0, s') \<and> files_on ecc path s' cs cc V' L N D \<and> a \<in> set (entries_list (em s)) \<and> N a = k \<and> D a = d \<and>
    entries_list (em s') = remove1 a (entries_list (em s))"
proof -
  obtain a where a: "a \<in> set (entries_list (em s))" "N a = k" "D a = d" by (rule found_file [OF f k F])
  obtain s' V' where "evfs_entries_hard_delete_by_name (Some k) s = Some (0, s')" "files_on ecc path s' cs cc V' L N D" "entries_list (em s') = remove1 a (entries_list (em s))"
    using remove_files [OF f a(1)] a(2) by auto
  then show ?thesis using a by (auto simp: remove_file_def)
qed

text \<open>The map after a new file and without a file.\<close>

lemma files_of_put:
  assumes "entries_list (em s') = entries_list (em s) @ [a]" "a \<notin> set (entries_list (em s))" "files_of s N D k = None"
  shows "files_of s' (N(a := k)) (D(a := d)) = (files_of s N D)(k \<mapsto> d)"
proof
  fix x
  have nk: "N b \<noteq> k" if "b \<in> set (entries_list (em s))" for b using assms(3) that by (auto simp: files_of_def find_None_iff)
  have "find (\<lambda>b. (N(a := k)) b = x) (as @ [a]) = (case find (\<lambda>b. N b = x) as of None \<Rightarrow> if k = x then Some a else None | Some b \<Rightarrow> Some b) \<and>
      (\<forall>b. find (\<lambda>b. N b = x) as = Some b \<longrightarrow> b \<noteq> a)" if "a \<notin> set as" for as
    using that by (induction as) auto
  note * = this [OF assms(2)]
  show "files_of s' (N(a := k)) (D(a := d)) x = ((files_of s N D)(k \<mapsto> d)) x"
  proof (cases "find (\<lambda>b. N b = x) (entries_list (em s))")
    case None
    then show ?thesis using * assms(1) by (simp add: files_of_def del: fun_upd_apply) (simp add: files_of_def)
  next
    case (Some b)
    then have "b \<in> set (entries_list (em s))" "N b = x" by (auto simp: find_Some_iff)
    then have "x \<noteq> k" using nk by blast
    then show ?thesis using * assms(1) Some by (simp add: files_of_def)
  qed
qed

lemma files_of_remove:
  assumes f: "files_with R ecc path s cs cc V L N D" and a: "a \<in> set (entries_list (em s))" "N a = k" "entries_list (em s') = remove1 a (entries_list (em s))"
  shows "files_of s' N D = (files_of s N D)(k := None)"
proof
  fix x
  have inj: "b = a" if "b \<in> set (entries_list (em s))" "N b = k" for b
  proof -
    have k: "client_name k" using f a by (auto simp: files_with_def)
    have vi: "vol_index (em s) L (\<lambda>a. pad_key (N a))" by (rule mem_index [OF vol_memory [OF files_vol [OF f]]])
    have "name_of_block (pad_key k) = name_of_block k" "name_of_block k \<noteq> noname" using pad_key_name [of k] k by (simp_all add: client_name_def)
    then have "name_of (root_of_named_entries_tree (em s)) (name_of_block k) = Some c" if "c \<in> set (entries_list (em s))" "N c = k" for c
      using vi that unfolding vol_index_def by metis
    from this [OF that] this [OF a(1,2)] show ?thesis by simp
  qed
  have d: "distinct (entries_list (em s))" using mem_index [OF vol_memory [OF files_vol [OF f]]] by (simp add: vol_index_def)
  show "files_of s' N D x = ((files_of s N D)(k := None)) x"
  proof (cases "x = k")
    case True
    have "find (\<lambda>b. N b = k) (remove1 a (entries_list (em s))) = None" using inj d by (auto simp: find_None_iff)
    then show ?thesis using True a(3) by (simp add: files_of_def)
  next
    case False
    have "find (\<lambda>b. N b = x) (remove1 a as) = find (\<lambda>b. N b = x) as" for as using False a(2) by (induction as) auto
    then show ?thesis using False a(3) by (simp add: files_of_def)
  qed
qed

lemma holds_filesI: "files_on ecc path s cs cc V L N D \<Longrightarrow> fst A = files_of s N D \<Longrightarrow> snd A = length (idlelist (vm (fsys s))) \<Longrightarrow> holds_files ecc path cs cc s A"
  unfolding holds_files_def by blast

lemma file_step_law:
  assumes h: "holds_files ecc path cs cc s A" and ok: "file_ok (cs - 12) opn A"
  shows "\<exists>s'. file_step opn s = Some (fst (file_spec (cs - 12) opn A), s') \<and> holds_files ecc path cs cc s' (snd (file_spec (cs - 12) opn A))"
proof -
  obtain V L N D where f: "files_on ecc path s cs cc V L N D" and A: "A = (files_of s N D, length (idlelist (vm (fsys s))))"
    using h by (cases A) (auto simp: holds_files_def)
  have same: "holds_files ecc path cs cc s' A" if "files_on ecc path s' cs cc V L N D" "kept_vol s s'" for s'
  proof -
    have "length (idlelist (vm (fsys s'))) = length (idlelist (vm (fsys s)))" using files_room [OF f] files_room [OF that(1)] that(2) by (simp add: kept_vol_def)
    then show ?thesis using files_kept [OF that(2), of N D] A by (auto intro!: holds_filesI [OF that(1)])
  qed
  have hs: "holds_files ecc path cs cc s A" by (rule h)
  have room: "length (idlelist (vm (fsys s))) + (\<Sum>a\<leftarrow>entries_list (em s). clusters_for (cs - 12) (D a)) = cc - 1" by (rule files_room [OF f])
  show ?thesis
  proof (cases opn)
    case (Put k d)
    have k: "client_name k" "d \<noteq> []" using ok A Put by simp_all
    show ?thesis
    proof (cases "files_of s N D k")
      case None
      obtain s' V' L' a where s': "put_file k d s = Some (Status (int (length d)), s')" "files_on ecc path s' cs cc V' L' (N(a := k)) (D(a := d))"
        "a \<notin> set (entries_list (em s))" "entries_list (em s') = entries_list (em s) @ [a]"
        using put_step [OF f k(1) None k(2)] ok A Put None by auto
      have "map (\<lambda>b. clusters_for (cs - 12) ((D(a := d)) b)) (entries_list (em s)) = map (\<lambda>b. clusters_for (cs - 12) (D b)) (entries_list (em s))"
        by (rule map_cong) (use s'(3) in auto)
      then have "(\<Sum>b\<leftarrow>entries_list (em s'). clusters_for (cs - 12) ((D(a := d)) b)) =
          (\<Sum>b\<leftarrow>entries_list (em s). clusters_for (cs - 12) (D b)) + clusters_for (cs - 12) d"
        unfolding s'(4) by (simp only: map_append sum_list.append list.map sum_list.Cons sum_list.Nil fun_upd_same add_0_right)
      then have "length (idlelist (vm (fsys s'))) = length (idlelist (vm (fsys s))) - clusters_for (cs - 12) d"
        using files_room [OF s'(2)] room by linarith
      then show ?thesis using s'(1) Put A None files_of_put [OF s'(4,3) None, of d] by (auto intro!: holds_filesI [OF s'(2)])
    next
      case (Some d')
      obtain a where a: "find (\<lambda>a. N a = k) (entries_list (em s)) = Some a" by (rule found_file [OF f k(1) Some])
      have "evfs_entries_search_named_head k s = Some (Some a)" using find_file [OF f k(1)] a search_named_index [of k s] k(1) by (simp add: client_name_def)
      then have "put_file k d s = Some (Status (posix__makeerror EEXIST), s)" by (simp add: put_file_def evfs_entries_create_one_def NSP_SUCCESS_def posix__makeerror_def errno_defs)
      then show ?thesis using Put A Some hs by auto
    qed
  next
    case (Fetch k off n)
    have k: "client_name k" "0 < n" "int off < 2 ^ 31 - 32" using ok A Fetch by simp_all
    show ?thesis
    proof (cases "files_of s N D k")
      case None
      have "fetch_file k off n s = Some (Status (posix__makeerror ENOENT), s)"
        using absent_file(2) [OF f k(1) None] by (simp add: fetch_file_def evfs_entries_get_entry_id_by_name_def error_not_success)
      then show ?thesis using Fetch A None hs by auto
    next
      case (Some d)
      from fetch_step [OF f k(1) Some k(2,3)] show ?thesis using same Fetch A Some by auto
    qed
  next
    case (Measure k)
    have k: "client_name k" using ok A Measure by simp
    show ?thesis
    proof (cases "files_of s N D k")
      case None
      have "measure_file k s = Some (Status (posix__makeerror ENOENT), s)"
        using absent_file(2) [OF f k None] by (simp add: measure_file_def evfs_entries_get_entry_id_by_name_def error_not_success)
      then show ?thesis using Measure A None hs by auto
    next
      case (Some d)
      from measure_step [OF f k Some] show ?thesis using same Measure A Some by auto
    qed
  next
    case (Remove k)
    have k: "client_name k" using ok A Remove by simp
    show ?thesis
    proof (cases "files_of s N D k")
      case None
      have "remove_file k s = Some (Status (posix__makeerror ENOENT), s)"
        using absent_file(2) [OF f k None] by (simp add: remove_file_def evfs_entries_hard_delete_by_name_def delete_referenced_def error_not_success)
      then show ?thesis using Remove A None hs by auto
    next
      case (Some d)
      obtain s' V' a where s': "remove_file k s = Some (Status 0, s')" "files_on ecc path s' cs cc V' L N D" "a \<in> set (entries_list (em s))" "N a = k" "D a = d"
        "entries_list (em s') = remove1 a (entries_list (em s))"
        using remove_step [OF f k Some] by blast
      have "length (idlelist (vm (fsys s'))) = length (idlelist (vm (fsys s))) + clusters_for (cs - 12) d"
        using files_room [OF s'(2)] room s'(5,6) sum_list_map_remove1 [OF s'(3), of "\<lambda>b. clusters_for (cs - 12) (D b)"] by simp
      then show ?thesis using s'(1) Remove A Some files_of_remove [OF f s'(3,4,6)] by (auto intro!: holds_filesI [OF s'(2)])
    qed
  qed
qed

end
