(* ===== verification/EvfsEntriesLoad.thy ===== *)
theory EvfsEntriesLoad
  imports EvfsEntriesFiles
begin

text \<open>
  Stopping and starting the entries (\<^verbatim>\<open>addons/evfs/entries.c\<close>): what \<^verbatim>\<open>evfs_entries_uninit\<close> leaves on the disk, \<^verbatim>\<open>evfs_entries_load\<close> finds again:
  the heads are recognized, and the wild elements are adopted along the chains.
\<close>

section \<open>Stopping\<close>

lemma delete_all_run:
  assumes "fs_inv ecc path (fsys s) cs cc V" "vol_mem s L K R X" "\<forall>a \<in> set (entries_list (em s)). snd (R a) = 0"
  shows "\<exists>s' Y. delete_all s = Some s' \<and> fsys s' = fsys s \<and> entries_list (em s') = [] \<and> vol_mem s' L K R Y \<and> wild_list (em s') = wild_list (em s)"
  using assms
proof (induction "entries_list (em s)" arbitrary: s X)
  case Nil
  have "delete_all s = Some s" using Nil.hyps by (subst delete_all.simps) simp
  then show ?case using Nil by auto
next
  case (Cons a as)
  note m = Cons.prems(2)
  have a: "a \<in> set (entries_list (em s))" using Cons.hyps(2) by (metis list.set_intros(1))
  obtain h where h: "get_ehead s a = Some h" "io_refcnt h = 0" "\<not> hard_remove_on_detach h" using mem_entry [OF m a] Cons.prems(3) a by (elim entry_obtain) auto
  let ?h = "h\<lparr>ehead_state := kEvfsEntryCloseWait, ehead_refcnt := 0\<rparr>"
  obtain s1 V1 where 1: "evfs_entries_free_head a (put_ehead a ?h s) = Some s1" "fs_inv ecc path (fsys s1) cs cc V1" "released False (fsys s) (fsys s1) V V1 (L a)"
    "vol_mem s1 L K R (X \<union> set (L a))" "entries_list (em s1) = remove1 a (entries_list (em s))" "wild_list (em s1) = wild_list (em s)"
    using free_head_run [OF Cons.prems(1) m a h(1), of ?h False] h(3) by auto
  have e1: "as = entries_list (em s1)" using 1(5) unfolding Cons.hyps(2) [symmetric] by simp
  have f1: "fsys s1 = fsys s" using 1(3) by (simp add: released_def)
  obtain s' Y where s': "delete_all s1 = Some s'" "fsys s' = fsys s1" "entries_list (em s') = []" "vol_mem s' L K R Y" "wild_list (em s') = wild_list (em s1)"
    using Cons.hyps(1) [OF e1 _ 1(4)] Cons.prems(1,3) f1 e1 unfolding Cons.hyps(2) [symmetric] by auto
  have "evfs_entries_try_delete_head a kEvfsEntryMandatory s = Some s1" using h 1(1) by (simp add: evfs_entries_try_delete_head_def Let_def)
  then have "delete_all s = delete_all s1" unfolding delete_all.simps [of s] Cons.hyps(2) [symmetric] by simp
  then show ?case using s' f1 1(6) by auto
qed

text \<open>A manager without entries.\<close>

definition entries_asleep :: "evfs_entries_mgr \<Rightarrow> bool" where
  "entries_asleep m \<longleftrightarrow> entries_list m = [] \<and> wild_list m = [] \<and> count_of_entries m = 0 \<and> index_ok (root_of_entries_tree m) \<and>
     (\<forall>c. index_of (root_of_entries_tree m) c = None) \<and> name_ok (root_of_named_entries_tree m) \<and> (\<forall>n. name_of (root_of_named_entries_tree m) n = None) \<and> heap_fresh m"

lemma asleep_of_mem:
  assumes "vol_mem s L K R X" "entries_list (em s) = []" "wild_list (em s) = []"
  shows "entries_asleep (em s)"
proof -
  have vi: "vol_index (em s) L K" by (rule mem_index [OF assms(1)])
  have "index_of (root_of_entries_tree (em s)) c \<noteq> Some a" "name_of (root_of_named_entries_tree (em s)) n \<noteq> Some a" for c n a
    using vi assms(2) by (auto simp: vol_index_def)
  then have "\<forall>c. index_of (root_of_entries_tree (em s)) c = None" "\<forall>n. name_of (root_of_named_entries_tree (em s)) n = None" by (metis option.exhaust)+
  then show ?thesis using vi assms by (simp add: entries_asleep_def vol_index_def vol_mem_def)
qed

lemma mem_of_asleep:
  assumes "entries_asleep (em s)" "busylist (vm (fsys s)) = []"
  shows "vol_mem s L K R {}"
  using assms by (simp add: entries_asleep_def vol_mem_def vol_index_def chains_ok_def chain_set_def busy_at_def)

lemma uninit_run:
  assumes v: "vol_inv ecc path s cs cc V L K R" and r: "\<forall>a \<in> set (entries_list (em s)). snd (R a) = 0"
  shows "\<exists>s' m. evfs_entries_uninit s = Some s' \<and> fsys s' = (fsys s)\<lparr>vm := m\<rparr> \<and> views_asleep m \<and> entries_asleep (em s')"
proof -
  obtain s1 Y where 1: "delete_all s = Some s1" "fsys s1 = fsys s" "entries_list (em s1) = []" "vol_mem s1 L K R Y" "wild_list (em s1) = []"
    using delete_all_run [OF vol_fs [OF v] vol_memory [OF v] r] v by (auto simp: vol_inv_def)
  obtain m where m: "evfs_view_uninit (fsys s) = Some ((fsys s)\<lparr>vm := m\<rparr>)" "views_asleep m" using view_uninit_run [OF fs_view [OF vol_fs [OF v]]] by blast
  show ?thesis using 1(1,2) m asleep_of_mem [OF 1(4,3,5)]
    by (intro exI [of _ "s1\<lparr>fsys := (fsys s)\<lparr>vm := m\<rparr>\<rparr>"] exI [of _ m]) (simp add: evfs_entries_uninit_def)
qed

section \<open>Files on the disk\<close>

text \<open>
  What a volume leaves on the disk: the heads \<^term>\<open>H\<close> are the first clusters of the chains \<^term>\<open>Ch\<close> of files with the names \<^term>\<open>Nm\<close> and the
  contents \<^term>\<open>Dt\<close>, and no other cluster looks busy.
\<close>

definition disk_files :: "(nat \<Rightarrow> bytes) \<Rightarrow> nat \<Rightarrow> nat \<Rightarrow> nat set \<Rightarrow> (nat \<Rightarrow> nat list) \<Rightarrow> (nat \<Rightarrow> bytes) \<Rightarrow> (nat \<Rightarrow> bytes) \<Rightarrow> bool" where
  "disk_files V m cc H Ch Nm Dt \<longleftrightarrow>
     (\<forall>h \<in> H. hd (Ch h) = h \<and> distinct (Ch h) \<and> client_name (Nm h) \<and> file_on V m (Ch h) (pad_key (Nm h)) (Dt h) \<and> (\<forall>c \<in> set (Ch h). 0 < c \<and> c < cc)) \<and>
     (\<forall>h \<in> H. \<forall>g \<in> H. h \<noteq> g \<longrightarrow> set (Ch h) \<inter> set (Ch g) = {} \<and> Nm h \<noteq> Nm g) \<and>
     (\<forall>c. 0 < c \<longrightarrow> c < cc \<longrightarrow> evfs_cluster_looks_like_busy (hd_of V c) = (\<exists>h \<in> H. c \<in> set (Ch h)))"

lemma files_names:
  assumes f: "files_with R ecc path s cs cc V L N D" and "a \<in> set (entries_list (em s))" "b \<in> set (entries_list (em s))" "N a = N b"
  shows "a = b"
proof -
  have vi: "vol_index (em s) L (\<lambda>a. pad_key (N a))" by (rule mem_index [OF vol_memory [OF files_vol [OF f]]])
  have k: "client_name (N a)" using f assms(2) by (simp add: files_with_def)
  have "name_of_block (pad_key (N a)) \<noteq> noname" using pad_key_name [of "N a"] k by (simp add: client_name_def)
  then have "name_of (root_of_named_entries_tree (em s)) (name_of_block (pad_key (N a))) = Some c" if "c \<in> set (entries_list (em s))" "N c = N a" for c
    using vi that unfolding vol_index_def by metis
  from this [OF assms(2) refl] this [OF assms(3)] show ?thesis using assms(4) by simp
qed

lemma chain_looks_busy:
  assumes "file_on V m cl k d" "c \<in> set cl" "0 < hd cl"
  shows "evfs_cluster_looks_like_busy (hd_of V c)" "data_seg_size (hd_of V (hd cl)) = int (length k + length d) - 2 ^ 31" "c \<noteq> hd cl \<Longrightarrow> 0 \<le> data_seg_size (hd_of V c)"
proof -
  have f: "cl \<noteq> []" "\<And>i. i < length cl \<Longrightarrow> hd_of V (cl ! i) = file_head m cl (k @ d) (length k + length d) i" using assms(1) by (auto simp: file_on_def file_part_def)
  obtain i where i: "i < length cl" "c = cl ! i" using assms(2) by (auto simp: in_set_conv_nth)
  show "evfs_cluster_looks_like_busy (hd_of V c)" using f(2) [OF i(1)] i(2) assms(3) by (simp add: file_head_def evfs_cluster_looks_like_busy_def)
  show "data_seg_size (hd_of V (hd cl)) = int (length k + length d) - 2 ^ 31" using f(2) [of 0] f(1) by (simp add: file_head_def hd_conv_nth)
  show "0 \<le> data_seg_size (hd_of V c)" if "c \<noteq> hd cl" using f(2) [OF i(1)] i f(1) that by (cases i) (auto simp: file_head_def hd_conv_nth)
qed

lemma looks_busy_at:
  assumes inv: "view_inv ecc path f cs cc V" and c: "0 < c" "c < cc" "evfs_cluster_looks_like_busy (hd_of V c)"
  shows "\<exists>v. busy_at f v c"
proof -
  have ic: "0 < int c" "int c < int cc" using c by simp_all
  have "index_of (root_of_view_tree (vm f)) (int c) \<noteq> None" using inv_shelf [OF inv] ic unfolding view_shelf_def by blast
  then obtain w where "index_of (root_of_view_tree (vm f)) (int c) = Some w" by blast
  then obtain x where w: "w \<in> set (busylist (vm f)) \<union> set (idlelist (vm f))" "get_view f w = Some x" "viewid x = int c"
    unfolding shelf_view_index [OF inv_shelf [OF inv]] by blast
  have "w \<notin> set (idlelist (vm f))"
  proof
    assume "w \<in> set (idlelist (vm f))"
    then have "idle_bytes (V c)" using inv_idle [OF inv] w(2,3) by (fastforce simp: idle_ok_def)
    moreover have "12 \<le> length (V c)" using serving_length [OF inv_serving [OF inv], of c] c by auto
    ultimately show False using c(3) head_at_Some [of "V c"] by (auto simp: idle_bytes_def hd_of_def)
  qed
  then show ?thesis using w by (auto simp: busy_at_def)
qed

lemma files_disk:
  assumes f: "files_with R ecc path s cs cc V L N D"
  shows "\<exists>Ch Nm Dt. disk_files V (cs - 12) cc ((\<lambda>a. hd (L a)) ` set (entries_list (em s))) Ch Nm Dt \<and>
    (\<forall>a \<in> set (entries_list (em s)). Ch (hd (L a)) = L a \<and> Nm (hd (L a)) = N a \<and> Dt (hd (L a)) = D a)"
proof -
  note v = files_vol [OF f]
  let ?as = "set (entries_list (em s))"
  define ad where "ad = inv_into ?as (\<lambda>a. hd (L a))"
  have dis: "set (L a) \<inter> set (L b) = {}" if "a \<in> ?as" "b \<in> ?as" "a \<noteq> b" for a b
    using mem_chains [OF vol_memory [OF v]] that unfolding chains_ok_def by blast
  have inj: "inj_on (\<lambda>a. hd (L a)) ?as" using dis vol_chain(3) [OF v] by (intro inj_onI) (metis disjoint_iff)
  have ad: "ad (hd (L a)) = a" if "a \<in> ?as" for a unfolding ad_def using inv_into_f_f [OF inj that] .
  have rng: "0 < c \<and> c < cc" if a: "a \<in> ?as" "c \<in> set (L a)" for a c
  proof -
    obtain w where "busy_at (fsys s) w c" using chain_view [OF mem_entry [OF vol_memory [OF v] a(1)] a(2)] by blast
    then show ?thesis using busy_cluster(1,2) [OF vol_fs [OF v]] by blast
  qed
  have fo: "file_on V (cs - 12) (L a) (pad_key (N a)) (D a)" "client_name (N a)" if "a \<in> ?as" for a using f that by (simp_all add: files_with_def)
  have looks: "evfs_cluster_looks_like_busy (hd_of V c) = (\<exists>a \<in> ?as. c \<in> set (L a))" if c: "0 < c" "c < cc" for c
  proof
    assume b: "evfs_cluster_looks_like_busy (hd_of V c)"
    show "\<exists>a \<in> ?as. c \<in> set (L a)"
    proof (rule ccontr)
      assume "\<not> (\<exists>a \<in> ?as. c \<in> set (L a))"
      then have nb: "\<not> busy_at (fsys s) w c" for w using mem_busy [OF vol_memory [OF v], of c] by (auto simp: chain_set_def)
      show False using looks_busy_at [OF fs_view [OF vol_fs [OF v]] c b] nb by blast
    qed
  next
    assume "\<exists>a \<in> ?as. c \<in> set (L a)"
    then obtain a where a: "a \<in> ?as" "c \<in> set (L a)" by blast
    show "evfs_cluster_looks_like_busy (hd_of V c)" by (rule chain_looks_busy(1) [OF fo(1) [OF a(1)] a(2)]) (use rng [OF a(1)] vol_chain(3) [OF v a(1)] in blast)
  qed
  have nn: "N a \<noteq> N b" if "a \<in> ?as" "b \<in> ?as" "hd (L a) \<noteq> hd (L b)" for a b using files_names [OF f that(1,2)] that(3) by auto
  have "disk_files V (cs - 12) cc ((\<lambda>a. hd (L a)) ` ?as) (\<lambda>c. L (ad c)) (\<lambda>c. N (ad c)) (\<lambda>c. D (ad c))"
    unfolding disk_files_def using looks dis rng fo ad vol_chain(2) [OF v] nn by auto
  then show ?thesis using ad by (intro exI [of _ "\<lambda>c. L (ad c)"] exI [of _ "\<lambda>c. N (ad c)"] exI [of _ "\<lambda>c. D (ad c)"]) auto
qed


section \<open>Recognizing\<close>

text \<open>The callback acts on the storage and on its own state only; the views are sorted out as without it.\<close>

definition moved :: "nat \<Rightarrow> evfs_fs \<Rightarrow> evfs_fs" where
  "moved a f = f\<lparr>vm := (vm f)\<lparr>idlelist := remove1 a (idlelist (vm f)), count_of_idle_views := count_of_idle_views (vm f) - 1,
     busylist := busylist (vm f) @ [a], count_of_busy_views := count_of_busy_views (vm f) + 1\<rparr>\<rparr>"

definition at_stage :: "evfs_view_mgr \<Rightarrow> nat list \<Rightarrow> evfs_fs \<Rightarrow> bool" where
  "at_stage m B f \<longleftrightarrow> (\<exists>I ni nb. vm f = m\<lparr>idlelist := I, count_of_idle_views := ni, busylist := B, count_of_busy_views := nb\<rparr>)"

lemma fs_order: "f\<lparr>store := c, vm := m\<rparr> = f\<lparr>vm := m, store := c\<rparr>"
  by simp

lemma recognize_callback_spec:
  assumes v: "\<And>a. a \<in> set as \<Longrightarrow> views m a \<noteq> None"
    and step: "\<And>a B f w. a \<in> set as \<Longrightarrow> evfs_cluster_looks_like_busy (cluster (the (views m a))) \<Longrightarrow> a \<notin> set B \<Longrightarrow> at_stage m B f \<Longrightarrow> P B f w \<Longrightarrow>
      \<exists>c w'. cb a (moved a f, w) = Some ((moved a f)\<lparr>store := c\<rparr>, w') \<and> P (B @ [a]) ((moved a f)\<lparr>store := c\<rparr>) w'"
    and "at_stage m B f" "P B f w" "distinct (B @ as)"
  defines "looks \<equiv> \<lambda>a. evfs_cluster_looks_like_busy (cluster (the (views m a)))"
  shows "\<exists>g c w'. recognize_loop None as (f, ()) = Some (g, ()) \<and> recognize_loop (Some cb) as (f, w) = Some (g\<lparr>store := c\<rparr>, w') \<and>
    at_stage m (B @ filter looks as) g \<and> P (B @ filter looks as) (g\<lparr>store := c\<rparr>) w'"
  using assms(1-5)
proof (induction as arbitrary: B f w)
  case Nil
  then show ?case by (intro exI [of _ f] exI [of _ "store f"] exI [of _ w]) simp
next
  case (Cons a as)
  obtain x where x: "views m a = Some x" using Cons.prems(1) by fastforce
  have fx: "get_view f a = Some x" using Cons.prems(3) x by (auto simp: at_stage_def)
  show ?case
  proof (cases "looks a")
    case True
    then have lx: "evfs_cluster_looks_like_busy (cluster x)" by (simp add: looks_def x)
    obtain c w1 where c: "cb a (moved a f, w) = Some ((moved a f)\<lparr>store := c\<rparr>, w1)" "P (B @ [a]) ((moved a f)\<lparr>store := c\<rparr>) w1"
      using Cons.prems(2) [of a B f w] True Cons.prems(3-5) unfolding looks_def by auto
    let ?f = "(moved a f)\<lparr>store := c\<rparr>"
    have st: "at_stage m (B @ [a]) ?f" using Cons.prems(3) unfolding at_stage_def moved_def by fastforce
    obtain g d w' where g: "recognize_loop None as (?f, ()) = Some (g, ())" "recognize_loop (Some cb) as (?f, w1) = Some (g\<lparr>store := d\<rparr>, w')"
      "at_stage m ((B @ [a]) @ filter looks as) g" "P ((B @ [a]) @ filter looks as) (g\<lparr>store := d\<rparr>) w'"
      using Cons.IH [OF _ _ st c(2)] Cons.prems(1,2,5) by auto
    have rl: "recognize_loop None bs (h\<lparr>store := e\<rparr>, ()) = map_option (\<lambda>(h, u). (h\<lparr>store := e\<rparr>, u)) (recognize_loop None bs (h, ()))" for bs h e
      by (induction bs arbitrary: h) (auto simp: Let_def fs_order split: option.splits bind_splits)
    have "recognize_loop None as (moved a f, ()) = Some (g\<lparr>store := store f\<rparr>, ())"
      using rl [where bs = as and h = ?f and e = "store f"] g(1) by (simp add: moved_def)
    then have "recognize_loop None (a # as) (f, ()) = Some (g\<lparr>store := store f\<rparr>, ())" using fx lx by (simp add: Let_def moved_def)
    moreover have "recognize_loop (Some cb) (a # as) (f, w) = Some (g\<lparr>store := d\<rparr>, w')" using fx lx c(1) g(2) by (simp add: Let_def moved_def)
    moreover have "at_stage m ((B @ [a]) @ filter looks as) (g\<lparr>store := store f\<rparr>)" using g(3) by (simp add: at_stage_def)
    ultimately show ?thesis using g(4) True by (intro exI [of _ "g\<lparr>store := store f\<rparr>"] exI [of _ d] exI [of _ w']) simp
  next
    case False
    then have lx: "\<not> evfs_cluster_looks_like_busy (cluster x)" by (simp add: looks_def x)
    obtain g d w' where g: "recognize_loop None as (f, ()) = Some (g, ())" "recognize_loop (Some cb) as (f, w) = Some (g\<lparr>store := d\<rparr>, w')"
      "at_stage m (B @ filter looks as) g" "P (B @ filter looks as) (g\<lparr>store := d\<rparr>) w'"
      using Cons.IH [OF _ _ Cons.prems(3,4)] Cons.prems(1,2,5) by auto
    then show ?thesis using fx lx False by (intro exI [of _ g] exI [of _ d] exI [of _ w']) simp
  qed
qed

text \<open>A busy view whose copy of the head agrees with its cluster.\<close>

definition true_view :: "evfs_fs \<Rightarrow> (nat \<Rightarrow> bytes) \<Rightarrow> nat \<Rightarrow> nat \<Rightarrow> bool" where
  "true_view f V v c \<longleftrightarrow> (\<exists>x. get_view f v = Some x \<and> viewid x = int c \<and> cluster x = hd_of V c) \<and> 0 < total_cluster_count (vm f)"

lemma head_back: "12 \<le> length (V c) \<Longrightarrow> head_bytes (hd_of V c) @ drop 12 (V c) = V c"
  using head_at_Some [of "V c"] append_take_drop_id [of 12 "V c"] by (auto simp: hd_of_def)

lemma alloc_head_stored:
  assumes se: "serving ecc path (store (fsys s)) cs cc V" and t: "true_view (fsys s) V v c" and c: "0 < c" "c < cc" "44 \<le> cs"
    and h: "data_seg_size (hd_of V c) \<noteq> 0" "head_cluster_id (hd_of V c) = int c" and a: "a = ent_fresh (em s)"
  shows "\<exists>d. evfs_entries_alloc_head (Some v) None s = Some (Some a, put_ehead a \<lparr>ehead_viewid = int c, ehead_view = Some v, elements = [],
      count_of_elements = 0, ehead_refcnt = 0, io_refcnt = 0, ehead_state = kEvfsEntryNormal, hard_remove_on_detach = False, ehead_key = take 32 (body V c)\<rparr>
      (s\<lparr>fsys := (fsys s)\<lparr>store := d\<rparr>, em := (em s)\<lparr>ent_fresh := a + 1\<rparr>\<rparr>)) \<and> serving ecc path d cs cc V"
proof -
  obtain x where x: "get_view (fsys s) v = Some x" "viewid x = int c" "cluster x = hd_of V c" "0 < total_cluster_count (vm (fsys s))" using t by (auto simp: true_view_def)
  obtain b d1 where 1: "ent_malloc sizeof_ehead s = (Some b, s\<lparr>fsys := (fsys s)\<lparr>store := d1\<rparr>\<rparr>)" "serving ecc path d1 cs cc V"
    using malloc_serving [OF se, of sizeof_ehead] by (auto simp: sizeof_ehead_def)
  obtain d2 where 2: "evfs_cache_read_userdata (int c) (Some (replicate 32 0)) 0 32 d1 = Some (0, Some (take 32 (body V c)), d2)" "serving ecc path d2 cs cc V"
    using read_userdata_served [OF 1(2) c(1,2), of 0 32 "replicate 32 0"] c(3) by (auto simp: body_def)
  have l: "12 \<le> length (V c)" using serving_length [OF se c(2)] by simp
  obtain d3 where 3: "evfs_cache_write_head (int c) (Some (head_bytes (hd_of V c))) d2 = Some (0, d3)" "serving ecc path d3 cs cc V"
    using write_head_served [OF 2(2) c(1,2), of "head_bytes (hd_of V c)"] head_back [of V c, OF l] by auto
  have hc: "(hd_of V c)\<lparr>head_cluster_id := int c\<rparr> = hd_of V c" "x\<lparr>cluster := hd_of V c\<rparr> = x" using h(2) x(3) by (cases "hd_of V c"; cases x; simp)+
  have up: "(views (vm (fsys s)))(v \<mapsto> x) = views (vm (fsys s))" using fun_upd_triv [of "views (vm (fsys s))" v] unfolding x(1) .
  have rk: "read_key (Some v) (s\<lparr>fsys := (fsys s)\<lparr>store := d1\<rparr>, em := e\<rparr>) = Some (take 32 (body V c), s\<lparr>fsys := (fsys s)\<lparr>store := d2\<rparr>, em := e\<rparr>)" for e
    using x h(1) 2(1) by (simp add: read_key_def evfs_view_read_userdata_def MAX_ENTRY_NAME_LENGTH_def error_not_success)
  have sh: "evfs_view_set_head (Some v) None ((fsys s)\<lparr>store := d2\<rparr>) = Some (0, (fsys s)\<lparr>store := d3\<rparr>)"
  proof -
    have "(fsys s)\<lparr>vm := (vm (fsys s))\<lparr>views := (views (vm (fsys s)))(v \<mapsto> x\<lparr>cluster := hd_of V c\<rparr>)\<rparr>, store := d3\<rparr> = (fsys s)\<lparr>store := d3\<rparr>"
      unfolding hc(2) up by simp
    then show ?thesis using x(1-3) 3(1) hc(1) by (simp add: evfs_view_set_head_def set_cluster_def set_view_def write_view_head_def)
  qed
  have "evfs_entries_alloc_head (Some v) None s = Some (Some a, put_ehead a \<lparr>ehead_viewid = int c, ehead_view = Some v, elements = [],
      count_of_elements = 0, ehead_refcnt = 0, io_refcnt = 0, ehead_state = kEvfsEntryNormal, hard_remove_on_detach = False, ehead_key = take 32 (body V c)\<rparr>
      (s\<lparr>fsys := (fsys s)\<lparr>store := d3\<rparr>, em := (em s)\<lparr>ent_fresh := a + 1\<rparr>\<rparr>))"
    using 1(1) rk sh x(1,2) a by (simp add: evfs_entries_alloc_head_def fresh_addr_def on_fs_def vol_order evfs_view_get_viewid_def view_field_def put_ehead_def)
  then show ?thesis using 3(2) by blast
qed

lemma head_bit: "- (2 ^ 31) \<le> n \<Longrightarrow> n < 2 ^ 31 \<Longrightarrow> (word_of_int n :: u32) AND 0x80000000 \<noteq> 0 \<longleftrightarrow> n < 0"
proof -
  assume n: "- (2 ^ 31) \<le> n" "n < 2 ^ 31"
  have b: "(x AND 0x80000000 \<noteq> 0) = bit x 31" for x :: u32
  proof
    assume "bit x 31"
    then have "bit (x AND 0x80000000) 31" unfolding bit_and_iff top_bit by simp
    then show "x AND 0x80000000 \<noteq> 0" by auto
  next
    assume n: "x AND 0x80000000 \<noteq> 0"
    show "bit x 31"
    proof (rule ccontr)
      assume nb: "\<not> bit x 31"
      have "bit (x AND 0x80000000) k = bit (0 :: u32) k" for k unfolding bit_and_iff top_bit using nb by auto
      then have "x AND 0x80000000 = 0" by (intro bit_word_eqI)
      then show False using n by simp
    qed
  qed
  show ?thesis
  proof (cases "n < 0")
    case True
    have q: "(word_of_int n :: u32) = word_of_int (n + 2 ^ 31) OR 0x80000000" using mark_word [of "n + 2 ^ 31"] n True by simp
    have "bit (word_of_int n :: u32) 31" unfolding q bit_or_iff top_bit by simp
    then show ?thesis using True b by simp
  next
    case False
    then show ?thesis using low_bits [of n] n b by simp
  qed
qed

text \<open>Wild elements, and what has been recognized so far.\<close>

definition wild_on :: "evfs_vol \<Rightarrow> nat \<Rightarrow> nat \<Rightarrow> bool" where
  "wild_on s e c \<longleftrightarrow> (\<exists>v j. get_elem s e = Some \<lparr>elem_viewid = int c, elem_view = Some v, entry_head = j\<rparr> \<and> (\<forall>b. j \<noteq> HeadAt b) \<and> busy_at (fsys s) v c)"

definition recognized :: "nat set \<Rightarrow> (nat \<Rightarrow> bytes) \<Rightarrow> evfs_vol \<Rightarrow> bool" where
  "recognized H Nm s \<longleftrightarrow> (\<exists>C wl. vol_mem s (\<lambda>a. [C a]) (\<lambda>a. pad_key (Nm (C a))) (\<lambda>_. (0, 0)) (set wl) \<and> list_all2 (wild_on s) (wild_list (em s)) wl \<and>
     C ` set (entries_list (em s)) \<subseteq> H \<and> set wl \<inter> H = {} \<and> distinct wl)"

lemma wild_mono:
  assumes "list_all2 (wild_on s) es wl" "\<And>e. e \<in> set es \<Longrightarrow> get_elem s' e = get_elem s e" "\<And>w d. busy_at (fsys s) w d \<Longrightarrow> busy_at (fsys s') w d"
  shows "list_all2 (wild_on s') es wl"
  by (rule list.rel_mono_strong [OF assms(1)]) (use assms(2,3) in \<open>fastforce simp: wild_on_def\<close>)

lemma mem_new_wild:
  assumes m: "vol_mem s L K R X" and e: "e = ent_fresh (em s)"
  shows "vol_mem (s\<lparr>em := (em s)\<lparr>ent_fresh := e + 1, elems := (elems (em s))(e \<mapsto> x), wild_list := wl, count_of_wild := n\<rparr>\<rparr>) L K R X"
    (is "vol_mem ?s L K R X")
proof -
  have fr: "heap_fresh (em s)" using m by (simp add: vol_mem_def)
  have eo: "elem_on s b y d \<Longrightarrow> elem_on ?s b y d" for b y d using fr e by (auto simp: elem_on_def heap_fresh_def)
  have "entry_on ?s b (L b) (K b) (R b)" if "b \<in> set (entries_list (em s))" for b
    using mem_entry [OF m that] list_all2_mono [of "elem_on s b" _ _ "elem_on ?s b"] eo unfolding entry_on_def by fastforce
  moreover have "vol_index (em ?s) L K" using mem_index [OF m] by (simp add: vol_index_def)
  moreover have "heap_fresh (em ?s)" using fr e by (auto simp: heap_fresh_def less_Suc_eq)
  ultimately show ?thesis using m by (simp add: vol_mem_def)
qed

lemma disk_head:
  assumes d: "disk_files V m cc H Ch Nm Dt" and h: "h \<in> H" and m: "32 \<le> m"
  shows "take 32 (body V h) = pad_key (Nm h)" "head_cluster_id (hd_of V h) = int h" "data_seg_size (hd_of V h) = 32 + int (length (Dt h)) - 2 ^ 31" "h \<in> set (Ch h)"
proof -
  let ?P = "pad_key (Nm h) @ Dt h"
  have f: "hd (Ch h) = h" "client_name (Nm h)" "file_on V m (Ch h) (pad_key (Nm h)) (Dt h)" "\<forall>c \<in> set (Ch h). 0 < c \<and> c < cc" using d h by (auto simp: disk_files_def)
  have k: "length (pad_key (Nm h)) = 32" using pad_key_ok [of "Nm h"] f(2) by (simp add: client_name_def key_ok_def)
  have ne: "Ch h \<noteq> []" using f(3) by (simp add: file_on_def file_part_def)
  have h0: "Ch h ! 0 = h" using f(1) ne by (simp add: hd_conv_nth)
  have p: "hd_of V h = file_head m (Ch h) ?P (32 + length (Dt h)) 0" "take (length (block ?P m 0)) (body V h) = block ?P m 0"
    using f(3) k ne h0 unfolding file_on_def file_part_def by auto
  show "head_cluster_id (hd_of V h) = int h" "data_seg_size (hd_of V h) = 32 + int (length (Dt h)) - 2 ^ 31" using p(1) f(1) by (simp_all add: file_head_def)
  have lb: "length (block ?P m 0) = min m (32 + length (Dt h))" using k by (simp add: block_length)
  have "take 32 (take (length (block ?P m 0)) (body V h)) = take 32 (block ?P m 0)" by (simp only: p(2))
  moreover have "take 32 (block ?P m 0) = pad_key (Nm h)" using m k by (simp add: block_def)
  moreover have "take 32 (take (length (block ?P m 0)) (body V h)) = take 32 (body V h)" using lb m by (simp add: min_def)
  ultimately show "take 32 (body V h) = pad_key (Nm h)" by simp
  show "h \<in> set (Ch h)" using ne f(1) hd_in_set by metis
qed

lemma disk_element:
  assumes d: "disk_files V m cc H Ch Nm Dt" and c: "0 < c" "c < cc" "evfs_cluster_looks_like_busy (hd_of V c)" "c \<notin> H"
  shows "0 \<le> data_seg_size (hd_of V c)"
proof -
  obtain h where h: "h \<in> H" "c \<in> set (Ch h)" using d c(1-3) unfolding disk_files_def by blast
  have f: "file_on V m (Ch h) (pad_key (Nm h)) (Dt h)" "hd (Ch h) = h" "\<forall>c \<in> set (Ch h). 0 < c \<and> c < cc" using d h(1) by (auto simp: disk_files_def)
  have "Ch h \<noteq> []" using h(2) by auto
  then have "0 < hd (Ch h)" using f(3) hd_in_set by blast
  then show ?thesis using chain_looks_busy(3) [OF f(1) h(2)] c(4) h(1) f(2) by auto
qed

lemma padded_inj:
  assumes "client_name k" "client_name k'" "name_of_block (pad_key k) = name_of_block (pad_key k')"
  shows "k = k'"
  using assms name_inj pad_key_name(2) by (metis client_name_def)

lemma recognize_head:
  assumes d: "disk_files V (cs - 12) cc H Ch Nm Dt" and cs: "44 \<le> cs" and se: "serving ecc path (store (fsys s)) cs cc V"
    and m: "vol_mem s (\<lambda>a. [C a]) (\<lambda>a. pad_key (Nm (C a))) (\<lambda>_. (0, 0)) X" and CH: "C ` set (entries_list (em s)) \<subseteq> H"
    and t: "true_view (fsys s) V v c" "busy_at (fsys s) v c" and c: "0 < c" "c < cc" "c \<in> H" "c \<in> X" "c \<notin> chain_set (entries_list (em s)) (\<lambda>a. [C a])"
    and D: "int (length (Dt c)) < 2 ^ 31 - 32"
  shows "\<exists>s' a d. evfs_entries_raw_recognize v s = Some s' \<and> fsys s' = (fsys s)\<lparr>store := d\<rparr> \<and> serving ecc path d cs cc V \<and>
    vol_mem s' (\<lambda>x. [(C(a := c)) x]) (\<lambda>x. pad_key (Nm ((C(a := c)) x))) (\<lambda>_. (0, 0)) (X - {c}) \<and>
    entries_list (em s') = entries_list (em s) @ [a] \<and> wild_list (em s') = wild_list (em s) \<and> elems (em s') = elems (em s)"
proof -
  have m32: "32 \<le> cs - 12" using cs by simp
  note dh = disk_head [OF d c(3) m32]
  have hn: "data_seg_size (hd_of V c) < 0" "- (2 ^ 31) \<le> data_seg_size (hd_of V c)" using dh(3) D by simp_all
  have lh: "evfs_view_looks_like_head (Some v) (fsys s) = Some True"
    using t(1) head_bit [of "data_seg_size (hd_of V c)"] hn by (auto simp: evfs_view_looks_like_head_def true_view_def)
  let ?a = "ent_fresh (em s)"
  let ?h = "\<lparr>ehead_viewid = int c, ehead_view = Some v, elements = [], count_of_elements = 0, ehead_refcnt = 0, io_refcnt = 0, ehead_state = kEvfsEntryNormal,
    hard_remove_on_detach = False, ehead_key = pad_key (Nm c)\<rparr>"
  obtain e where e: "evfs_entries_alloc_head (Some v) None s =
      Some (Some ?a, put_ehead ?a ?h (s\<lparr>fsys := (fsys s)\<lparr>store := e\<rparr>, em := (em s)\<lparr>ent_fresh := ?a + 1\<rparr>\<rparr>))" "serving ecc path e cs cc V"
    using alloc_head_stored [OF se t(1) c(1,2) cs _ dh(2) refl] hn(1) dh(1) by auto
  let ?f = "(fsys s)\<lparr>store := e\<rparr>"
  let ?s = "put_ehead ?a ?h (s\<lparr>fsys := ?f, em := (em s)\<lparr>ent_fresh := ?a + 1\<rparr>\<rparr>)"
  have "vol_mem (s\<lparr>fsys := ?f\<rparr>) (\<lambda>a. [C a]) (\<lambda>a. pad_key (Nm (C a))) (\<lambda>_. (0, 0)) X" using m vol_mem_views [of s ?f] by simp
  from mem_new_head [OF this, of ?a ?h] have ms: "vol_mem ?s (\<lambda>a. [C a]) (\<lambda>a. pad_key (Nm (C a))) (\<lambda>_. (0, 0)) X" by simp
  have na: "?a \<notin> set (entries_list (em s))" using heads_fresh [OF m] by blast
  have cn: "client_name (Nm h)" if "h \<in> H" for h using d that by (simp add: disk_files_def)
  have ko: "key_ok (pad_key (Nm c))" using cn [OF c(3)] pad_key_ok by (simp add: client_name_def)
  have nm: "name_of (root_of_named_entries_tree (em s)) (name_of_block (pad_key (Nm c))) = None"
  proof (rule ccontr)
    assume "\<not> ?thesis"
    then obtain b where "name_of (root_of_named_entries_tree (em s)) (name_of_block (pad_key (Nm c))) = Some b" by blast
    then have b: "b \<in> set (entries_list (em s))" "name_of_block (pad_key (Nm c)) = name_of_block (pad_key (Nm (C b)))" using mem_index [OF m] unfolding vol_index_def by blast+
    have bH: "C b \<in> H" using b(1) CH by blast
    have "Nm c = Nm (C b)" by (rule padded_inj [OF cn [OF c(3)] cn [OF bH] b(2)])
    then have "C b = c" using d bH c(3) unfolding disk_files_def by metis
    then show False using c(5) b(1) by (auto simp: chain_set_def)
  qed
  have b: "busy_at (fsys ?s) v c" using t(2) by (simp add: put_ehead_def busy_at_def)
  have gh: "get_ehead ?s ?a = Some ?h" by (simp add: put_ehead_def)
  obtain s' where s': "evfs_entries_insert_head ?a ?s = Some s'" "fsys s' = ?f" "entries_list (em s') = entries_list (em s) @ [?a]"
    "vol_mem s' ((\<lambda>a. [C a])(?a := [c])) ((\<lambda>a. pad_key (Nm (C a)))(?a := pad_key (Nm c))) ((\<lambda>_. (0, 0))(?a := (0, 0))) (X - {c})"
    "wild_list (em s') = wild_list (em s)" "elems (em s') = elems (em s)"
    using mem_insert [OF ms _ gh b c(4)] na c(5) ko nm by (auto simp: put_ehead_def simp del: fun_upd_apply)
  have fe: "(\<lambda>a. [C a])(?a := [c]) = (\<lambda>x. [(C(?a := c)) x])" "(\<lambda>a. pad_key (Nm (C a)))(?a := pad_key (Nm c)) = (\<lambda>x. pad_key (Nm ((C(?a := c)) x)))"
    "(\<lambda>_. (0 :: int, 0 :: int))(?a := (0, 0)) = (\<lambda>_. (0, 0))" by auto
  have "evfs_entries_raw_recognize v s = Some s'" using lh e(1) s'(1) by (simp add: evfs_entries_raw_recognize_def)
  then show ?thesis using s'(2,3,5,6) s'(4) [unfolded fe] e(2) by blast
qed

lemma recognize_wild:
  assumes se: "serving ecc path (store (fsys s)) cs cc V" and m: "vol_mem s L K R X"
    and t: "true_view (fsys s) V v c" "busy_at (fsys s) v c" and h: "0 \<le> data_seg_size (hd_of V c)" "data_seg_size (hd_of V c) < 2 ^ 31"
  shows "\<exists>s' e d. evfs_entries_raw_recognize v s = Some s' \<and> fsys s' = (fsys s)\<lparr>store := d\<rparr> \<and> serving ecc path d cs cc V \<and> vol_mem s' L K R X \<and>
    entries_list (em s') = entries_list (em s) \<and> wild_list (em s') = wild_list (em s) @ [e] \<and> wild_on s' e c \<and> (\<forall>x < ent_fresh (em s). get_elem s' x = get_elem s x)"
proof -
  have lh: "evfs_view_looks_like_head (Some v) (fsys s) = Some False"
    using t(1) head_bit [of "data_seg_size (hd_of V c)"] h by (auto simp: evfs_view_looks_like_head_def true_view_def)
  obtain b d where b: "ent_malloc sizeof_element s = (Some b, s\<lparr>fsys := (fsys s)\<lparr>store := d\<rparr>\<rparr>)" "length b = 40" "serving ecc path d cs cc V"
    using malloc_serving [OF se, of sizeof_element] by (auto simp: sizeof_element_def)
  let ?f = "(fsys s)\<lparr>store := d\<rparr>" and ?e = "ent_fresh (em s)"
  let ?x = "\<lparr>elem_viewid = int c, elem_view = Some v, entry_head = (if take 8 (drop 16 b) = replicate 8 0 then NullHead else JunkHead)\<rparr>"
  let ?s = "s\<lparr>fsys := ?f, em := (em s)\<lparr>ent_fresh := ?e + 1, elems := (elems (em s))(?e \<mapsto> ?x), wild_list := wild_list (em s) @ [?e], count_of_wild := count_of_wild (em s) + 1\<rparr>\<rparr>"
  have "evfs_view_get_viewid (Some v) ?f = Some (int c)" using t(1) by (auto simp: evfs_view_get_viewid_def view_field_def true_view_def)
  then have "evfs_entries_raw_recognize v s = Some ?s"
    using lh b(1,2) by (simp add: evfs_entries_raw_recognize_def fresh_addr_def put_elem_def evfs_entries_insert_wild_def mem_read_def)
  moreover have "vol_mem (s\<lparr>fsys := ?f\<rparr>) L K R X" using m vol_mem_views [of s ?f] by simp
  from mem_new_wild [OF this, of ?e] have "vol_mem ?s L K R X" by simp
  moreover have "wild_on ?s ?e c" using t(2) by (simp add: wild_on_def busy_at_def)
  ultimately show ?thesis using b(3) by (intro exI [of _ ?s] exI [of _ ?e] exI [of _ d]) simp
qed

lemma vol_parts: "\<lparr>fsys = fsys s, em = em s\<rparr> = s"
  by simp

lemma recognized_step:
  assumes d: "disk_files V (cs - 12) cc H Ch Nm Dt" and cs: "44 \<le> cs" and D: "\<forall>h \<in> H. int (length (Dt h)) < 2 ^ 31 - 32"
    and se: "serving ecc path (store f) cs cc V" and r: "recognized H Nm \<lparr>fsys = f, em = w\<rparr>"
    and mb: "more_busy f f1 v c" "\<And>u. \<not> busy_at f u c" and t: "true_view f1 V v c" "store f1 = store f"
    and c: "0 < c" "c < cc" "evfs_cluster_looks_like_busy (hd_of V c)"
  shows "\<exists>e w'. recognize_callback v (f1, w) = Some (f1\<lparr>store := e\<rparr>, w') \<and> serving ecc path e cs cc V \<and> recognized H Nm \<lparr>fsys = f1\<lparr>store := e\<rparr>, em = w'\<rparr>"
proof -
  let ?s = "\<lparr>fsys = f, em = w\<rparr>" and ?s1 = "\<lparr>fsys = f1, em = w\<rparr>"
  obtain C wl where C: "vol_mem ?s (\<lambda>a. [C a]) (\<lambda>a. pad_key (Nm (C a))) (\<lambda>_. (0, 0)) (set wl)" "list_all2 (wild_on ?s) (wild_list w) wl"
    "C ` set (entries_list w) \<subseteq> H" "set wl \<inter> H = {}" "distinct wl" using r by (auto simp: recognized_def)
  have m1: "vol_mem ?s1 (\<lambda>a. [C a]) (\<lambda>a. pad_key (Nm (C a))) (\<lambda>_. (0, 0)) (insert c (set wl))" using mem_acquired [OF C(1), of f1 v c] mb(1) by simp
  have nc: "c \<notin> chain_set (entries_list w) (\<lambda>a. [C a])" "c \<notin> set wl" using mem_busy [OF C(1), of c] mb(2) by auto
  have bv: "busy_at f1 v c" and bo: "\<And>u b. busy_at f u b \<Longrightarrow> busy_at f1 u b" using mb(1) by (auto simp: more_busy_def)
  have se1: "serving ecc path (store (fsys ?s1)) cs cc V" using se t(2) by simp
  have wl1: "list_all2 (wild_on ?s1) (wild_list w) wl" by (rule wild_mono [OF C(2)]) (use bo in simp_all)
  show ?thesis
  proof (cases "c \<in> H")
    case True
    obtain s' a e where s': "evfs_entries_raw_recognize v ?s1 = Some s'" "fsys s' = f1\<lparr>store := e\<rparr>" "serving ecc path e cs cc V"
      "vol_mem s' (\<lambda>x. [(C(a := c)) x]) (\<lambda>x. pad_key (Nm ((C(a := c)) x))) (\<lambda>_. (0, 0)) (insert c (set wl) - {c})"
      "entries_list (em s') = entries_list w @ [a]" "wild_list (em s') = wild_list w" "elems (em s') = elems w"
      using recognize_head [OF d cs se1 m1, of v c] C(3) t(1) bv c True nc(1) D by auto
    have X: "insert c (set wl) - {c} = set wl" using nc(2) by auto
    have "list_all2 (wild_on s') (wild_list w) wl" by (rule wild_mono [OF wl1]) (simp_all add: s'(2,7) busy_at_def)
    moreover have "(C(a := c)) ` set (entries_list w @ [a]) \<subseteq> H" using C(3) True by auto
    ultimately have "recognized H Nm s'" unfolding recognized_def using s'(4) [unfolded X] C(4,5) s'(5,6)
      by (intro exI [of _ "C(a := c)"] exI [of _ wl]) (simp del: fun_upd_apply)
    then have "recognized H Nm \<lparr>fsys = f1\<lparr>store := e\<rparr>, em = em s'\<rparr>" unfolding s'(2) [symmetric] vol_parts .
    then show ?thesis using s'(1-3) by (intro exI [of _ e] exI [of _ "em s'"]) (simp add: recognize_callback_def)
  next
    case False
    have hr: "head_range (hd_of V c)" using hd_range [of V c] serving_length [OF se c(2)] by simp
    obtain s' e i where s': "evfs_entries_raw_recognize v ?s1 = Some s'" "fsys s' = f1\<lparr>store := i\<rparr>" "serving ecc path i cs cc V"
      "vol_mem s' (\<lambda>a. [C a]) (\<lambda>a. pad_key (Nm (C a))) (\<lambda>_. (0, 0)) (insert c (set wl))"
      "entries_list (em s') = entries_list w" "wild_list (em s') = wild_list w @ [e]" "wild_on s' e c" "\<forall>x < ent_fresh w. get_elem s' x = elems w x"
      using recognize_wild [OF se1 m1, of v c] t(1) bv disk_element [OF d c False] hr by (auto simp: head_range_def)
    have "heap_fresh w" using C(1) by (simp add: vol_mem_def)
    then have "x < ent_fresh w" if "x \<in> set (wild_list w)" for x
      using C(2) that by (auto simp: list_all2_conv_all_nth in_set_conv_nth wild_on_def heap_fresh_def dom_def)
    then have "list_all2 (wild_on s') (wild_list w) wl" by (intro wild_mono [OF wl1]) (use s'(8) in \<open>simp_all add: s'(2) busy_at_def\<close>)
    then have "list_all2 (wild_on s') (wild_list w @ [e]) (wl @ [c])" using s'(7) by (simp add: list_all2_appendI)
    then have "recognized H Nm s'" unfolding recognized_def using s'(4) C(3-5) s'(5,6) nc(2) False by (intro exI [of _ C] exI [of _ "wl @ [c]"]) simp
    then have "recognized H Nm \<lparr>fsys = f1\<lparr>store := i\<rparr>, em = em s'\<rparr>" unfolding s'(2) [symmetric] vol_parts .
    then show ?thesis using s'(1-3) by (intro exI [of _ i] exI [of _ "em s'"]) (simp add: recognize_callback_def)
  qed
qed

lemma load_recognizes:
  assumes a: "views_asleep (vm (fsys s))" "serving ecc path (store (fsys s)) cs cc V" "store_holds ecc path (env (store (fsys s))) cs cc V" "1 < cc" "length buf = 12"
    and e: "entries_asleep (em s)" and d: "disk_files V (cs - 12) cc H Ch Nm Dt" and cs: "44 \<le> cs" and D: "\<forall>h \<in> H. int (length (Dt h)) < 2 ^ 31 - 32"
  shows "\<exists>f w. evfs_view_load buf (Some recognize_callback) (fsys s, em s) = Some (0, f, w) \<and> view_inv ecc path f cs cc V \<and> all_look_busy (vm f) \<and>
    recognized H Nm \<lparr>fsys = f, em = w\<rparr>"
proof -
  obtain f1 where 1: "growing ecc path (loaded V) f1 cs cc V cc" "total_cluster_count (vm f1) = int cc - 1"
    "\<forall>on_loaded w'. evfs_view_load buf on_loaded (fsys s, w') =
      do { (s, w) \<leftarrow> recognize_loop on_loaded (idlelist (vm f1)) (f1, w'); Some (0, s\<lparr>vm := sized cs (vm s)\<rparr>, w :: evfs_entries_mgr) }"
    using load_begin [OF a] by (elim exE conjE) (rule that)
  let ?I = "idlelist (vm f1)" and ?m = "vm f1"
  have sh: "view_shelf (root_of_view_tree ?m) [] ?I (views ?m) cc" and l: "\<forall>a \<in> set ?I. \<exists>v. views ?m a = Some v \<and> loaded V v"
    and se: "serving ecc path (store f1) cs cc V" and B0: "busylist ?m = []" "count_of_busy_views ?m = 0" using 1(1) by (simp_all add: growing_def)
  have dI: "distinct ([] @ ?I)" using sh by (simp add: view_shelf_def)
  define P where "P = (\<lambda>B f w. set B \<subseteq> set ?I \<and> serving ecc path (store f) cs cc V \<and> recognized H Nm \<lparr>fsys = f, em = w\<rparr>)"
  have P0: "P [] f1 (em s)"
  proof -
    have "vol_mem \<lparr>fsys = f1, em = em s\<rparr> (\<lambda>a. [a]) (\<lambda>a. pad_key (Nm a)) (\<lambda>_. (0, 0)) {}" by (rule mem_of_asleep) (use e B0 in simp_all)
    then have "recognized H Nm \<lparr>fsys = f1, em = em s\<rparr>" unfolding recognized_def
      by (intro exI [of _ "\<lambda>a. a"] exI [of _ "[]"]) (use e in \<open>simp add: entries_asleep_def\<close>)
    then show ?thesis using se by (simp add: P_def)
  qed
  have st: "at_stage ?m [] f1" unfolding at_stage_def using B0 by (intro exI [of _ ?I] exI [of _ "count_of_idle_views ?m"] exI [of _ 0]) simp
  have step: "\<exists>c w'. recognize_callback a (moved a f, w) = Some ((moved a f)\<lparr>store := c\<rparr>, w') \<and> P (B @ [a]) ((moved a f)\<lparr>store := c\<rparr>) w'"
    if a: "a \<in> set ?I" "evfs_cluster_looks_like_busy (cluster (the (views ?m a)))" "a \<notin> set B" "at_stage ?m B f" "P B f w" for a B f w
  proof -
    obtain x where x: "views ?m a = Some x" "loaded V x" using l a(1) by blast
    have am: "a \<in> set [] \<union> set ?I" using a(1) by simp
    note i = shelf_view_id [OF sh am x(1)]
    define c where "c = nat (viewid x)"
    have cx: "viewid x = int c" "0 < c" "c < cc" using i by (simp_all add: c_def)
    have vf: "views (vm f) = views ?m" "busylist (vm f) = B" "total_cluster_count (vm f) = total_cluster_count ?m" using a(4) by (auto simp: at_stage_def)
    have nb: "\<not> busy_at f u c" for u
    proof
      assume "busy_at f u c"
      then obtain y where y: "u \<in> set B" "views ?m u = Some y" "viewid y = int c" using vf by (auto simp: busy_at_def)
      then have "u \<in> set [] \<union> set ?I" using a(5) by (auto simp: P_def)
      then have "u = a" using shelf_view_inj [OF sh _ am y(2) x(1)] y(3) cx(1) by auto
      then show False using y(1) a(3) by simp
    qed
    have mb: "more_busy f (moved a f) a c" using vf x(1) cx(1) by (auto simp: more_busy_def moved_def busy_at_def)
    have hx: "cluster x = hd_of V c" using x(2) by (simp add: loaded_def hd_of_def c_def)
    have tv: "true_view (moved a f) V a c" using vf x(1) cx(1) hx 1(2) \<open>1 < cc\<close> by (simp add: true_view_def moved_def)
    have lk: "evfs_cluster_looks_like_busy (hd_of V c)" using a(2) x(1) hx by simp
    have q: "store (moved a f) = store f" by (simp add: moved_def)
    show ?thesis using recognized_step [OF d cs D _ _ mb nb tv q cx(2,3) lk, of ecc path w] a(1,5) unfolding P_def by auto
  qed
  have "\<exists>g c w'. recognize_loop None ?I (f1, ()) = Some (g, ()) \<and> recognize_loop (Some recognize_callback) ?I (f1, em s) = Some (g\<lparr>store := c\<rparr>, w') \<and>
    at_stage ?m ([] @ filter (\<lambda>a. evfs_cluster_looks_like_busy (cluster (the (views ?m a)))) ?I) g \<and>
    P ([] @ filter (\<lambda>a. evfs_cluster_looks_like_busy (cluster (the (views ?m a)))) ?I) (g\<lparr>store := c\<rparr>) w'"
    by (rule recognize_callback_spec [OF _ step st P0 dI]) (use l in auto)
  then obtain g c w' B where g: "recognize_loop None ?I (f1, ()) = Some (g, ())" "recognize_loop (Some recognize_callback) ?I (f1, em s) = Some (g\<lparr>store := c\<rparr>, w')"
    "P B (g\<lparr>store := c\<rparr>) w'" by blast
  have gv: "g = f1\<lparr>vm := sorted_out ?m\<rparr>" using g(1) recognize_sorts [OF 1(1), of "()"] by simp
  have cse: "serving ecc path c cs cc V" and rec: "recognized H Nm \<lparr>fsys = g\<lparr>store := c\<rparr>, em = w'\<rparr>" using g(3) by (simp_all add: P_def)
  let ?f = "f1\<lparr>vm := sized cs (sorted_out ?m), store := c\<rparr>"
  have "evfs_view_load buf (Some recognize_callback) (fsys s, em s) = Some (0, ?f, w')" using 1(3) g(2) gv by (simp add: fs_order)
  moreover have "recognized H Nm \<lparr>fsys = ?f, em = w'\<rparr>"
  proof -
    have b: "busy_at ?f = busy_at (g\<lparr>store := c\<rparr>)" by (simp add: busy_at_def fun_eq_iff gv sized_def)
    then have eo: "elem_on \<lparr>fsys = ?f, em = w'\<rparr> = elem_on \<lparr>fsys = g\<lparr>store := c\<rparr>, em = w'\<rparr>" by (intro elem_on_fs) simp_all
    have "vol_mem \<lparr>fsys = ?f, em = w'\<rparr> = vol_mem \<lparr>fsys = g\<lparr>store := c\<rparr>, em = w'\<rparr>"
      by (simp add: fun_eq_iff vol_mem_def entry_on_def eo b del: fun_upd_apply)
    moreover have "wild_on \<lparr>fsys = ?f, em = w'\<rparr> = wild_on \<lparr>fsys = g\<lparr>store := c\<rparr>, em = w'\<rparr>" by (simp add: fun_eq_iff wild_on_def b)
    ultimately show ?thesis using rec by (simp add: recognized_def)
  qed
  ultimately show ?thesis using sorted_out_inv [OF 1(1,2) \<open>1 < cc\<close> cse] by auto
qed

section \<open>Adopting\<close>

text \<open>The heads of a chain name the next cluster, and the last one none.\<close>

fun links :: "(nat \<Rightarrow> bytes) \<Rightarrow> nat list \<Rightarrow> bool" where
  "links V [] \<longleftrightarrow> True"
| "links V (c # cs) \<longleftrightarrow> next_cluster_id (hd_of V c) = (case cs of [] \<Rightarrow> 0 | d # _ \<Rightarrow> int d) \<and> links V cs"

definition first_id :: "nat list \<Rightarrow> int" where
  "first_id cl = (case cl of [] \<Rightarrow> 0 | c # _ \<Rightarrow> int c)"

lemma links_nth: "links V cl \<longleftrightarrow> (\<forall>i < length cl. next_cluster_id (hd_of V (cl ! i)) = (if Suc i < length cl then int (cl ! Suc i) else 0))"
proof (induction cl)
  case (Cons c cl)
  have "next_cluster_id (hd_of V c) = first_id cl \<longleftrightarrow> next_cluster_id (hd_of V ((c # cl) ! 0)) = (if Suc 0 < length (c # cl) then int ((c # cl) ! Suc 0) else 0)"
    by (cases cl) (simp_all add: first_id_def)
  then show ?case using Cons.IH by (auto simp: first_id_def nth_Cons less_Suc_eq_0_disj split: nat.splits)
qed simp

lemma file_links: "file_on V m cl k d \<Longrightarrow> links V cl"
  by (simp add: links_nth file_on_def file_part_def file_head_def)

lemma wild_fun: "wild_on s e c \<Longrightarrow> wild_on s e c' \<Longrightarrow> c = c'"
  by (auto simp: wild_on_def)

lemma find_wild_run:
  assumes "list_all2 (wild_on s) es wl" "c \<in> set wl"
  shows "\<exists>e. find_wild (int c) es s = Some (Some e) \<and> wild_on s e c \<and> list_all2 (wild_on s) (remove1 e es) (remove1 c wl)"
  using assms
proof (induction es wl rule: list_all2_induct)
  case (Cons x xs y ys)
  show ?case
  proof (cases "y = c")
    case True
    have "find_wild (int c) (x # xs) s = Some (Some x)" using Cons.hyps(1) True by (auto simp: wild_on_def)
    then show ?thesis using Cons.hyps True by (intro exI [of _ x]) simp
  next
    case False
    then have "c \<in> set ys" using Cons.prems by simp
    then obtain e where e: "find_wild (int c) xs s = Some (Some e)" "wild_on s e c" "list_all2 (wild_on s) (remove1 e xs) (remove1 c ys)" using Cons.IH by blast
    have "e \<noteq> x" using wild_fun [OF e(2), of y] Cons.hyps(1) False by auto
    moreover have "find_wild (int c) (x # xs) s = Some (Some e)" using Cons.hyps(1) e(1) False by (auto simp: wild_on_def)
    ultimately show ?thesis using e(2,3) Cons.hyps(1) False by (intro exI [of _ e]) simp
  qed
qed simp

lemma adopt_run:
  assumes "fs_inv ecc path (fsys s) cs cc V" "vol_mem s L K R (set wl)" "a \<in> set (entries_list (em s))" "list_all2 (wild_on s) (wild_list (em s)) wl" "distinct wl"
    and "links V ds" "set ds \<subseteq> set wl" "distinct ds" "\<forall>c \<in> set ds. 0 < c"
    and "\<And>c. c \<in> set ds \<Longrightarrow> c \<notin> chain_set (entries_list (em s)) L"
  shows "\<exists>s'. adopt a (first_id ds) s = Some s' \<and> fsys s' = fsys s \<and> vol_mem s' (L(a := L a @ ds)) K R (set wl - set ds) \<and>
    list_all2 (wild_on s') (wild_list (em s')) (filter (\<lambda>c. c \<notin> set ds) wl) \<and> entries_list (em s') = entries_list (em s)"
  using assms
proof (induction ds arbitrary: s L wl)
  case Nil
  have "adopt a (first_id []) s = Some s" by (subst adopt.simps) (simp add: first_id_def)
  moreover have "L(a := L a @ []) = L" by simp
  ultimately show ?case using Nil by (intro exI [of _ s]) simp
next
  case (Cons c ds)
  note m = Cons.prems(2)
  have cw: "c \<in> set wl" "0 < c" "c \<notin> set ds" using Cons.prems(7-9) by simp_all
  obtain e where e: "find_wild (int c) (wild_list (em s)) s = Some (Some e)" "wild_on s e c" "list_all2 (wild_on s) (remove1 e (wild_list (em s))) (remove1 c wl)"
    using find_wild_run [OF Cons.prems(4) cw(1)] by blast
  obtain v j where j: "get_elem s e = Some \<lparr>elem_viewid = int c, elem_view = Some v, entry_head = j\<rparr>" "\<And>b. j \<noteq> HeadAt b" "busy_at (fsys s) v c"
    using e(2) by (auto simp: wild_on_def)
  obtain h where h: "get_ehead s a = Some h" using mem_entry [OF m Cons.prems(3)] by (elim entry_obtain)
  let ?x = "\<lparr>elem_viewid = int c, elem_view = Some v, entry_head = HeadAt a\<rparr>"
  let ?e = "(em s)\<lparr>elems := (elems (em s))(e \<mapsto> ?x), wild_list := remove1 e (wild_list (em s)), count_of_wild := count_of_wild (em s) - 1,
    heads := (heads (em s))(a \<mapsto> h\<lparr>elements := elements h @ [e], count_of_elements := count_of_elements h + 1\<rparr>)\<rparr>"
  let ?s = "s\<lparr>em := ?e\<rparr>"
  have fr: "heap_fresh ?e" using m j(1) h by (auto simp: vol_mem_def heap_fresh_def)
  have m1: "vol_mem ?s (L(a := L a @ [c])) K R (set wl - {c})"
    by (rule mem_join [OF m Cons.prems(3) h j(3) cw(1)]) (use Cons.prems(10) j(1,2) fr in auto)
  have X: "set wl - {c} = set (remove1 c wl)" using Cons.prems(5) by simp
  have w1: "list_all2 (wild_on ?s) (wild_list (em ?s)) (remove1 c wl)"
  proof -
    have "list_all2 (wild_on ?s) (remove1 e (wild_list (em s))) (remove1 c wl)"
    proof (rule list.rel_mono_strong [OF e(3)])
      fix x y assume xy: "x \<in> set (remove1 e (wild_list (em s)))" "y \<in> set (remove1 c wl)" "wild_on s x y"
      have "y \<noteq> c" using xy(2) Cons.prems(5) by auto
      then have "x \<noteq> e" using wild_fun [OF e(2), of y] xy(3) by auto
      then show "wild_on ?s x y" using xy(3) by (simp add: wild_on_def)
    qed
    then show ?thesis by simp
  qed
  have nx: "evfs_view_get_next_cluster_id (Some v) (fsys s) = Some (first_id ds)"
    using fs_get_next [OF Cons.prems(1) j(3)] Cons.prems(6) by (cases ds) (simp_all add: first_id_def)
  have "\<exists>s'. adopt a (first_id ds) ?s = Some s' \<and> fsys s' = fsys ?s \<and> vol_mem s' ((L(a := L a @ [c]))(a := (L(a := L a @ [c])) a @ ds)) K R (set (remove1 c wl) - set ds) \<and>
    list_all2 (wild_on s') (wild_list (em s')) (filter (\<lambda>c. c \<notin> set ds) (remove1 c wl)) \<and> entries_list (em s') = entries_list (em ?s)"
  proof (rule Cons.IH)
    show "vol_mem ?s (L(a := L a @ [c])) K R (set (remove1 c wl))" using m1 X by simp
    show "list_all2 (wild_on ?s) (wild_list (em ?s)) (remove1 c wl)" by (rule w1)
    show "set ds \<subseteq> set (remove1 c wl)" using Cons.prems(5,7) cw(3) by auto
    show "d \<notin> chain_set (entries_list (em ?s)) (L(a := L a @ [c]))" if "d \<in> set ds" for d
      using Cons.prems(10) [of d] that cw(3) by (auto simp: chain_set_def split: if_splits)
  qed (use Cons.prems in auto)
  then obtain s' where s': "adopt a (first_id ds) ?s = Some s'" "fsys s' = fsys ?s" "vol_mem s' ((L(a := L a @ [c]))(a := (L(a := L a @ [c])) a @ ds)) K R (set (remove1 c wl) - set ds)"
    "list_all2 (wild_on s') (wild_list (em s')) (filter (\<lambda>c. c \<notin> set ds) (remove1 c wl))" "entries_list (em s') = entries_list (em ?s)" by blast
  have "adopt a (first_id (c # ds)) s = adopt a (first_id ds) ?s"
    using e(1) j(1) h nx cw(2) by (subst adopt.simps) (simp add: first_id_def Let_def put_elem_def put_ehead_def)
  moreover have "(L(a := L a @ [c]))(a := (L(a := L a @ [c])) a @ ds) = L(a := L a @ c # ds)" by simp
  moreover have "set (remove1 c wl) - set ds = set wl - set (c # ds)" using X by auto
  moreover have "filter (\<lambda>d. d \<notin> set ds) (remove1 c wl) = filter (\<lambda>d. d \<notin> set (c # ds)) wl"
    unfolding distinct_remove1_removeAll [OF Cons.prems(5)] removeAll_filter_not_eq filter_filter by (rule filter_cong) auto
  ultimately show ?case using s'(1,2) s'(3-5) by (intro exI [of _ s']) (simp del: fun_upd_apply set_simps filter.simps remove1.simps)
qed

lemma set_tl_subset: "set (tl xs) \<subseteq> set xs"
  by (cases xs) auto

lemma adopt_all_run:
  assumes "fs_inv ecc path (fsys s) cs cc V" "disk_files V m cc H Ch Nm Dt" "vol_mem s L K R (set wl)" "list_all2 (wild_on s) (wild_list (em s)) wl" "distinct wl"
    and "set as \<subseteq> set (entries_list (em s))" "distinct as" "\<forall>a \<in> set as. L a = [C a] \<and> C a \<in> H \<and> set (tl (Ch (C a))) \<subseteq> set wl" "inj_on C (set as)"
    and "set wl \<inter> chain_set (entries_list (em s)) L = {}"
  shows "\<exists>s'. adopt_all as s = Some s' \<and> fsys s' = fsys s \<and> entries_list (em s') = entries_list (em s) \<and>
    (\<exists>wl'. set wl' = {c \<in> set wl. \<forall>a \<in> set as. c \<notin> set (tl (Ch (C a)))} \<and> list_all2 (wild_on s') (wild_list (em s')) wl' \<and>
      vol_mem s' (\<lambda>a. if a \<in> set as then Ch (C a) else L a) K R (set wl'))"
  using assms
proof (induction as arbitrary: s L wl)
  case Nil
  then show ?case by (intro exI [of _ s] conjI exI [of _ wl]) simp_all
next
  case (Cons a as)
  note inv = Cons.prems(1) and dsk = Cons.prems(2) and mem = Cons.prems(3)
  have a: "a \<in> set (entries_list (em s))" "L a = [C a]" "C a \<in> H" "set (tl (Ch (C a))) \<subseteq> set wl" using Cons.prems(6,8) by simp_all
  let ?ds = "tl (Ch (C a))"
  have ch: "hd (Ch (C a)) = C a" "distinct (Ch (C a))" "\<forall>c \<in> set (Ch (C a)). 0 < c \<and> c < cc" "file_on V m (Ch (C a)) (pad_key (Nm (C a))) (Dt (C a))"
    using dsk a(3) by (auto simp: disk_files_def)
  have chd: "Ch (C a) = C a # ?ds" using ch(1,4) by (cases "Ch (C a)") (auto simp: file_on_def file_part_def)
  have lk: "links V (C a # ?ds)" using file_links [OF ch(4)] chd by simp
  obtain h v where h: "get_ehead s a = Some h" "ehead_view h = Some v" "busy_at (fsys s) v (C a)" using mem_entry [OF mem a(1)] a(2) by (elim entry_obtain) auto
  have nx: "evfs_view_get_next_cluster_id (ehead_view h) (fsys s) = Some (first_id ?ds)"
    using fs_get_next [OF inv h(3)] h(2) lk by (simp add: first_id_def)
  have dd: "distinct ?ds" "\<forall>c \<in> set ?ds. 0 < c" "C a \<notin> set ?ds" using ch(2,3) chd by (metis distinct.simps(2) distinct_tl list.set_intros(2))+
  have nch: "c \<notin> chain_set (entries_list (em s)) L" if "c \<in> set ?ds" for c using Cons.prems(10) a(4) that by blast
  obtain s1 where 1: "adopt a (first_id ?ds) s = Some s1" "fsys s1 = fsys s" "vol_mem s1 (L(a := L a @ ?ds)) K R (set wl - set ?ds)"
    "list_all2 (wild_on s1) (wild_list (em s1)) (filter (\<lambda>c. c \<notin> set ?ds) wl)" "entries_list (em s1) = entries_list (em s)"
    using adopt_run [OF inv mem a(1) Cons.prems(4,5) _ a(4) dd(1,2) nch] lk by auto
  define W where "W = filter (\<lambda>c. c \<notin> set ?ds) wl"
  define M where "M = L(a := L a @ ?ds)"
  have W: "set W = set wl - set ?ds" "distinct W" using Cons.prems(5) by (auto simp: W_def)
  have Ma: "M a = Ch (C a)" using a(2) chd by (simp add: M_def)
  have dis: "set (Ch (C a)) \<inter> set (Ch (C b)) = {}" if "b \<in> set as" for b
  proof -
    have "C a \<noteq> C b" "C b \<in> H" using Cons.prems(7-9) that by (auto simp: inj_on_def)
    then show ?thesis using dsk a(3) unfolding disk_files_def by blast
  qed
  have "\<exists>s'. adopt_all as s1 = Some s' \<and> fsys s' = fsys s1 \<and> entries_list (em s') = entries_list (em s1) \<and>
    (\<exists>wl'. set wl' = {c \<in> set W. \<forall>a \<in> set as. c \<notin> set (tl (Ch (C a)))} \<and> list_all2 (wild_on s') (wild_list (em s')) wl' \<and>
      vol_mem s' (\<lambda>b. if b \<in> set as then Ch (C b) else M b) K R (set wl'))"
  proof (rule Cons.IH)
    show "fs_inv ecc path (fsys s1) cs cc V" using inv 1(2) by simp
    show "vol_mem s1 M K R (set W)" using 1(3) W(1) by (simp add: M_def)
    show "list_all2 (wild_on s1) (wild_list (em s1)) W" using 1(4) by (simp add: W_def)
    show "\<forall>b \<in> set as. M b = [C b] \<and> C b \<in> H \<and> set (tl (Ch (C b))) \<subseteq> set W"
    proof
      fix b assume b: "b \<in> set as"
      then have "b \<noteq> a" "L b = [C b]" "C b \<in> H" "set (tl (Ch (C b))) \<subseteq> set wl" using Cons.prems(7,8) by auto
      moreover have "set (tl (Ch (C b))) \<inter> set ?ds = {}" using dis [OF b] set_tl_subset [of "Ch (C a)"] set_tl_subset [of "Ch (C b)"] by blast
      ultimately show "M b = [C b] \<and> C b \<in> H \<and> set (tl (Ch (C b))) \<subseteq> set W" using W(1) by (auto simp: M_def)
    qed
    have "chain_set (entries_list (em s1)) M = chain_set (entries_list (em s)) L \<union> set ?ds" unfolding 1(5) using a(1) by (auto simp: chain_set_def M_def split: if_splits)
    then show "set W \<inter> chain_set (entries_list (em s1)) M = {}" using Cons.prems(10) W(1) by blast
  qed (use W(2) dsk Cons.prems(6,7,9) 1(5) in auto)
  then obtain s' wl' where s': "adopt_all as s1 = Some s'" "fsys s' = fsys s1" "entries_list (em s') = entries_list (em s1)"
    "set wl' = {c \<in> set W. \<forall>a \<in> set as. c \<notin> set (tl (Ch (C a)))}" "list_all2 (wild_on s') (wild_list (em s')) wl'"
    "vol_mem s' (\<lambda>b. if b \<in> set as then Ch (C b) else M b) K R (set wl')" by blast
  have "adopt_all (a # as) s = Some s'" using h(1) nx 1(1) s'(1) by simp
  moreover have "(\<lambda>b. if b \<in> set as then Ch (C b) else M b) = (\<lambda>b. if b \<in> set (a # as) then Ch (C b) else L b)"
    using Ma by (auto simp: M_def)
  moreover have "set wl' = {c \<in> set wl. \<forall>b \<in> set (a # as). c \<notin> set (tl (Ch (C b)))}" using s'(4) W(1) by auto
  ultimately show ?case using s'(2,3,5,6) 1(2,5) by (intro exI [of _ s'] conjI exI [of _ wl']) simp_all
qed

section \<open>Loading\<close>

lemma loaded_files:
  assumes inv: "view_inv ecc path (fsys s) cs cc V" "all_look_busy (vm (fsys s))" "header (V 0) cs cc ecc" and g: "92 \<le> cs" "cs \<le> 4096" "cs * cc < 2 ^ 30"
    and d: "disk_files V (cs - 12) cc H Ch Nm Dt" and r: "recognized H Nm s"
  shows "\<exists>s' L C. evfs_entries_init s = Some s' \<and> files_on ecc path s' cs cc V L (\<lambda>a. Nm (C a)) (\<lambda>a. Dt (C a)) \<and> C ` set (entries_list (em s')) = H \<and>
    (\<forall>a \<in> set (entries_list (em s')). L a = Ch (C a))"
proof -
  let ?as = "entries_list (em s)"
  have fi: "fs_inv ecc path (fsys s) cs cc V" using inv by (simp add: fs_inv_def)
  obtain C wl where C: "vol_mem s (\<lambda>a. [C a]) (\<lambda>a. pad_key (Nm (C a))) (\<lambda>_. (0, 0)) (set wl)" "list_all2 (wild_on s) (wild_list (em s)) wl"
    "C ` set ?as \<subseteq> H" "set wl \<inter> H = {}" "distinct wl" using r by (auto simp: recognized_def)
  have cs: "chain_set ?as (\<lambda>a. [C a]) = C ` set ?as" by (auto simp: chain_set_def)
  have dH: "hd (Ch h) = h" "distinct (Ch h)" "file_on V (cs - 12) (Ch h) (pad_key (Nm h)) (Dt h)" "client_name (Nm h)" "c \<in> set (Ch h) \<Longrightarrow> 0 < c \<and> c < cc"
    "Ch h = h # tl (Ch h)" if "h \<in> H" for h c
  proof -
    show f: "hd (Ch h) = h" "distinct (Ch h)" "file_on V (cs - 12) (Ch h) (pad_key (Nm h)) (Dt h)" "client_name (Nm h)" "c \<in> set (Ch h) \<Longrightarrow> 0 < c \<and> c < cc"
      using d that by (auto simp: disk_files_def)
    show "Ch h = h # tl (Ch h)" using f(1,3) by (cases "Ch h") (auto simp: file_on_def file_part_def)
  qed
  have busy: "(\<exists>v. busy_at (fsys s) v c) \<longleftrightarrow> (\<exists>h \<in> H. c \<in> set (Ch h))" for c
  proof
    assume "\<exists>v. busy_at (fsys s) v c"
    then obtain v where v: "busy_at (fsys s) v c" by blast
    obtain x where x: "v \<in> set (busylist (vm (fsys s)))" "get_view (fsys s) v = Some x" "viewid x = int c" "cluster x = hd_of V c" by (rule busy_obtain_view [OF fi v])
    have "evfs_cluster_looks_like_busy (hd_of V c)" using inv(2) x by (auto simp: all_look_busy_def)
    then show "\<exists>h \<in> H. c \<in> set (Ch h)" using d busy_cluster(1,2) [OF fi v] unfolding disk_files_def by blast
  next
    assume "\<exists>h \<in> H. c \<in> set (Ch h)"
    then obtain h where h: "h \<in> H" "c \<in> set (Ch h)" by blast
    have "evfs_cluster_looks_like_busy (hd_of V c)" using d h dH(5) [OF h] unfolding disk_files_def by blast
    then show "\<exists>v. busy_at (fsys s) v c" using looks_busy_at [OF inv(1)] dH(5) [OF h] by blast
  qed
  have all: "c \<in> C ` set ?as \<union> set wl \<longleftrightarrow> (\<exists>h \<in> H. c \<in> set (Ch h))" for c using mem_busy [OF C(1), of c] busy [of c] cs by simp
  have CH: "C ` set ?as = H"
  proof (rule subset_antisym [OF C(3)], rule subsetI)
    fix h assume h: "h \<in> H"
    then have "h \<in> set (Ch h)" using dH(6) [OF h] by (metis list.set_intros(1))
    then show "h \<in> C ` set ?as" using all [of h] h C(4) by blast
  qed
  have tails: "set (tl (Ch h)) \<subseteq> set wl" if h: "h \<in> H" for h
  proof
    fix c assume c: "c \<in> set (tl (Ch h))"
    have ch: "c \<in> set (Ch h)" using c set_tl_subset [of "Ch h"] by blast
    have "distinct (h # tl (Ch h))" using dH(2) [OF h] dH(6) [OF h] by simp
    then have nh: "c \<noteq> h" using c by auto
    have "c \<notin> H"
    proof
      assume cH: "c \<in> H"
      then have "c \<in> set (Ch c)" using dH(6) [OF cH] by (metis list.set_intros(1))
      moreover have "set (Ch h) \<inter> set (Ch c) = {}" using d h cH nh unfolding disk_files_def by blast
      ultimately show False using ch by blast
    qed
    then show "c \<in> set wl" using all [of c] h ch CH by blast
  qed
  have inj: "inj_on C (set ?as)" using mem_chains [OF C(1)] by (auto simp: inj_on_def chains_ok_def)
  have da: "distinct ?as" using mem_index [OF C(1)] by (simp add: vol_index_def)
  have ah: "\<forall>a \<in> set ?as. [C a] = [C a] \<and> C a \<in> H \<and> set (tl (Ch (C a))) \<subseteq> set wl" using CH tails by auto
  have wc: "set wl \<inter> chain_set ?as (\<lambda>a. [C a]) = {}" using C(4) CH cs by simp
  obtain s1 wl' where 1: "adopt_all ?as s = Some s1" "fsys s1 = fsys s" "entries_list (em s1) = ?as" "set wl' = {c \<in> set wl. \<forall>a \<in> set ?as. c \<notin> set (tl (Ch (C a)))}"
    "list_all2 (wild_on s1) (wild_list (em s1)) wl'" "vol_mem s1 (\<lambda>a. if a \<in> set ?as then Ch (C a) else [C a]) (\<lambda>a. pad_key (Nm (C a))) (\<lambda>_. (0, 0)) (set wl')"
    using adopt_all_run [OF fi d C(1,2,5) subset_refl da ah inj wc] by blast
  have "set wl' = {}"
  proof (rule ccontr)
    assume "set wl' \<noteq> {}"
    then obtain c where "c \<in> set wl'" by (cases wl') auto
    then have c: "c \<in> set wl" "\<forall>a \<in> set ?as. c \<notin> set (tl (Ch (C a)))" unfolding 1(4) by simp_all
    obtain h where h: "h \<in> H" "c \<in> set (Ch h)" using all [of c] c(1) by blast
    have "c \<noteq> h" using c(1) h(1) C(4) by blast
    then have "c \<in> set (tl (Ch h))" using h dH(6) [OF h(1)] by (metis set_ConsD)
    then show False using c(2) h(1) CH by blast
  qed
  then have wl0: "wl' = []" by simp
  then have w0: "wild_list (em s1) = []" using 1(5) by simp
  let ?L = "\<lambda>a. if a \<in> set ?as then Ch (C a) else [C a]"
  let ?s = "s1\<lparr>em := (em s1)\<lparr>ent_max_data_seg_size := evfs_view_get_max_data_seg_size (fsys s1)\<rparr>\<rparr>"
  have run: "evfs_entries_init s = Some ?s" using 1(1) w0 by (simp add: evfs_entries_init_def)
  have mx: "evfs_view_get_max_data_seg_size (fsys s1) = int cs - 12" using inv_counts [OF inv(1)] 1(2) by (simp add: evfs_view_get_max_data_seg_size_def view_counts_def)
  have "vol_mem ?s ?L (\<lambda>a. pad_key (Nm (C a))) (\<lambda>_. (0, 0)) {}"
  proof -
    have eo: "elem_on ?s = elem_on s1" by (rule elem_on_fs) simp_all
    have "entry_on ?s = entry_on s1" unfolding entry_on_def [abs_def] eo by simp
    then show ?thesis using 1(6) wl0 by (simp add: vol_mem_def vol_index_def heap_fresh_def)
  qed
  then have "vol_inv ecc path ?s cs cc V ?L (\<lambda>a. pad_key (Nm (C a))) (\<lambda>_. (0, 0))" using fi 1(2) mx w0 g by (simp add: vol_inv_def)
  moreover have "client_name (Nm (C a)) \<and> file_on V (cs - 12) (?L a) (pad_key (Nm (C a))) (Dt (C a))" if "a \<in> set ?as" for a
    using dH(3,4) [of "C a"] CH that by auto
  ultimately have "files_on ecc path ?s cs cc V ?L (\<lambda>a. Nm (C a)) (\<lambda>a. Dt (C a))" unfolding files_with_def using 1(3) by simp
  then show ?thesis using run CH 1(3) by (intro exI [of _ ?s] exI [of _ ?L] exI [of _ C]) simp
qed

end
