(* ===== verification/EvfsEntriesApi.thy ===== *)
theory EvfsEntriesApi
  imports EvfsEntriesLoad
begin

text \<open>
  The entries of a volume from the outside (\<^verbatim>\<open>addons/evfs/entries.c\<close>): a volume is formatted, used by a client and restarted. The entries
  implement the interface of a durable machine, and the properties are stated for runs that begin with a blank volume.
\<close>

section \<open>Formatting and restarting a volume\<close>

definition format_vol :: "string \<Rightarrow> nat \<Rightarrow> nat \<Rightarrow> nat \<Rightarrow> evfs_vol \<Rightarrow> (nsp_status \<times> evfs_vol) option" where
  "format_vol path n cs cc s = do {
     (_, c) \<leftarrow> evfs_cache_init 0 (Some path) (int n) (Some (int cs, int cc)) (store (fsys s));
     evfs_entries_create (s\<lparr>fsys := (fsys s)\<lparr>store := c\<rparr>\<rparr>)
   }"

definition blank_vol :: "evfs_vol \<Rightarrow> bool" where
  "blank_vol s \<longleftrightarrow> blank_fs (fsys s) \<and> entries_asleep (em s)"

text \<open>\<^term>\<open>h\<close> is what the local structure of \<^verbatim>\<open>evfs_view_load\<close> holds before the first read.\<close>

definition reboot_vol :: "string \<Rightarrow> nat \<Rightarrow> evfs_cluster \<Rightarrow> evfs_vol \<Rightarrow> evfs_vol option" where
  "reboot_vol path n h s = do {
     s \<leftarrow> evfs_entries_uninit s;
     c \<leftarrow> evfs_cache_uninit (store (fsys s));
     (_, c) \<leftarrow> evfs_cache_init 0 (Some path) (int n) None c;
     (status, s) \<leftarrow> evfs_entries_load (head_bytes h) (s\<lparr>fsys := (fsys s)\<lparr>store := c\<rparr>\<rparr>);
     if NSP_SUCCESS status then Some s else None
   }"

lemma format_files:
  assumes b: "blank_vol s" and g: "geometry_ok cs cc"
  shows "\<exists>s'. format_vol path n cs cc s = Some (0, s') \<and> holds_files cc path cs cc s' (Map.empty, cc - 1) \<and> entries_list (em s') = []"
proof -
  obtain f V where f: "format_fs path (int n) cs cc (fsys s) = Some (0, f)" "fs_inv cc path f cs cc V" "busylist (vm f) = []" "length (idlelist (vm f)) = cc - 1"
    using format_run [of "fsys s" cs cc "int n" path] b g by (auto simp: blank_vol_def)
  obtain st c where c: "evfs_cache_init 0 (Some path) (int n) (Some (int cs, int cc)) (store (fsys s)) = Some (st, c)" "evfs_view_create ((fsys s)\<lparr>store := c\<rparr>) = Some (0, f)"
    using f(1) by (auto simp: format_fs_def split: bind_splits)
  have e: "entries_asleep (em s)" using b by (simp add: blank_vol_def)
  let ?s = "s\<lparr>fsys := f, em := (em s)\<lparr>ent_max_data_seg_size := evfs_view_get_max_data_seg_size f\<rparr>\<rparr>"
  have "evfs_entries_create (s\<lparr>fsys := (fsys s)\<lparr>store := c\<rparr>\<rparr>) = Some (0, ?s)"
    using c(2) e by (simp add: evfs_entries_create_def on_fs_def error_not_success evfs_entries_init_def entries_asleep_def)
  then have run: "format_vol path n cs cc s = Some (0, ?s)" using c(1) by (simp add: format_vol_def)
  have ea: "entries_asleep (em ?s)" using e by (simp add: entries_asleep_def heap_fresh_def)
  have "vol_mem ?s (\<lambda>_. []) (\<lambda>a. pad_key ((\<lambda>_. []) a)) (\<lambda>_. (0, 0)) {}" by (rule mem_of_asleep [OF ea]) (simp add: f(3))
  moreover have "evfs_view_get_max_data_seg_size f = int cs - 12"
    using inv_counts [OF fs_view [OF f(2)]] by (simp add: evfs_view_get_max_data_seg_size_def view_counts_def)
  ultimately have "vol_inv cc path ?s cs cc V (\<lambda>_. []) (\<lambda>a. pad_key ((\<lambda>_. []) a)) (\<lambda>_. (0, 0))"
    using f(2) g e by (simp add: vol_inv_def geometry_ok_def entries_asleep_def)
  then have "files_on cc path ?s cs cc V (\<lambda>_. []) (\<lambda>_. []) (\<lambda>_. [])" using e by (simp add: files_with_def entries_asleep_def)
  then have "holds_files cc path cs cc ?s (Map.empty, cc - 1)"
    by (rule holds_filesI) (use e f(4) in \<open>simp_all add: files_of_def entries_asleep_def fun_eq_iff\<close>)
  then show ?thesis using run e by (auto simp: entries_asleep_def)
qed

text \<open>The map and the free clusters depend on the chains on the disk only.\<close>

lemma files_of_iff:
  assumes f: "files_with R ecc path s cs cc V L N D"
  shows "files_of s N D k = Some d \<longleftrightarrow> (\<exists>a \<in> set (entries_list (em s)). N a = k \<and> D a = d)"
proof
  assume "files_of s N D k = Some d"
  then obtain a where "find (\<lambda>a. N a = k) (entries_list (em s)) = Some a" "D a = d" by (auto simp: files_of_def)
  then show "\<exists>a \<in> set (entries_list (em s)). N a = k \<and> D a = d" by (auto simp: find_Some_iff)
next
  assume "\<exists>a \<in> set (entries_list (em s)). N a = k \<and> D a = d"
  then obtain a where a: "a \<in> set (entries_list (em s))" "N a = k" "D a = d" by blast
  have "find (\<lambda>a. N a = k) (entries_list (em s)) \<noteq> None" using a(1,2) by (auto simp: find_None_iff)
  then obtain b where b: "find (\<lambda>a. N a = k) (entries_list (em s)) = Some b" by blast
  then have "b \<in> set (entries_list (em s))" "N b = k" by (auto simp: find_Some_iff)
  then have "b = a" using files_names [OF f] a by simp
  then show "files_of s N D k = Some d" using b a(3) by (simp add: files_of_def)
qed

lemma map_eqI: "(\<And>k d. f k = Some d \<longleftrightarrow> g k = Some d) \<Longrightarrow> f = g"
  by (rule ext) (metis option.exhaust)

lemma same_files:
  assumes f: "files_with R ecc path s cs cc V L N D" and f': "files_on ecc path s' cs cc V' L' (\<lambda>a. Nm (C a)) (\<lambda>a. Dt (C a))"
    and c: "C ` set (entries_list (em s')) = (\<lambda>a. hd (L a)) ` set (entries_list (em s))" "\<forall>a \<in> set (entries_list (em s')). L' a = Ch (C a)"
    and ch: "\<forall>a \<in> set (entries_list (em s)). Ch (hd (L a)) = L a \<and> Nm (hd (L a)) = N a \<and> Dt (hd (L a)) = D a"
  shows "files_of s' (\<lambda>a. Nm (C a)) (\<lambda>a. Dt (C a)) = files_of s N D" "length (idlelist (vm (fsys s'))) = length (idlelist (vm (fsys s)))"
proof -
  let ?H = "(\<lambda>a. hd (L a)) ` set (entries_list (em s))"
  have l: "files_of s N D k = Some d \<longleftrightarrow> (\<exists>h \<in> ?H. Nm h = k \<and> Dt h = d)" for k d using files_of_iff [OF f] ch by auto
  have r: "files_of s' (\<lambda>a. Nm (C a)) (\<lambda>a. Dt (C a)) k = Some d \<longleftrightarrow> (\<exists>h \<in> ?H. Nm h = k \<and> Dt h = d)" for k d
    unfolding files_of_iff [OF f'] c(1) [symmetric] by auto
  show "files_of s' (\<lambda>a. Nm (C a)) (\<lambda>a. Dt (C a)) = files_of s N D" by (rule map_eqI) (simp only: l r)
  note v = files_vol [OF f] and v' = files_vol [OF f']
  have t: "(\<Sum>a\<leftarrow>entries_list (em t). length (M a)) = card (chain_set (entries_list (em t)) M)" if "vol_inv ecc path t cs cc W M K R" for t W M K R
    by (rule chain_total [symmetric]) (use mem_index [OF vol_memory [OF that]] mem_chains [OF vol_memory [OF that]] in \<open>simp_all add: vol_index_def\<close>)
  have "chain_set (entries_list (em s')) L' = (\<Union>h \<in> C ` set (entries_list (em s')). set (Ch h))" using c(2) by (auto simp: chain_set_def)
  also have "\<dots> = chain_set (entries_list (em s)) L" unfolding c(1) using ch by (auto simp: chain_set_def)
  finally show "length (idlelist (vm (fsys s'))) = length (idlelist (vm (fsys s)))" using vol_total [OF v] vol_total [OF v'] t [OF v] t [OF v'] by simp
qed

text \<open>Stopping the entries and the cache, and loading them again.\<close>

lemma restart_files:
  assumes f: "files_with R ecc path s cs cc V L N D" and r: "\<forall>a \<in> set (entries_list (em s)). snd (R a) = 0"
  shows "\<exists>s1 c c' s'. evfs_entries_uninit s = Some s1 \<and> evfs_cache_uninit (store (fsys s1)) = Some c \<and>
    evfs_cache_init 0 (Some path) (int n) None c = Some (0, c') \<and> evfs_entries_load (head_bytes h) (s1\<lparr>fsys := (fsys s1)\<lparr>store := c'\<rparr>\<rparr>) = Some (0, s') \<and>
    holds_files ecc path cs cc s' (files_of s N D, length (idlelist (vm (fsys s))))"
proof -
  note v = files_vol [OF f]
  have inv: "view_inv ecc path (fsys s) cs cc V" "header (V 0) cs cc ecc" using vol_fs [OF v] by (simp_all add: fs_inv_def)
  have g: "92 \<le> cs" "cs \<le> 4096" "cs * cc < 2 ^ 30" "cs * cc \<le> 2 ^ 30" "44 \<le> cs" "1 < cc" using v inv_counts [OF inv(1)] by (simp_all add: vol_inv_def view_counts_def)
  obtain m c c' where 1: "evfs_view_uninit (fsys s) = Some ((fsys s)\<lparr>vm := m\<rparr>)" "views_asleep m" "evfs_cache_uninit (store (fsys s)) = Some c"
    "evfs_cache_init 0 (Some path) (int n) None c = Some (0, c')" "serving ecc path c' cs cc V" "store_holds ecc path (env c') cs cc V"
    using reopen_run [OF inv g(1,4), of "int n"] by auto
  obtain s1 m' where 2: "evfs_entries_uninit s = Some s1" "fsys s1 = (fsys s)\<lparr>vm := m'\<rparr>" "views_asleep m'" "entries_asleep (em s1)" using uninit_run [OF v r] by auto
  obtain Ch Nm Dt where d: "disk_files V (cs - 12) cc ((\<lambda>a. hd (L a)) ` set (entries_list (em s))) Ch Nm Dt"
    "\<forall>a \<in> set (entries_list (em s)). Ch (hd (L a)) = L a \<and> Nm (hd (L a)) = N a \<and> Dt (hd (L a)) = D a" using files_disk [OF f] by blast
  let ?H = "(\<lambda>a. hd (L a)) ` set (entries_list (em s))"
  have D: "\<forall>h \<in> ?H. int (length (Dt h)) < 2 ^ 31 - 32" using d(2) file_bound [OF f] by auto
  let ?s = "s1\<lparr>fsys := (fsys s1)\<lparr>store := c'\<rparr>\<rparr>"
  obtain f2 w where 3: "evfs_view_load (head_bytes h) (Some recognize_callback) (fsys ?s, em ?s) = Some (0, f2, w)" "view_inv ecc path f2 cs cc V" "all_look_busy (vm f2)"
    "recognized ?H Nm \<lparr>fsys = f2, em = w\<rparr>"
    using load_recognizes [of ?s ecc path cs cc V "head_bytes h" ?H Ch Nm Dt] 1(5,6) 2 d(1) D g(5,6) by auto
  have "s1\<lparr>fsys := f2, em := w\<rparr> = \<lparr>fsys = f2, em = w\<rparr>" by simp
  then obtain s' L' C where 4: "evfs_entries_init (s1\<lparr>fsys := f2, em := w\<rparr>) = Some s'" "files_on ecc path s' cs cc V L' (\<lambda>a. Nm (C a)) (\<lambda>a. Dt (C a))"
    "C ` set (entries_list (em s')) = ?H" "\<forall>a \<in> set (entries_list (em s')). L' a = Ch (C a)"
    using loaded_files [of ecc path "\<lparr>fsys = f2, em = w\<rparr>" cs cc V ?H Ch Nm Dt] 3(2-4) inv(2) g(1-3) d(1) by auto
  have "evfs_entries_load (head_bytes h) ?s = Some (0, s')" using 3(1) 4(1) by (simp add: evfs_entries_load_def error_not_success)
  moreover have "holds_files ecc path cs cc s' (files_of s N D, length (idlelist (vm (fsys s))))"
    by (rule holds_filesI [OF 4(2)]) (use same_files [OF f 4(2-4) d(2)] in simp_all)
  ultimately show ?thesis using 2(1,2) 1(3,4) by auto
qed

lemma reboot_files:
  assumes "holds_files ecc path cs cc s A"
  shows "\<exists>s'. reboot_vol path n h s = Some s' \<and> holds_files ecc path cs cc s' A"
proof -
  obtain V L N D where f: "files_on ecc path s cs cc V L N D" and A: "A = (files_of s N D, length (idlelist (vm (fsys s))))"
    using assms by (cases A) (auto simp: holds_files_def)
  obtain s1 c c' s' where "evfs_entries_uninit s = Some s1" "evfs_cache_uninit (store (fsys s1)) = Some c"
    "evfs_cache_init 0 (Some path) (int n) None c = Some (0, c')" "evfs_entries_load (head_bytes h) (s1\<lparr>fsys := (fsys s1)\<lparr>store := c'\<rparr>\<rparr>) = Some (0, s')"
    "holds_files ecc path cs cc s' A"
    using restart_files [OF f, of n h] unfolding A by auto
  then show ?thesis by (simp add: reboot_vol_def error_not_success)
qed

interpretation efs: durable "holds_files ecc path cs cc" file_step "file_spec (cs - 12)" "file_ok (cs - 12)" "reboot_vol path n h"
  for ecc path cs cc n h
  by unfold_locales (fact file_step_law, fact reboot_files)

section \<open>Properties\<close>

text \<open>
  C5. The entries are files: on a formatted volume, every sequence of storing, reading, measuring and removing entries by name runs to its end,
  whatever the cache does, with exactly the replies of a map from names to contents, as long as what is stored fits into the free clusters. A name that is taken or unknown
  is reported, and removing a file gives its clusters back.
\<close>

theorem evfs_files_refine:
  assumes "blank_vol s0" "geometry_ok cs cc" "format_vol path n cs cc s0 = Some (0, s1)"
    and "all_ok (file_ok (cs - 12)) (file_spec (cs - 12)) ops (Map.empty, cc - 1)"
  shows "\<exists>s. run_steps file_step ops s1 = Some (fst (spec_run (file_spec (cs - 12)) ops (Map.empty, cc - 1)), s)"
proof -
  have "holds_files cc path cs cc s1 (Map.empty, cc - 1)" using format_files [OF assms(1,2), of path n] assms(3) by auto
  then show ?thesis using efs.run_law assms(4) by blast
qed

definition sample_vol :: evfs_vol where
  "sample_vol = \<lparr>fsys = sample_fs, em = evfs_entries_mgr0\<rparr>"

lemma sample_vol_blank: "blank_vol sample_vol"
  using sample_blank(1) nmix.invar_empty nmix.lookup_empty clix.invar_empty clix.lookup_empty
  by (simp add: blank_vol_def sample_vol_def entries_asleep_def evfs_entries_mgr0_def heap_fresh_def name_of_def index_of_def)

text \<open>With two free clusters of 116 bytes of data: a file that takes both, a name that is taken, and a name that is gone.\<close>

definition sample_ops :: "file_op list" where
  "sample_ops = [Put [65] (replicate 100 7), Fetch [65] 98 20, Put [65] [1], Measure [65], Remove [65], Fetch [65] 0 9, Put [66] [1, 2]]"

lemma sample_ops_ok: "all_ok (file_ok 116) (file_spec 116) sample_ops (Map.empty, 2)"
  by (simp add: sample_ops_def client_name_def clusters_for_def)

lemma sample_ops_replies:
  "fst (spec_run (file_spec 116) sample_ops (Map.empty, 2)) =
    [Status 100, Content [7, 7], Status (posix__makeerror EEXIST), Status 100, Status 0, Status (posix__makeerror ENOENT), Status 2]"
  by (simp add: sample_ops_def clusters_for_def numeral_2_eq_2)

theorem evfs_files_refine_witness:
  "\<exists>s1 s. format_vol ''f'' 1 128 3 sample_vol = Some (0, s1) \<and> run_steps file_step sample_ops s1 =
    Some ([Status 100, Content [7, 7], Status (posix__makeerror EEXIST), Status 100, Status 0, Status (posix__makeerror ENOENT), Status 2], s)"
proof -
  obtain s1 where s1: "format_vol ''f'' 1 128 3 sample_vol = Some (0, s1)" using format_files [OF sample_vol_blank sample_blank(2)] by blast
  show ?thesis using evfs_files_refine [OF sample_vol_blank sample_blank(2) s1, of sample_ops] sample_ops_ok sample_ops_replies s1 by auto
qed

text \<open>
  C6. Files survive a restart: when the entries and the cache are stopped and loaded again from the file between two sequences of operations,
  with any number of cache blocks and whatever the memory the loader reads into held before, the restart succeeds and the replies are those
  of a map from names to contents that was never interrupted.
\<close>

theorem evfs_files_survive_restart:
  assumes "blank_vol s0" "geometry_ok cs cc" "format_vol path n cs cc s0 = Some (0, s1)"
    and "all_ok (file_ok (cs - 12)) (file_spec (cs - 12)) (ops1 @ ops2) (Map.empty, cc - 1)"
  shows "\<exists>s2 s3 s4. run_steps file_step ops1 s1 = Some (fst (spec_run (file_spec (cs - 12)) ops1 (Map.empty, cc - 1)), s2) \<and>
    reboot_vol path m h s2 = Some s3 \<and>
    run_steps file_step ops2 s3 = Some (fst (spec_run (file_spec (cs - 12)) ops2 (snd (spec_run (file_spec (cs - 12)) ops1 (Map.empty, cc - 1)))), s4)"
proof -
  have "holds_files cc path cs cc s1 (Map.empty, cc - 1)" using format_files [OF assms(1,2), of path n] assms(3) by auto
  then show ?thesis using efs.reboot_between assms(4) by blast
qed

theorem evfs_files_survive_restart_witness:
  "\<exists>s1 s2 s3 s4. format_vol ''f'' 1 128 3 sample_vol = Some (0, s1) \<and> run_steps file_step [Put [65] (replicate 100 7)] s1 = Some ([Status 100], s2) \<and>
    reboot_vol ''f'' 0 \<lparr>data_seg_size = 7, next_cluster_id = 5, head_cluster_id = 6\<rparr> s2 = Some s3 \<and>
    run_steps file_step [Fetch [65] 98 20, Put [65] [1], Remove [65]] s3 = Some ([Content [7, 7], Status (posix__makeerror EEXIST), Status 0], s4)"
proof -
  obtain s1 where s1: "format_vol ''f'' 1 128 3 sample_vol = Some (0, s1)" using format_files [OF sample_vol_blank sample_blank(2)] by blast
  let ?a = "[Put [65] (replicate 100 7)]" and ?b = "[Fetch [65] 98 20, Put [65] [1], Remove [65]]"
  have ok: "all_ok (file_ok 116) (file_spec 116) (?a @ ?b) (Map.empty, 2)" by (simp add: client_name_def clusters_for_def)
  have r: "fst (spec_run (file_spec 116) ?a (Map.empty, 2)) = [Status 100]"
    "fst (spec_run (file_spec 116) ?b (snd (spec_run (file_spec 116) ?a (Map.empty, 2)))) = [Content [7, 7], Status (posix__makeerror EEXIST), Status 0]"
    by (simp_all add: clusters_for_def numeral_2_eq_2)
  show ?thesis using evfs_files_survive_restart [OF sample_vol_blank sample_blank(2) s1, of ?a ?b 0 "\<lparr>data_seg_size = 7, next_cluster_id = 5, head_cluster_id = 6\<rparr>"] ok r s1
    by auto
qed

text \<open>
  C13. Stopping the entries ends: the loop of \<^verbatim>\<open>evfs_entries_uninit\<close>, which takes the first entry again and again until the list is empty, comes to its end on
  every volume without pending input and output, open entries included, and leaves no entry, no wild element and no view behind.
\<close>

theorem evfs_entries_uninit_ends:
  assumes "vol_inv ecc path s cs cc V L K R" "\<forall>a \<in> set (entries_list (em s)). snd (R a) = 0"
  shows "\<exists>s'. evfs_entries_uninit s = Some s' \<and> entries_list (em s') = [] \<and> wild_list (em s') = [] \<and> views_asleep (vm (fsys s'))"
  using uninit_run [OF assms] by (auto simp: entries_asleep_def)

theorem evfs_entries_uninit_ends_witness:
  "\<exists>s1 i s2 s3. format_vol ''f'' 1 128 3 sample_vol = Some (0, s1) \<and> evfs_entries_create_one (Some [65]) True s1 = Some (0, i, s2) \<and>
    length (entries_list (em s2)) = 1 \<and> evfs_entries_uninit s2 = Some s3 \<and> entries_list (em s3) = []"
proof -
  obtain s1 where s1: "format_vol ''f'' 1 128 3 sample_vol = Some (0, s1)" "holds_files 3 ''f'' 128 3 s1 (Map.empty, 2)" "entries_list (em s1) = []"
    using format_files [OF sample_vol_blank sample_blank(2), of "''f''" 1] by auto
  obtain V L N D where f: "files_on 3 ''f'' s1 128 3 V L N D" "2 = length (idlelist (vm (fsys s1)))" using s1(2) by (auto simp: holds_files_def)
  have k: "client_name [65]" by (simp add: client_name_def)
  have "name_of (root_of_named_entries_tree (em s1)) (name_of_block [65]) = None" using find_file [OF f(1) k] s1(3) by simp
  moreover have "idlelist (vm (fsys s1)) \<noteq> []" using f(2) by auto
  ultimately obtain s2 a c V' where s2: "evfs_entries_create_one (Some [65]) True s1 = Some (0, Some (int c), s2)" "entries_list (em s2) = [a]"
    "vol_inv 3 ''f'' s2 128 3 V' (L(a := [c])) ((\<lambda>a. pad_key (N a))(a := pad_key [65])) ((\<lambda>_. (0, 0))(a := (1, 0)))"
    using entry_create_run [OF files_vol [OF f(1)] k] s1(3) by auto
  show ?thesis using evfs_entries_uninit_ends [OF s2(3)] s1(1) s2(1,2) by auto
qed

end
