(* ===== verification/Evfs.thy ===== *)
theory Evfs
  imports EvfsEntriesApi
begin

text \<open>
  \<^verbatim>\<open>addons/evfs/evfs.c\<close>: the public interface of the entry file system. A handle names a descriptor (the number of an entry and an offset);
  the calls that touch entries are tasks for one of four workers, chosen by the number of the entry. Descriptors and tasks are structures on
  a heap. A caller who waits for a task lets its worker run until its queue is empty. \<^term>\<open>None\<close> is undefined behaviour or an endless loop.
\<close>

section \<open>State\<close>

datatype evfs_entry_descriptor_state = kEvfsDescriptorClosed | kEvfsDescriptorCloseWait | kEvfsDescriptorActived

record evfs_entry_descriptor =
  d_handle :: int
  d_entry_id :: int
  d_offset :: int
  d_refcnt :: int
  d_stat :: evfs_entry_descriptor_state

datatype evfs_io_task_type = kEvfsIoTaskRead | kEvfsIoTaskWrite | kEvfsIoTaskTruncate | kEvfsIoTaskFlush | kEvfsIoTaskFlushAll | kEvfsIoTaskErase |
  kEvfsIoTaskEraseByKey | kEvfsIoTaskCreate | kEvfsIoTaskSetCache

record evfs_io_task =
  t_status :: nsp_status
  t_entry_id :: int
  t_offset :: int
  t_length :: int
  t_data :: "bytes option"
  t_type :: evfs_io_task_type
  t_retval :: int
  t_no_wait :: bool
  t_descriptor :: "nat option"

record evfs_io_background_worker =
  w_stop :: bool
  head_of_tasks :: "nat list"
  count_of_tasks :: int

record evfs_descriptor_mgr =
  d_ready :: evfs_ready_stat
  next_handle :: int
  root_of_descriptors :: "(int \<times> nat) avltree"
  head_of_descriptors :: "nat list"
  count_of_descriptors :: int
  worker :: "evfs_io_background_worker list"
  descriptors :: "nat \<rightharpoonup> evfs_entry_descriptor"
  io_tasks :: "nat \<rightharpoonup> evfs_io_task"
  dm_fresh :: nat

record evfs_sys =
  vol :: evfs_vol
  dm :: evfs_descriptor_mgr

definition EVFS_MAX_WORKER :: nat where "EVFS_MAX_WORKER = 4"

definition evfs_io_background_worker0 :: evfs_io_background_worker where
  "evfs_io_background_worker0 = \<lparr>w_stop = False, head_of_tasks = [], count_of_tasks = 0\<rparr>"

definition evfs_descriptor_mgr0 :: evfs_descriptor_mgr where
  "evfs_descriptor_mgr0 = \<lparr>d_ready = kEvmgrNotReady, next_handle = 0, root_of_descriptors = AvlNull, head_of_descriptors = [], count_of_descriptors = 0,
     worker = replicate EVFS_MAX_WORKER evfs_io_background_worker0, descriptors = Map.empty, io_tasks = Map.empty, dm_fresh = 0\<rparr>"

definition sizeof_descriptor :: int where "sizeof_descriptor = 64"

definition sizeof_io_task :: int where "sizeof_io_task = 184"

definition sizeof_interator :: int where "sizeof_interator = 56"

definition EINPROGRESS :: int where "EINPROGRESS = 115"

text \<open>Operations of the entries on the whole system, allocation and updates of the heaps.\<close>

definition on_vol :: "(evfs_vol \<Rightarrow> ('a \<times> evfs_vol) option) \<Rightarrow> evfs_sys \<Rightarrow> ('a \<times> evfs_sys) option" where
  "on_vol f s = do { (r, v) \<leftarrow> f (vol s); Some (r, s\<lparr>vol := v\<rparr>) }"

definition on_store :: "(evfs_state \<Rightarrow> ('a \<times> evfs_state) option) \<Rightarrow> evfs_sys \<Rightarrow> ('a \<times> evfs_sys) option" where
  "on_store f s = do { (r, c) \<leftarrow> f (store (fsys (vol s))); Some (r, s\<lparr>vol := (vol s)\<lparr>fsys := (fsys (vol s))\<lparr>store := c\<rparr>\<rparr>\<rparr>) }"

definition silently :: "('s \<Rightarrow> 's option) \<Rightarrow> 's \<Rightarrow> (unit \<times> 's) option" where
  "silently f s = map_option (Pair ()) (f s)"

definition sys_malloc :: "int \<Rightarrow> evfs_sys \<Rightarrow> bytes option \<times> evfs_sys" where
  "sys_malloc n s = (case ent_malloc n (vol s) of (r, v) \<Rightarrow> (r, s\<lparr>vol := v\<rparr>))"

definition new_descriptor :: "evfs_entry_descriptor \<Rightarrow> evfs_sys \<Rightarrow> nat \<times> evfs_sys" where
  "new_descriptor d s = (dm_fresh (dm s), s\<lparr>dm := (dm s)\<lparr>descriptors := (descriptors (dm s))(dm_fresh (dm s) \<mapsto> d), dm_fresh := dm_fresh (dm s) + 1\<rparr>\<rparr>)"

definition new_io_task :: "evfs_io_task \<Rightarrow> evfs_sys \<Rightarrow> nat \<times> evfs_sys" where
  "new_io_task x s = (dm_fresh (dm s), s\<lparr>dm := (dm s)\<lparr>io_tasks := (io_tasks (dm s))(dm_fresh (dm s) \<mapsto> x), dm_fresh := dm_fresh (dm s) + 1\<rparr>\<rparr>)"

definition put_descriptor :: "nat \<Rightarrow> evfs_entry_descriptor \<Rightarrow> evfs_sys \<Rightarrow> evfs_sys" where
  "put_descriptor a d s = s\<lparr>dm := (dm s)\<lparr>descriptors := (descriptors (dm s))(a \<mapsto> d)\<rparr>\<rparr>"

definition drop_descriptor :: "nat \<Rightarrow> evfs_sys \<Rightarrow> evfs_sys" where
  "drop_descriptor a s = s\<lparr>dm := (dm s)\<lparr>descriptors := (descriptors (dm s))(a := None)\<rparr>\<rparr>"

definition put_io_task :: "nat \<Rightarrow> evfs_io_task \<Rightarrow> evfs_sys \<Rightarrow> evfs_sys" where
  "put_io_task t x s = s\<lparr>dm := (dm s)\<lparr>io_tasks := (io_tasks (dm s))(t \<mapsto> x)\<rparr>\<rparr>"

definition drop_io_task :: "nat \<Rightarrow> evfs_sys \<Rightarrow> evfs_sys" where
  "drop_io_task t s = s\<lparr>dm := (dm s)\<lparr>io_tasks := (io_tasks (dm s))(t := None)\<rparr>\<rparr>"

abbreviation get_descriptor :: "evfs_sys \<Rightarrow> nat \<Rightarrow> evfs_entry_descriptor option" where
  "get_descriptor s a \<equiv> descriptors (dm s) a"

abbreviation get_io_task :: "evfs_sys \<Rightarrow> nat \<Rightarrow> evfs_io_task option" where
  "get_io_task s t \<equiv> io_tasks (dm s) t"

definition evfs_ready :: "evfs_sys \<Rightarrow> bool" where
  "evfs_ready s \<longleftrightarrow> d_ready (dm s) = kEvmgrReady"

definition set_evfs_ready :: "evfs_ready_stat \<Rightarrow> evfs_sys \<Rightarrow> evfs_sys" where
  "set_evfs_ready r s = s\<lparr>dm := (dm s)\<lparr>d_ready := r\<rparr>\<rparr>"

section \<open>Descriptors\<close>

definition evfs_descriptor_compare :: "(int \<times> nat) avl_compare_fp" where
  "evfs_descriptor_compare l r = (if fst l > fst r then 1 else if fst l < fst r then - 1 else 0)"

text \<open>Linking a descriptor that is in the list already breaks the list.\<close>

definition evfs_queue_descriptor :: "nat \<Rightarrow> evfs_sys \<Rightarrow> evfs_sys option" where
  "evfs_queue_descriptor a s = do {
     d \<leftarrow> get_descriptor s a;
     if a \<in> set (head_of_descriptors (dm s)) then None
     else do {
       t \<leftarrow> avlinsert (root_of_descriptors (dm s)) (Some (d_handle d, a)) (Some evfs_descriptor_compare);
       Some (s\<lparr>dm := (dm s)\<lparr>head_of_descriptors := head_of_descriptors (dm s) @ [a], root_of_descriptors := t,
         count_of_descriptors := count_of_descriptors (dm s) + 1\<rparr>\<rparr>)
     }
   }"

definition evfs_dequeue_descriptor :: "nat \<Rightarrow> evfs_sys \<Rightarrow> evfs_sys option" where
  "evfs_dequeue_descriptor a s = do {
     d \<leftarrow> get_descriptor s a;
     (t, _) \<leftarrow> avlremove (root_of_descriptors (dm s)) (Some (d_handle d, a)) None (Some evfs_descriptor_compare);
     Some (s\<lparr>dm := (dm s)\<lparr>head_of_descriptors := remove1 a (head_of_descriptors (dm s)), root_of_descriptors := t,
       count_of_descriptors := count_of_descriptors (dm s) - 1\<rparr>\<rparr>)
   }"

definition evfs_search_descriptor :: "int \<Rightarrow> evfs_sys \<Rightarrow> nat option" where
  "evfs_search_descriptor h s = map_option snd (avlsearch (root_of_descriptors (dm s)) (Some (h, 0)) (Some evfs_descriptor_compare))"

definition evfs_reference_descriptor :: "int \<Rightarrow> evfs_sys \<Rightarrow> (nat option \<times> evfs_sys) option" where
  "evfs_reference_descriptor h s =
     (case evfs_search_descriptor h s of
        None \<Rightarrow> Some (None, s)
      | Some a \<Rightarrow> do {
          d \<leftarrow> get_descriptor s a;
          if kEvfsDescriptorActived = d_stat d then do {
            r \<leftarrow> c_int (d_refcnt d + 1);
            Some (Some a, put_descriptor a (d\<lparr>d_refcnt := r\<rparr>) s)
          } else Some (None, s)
        })"

definition evfs_dereference_descriptor :: "nat option \<Rightarrow> evfs_sys \<Rightarrow> evfs_sys option" where
  "evfs_dereference_descriptor dp s = do {
     a \<leftarrow> dp;
     d \<leftarrow> get_descriptor s a;
     let d = (if d_refcnt d > 0 then d\<lparr>d_refcnt := d_refcnt d - 1\<rparr> else d);
     let s = put_descriptor a d s;
     if 0 = d_refcnt d \<and> kEvfsDescriptorCloseWait = d_stat d then do {
       s \<leftarrow> evfs_queue_descriptor a s;
       Some (drop_descriptor a s)
     } else Some s
   }"

definition evfs_close_descriptor :: "nat \<Rightarrow> evfs_sys \<Rightarrow> evfs_sys option" where
  "evfs_close_descriptor a s = do {
     d \<leftarrow> get_descriptor s a;
     let d = (if kEvfsDescriptorActived = d_stat d then d\<lparr>d_stat := kEvfsDescriptorCloseWait\<rparr> else d);
     let s = put_descriptor a d s;
     if 0 = d_refcnt d then do {
       s \<leftarrow> evfs_dequeue_descriptor a s;
       Some (drop_descriptor a s)
     } else Some s
   }"

text \<open>The loop never moves its cursor: it looks at the first character again and again, which is \<^term>\<open>c\<close>. The result is the final counter.\<close>

fun legal_scan :: "int \<Rightarrow> nat \<Rightarrow> nat \<Rightarrow> nat option" where
  "legal_scan c i 0 = Some i"
| "legal_scan c i (Suc n) =
     (if c = 0 then Some i
      else if (c < 0x30 \<or> c > 0x39) \<and> (c < 97 \<or> c > 122) \<and> (c < 65 \<and> c > 90) \<and> c \<noteq> 95 \<and> c \<noteq> 46 then None
      else legal_scan c (i + 1) n)"

definition evfs_is_legal_key :: "bytes option \<Rightarrow> bool" where
  "evfs_is_legal_key key =
     (case key of
        None \<Rightarrow> False
      | Some k \<Rightarrow>
          (case legal_scan (case c_str k of [] \<Rightarrow> 0 | c # _ \<Rightarrow> sint c) 0 MAX_ENTRY_NAME_LENGTH of
             None \<Rightarrow> False
           | Some i \<Rightarrow> i \<noteq> MAX_ENTRY_NAME_LENGTH - 1))"

section \<open>What the workers do\<close>

definition evfs_create_entry_task :: "nat \<Rightarrow> evfs_sys \<Rightarrow> evfs_sys option" where
  "evfs_create_entry_task t s = do {
     x \<leftarrow> get_io_task s t;
     case t_descriptor x of
       Some a \<Rightarrow> do {
         d \<leftarrow> get_descriptor s a;
         (status, i, v) \<leftarrow> evfs_entries_create_one (t_data x) True (vol s);
         let d = (case i of None \<Rightarrow> d | Some i \<Rightarrow> d\<lparr>d_entry_id := i\<rparr>);
         Some (put_io_task t (x\<lparr>t_status := status\<rparr>) (put_descriptor a d (s\<lparr>vol := v\<rparr>)))
       }
     | None \<Rightarrow> do {
         (status, i, v) \<leftarrow> evfs_entries_create_one (t_data x) True (vol s);
         let x = (case i of None \<Rightarrow> x | Some i \<Rightarrow> x\<lparr>t_entry_id := i\<rparr>);
         Some (put_io_task t (x\<lparr>t_status := status\<rparr>) (s\<lparr>vol := v\<rparr>))
       }
   }"

definition move_offset :: "nat \<Rightarrow> int \<Rightarrow> evfs_sys \<Rightarrow> evfs_sys option" where
  "move_offset a n s =
     (if n > 0 then do {
        d \<leftarrow> get_descriptor s a;
        i \<leftarrow> c_int (d_offset d + n);
        Some (put_descriptor a (d\<lparr>d_offset := i\<rparr>) s)
      } else Some s)"

definition evfs_write_entry_task :: "nat \<Rightarrow> evfs_sys \<Rightarrow> evfs_sys option" where
  "evfs_write_entry_task t s = do {
     x \<leftarrow> get_io_task s t;
     (n, s) \<leftarrow> (case t_descriptor x of
         Some a \<Rightarrow> do {
           d \<leftarrow> get_descriptor s a;
           (n, s) \<leftarrow> on_vol (evfs_entries_write_data (d_entry_id d) (t_data x) (d_offset d) (t_length x)) s;
           s \<leftarrow> move_offset a n s;
           Some (n, s)
         }
       | None \<Rightarrow> on_vol (evfs_entries_write_data (t_entry_id x) (t_data x) 0 (t_length x)) s);
     Some (put_io_task t (x\<lparr>t_status := NSP_STATUS_SUCCESSFUL, t_retval := n\<rparr>) s)
   }"

definition evfs_read_entry_task :: "nat \<Rightarrow> evfs_sys \<Rightarrow> evfs_sys option" where
  "evfs_read_entry_task t s = do {
     x \<leftarrow> get_io_task s t;
     (n, b, s) \<leftarrow> (case t_descriptor x of
         Some a \<Rightarrow> do {
           d \<leftarrow> get_descriptor s a;
           (n, b, v) \<leftarrow> evfs_entries_read_data (d_entry_id d) (t_data x) (d_offset d) (t_length x) (vol s);
           s \<leftarrow> move_offset a n (s\<lparr>vol := v\<rparr>);
           Some (n, b, s)
         }
       | None \<Rightarrow> do {
           (n, b, v) \<leftarrow> evfs_entries_read_data (t_entry_id x) (t_data x) (t_offset x) (t_length x) (vol s);
           Some (n, b, s\<lparr>vol := v\<rparr>)
         });
     Some (put_io_task t (x\<lparr>t_data := b, t_status := NSP_STATUS_SUCCESSFUL, t_retval := n\<rparr>) s)
   }"

text \<open>The number of the entry of a task: from its descriptor, if it has one.\<close>

definition task_entry :: "evfs_io_task \<Rightarrow> evfs_sys \<Rightarrow> int option" where
  "task_entry x s = (case t_descriptor x of None \<Rightarrow> Some (t_entry_id x) | Some a \<Rightarrow> map_option d_entry_id (get_descriptor s a))"

definition evfs_truncate_entry_task :: "nat \<Rightarrow> evfs_sys \<Rightarrow> evfs_sys option" where
  "evfs_truncate_entry_task t s = do {
     x \<leftarrow> get_io_task s t;
     i \<leftarrow> task_entry x s;
     n \<leftarrow> c_int (t_length x + int MAX_ENTRY_NAME_LENGTH);
     (status, s) \<leftarrow> on_vol (evfs_entries_truncate i n) s;
     Some (put_io_task t (x\<lparr>t_status := status\<rparr>) s)
   }"

definition evfs_flush_entry_buffer_task :: "nat \<Rightarrow> evfs_sys \<Rightarrow> evfs_sys option" where
  "evfs_flush_entry_buffer_task t s = do {
     x \<leftarrow> get_io_task s t;
     i \<leftarrow> task_entry x s;
     (_, s) \<leftarrow> on_vol (silently (evfs_entries_flush i)) s;
     Some (put_io_task t (x\<lparr>t_status := NSP_STATUS_SUCCESSFUL\<rparr>) s)
   }"

definition evfs_flush_all_task :: "nat \<Rightarrow> evfs_sys \<Rightarrow> evfs_sys option" where
  "evfs_flush_all_task t s = do { (_, s) \<leftarrow> on_store (silently (evfs_cache_flush True)) s; Some s }"

definition evfs_earse_entry_task :: "nat \<Rightarrow> evfs_sys \<Rightarrow> evfs_sys option" where
  "evfs_earse_entry_task t s = do {
     x \<leftarrow> get_io_task s t;
     i \<leftarrow> task_entry x s;
     (status, s) \<leftarrow> (if t_descriptor x = None \<and> \<not> t_entry_id x > 0 then Some (posix__makeerror ENOENT, s) else on_vol (evfs_entries_hard_delete i) s);
     Some (put_io_task t (x\<lparr>t_status := status\<rparr>) s)
   }"

definition evfs_earse_entry_by_key_task :: "nat \<Rightarrow> evfs_sys \<Rightarrow> evfs_sys option" where
  "evfs_earse_entry_by_key_task t s = do {
     x \<leftarrow> get_io_task s t;
     (status, s) \<leftarrow> on_vol (evfs_entries_hard_delete_by_name (t_data x)) s;
     Some (put_io_task t (x\<lparr>t_status := status\<rparr>) s)
   }"

text \<open>The table of handlers. The entries of \<^const>\<open>kEvfsIoTaskFlushAll\<close> and \<^const>\<open>kEvfsIoTaskSetCache\<close> name the one that reads.\<close>

fun evfs_io_task_exec :: "evfs_io_task_type \<Rightarrow> nat \<Rightarrow> evfs_sys \<Rightarrow> evfs_sys option" where
  "evfs_io_task_exec kEvfsIoTaskRead = evfs_read_entry_task"
| "evfs_io_task_exec kEvfsIoTaskWrite = evfs_write_entry_task"
| "evfs_io_task_exec kEvfsIoTaskTruncate = evfs_truncate_entry_task"
| "evfs_io_task_exec kEvfsIoTaskFlush = evfs_flush_entry_buffer_task"
| "evfs_io_task_exec kEvfsIoTaskFlushAll = evfs_read_entry_task"
| "evfs_io_task_exec kEvfsIoTaskErase = evfs_earse_entry_task"
| "evfs_io_task_exec kEvfsIoTaskEraseByKey = evfs_earse_entry_by_key_task"
| "evfs_io_task_exec kEvfsIoTaskCreate = evfs_create_entry_task"
| "evfs_io_task_exec kEvfsIoTaskSetCache = evfs_read_entry_task"

section \<open>Workers\<close>

definition get_worker :: "nat \<Rightarrow> evfs_sys \<Rightarrow> evfs_io_background_worker option" where
  "get_worker w s = (if w < length (worker (dm s)) then Some (worker (dm s) ! w) else None)"

definition put_worker :: "nat \<Rightarrow> evfs_io_background_worker \<Rightarrow> evfs_sys \<Rightarrow> evfs_sys" where
  "put_worker w x s = s\<lparr>dm := (dm s)\<lparr>worker := (worker (dm s))[w := x]\<rparr>\<rparr>"

partial_function (option) evfs_pop_task_until_empty :: "nat \<Rightarrow> evfs_sys \<Rightarrow> evfs_sys option" where
  "evfs_pop_task_until_empty w s = Option.bind (get_worker w s) (\<lambda>k.
     case head_of_tasks k of
       [] \<Rightarrow> Some s
     | t # ts \<Rightarrow> Option.bind (get_io_task s t) (\<lambda>x.
         Option.bind (evfs_io_task_exec (t_type x) t (put_worker w (k\<lparr>head_of_tasks := ts, count_of_tasks := count_of_tasks k - 1\<rparr>) s)) (\<lambda>s.
           evfs_pop_task_until_empty w (if t_no_wait x then drop_io_task t s else s))))"

text \<open>One turn of the loop of a worker, and its last one: the queue is emptied. The result says whether the loop goes on.\<close>

definition evfs_worker_proc :: "nat \<Rightarrow> evfs_sys \<Rightarrow> (bool \<times> evfs_sys) option" where
  "evfs_worker_proc w s = do { k \<leftarrow> get_worker w s; s \<leftarrow> evfs_pop_task_until_empty w s; Some (\<not> w_stop k, s) }"

definition evfs_io_push_task_and_notify_run :: "nat \<Rightarrow> nat \<Rightarrow> evfs_sys \<Rightarrow> (nsp_status \<times> evfs_sys) option" where
  "evfs_io_push_task_and_notify_run w t s = do {
     k \<leftarrow> get_worker w s;
     if w_stop k then Some (posix__makeerror ENODEV, s)
     else if count_of_tasks k \<ge> EVFS_MAX_IO_PENDING_COUNT then Some (posix__makeerror ENOMEM, s)
     else Some (NSP_STATUS_SUCCESSFUL, put_worker w (k\<lparr>head_of_tasks := head_of_tasks k @ [t], count_of_tasks := count_of_tasks k + 1\<rparr>) s)
   }"

text \<open>The result is the status and the task as it was when it was released.\<close>

definition evfs_io_wait_background_compelete :: "nat \<Rightarrow> nat \<Rightarrow> evfs_sys \<Rightarrow> (nsp_status \<times> evfs_io_task \<times> evfs_sys) option" where
  "evfs_io_wait_background_compelete w t s = do {
     x \<leftarrow> get_io_task s t;
     if t_no_wait x then Some (NSP_STATUS_SUCCESSFUL, x, s)
     else do {
       s \<leftarrow> evfs_pop_task_until_empty w s;
       x \<leftarrow> get_io_task s t;
       Some (t_status x, x, drop_io_task t s)
     }
   }"

text \<open>The worker of an entry; a negative index leaves the array.\<close>

definition worker_of :: "int \<Rightarrow> nat option" where
  "worker_of i = (if 0 \<le> i \<or> i mod int EVFS_MAX_WORKER = 0 then Some (nat (i mod int EVFS_MAX_WORKER)) else None)"

definition io_task :: "evfs_io_task_type \<Rightarrow> bytes option \<Rightarrow> int \<Rightarrow> int \<Rightarrow> int \<Rightarrow> nsp_status \<Rightarrow> nat option \<Rightarrow> evfs_io_task" where
  "io_task ty data i off n status dp = \<lparr>t_status = status, t_entry_id = i, t_offset = off, t_length = n, t_data = data, t_type = ty, t_retval = 0,
     t_no_wait = False, t_descriptor = dp\<rparr>"

text \<open>What the callers have in common once a task is allocated: queue it, wait for it, and release it. Without a task in the result it was not queued.\<close>

definition perform :: "nat \<Rightarrow> evfs_io_task \<Rightarrow> evfs_sys \<Rightarrow> (nsp_status \<times> evfs_io_task option \<times> evfs_sys) option" where
  "perform w x s = do {
     let (t, s) = new_io_task x s;
     (status, s) \<leftarrow> evfs_io_push_task_and_notify_run w t s;
     if \<not> NSP_SUCCESS status then Some (status, None, drop_io_task t s)
     else do {
       (status, x, s) \<leftarrow> evfs_io_wait_background_compelete w t s;
       Some (status, Some x, s)
     }
   }"

section \<open>Starting and stopping\<close>

definition start_workers :: "evfs_sys \<Rightarrow> evfs_sys" where
  "start_workers s = s\<lparr>dm := (dm s)\<lparr>next_handle := 0, worker := replicate EVFS_MAX_WORKER evfs_io_background_worker0\<rparr>\<rparr>"

text \<open>\<^term>\<open>created\<close> is the status with which the thread of the cache starts; that of the workers is not looked at.\<close>

definition evfs_create :: "nsp_status \<Rightarrow> string option \<Rightarrow> int \<Rightarrow> int \<Rightarrow> int \<Rightarrow> evfs_sys \<Rightarrow> (nsp_status \<times> evfs_sys) option" where
  "evfs_create created path cs cc n s =
     (if path = None \<or> cs \<le> 0 \<or> cc \<le> 0 then Some (posix__makeerror EINVAL, s)
      else if d_ready (dm s) \<noteq> kEvmgrNotReady then Some (posix__makeerror EEXIST, s)
      else do {
        let s = set_evfs_ready kEvmgrInitializing s;
        (status, s) \<leftarrow> on_store (evfs_cache_init created path n (Some (cs, cc))) s;
        if \<not> NSP_SUCCESS status then Some (status, set_evfs_ready kEvmgrNotReady s)
        else do {
          (status, s) \<leftarrow> on_vol evfs_entries_create s;
          if \<not> NSP_SUCCESS status then do {
            (_, s) \<leftarrow> on_store (silently evfs_cache_uninit) s;
            Some (status, set_evfs_ready kEvmgrNotReady s)
          } else Some (status, set_evfs_ready kEvmgrReady (start_workers s))
        }
      })"

text \<open>\<^term>\<open>buf\<close> is what the local structure of \<^verbatim>\<open>evfs_view_load\<close> holds before the first read.\<close>

definition evfs_open :: "nsp_status \<Rightarrow> bytes \<Rightarrow> string option \<Rightarrow> int \<Rightarrow> evfs_sys \<Rightarrow> (nsp_status \<times> evfs_sys) option" where
  "evfs_open created buf path n s =
     (if path = None then Some (posix__makeerror EINVAL, s)
      else if d_ready (dm s) \<noteq> kEvmgrNotReady then Some (posix__makeerror EEXIST, s)
      else do {
        let s = set_evfs_ready kEvmgrInitializing s;
        (status, s) \<leftarrow> on_store (evfs_cache_init created path n None) s;
        if \<not> NSP_SUCCESS status then Some (status, set_evfs_ready kEvmgrNotReady s)
        else do {
          (status, s) \<leftarrow> on_vol (evfs_entries_load buf) s;
          if \<not> NSP_SUCCESS status then do {
            (_, s) \<leftarrow> on_store (silently evfs_cache_uninit) s;
            Some (status, set_evfs_ready kEvmgrNotReady s)
          } else Some (status, set_evfs_ready kEvmgrReady (start_workers s))
        }
      })"

text \<open>Every worker is told to stop and finishes what is in its queue.\<close>

fun stop_workers :: "nat \<Rightarrow> nat \<Rightarrow> evfs_sys \<Rightarrow> evfs_sys option" where
  "stop_workers w 0 s = Some s"
| "stop_workers w (Suc n) s = do {
     k \<leftarrow> get_worker w s;
     (_, s) \<leftarrow> evfs_worker_proc w (put_worker w (k\<lparr>w_stop := True\<rparr>) s);
     stop_workers (w + 1) n s
   }"

partial_function (option) close_all :: "evfs_sys \<Rightarrow> evfs_sys option" where
  "close_all s = (case head_of_descriptors (dm s) of [] \<Rightarrow> Some s | a # _ \<Rightarrow> Option.bind (evfs_close_descriptor a s) close_all)"

definition evfs_close :: "evfs_sys \<Rightarrow> evfs_sys option" where
  "evfs_close s =
     (if d_ready (dm s) \<noteq> kEvmgrReady then Some s
      else do {
        s \<leftarrow> stop_workers 0 EVFS_MAX_WORKER (set_evfs_ready kEvmgrUninitializing s);
        s \<leftarrow> close_all s;
        (_, s) \<leftarrow> on_vol (silently evfs_entries_uninit) s;
        (_, s) \<leftarrow> on_store (silently evfs_cache_uninit) s;
        Some (set_evfs_ready kEvmgrNotReady (s\<lparr>dm := (dm s)\<lparr>next_handle := - 1\<rparr>\<rparr>))
      })"

text \<open>Nobody waits for the task of \<^verbatim>\<open>evfs_flush\<close>, and nobody releases it.\<close>

definition evfs_flush :: "evfs_sys \<Rightarrow> evfs_sys option" where
  "evfs_flush s =
     (if \<not> evfs_ready s then Some s
      else
        (case sys_malloc sizeof_io_task s of
           (None, s) \<Rightarrow> Some s
         | (Some _, s) \<Rightarrow> do {
             let (t, s) = new_io_task (io_task kEvfsIoTaskFlushAll None 0 0 0 0 None) s;
             (_, s) \<leftarrow> evfs_io_push_task_and_notify_run 0 t s;
             Some s
           }))"

text \<open>The statistics without the hit rate, which is a float.\<close>

record evfs_stat =
  st_file_size :: int
  st_cluster_size :: int
  st_cluster_count :: int
  st_cluster_idle :: int
  st_cluster_busy :: int
  st_entry_count :: int
  st_cache_block_num :: int

definition evfs_query_stat :: "bool \<Rightarrow> evfs_sys \<Rightarrow> (nsp_status \<times> evfs_stat option \<times> evfs_sys) option" where
  "evfs_query_stat evstat s =
     (if \<not> evstat \<or> \<not> evfs_ready s then Some (posix__makeerror EINVAL, None, s)
      else do {
        ((status, hard), s) \<leftarrow> on_store (\<lambda>c. do { (status, hard, c) \<leftarrow> evfs_cache_hard_state True c; Some ((status, hard), c) }) s;
        if \<not> NSP_SUCCESS status then Some (status, None, s)
        else do {
          hard \<leftarrow> hard;
          let (status, views, n) = evfs_entries_soft_stat True (vol s);
          (i, b) \<leftarrow> views;
          n \<leftarrow> n;
          Some (NSP_STATUS_SUCCESSFUL, Some \<lparr>st_file_size = file_size hard, st_cluster_size = hard_cluster_size hard, st_cluster_count = hard_cluster_count hard,
            st_cluster_idle = i, st_cluster_busy = b, st_entry_count = n, st_cache_block_num = stat_cache_block_num hard\<rparr>, s)
        }
      })"

definition evfs_set_cache_block_num :: "int \<Rightarrow> evfs_sys \<Rightarrow> (nsp_status \<times> evfs_sys) option" where
  "evfs_set_cache_block_num n s = (if \<not> evfs_ready s then Some (posix__makeerror EINVAL, s) else on_store (evfs_cache_set_block_num n) s)"

section \<open>Entries\<close>

definition evfs_descriptor0 :: evfs_entry_descriptor where
  "evfs_descriptor0 = \<lparr>d_handle = 0, d_entry_id = 0, d_offset = 0, d_refcnt = 0, d_stat = kEvfsDescriptorClosed\<rparr>"

text \<open>A descriptor gets the next handle (the counter wraps) and becomes known. Descriptors are allocated zeroed, so opening one need not reset its offset.\<close>

definition activate :: "nat \<Rightarrow> evfs_sys \<Rightarrow> (int \<times> evfs_sys) option" where
  "activate a s = do {
     d \<leftarrow> get_descriptor s a;
     let h = to_int (next_handle (dm s) + 1);
     s \<leftarrow> evfs_queue_descriptor a (put_descriptor a (d\<lparr>d_handle := h, d_offset := 0, d_stat := kEvfsDescriptorActived\<rparr>) (s\<lparr>dm := (dm s)\<lparr>next_handle := h\<rparr>\<rparr>));
     Some (h, s)
   }"

definition evfs_create_entry :: "bytes option \<Rightarrow> evfs_sys \<Rightarrow> (int \<times> evfs_sys) option" where
  "evfs_create_entry key s =
     (if key = None \<or> \<not> evfs_ready s then Some (posix__makeerror EINVAL, s)
      else if \<not> evfs_is_legal_key key then Some (posix__makeerror EINVAL, s)
      else
        (case sys_malloc sizeof_descriptor s of
           (None, s) \<Rightarrow> Some (- 1, s)
         | (Some _, s) \<Rightarrow> do {
             let (a, s) = new_descriptor evfs_descriptor0 s;
             case sys_malloc sizeof_io_task s of
               (None, s) \<Rightarrow> Some (- 1, drop_descriptor a s)
             | (Some _, s) \<Rightarrow> do {
                 (status, x, s) \<leftarrow> perform 0 (io_task kEvfsIoTaskCreate key 0 0 0 0 (Some a)) s;
                 if x \<noteq> None \<and> NSP_SUCCESS status then activate a s
                 else Some (- 1, drop_descriptor a s)
               }
           }))"

definition evfs_open_entry :: "int \<Rightarrow> evfs_sys \<Rightarrow> (int \<times> evfs_sys) option" where
  "evfs_open_entry i s =
     (if i < 0 \<or> \<not> evfs_ready s then Some (posix__makeerror EINVAL, s)
      else
        (case sys_malloc sizeof_descriptor s of
           (None, s) \<Rightarrow> Some (posix__makeerror ENOMEM, s)
         | (Some _, s) \<Rightarrow> do {
             let (a, s) = new_descriptor evfs_descriptor0 s;
             (status, s) \<leftarrow> on_vol (evfs_entries_open_one i) s;
             if \<not> NSP_SUCCESS status then Some (status, drop_descriptor a s)
             else activate a (put_descriptor a (evfs_descriptor0\<lparr>d_entry_id := i\<rparr>) s)
           }))"

definition evfs_open_entry_by_key :: "bytes option \<Rightarrow> evfs_sys \<Rightarrow> (int \<times> evfs_sys) option" where
  "evfs_open_entry_by_key key s =
     (if key = None \<or> \<not> evfs_ready s then Some (- 1, s)
      else if \<not> evfs_is_legal_key key then Some (posix__makeerror EINVAL, s)
      else
        (case sys_malloc sizeof_descriptor s of
           (None, s) \<Rightarrow> Some (- 1, s)
         | (Some _, s) \<Rightarrow> do {
             let (a, s) = new_descriptor evfs_descriptor0 s;
             (status, i, v) \<leftarrow> evfs_entries_open_one_by_name key True (vol s);
             let s = s\<lparr>vol := v\<rparr>;
             if \<not> NSP_SUCCESS status then Some (- 1, drop_descriptor a s)
             else do { i \<leftarrow> i; activate a (put_descriptor a (evfs_descriptor0\<lparr>d_entry_id := i\<rparr>) s) }
           }))"

definition query_length :: "int \<Rightarrow> nat \<Rightarrow> evfs_sys \<Rightarrow> (int \<times> evfs_sys) option" where
  "query_length h a s = do {
     d \<leftarrow> get_descriptor s a;
     (n, s) \<leftarrow> on_vol (evfs_entries_query_user_seg_size (d_entry_id d)) s;
     s \<leftarrow> evfs_dereference_descriptor (Some a) s;
     Some (n, s)
   }"

definition evfs_get_entry_size :: "int \<Rightarrow> evfs_sys \<Rightarrow> (int \<times> evfs_sys) option" where
  "evfs_get_entry_size h s =
     (if h < 0 \<or> \<not> evfs_ready s then Some (- 1, s)
      else do {
        (dp, s) \<leftarrow> evfs_reference_descriptor h s;
        case dp of None \<Rightarrow> Some (- 1, s) | Some a \<Rightarrow> query_length h a s
      })"

definition evfs_query_entry_length :: "int \<Rightarrow> evfs_sys \<Rightarrow> (int \<times> evfs_sys) option" where
  "evfs_query_entry_length h s =
     (if h \<le> 0 \<or> \<not> evfs_ready s then Some (posix__makeerror EINVAL, s)
      else do {
        (dp, s) \<leftarrow> evfs_reference_descriptor h s;
        case dp of None \<Rightarrow> Some (posix__makeerror ENOENT, s) | Some a \<Rightarrow> query_length h a s
      })"

definition evfs_close_entry :: "int \<Rightarrow> evfs_sys \<Rightarrow> evfs_sys option" where
  "evfs_close_entry h s =
     (if h < 0 \<or> \<not> evfs_ready s then Some s
      else do {
        (dp, s) \<leftarrow> evfs_reference_descriptor h s;
        case dp of
          None \<Rightarrow> Some s
        | Some a \<Rightarrow> do {
            d \<leftarrow> get_descriptor s a;
            s \<leftarrow> (if d_entry_id d > 0 then do { (_, s) \<leftarrow> on_vol (silently (evfs_entries_close_one (d_entry_id d))) s; Some s } else Some s);
            s \<leftarrow> evfs_dereference_descriptor (Some a) s;
            evfs_close_descriptor a s
          }
      })"

text \<open>
  Reading and writing have this in common. Without memory for the task the reference to the descriptor is not given back, and with an unknown
  handle a NULL pointer is. The result has the block of the task afterwards.
\<close>

definition transfer :: "evfs_io_task_type \<Rightarrow> int \<Rightarrow> bytes option \<Rightarrow> int \<Rightarrow> evfs_sys \<Rightarrow> (int \<times> bytes option \<times> evfs_sys) option" where
  "transfer ty h data n s =
     (if h \<le> 0 \<or> data = None \<or> n \<le> 0 \<or> \<not> evfs_ready s then Some (posix__makeerror EINVAL, data, s)
      else do {
        (dp, s) \<leftarrow> evfs_reference_descriptor h s;
        a \<leftarrow> dp;
        d \<leftarrow> get_descriptor s a;
        case sys_malloc sizeof_io_task s of
          (None, s) \<Rightarrow> Some (posix__makeerror ENOMEM, data, s)
        | (Some _, s) \<Rightarrow> do {
            w \<leftarrow> worker_of (d_entry_id d);
            (status, x, s) \<leftarrow> perform w (io_task ty data (d_entry_id d) (d_offset d) n EINPROGRESS (Some a)) s;
            s \<leftarrow> evfs_dereference_descriptor (Some a) s;
            Some (case x of None \<Rightarrow> (0, data, s) | Some x \<Rightarrow> (t_retval x, t_data x, s))
          }
      })"

definition evfs_write_entry :: "int \<Rightarrow> bytes option \<Rightarrow> int \<Rightarrow> evfs_sys \<Rightarrow> (int \<times> evfs_sys) option" where
  "evfs_write_entry h data n s = do { (r, _, s) \<leftarrow> transfer kEvfsIoTaskWrite h data n s; Some (r, s) }"

definition evfs_read_entry :: "int \<Rightarrow> bytes option \<Rightarrow> int \<Rightarrow> evfs_sys \<Rightarrow> (int \<times> bytes option \<times> evfs_sys) option" where
  "evfs_read_entry h data n s = transfer kEvfsIoTaskRead h data n s"

definition evfs_seek_entry_offset :: "int \<Rightarrow> int \<Rightarrow> evfs_sys \<Rightarrow> (nsp_status \<times> evfs_sys) option" where
  "evfs_seek_entry_offset h seek s =
     (if h \<le> 0 \<or> \<not> evfs_ready s \<or> seek < 0 then Some (posix__makeerror EINVAL, s)
      else do {
        (dp, s) \<leftarrow> evfs_reference_descriptor h s;
        case dp of
          None \<Rightarrow> Some (posix__makeerror ENOENT, s)
        | Some a \<Rightarrow> do {
            d \<leftarrow> get_descriptor s a;
            s \<leftarrow> evfs_dereference_descriptor (Some a) (put_descriptor a (d\<lparr>d_offset := seek\<rparr>) s);
            Some (NSP_STATUS_SUCCESSFUL, s)
          }
      })"

text \<open>Truncating, flushing and erasing by handle differ in the task.\<close>

definition by_handle :: "evfs_io_task_type \<Rightarrow> int \<Rightarrow> int \<Rightarrow> evfs_sys \<Rightarrow> (nsp_status \<times> evfs_sys) option" where
  "by_handle ty h n s = do {
     (dp, s) \<leftarrow> evfs_reference_descriptor h s;
     case dp of
       None \<Rightarrow> Some (posix__makeerror ENOENT, s)
     | Some a \<Rightarrow> do {
         d \<leftarrow> get_descriptor s a;
         (status, s) \<leftarrow> (case sys_malloc sizeof_io_task s of
             (None, s) \<Rightarrow> Some (posix__makeerror ENOMEM, s)
           | (Some _, s) \<Rightarrow> do {
               w \<leftarrow> worker_of (d_entry_id d);
               (status, _, s) \<leftarrow> perform w (io_task ty None (d_entry_id d) 0 n EINPROGRESS (Some a)) s;
               Some (status, s)
             });
         s \<leftarrow> evfs_dereference_descriptor (Some a) s;
         Some (status, s)
       }
   }"

definition evfs_truncate_entry :: "int \<Rightarrow> int \<Rightarrow> evfs_sys \<Rightarrow> (nsp_status \<times> evfs_sys) option" where
  "evfs_truncate_entry h n s = (if h \<le> 0 \<or> \<not> evfs_ready s \<or> n < 0 then Some (posix__makeerror EINVAL, s) else by_handle kEvfsIoTaskTruncate h n s)"

definition evfs_flush_entry_buffer :: "int \<Rightarrow> evfs_sys \<Rightarrow> evfs_sys option" where
  "evfs_flush_entry_buffer h s = (if h \<le> 0 \<or> \<not> evfs_ready s then Some s else map_option snd (by_handle kEvfsIoTaskFlush h 0 s))"

definition evfs_earse_entry :: "int \<Rightarrow> evfs_sys \<Rightarrow> (nsp_status \<times> evfs_sys) option" where
  "evfs_earse_entry h s = (if h \<le> 0 \<or> \<not> evfs_ready s then Some (posix__makeerror EINVAL, s) else by_handle kEvfsIoTaskErase h 0 s)"

definition evfs_earse_entry_by_key :: "bytes option \<Rightarrow> evfs_sys \<Rightarrow> (nsp_status \<times> evfs_sys) option" where
  "evfs_earse_entry_by_key name s =
     (if name = None \<or> \<not> evfs_ready s then Some (posix__makeerror EINVAL, s)
      else
        (case sys_malloc sizeof_io_task s of
           (None, s) \<Rightarrow> Some (posix__makeerror ENOMEM, s)
         | (Some _, s) \<Rightarrow> do {
             (i, s) \<leftarrow> on_vol (evfs_entries_get_entry_id_by_name name) s;
             if i \<le> 0 then Some (posix__makeerror ENOENT, s)
             else do {
               w \<leftarrow> worker_of i;
               (status, _, s) \<leftarrow> perform w (io_task kEvfsIoTaskEraseByKey name i 0 0 EINPROGRESS None) s;
               Some (status, s)
             }
           }))"

section \<open>Iterators\<close>

text \<open>An iterator is handed from call to call; \<^term>\<open>None\<close> is NULL, and an iterator that comes to the end is released.\<close>

record evfs_interator =
  it_magic :: int
  it_pos :: "nat option option"
  it_entry_id :: int
  it_length :: int
  it_key :: bytes

definition EVFS_ITERATOR_MAGIC :: int where "EVFS_ITERATOR_MAGIC = 0x72657449"

definition evfs_iterate_entries :: "evfs_interator option \<Rightarrow> evfs_sys \<Rightarrow> (evfs_interator option \<times> evfs_sys) option" where
  "evfs_iterate_entries iterator s =
     (if \<not> evfs_ready s then Some (None, s)
      else
        (case (case iterator of
              Some it \<Rightarrow> (Some it, s)
            | None \<Rightarrow> (case sys_malloc sizeof_interator s of
                (None, s) \<Rightarrow> (None, s)
              | (Some _, s) \<Rightarrow> (Some \<lparr>it_magic = EVFS_ITERATOR_MAGIC, it_pos = None, it_entry_id = - 1, it_length = 0,
                  it_key = replicate MAX_ENTRY_NAME_LENGTH 0\<rparr>, s))) of
           (None, s) \<Rightarrow> Some (None, s)
         | (Some it, s) \<Rightarrow>
             if it_magic it \<noteq> EVFS_ITERATOR_MAGIC then Some (None, s)
             else do {
               (i, pos) \<leftarrow> evfs_entries_iterate (it_pos it) (vol s);
               if i \<le> 0 then Some (None, s)
               else do {
                 (_, key, v) \<leftarrow> evfs_entries_query_key i (Some (it_key it)) (vol s);
                 key \<leftarrow> key;
                 (n, v) \<leftarrow> evfs_entries_query_user_seg_size i v;
                 Some (Some (it\<lparr>it_pos := pos, it_entry_id := i, it_key := key, it_length := n\<rparr>), s\<lparr>vol := v\<rparr>)
               }
             }))"

definition evfs_read_iterator_entry :: "evfs_interator option \<Rightarrow> bytes option \<Rightarrow> int \<Rightarrow> evfs_sys \<Rightarrow> (int \<times> bytes option \<times> evfs_sys) option" where
  "evfs_read_iterator_entry iterator data n s =
     (case iterator of
        None \<Rightarrow> Some (0, data, s)
      | Some it \<Rightarrow>
          if data = None \<or> n \<le> 0 \<or> \<not> evfs_ready s \<or> it_magic it \<noteq> EVFS_ITERATOR_MAGIC then Some (0, data, s)
          else
            (case sys_malloc sizeof_io_task s of
               (None, s) \<Rightarrow> Some (posix__makeerror ENOMEM, data, s)
             | (Some _, s) \<Rightarrow> do {
                 w \<leftarrow> worker_of (it_entry_id it);
                 (status, x, s) \<leftarrow> perform w (io_task kEvfsIoTaskRead data (it_entry_id it) 0 n EINPROGRESS None) s;
                 Some (case x of None \<Rightarrow> (0, data, s) | Some x \<Rightarrow> (t_retval x, t_data x, s))
               }))"

definition iterator_field :: "'a \<Rightarrow> (evfs_interator \<Rightarrow> 'a) \<Rightarrow> evfs_interator option \<Rightarrow> 'a" where
  "iterator_field e f iterator = (case iterator of None \<Rightarrow> e | Some it \<Rightarrow> if it_magic it = EVFS_ITERATOR_MAGIC then f it else e)"

definition evfs_get_iterator_entry_id :: "evfs_interator option \<Rightarrow> int" where
  "evfs_get_iterator_entry_id = iterator_field (- 1) it_entry_id"

definition evfs_get_iterator_entry_key :: "evfs_interator option \<Rightarrow> bytes option" where
  "evfs_get_iterator_entry_key = iterator_field None (\<lambda>it. Some (it_key it))"

definition evfs_get_iterator_entry_size :: "evfs_interator option \<Rightarrow> int" where
  "evfs_get_iterator_entry_size = iterator_field (- 1) it_length"

text \<open>Every key is legal: the tests in the loop cannot fail, and the counter ends at 0 or 32.\<close>

lemma legal_scan_end: "c \<noteq> 0 \<Longrightarrow> legal_scan c i n = Some (i + n)"
  by (induction n arbitrary: i) auto

lemma evfs_every_key_legal: "evfs_is_legal_key (Some k)"
proof -
  define c where "c = (case c_str k of [] \<Rightarrow> 0 | x # _ \<Rightarrow> sint x)"
  have "legal_scan c 0 MAX_ENTRY_NAME_LENGTH = Some (if c = 0 then 0 else MAX_ENTRY_NAME_LENGTH)"
    using legal_scan_end [of c 0 MAX_ENTRY_NAME_LENGTH] by (auto simp: MAX_ENTRY_NAME_LENGTH_def numeral_eq_Suc)
  then show ?thesis by (simp add: evfs_is_legal_key_def c_def [symmetric] MAX_ENTRY_NAME_LENGTH_def)
qed

end
