(* ===== verification/EvfsDesk.thy ===== *)
theory EvfsDesk
  imports Evfs
begin

text \<open>
  The descriptors and the workers of \<^verbatim>\<open>addons/evfs/evfs.c\<close> between two calls: the table of descriptors is a map from handles to the number of an
  entry and an offset, and every queue is empty.
\<close>

section \<open>The table of descriptors\<close>

lemma compare_descriptor_same: "evfs_descriptor_compare = evfs_entries_compare_entry_head"
  by (auto simp: fun_eq_iff evfs_descriptor_compare_def evfs_entries_compare_entry_head_def)

lemma search_descriptor_index: "evfs_search_descriptor h s = index_of (root_of_descriptors (dm s)) h"
  by (simp add: evfs_search_descriptor_def index_of_def index_lookup_def compare_descriptor_same compare_head_same)

abbreviation descr :: "int \<Rightarrow> int \<Rightarrow> int \<Rightarrow> int \<Rightarrow> evfs_entry_descriptor" where
  "descr h i off n \<equiv> \<lparr>d_handle = h, d_entry_id = i, d_offset = off, d_refcnt = n, d_stat = kEvfsDescriptorActived\<rparr>"

definition table :: "evfs_descriptor_mgr \<Rightarrow> (int \<rightharpoonup> int \<times> int) \<Rightarrow> nat \<Rightarrow> bool" where
  "table m G nx \<longleftrightarrow> index_ok (root_of_descriptors m) \<and> distinct (head_of_descriptors m) \<and> (\<forall>a \<in> dom (descriptors m). a < dm_fresh m) \<and>
     (\<forall>h a. index_of (root_of_descriptors m) h = Some a \<longrightarrow> a \<in> set (head_of_descriptors m) \<and>
       (\<exists>i off. G h = Some (i, off) \<and> descriptors m a = Some (descr h i off 0) \<and> 0 < h \<and> h \<le> int nx)) \<and>
     (\<forall>h. index_of (root_of_descriptors m) h = None \<longrightarrow> G h = None) \<and>
     (\<forall>a \<in> set (head_of_descriptors m). \<exists>h. index_of (root_of_descriptors m) h = Some a)"

definition desk :: "evfs_descriptor_mgr \<Rightarrow> (int \<rightharpoonup> int \<times> int) \<Rightarrow> nat \<Rightarrow> bool" where
  "desk m G nx \<longleftrightarrow> table m G nx \<and> d_ready m = kEvmgrReady \<and> next_handle m = int nx \<and> worker m = replicate EVFS_MAX_WORKER evfs_io_background_worker0"

lemma table_found:
  assumes "table m G nx" "G h = Some (i, off)"
  obtains a where "index_of (root_of_descriptors m) h = Some a" "a \<in> set (head_of_descriptors m)" "descriptors m a = Some (descr h i off 0)" "0 < h" "h \<le> int nx"
proof -
  obtain a where "index_of (root_of_descriptors m) h = Some a" using assms unfolding table_def by (metis not_Some_eq option.distinct(1))
  then show thesis using assms that unfolding table_def by fastforce
qed

lemma table_absent: "table m G nx \<Longrightarrow> G h = None \<Longrightarrow> index_of (root_of_descriptors m) h = None"
  unfolding table_def by (metis not_Some_eq option.distinct(1))

lemma table_handles: "table m G nx \<Longrightarrow> G h = Some x \<Longrightarrow> 0 < h \<and> h \<le> int nx"
  using table_found [of m G nx h "fst x" "snd x"] by auto

lemma table_fresh: "table m G nx \<Longrightarrow> dm_fresh m \<notin> set (head_of_descriptors m) \<and> descriptors m (dm_fresh m) = None"
  unfolding table_def by (metis domI less_irrefl not_Some_eq)

text \<open>What the table does not mention may change: the tasks, and descriptors that are not in the list.\<close>

lemma table_cong:
  assumes t: "table m G nx" and "root_of_descriptors m' = root_of_descriptors m" "head_of_descriptors m' = head_of_descriptors m"
    and "\<And>a. a \<in> set (head_of_descriptors m) \<Longrightarrow> descriptors m' a = descriptors m a" "\<And>a. a \<in> dom (descriptors m') \<Longrightarrow> a < dm_fresh m'"
  shows "table m' G nx"
proof -
  have "\<exists>i off. G h = Some (i, off) \<and> descriptors m' a = Some (descr h i off 0) \<and> 0 < h \<and> h \<le> int nx" if "index_of (root_of_descriptors m) h = Some a" for h a
    using t that assms(4) [of a] unfolding table_def by metis
  then show ?thesis using t assms(2,3,5) unfolding table_def by simp
qed

text \<open>A descriptor changes.\<close>

lemma table_changed:
  assumes t: "table m G nx" and a: "index_of (root_of_descriptors m) h = Some a"
    and m': "root_of_descriptors m' = root_of_descriptors m" "head_of_descriptors m' = head_of_descriptors m"
      "descriptors m' = (descriptors m)(a \<mapsto> descr h i off 0)" "dm_fresh m \<le> dm_fresh m'"
  shows "table m' (G(h \<mapsto> (i, off))) nx"
proof -
  have h: "0 < h" "h \<le> int nx" "a < dm_fresh m" using t a unfolding table_def by (metis, metis, metis domI)
  have ne: "b \<noteq> a" if "index_of (root_of_descriptors m) g = Some b" "g \<noteq> h" for g b
    using t that a unfolding table_def by (metis evfs_entry_descriptor.ext_inject option.inject)
  have "\<exists>j x. (G(h \<mapsto> (i, off))) g = Some (j, x) \<and> descriptors m' b = Some (descr g j x 0) \<and> 0 < g \<and> g \<le> int nx" if b: "index_of (root_of_descriptors m) g = Some b" for g b
  proof (cases "g = h")
    case True
    then show ?thesis using b a m'(3) h by simp
  next
    case False
    then show ?thesis using ne [OF b False] t b m'(3) unfolding table_def by simp
  qed
  moreover have "(G(h \<mapsto> (i, off))) g = None" if "index_of (root_of_descriptors m) g = None" for g using t that a unfolding table_def by (cases "g = h") auto
  moreover have "b < dm_fresh m" if "descriptors m b = Some y" for b y using t that unfolding table_def by blast
  then have "\<forall>b \<in> dom (descriptors m'). b < dm_fresh m'" using h(3) m'(3,4) by (auto intro: less_le_trans)
  ultimately show ?thesis using t m'(1,2) unfolding table_def by simp
qed

text \<open>A new descriptor, and one less.\<close>

lemma table_insert:
  assumes t: "table m G nx" and a: "a \<notin> set (head_of_descriptors m)" "descriptors m a = Some (descr (int nx + 1) i off 0)"
  shows "\<exists>r. avlinsert (root_of_descriptors m) (Some (int nx + 1, a)) (Some evfs_descriptor_compare) = Some r \<and>
    table (m\<lparr>head_of_descriptors := head_of_descriptors m @ [a], root_of_descriptors := r, count_of_descriptors := n\<rparr>) (G(int nx + 1 \<mapsto> (i, off))) (nx + 1)"
proof -
  have "G (int nx + 1) = None" using table_handles [OF t, of "int nx + 1"] by (cases "G (int nx + 1)") auto
  then have i: "index_ok (root_of_descriptors m)" "index_of (root_of_descriptors m) (int nx + 1) = None" using t table_absent [OF t] unfolding table_def by blast+
  obtain r where r: "avlinsert (root_of_descriptors m) (Some (int nx + 1, a)) (Some evfs_descriptor_compare) = Some r" "index_ok r"
    "index_of r = (index_of (root_of_descriptors m))(int nx + 1 \<mapsto> a)"
    using head_index_insert [OF i, of a] unfolding compare_descriptor_same by blast
  let ?m = "m\<lparr>head_of_descriptors := head_of_descriptors m @ [a], root_of_descriptors := r, count_of_descriptors := n\<rparr>"
  have "b \<in> set (head_of_descriptors m @ [a]) \<and>
      (\<exists>j x. (G(int nx + 1 \<mapsto> (i, off))) h = Some (j, x) \<and> descriptors m b = Some (descr h j x 0) \<and> 0 < h \<and> h \<le> int (nx + 1))" if "index_of r h = Some b" for h b
  proof (cases "h = int nx + 1")
    case True
    then show ?thesis using that r(3) a(2) by simp
  next
    case False
    then have "index_of (root_of_descriptors m) h = Some b" using that r(3) by simp
    then show ?thesis using t False unfolding table_def by fastforce
  qed
  moreover have "(G(int nx + 1 \<mapsto> (i, off))) h = None" if "index_of r h = None" for h using that r(3) t unfolding table_def by (cases "h = int nx + 1") simp_all
  moreover have "\<exists>h. index_of r h = Some b" if "b \<in> set (head_of_descriptors m @ [a])" for b
  proof (cases "b = a")
    case False
    then have "b \<in> set (head_of_descriptors m)" using that by simp
    then obtain h where "index_of (root_of_descriptors m) h = Some b" using t unfolding table_def by blast
    then show ?thesis using i(2) r(3) by (intro exI [of _ h]) auto
  qed (use r(3) in auto)
  ultimately have "table ?m (G(int nx + 1 \<mapsto> (i, off))) (nx + 1)" using t r(2) a(1) unfolding table_def by simp
  then show ?thesis using r(1) by blast
qed

lemma table_remove:
  assumes t: "table m G nx" and a: "index_of (root_of_descriptors m) h = Some a"
  shows "\<exists>r x. avlremove (root_of_descriptors m) (Some (h, a)) None (Some evfs_descriptor_compare) = Some (r, x) \<and>
    (\<forall>ds. (\<forall>b. b \<noteq> a \<longrightarrow> ds b = descriptors m b) \<and> (\<forall>b. ds b \<noteq> None \<longrightarrow> b < dm_fresh m) \<longrightarrow>
    table (m\<lparr>head_of_descriptors := remove1 a (head_of_descriptors m), root_of_descriptors := r, count_of_descriptors := n, descriptors := ds\<rparr>) (G(h := None)) nx)"
proof -
  have i: "index_ok (root_of_descriptors m)" using t unfolding table_def by blast
  obtain r x where r: "avlremove (root_of_descriptors m) (Some (h, a)) None (Some evfs_descriptor_compare) = Some (r, x)" "index_ok r"
    "index_of r = (index_of (root_of_descriptors m))(h := None)"
    using head_index_remove [OF i, of h a] unfolding compare_descriptor_same by blast
  have ne: "b \<noteq> a" if "index_of (root_of_descriptors m) g = Some b" "g \<noteq> h" for g b
    using t that a unfolding table_def by (metis evfs_entry_descriptor.ext_inject option.inject)
  have d: "distinct (head_of_descriptors m)" using t unfolding table_def by blast
  have "table (m\<lparr>head_of_descriptors := remove1 a (head_of_descriptors m), root_of_descriptors := r, count_of_descriptors := n, descriptors := ds\<rparr>) (G(h := None)) nx"
    if ds: "\<forall>b. b \<noteq> a \<longrightarrow> ds b = descriptors m b" "\<forall>b. ds b \<noteq> None \<longrightarrow> b < dm_fresh m" for ds
  proof -
    have "b \<in> set (remove1 a (head_of_descriptors m)) \<and>
        (\<exists>j x. (G(h := None)) g = Some (j, x) \<and> ds b = Some (descr g j x 0) \<and> 0 < g \<and> g \<le> int nx)" if "index_of r g = Some b" for g b
    proof -
      have g: "g \<noteq> h" "index_of (root_of_descriptors m) g = Some b" using that r(3) by (auto split: if_splits)
      then show ?thesis using t d ds(1) ne [OF g(2,1)] unfolding table_def by simp
    qed
    moreover have "(G(h := None)) g = None" if "index_of r g = None" for g using that r(3) t unfolding table_def by (cases "g = h") simp_all
    moreover have "\<exists>g. index_of r g = Some b" if "b \<in> set (remove1 a (head_of_descriptors m))" for b
    proof -
      have b: "b \<noteq> a" "b \<in> set (head_of_descriptors m)" using that d by simp_all
      then obtain g where "index_of (root_of_descriptors m) g = Some b" using t unfolding table_def by blast
      then show ?thesis using b(1) a r(3) by (intro exI [of _ g]) auto
    qed
    moreover have "\<forall>b \<in> dom ds. b < dm_fresh m" using ds(2) by (auto simp: dom_def)
    ultimately show ?thesis using t r(2) d unfolding table_def by simp
  qed
  then show ?thesis using r(1) by blast
qed

section \<open>Handles\<close>

lemma desk_table: "desk m G nx \<Longrightarrow> table m G nx"
  and desk_ready: "desk (dm s) G nx \<Longrightarrow> evfs_ready s"
  by (simp_all add: desk_def evfs_ready_def)

lemma desk_cong:
  assumes "desk m G nx" "table m' G' nx'" "d_ready m' = d_ready m" "next_handle m' = int nx'" "worker m' = worker m"
  shows "desk m' G' nx'"
  using assms by (simp add: desk_def)

lemma reference_known:
  assumes "desk (dm s) G nx" "G h = Some (i, off)"
  obtains a where "evfs_reference_descriptor h s = Some (Some a, put_descriptor a (descr h i off 1) s)" "index_of (root_of_descriptors (dm s)) h = Some a" "0 < h" "h \<le> int nx"
proof -
  obtain a where a: "index_of (root_of_descriptors (dm s)) h = Some a" "descriptors (dm s) a = Some (descr h i off 0)" "0 < h" "h \<le> int nx"
    using table_found [OF desk_table [OF assms(1)] assms(2)] by blast
  then show thesis using that by (simp add: evfs_reference_descriptor_def search_descriptor_index c_int_def)
qed

lemma reference_unknown:
  assumes "desk (dm s) G nx" "G h = None"
  shows "evfs_reference_descriptor h s = Some (None, s)"
  using table_absent [OF desk_table [OF assms(1)] assms(2)] by (simp add: evfs_reference_descriptor_def search_descriptor_index)

lemma dereference_run:
  assumes "descriptors (dm s) a = Some (descr h i off 1)"
  shows "evfs_dereference_descriptor (Some a) s = Some (put_descriptor a (descr h i off 0) s)"
  using assms by (simp add: evfs_dereference_descriptor_def)

lemma desk_update:
  assumes d: "desk m G nx" and a: "index_of (root_of_descriptors m) h = Some a"
    and m': "root_of_descriptors m' = root_of_descriptors m" "head_of_descriptors m' = head_of_descriptors m" "descriptors m' = (descriptors m)(a \<mapsto> descr h i off 0)"
      "dm_fresh m \<le> dm_fresh m'" "d_ready m' = d_ready m" "next_handle m' = next_handle m" "worker m' = worker m"
  shows "desk m' (G(h \<mapsto> (i, off))) nx"
  using d table_changed [OF desk_table [OF d] a m'(1-4)] m'(5-7) by (simp add: desk_def)

section \<open>Tasks\<close>

lemma put_worker_twice [simp]: "put_worker w x (put_worker w y s) = put_worker w x s"
  by (simp add: put_worker_def)

lemma put_worker_idle: "worker (dm s) = replicate n k \<Longrightarrow> put_worker w k s = s"
  by (cases "w < n") (simp_all add: put_worker_def list_update_same_conv list_update_beyond)

lemma worker_of_entry: "0 \<le> i \<Longrightarrow> \<exists>w. worker_of i = Some w \<and> w < EVFS_MAX_WORKER"
  by (simp add: worker_of_def EVFS_MAX_WORKER_def)

lemma perform_run:
  assumes w: "w < EVFS_MAX_WORKER" "worker (dm s) = replicate EVFS_MAX_WORKER evfs_io_background_worker0" and x: "\<not> t_no_wait x" and t: "t = dm_fresh (dm s)"
    and run: "evfs_io_task_exec (t_type x) t (s\<lparr>dm := (dm s)\<lparr>io_tasks := (io_tasks (dm s))(t \<mapsto> x), dm_fresh := t + 1\<rparr>\<rparr>) = Some s2"
      "worker (dm s2) = worker (dm s)" "get_io_task s2 t = Some y"
  shows "perform w x s = Some (t_status y, Some y, drop_io_task t s2)"
proof -
  let ?k = "evfs_io_background_worker0" and ?s = "s\<lparr>dm := (dm s)\<lparr>io_tasks := (io_tasks (dm s))(t \<mapsto> x), dm_fresh := t + 1\<rparr>\<rparr>"
  let ?q = "put_worker w (?k\<lparr>head_of_tasks := [t], count_of_tasks := 1\<rparr>) ?s"
  have k: "get_worker w ?s = Some ?k" "get_worker w s2 = Some ?k" "get_worker w ?q = Some (?k\<lparr>head_of_tasks := [t], count_of_tasks := 1\<rparr>)"
    using w run(2) by (simp_all add: get_worker_def put_worker_def)
  have bk: "put_worker w ?k ?s = ?s" using w(2) by (intro put_worker_idle [of _ EVFS_MAX_WORKER]) simp
  have "evfs_pop_task_until_empty w s2 = Some s2" using k(2) by (subst evfs_pop_task_until_empty.simps) (simp add: evfs_io_background_worker0_def)
  moreover have "?k\<lparr>head_of_tasks := [t], count_of_tasks := 1\<rparr>\<lparr>head_of_tasks := [], count_of_tasks := 0\<rparr> = ?k" by (simp add: evfs_io_background_worker0_def)
  moreover have "get_io_task ?q t = Some x" by (simp add: put_worker_def)
  ultimately have pop: "evfs_pop_task_until_empty w ?q = Some s2" using k(3) run(1) x bk by (subst evfs_pop_task_until_empty.simps) simp
  have "evfs_io_push_task_and_notify_run w t ?s = Some (0, ?q)"
    using k(1) by (simp add: evfs_io_push_task_and_notify_run_def evfs_io_background_worker0_def EVFS_MAX_IO_PENDING_COUNT_def NSP_STATUS_SUCCESSFUL_def)
  moreover have "evfs_io_wait_background_compelete w t ?q = Some (t_status y, y, drop_io_task t s2)"
    using pop run(3) x by (simp add: evfs_io_wait_background_compelete_def put_worker_def)
  ultimately show ?thesis using t by (simp add: perform_def new_io_task_def error_not_success)
qed

text \<open>A transfer through a handle: what the handler does decides.\<close>

lemma transfer_run:
  assumes d: "desk (dm s) G nx" "G h = Some (i, off)" and n: "data \<noteq> None" "0 < n" and i: "0 \<le> i" and b: "ent_malloc sizeof_io_task (vol s) = (Some b, v1)"
    and ex: "\<And>a t m. descriptors m a = Some (descr h i off 1) \<Longrightarrow> io_tasks m t = Some (io_task ty data i off n EINPROGRESS (Some a)) \<Longrightarrow>
      evfs_io_task_exec ty t \<lparr>vol = v1, dm = m\<rparr> =
      Some \<lparr>vol = v2, dm = m\<lparr>descriptors := (descriptors m)(a \<mapsto> descr h i off' 1), io_tasks := (io_tasks m)(t \<mapsto> y a)\<rparr>\<rparr>"
    and y: "\<And>a. t_retval (y a) = r \<and> t_data (y a) = data'"
  shows "\<exists>s'. transfer ty h data n s = Some (r, data', s') \<and> vol s' = v2 \<and> desk (dm s') (G(h \<mapsto> (i, off'))) nx"
proof -
  obtain a where a: "evfs_reference_descriptor h s = Some (Some a, put_descriptor a (descr h i off 1) s)" "index_of (root_of_descriptors (dm s)) h = Some a" "0 < h"
    by (rule reference_known [OF d])
  obtain w where w: "worker_of i = Some w" "w < EVFS_MAX_WORKER" using worker_of_entry [OF i] by blast
  let ?x = "io_task ty data i off n EINPROGRESS (Some a)" and ?t = "dm_fresh (dm s)"
  let ?m1 = "(dm s)\<lparr>descriptors := (descriptors (dm s))(a \<mapsto> descr h i off 1)\<rparr>"
  let ?m2 = "?m1\<lparr>io_tasks := (io_tasks (dm s))(?t \<mapsto> ?x), dm_fresh := ?t + 1\<rparr>"
  let ?m3 = "?m2\<lparr>descriptors := (descriptors ?m2)(a \<mapsto> descr h i off' 1), io_tasks := (io_tasks ?m2)(?t \<mapsto> y a)\<rparr>"
  let ?s1 = "\<lparr>vol = v1, dm = ?m1\<rparr>" and ?s3 = "\<lparr>vol = v2, dm = ?m3\<rparr>"
  have 1: "put_descriptor a (descr h i off 1) s = \<lparr>vol = vol s, dm = ?m1\<rparr>" by (cases s) (simp add: put_descriptor_def)
  have "evfs_io_task_exec (t_type ?x) ?t (?s1\<lparr>dm := (dm ?s1)\<lparr>io_tasks := (io_tasks (dm ?s1))(?t \<mapsto> ?x), dm_fresh := ?t + 1\<rparr>\<rparr>) = Some ?s3"
    using ex [of ?m2 a ?t] by (simp add: io_task_def)
  then have "perform w ?x ?s1 = Some (t_status (y a), Some (y a), drop_io_task ?t ?s3)"
    by (intro perform_run [OF w(2)]) (use d(1) in \<open>simp_all add: desk_def io_task_def\<close>)
  moreover have "evfs_dereference_descriptor (Some a) (drop_io_task ?t ?s3) = Some (put_descriptor a (descr h i off' 0) (drop_io_task ?t ?s3))"
    by (rule dereference_run) (simp add: drop_io_task_def)
  ultimately have "transfer ty h data n s = Some (r, data', put_descriptor a (descr h i off' 0) (drop_io_task ?t ?s3))"
    using a(1,3) n desk_ready [OF d(1)] 1 b w(1) y by (cases data) (simp_all add: transfer_def sys_malloc_def)
  moreover have "desk (dm (put_descriptor a (descr h i off' 0) (drop_io_task ?t ?s3))) (G(h \<mapsto> (i, off'))) nx"
    by (rule desk_update [OF d(1) a(2)]) (simp_all add: put_descriptor_def drop_io_task_def)
  ultimately show ?thesis by (intro exI conjI) (assumption, simp add: put_descriptor_def drop_io_task_def, assumption)
qed

section \<open>Calls with a handle\<close>

lemma seek_run:
  assumes d: "desk (dm s) G nx" "G h = Some (i, off)" and n: "0 \<le> n"
  shows "\<exists>s'. evfs_seek_entry_offset h n s = Some (0, s') \<and> vol s' = vol s \<and> desk (dm s') (G(h \<mapsto> (i, n))) nx"
proof -
  obtain a where a: "evfs_reference_descriptor h s = Some (Some a, put_descriptor a (descr h i off 1) s)" "index_of (root_of_descriptors (dm s)) h = Some a" "0 < h"
    by (rule reference_known [OF d])
  let ?s = "put_descriptor a (descr h i n 1) (put_descriptor a (descr h i off 1) s)"
  have "evfs_dereference_descriptor (Some a) ?s = Some (put_descriptor a (descr h i n 0) ?s)" by (rule dereference_run) (simp add: put_descriptor_def)
  then have "evfs_seek_entry_offset h n s = Some (0, put_descriptor a (descr h i n 0) ?s)"
    using a(1,3) n desk_ready [OF d(1)] by (simp add: evfs_seek_entry_offset_def put_descriptor_def NSP_STATUS_SUCCESSFUL_def)
  moreover have "desk (dm (put_descriptor a (descr h i n 0) ?s)) (G(h \<mapsto> (i, n))) nx" by (rule desk_update [OF d(1) a(2)]) (simp_all add: put_descriptor_def)
  ultimately show ?thesis by (intro exI conjI) (assumption, simp add: put_descriptor_def, assumption)
qed

lemma length_run:
  assumes d: "desk (dm s) G nx" "G h = Some (i, off)" and v: "evfs_entries_query_user_seg_size i (vol s) = Some (n, v)"
  shows "\<exists>s'. evfs_query_entry_length h s = Some (n, s') \<and> vol s' = v \<and> desk (dm s') G nx"
proof -
  obtain a where a: "evfs_reference_descriptor h s = Some (Some a, put_descriptor a (descr h i off 1) s)" "index_of (root_of_descriptors (dm s)) h = Some a" "0 < h"
    by (rule reference_known [OF d])
  let ?s = "(put_descriptor a (descr h i off 1) s)\<lparr>vol := v\<rparr>"
  have "evfs_dereference_descriptor (Some a) ?s = Some (put_descriptor a (descr h i off 0) ?s)" by (rule dereference_run) (simp add: put_descriptor_def)
  then have "evfs_query_entry_length h s = Some (n, put_descriptor a (descr h i off 0) ?s)"
    using a(1,3) v desk_ready [OF d(1)] by (simp add: evfs_query_entry_length_def query_length_def on_vol_def put_descriptor_def)
  moreover have "desk (dm (put_descriptor a (descr h i off 0) ?s)) (G(h \<mapsto> (i, off))) nx" by (rule desk_update [OF d(1) a(2)]) (simp_all add: put_descriptor_def)
  moreover have "G(h \<mapsto> (i, off)) = G" using d(2) by auto
  ultimately show ?thesis by (intro exI conjI) (assumption, simp add: put_descriptor_def, simp)
qed

text \<open>Releasing a descriptor that nobody refers to.\<close>

lemma close_descriptor_run:
  assumes t: "table (dm s) G nx" and a: "index_of (root_of_descriptors (dm s)) h = Some a"
  shows "\<exists>r c. evfs_close_descriptor a s = Some (s\<lparr>dm := (dm s)\<lparr>head_of_descriptors := remove1 a (head_of_descriptors (dm s)), root_of_descriptors := r,
      count_of_descriptors := c, descriptors := (descriptors (dm s))(a := None)\<rparr>\<rparr>) \<and>
    table ((dm s)\<lparr>head_of_descriptors := remove1 a (head_of_descriptors (dm s)), root_of_descriptors := r, count_of_descriptors := c,
      descriptors := (descriptors (dm s))(a := None)\<rparr>) (G(h := None)) nx"
proof -
  obtain i off where d: "descriptors (dm s) a = Some (descr h i off 0)" using t a unfolding table_def by blast
  let ?c = "count_of_descriptors (dm s) - 1"
  obtain r x where r: "avlremove (root_of_descriptors (dm s)) (Some (h, a)) None (Some evfs_descriptor_compare) = Some (r, x)"
    "\<forall>ds. (\<forall>b. b \<noteq> a \<longrightarrow> ds b = descriptors (dm s) b) \<and> (\<forall>b. ds b \<noteq> None \<longrightarrow> b < dm_fresh (dm s)) \<longrightarrow>
      table ((dm s)\<lparr>head_of_descriptors := remove1 a (head_of_descriptors (dm s)), root_of_descriptors := r, count_of_descriptors := ?c, descriptors := ds\<rparr>) (G(h := None)) nx"
    using table_remove [OF t a, of ?c] by blast
  have "b < dm_fresh (dm s)" if "descriptors (dm s) b \<noteq> None" for b using t that unfolding table_def by blast
  then have "table ((dm s)\<lparr>head_of_descriptors := remove1 a (head_of_descriptors (dm s)), root_of_descriptors := r, count_of_descriptors := ?c,
      descriptors := (descriptors (dm s))(a := None)\<rparr>) (G(h := None)) nx" by (intro r(2) [rule_format]) auto
  moreover have "evfs_close_descriptor a s = Some (s\<lparr>dm := (dm s)\<lparr>head_of_descriptors := remove1 a (head_of_descriptors (dm s)), root_of_descriptors := r,
      count_of_descriptors := ?c, descriptors := (descriptors (dm s))(a := None)\<rparr>\<rparr>)"
    using d r(1) by (simp add: evfs_close_descriptor_def evfs_dequeue_descriptor_def put_descriptor_def drop_descriptor_def)
  ultimately show ?thesis by blast
qed

lemma close_entry_run:
  assumes d: "desk (dm s) G nx" "G h = Some (i, off)" and i: "0 < i" and v: "evfs_entries_close_one i (vol s) = Some v"
  shows "\<exists>s'. evfs_close_entry h s = Some s' \<and> vol s' = v \<and> desk (dm s') (G(h := None)) nx"
proof -
  obtain a where a: "evfs_reference_descriptor h s = Some (Some a, put_descriptor a (descr h i off 1) s)" "index_of (root_of_descriptors (dm s)) h = Some a" "0 < h"
    by (rule reference_known [OF d])
  let ?s = "(put_descriptor a (descr h i off 1) s)\<lparr>vol := v\<rparr>" let ?t = "put_descriptor a (descr h i off 0) ?s"
  have 1: "evfs_dereference_descriptor (Some a) ?s = Some ?t" by (rule dereference_run) (simp add: put_descriptor_def)
  have t: "desk (dm ?t) (G(h \<mapsto> (i, off))) nx" by (rule desk_update [OF d(1) a(2)]) (simp_all add: put_descriptor_def)
  have "index_of (root_of_descriptors (dm ?t)) h = Some a" using a(2) by (simp add: put_descriptor_def)
  from close_descriptor_run [OF desk_table [OF t] this] obtain r c where
    c: "evfs_close_descriptor a ?t = Some (?t\<lparr>dm := (dm ?t)\<lparr>head_of_descriptors := remove1 a (head_of_descriptors (dm ?t)), root_of_descriptors := r,
      count_of_descriptors := c, descriptors := (descriptors (dm ?t))(a := None)\<rparr>\<rparr>)"
    "table ((dm ?t)\<lparr>head_of_descriptors := remove1 a (head_of_descriptors (dm ?t)), root_of_descriptors := r, count_of_descriptors := c,
      descriptors := (descriptors (dm ?t))(a := None)\<rparr>) ((G(h \<mapsto> (i, off)))(h := None)) nx" by blast
  have "(G(h \<mapsto> (i, off)))(h := None) = G(h := None)" by simp
  then have "desk ((dm ?t)\<lparr>head_of_descriptors := remove1 a (head_of_descriptors (dm ?t)), root_of_descriptors := r, count_of_descriptors := c,
      descriptors := (descriptors (dm ?t))(a := None)\<rparr>) (G(h := None)) nx" using c(2) by (intro desk_cong [OF t]) (use t in \<open>simp_all add: desk_def\<close>)
  moreover have "evfs_close_entry h s = evfs_close_descriptor a ?t"
    using a(1,3) v i 1 desk_ready [OF d(1)] by (simp add: evfs_close_entry_def on_vol_def silently_def put_descriptor_def)
  ultimately show ?thesis using c(1) by (intro exI conjI) (simp, simp add: put_descriptor_def, simp)
qed

section \<open>New descriptors\<close>

lemma desk_unlisted:
  assumes d: "desk m G nx" and m': "root_of_descriptors m' = root_of_descriptors m" "head_of_descriptors m' = head_of_descriptors m"
      "d_ready m' = d_ready m" "next_handle m' = next_handle m" "worker m' = worker m"
      "\<And>a. a \<in> set (head_of_descriptors m) \<Longrightarrow> descriptors m' a = descriptors m a" "\<And>a. a \<in> dom (descriptors m') \<Longrightarrow> a < dm_fresh m'"
  shows "desk m' G nx"
  using d table_cong [OF desk_table [OF d] m'(1,2,6,7)] m'(3-5) by (simp add: desk_def)

lemma desk_dom: "desk m G nx \<Longrightarrow> descriptors m a = Some x \<Longrightarrow> a < dm_fresh m"
  unfolding desk_def table_def by blast

lemma activate_run:
  assumes d: "desk (dm s) G nx" and a: "a \<notin> set (head_of_descriptors (dm s))" "descriptors (dm s) a = Some (evfs_descriptor0\<lparr>d_entry_id := i\<rparr>)" and nx: "int nx < 2 ^ 31 - 1"
  shows "\<exists>s'. activate a s = Some (int nx + 1, s') \<and> vol s' = vol s \<and> desk (dm s') (G(int nx + 1 \<mapsto> (i, 0))) (nx + 1)"
proof -
  let ?h = "int nx + 1"
  have h: "to_int (next_handle (dm s) + 1) = ?h" using d nx sint_of_int [of ?h] by (simp add: desk_def to_int_def)
  let ?m = "(dm s)\<lparr>next_handle := ?h, descriptors := (descriptors (dm s))(a \<mapsto> descr ?h i 0 0)\<rparr>"
  have "a < dm_fresh (dm s)" using desk_dom [OF d a(2)] .
  then have t: "table ?m G nx" by (intro table_cong [OF desk_table [OF d]]) (use a desk_dom [OF d] in auto)
  obtain r where r: "avlinsert (root_of_descriptors ?m) (Some (?h, a)) (Some evfs_descriptor_compare) = Some r"
    "table (?m\<lparr>head_of_descriptors := head_of_descriptors ?m @ [a], root_of_descriptors := r, count_of_descriptors := count_of_descriptors (dm s) + 1\<rparr>) (G(?h \<mapsto> (i, 0))) (nx + 1)"
    using table_insert [OF t, of a i 0 "count_of_descriptors (dm s) + 1"] a by auto
  let ?m' = "?m\<lparr>head_of_descriptors := head_of_descriptors ?m @ [a], root_of_descriptors := r, count_of_descriptors := count_of_descriptors (dm s) + 1\<rparr>"
  have "desk ?m' (G(?h \<mapsto> (i, 0))) (nx + 1)" by (rule desk_cong [OF d r(2)]) (use d in \<open>simp_all add: desk_def\<close>)
  moreover have "activate a s = Some (?h, s\<lparr>dm := ?m'\<rparr>)"
    using a r(1) h by (simp add: activate_def evfs_queue_descriptor_def put_descriptor_def evfs_descriptor0_def Let_def)
  ultimately show ?thesis by auto
qed

text \<open>A descriptor that is not in the list yet.\<close>

lemma desk_new:
  assumes d: "desk (dm s) G nx" and m: "m = (dm s)\<lparr>descriptors := (descriptors (dm s))(dm_fresh (dm s) \<mapsto> x), io_tasks := ts, dm_fresh := f\<rparr>" "dm_fresh (dm s) < f"
  shows "desk m G nx"
proof (rule desk_unlisted [OF d])
  show "a < dm_fresh m" if a: "a \<in> dom (descriptors m)" for a
  proof (cases "a = dm_fresh (dm s)")
    case False
    then obtain y where "descriptors (dm s) a = Some y" using a m(1) by auto
    then show ?thesis using desk_dom [OF d, of a y] m by simp
  qed (use m in simp)
  show "descriptors m a = descriptors (dm s) a" if "a \<in> set (head_of_descriptors (dm s))" for a using table_fresh [OF desk_table [OF d]] that m(1) by auto
qed (simp_all add: m(1))

lemma desk_dropped:
  assumes d: "desk (dm s) G nx" and m: "m = (dm s)\<lparr>descriptors := (descriptors (dm s))(dm_fresh (dm s) := None), io_tasks := ts, dm_fresh := f\<rparr>" "dm_fresh (dm s) < f"
  shows "desk m G nx"
proof (rule desk_unlisted [OF d])
  show "a < dm_fresh m" if a: "a \<in> dom (descriptors m)" for a
  proof -
    obtain y where "descriptors (dm s) a = Some y" using a m(1) by (auto split: if_splits)
    then show ?thesis using desk_dom [OF d, of a y] m by simp
  qed
  show "descriptors m a = descriptors (dm s) a" if "a \<in> set (head_of_descriptors (dm s))" for a using table_fresh [OF desk_table [OF d]] that m(1) by auto
qed (simp_all add: m(1))

text \<open>The task that creates an entry.\<close>

lemma create_task_run:
  assumes d: "desk (dm s) G nx" and v: "evfs_entries_create_one (Some k) True v2 = Some (status, j, v3)" and a: "a = dm_fresh (dm s)"
    and x: "x = io_task kEvfsIoTaskCreate (Some k) 0 0 0 0 (Some a)"
    and s2: "s2 = \<lparr>vol = v2, dm = (dm s)\<lparr>descriptors := (descriptors (dm s))(a \<mapsto> evfs_descriptor0), dm_fresh := a + 1\<rparr>\<rparr>"
  shows "\<exists>y ts. perform 0 x s2 = Some (status, Some y, \<lparr>vol = v3, dm = (dm s)\<lparr>descriptors := (descriptors (dm s))(a \<mapsto>
    (case j of None \<Rightarrow> evfs_descriptor0 | Some i \<Rightarrow> evfs_descriptor0\<lparr>d_entry_id := i\<rparr>)), io_tasks := ts, dm_fresh := a + 2\<rparr>\<rparr>)"
proof -
  let ?t = "a + 1" and ?d = "case j of None \<Rightarrow> evfs_descriptor0 | Some i \<Rightarrow> evfs_descriptor0\<lparr>d_entry_id := i\<rparr>"
  let ?y = "x\<lparr>t_status := status\<rparr>"
  let ?s3 = "\<lparr>vol = v3, dm = (dm s)\<lparr>descriptors := (descriptors (dm s))(a \<mapsto> ?d), io_tasks := (io_tasks (dm s))(?t \<mapsto> ?y), dm_fresh := a + 2\<rparr>\<rparr>"
  have "evfs_io_task_exec (t_type x) ?t (s2\<lparr>dm := (dm s2)\<lparr>io_tasks := (io_tasks (dm s2))(?t \<mapsto> x), dm_fresh := ?t + 1\<rparr>\<rparr>) = Some ?s3"
    using v unfolding s2 x by (simp add: io_task_def evfs_create_entry_task_def put_descriptor_def put_io_task_def)
  then have "perform 0 x s2 = Some (t_status ?y, Some ?y, drop_io_task ?t ?s3)"
    by (intro perform_run) (use d in \<open>simp_all add: EVFS_MAX_WORKER_def desk_def s2 x io_task_def\<close>)
  moreover have "drop_io_task ?t ?s3 = \<lparr>vol = v3, dm = (dm s)\<lparr>descriptors := (descriptors (dm s))(a \<mapsto> ?d), io_tasks := (io_tasks (dm s))(?t := None), dm_fresh := a + 2\<rparr>\<rparr>"
    by (simp add: drop_io_task_def)
  ultimately show ?thesis by auto
qed

lemma create_entry_parts:
  assumes d: "desk (dm s) G nx" and b: "ent_malloc sizeof_descriptor (vol s) = (Some b1, v1)" "ent_malloc sizeof_io_task v1 = (Some b2, v2)"
    and a: "a = dm_fresh (dm s)"
    and x: "perform 0 (io_task kEvfsIoTaskCreate (Some k) 0 0 0 0 (Some a)) \<lparr>vol = v2, dm = (dm s)\<lparr>descriptors := (descriptors (dm s))(a \<mapsto> evfs_descriptor0), dm_fresh := a + 1\<rparr>\<rparr> =
      Some (status, Some y, s3)"
  shows "evfs_create_entry (Some k) s = (if NSP_SUCCESS status then activate a s3 else Some (- 1, drop_descriptor a s3))"
  using desk_ready [OF d] b x a by (cases s) (simp add: evfs_create_entry_def evfs_every_key_legal sys_malloc_def new_descriptor_def evfs_ready_def)

lemma create_entry_run:
  assumes d: "desk (dm s) G nx" and b: "ent_malloc sizeof_descriptor (vol s) = (Some b1, v1)" "ent_malloc sizeof_io_task v1 = (Some b2, v2)"
    and v: "evfs_entries_create_one (Some k) True v2 = Some (0, Some i, v3)" and nx: "int nx < 2 ^ 31 - 1"
  shows "\<exists>s'. evfs_create_entry (Some k) s = Some (int nx + 1, s') \<and> vol s' = v3 \<and> desk (dm s') (G(int nx + 1 \<mapsto> (i, 0))) (nx + 1)"
proof -
  let ?a = "dm_fresh (dm s)"
  obtain y ts where p: "perform 0 (io_task kEvfsIoTaskCreate (Some k) 0 0 0 0 (Some ?a)) \<lparr>vol = v2, dm = (dm s)\<lparr>descriptors := (descriptors (dm s))(?a \<mapsto> evfs_descriptor0), dm_fresh := ?a + 1\<rparr>\<rparr> =
      Some (0, Some y, \<lparr>vol = v3, dm = (dm s)\<lparr>descriptors := (descriptors (dm s))(?a \<mapsto> evfs_descriptor0\<lparr>d_entry_id := i\<rparr>), io_tasks := ts, dm_fresh := ?a + 2\<rparr>\<rparr>)"
    using create_task_run [OF d v refl refl refl] by auto
  let ?s3 = "\<lparr>vol = v3, dm = (dm s)\<lparr>descriptors := (descriptors (dm s))(?a \<mapsto> evfs_descriptor0\<lparr>d_entry_id := i\<rparr>), io_tasks := ts, dm_fresh := ?a + 2\<rparr>\<rparr>"
  have "desk (dm ?s3) G nx" by (rule desk_new [OF d, where ts = ts and f = "?a + 2"]) simp_all
  from activate_run [OF this _ _ nx, of ?a i] table_fresh [OF desk_table [OF d]]
  obtain s' where "activate ?a ?s3 = Some (int nx + 1, s')" "vol s' = v3" "desk (dm s') (G(int nx + 1 \<mapsto> (i, 0))) (nx + 1)" by auto
  then show ?thesis using create_entry_parts [OF d b refl p] by (simp add: error_not_success)
qed

lemma create_entry_fails:
  assumes d: "desk (dm s) G nx" and b: "ent_malloc sizeof_descriptor (vol s) = (Some b1, v1)" "ent_malloc sizeof_io_task v1 = (Some b2, v2)"
    and v: "evfs_entries_create_one (Some k) True v2 = Some (e, None, v3)" "\<not> NSP_SUCCESS e"
  shows "\<exists>s'. evfs_create_entry (Some k) s = Some (- 1, s') \<and> vol s' = v3 \<and> desk (dm s') G nx"
proof -
  let ?a = "dm_fresh (dm s)"
  obtain y ts where p: "perform 0 (io_task kEvfsIoTaskCreate (Some k) 0 0 0 0 (Some ?a)) \<lparr>vol = v2, dm = (dm s)\<lparr>descriptors := (descriptors (dm s))(?a \<mapsto> evfs_descriptor0), dm_fresh := ?a + 1\<rparr>\<rparr> =
      Some (e, Some y, \<lparr>vol = v3, dm = (dm s)\<lparr>descriptors := (descriptors (dm s))(?a \<mapsto> evfs_descriptor0), io_tasks := ts, dm_fresh := ?a + 2\<rparr>\<rparr>)"
    using create_task_run [OF d v(1) refl refl refl] by auto
  let ?s3 = "\<lparr>vol = v3, dm = (dm s)\<lparr>descriptors := (descriptors (dm s))(?a \<mapsto> evfs_descriptor0), io_tasks := ts, dm_fresh := ?a + 2\<rparr>\<rparr>"
  have "desk (dm (drop_descriptor ?a ?s3)) G nx" by (rule desk_dropped [OF d, where ts = ts and f = "?a + 2"]) (simp_all add: drop_descriptor_def)
  then show ?thesis using create_entry_parts [OF d b refl p] v(2) by (simp add: drop_descriptor_def)
qed

lemma open_key_parts:
  assumes d: "desk (dm s) G nx" and b: "ent_malloc sizeof_descriptor (vol s) = (Some b1, v1)" and a: "a = dm_fresh (dm s)"
    and v: "evfs_entries_open_one_by_name (Some k) True v1 = Some (e, j, v2)"
    and s2: "\<And>x. s2 x = \<lparr>vol = v2, dm = (dm s)\<lparr>descriptors := (descriptors (dm s))(a \<mapsto> x), io_tasks := io_tasks (dm s), dm_fresh := a + 1\<rparr>\<rparr>"
  shows "evfs_open_entry_by_key (Some k) s = (if NSP_SUCCESS e then Option.bind j (\<lambda>i. activate a (s2 (evfs_descriptor0\<lparr>d_entry_id := i\<rparr>)))
    else Some (- 1, drop_descriptor a (s2 evfs_descriptor0)))"
proof (cases s)
  case (fields vs ds)
  then show ?thesis using desk_ready [OF d] b v a
    by (cases ds) (simp add: evfs_open_entry_by_key_def evfs_every_key_legal sys_malloc_def new_descriptor_def put_descriptor_def drop_descriptor_def evfs_ready_def s2)
qed

lemma open_key_run:
  assumes d: "desk (dm s) G nx" and b: "ent_malloc sizeof_descriptor (vol s) = (Some b1, v1)"
    and v: "evfs_entries_open_one_by_name (Some k) True v1 = Some (0, Some i, v2)" and nx: "int nx < 2 ^ 31 - 1"
  shows "\<exists>s'. evfs_open_entry_by_key (Some k) s = Some (int nx + 1, s') \<and> vol s' = v2 \<and> desk (dm s') (G(int nx + 1 \<mapsto> (i, 0))) (nx + 1)"
proof -
  let ?a = "dm_fresh (dm s)"
  let ?s2 = "\<lparr>vol = v2, dm = (dm s)\<lparr>descriptors := (descriptors (dm s))(?a \<mapsto> evfs_descriptor0\<lparr>d_entry_id := i\<rparr>), io_tasks := io_tasks (dm s), dm_fresh := ?a + 1\<rparr>\<rparr>"
  have "desk (dm ?s2) G nx" by (rule desk_new [OF d, where ts = "io_tasks (dm s)" and f = "?a + 1"]) simp_all
  from activate_run [OF this _ _ nx, of ?a i] table_fresh [OF desk_table [OF d]]
  obtain s' where "activate ?a ?s2 = Some (int nx + 1, s')" "vol s' = v2" "desk (dm s') (G(int nx + 1 \<mapsto> (i, 0))) (nx + 1)" by auto
  then show ?thesis using open_key_parts [OF d b refl v refl] by (simp add: error_not_success)
qed

lemma open_key_fails:
  assumes d: "desk (dm s) G nx" and b: "ent_malloc sizeof_descriptor (vol s) = (Some b1, v1)"
    and v: "evfs_entries_open_one_by_name (Some k) True v1 = Some (e, j, v2)" "\<not> NSP_SUCCESS e"
  shows "\<exists>s'. evfs_open_entry_by_key (Some k) s = Some (- 1, s') \<and> vol s' = v2 \<and> desk (dm s') G nx"
proof -
  let ?a = "dm_fresh (dm s)"
  let ?s2 = "\<lparr>vol = v2, dm = (dm s)\<lparr>descriptors := (descriptors (dm s))(?a \<mapsto> evfs_descriptor0), io_tasks := io_tasks (dm s), dm_fresh := ?a + 1\<rparr>\<rparr>"
  have "desk (dm (drop_descriptor ?a ?s2)) G nx" by (rule desk_dropped [OF d, where ts = "io_tasks (dm s)" and f = "?a + 1"]) (simp_all add: drop_descriptor_def)
  then show ?thesis using open_key_parts [OF d b refl v(1) refl] v(2) by (simp add: drop_descriptor_def)
qed

lemma erase_key_run:
  assumes d: "desk (dm s) G nx" and b: "ent_malloc sizeof_io_task (vol s) = (Some b1, v1)" and i: "evfs_entries_get_entry_id_by_name (Some k) v1 = Some (i, v2)" "0 < i"
    and v: "evfs_entries_hard_delete_by_name (Some k) v2 = Some (e, v3)"
  shows "\<exists>s'. evfs_earse_entry_by_key (Some k) s = Some (e, s') \<and> vol s' = v3 \<and> desk (dm s') G nx"
proof -
  obtain w where w: "worker_of i = Some w" "w < EVFS_MAX_WORKER" using worker_of_entry [of i] i(2) by auto
  let ?x = "io_task kEvfsIoTaskEraseByKey (Some k) i 0 0 EINPROGRESS None" and ?t = "dm_fresh (dm s)" and ?s1 = "\<lparr>vol = v2, dm = dm s\<rparr>"
  let ?y = "?x\<lparr>t_status := e\<rparr>"
  let ?s3 = "\<lparr>vol = v3, dm = (dm s)\<lparr>io_tasks := (io_tasks (dm s))(?t \<mapsto> ?y), dm_fresh := ?t + 1\<rparr>\<rparr>"
  have "evfs_io_task_exec (t_type ?x) ?t (?s1\<lparr>dm := (dm ?s1)\<lparr>io_tasks := (io_tasks (dm ?s1))(?t \<mapsto> ?x), dm_fresh := ?t + 1\<rparr>\<rparr>) = Some ?s3"
    using v by (simp add: io_task_def evfs_earse_entry_by_key_task_def on_vol_def put_io_task_def)
  then have p: "perform w ?x ?s1 = Some (t_status ?y, Some ?y, drop_io_task ?t ?s3)" by (intro perform_run [OF w(2)]) (use d in \<open>simp_all add: desk_def io_task_def\<close>)
  have "evfs_earse_entry_by_key (Some k) s = Some (e, drop_io_task ?t ?s3)"
    using desk_ready [OF d] b i w(1) p by (cases s) (simp add: evfs_earse_entry_by_key_def sys_malloc_def on_vol_def evfs_ready_def)
  moreover have "desk (dm (drop_io_task ?t ?s3)) G nx" by (rule desk_unlisted [OF d]) (use desk_dom [OF d] in \<open>auto simp: drop_io_task_def less_Suc_eq\<close>)
  ultimately show ?thesis by (simp add: drop_io_task_def)
qed

section \<open>Starting and stopping\<close>

lemma stop_workers_run:
  assumes "\<forall>k \<in> set (worker (dm s)). head_of_tasks k = []" "w + n \<le> length (worker (dm s))"
  shows "\<exists>ws. stop_workers w n s = Some (s\<lparr>dm := (dm s)\<lparr>worker := ws\<rparr>\<rparr>)"
  using assms
proof (induction n arbitrary: w s)
  case 0
  then show ?case by (intro exI [of _ "worker (dm s)"]) simp
next
  case (Suc n)
  let ?k = "worker (dm s) ! w"
  let ?s = "put_worker w (?k\<lparr>w_stop := True\<rparr>) s"
  have k: "get_worker w s = Some ?k" "head_of_tasks ?k = []" using Suc.prems by (simp_all add: get_worker_def)
  have "evfs_pop_task_until_empty w ?s = Some ?s" using Suc.prems k(2) by (subst evfs_pop_task_until_empty.simps) (simp add: get_worker_def put_worker_def)
  then have "evfs_worker_proc w ?s = Some (False, ?s)" using Suc.prems(2) by (simp add: evfs_worker_proc_def get_worker_def put_worker_def)
  moreover have "\<forall>j \<in> set (worker (dm ?s)). head_of_tasks j = []" using Suc.prems(1) k(2) by (auto simp: put_worker_def dest!: set_update_subset_insert [THEN subsetD])
  moreover have "w + 1 + n \<le> length (worker (dm ?s))" using Suc.prems(2) by (simp add: put_worker_def)
  ultimately show ?case using Suc.IH [of ?s "w + 1"] k(1) by (auto simp: put_worker_def)
qed

lemma table_empty: "table m G nx \<Longrightarrow> head_of_descriptors m = [] \<Longrightarrow> table m Map.empty n"
  unfolding table_def by simp

lemma close_all_run:
  assumes "table (dm s) G nx"
  shows "\<exists>m. close_all s = Some (s\<lparr>dm := m\<rparr>) \<and> table m Map.empty 0 \<and> d_ready m = d_ready (dm s)"
  using assms
proof (induction "length (head_of_descriptors (dm s))" arbitrary: s G)
  case 0
  then show ?case using table_empty [of "dm s" G nx 0] by (subst close_all.simps) (auto intro: exI [of _ "dm s"])
next
  case (Suc n)
  obtain a as where as: "head_of_descriptors (dm s) = a # as" using Suc.hyps(2) by (cases "head_of_descriptors (dm s)") auto
  have "a \<in> set (head_of_descriptors (dm s))" using as by simp
  then obtain h where h: "index_of (root_of_descriptors (dm s)) h = Some a" using Suc.prems unfolding table_def by blast
  obtain r c where c: "evfs_close_descriptor a s = Some (s\<lparr>dm := (dm s)\<lparr>head_of_descriptors := remove1 a (head_of_descriptors (dm s)), root_of_descriptors := r,
      count_of_descriptors := c, descriptors := (descriptors (dm s))(a := None)\<rparr>\<rparr>)"
    "table ((dm s)\<lparr>head_of_descriptors := remove1 a (head_of_descriptors (dm s)), root_of_descriptors := r, count_of_descriptors := c,
      descriptors := (descriptors (dm s))(a := None)\<rparr>) (G(h := None)) nx" using close_descriptor_run [OF Suc.prems h] by blast
  let ?m = "(dm s)\<lparr>head_of_descriptors := remove1 a (head_of_descriptors (dm s)), root_of_descriptors := r, count_of_descriptors := c,
      descriptors := (descriptors (dm s))(a := None)\<rparr>"
  have "n = length (head_of_descriptors (dm (s\<lparr>dm := ?m\<rparr>)))" using Suc.hyps(2) as by simp
  moreover have "table (dm (s\<lparr>dm := ?m\<rparr>)) (G(h := None)) nx" using c(2) by simp
  ultimately obtain m where "close_all (s\<lparr>dm := ?m\<rparr>) = Some (s\<lparr>dm := ?m\<rparr>\<lparr>dm := m\<rparr>)" "table m Map.empty 0" "d_ready m = d_ready (dm (s\<lparr>dm := ?m\<rparr>))"
    using Suc.hyps(1) by blast
  then show ?case using as c(1) by (subst close_all.simps) (auto intro!: exI [of _ m])
qed

definition closed :: "evfs_descriptor_mgr \<Rightarrow> bool" where
  "closed m \<longleftrightarrow> d_ready m = kEvmgrNotReady \<and> table m Map.empty 0"

lemma close_run_all:
  assumes d: "desk (dm s) G nx" and v: "evfs_entries_uninit (vol s) = Some v1" "evfs_cache_uninit (store (fsys v1)) = Some c"
  shows "\<exists>m. evfs_close s = Some \<lparr>vol = v1\<lparr>fsys := (fsys v1)\<lparr>store := c\<rparr>\<rparr>, dm = m\<rparr> \<and> closed m"
proof -
  let ?s = "set_evfs_ready kEvmgrUninitializing s"
  have "\<forall>k \<in> set (worker (dm ?s)). head_of_tasks k = []" "0 + EVFS_MAX_WORKER \<le> length (worker (dm ?s))"
    using d by (auto simp: desk_def set_evfs_ready_def evfs_io_background_worker0_def)
  from stop_workers_run [OF this] obtain ws where 1: "stop_workers 0 EVFS_MAX_WORKER ?s = Some (?s\<lparr>dm := (dm ?s)\<lparr>worker := ws\<rparr>\<rparr>)" by blast
  let ?t = "?s\<lparr>dm := (dm ?s)\<lparr>worker := ws\<rparr>\<rparr>"
  have "table (dm ?t) G nx" by (rule table_cong [OF desk_table [OF d]]) (use desk_dom [OF d] in \<open>auto simp: set_evfs_ready_def\<close>)
  then obtain m where 2: "close_all ?t = Some (?t\<lparr>dm := m\<rparr>)" "table m Map.empty 0" using close_all_run [of ?t] by blast
  let ?m = "m\<lparr>next_handle := - 1, d_ready := kEvmgrNotReady\<rparr>"
  have "b < dm_fresh m" if "descriptors m b = Some y" for b y using 2(2) that unfolding table_def by blast
  then have "table ?m Map.empty 0" by (intro table_cong [OF 2(2)]) auto
  moreover have "evfs_close s = Some \<lparr>vol = v1\<lparr>fsys := (fsys v1)\<lparr>store := c\<rparr>\<rparr>, dm = ?m\<rparr>"
    using d 1 2(1) v by (simp add: evfs_close_def desk_def on_vol_def on_store_def silently_def set_evfs_ready_def)
  ultimately show ?thesis by (intro exI [of _ ?m]) (simp add: closed_def)
qed

lemma desk_started:
  assumes "closed m"
  shows "desk (dm (set_evfs_ready kEvmgrReady (start_workers \<lparr>vol = v, dm = m\<lparr>d_ready := r\<rparr>\<rparr>))) Map.empty 0"
proof -
  have t: "table m Map.empty 0" using assms by (simp add: closed_def)
  have "b < dm_fresh m" if "descriptors m b = Some y" for b y using t that unfolding table_def by blast
  then have "table (dm (set_evfs_ready kEvmgrReady (start_workers \<lparr>vol = v, dm = m\<lparr>d_ready := r\<rparr>\<rparr>))) Map.empty 0"
    by (intro table_cong [OF t]) (auto simp: set_evfs_ready_def start_workers_def)
  then show ?thesis by (simp add: desk_def set_evfs_ready_def start_workers_def)
qed

lemma open_run_all:
  assumes m: "closed (dm s)" and c: "evfs_cache_init 0 (Some path) n None (store (fsys (vol s))) = Some (0, c)"
    and v: "evfs_entries_load buf ((vol s)\<lparr>fsys := (fsys (vol s))\<lparr>store := c\<rparr>\<rparr>) = Some (0, v)"
  shows "\<exists>s'. evfs_open 0 buf (Some path) n s = Some (0, s') \<and> vol s' = v \<and> desk (dm s') Map.empty 0"
proof -
  let ?s = "set_evfs_ready kEvmgrReady (start_workers \<lparr>vol = v, dm = (dm s)\<lparr>d_ready := kEvmgrInitializing\<rparr>\<rparr>)"
  have "evfs_open 0 buf (Some path) n s = Some (0, ?s)"
    using m c v by (simp add: evfs_open_def closed_def on_store_def on_vol_def error_not_success set_evfs_ready_def start_workers_def)
  then show ?thesis using desk_started [OF m] by (auto simp: set_evfs_ready_def start_workers_def)
qed

lemma create_run_all:
  assumes m: "closed (dm s)" and g: "0 < cs" "0 < cc" and c: "evfs_cache_init 0 (Some path) n (Some (cs, cc)) (store (fsys (vol s))) = Some (0, c)"
    and v: "evfs_entries_create ((vol s)\<lparr>fsys := (fsys (vol s))\<lparr>store := c\<rparr>\<rparr>) = Some (0, v)"
  shows "\<exists>s'. evfs_create 0 (Some path) cs cc n s = Some (0, s') \<and> vol s' = v \<and> desk (dm s') Map.empty 0"
proof -
  let ?s = "set_evfs_ready kEvmgrReady (start_workers \<lparr>vol = v, dm = (dm s)\<lparr>d_ready := kEvmgrInitializing\<rparr>\<rparr>)"
  have "evfs_create 0 (Some path) cs cc n s = Some (0, ?s)"
    using m g c v by (simp add: evfs_create_def closed_def on_store_def on_vol_def error_not_success set_evfs_ready_def start_workers_def)
  then show ?thesis using desk_started [OF m] by (auto simp: set_evfs_ready_def start_workers_def)
qed

end
