(* ===== verification/EvfsSession.thy ===== *)
theory EvfsSession
  imports EvfsDesk
begin

text \<open>
  Clients of the entry file system (\<^verbatim>\<open>addons/evfs/evfs.c\<close>): they create, open, write, read, seek, measure, close and erase entries through handles, and
  restart the system. It refines a map from names to contents together with a map from handles to names and offsets.
\<close>

section \<open>Volumes with open entries\<close>

lemma files_cong:
  assumes f: "files_with R ecc path s cs cc V L N D" and R: "\<And>a. a \<in> set (entries_list (em s)) \<Longrightarrow> R' a = R a"
  shows "files_with R' ecc path s cs cc V L N D"
  using assms by (simp add: files_with_def vol_inv_def vol_mem_def)

lemma malloc_files:
  assumes f: "files_with R ecc path s cs cc V L N D" and n: "0 \<le> n"
  shows "\<exists>b s'. ent_malloc n s = (Some b, s') \<and> files_with R ecc path s' cs cc V L N D \<and> kept_vol s s' \<and> idlelist (vm (fsys s')) = idlelist (vm (fsys s))"
proof -
  note v = files_vol [OF f]
  obtain b g where b: "ent_malloc n s = (Some b, s\<lparr>fsys := g\<rparr>)" "fs_inv ecc path g cs cc V" "same_views (fsys s) g" using malloc_run [OF vol_fs [OF v] n] by blast
  have "vol_mem (s\<lparr>fsys := g\<rparr>) L (\<lambda>a. pad_key (N a)) R {}" using vol_mem_views [OF b(3)] vol_memory [OF v] by blast
  then have "vol_inv ecc path (s\<lparr>fsys := g\<rparr>) cs cc V L (\<lambda>a. pad_key (N a)) R" by (intro vol_invI [OF v]) (use b(2) in simp_all)
  then have "files_with R ecc path (s\<lparr>fsys := g\<rparr>) cs cc V L N D" by (rule files_withI [OF f]) simp
  then show ?thesis using b(1,3) by (auto simp: same_views_def)
qed

lemma open_files:
  assumes f: "files_with R ecc path s cs cc V L N D" and a: "a \<in> set (entries_list (em s))" "refs_ok (R a)"
  shows "\<exists>s'. evfs_entries_open_one_by_name (Some (N a)) True s = Some (0, Some (int (hd (L a))), s') \<and> files_with (opened R a) ecc path s' cs cc V L N D \<and>
    kept_vol s s' \<and> fsys s' = fsys s"
proof -
  note v = files_vol [OF f]
  note m = vol_memory [OF v]
  have k: "client_name (N a)" "name_of_block (pad_key (N a)) = name_of_block (N a)" using f a(1) pad_key_name(2) [of "N a"] by (auto simp: files_with_def client_name_def)
  obtain s' where s': "reference_found (Some a) kEvfsEntryOpen s = Some (0, Some a, s')" "vol_mem s' L (\<lambda>a. pad_key (N a)) (opened R a) {}" "fsys s' = fsys s" "kept_vol s s'"
    using reference_entry(2) [OF m a] by blast
  have a': "a \<in> set (entries_list (em s'))" using a(1) s'(4) by (simp add: kept_vol_def)
  obtain h where h: "get_ehead s' a = Some h" "ehead_viewid h = int (hd (L a))" using mem_entry [OF s'(2) a'] by (elim entry_obtain) auto
  have "evfs_entries_open_one_by_name (Some (N a)) True s = Some (0, Some (int (hd (L a))), s')"
    using find_named [OF m a(1) k] s'(1) h
    by (simp add: evfs_entries_open_one_by_name_def evfs_entries_reference_head_by_name_def error_not_success NSP_STATUS_SUCCESSFUL_def)
  moreover have "vol_inv ecc path s' cs cc V L (\<lambda>a. pad_key (N a)) (opened R a)"
    by (rule vol_invI [OF v]) (use s' vol_fs [OF v] in \<open>simp_all add: kept_vol_def\<close>)
  then have "files_with (opened R a) ecc path s' cs cc V L N D" by (rule files_withI [OF f _ s'(4)])
  ultimately show ?thesis using s'(3,4) by blast
qed

lemma heads_differ:
  assumes f: "files_with R ecc path s cs cc V L N D" and "a \<in> set (entries_list (em s))" "b \<in> set (entries_list (em s))" "hd (L a) = hd (L b)"
  shows "a = b"
proof -
  have vi: "vol_index (em s) L (\<lambda>a. pad_key (N a))" by (rule mem_index [OF vol_memory [OF files_vol [OF f]]])
  have ix: "\<forall>c a. index_of (root_of_entries_tree (em s)) c = Some a \<longleftrightarrow> a \<in> set (entries_list (em s)) \<and> c = int (hd (L a))" using vi unfolding vol_index_def by (elim conjE)
  have "index_of (root_of_entries_tree (em s)) (int (hd (L c))) = Some c" if "c \<in> set (entries_list (em s))" for c
    by (rule ix [THEN spec, THEN spec, THEN iffD2]) (rule conjI [OF that refl])
  from this [OF assms(2), unfolded assms(4)] this [OF assms(3)] have "Some a = Some b" by (rule trans [OF sym])
  then show ?thesis by simp
qed

lemma files_of_rewritten:
  assumes f: "files_with R ecc path s cs cc V L N D" and f': "files_with R' ecc path s' cs cc V' L' N (D(a := d))" and a: "a \<in> set (entries_list (em s))"
    and e: "entries_list (em s') = entries_list (em s)"
  shows "files_of s' N (D(a := d)) = (files_of s N D)(N a \<mapsto> d)"
proof (rule map_eqI)
  fix k x
  show "files_of s' N (D(a := d)) k = Some x \<longleftrightarrow> ((files_of s N D)(N a \<mapsto> d)) k = Some x"
  proof (cases "k = N a")
    case True
    have "b = a" if "b \<in> set (entries_list (em s))" "N b = N a" for b by (rule files_names [OF f that(1) a that(2)])
    then have "(\<exists>b \<in> set (entries_list (em s)). N b = N a \<and> (D(a := d)) b = x) \<longleftrightarrow> d = x" using a by (metis fun_upd_same)
    then show ?thesis using files_of_iff [OF f', of k x] True e by simp
  next
    case False
    then show ?thesis using files_of_iff [OF f', of k x] files_of_iff [OF f, of k x] e by auto
  qed
qed

section \<open>The client\<close>

datatype evfs_call = CreateEntry bytes | OpenEntry bytes | WriteEntry int bytes | ReadEntry int nat | SeekEntry int nat | EntryLength int | CloseEntry int |
  EraseEntry bytes | Restart nat evfs_cluster

text \<open>A restart closes the file system and opens it again with \<^term>\<open>n\<close> cache blocks; \<^term>\<open>h\<close> is what the loader's local structure held before.\<close>

fun call_step :: "string \<Rightarrow> evfs_call \<Rightarrow> evfs_sys \<Rightarrow> (reply \<times> evfs_sys) option" where
  "call_step path (CreateEntry k) s = do { (h, s) \<leftarrow> evfs_create_entry (Some k) s; Some (Status h, s) }"
| "call_step path (OpenEntry k) s = do { (h, s) \<leftarrow> evfs_open_entry_by_key (Some k) s; Some (Status h, s) }"
| "call_step path (WriteEntry h d) s = do { (n, s) \<leftarrow> evfs_write_entry h (Some d) (int (length d)) s; Some (Status n, s) }"
| "call_step path (ReadEntry h n) s = do {
     (r, b, s) \<leftarrow> evfs_read_entry h (Some (replicate n 0)) (int n) s;
     b \<leftarrow> b;
     Some (if NSP_SUCCESS r then Content (take (nat r) b) else Status r, s)
   }"
| "call_step path (SeekEntry h off) s = do { (status, s) \<leftarrow> evfs_seek_entry_offset h (int off) s; Some (Status status, s) }"
| "call_step path (EntryLength h) s = do { (n, s) \<leftarrow> evfs_query_entry_length h s; Some (Status n, s) }"
| "call_step path (CloseEntry h) s = do { s \<leftarrow> evfs_close_entry h s; Some (Status 0, s) }"
| "call_step path (EraseEntry k) s = do { (status, s) \<leftarrow> evfs_earse_entry_by_key (Some k) s; Some (Status status, s) }"
| "call_step path (Restart n h) s = do {
     s \<leftarrow> evfs_close s;
     (status, s) \<leftarrow> evfs_open 0 (head_bytes h) (Some path) (int n) s;
     Some (Status status, s)
   }"

text \<open>The specification: the files, the free clusters, what the handles stand for, and the last handle given out.\<close>

type_synonym session = "(bytes \<rightharpoonup> bytes) \<times> nat \<times> (int \<rightharpoonup> bytes \<times> nat) \<times> nat"

definition opens :: "bytes \<Rightarrow> session \<Rightarrow> reply \<times> session" where
  "opens k = (\<lambda>(F, free, H, nx). (Status (int nx + 1), F, free, H(int nx + 1 \<mapsto> (k, 0)), nx + 1))"

fun call_spec :: "nat \<Rightarrow> evfs_call \<Rightarrow> session \<Rightarrow> reply \<times> session" where
  "call_spec m (CreateEntry k) (F, free, H, nx) = (if F k \<noteq> None then (Status (- 1), F, free, H, nx) else opens k (F(k \<mapsto> []), free - 1, H, nx))"
| "call_spec m (OpenEntry k) (F, free, H, nx) = (if F k = None then (Status (- 1), F, free, H, nx) else opens k (F, free, H, nx))"
| "call_spec m (WriteEntry h d) (F, free, H, nx) =
     (case H h of
        None \<Rightarrow> (Status 0, F, free, H, nx)
      | Some (k, off) \<Rightarrow> (Status (int (length d)), F(k \<mapsto> d), free + 1 - clusters_for m d, H(h \<mapsto> (k, length d)), nx))"
| "call_spec m (ReadEntry h n) (F, free, H, nx) =
     (case H h of
        None \<Rightarrow> (Status 0, F, free, H, nx)
      | Some (k, off) \<Rightarrow> let t = take n (drop off (the (F k))) in (Content t, F, free, H(h \<mapsto> (k, off + length t)), nx))"
| "call_spec m (SeekEntry h off) (F, free, H, nx) =
     (if h \<le> 0 then (Status (posix__makeerror EINVAL), F, free, H, nx)
      else case H h of
        None \<Rightarrow> (Status (posix__makeerror ENOENT), F, free, H, nx)
      | Some (k, _) \<Rightarrow> (Status 0, F, free, H(h \<mapsto> (k, off)), nx))"
| "call_spec m (EntryLength h) (F, free, H, nx) =
     (if h \<le> 0 then Status (posix__makeerror EINVAL)
      else case H h of None \<Rightarrow> Status (posix__makeerror ENOENT) | Some (k, _) \<Rightarrow> Status (int (length (the (F k)))), F, free, H, nx)"
| "call_spec m (CloseEntry h) (F, free, H, nx) = (Status 0, F, free, H(h := None), nx)"
| "call_spec m (EraseEntry k) (F, free, H, nx) =
     (case F k of
        None \<Rightarrow> (Status (posix__makeerror ENOENT), F, free, H, nx)
      | Some d \<Rightarrow> (Status 0, F(k := None), free + clusters_for m d, H, nx))"
| "call_spec m (Restart n h) (F, free, H, nx) = (Status 0, F, free, Map.empty, 0)"

text \<open>
  What a client may ask for: legal names, room for what it writes, known handles for transfers. An entry is written once, from its start, as a
  whole, and erased when nobody has it open.
\<close>

fun call_ok :: "nat \<Rightarrow> evfs_call \<Rightarrow> session \<Rightarrow> bool" where
  "call_ok m (CreateEntry k) (F, free, H, nx) \<longleftrightarrow> client_name k \<and> (F k = None \<longrightarrow> 0 < free) \<and> int nx < 2 ^ 31 - 2"
| "call_ok m (OpenEntry k) (F, free, H, nx) \<longleftrightarrow> client_name k \<and> int nx < 2 ^ 31 - 2"
| "call_ok m (WriteEntry h d) (F, free, H, nx) \<longleftrightarrow> d \<noteq> [] \<and> clusters_for m d \<le> 1 + free \<and> (\<exists>k. H h = Some (k, 0) \<and> F k = Some [])"
| "call_ok m (ReadEntry h n) (F, free, H, nx) \<longleftrightarrow> 0 < n \<and> H h \<noteq> None"
| "call_ok m (SeekEntry h off) (F, free, H, nx) \<longleftrightarrow> int off < 2 ^ 31 - 32"
| "call_ok m (EntryLength h) (F, free, H, nx) \<longleftrightarrow> True"
| "call_ok m (CloseEntry h) (F, free, H, nx) \<longleftrightarrow> True"
| "call_ok m (EraseEntry k) (F, free, H, nx) \<longleftrightarrow> client_name k \<and> k \<notin> fst ` ran H"
| "call_ok m (Restart n h) (F, free, H, nx) \<longleftrightarrow> True"

section \<open>What the system holds\<close>

text \<open>The handles of an entry; their number is its reference count.\<close>

definition users :: "(int \<rightharpoonup> int \<times> int) \<Rightarrow> int \<Rightarrow> int set" where
  "users G i = {h. \<exists>off. G h = Some (i, off)}"

definition refs_of :: "(int \<rightharpoonup> int \<times> int) \<Rightarrow> (nat \<Rightarrow> nat list) \<Rightarrow> nat \<Rightarrow> int \<times> int" where
  "refs_of G L a = (int (card (users G (int (hd (L a))))), 0)"

definition linked_handles :: "nat list \<Rightarrow> (nat \<Rightarrow> nat list) \<Rightarrow> (nat \<Rightarrow> bytes) \<Rightarrow> (int \<rightharpoonup> int \<times> int) \<Rightarrow> (int \<rightharpoonup> bytes \<times> nat) \<Rightarrow> bool" where
  "linked_handles as L N G H \<longleftrightarrow> (\<forall>h. case G h of
     None \<Rightarrow> H h = None
   | Some (i, off) \<Rightarrow> \<exists>a \<in> set as. i = int (hd (L a)) \<and> H h = Some (N a, nat off) \<and> 0 \<le> off \<and> off < 2 ^ 31 - 32)"

definition open_on :: "nat \<Rightarrow> string \<Rightarrow> evfs_sys \<Rightarrow> nat \<Rightarrow> nat \<Rightarrow> (nat \<Rightarrow> bytes) \<Rightarrow> (nat \<Rightarrow> nat list) \<Rightarrow> (nat \<Rightarrow> bytes) \<Rightarrow> (nat \<Rightarrow> bytes) \<Rightarrow>
    (int \<rightharpoonup> int \<times> int) \<Rightarrow> (int \<rightharpoonup> bytes \<times> nat) \<Rightarrow> nat \<Rightarrow> bool" where
  "open_on ecc path s cs cc V L N D G H nx \<longleftrightarrow> desk (dm s) G nx \<and> int nx < 2 ^ 31 - 1 \<and> files_with (refs_of G L) ecc path (vol s) cs cc V L N D \<and>
     linked_handles (entries_list (em (vol s))) L N G H"

definition holds_sys :: "nat \<Rightarrow> string \<Rightarrow> nat \<Rightarrow> nat \<Rightarrow> evfs_sys \<Rightarrow> session \<Rightarrow> bool" where
  "holds_sys ecc path cs cc s = (\<lambda>(F, free, H, nx). \<exists>V L N D G. open_on ecc path s cs cc V L N D G H nx \<and> F = files_of (vol s) N D \<and>
     free = length (idlelist (vm (fsys (vol s)))))"

lemma users_finite:
  assumes "table m G nx"
  shows "finite (users G i)" "card (users G i) \<le> nx"
proof -
  have s: "users G i \<subseteq> {1 .. int nx}" using table_handles [OF assms] by (force simp: users_def)
  then show "finite (users G i)" by (rule finite_subset) simp
  show "card (users G i) \<le> nx" using card_mono [OF _ s] by simp
qed

lemma open_refs:
  assumes "open_on ecc path s cs cc V L N D G H nx"
  shows "refs_ok (refs_of G L a)"
  using assms users_finite(2) [of "dm s" G nx "int (hd (L a))"] by (simp add: open_on_def refs_ok_def refs_of_def desk_def)

lemma users_same: "G h = Some (i, off) \<Longrightarrow> users (G(h \<mapsto> (i, off'))) = users G"
  by (auto simp: users_def fun_eq_iff)

lemma users_new: "G h = None \<Longrightarrow> users (G(h \<mapsto> (i, off))) j = (if j = i then insert h (users G j) else users G j)"
  by (auto simp: users_def)

lemma users_gone: "G h = Some (i, off) \<Longrightarrow> users G j = (if j = i then insert h (users (G(h := None)) j) else users (G(h := None)) j)" "h \<notin> users (G(h := None)) j"
  by (auto simp: users_def)

lemma linked_at:
  assumes "open_on ecc path s cs cc V L N D G H nx" "G h = Some (i, off)"
  obtains a where "a \<in> set (entries_list (em (vol s)))" "i = int (hd (L a))" "H h = Some (N a, nat off)" "0 \<le> off" "off < 2 ^ 31 - 32"
proof -
  have "case G h of None \<Rightarrow> H h = None | Some (i, off) \<Rightarrow> \<exists>a \<in> set (entries_list (em (vol s))). i = int (hd (L a)) \<and> H h = Some (N a, nat off) \<and> 0 \<le> off \<and> off < 2 ^ 31 - 32"
    using assms(1) unfolding open_on_def linked_handles_def by blast
  then show thesis using assms(2) that by auto
qed

lemma linked_none:
  assumes "open_on ecc path s cs cc V L N D G H nx" "G h = None"
  shows "H h = None"
proof -
  have "case G h of None \<Rightarrow> H h = None | Some (i, off) \<Rightarrow> \<exists>a \<in> set (entries_list (em (vol s))). i = int (hd (L a)) \<and> H h = Some (N a, nat off) \<and> 0 \<le> off \<and> off < 2 ^ 31 - 32"
    using assms(1) unfolding open_on_def linked_handles_def by blast
  then show ?thesis using assms(2) by simp
qed

lemma handle_obtain:
  assumes o: "open_on ecc path s cs cc V L N D G H nx" and h: "H h = Some (k, off)"
  obtains a where "a \<in> set (entries_list (em (vol s)))" "G h = Some (int (hd (L a)), int off)" "k = N a" "int off < 2 ^ 31 - 32"
proof (cases "G h")
  case None
  then show thesis using linked_none [OF o] h by simp
next
  case (Some x)
  obtain i z where x: "x = (i, z)" by (cases x)
  obtain a where "a \<in> set (entries_list (em (vol s)))" "i = int (hd (L a))" "H h = Some (N a, nat z)" "0 \<le> z" "z < 2 ^ 31 - 32"
    using linked_at [OF o] Some x by blast
  then show thesis using that Some x h by auto
qed

lemma handle_absent:
  assumes o: "open_on ecc path s cs cc V L N D G H nx" and h: "H h = None"
  shows "G h = None"
proof (rule ccontr)
  assume "G h \<noteq> None"
  then obtain i z where "G h = Some (i, z)" by auto
  then show False using linked_at [OF o] h by (metis option.distinct(1))
qed

lemma holds_sysI:
  "open_on ecc path s cs cc V L N D G H nx \<Longrightarrow> F = files_of (vol s) N D \<Longrightarrow> free = length (idlelist (vm (fsys (vol s)))) \<Longrightarrow> holds_sys ecc path cs cc s (F, free, H, nx)"
  unfolding holds_sys_def by blast

lemma open_files_on: "open_on ecc path s cs cc V L N D G H nx \<Longrightarrow> files_with (refs_of G L) ecc path (vol s) cs cc V L N D"
  and open_desk: "open_on ecc path s cs cc V L N D G H nx \<Longrightarrow> desk (dm s) G nx"
  and open_linked: "open_on ecc path s cs cc V L N D G H nx \<Longrightarrow> linked_handles (entries_list (em (vol s))) L N G H"
  by (simp_all add: open_on_def)

lemma linkedI:
  assumes l: "linked_handles as L N G H" and h: "\<And>g. g \<noteq> h \<Longrightarrow> G' g = G g \<and> H' g = H g"
    and a: "\<And>a. a \<in> set as \<Longrightarrow> a \<in> set as' \<and> hd (L' a) = hd (L a) \<and> N' a = N a"
    and new: "case G' h of None \<Rightarrow> H' h = None | Some (i, off) \<Rightarrow> \<exists>a \<in> set as'. i = int (hd (L' a)) \<and> H' h = Some (N' a, nat off) \<and> 0 \<le> off \<and> off < 2 ^ 31 - 32"
  shows "linked_handles as' L' N' G' H'"
  unfolding linked_handles_def
proof
  fix g
  show "case G' g of None \<Rightarrow> H' g = None | Some (i, off) \<Rightarrow> \<exists>a \<in> set as'. i = int (hd (L' a)) \<and> H' g = Some (N' a, nat off) \<and> 0 \<le> off \<and> off < 2 ^ 31 - 32"
  proof (cases "g = h")
    case False
    have "case G g of None \<Rightarrow> H g = None | Some (i, off) \<Rightarrow> \<exists>a \<in> set as. i = int (hd (L a)) \<and> H g = Some (N a, nat off) \<and> 0 \<le> off \<and> off < 2 ^ 31 - 32"
      using l unfolding linked_handles_def by (rule spec)
    then show ?thesis
    proof (cases "G g")
      case (Some x)
      obtain i off where x: "x = (i, off)" by (cases x)
      assume "case G g of None \<Rightarrow> H g = None | Some (i, off) \<Rightarrow> \<exists>a \<in> set as. i = int (hd (L a)) \<and> H g = Some (N a, nat off) \<and> 0 \<le> off \<and> off < 2 ^ 31 - 32"
      then obtain b where "b \<in> set as" "i = int (hd (L b))" "H g = Some (N b, nat off)" "0 \<le> off" "off < 2 ^ 31 - 32" using Some x by auto
      then show ?thesis using h [OF False] a [of b] Some x by (auto intro!: bexI [of _ b])
    qed (use h [OF False] in simp)
  next
    case True
    show ?thesis unfolding True by (rule new)
  qed
qed

section \<open>The calls\<close>

lemma kept_entries: "kept_vol s s' \<Longrightarrow> entries_list (em s') = entries_list (em s)"
  by (simp add: kept_vol_def)

text \<open>The volume changes and the handles do not.\<close>

lemma open_same:
  assumes o: "open_on ecc path s cs cc V L N D G H nx" and d: "desk (dm s') G nx" and f: "files_with (refs_of G L) ecc path (vol s') cs cc V' L N D'"
    and e: "entries_list (em (vol s')) = entries_list (em (vol s))"
  shows "open_on ecc path s' cs cc V' L N D' G H nx"
  using o d f e by (simp add: open_on_def)

lemma idle_same:
  assumes "files_with R ecc path s cs cc V L N D" "files_with R' ecc path s' cs cc V' L' N' D" "entries_list (em s') = entries_list (em s)"
  shows "length (idlelist (vm (fsys s'))) = length (idlelist (vm (fsys s)))"
  using files_room [OF assms(1)] files_room [OF assms(2)] assms(3) by simp

lemma files_of_entries: "entries_list (em s') = entries_list (em s) \<Longrightarrow> files_of s' N D = files_of s N D"
  by (simp add: files_of_def fun_eq_iff)

lemma holds_same:
  assumes o: "open_on ecc path s cs cc V L N D G H nx" and d: "desk (dm s') G nx" and f: "files_with (refs_of G L) ecc path (vol s') cs cc V' L N D"
    and e: "entries_list (em (vol s')) = entries_list (em (vol s))"
  shows "holds_sys ecc path cs cc s' (files_of (vol s) N D, length (idlelist (vm (fsys (vol s)))), H, nx)"
  by (rule holds_sysI [OF open_same [OF o d f e]]) (use files_of_entries [OF e] idle_same [OF open_files_on [OF o] f e] in simp_all)

lemma sizes [simp]: "0 \<le> sizeof_io_task" "0 \<le> sizeof_descriptor"
  by (simp_all add: sizeof_io_task_def sizeof_descriptor_def)

lemma length_call:
  assumes o: "open_on ecc path s cs cc V L N D G H nx" and A: "A = (files_of (vol s) N D, length (idlelist (vm (fsys (vol s)))), H, nx)"
  shows "\<exists>s'. call_step path (EntryLength h) s = Some (fst (call_spec m (EntryLength h) A), s') \<and> holds_sys ecc path cs cc s' (snd (call_spec m (EntryLength h) A))"
proof (cases "h \<le> 0 \<or> H h = None")
  case True
  have "holds_sys ecc path cs cc s A" unfolding A by (rule holds_same [OF o open_desk [OF o] open_files_on [OF o] refl])
  then show ?thesis using True A desk_ready [OF open_desk [OF o]] reference_unknown [OF open_desk [OF o] handle_absent [OF o]]
    by (auto simp: evfs_query_entry_length_def)
next
  case False
  then obtain k off where k: "H h = Some (k, off)" "\<not> h \<le> 0" by auto
  obtain a where a: "a \<in> set (entries_list (em (vol s)))" "G h = Some (int (hd (L a)), int off)" "k = N a" by (rule handle_obtain [OF o k(1)])
  obtain v where v: "evfs_entries_query_user_seg_size (int (hd (L a))) (vol s) = Some (int (length (D a)), v)" "files_with (refs_of G L) ecc path v cs cc V L N D" "kept_vol (vol s) v"
    using size_files [OF open_files_on [OF o] a(1) open_refs [OF o]] by blast
  obtain s' where s': "evfs_query_entry_length h s = Some (int (length (D a)), s')" "vol s' = v" "desk (dm s') G nx" using length_run [OF open_desk [OF o] a(2) v(1)] by blast
  have F: "files_of (vol s) N D k = Some (D a)" using files_of_iff [OF open_files_on [OF o]] a by blast
  have "holds_sys ecc path cs cc s' A" unfolding A by (rule holds_same [OF o s'(3)]) (use s'(2) v(2) kept_entries [OF v(3)] in simp_all)
  then show ?thesis using s'(1) k A F by auto
qed

lemma seek_call:
  assumes o: "open_on ecc path s cs cc V L N D G H nx" and A: "A = (files_of (vol s) N D, length (idlelist (vm (fsys (vol s)))), H, nx)" and x: "int x < 2 ^ 31 - 32"
  shows "\<exists>s'. call_step path (SeekEntry h x) s = Some (fst (call_spec m (SeekEntry h x) A), s') \<and> holds_sys ecc path cs cc s' (snd (call_spec m (SeekEntry h x) A))"
proof (cases "h \<le> 0 \<or> H h = None")
  case True
  have "holds_sys ecc path cs cc s A" unfolding A by (rule holds_same [OF o open_desk [OF o] open_files_on [OF o] refl])
  then show ?thesis using True A desk_ready [OF open_desk [OF o]] reference_unknown [OF open_desk [OF o] handle_absent [OF o]]
    by (auto simp: evfs_seek_entry_offset_def)
next
  case False
  then obtain k off where k: "H h = Some (k, off)" "\<not> h \<le> 0" by auto
  obtain a where a: "a \<in> set (entries_list (em (vol s)))" "G h = Some (int (hd (L a)), int off)" "k = N a" by (rule handle_obtain [OF o k(1)])
  let ?G = "G(h \<mapsto> (int (hd (L a)), int x))"
  obtain s' where s': "evfs_seek_entry_offset h (int x) s = Some (0, s')" "vol s' = vol s" "desk (dm s') ?G nx" using seek_run [OF open_desk [OF o] a(2), of "int x"] by auto
  have "linked_handles (entries_list (em (vol s))) L N ?G (H(h \<mapsto> (k, x)))" by (rule linkedI [OF open_linked [OF o], of h]) (use a x in auto)
  moreover have "refs_of ?G L = refs_of G L" using users_same [where G = G and h = h, OF a(2)] by (simp add: refs_of_def fun_eq_iff)
  ultimately have "open_on ecc path s' cs cc V L N D ?G (H(h \<mapsto> (k, x))) nx" using o s'(2,3) by (simp add: open_on_def)
  then have "holds_sys ecc path cs cc s' (files_of (vol s) N D, length (idlelist (vm (fsys (vol s)))), H(h \<mapsto> (k, x)), nx)" by (rule holds_sysI) (use s'(2) in simp_all)
  then show ?thesis using s'(1) k A by auto
qed

text \<open>The reference counts when a handle is added: to an entry that has no handle yet, and to any entry.\<close>

lemma fresh_handle: "open_on ecc path s cs cc V L N D G H nx \<Longrightarrow> G (int nx + 1) = None"
  using table_handles [OF desk_table [OF open_desk], of ecc path s cs cc V L N D G H nx "int nx + 1"] by (cases "G (int nx + 1)") auto

lemma refs_created:
  assumes o: "open_on ecc path s cs cc V L N D G H nx" and c: "\<And>b. b \<in> set (entries_list (em (vol s))) \<Longrightarrow> hd (L b) \<noteq> c" and b: "b \<in> set (entries_list (em (vol s)) @ [a])"
  shows "refs_of (G(int nx + 1 \<mapsto> (int c, 0))) (L(a := [c])) b = ((refs_of G L)(a := (1, 0))) b"
proof -
  note un = users_new [of G, OF fresh_handle [OF o], of "int c" 0]
  have "G h \<noteq> Some (int c, off)" for h off using linked_at [OF o, of h "int c" off] c by auto
  then have nobody: "users G (int c) = {}" by (simp add: users_def)
  show ?thesis
  proof (cases "b = a")
    case True
    then show ?thesis using un [of "int c"] nobody by (simp add: refs_of_def del: fun_upd_apply) (simp add: refs_of_def)
  next
    case False
    then have "hd (L b) \<noteq> c" using c [of b] b by simp
    then show ?thesis using False un [of "int (hd (L b))"] by (simp add: refs_of_def del: fun_upd_apply) (simp add: refs_of_def)
  qed
qed

lemma refs_opened:
  assumes o: "open_on ecc path s cs cc V L N D G H nx" and a: "a \<in> set (entries_list (em (vol s)))" "b \<in> set (entries_list (em (vol s)))"
  shows "refs_of (G(int nx + 1 \<mapsto> (int (hd (L a)), 0))) L b = opened (refs_of G L) a b"
proof -
  note fresh = fresh_handle [OF o]
  note un = users_new [of G, OF fresh, of "int (hd (L a))" 0 "int (hd (L b))"]
  show ?thesis
  proof (cases "b = a")
    case True
    have "int nx + 1 \<notin> users G (int (hd (L a)))" using fresh by (auto simp: users_def)
    then show ?thesis using True un users_finite(1) [OF desk_table [OF open_desk [OF o]]] by (simp add: refs_of_def opened_def)
  next
    case False
    then have "hd (L b) \<noteq> hd (L a)" using heads_differ [OF open_files_on [OF o] a(2,1)] by auto
    then show ?thesis using False un by (simp add: refs_of_def opened_def)
  qed
qed

lemma refs_closed:
  assumes o: "open_on ecc path s cs cc V L N D G H nx" and a: "a \<in> set (entries_list (em (vol s)))" "b \<in> set (entries_list (em (vol s)))" and h: "G h = Some (int (hd (L a)), off)"
  shows "refs_of G L b = opened (refs_of (G(h := None)) L) a b"
proof -
  let ?G = "G(h := None)"
  note ug = users_gone(1) [where G = G and h = h, OF h] users_gone(2) [of h G]
  have fin: "finite (users ?G i)" for i
    by (rule finite_subset [OF _ users_finite(1) [OF desk_table [OF open_desk [OF o]], of i]]) (auto simp: users_def split: if_splits)
  show ?thesis
  proof (cases "b = a")
    case True
    have "users G (int (hd (L a))) = insert h (users ?G (int (hd (L a))))" using ug(1) [of "int (hd (L a))"] by simp
    then have "card (users G (int (hd (L a)))) = card (users ?G (int (hd (L a)))) + 1" using ug(2) [of "int (hd (L a))"] fin by simp
    then show ?thesis unfolding True by (simp add: refs_of_def opened_def)
  next
    case False
    then have "hd (L b) \<noteq> hd (L a)" using heads_differ [OF open_files_on [OF o] a(2,1)] by auto
    then have "users G (int (hd (L b))) = users ?G (int (hd (L b)))" using ug(1) [of "int (hd (L b))"] by simp
    then show ?thesis using False by (simp add: refs_of_def opened_def)
  qed
qed

lemma create_call:
  assumes o: "open_on ecc path s cs cc V L N D G H nx" and A: "A = (files_of (vol s) N D, length (idlelist (vm (fsys (vol s)))), H, nx)"
    and ok: "call_ok m (CreateEntry k) A"
  shows "\<exists>s'. call_step path (CreateEntry k) s = Some (fst (call_spec m (CreateEntry k) A), s') \<and> holds_sys ecc path cs cc s' (snd (call_spec m (CreateEntry k) A))"
proof -
  have k: "client_name k" and nx: "int nx < 2 ^ 31 - 2" using ok A by simp_all
  obtain b1 v1 where 1: "ent_malloc sizeof_descriptor (vol s) = (Some b1, v1)" "files_with (refs_of G L) ecc path v1 cs cc V L N D" "kept_vol (vol s) v1"
    "idlelist (vm (fsys v1)) = idlelist (vm (fsys (vol s)))" using malloc_files [OF open_files_on [OF o] sizes(2)] by blast
  obtain b2 v2 where 2: "ent_malloc sizeof_io_task v1 = (Some b2, v2)" "files_with (refs_of G L) ecc path v2 cs cc V L N D" "kept_vol v1 v2"
    "idlelist (vm (fsys v2)) = idlelist (vm (fsys v1))" using malloc_files [OF 1(2) sizes(1)] by blast
  have e: "entries_list (em v2) = entries_list (em (vol s))" using kept_entries [OF 1(3)] kept_entries [OF 2(3)] by simp
  have F2: "files_of v2 N D = files_of (vol s) N D" by (rule files_of_entries [OF e])
  show ?thesis
  proof (cases "files_of (vol s) N D k")
    case None
    have I: "idlelist (vm (fsys v2)) \<noteq> []" using ok A None 1(4) 2(4) by simp
    obtain v3 V' a c where 3: "evfs_entries_create_one (Some k) True v2 = Some (0, Some (int c), v3)"
      "files_with ((refs_of G L)(a := (1, 0))) ecc path v3 cs cc V' (L(a := [c])) (N(a := k)) (D(a := []))" "a \<notin> set (entries_list (em v2))"
      "entries_list (em v3) = entries_list (em v2) @ [a]" "idlelist (vm (fsys v3)) = tl (idlelist (vm (fsys v2)))"
      using create_files [OF 2(2) k _ I] F2 None by auto
    let ?G = "G(int nx + 1 \<mapsto> (int c, 0))" and ?H = "H(int nx + 1 \<mapsto> (k, 0))" and ?L = "L(a := [c])"
    obtain s' where s': "evfs_create_entry (Some k) s = Some (int nx + 1, s')" "vol s' = v3" "desk (dm s') ?G (nx + 1)"
      using create_entry_run [OF open_desk [OF o] 1(1) 2(1) 3(1)] nx by auto
    have cn: "hd (L b) \<noteq> c" if "b \<in> set (entries_list (em (vol s)))" for b
    proof
      assume "hd (L b) = c"
      moreover have ab: "b \<noteq> a" using that 3(3) e by auto
      ultimately have "hd (?L b) = hd (?L a)" by simp
      then show False using heads_differ [OF 3(2), of b a] that 3(4) e ab by auto
    qed
    have "files_with (refs_of ?G ?L) ecc path v3 cs cc V' ?L (N(a := k)) (D(a := []))"
      by (rule files_cong [OF 3(2)]) (rule refs_created [OF o cn], simp_all add: 3(4) e)
    moreover have "linked_handles (entries_list (em v3)) ?L (N(a := k)) ?G ?H"
      by (rule linkedI [OF open_linked [OF o], of "int nx + 1"]) (use 3(3,4) e in auto)
    ultimately have "open_on ecc path s' cs cc V' ?L (N(a := k)) (D(a := [])) ?G ?H (nx + 1)" using s'(2,3) nx by (simp add: open_on_def)
    then have "holds_sys ecc path cs cc s' ((files_of (vol s) N D)(k \<mapsto> []), length (idlelist (vm (fsys (vol s)))) - 1, ?H, nx + 1)"
      by (rule holds_sysI) (use files_of_put [OF 3(4,3), of N D k "[]"] F2 None s'(2) 1(4) 2(4) 3(5) in simp_all)
    then show ?thesis using s'(1) A None by (auto simp: opens_def)
  next
    case (Some d)
    obtain a where a: "find (\<lambda>a. N a = k) (entries_list (em v2)) = Some a" using found_file [OF 2(2) k, of d] Some F2 by auto
    have "evfs_entries_search_named_head k v2 = Some (Some a)" using find_file [OF 2(2) k] a search_named_index [of k v2] k by (simp add: client_name_def)
    then have "evfs_entries_create_one (Some k) True v2 = Some (posix__makeerror EEXIST, None, v2)" by (simp add: evfs_entries_create_one_def)
    from create_entry_fails [OF open_desk [OF o] 1(1) 2(1) this] obtain s' where
      s': "evfs_create_entry (Some k) s = Some (- 1, s')" "vol s' = v2" "desk (dm s') G nx" by (auto simp: error_not_success NSP_SUCCESS_def posix__makeerror_def errno_defs)
    have "holds_sys ecc path cs cc s' A" unfolding A by (rule holds_same [OF o s'(3)]) (use s'(2) 2(2) e in simp_all)
    then show ?thesis using s'(1) A Some by auto
  qed
qed

lemma open_call:
  assumes o: "open_on ecc path s cs cc V L N D G H nx" and A: "A = (files_of (vol s) N D, length (idlelist (vm (fsys (vol s)))), H, nx)"
    and ok: "call_ok m (OpenEntry k) A"
  shows "\<exists>s'. call_step path (OpenEntry k) s = Some (fst (call_spec m (OpenEntry k) A), s') \<and> holds_sys ecc path cs cc s' (snd (call_spec m (OpenEntry k) A))"
proof -
  have k: "client_name k" and nx: "int nx < 2 ^ 31 - 2" using ok A by simp_all
  obtain b1 v1 where 1: "ent_malloc sizeof_descriptor (vol s) = (Some b1, v1)" "files_with (refs_of G L) ecc path v1 cs cc V L N D" "kept_vol (vol s) v1"
    "idlelist (vm (fsys v1)) = idlelist (vm (fsys (vol s)))" using malloc_files [OF open_files_on [OF o] sizes(2)] by blast
  note e = kept_entries [OF 1(3)]
  have F1: "files_of v1 N D = files_of (vol s) N D" by (rule files_of_entries [OF e])
  show ?thesis
  proof (cases "files_of (vol s) N D k")
    case None
    have "evfs_entries_open_one_by_name (Some k) True v1 = Some (posix__makeerror ENOENT, None, v1)"
      using absent_file(2) [OF 1(2) k] None F1 by (simp add: evfs_entries_open_one_by_name_def error_not_success)
    from open_key_fails [OF open_desk [OF o] 1(1) this] obtain s' where
      s': "evfs_open_entry_by_key (Some k) s = Some (- 1, s')" "vol s' = v1" "desk (dm s') G nx" by (auto simp: error_not_success)
    have "holds_sys ecc path cs cc s' A" unfolding A by (rule holds_same [OF o s'(3)]) (use s'(2) 1(2) e in simp_all)
    then show ?thesis using s'(1) A None by auto
  next
    case (Some d)
    obtain a where a: "a \<in> set (entries_list (em v1))" "N a = k" using found_file [OF 1(2) k, of d] Some F1 by auto
    obtain v2 where 2: "evfs_entries_open_one_by_name (Some k) True v1 = Some (0, Some (int (hd (L a))), v2)" "files_with (opened (refs_of G L) a) ecc path v2 cs cc V L N D"
      "kept_vol v1 v2" "fsys v2 = fsys v1" using open_files [OF 1(2) a(1) open_refs [OF o]] a(2) by auto
    let ?G = "G(int nx + 1 \<mapsto> (int (hd (L a)), 0))" and ?H = "H(int nx + 1 \<mapsto> (k, 0))"
    obtain s' where s': "evfs_open_entry_by_key (Some k) s = Some (int nx + 1, s')" "vol s' = v2" "desk (dm s') ?G (nx + 1)"
      using open_key_run [OF open_desk [OF o] 1(1) 2(1)] nx by auto
    have e2: "entries_list (em v2) = entries_list (em (vol s))" using e kept_entries [OF 2(3)] by simp
    have "files_with (refs_of ?G L) ecc path v2 cs cc V L N D" by (rule files_cong [OF 2(2)]) (rule refs_opened [OF o], use a(1) e e2 in simp_all)
    moreover have "linked_handles (entries_list (em v2)) L N ?G ?H" by (rule linkedI [OF open_linked [OF o], of "int nx + 1"]) (use e2 a e in auto)
    ultimately have "open_on ecc path s' cs cc V L N D ?G ?H (nx + 1)" using s'(2,3) nx by (simp add: open_on_def)
    then have "holds_sys ecc path cs cc s' (files_of (vol s) N D, length (idlelist (vm (fsys (vol s)))), ?H, nx + 1)"
      by (rule holds_sysI) (use files_of_entries [OF e2] s'(2) 1(4) 2(4) in simp_all)
    then show ?thesis using s'(1) A Some by (auto simp: opens_def)
  qed
qed

text \<open>Rewriting a file changes its clusters only.\<close>

lemma room_rewritten:
  assumes f: "files_with R ecc path s cs cc V L N D" and f': "files_with R' ecc path s' cs cc V' L' N (D(a := d))" and a: "a \<in> set (entries_list (em s))"
    and e: "entries_list (em s') = entries_list (em s)"
  shows "length (idlelist (vm (fsys s'))) + clusters_for (cs - 12) d = length (idlelist (vm (fsys s))) + clusters_for (cs - 12) (D a)"
proof -
  let ?as = "entries_list (em s)" and ?c = "\<lambda>D b. clusters_for (cs - 12) (D b)"
  have d: "distinct ?as" using mem_index [OF vol_memory [OF files_vol [OF f]]] by (simp add: vol_index_def)
  have m: "map (?c (D(a := d))) (remove1 a ?as) = map (?c D) (remove1 a ?as)" by (rule map_cong) (use d in auto)
  have s: "(\<Sum>b\<leftarrow>?as. ?c E b) = ?c E a + (\<Sum>b\<leftarrow>remove1 a ?as. ?c E b)" for E using sum_list_map_remove1 [OF a, of "?c E"] by simp
  have "(\<Sum>b\<leftarrow>?as. ?c (D(a := d)) b) + clusters_for (cs - 12) (D a) = (\<Sum>b\<leftarrow>?as. ?c D b) + clusters_for (cs - 12) d"
    unfolding s [of "D(a := d)"] s [of D] m by simp
  then show ?thesis using files_room [OF f] files_room [OF f'] e by simp
qed

lemma clusters_for_empty: "32 \<le> m \<Longrightarrow> clusters_for m [] = 1"
  by (simp add: clusters_for_def div_nat_eqI)

lemma write_call:
  assumes o: "open_on ecc path s cs cc V L N D G H nx" and A: "A = (files_of (vol s) N D, length (idlelist (vm (fsys (vol s)))), H, nx)"
    and ok: "call_ok (cs - 12) (WriteEntry h d) A"
  shows "\<exists>s'. call_step path (WriteEntry h d) s = Some (fst (call_spec (cs - 12) (WriteEntry h d) A), s') \<and>
    holds_sys ecc path cs cc s' (snd (call_spec (cs - 12) (WriteEntry h d) A))"
proof -
  obtain k where k: "H h = Some (k, 0)" "files_of (vol s) N D k = Some []" "d \<noteq> []" "clusters_for (cs - 12) d \<le> 1 + length (idlelist (vm (fsys (vol s))))" using ok A by auto
  obtain a where a: "a \<in> set (entries_list (em (vol s)))" "G h = Some (int (hd (L a)), 0)" "k = N a" using handle_obtain [OF o k(1)] by auto
  have "files_of (vol s) N D k = Some (D a)" using files_of_iff [OF open_files_on [OF o]] a by blast
  then have Da: "D a = []" using k(2) by simp
  obtain b1 v1 where 1: "ent_malloc sizeof_io_task (vol s) = (Some b1, v1)" "files_with (refs_of G L) ecc path v1 cs cc V L N D" "kept_vol (vol s) v1"
    "idlelist (vm (fsys v1)) = idlelist (vm (fsys (vol s)))" using malloc_files [OF open_files_on [OF o] sizes(1)] by blast
  have a1: "a \<in> set (entries_list (em v1))" using a(1) kept_entries [OF 1(3)] by simp
  obtain v2 V2 L2 where 2: "evfs_entries_write_data (int (hd (L a))) (Some d) 0 (int (length d)) v1 = Some (int (length d), v2)"
    "files_with (refs_of G L) ecc path v2 cs cc V2 L2 N (D(a := d))" "kept_vol v1 v2" "\<forall>b. b \<noteq> a \<longrightarrow> L2 b = L b" "hd (L2 a) = hd (L a)"
    using write_files [OF 1(2) a1 open_refs [OF o] Da k(3)] k(4) 1(4) by auto
  have e: "entries_list (em v2) = entries_list (em (vol s))" using kept_entries [OF 1(3)] kept_entries [OF 2(3)] by simp
  have b: "int (length d) < 2 ^ 31 - 32" using file_bound [OF 2(2), of a] a(1) e by simp
  let ?i = "int (hd (L a))" let ?G = "G(h \<mapsto> (?i, int (length d)))" and ?H = "H(h \<mapsto> (k, length d))"
  have ex: "evfs_io_task_exec kEvfsIoTaskWrite t \<lparr>vol = v1, dm = m\<rparr> = Some \<lparr>vol = v2, dm = m\<lparr>descriptors := (descriptors m)(c \<mapsto> descr h ?i (int (length d)) 1),
      io_tasks := (io_tasks m)(t \<mapsto> (io_task kEvfsIoTaskWrite (Some d) ?i 0 (int (length d)) EINPROGRESS (Some c))\<lparr>t_status := 0, t_retval := int (length d)\<rparr>)\<rparr>\<rparr>"
    if "descriptors m c = Some (descr h ?i 0 1)" "io_tasks m t = Some (io_task kEvfsIoTaskWrite (Some d) ?i 0 (int (length d)) EINPROGRESS (Some c))" for c t m
    using that 2(1) b k(3) by (simp add: evfs_write_entry_task_def io_task_def on_vol_def move_offset_def put_descriptor_def put_io_task_def c_int_def NSP_STATUS_SUCCESSFUL_def)
  obtain s' where s': "transfer kEvfsIoTaskWrite h (Some d) (int (length d)) s = Some (int (length d), Some d, s')" "vol s' = v2" "desk (dm s') ?G nx"
    using transfer_run [OF open_desk [OF o] a(2) _ _ _ 1(1) ex, where data = "Some d" and n = "int (length d)" and r = "int (length d)" and data' = "Some d"] k(3) by (auto simp: io_task_def)
  have hd2: "hd (L2 c) = hd (L c)" for c using 2(4,5) by (cases "c = a") simp_all
  have "refs_of ?G L2 = refs_of G L" using users_same [where G = G and h = h, OF a(2)] hd2 by (simp add: refs_of_def fun_eq_iff)
  moreover have "linked_handles (entries_list (em v2)) L2 N ?G ?H" by (rule linkedI [OF open_linked [OF o], of h]) (use a b e hd2 in auto)
  ultimately have "open_on ecc path s' cs cc V2 L2 N (D(a := d)) ?G ?H nx" using o 2(2) s'(2,3) by (simp add: open_on_def)
  moreover have "length (idlelist (vm (fsys (vol s)))) + 1 - clusters_for (cs - 12) d = length (idlelist (vm (fsys (vol s'))))"
    using room_rewritten [OF open_files_on [OF o] 2(2) a(1) e] clusters_for_empty [of "cs - 12"] vol_size [OF files_vol [OF 2(2)]] Da s'(2) by simp
  moreover have "(files_of (vol s) N D)(k \<mapsto> d) = files_of (vol s') N (D(a := d))"
    using files_of_rewritten [OF open_files_on [OF o] 2(2) a(1) e] a(3) s'(2) by simp
  ultimately have "holds_sys ecc path cs cc s' ((files_of (vol s) N D)(k \<mapsto> d), length (idlelist (vm (fsys (vol s)))) + 1 - clusters_for (cs - 12) d, ?H, nx)"
    by (intro holds_sysI)
  then show ?thesis using s'(1) k(1) A by (simp add: evfs_write_entry_def)
qed

lemma read_call:
  assumes o: "open_on ecc path s cs cc V L N D G H nx" and A: "A = (files_of (vol s) N D, length (idlelist (vm (fsys (vol s)))), H, nx)"
    and ok: "call_ok m (ReadEntry h n) A"
  shows "\<exists>s'. call_step path (ReadEntry h n) s = Some (fst (call_spec m (ReadEntry h n) A), s') \<and> holds_sys ecc path cs cc s' (snd (call_spec m (ReadEntry h n) A))"
proof -
  obtain k off where k: "H h = Some (k, off)" "0 < n" using ok A by auto
  obtain a where a: "a \<in> set (entries_list (em (vol s)))" "G h = Some (int (hd (L a)), int off)" "k = N a" "int off < 2 ^ 31 - 32" by (rule handle_obtain [OF o k(1)])
  have F: "files_of (vol s) N D k = Some (D a)" using files_of_iff [OF open_files_on [OF o]] a by blast
  obtain b1 v1 where 1: "ent_malloc sizeof_io_task (vol s) = (Some b1, v1)" "files_with (refs_of G L) ecc path v1 cs cc V L N D" "kept_vol (vol s) v1"
    "idlelist (vm (fsys v1)) = idlelist (vm (fsys (vol s)))" using malloc_files [OF open_files_on [OF o] sizes(1)] by blast
  have a1: "a \<in> set (entries_list (em v1))" using a(1) kept_entries [OF 1(3)] by simp
  define t where "t = take n (drop off (D a))"
  let ?buf = "replicate n (0 :: u8)" let ?b = "t @ drop (length t) ?buf"
  obtain v2 where 2: "evfs_entries_read_data (int (hd (L a))) (Some ?buf) (int off) (int n) v1 = Some (int (length t), Some ?b, v2)"
    "files_with (refs_of G L) ecc path v2 cs cc V L N D" "kept_vol v1 v2"
    using read_files [OF 1(2) a1 open_refs [OF o] k(2) _ a(4) t_def, of ?buf] by auto
  have e: "entries_list (em v2) = entries_list (em (vol s))" using kept_entries [OF 1(3)] kept_entries [OF 2(3)] by simp
  have b: "int (off + length t) < 2 ^ 31 - 32" using file_bound [OF 1(2) a1] a(4) by (auto simp: t_def)
  let ?i = "int (hd (L a))" let ?G = "G(h \<mapsto> (?i, int (off + length t)))" and ?H = "H(h \<mapsto> (k, off + length t))"
  have ex: "evfs_io_task_exec kEvfsIoTaskRead j \<lparr>vol = v1, dm = w\<rparr> = Some \<lparr>vol = v2, dm = w\<lparr>descriptors := (descriptors w)(c \<mapsto> descr h ?i (int (off + length t)) 1),
      io_tasks := (io_tasks w)(j \<mapsto> (io_task kEvfsIoTaskRead (Some ?buf) ?i (int off) (int n) EINPROGRESS (Some c))\<lparr>t_data := Some ?b, t_status := 0, t_retval := int (length t)\<rparr>)\<rparr>\<rparr>"
    if "descriptors w c = Some (descr h ?i (int off) 1)" "io_tasks w j = Some (io_task kEvfsIoTaskRead (Some ?buf) ?i (int off) (int n) EINPROGRESS (Some c))" for c j w
  proof (cases "t = []")
    case True
    then have "(descriptors w)(c \<mapsto> descr h ?i (int (off + length t)) 1) = descriptors w" using that(1) by auto
    then show ?thesis using that 2(1) True by (simp add: evfs_read_entry_task_def io_task_def move_offset_def put_io_task_def NSP_STATUS_SUCCESSFUL_def)
  next
    case False
    then show ?thesis using that 2(1) b
      by (simp add: evfs_read_entry_task_def io_task_def move_offset_def put_descriptor_def put_io_task_def c_int_def NSP_STATUS_SUCCESSFUL_def)
  qed
  obtain s' where s': "transfer kEvfsIoTaskRead h (Some ?buf) (int n) s = Some (int (length t), Some ?b, s')" "vol s' = v2" "desk (dm s') ?G nx"
    using transfer_run [OF open_desk [OF o] a(2) _ _ _ 1(1) ex, where data = "Some ?buf" and n = "int n" and r = "int (length t)" and data' = "Some ?b"] k(2) by (auto simp: io_task_def)
  have r: "refs_of ?G L = refs_of G L" using users_same [where G = G and h = h, OF a(2)] by (simp add: refs_of_def fun_eq_iff)
  moreover have "linked_handles (entries_list (em v2)) L N ?G ?H" by (rule linkedI [OF open_linked [OF o], of h]) (use a b e in auto)
  ultimately have "open_on ecc path s' cs cc V L N D ?G ?H nx" using o 2(2) s'(2,3) by (simp add: open_on_def)
  then have "holds_sys ecc path cs cc s' (files_of (vol s) N D, length (idlelist (vm (fsys (vol s)))), ?H, nx)"
    by (rule holds_sysI) (use files_of_entries [OF e] idle_same [OF open_files_on [OF o] 2(2) e] s'(2) in simp_all)
  moreover have sp: "call_spec m (ReadEntry h n) A = (Content t, files_of (vol s) N D, length (idlelist (vm (fsys (vol s)))), ?H, nx)"
    unfolding t_def by (simp add: A k(1) F Let_def)
  ultimately show ?thesis unfolding sp using s'(1) by (simp add: evfs_read_entry_def id_success)
qed

lemma close_call:
  assumes o: "open_on ecc path s cs cc V L N D G H nx" and A: "A = (files_of (vol s) N D, length (idlelist (vm (fsys (vol s)))), H, nx)"
  shows "\<exists>s'. call_step path (CloseEntry h) s = Some (fst (call_spec m (CloseEntry h) A), s') \<and> holds_sys ecc path cs cc s' (snd (call_spec m (CloseEntry h) A))"
proof (cases "H h")
  case None
  have "holds_sys ecc path cs cc s A" unfolding A by (rule holds_same [OF o open_desk [OF o] open_files_on [OF o] refl])
  moreover have "evfs_close_entry h s = Some s" using desk_ready [OF open_desk [OF o]] reference_unknown [OF open_desk [OF o] handle_absent [OF o None]] by (simp add: evfs_close_entry_def)
  moreover have "H(h := None) = H" using None by auto
  ultimately show ?thesis using A by simp
next
  case (Some x)
  obtain k off where "x = (k, off)" by (cases x)
  then have k: "H h = Some (k, off)" using Some by simp
  obtain a where a: "a \<in> set (entries_list (em (vol s)))" "G h = Some (int (hd (L a)), int off)" "k = N a" by (rule handle_obtain [OF o k])
  let ?G = "G(h := None)" and ?H = "H(h := None)"
  note R = refs_closed [OF o a(1) _ a(2)]
  have f: "files_with (opened (refs_of ?G L) a) ecc path (vol s) cs cc V L N D" by (rule files_cong [OF open_files_on [OF o]]) (rule R [symmetric])
  have r: "refs_ok (opened (refs_of ?G L) a a)" using open_refs [OF o, of a] R [OF a(1)] by simp
  then have r': "refs_ok (refs_of ?G L a)" by (auto simp: refs_ok_def opened_def refs_of_def)
  obtain v where v: "evfs_entries_close_one (int (hd (L a))) (vol s) = Some v" "files_with (refs_of ?G L) ecc path v cs cc V L N D" "kept_vol (vol s) v" "fsys v = fsys (vol s)"
    using close_files [OF f a(1) r' r] by blast
  have "0 < hd (L a)" using vol_chain_range(1) [OF files_vol [OF f] a(1)] vol_chain(3) [OF files_vol [OF f] a(1)] by blast
  then obtain s' where s': "evfs_close_entry h s = Some s'" "vol s' = v" "desk (dm s') ?G nx" using close_entry_run [OF open_desk [OF o] a(2) _ v(1)] by auto
  note e = kept_entries [OF v(3)]
  have "linked_handles (entries_list (em v)) L N ?G ?H" by (rule linkedI [OF open_linked [OF o], of h]) (use e in auto)
  then have "open_on ecc path s' cs cc V L N D ?G ?H nx" using o v(2) s'(2,3) by (simp add: open_on_def)
  then have "holds_sys ecc path cs cc s' (files_of (vol s) N D, length (idlelist (vm (fsys (vol s)))), ?H, nx)"
    by (rule holds_sysI) (use files_of_entries [OF e] v(4) s'(2) in simp_all)
  then show ?thesis using s'(1) A by simp
qed

text \<open>An entry nobody has open may go.\<close>

lemma unused_entry:
  assumes o: "open_on ecc path s cs cc V L N D G H nx" and a: "a \<in> set (entries_list (em (vol s)))" "N a \<notin> fst ` ran H"
  shows "users G (int (hd (L a))) = {}"
proof (rule ccontr)
  assume "users G (int (hd (L a))) \<noteq> {}"
  then obtain h off where g: "G h = Some (int (hd (L a)), off)" by (auto simp: users_def)
  obtain b where b: "b \<in> set (entries_list (em (vol s)))" "int (hd (L a)) = int (hd (L b))" "H h = Some (N b, nat off)" by (rule linked_at [OF o g])
  have "b = a" by (rule heads_differ [OF open_files_on [OF o] b(1) a(1)]) (use b(2) in simp)
  then have "(N a, nat off) \<in> ran H" using b(3) by (auto intro: ranI)
  then show False using a(2) by force
qed

lemma linked_unused:
  assumes o: "open_on ecc path s cs cc V L N D G H nx" and u: "users G (int (hd (L a))) = {}"
  shows "linked_handles (remove1 a (entries_list (em (vol s)))) L N G H"
  unfolding linked_handles_def
proof
  fix h
  show "case G h of None \<Rightarrow> H h = None | Some (i, off) \<Rightarrow> \<exists>a \<in> set (remove1 a (entries_list (em (vol s)))). i = int (hd (L a)) \<and> H h = Some (N a, nat off) \<and> 0 \<le> off \<and> off < 2 ^ 31 - 32"
  proof (cases "G h")
    case None
    then show ?thesis using linked_none [OF o] by simp
  next
    case (Some y)
    obtain i off where y: "y = (i, off)" by (cases y)
    obtain b where b: "b \<in> set (entries_list (em (vol s)))" "i = int (hd (L b))" "H h = Some (N b, nat off)" "0 \<le> off" "off < 2 ^ 31 - 32" using linked_at [OF o] Some y by blast
    have "b \<noteq> a" using u Some y b(2) by (auto simp: users_def)
    then have "b \<in> set (remove1 a (entries_list (em (vol s))))" using b(1) by simp
    then show ?thesis using b Some y by auto
  qed
qed

lemma erase_call:
  assumes o: "open_on ecc path s cs cc V L N D G H nx" and A: "A = (files_of (vol s) N D, length (idlelist (vm (fsys (vol s)))), H, nx)"
    and ok: "call_ok m (EraseEntry k) A" and m: "m = cs - 12"
  shows "\<exists>s'. call_step path (EraseEntry k) s = Some (fst (call_spec m (EraseEntry k) A), s') \<and> holds_sys ecc path cs cc s' (snd (call_spec m (EraseEntry k) A))"
proof -
  have k: "client_name k" "k \<notin> fst ` ran H" using ok A by simp_all
  obtain b1 v1 where 1: "ent_malloc sizeof_io_task (vol s) = (Some b1, v1)" "files_with (refs_of G L) ecc path v1 cs cc V L N D" "kept_vol (vol s) v1"
    using malloc_files [OF open_files_on [OF o] sizes(1)] by blast
  have F1: "files_of v1 N D = files_of (vol s) N D" by (rule files_of_entries [OF kept_entries [OF 1(3)]])
  show ?thesis
  proof (cases "files_of (vol s) N D k")
    case None
    have "evfs_entries_get_entry_id_by_name (Some k) v1 = Some (posix__makeerror ENOENT, v1)"
      using absent_file(2) [OF 1(2) k(1)] None F1 by (simp add: evfs_entries_get_entry_id_by_name_def error_not_success)
    then have "evfs_earse_entry_by_key (Some k) s = Some (posix__makeerror ENOENT, s\<lparr>vol := v1\<rparr>)"
      using desk_ready [OF open_desk [OF o]] 1(1) by (simp add: evfs_earse_entry_by_key_def sys_malloc_def on_vol_def posix__makeerror_def errno_defs)
    moreover have "holds_sys ecc path cs cc (s\<lparr>vol := v1\<rparr>) A" unfolding A
      by (rule holds_same [OF o]) (use 1(2) open_desk [OF o] kept_entries [OF 1(3)] in simp_all)
    ultimately show ?thesis using A None by auto
  next
    case (Some d)
    obtain v2 a where 2: "evfs_entries_get_entry_id_by_name (Some k) v1 = Some (int (hd (L a)), v2)" "files_with (refs_of G L) ecc path v2 cs cc V L N D" "kept_vol v1 v2"
      "a \<in> set (entries_list (em v2))" "D a = d" using named_files [OF 1(2) k(1) _ open_refs [OF o], of d] Some F1 by auto
    have e: "entries_list (em v2) = entries_list (em (vol s))" using kept_entries [OF 1(3)] kept_entries [OF 2(3)] by simp
    have F2: "files_of v2 N D = files_of (vol s) N D" by (rule files_of_entries [OF e])
    obtain a' where a': "a' \<in> set (entries_list (em v2))" "N a' = k" "D a' = d" "evfs_entries_search_named_head k v2 = Some (Some a')"
      using found_file [OF 2(2) k(1), of d] find_named [OF vol_memory [OF files_vol [OF 2(2)]] _ k(1)] Some F2 by metis
    have users0: "users G (int (hd (L a'))) = {}" by (rule unused_entry [OF o]) (use a'(1,2) e k(2) in simp_all)
    then have "refs_of G L a' = (0, 0)" by (simp add: refs_of_def)
    then obtain v3 V3 where 3: "evfs_entries_hard_delete_by_name (Some k) v2 = Some (0, v3)" "files_with (refs_of G L) ecc path v3 cs cc V3 L N D"
      "entries_list (em v3) = remove1 a' (entries_list (em v2))" using remove_files [OF 2(2) a'(1)] a'(2) by auto
    have "0 < hd (L a)" using vol_chain_range(1) [OF files_vol [OF 2(2)] 2(4)] vol_chain(3) [OF files_vol [OF 2(2)] 2(4)] by blast
    then obtain s' where s': "evfs_earse_entry_by_key (Some k) s = Some (0, s')" "vol s' = v3" "desk (dm s') G nx"
      using erase_key_run [OF open_desk [OF o] 1(1) 2(1) _ 3(1)] by auto
    have "linked_handles (entries_list (em v3)) L N G H" unfolding 3(3) e by (rule linked_unused [OF o users0])
    then have "open_on ecc path s' cs cc V3 L N D G H nx" using o 3(2) s'(2,3) by (simp add: open_on_def)
    moreover have "(files_of (vol s) N D)(k := None) = files_of (vol s') N D" using files_of_remove [OF 2(2) a'(1,2) 3(3)] F2 s'(2) by simp
    moreover have "length (idlelist (vm (fsys (vol s)))) + clusters_for m d = length (idlelist (vm (fsys (vol s'))))"
      using files_room [OF open_files_on [OF o]] files_room [OF 3(2)] 3(3) e a'(3) m s'(2) sum_list_map_remove1 [OF a'(1), of "\<lambda>b. clusters_for (cs - 12) (D b)"] by simp
    ultimately have "holds_sys ecc path cs cc s' ((files_of (vol s) N D)(k := None), length (idlelist (vm (fsys (vol s)))) + clusters_for m d, H, nx)" by (intro holds_sysI)
    then show ?thesis using s'(1) A Some by simp
  qed
qed

lemma restart_call:
  assumes o: "open_on ecc path s cs cc V L N D G H nx" and A: "A = (files_of (vol s) N D, length (idlelist (vm (fsys (vol s)))), H, nx)"
  shows "\<exists>s'. call_step path (Restart n h) s = Some (fst (call_spec m (Restart n h) A), s') \<and> holds_sys ecc path cs cc s' (snd (call_spec m (Restart n h) A))"
proof -
  have r: "\<forall>a \<in> set (entries_list (em (vol s))). snd (refs_of G L a) = 0" by (simp add: refs_of_def)
  obtain v1 c c' v' where 1: "evfs_entries_uninit (vol s) = Some v1" "evfs_cache_uninit (store (fsys v1)) = Some c"
    "evfs_cache_init 0 (Some path) (int n) None c = Some (0, c')" "evfs_entries_load (head_bytes h) (v1\<lparr>fsys := (fsys v1)\<lparr>store := c'\<rparr>\<rparr>) = Some (0, v')"
    "holds_files ecc path cs cc v' (files_of (vol s) N D, length (idlelist (vm (fsys (vol s)))))"
    using restart_files [OF open_files_on [OF o] r] by blast
  obtain w where 2: "evfs_close s = Some \<lparr>vol = v1\<lparr>fsys := (fsys v1)\<lparr>store := c\<rparr>\<rparr>, dm = w\<rparr>" "closed w" using close_run_all [OF open_desk [OF o] 1(1,2)] by blast
  obtain s' where 3: "evfs_open 0 (head_bytes h) (Some path) (int n) \<lparr>vol = v1\<lparr>fsys := (fsys v1)\<lparr>store := c\<rparr>\<rparr>, dm = w\<rparr> = Some (0, s')" "vol s' = v'" "desk (dm s') Map.empty 0"
    using open_run_all [of "\<lparr>vol = v1\<lparr>fsys := (fsys v1)\<lparr>store := c\<rparr>\<rparr>, dm = w\<rparr>" path "int n" c' "head_bytes h" v'] 1(3,4) 2(2) by auto
  obtain V' L' N' D' where f: "files_on ecc path v' cs cc V' L' N' D'" "files_of (vol s) N D = files_of v' N' D'" "length (idlelist (vm (fsys (vol s)))) = length (idlelist (vm (fsys v')))"
    using 1(5) by (auto simp: holds_files_def)
  have "refs_of Map.empty L' = (\<lambda>_. (0, 0))" by (simp add: refs_of_def users_def fun_eq_iff)
  moreover have "linked_handles (entries_list (em v')) L' N' Map.empty Map.empty" by (simp add: linked_handles_def)
  ultimately have "open_on ecc path s' cs cc V' L' N' D' Map.empty Map.empty 0" using f(1) 3(2,3) by (simp add: open_on_def)
  then have "holds_sys ecc path cs cc s' (files_of (vol s) N D, length (idlelist (vm (fsys (vol s)))), Map.empty, 0)" by (rule holds_sysI) (use f(2,3) 3(2) in simp_all)
  then show ?thesis using 2(1) 3(1) A by simp
qed

lemma call_step_law:
  assumes h: "holds_sys ecc path cs cc s A" and ok: "call_ok (cs - 12) opn A"
  shows "\<exists>s'. call_step path opn s = Some (fst (call_spec (cs - 12) opn A), s') \<and> holds_sys ecc path cs cc s' (snd (call_spec (cs - 12) opn A))"
proof -
  obtain F free H nx where "A = (F, free, H, nx)" by (cases A)
  then obtain V L N D G where o: "open_on ecc path s cs cc V L N D G H nx" and A: "A = (files_of (vol s) N D, length (idlelist (vm (fsys (vol s)))), H, nx)"
    using h by (auto simp: holds_sys_def)
  show ?thesis
  proof (cases opn)
    case (CreateEntry k)
    then show ?thesis using create_call [OF o A] ok by blast
  next
    case (OpenEntry k)
    then show ?thesis using open_call [OF o A] ok by blast
  next
    case (WriteEntry h d)
    then show ?thesis using write_call [OF o A] ok by blast
  next
    case (ReadEntry h n)
    then show ?thesis using read_call [OF o A] ok by blast
  next
    case (SeekEntry h x)
    then show ?thesis using seek_call [OF o A] ok A by simp
  next
    case (EntryLength h)
    then show ?thesis using length_call [OF o A] by blast
  next
    case (CloseEntry h)
    then show ?thesis using close_call [OF o A] by blast
  next
    case (EraseEntry k)
    then show ?thesis using erase_call [OF o A _ refl] ok by blast
  next
    case (Restart n h)
    then show ?thesis using restart_call [OF o A] by blast
  qed
qed

interpretation api: refining "holds_sys ecc path cs cc" "call_step path" "call_spec (cs - 12)" "call_ok (cs - 12)"
  for ecc path cs cc
  by unfold_locales (fact call_step_law)

text \<open>A new file system holds no files.\<close>

definition blank_sys :: "evfs_sys \<Rightarrow> bool" where
  "blank_sys s \<longleftrightarrow> blank_vol (vol s) \<and> closed (dm s)"

lemma format_cache:
  assumes s: "blank_fs s" and g: "geometry_ok cs cc" and n: "0 \<le> n"
  shows "\<exists>c. evfs_cache_init 0 (Some path) n (Some (int cs, int cc)) (store s) = Some (0, c)"
proof -
  obtain e1 V where 0: "evfs_hard_create (Some path) (int cs) (int cc) (env (store s)) = Some (0, e1)" "store_holds cc path e1 cs cc V"
    using create_holds [of "env (store s)" cs cc path] s g by (auto simp: blank_fs_def geometry_ok_def)
  then show ?thesis using init_serves [of "store s" n "Some path" "Some (int cs, int cc)" e1, OF _ n _ 0(2)] s by (auto simp: blank_fs_def)
qed

lemma create_holds_nothing:
  assumes b: "blank_sys s" and g: "geometry_ok cs cc"
  shows "\<exists>s'. evfs_create 0 (Some path) (int cs) (int cc) (int n) s = Some (0, s') \<and> holds_sys cc path cs cc s' (Map.empty, cc - 1, Map.empty, 0)"
proof -
  obtain v where v: "format_vol path n cs cc (vol s) = Some (0, v)" "holds_files cc path cs cc v (Map.empty, cc - 1)"
    using format_files [of "vol s" cs cc path n] b g by (auto simp: blank_sys_def)
  obtain st c where c: "evfs_cache_init 0 (Some path) (int n) (Some (int cs, int cc)) (store (fsys (vol s))) = Some (st, c)"
    "evfs_entries_create ((vol s)\<lparr>fsys := (fsys (vol s))\<lparr>store := c\<rparr>\<rparr>) = Some (0, v)" using v(1) by (auto simp: format_vol_def split: bind_splits)
  have p: "0 < int cs" "0 < int cc" using g by (simp_all add: geometry_ok_def)
  have st: "st = 0" using format_cache [of "fsys (vol s)" cs cc "int n" path] c(1) b g by (auto simp: blank_sys_def blank_vol_def)
  obtain s' where s': "evfs_create 0 (Some path) (int cs) (int cc) (int n) s = Some (0, s')" "vol s' = v" "desk (dm s') Map.empty 0"
    using create_run_all [OF _ p c(1) [unfolded st] c(2)] b by (auto simp: blank_sys_def)
  obtain V L N D where f: "files_on cc path v cs cc V L N D" "Map.empty = files_of v N D" "cc - 1 = length (idlelist (vm (fsys v)))"
    using v(2) by (auto simp: holds_files_def)
  have "refs_of Map.empty L = (\<lambda>_. (0, 0))" by (simp add: refs_of_def users_def fun_eq_iff)
  then have "open_on cc path s' cs cc V L N D Map.empty Map.empty 0" using f(1) s'(2,3) by (simp add: open_on_def linked_handles_def)
  then have "holds_sys cc path cs cc s' (Map.empty, cc - 1, Map.empty, 0)" by (rule holds_sysI) (use f(2,3) s'(2) in simp_all)
  then show ?thesis using s'(1) by blast
qed

section \<open>Properties\<close>


definition sample_sys :: evfs_sys where
  "sample_sys = \<lparr>vol = sample_vol, dm = evfs_descriptor_mgr0\<rparr>"

lemma sample_sys_blank: "blank_sys sample_sys"
  using sample_vol_blank clix.invar_empty clix.lookup_empty
  by (simp add: blank_sys_def sample_sys_def closed_def evfs_descriptor_mgr0_def table_def index_of_def)

definition sample_calls :: "evfs_call list" where
  "sample_calls = [CreateEntry [65], WriteEntry 1 (replicate 100 7), OpenEntry [65], SeekEntry 2 98, ReadEntry 2 20, ReadEntry 2 20, CreateEntry [65],
     Restart 0 \<lparr>data_seg_size = 7, next_cluster_id = 5, head_cluster_id = 6\<rparr>, EntryLength 1, OpenEntry [65], EntryLength 1, CloseEntry 1, EraseEntry [65], OpenEntry [65]]"

lemma sample_calls_ok: "all_ok (call_ok 116) (call_spec 116) sample_calls (Map.empty, 2, Map.empty, 0)"
  by (simp add: sample_calls_def client_name_def clusters_for_def opens_def Let_def)

lemma sample_calls_replies:
  "fst (spec_run (call_spec 116) sample_calls (Map.empty, 2, Map.empty, 0)) =
    [Status 1, Status 100, Status 2, Status 0, Content [7, 7], Content [], Status (- 1), Status 0, Status (posix__makeerror ENOENT), Status 1, Status 100, Status 0, Status 0, Status (- 1)]"
  by (simp add: sample_calls_def clusters_for_def opens_def Let_def numeral_2_eq_2)


text \<open>Two faults of the code: a transfer with an unknown handle gives a NULL pointer back, and the task of \<^verbatim>\<open>evfs_flush\<close> flushes nothing.\<close>

lemma evfs_unknown_handle_fatal:
  assumes "desk (dm s) G nx" "G h = None" "0 < h" "0 < n"
  shows "evfs_write_entry h (Some d) n s = None" "evfs_read_entry h (Some d) n s = None"
  using assms reference_unknown [OF assms(1,2)] desk_ready [OF assms(1)] by (simp_all add: evfs_write_entry_def evfs_read_entry_def transfer_def)

lemma evfs_flush_does_nothing:
  assumes "get_io_task s t = Some (io_task kEvfsIoTaskFlushAll None 0 0 0 0 None)"
  shows "evfs_io_task_exec kEvfsIoTaskFlushAll t s =
    Some (put_io_task t ((io_task kEvfsIoTaskFlushAll None 0 0 0 0 None)\<lparr>t_status := NSP_STATUS_SUCCESSFUL, t_retval := posix__makeerror EINVAL\<rparr>) s)"
  using assms by (simp add: evfs_read_entry_task_def io_task_def evfs_entries_read_data_def)

end
