(* ===== verification/Spec2Isabelle.thy ===== *)
theory Spec2Isabelle
  imports ObjectTable Cfifo HashCrc Base64 Des Md5 Sha256 Naos Rtlstr Matrix2d Refs Cstack EvfsSession
begin

text \<open>
  Verification of libnax, a C library of containers, codecs, a handle table and a file system inside a file.

  \<^bold>\<open>The program.\<close> The library has a base of containers and text routines (\<^verbatim>\<open>src/src/*.c\<close>), an operating-system layer
  (\<^verbatim>\<open>src/src/posix/wosi\<close>), a network layer whose links are objects of a handle table (\<^verbatim>\<open>src/src/posix\<close>), and addons. The largest
  addon is the entry file system (\<^verbatim>\<open>src/addons/evfs\<close>): clusters in a file, a write-back cache over the clusters that is
  served by one worker thread, views (the heads of clusters in memory), entries (named chains of clusters), and a public interface of
  descriptors whose calls are tasks of four workers.

  \<^bold>\<open>Theories and sources.\<close>
  \<^item> \<^theory_text>\<open>Prelude\<close>: fixed-width types, the status convention of \<^verbatim>\<open>include/compiler.h\<close>, and memory blocks as byte lists with
    checked access (\<^const>\<open>mem_read\<close>, \<^const>\<open>mem_write\<close>, \<^const>\<open>mem_get\<close>, \<^const>\<open>mem_put\<close>).
  \<^item> \<^theory_text>\<open>AvlTree\<close>: \<^verbatim>\<open>src/avltree.c\<close>. A tree is a datatype whose nodes keep the height field; NULL dereferences are explicit.
    Balance and order are invariants of insertion and removal, searches are searches in the list of nodes. The locale
    \<^verbatim>\<open>keyed_index\<close> states what users of a tree rely on.
  \<^item> \<^theory_text>\<open>ObjectTable\<close>: \<^verbatim>\<open>src/posix/wosi/object.c\<close>. 256 AVL trees of reference-counted objects, refined to one map from handles to
    objects; runs of disciplined callers are a step relation with the reference discipline as invariant.
  \<^item> \<^theory_text>\<open>Cfifo\<close>: \<^verbatim>\<open>src/cfifo.c\<close>, a ring buffer with wrapping counters that refines a bounded byte queue.
  \<^item> \<^theory_text>\<open>HashCrc\<close>, \<^theory_text>\<open>Base64\<close>, \<^theory_text>\<open>Md5\<close>, \<^theory_text>\<open>Des\<close>, \<^theory_text>\<open>Sha256\<close>: the parts of \<^verbatim>\<open>src/hash.c\<close>. The table-driven CRC is the bitwise one; base64 and DES
    are invertible; MD5 fed in pieces and SHA-256 compute the specified digests.
  \<^item> \<^theory_text>\<open>Naos\<close>: \<^verbatim>\<open>src/naos.c\<close>, IPv4 text, hex dumps, command lines. \<^theory_text>\<open>Rtlstr\<close>: \<^verbatim>\<open>src/rtlstr.c\<close> and \<^verbatim>\<open>src/abuff.c\<close>, C strings in blocks.
    \<^theory_text>\<open>Matrix2d\<close>: \<^verbatim>\<open>addons/matrix2d\<close>.
  \<^item> \<^theory_text>\<open>Refs\<close>: \<^verbatim>\<open>src/refs.c\<close>, a counter whose close callback runs exactly once. \<^theory_text>\<open>Cstack\<close>: \<^verbatim>\<open>src/cstack.c\<close>, an intrusive stack on a heap.
  \<^item> \<^theory_text>\<open>Ifos\<close>: the file operations of \<^verbatim>\<open>src/posix/wosi/ifos.c\<close> over a kernel of files, descriptors and a schedule of
    interruptions, short transfers and failures.
  \<^item> \<^theory_text>\<open>EvfsCluster\<close>: \<^verbatim>\<open>addons/evfs/cluster.c\<close> over \<^theory_text>\<open>Ifos\<close>. While no call fails, the file is an array of clusters that survives closing
    and opening; whatever fails, a write changes no other cluster. The locale \<^verbatim>\<open>block_store\<close> is its interface.
  \<^item> \<^theory_text>\<open>EvfsCache\<close>: the tasks and the worker of \<^verbatim>\<open>addons/evfs/cache.c\<close>: nodes on a heap, the lists of used, modified and unused nodes,
    the AVL index (an interpretation of \<^verbatim>\<open>keyed_index\<close>), over \<^theory_text>\<open>EvfsCluster\<close> (through \<^verbatim>\<open>block_store\<close>). The invariant \<^const>\<open>cache_inv\<close> ties them
    together; \<^const>\<open>view\<close> is what users see.
  \<^item> \<^theory_text>\<open>EvfsCacheApi\<close>: the functions users of the cache call, starting and stopping it, and the locale \<^verbatim>\<open>cluster_cache\<close>: reads, writes and
    flushes behave as on an array of clusters, and survive a restart.

  \<^item> \<^theory_text>\<open>EvfsView\<close>, \<^theory_text>\<open>EvfsViewApi\<close>: \<^verbatim>\<open>addons/evfs/view.c\<close>. A view is the head of a cluster in memory; views are idle or busy and indexed by an AVL tree.
    The invariant \<^const>\<open>view_inv\<close> ties lists, tree and heads on the disk together. Every operation is safe for the other clusters, and busy
    views come back after a restart.
  \<^item> \<^theory_text>\<open>EvfsEntries\<close>: every function of \<^verbatim>\<open>addons/evfs/entries.c\<close>: heads and elements on a heap, two trees over the heads, the states and
    reference counts of an entry, chains of views. \<^theory_text>\<open>EvfsEntriesInv\<close> has the invariant \<^const>\<open>vol_inv\<close> of a volume, \<^theory_text>\<open>EvfsEntriesData\<close>
    writing and reading chains, \<^theory_text>\<open>EvfsEntriesLife\<close> creating, closing and deleting, \<^theory_text>\<open>EvfsEntriesLoad\<close> stopping and recognizing
    entries while loading.
  \<^item> \<^theory_text>\<open>EvfsEntriesFiles\<close>, \<^theory_text>\<open>EvfsEntriesApi\<close>: a client of the entries. The locales \<^verbatim>\<open>refining\<close> and \<^verbatim>\<open>durable\<close> state that a machine follows a
    specification and keeps what it holds over a restart; they are interpreted on a volume (from the kernel's files up to the names
    of entries), whose specification is a map from names to contents with the number of free clusters.

  \<^item> \<^theory_text>\<open>Evfs\<close>: every function of \<^verbatim>\<open>addons/evfs/evfs.c\<close>: descriptors in a list and a tree, tasks and the workers that run them,
    the table of handlers, the public calls and the iterators. \<^theory_text>\<open>EvfsDesk\<close> has the invariant \<^const>\<open>desk\<close> of the descriptors and shows that a
    queued task is performed and its descriptor given back.
  \<^item> \<^theory_text>\<open>EvfsSession\<close>: sessions of a client, sequences of public calls with closing and opening the file in between. Another interpretation of
    \<^verbatim>\<open>refining\<close> shows that a session gives the replies of a map of files with a map of handles; it rests on every layer below.

  \<^bold>\<open>Conventions.\<close> An outer \<^typ>\<open>'a option\<close> is undefined behaviour of C: an access outside a block or to released memory, a NULL
  dereference, a signed overflow, a failed assertion. Error returns are values of \<^typ>\<open>nsp_status\<close>. A pointer argument that may be NULL is an
  option. Locks make each operation one atomic step. Allocators are schedules or parameters, and uninitialised memory has arbitrary
  content. The cluster and cache theorems assume \<^const>\<open>calm\<close> kernels (no call fails; interruptions and short transfers are allowed) and
  \<^const>\<open>roomy\<close> allocators where they say that operations succeed.

  \<^bold>\<open>Termination and bounds.\<close> Loops are structural recursions or have a measure: the remaining input, the remaining events of a
  schedule, the length of a list. \<^const>\<open>md5_blocks\<close> counts down from the length of the input, which bounds its number of blocks.
  AVL heights stay below 127 for trees of fewer than \<open>2 ^ 64\<close> nodes.

  Loops of the entries whose end depends on the shape of a chain are \<^theory_text>\<open>partial_function\<close>s, so that not ending is \<^term>\<open>None\<close>; the theorems
  show that they end on well-formed volumes.

  \<^bold>\<open>Not modelled.\<close> The message queue \<^verbatim>\<open>addons/mesgq\<close>, the configuration reader \<^verbatim>\<open>addons/etc_reader\<close> and the transmit queues of the network layer. Sockets, epoll, threads, clocks, the logger and
  the process and directory wrappers are system calls. \<^verbatim>\<open>addons/redis\<close>, \<^verbatim>\<open>zmalloc.c\<close> and \<^verbatim>\<open>siphash.c\<close> are third-party code; the Windows
  files repeat the POSIX ones over another interface; the C++ wrapper, demos and tests use the library.
\<close>

end
